(* ===== verification/Go_Prelude.thy ===== *)
theory Go_Prelude
  imports Main "HOL-Library.Word" "HOL-Library.Code_Target_Nat"
begin

text \<open>
  Prelude of the development: the error values of the Go package, the result type and
  its bind, byte slices, the big- and little-endian codecs of encoding/binary, the
  range check the parsers share, and the generic list lemmas about them.

  Conventions. A Go \<open>byte\<close> is \<^typ>\<open>8 word\<close>. A \<open>uint32\<close> or \<open>uint64\<close> is a \<^typ>\<open>nat\<close>
  with the wrap-around of the source written out (\<open>mod 2 ^ 32\<close>) wherever an
  operation on it can leave its range; components whose logic is bitwise use words.
  A Go slice expression or index outside its bounds is the error value \<open>Panic\<close>, so
  that the absence of run-time panics is a theorem and not an assumption.
\<close>

section \<open>Errors and results\<close>

type_synonym byte = "8 word"

text \<open>
  The sentinel errors of types.go and the standard errors the package returns. The
  argument is the message's constant text; the formatted arguments are left out.
  \<open>Joined\<close> is errors.Join, \<open>Wrapped\<close> is an error with a context prefix,
  \<open>VerificationFailure\<close> a VerificationError: diagnostic, architecture, omitArchitecture, cause.
\<close>

datatype error =
    Malformed string
  | Unsupported string
  | Invalid string
  | ErrUnsigned
  | ErrSigned
  | ErrUntrusted
  | ErrRequirement
  | ErrDesignatedRequirement
  | IoEOF
  | IoUnexpectedEOF
  | IoShortWrite
  | OsClosed
  | Canceled
  | Plain string
  | Wrapped string error
  | Joined "error list"
  | VerificationFailure string "byte list" bool error
  | Panic

type_synonym 'a result = "error + 'a"

definition rbind :: "'a result \<Rightarrow> ('a \<Rightarrow> 'b result) \<Rightarrow> 'b result" where
  "rbind r k = (case r of Inl e \<Rightarrow> Inl e | Inr v \<Rightarrow> k v)"

named_theorems result_simps "evaluation and inversion of results"
named_theorems byte_simps "codec and slice rewriting"

lemma rbind_Inr [simp]: "rbind (Inr v) k = k v"
  and rbind_Inl [simp]: "rbind (Inl e) k = Inl e"
  by (simp_all add: rbind_def)

lemma rbind_eq_Inr [result_simps]: "rbind r k = Inr v \<longleftrightarrow> (\<exists>u. r = Inr u \<and> k u = Inr v)"
  by (cases r) simp_all

lemma rbind_eq_Inl [result_simps]:
  "rbind r k = Inl e \<longleftrightarrow> r = Inl e \<or> (\<exists>u. r = Inr u \<and> k u = Inl e)"
  by (cases r) auto

text \<open>An early error return, inverted without a case split.\<close>

lemma guard_eq_Inr [result_simps]: "(if c then Inl e else r) = Inr v \<longleftrightarrow> \<not> c \<and> r = Inr v"
  and guard_eq_Inl [result_simps]: "(if c then Inl e else r) = Inl e' \<longleftrightarrow> c \<and> e = e' \<or> \<not> c \<and> r = Inl e'"
  by auto

lemma rbind_cong [fundef_cong]:
  "r = r' \<Longrightarrow> (\<And>v. r' = Inr v \<Longrightarrow> k v = k' v) \<Longrightarrow> rbind r k = rbind r' k'"
  by (cases r') simp_all

text \<open>A result that is not a panic, the shape of every no-panic lemma.\<close>

definition safe :: "'a result \<Rightarrow> bool" where
  "safe r \<longleftrightarrow> r \<noteq> Inl Panic"

lemma safe_Inr [simp]: "safe (Inr v)"
  and safe_Inl [simp]: "safe (Inl e) \<longleftrightarrow> e \<noteq> Panic"
  by (simp_all add: safe_def)

lemma safe_rbind: "safe r \<Longrightarrow> (\<And>v. r = Inr v \<Longrightarrow> safe (k v)) \<Longrightarrow> safe (rbind r k)"
  by (cases r) simp_all

lemma safe_rbind_pair:
  "safe r \<Longrightarrow> (\<And>a b. r = Inr (a, b) \<Longrightarrow> safe (k a b)) \<Longrightarrow> safe (rbind r (\<lambda>(a, b). k a b))"
  by (cases r) auto

lemma safe_if: "(c \<Longrightarrow> safe a) \<Longrightarrow> (\<not> c \<Longrightarrow> safe b) \<Longrightarrow> safe (if c then a else b)"
  by simp

section \<open>Slices and ranges\<close>

text \<open>\<open>data[off : off+n]\<close>, total; \<open>slice_at\<close> is the checked form, as Go evaluates it.\<close>

definition slice :: "'a list \<Rightarrow> nat \<Rightarrow> nat \<Rightarrow> 'a list" where
  "slice xs off n = take n (drop off xs)"

definition slice_at :: "'a list \<Rightarrow> nat \<Rightarrow> nat \<Rightarrow> 'a list result" where
  "slice_at xs off n = (if off + n \<le> length xs then Inr (slice xs off n) else Inl Panic)"

text \<open>rangeOK of blob.go: the subtraction is guarded, so it never wraps.\<close>

definition rangeOK :: "nat \<Rightarrow> nat \<Rightarrow> nat \<Rightarrow> bool" where
  "rangeOK off sz tot \<longleftrightarrow> off \<le> tot \<and> sz \<le> tot - off"

lemma rangeOK_iff: "rangeOK off sz tot \<longleftrightarrow> off + sz \<le> tot"
  by (auto simp: rangeOK_def)

lemma length_slice [simp]: "length (slice xs off n) = min n (length xs - off)"
  by (simp add: slice_def min.commute)

lemma slice_at_ok [simp]: "off + n \<le> length xs \<Longrightarrow> slice_at xs off n = Inr (slice xs off n)"
  by (simp add: slice_at_def)

lemma slice_at_Inr [result_simps]:
  "slice_at xs off n = Inr ys \<longleftrightarrow> off + n \<le> length xs \<and> ys = slice xs off n"
  by (auto simp: slice_at_def)

lemma slice_slice: "off' + n' \<le> n \<Longrightarrow> slice (slice xs off n) off' n' = slice xs (off + off') n'"
  by (simp add: slice_def drop_take min_absorb1 add.commute)

lemma slice_all [simp]: "n = length xs \<Longrightarrow> slice xs 0 n = xs"
  by (simp add: slice_def)

lemma slice_append1 [byte_simps]: "off + n \<le> length xs \<Longrightarrow> slice (xs @ ys) off n = slice xs off n"
  by (simp add: slice_def)

lemma slice_append2 [byte_simps]:
  "length xs \<le> off \<Longrightarrow> slice (xs @ ys) off n = slice ys (off - length xs) n"
  by (simp add: slice_def)

lemma slice_append_exact [byte_simps]: "slice (xs @ ys) (length xs) n = take n ys"
  by (simp add: slice_def)

lemma nth_slice: "i < n \<Longrightarrow> off + i < length xs \<Longrightarrow> slice xs off n ! i = xs ! (off + i)"
  by (simp add: slice_def)

lemma slice_0 [simp]: "slice xs off 0 = []"
  by (simp add: slice_def)

lemma slice_split: "slice xs off (m + n) = slice xs off m @ slice xs (off + m) n"
  by (simp add: slice_def take_add add.commute)

section \<open>encoding/binary\<close>

text \<open>The unsigned value of a byte slice, most significant byte first.\<close>

definition be_nat :: "byte list \<Rightarrow> nat" where
  "be_nat bs = foldl (\<lambda>a b. a * 256 + unat b) 0 bs"

text \<open>The \<open>k\<close> bytes of \<open>n mod 256 ^ k\<close>, most significant first.\<close>

primrec be_put :: "nat \<Rightarrow> nat \<Rightarrow> byte list" where
  "be_put 0 n = []"
| "be_put (Suc k) n = of_nat (n div 256 ^ k) # be_put k n"

lemma be_nat_Nil [simp]: "be_nat [] = 0"
  by (simp add: be_nat_def)

lemma be_nat_snoc: "be_nat (bs @ [b]) = be_nat bs * 256 + unat b"
  by (simp add: be_nat_def)

lemma be_nat_append: "be_nat (xs @ ys) = be_nat xs * 256 ^ length ys + be_nat ys"
proof (induction ys rule: rev_induct)
  case (snoc y ys)
  have "be_nat (xs @ ys @ [y]) = be_nat (xs @ ys) * 256 + unat y"
    by (simp flip: append_assoc add: be_nat_snoc)
  with snoc show ?case by (simp add: be_nat_snoc algebra_simps)
qed simp

lemma be_nat_single [simp]: "be_nat [b] = unat b"
  by (simp add: be_nat_def)

lemma be_nat_Cons: "be_nat (b # bs) = unat b * 256 ^ length bs + be_nat bs"
  using be_nat_append [of "[b]" bs] by simp

lemma unat_byte_less: "unat (b :: byte) < 256"
  by (rule order.strict_trans2 [OF unsigned_less]) simp

lemma be_nat_less: "be_nat bs < 256 ^ length bs"
proof (induction bs)
  case (Cons b bs)
  have "unat b * 256 ^ length bs + be_nat bs < (unat b + 1) * 256 ^ length bs"
    using Cons by simp
  also have "\<dots> \<le> 256 * 256 ^ length bs"
    using unat_byte_less [of b] by (intro mult_right_mono) auto
  finally show ?case by (simp add: be_nat_Cons)
qed simp

lemma length_be_put [simp]: "length (be_put k n) = k"
  by (induction k) simp_all

lemma unat_of_nat_byte: "unat (of_nat n :: byte) = n mod 256"
  by (simp add: unat_of_nat)

lemma be_nat_be_put: "be_nat (be_put k n) = n mod 256 ^ k"
proof (induction k)
  case (Suc k)
  have "be_nat (be_put (Suc k) n) = (n div 256 ^ k) mod 256 * 256 ^ k + n mod 256 ^ k"
    using Suc by (simp add: be_nat_Cons unat_of_nat_byte)
  also have "\<dots> = n mod (256 ^ k * 256)"
    by (metis mod_mult2_eq mult.commute)
  finally show ?case by (simp add: mult.commute)
qed simp

lemma be_nat_be_put_small [simp]: "n < 256 ^ k \<Longrightarrow> be_nat (be_put k n) = n"
  by (simp add: be_nat_be_put)

lemma be_put_be_nat: "be_put (length bs) (be_nat bs) = bs"
proof (induction bs)
  case (Cons b bs)
  have eq: "be_put k (m * 256 ^ k + n) = be_put k n" for k m n
  proof (induction k arbitrary: m)
    case (Suc k)
    have "(m * 256 ^ Suc k + n) div 256 ^ k = m * 256 + n div 256 ^ k"
      by (simp add: div_add1_eq mult.assoc)
    moreover have "of_nat (m * 256 + n div 256 ^ k) = (of_nat (n div 256 ^ k) :: byte)"
      by (rule word_unat_eq_iff [THEN iffD2]) (simp only: unat_of_nat_byte mod_mult_self3)
    moreover have "be_put k (m * 256 ^ Suc k + n) = be_put k n"
      using Suc [of "m * 256"] by (simp add: mult.assoc)
    ultimately show ?case by (simp del: power_Suc)
  qed simp
  show ?case
    using Cons be_nat_less [of bs] by (simp add: be_nat_Cons eq)
qed simp

lemma be_put_inj: "be_put k m = be_put k n \<Longrightarrow> m < 256 ^ k \<Longrightarrow> n < 256 ^ k \<Longrightarrow> m = n"
  by (metis be_nat_be_put_small)

datatype byte_order = BigEndian | LittleEndian

definition ord_nat :: "byte_order \<Rightarrow> byte list \<Rightarrow> nat" where
  "ord_nat ord bs = (case ord of BigEndian \<Rightarrow> be_nat bs | LittleEndian \<Rightarrow> be_nat (rev bs))"

definition ord_put :: "byte_order \<Rightarrow> nat \<Rightarrow> nat \<Rightarrow> byte list" where
  "ord_put ord k n = (case ord of BigEndian \<Rightarrow> be_put k n | LittleEndian \<Rightarrow> rev (be_put k n))"

lemma ord_nat_ord_put: "ord_nat ord (ord_put ord k n) = n mod 256 ^ k"
  by (cases ord) (simp_all add: ord_nat_def ord_put_def be_nat_be_put)

lemma length_ord_put [simp]: "length (ord_put ord k n) = k"
  by (cases ord) (simp_all add: ord_put_def)

lemma ord_nat_less: "ord_nat ord bs < 256 ^ length bs"
  using be_nat_less [of bs] be_nat_less [of "rev bs"]
  by (cases ord) (simp_all add: ord_nat_def)

text \<open>
  The fixed-width reads and writes: \<open>rd32 data off\<close> is \<open>be.Uint32(data[off:])\<close>, a
  panic when fewer than four bytes are left; \<open>ord_rd32\<close> is the same under a Mach-O
  file's byte order.
\<close>

definition be32 :: "byte list \<Rightarrow> nat \<Rightarrow> nat" where
  "be32 data off = be_nat (slice data off 4)"

definition be64 :: "byte list \<Rightarrow> nat \<Rightarrow> nat" where
  "be64 data off = be_nat (slice data off 8)"

definition rd8 :: "byte list \<Rightarrow> nat \<Rightarrow> nat result" where
  "rd8 data off = (if off < length data then Inr (unat (data ! off)) else Inl Panic)"

definition rd32 :: "byte list \<Rightarrow> nat \<Rightarrow> nat result" where
  "rd32 data off = (if off + 4 \<le> length data then Inr (be32 data off) else Inl Panic)"

definition rd64 :: "byte list \<Rightarrow> nat \<Rightarrow> nat result" where
  "rd64 data off = (if off + 8 \<le> length data then Inr (be64 data off) else Inl Panic)"

definition ord_rd32 :: "byte_order \<Rightarrow> byte list \<Rightarrow> nat \<Rightarrow> nat result" where
  "ord_rd32 ord data off =
     (if off + 4 \<le> length data then Inr (ord_nat ord (slice data off 4)) else Inl Panic)"

definition ord_rd64 :: "byte_order \<Rightarrow> byte list \<Rightarrow> nat \<Rightarrow> nat result" where
  "ord_rd64 ord data off =
     (if off + 8 \<le> length data then Inr (ord_nat ord (slice data off 8)) else Inl Panic)"

abbreviation put32 :: "nat \<Rightarrow> byte list" where
  "put32 n \<equiv> be_put 4 n"

abbreviation put64 :: "nat \<Rightarrow> byte list" where
  "put64 n \<equiv> be_put 8 n"

lemma rd8_ok [simp]: "off < length data \<Longrightarrow> rd8 data off = Inr (unat (data ! off))"
  by (simp add: rd8_def)

lemma rd32_ok [simp]: "off + 4 \<le> length data \<Longrightarrow> rd32 data off = Inr (be32 data off)"
  by (simp add: rd32_def)

lemma rd64_ok [simp]: "off + 8 \<le> length data \<Longrightarrow> rd64 data off = Inr (be64 data off)"
  by (simp add: rd64_def)

lemma ord_rd32_ok [simp]:
  "off + 4 \<le> length data \<Longrightarrow> ord_rd32 ord data off = Inr (ord_nat ord (slice data off 4))"
  by (simp add: ord_rd32_def)

lemma ord_rd64_ok [simp]:
  "off + 8 \<le> length data \<Longrightarrow> ord_rd64 ord data off = Inr (ord_nat ord (slice data off 8))"
  by (simp add: ord_rd64_def)

lemma rd32_Inr [result_simps]: "rd32 data off = Inr v \<longleftrightarrow> off + 4 \<le> length data \<and> v = be32 data off"
  by (auto simp: rd32_def)

lemma rd64_Inr [result_simps]: "rd64 data off = Inr v \<longleftrightarrow> off + 8 \<le> length data \<and> v = be64 data off"
  by (auto simp: rd64_def)

lemma rd8_Inr [result_simps]: "rd8 data off = Inr v \<longleftrightarrow> off < length data \<and> v = unat (data ! off)"
  by (auto simp: rd8_def)

lemma be32_less: "be32 data off < 2 ^ 32"
proof -
  have "be32 data off < 256 ^ length (slice data off 4)"
    unfolding be32_def by (rule be_nat_less)
  also have "\<dots> \<le> 256 ^ (4 :: nat)"
    by (rule power_increasing) simp_all
  finally show ?thesis by simp
qed

lemma be64_less: "be64 data off < 2 ^ 64"
proof -
  have "be64 data off < 256 ^ length (slice data off 8)"
    unfolding be64_def by (rule be_nat_less)
  also have "\<dots> \<le> 256 ^ (8 :: nat)"
    by (rule power_increasing) simp_all
  finally show ?thesis by simp
qed

lemma ord32_less: "ord_nat ord (slice data off 4) < 2 ^ 32"
proof -
  have "ord_nat ord (slice data off 4) < 256 ^ length (slice data off 4)"
    by (rule ord_nat_less)
  also have "\<dots> \<le> 256 ^ (4 :: nat)"
    by (rule power_increasing) simp_all
  finally show ?thesis by simp
qed

lemma ord64_less: "ord_nat ord (slice data off 8) < 2 ^ 64"
proof -
  have "ord_nat ord (slice data off 8) < 256 ^ length (slice data off 8)"
    by (rule ord_nat_less)
  also have "\<dots> \<le> 256 ^ (8 :: nat)"
    by (rule power_increasing) simp_all
  finally show ?thesis by simp
qed

lemma be32_slice: "off' + 4 \<le> n \<Longrightarrow> be32 (slice xs off n) off' = be32 xs (off + off')"
  by (simp add: be32_def slice_slice)

lemma be32_put32 [byte_simps]: "be32 (put32 n @ xs) 0 = n mod 2 ^ 32"
  by (simp add: be32_def slice_def be_nat_be_put)

lemma be32_append1 [byte_simps]: "off + 4 \<le> length xs \<Longrightarrow> be32 (xs @ ys) off = be32 xs off"
  by (simp add: be32_def slice_append1)

lemma be32_append2 [byte_simps]: "length xs \<le> off \<Longrightarrow> be32 (xs @ ys) off = be32 ys (off - length xs)"
  by (simp add: be32_def slice_append2)

lemma put32_be32: "off + 4 \<le> length xs \<Longrightarrow> put32 (be32 xs off) = slice xs off 4"
  using be_put_be_nat [of "slice xs off 4"] by (simp add: be32_def min_absorb1)

end
