(* ===== verification/Range_Reader.thy ===== *)
theory Range_Reader
  imports Go_Prelude
begin

text \<open>
  The \<open>rangeReader\<close> interface of macho.go, through which every parser of the package
  reads its input, and its in-memory provider. Two contracts: \<open>safe_reader\<close> is what a
  held file that others may edit still guarantees (an in-range request yields the bytes
  asked for or an ordinary error), \<open>range_source\<close> adds that the bytes are those of one
  fixed content. The parsers' safety is proved from the first, their functional
  behaviour from the second.
\<close>

type_synonym range_reader = "nat \<Rightarrow> nat \<Rightarrow> byte list result"

text \<open>memoryRange and ownedMemoryRange: the clone of the second is not observable here.\<close>

definition memoryRange :: "byte list \<Rightarrow> range_reader" where
  "memoryRange data off n = slice_at data off n"

locale safe_reader =
  fixes read :: range_reader and sz :: nat
  assumes read_safe: "off + n \<le> sz \<Longrightarrow> safe (read off n)"
    and read_length: "off + n \<le> sz \<Longrightarrow> read off n = Inr bs \<Longrightarrow> length bs = n"
begin

lemma read_then_safe:
  "off + n \<le> sz \<Longrightarrow> (\<And>bs. read off n = Inr bs \<Longrightarrow> length bs = n \<Longrightarrow> safe (k bs)) \<Longrightarrow>
   safe (rbind (read off n) k)"
  using read_safe read_length by (auto intro: safe_rbind)

end

locale range_source =
  fixes read :: range_reader and content :: "byte list"
  assumes read_content: "off + n \<le> length content \<Longrightarrow> read off n = Inr (slice content off n)"

sublocale range_source \<subseteq> held: safe_reader read "length content"
  by unfold_locales (auto simp: read_content)

interpretation mem: range_source "memoryRange data" data for data :: "byte list"
  by unfold_locales (simp add: memoryRange_def)

text \<open>
  A reader shifted to a sub-range, as container() and inspectContainer build one for a
  slice of a universal file.
\<close>

definition subRange :: "range_reader \<Rightarrow> nat \<Rightarrow> range_reader" where
  "subRange read base off n = read (base + off) n"

lemma subRange_source:
  assumes "range_source read content" "base + len \<le> length content"
  shows "range_source (subRange read base) (slice content base len)"
proof (rule range_source.intro)
  fix off n
  assume "off + n \<le> length (slice content base len)"
  with assms(2) have "off + n \<le> len" by simp
  with assms show "subRange read base off n = Inr (slice (slice content base len) off n)"
    by (simp add: subRange_def range_source.read_content slice_slice add.assoc)
qed

lemma subRange_safe:
  assumes "safe_reader read sz" "base + len \<le> sz"
  shows "safe_reader (subRange read base) len"
  using assms unfolding safe_reader_def subRange_def by (metis (no_types, lifting) add.assoc add_le_mono1 le_trans nat_add_left_cancel_le)

end
