(* ===== verification/Blob_Format.thy ===== *)
theory Blob_Format
  imports Range_Reader
begin

text \<open>
  pkg/codesign/blob.go and the part of types.go and hashing.go it rests on: digests,
  signature SuperBlobs and CodeDirectories, read and written. The hash functions of
  crypto/sha1, sha256 and sha512 are the parameter \<open>hash_lib\<close>.
\<close>

section \<open>Constants, strings and digests\<close>

definition MagicDirectory :: nat where "MagicDirectory = 0xfade0c02"
definition MagicSignature :: nat where "MagicSignature = 0xfade0cc0"
definition MagicRequirements :: nat where "MagicRequirements = 0xfade0c01"
definition MagicRequirement :: nat where "MagicRequirement = 0xfade0c00"
definition MagicEntitlements :: nat where "MagicEntitlements = 0xfade7171"
definition MagicDEREntitlements :: nat where "MagicDEREntitlements = 0xfade7172"
definition MagicCMS :: nat where "MagicCMS = 0xfade0b01"

definition SlotDirectory :: nat where "SlotDirectory = 0"
definition SlotInfo :: nat where "SlotInfo = 1"
definition SlotRequirements :: nat where "SlotRequirements = 2"
definition SlotResources :: nat where "SlotResources = 3"
definition SlotEntitlements :: nat where "SlotEntitlements = 5"
definition SlotRepSpecific :: nat where "SlotRepSpecific = 6"
definition SlotDEREntitlements :: nat where "SlotDEREntitlements = 7"
definition SlotCMS :: nat where "SlotCMS = 0x10000"
definition FlagAdhoc :: nat where "FlagAdhoc = 2"
definition FlagRuntime :: nat where "FlagRuntime = 0x10000"

lemmas magic_defs = MagicDirectory_def MagicSignature_def MagicRequirements_def
  MagicRequirement_def MagicEntitlements_def MagicDEREntitlements_def MagicCMS_def
lemmas slot_defs = SlotDirectory_def SlotInfo_def SlotRequirements_def SlotResources_def
  SlotEntitlements_def SlotRepSpecific_def SlotDEREntitlements_def SlotCMS_def

text \<open>A Go string is its bytes; \<open>str\<close> writes a literal.\<close>

type_synonym gostring = "byte list"

definition str :: "string \<Rightarrow> gostring" where
  "str s = map (\<lambda>c. of_nat (of_char c)) s"

definition hexdigit :: "nat \<Rightarrow> byte" where
  "hexdigit n = (if n < 10 then of_nat (48 + n) else of_nat (87 + n))"

text \<open>hex.EncodeToString.\<close>

definition hexEncode :: "byte list \<Rightarrow> gostring" where
  "hexEncode bs = concat (map (\<lambda>b. [hexdigit (unat b div 16), hexdigit (unat b mod 16)]) bs)"

record hash_lib =
  sha1 :: "byte list \<Rightarrow> byte list"
  sha256 :: "byte list \<Rightarrow> byte list"
  sha384 :: "byte list \<Rightarrow> byte list"

text \<open>The documented digest sizes, as the array types of the Go functions fix them.\<close>

definition hash_lib_ok :: "hash_lib \<Rightarrow> bool" where
  "hash_lib_ok H \<longleftrightarrow> (\<forall>d. length (sha1 H d) = 20) \<and> (\<forall>d. length (sha256 H d) = 32)
     \<and> (\<forall>d. length (sha384 H d) = 48)"

definition digest :: "hash_lib \<Rightarrow> nat \<Rightarrow> byte list \<Rightarrow> byte list result" where
  "digest H kind data =
     (if kind = 1 then Inr (sha1 H data)
      else if kind = 2 then Inr (sha256 H data)
      else if kind = 3 then Inr (take 20 (sha256 H data))
      else if kind = 4 then Inr (sha384 H data)
      else Inl (Unsupported ''hash type''))"

lemma digest_safe [simp]: "safe (digest H kind data)"
  by (simp add: digest_def)

lemma digest_kind: "digest H kind data = Inr h \<Longrightarrow> kind \<in> {1, 2, 3, 4}"
  by (auto simp: digest_def split: if_splits)

lemma digest_length:
  "hash_lib_ok H \<Longrightarrow> digest H kind data = Inr h \<Longrightarrow> length h \<in> {20, 32, 48}"
  by (auto simp: digest_def hash_lib_ok_def split: if_splits)

section \<open>CodeDirectory\<close>

record Directory =
  Version :: nat
  Flags :: nat
  Identifier :: gostring
  TeamID :: gostring
  HashType :: nat
  HashSize :: nat
  PageExponent :: nat
  Platform :: nat
  CodeLimit :: nat
  CodeSlots :: nat
  SpecialSlots :: nat
  HashOffset :: nat
  ExecBase :: nat
  ExecLimit :: nat
  ExecFlags :: nat
  Runtime :: nat
  CDHash :: gostring
  FullHash :: gostring
  Raw :: "byte list"

definition cstring :: "byte list \<Rightarrow> nat \<Rightarrow> gostring result" where
  "cstring data off =
     (if off \<ge> length data then Inl (Malformed ''string offset'')
      else if 0 \<notin> set (drop off data) then Inl (Malformed ''unterminated string'')
      else Inr (takeWhile (\<lambda>b. b \<noteq> 0) (drop off data)))"

text \<open>The version table of parseDirectory: the header grows with the version.\<close>

definition directoryHeader :: "nat \<Rightarrow> nat" where
  "directoryHeader version =
     foldl (\<lambda>header (v, size). if version \<ge> v then size else header) 44
       [(0x20100, 48), (0x20200, 52), (0x20300, 64), (0x20400, 88), (0x20500, 96), (0x20600, 108)]"

text \<open>
  An optional versioned field: read when \<open>present\<close>, otherwise the zero value.
\<close>

definition when_rd :: "bool \<Rightarrow> (byte list \<Rightarrow> nat \<Rightarrow> nat result) \<Rightarrow> byte list \<Rightarrow> nat \<Rightarrow> nat result" where
  "when_rd present rd raw off = (if present then rd raw off else Inr 0)"

definition parseDirectory :: "hash_lib \<Rightarrow> byte list \<Rightarrow> Directory result" where
  "parseDirectory H raw =
    (if length raw < 44 then Inl (Malformed ''CodeDirectory header'') else
     rbind (rd32 raw 0) (\<lambda>magic.
     if magic \<noteq> MagicDirectory then Inl (Malformed ''CodeDirectory header'') else
     rbind (rd32 raw 8) (\<lambda>version. rbind (rd32 raw 12) (\<lambda>flags. rbind (rd32 raw 16) (\<lambda>hashOffset.
     rbind (rd32 raw 24) (\<lambda>special. rbind (rd32 raw 28) (\<lambda>codeSlots. rbind (rd32 raw 32) (\<lambda>limit32.
     rbind (rd8 raw 36) (\<lambda>hashSize. rbind (rd8 raw 37) (\<lambda>hashType. rbind (rd8 raw 38) (\<lambda>platform.
     rbind (rd8 raw 39) (\<lambda>pageExp.
     if version < 0x20001 \<or> version > 0x20600 then Inl (Unsupported ''CodeDirectory version'') else
     let header = directoryHeader version in
     if length raw < header then Inl (Malformed ''truncated versioned CodeDirectory'') else
     rbind (digest H hashType raw) (\<lambda>h.
     if hashSize \<noteq> length h \<or> pageExp > 31 then Inl (Malformed ''hash size or page exponent'') else
     rbind (when_rd (version \<ge> 0x20100) rd32 raw 44) (\<lambda>scatter.
     if scatter \<noteq> 0 then Inl (Unsupported ''scatter CodeDirectory'') else
     rbind (rd32 raw 20) (\<lambda>identOff.
     if identOff < header then Inl (Malformed ''identifier overlaps header'') else
     rbind (cstring raw identOff) (\<lambda>ident.
     rbind (when_rd (version \<ge> 0x20200) rd32 raw 48) (\<lambda>teamOff.
     rbind (if teamOff \<noteq> 0 then cstring raw teamOff else Inr []) (\<lambda>team.
     rbind (when_rd (version \<ge> 0x20300) rd64 raw 56) (\<lambda>limit64.
     rbind (when_rd (version \<ge> 0x20400) rd64 raw 64) (\<lambda>execBase.
     rbind (when_rd (version \<ge> 0x20400) rd64 raw 72) (\<lambda>execLimit.
     rbind (when_rd (version \<ge> 0x20400) rd64 raw 80) (\<lambda>execFlags.
     rbind (when_rd (version \<ge> 0x20500) rd32 raw 88) (\<lambda>runtime.
     if hashOffset < header + special * hashSize
        \<or> \<not> rangeOK hashOffset (codeSlots * hashSize) (length raw)
     then Inl (Malformed ''CodeDirectory hash bounds'') else
     Inr \<lparr>Version = version, Flags = flags, Identifier = ident, TeamID = team,
          HashType = hashType, HashSize = hashSize, PageExponent = pageExp, Platform = platform,
          CodeLimit = (if limit64 \<noteq> 0 then limit64 else limit32), CodeSlots = codeSlots,
          SpecialSlots = special, HashOffset = hashOffset, ExecBase = execBase,
          ExecLimit = execLimit, ExecFlags = execFlags, Runtime = runtime,
          CDHash = hexEncode (take 20 h), FullHash = hexEncode h, Raw = raw\<rparr>
     )))))))))))))))))))))))"

lemma directoryHeader_bounds:
  "44 \<le> directoryHeader v" "v \<ge> 0x20100 \<Longrightarrow> 48 \<le> directoryHeader v"
  "v \<ge> 0x20200 \<Longrightarrow> 52 \<le> directoryHeader v" "v \<ge> 0x20300 \<Longrightarrow> 64 \<le> directoryHeader v"
  "v \<ge> 0x20400 \<Longrightarrow> 88 \<le> directoryHeader v" "v \<ge> 0x20500 \<Longrightarrow> 96 \<le> directoryHeader v"
  "directoryHeader v \<le> 108"
  by (simp_all add: directoryHeader_def)

lemma cstring_safe [simp]: "safe (cstring data off)"
  by (simp add: cstring_def)

lemma cstring_Inr:
  "cstring data off = Inr s \<Longrightarrow>
   off + length s < length data \<and> s = slice data off (length s) \<and> data ! (off + length s) = 0 \<and> 0 \<notin> set s"
proof -
  assume a: "cstring data off = Inr s"
  let ?d = "drop off data"
  from a have s: "s = takeWhile (\<lambda>b. b \<noteq> 0) ?d" and z: "0 \<in> set ?d" and off: "off < length data"
    by (auto simp: cstring_def split: if_splits)
  from z have "takeWhile (\<lambda>b. b \<noteq> 0) ?d \<noteq> ?d"
    by (auto simp: takeWhile_eq_all_conv)
  then have l: "length s < length ?d"
    using s by (metis length_takeWhile_le nat_less_le takeWhile_eq_take take_all_iff order_refl)
  from nth_length_takeWhile [of "\<lambda>b. b \<noteq> 0" ?d] l s have "?d ! length s = 0" by simp
  moreover have "s = slice data off (length s)"
    unfolding slice_def using s takeWhile_eq_take [of "\<lambda>b. b \<noteq> 0" ?d] by simp
  moreover have "0 \<notin> set s"
    using s by (metis (mono_tags, lifting) set_takeWhileD)
  ultimately show ?thesis
    using l off by simp
qed

lemma directory_reads:
  assumes "directoryHeader v \<le> length raw"
  shows "when_rd (v \<ge> 0x20100) rd32 raw 44 = Inr (if v \<ge> 0x20100 then be32 raw 44 else 0)"
    "when_rd (v \<ge> 0x20200) rd32 raw 48 = Inr (if v \<ge> 0x20200 then be32 raw 48 else 0)"
    "when_rd (v \<ge> 0x20300) rd64 raw 56 = Inr (if v \<ge> 0x20300 then be64 raw 56 else 0)"
    "when_rd (v \<ge> 0x20400) rd64 raw 64 = Inr (if v \<ge> 0x20400 then be64 raw 64 else 0)"
    "when_rd (v \<ge> 0x20400) rd64 raw 72 = Inr (if v \<ge> 0x20400 then be64 raw 72 else 0)"
    "when_rd (v \<ge> 0x20400) rd64 raw 80 = Inr (if v \<ge> 0x20400 then be64 raw 80 else 0)"
    "when_rd (v \<ge> 0x20500) rd32 raw 88 = Inr (if v \<ge> 0x20500 then be32 raw 88 else 0)"
  using assms directoryHeader_bounds [of v] by (auto simp: when_rd_def)

lemma directory_fields:
  assumes "\<not> length raw < 44"
  shows "rd32 raw 0 = Inr (be32 raw 0)" "rd32 raw 8 = Inr (be32 raw 8)"
    "rd32 raw 12 = Inr (be32 raw 12)" "rd32 raw 16 = Inr (be32 raw 16)"
    "rd32 raw 20 = Inr (be32 raw 20)" "rd32 raw 24 = Inr (be32 raw 24)"
    "rd32 raw 28 = Inr (be32 raw 28)" "rd32 raw 32 = Inr (be32 raw 32)"
    "rd8 raw 36 = Inr (unat (raw ! 36))" "rd8 raw 37 = Inr (unat (raw ! 37))"
    "rd8 raw 38 = Inr (unat (raw ! 38))" "rd8 raw 39 = Inr (unat (raw ! 39))"
  using assms by simp_all

lemma parseDirectory_safe: "safe (parseDirectory H raw)"
proof (cases "length raw < 44")
  case False
  show ?thesis
  proof (cases "length raw < directoryHeader (be32 raw 8)")
    case True
    with False show ?thesis by (simp add: parseDirectory_def)
  next
    case hdr: False
    then have "directoryHeader (be32 raw 8) \<le> length raw" by simp
    note reads = directory_fields [OF False] directory_reads [OF this]
    show ?thesis
      unfolding parseDirectory_def Let_def reads rbind_Inr
      by (intro safe_if safe_rbind; simp)
  qed
qed (simp add: parseDirectory_def)

text \<open>
  What a parsed directory guarantees: its identifier and hash table lie inside its own
  bytes, after the header and the special slots, and the slot size is the digest's.
\<close>

definition directory_wf :: "Directory \<Rightarrow> bool" where
  "directory_wf d \<longleftrightarrow>
     directoryHeader (Version d) + SpecialSlots d * HashSize d \<le> HashOffset d \<and>
     HashOffset d + CodeSlots d * HashSize d \<le> length (Raw d) \<and>
     PageExponent d \<le> 31 \<and> HashType d \<in> {1, 2, 3, 4} \<and>
     Version d \<in> {0x20001..0x20600} \<and>
     SpecialSlots d < 2 ^ 32 \<and> CodeSlots d < 2 ^ 32 \<and> HashOffset d < 2 ^ 32 \<and>
     CodeLimit d < 2 ^ 64 \<and> HashSize d < 256 \<and> 0 \<notin> set (Identifier d) \<and> 0 \<notin> set (TeamID d)"

lemma parseDirectory_wf:
  assumes "parseDirectory H raw = Inr d"
  shows "directory_wf d \<and> Raw d = raw \<and> (\<exists>h. digest H (HashType d) raw = Inr h
    \<and> HashSize d = length h \<and> CDHash d = hexEncode (take 20 h) \<and> FullHash d = hexEncode h)"
proof -
  from assms have len: "\<not> length raw < 44" by (auto simp: parseDirectory_def)
  with assms have hdr: "directoryHeader (be32 raw 8) \<le> length raw"
    unfolding parseDirectory_def Let_def directory_fields [OF len] rbind_Inr
    by (auto split: if_splits)
  have limit: "be64 raw 56 < 18446744073709551616" "be32 raw 32 < 18446744073709551616"
      "be32 raw 24 < 4294967296" "be32 raw 28 < 4294967296" "be32 raw 16 < 4294967296"
    using be64_less [of raw 56] be32_less [of raw 32] be32_less [of raw 24]
      be32_less [of raw 28] be32_less [of raw 16] by simp_all
  obtain h ident team teamOff where h: "digest H (unat (raw ! 37)) raw = Inr h"
    and facts: "131073 \<le> be32 raw 8" "be32 raw 8 \<le> 132608"
      "unat (raw ! 36) = length h" "unat (raw ! 39) \<le> 31"
      "directoryHeader (be32 raw 8) + be32 raw 24 * unat (raw ! 36) \<le> be32 raw 16"
      "be32 raw 16 + be32 raw 28 * unat (raw ! 36) \<le> length raw"
    and ident: "cstring raw (be32 raw 20) = Inr ident"
    and team: "(if teamOff \<noteq> 0 then cstring raw teamOff else Inr []) = Inr team"
    and d: "d = \<lparr>Version = be32 raw 8, Flags = be32 raw 12, Identifier = ident, TeamID = team,
          HashType = unat (raw ! 37), HashSize = unat (raw ! 36), PageExponent = unat (raw ! 39),
          Platform = unat (raw ! 38),
          CodeLimit = (if (if 131840 \<le> be32 raw 8 then be64 raw 56 else 0) \<noteq> 0
            then (if 131840 \<le> be32 raw 8 then be64 raw 56 else 0) else be32 raw 32),
          CodeSlots = be32 raw 28, SpecialSlots = be32 raw 24, HashOffset = be32 raw 16,
          ExecBase = (if 132096 \<le> be32 raw 8 then be64 raw 64 else 0),
          ExecLimit = (if 132096 \<le> be32 raw 8 then be64 raw 72 else 0),
          ExecFlags = (if 132096 \<le> be32 raw 8 then be64 raw 80 else 0),
          Runtime = (if 132352 \<le> be32 raw 8 then be32 raw 88 else 0),
          CDHash = hexEncode (take 20 h), FullHash = hexEncode h, Raw = raw\<rparr>"
    using assms len
    unfolding parseDirectory_def Let_def directory_fields [OF len] directory_reads [OF hdr] rbind_Inr
    by (simp only: result_simps rangeOK_iff not_less not_le de_Morgan_disj not_not if_False
        simp_thms sum.inject)
       (elim exE conjE, rule that; (assumption | erule sym))
  have "0 \<notin> set team" "0 \<notin> set ident"
    using team ident by (auto dest: cstring_Inr split: if_splits)
  then show ?thesis
    using facts h limit digest_kind [OF h] unat_byte_less [of "raw ! 36"]
    by (simp add: d directory_wf_def)
qed

section \<open>SuperBlobs\<close>

record Blob =
  Slot :: nat
  Magic :: nat
  Data :: "byte list"

record Signature =
  Length :: nat
  Blobs :: "Blob list"
  Directories :: "Directory list"

text \<open>blob and superblob: length fields are truncated to 32 bits by \<open>be_put\<close>.\<close>

definition blob :: "nat \<Rightarrow> byte list \<Rightarrow> byte list" where
  "blob magic payload = put32 magic @ put32 (8 + length payload) @ payload"

fun sb_index :: "nat \<Rightarrow> Blob list \<Rightarrow> byte list" where
  "sb_index p [] = []"
| "sb_index p (b # bs) = put32 (Slot b) @ put32 p @ sb_index (p + length (Data b)) bs"

definition superblob :: "nat \<Rightarrow> Blob list \<Rightarrow> byte list" where
  "superblob magic blobs =
    (let bs = sort_key Slot blobs; data = concat (map Data bs);
         start = 12 + 8 * length bs
     in put32 magic @ put32 (start + length data) @ put32 (length bs) @ sb_index start bs @ data)"

text \<open>(s *Signature) find: nil and an absent slot are both the empty slice.\<close>

fun find_blob :: "Blob list \<Rightarrow> nat \<Rightarrow> byte list" where
  "find_blob [] slot = []"
| "find_blob (b # bs) slot = (if Slot b = slot then Data b else find_blob bs slot)"

text \<open>The slot's required magic, 0 when the map literal has no entry.\<close>

definition expectedMagic :: "nat \<Rightarrow> nat" where
  "expectedMagic slot =
     (if slot = SlotRequirements then MagicRequirements
      else if slot = SlotEntitlements then MagicEntitlements
      else if slot = SlotDEREntitlements then MagicDEREntitlements
      else if slot = SlotCMS then MagicCMS else 0)"

definition isDirectorySlot :: "nat \<Rightarrow> bool" where
  "isDirectorySlot slot \<longleftrightarrow> slot = 0 \<or> slot \<ge> 0x1000 \<and> slot < 0x1005"

text \<open>The locals of the parsing loop: seen, spans and the signature under construction.\<close>

record sig_state =
  seen :: "nat list"
  spans :: "(nat \<times> nat) list"
  blobs :: "Blob list"
  dirs :: "Directory list"

text \<open>
  One turn of the loop of parseSignatureRange. \<open>len\<close> and \<open>count\<close> are the header's
  fields; \<open>12 + count * 8\<close> and \<open>off + n\<close> are uint32 expressions.
\<close>

definition sig_entry ::
  "hash_lib \<Rightarrow> range_reader \<Rightarrow> nat \<Rightarrow> nat \<Rightarrow> nat \<Rightarrow> sig_state \<Rightarrow> sig_state result" where
  "sig_entry H read len count i st =
    rbind (read (12 + i * 8) 8) (\<lambda>entry.
    rbind (rd32 entry 0) (\<lambda>slot. rbind (rd32 entry 4) (\<lambda>off.
    if slot \<in> set (seen st) then Inl (Malformed ''duplicate signature slot'') else
    if off < (12 + count * 8) mod 2 ^ 32 \<or> \<not> rangeOK off 8 len
    then Inl (Malformed ''blob header bounds'') else
    rbind (read off 8) (\<lambda>blobHeader. rbind (rd32 blobHeader 4) (\<lambda>n.
    if n < 8 \<or> \<not> rangeOK off n len then Inl (Malformed ''blob length'') else
    rbind (read off n) (\<lambda>data. rbind (slice_at data 0 8) (\<lambda>prefix.
    if prefix \<noteq> blobHeader
    then Inl (Malformed ''signature component changed while reading'') else
    rbind (rd32 blobHeader 0) (\<lambda>magic.
    if expectedMagic slot \<noteq> 0 \<and> magic \<noteq> expectedMagic slot
    then Inl (Malformed ''magic for signature slot'') else
    let st' = st\<lparr>seen := slot # seen st, spans := spans st @ [(off, (off + n) mod 2 ^ 32)],
                 blobs := blobs st @ [\<lparr>Slot = slot, Magic = magic, Data = data\<rparr>]\<rparr>
    in if isDirectorySlot slot
       then rbind (parseDirectory H data) (\<lambda>d. Inr (st'\<lparr>dirs := dirs st @ [d]\<rparr>))
       else Inr st'))))))))"

fun sig_entries ::
  "hash_lib \<Rightarrow> range_reader \<Rightarrow> nat \<Rightarrow> nat \<Rightarrow> nat \<Rightarrow> nat \<Rightarrow> sig_state \<Rightarrow> sig_state result" where
  "sig_entries H read len count i 0 st = Inr st"
| "sig_entries H read len count i (Suc k) st =
     rbind (sig_entry H read len count i st) (sig_entries H read len count (Suc i) k)"

text \<open>The overlap pass over the spans sorted by start: each against its predecessor.\<close>

fun adjacentOverlap :: "(nat \<times> nat) list \<Rightarrow> bool" where
  "adjacentOverlap ((s1, e1) # (s2, e2) # rest) = (s2 < e1 \<or> adjacentOverlap ((s2, e2) # rest))"
| "adjacentOverlap _ = False"

definition parseSignatureRange ::
  "hash_lib \<Rightarrow> nat \<Rightarrow> range_reader \<Rightarrow> bool \<Rightarrow> Signature result" where
  "parseSignatureRange H sz read allowUnsigned =
    (if sz < 12 then Inl (Malformed ''signature SuperBlob'') else
     rbind (read 0 12) (\<lambda>header.
     rbind (rd32 header 0) (\<lambda>magic.
     if magic \<noteq> MagicSignature then Inl (Malformed ''signature SuperBlob'') else
     rbind (rd32 header 4) (\<lambda>len. rbind (rd32 header 8) (\<lambda>count.
     if len < 12 \<or> len > sz \<or> count * 8 > len - 12
     then Inl (Malformed ''signature index bounds'') else
     rbind (sig_entries H read len count 0 count
              \<lparr>seen = [], spans = [], blobs = [], dirs = []\<rparr>) (\<lambda>st.
     if adjacentOverlap (sort_key fst (spans st))
     then Inl (Malformed ''overlapping signature blobs'') else
     if 0 \<notin> set (seen st) \<and> (\<not> allowUnsigned \<or> dirs st \<noteq> [])
     then Inl (Malformed ''missing primary CodeDirectory'') else
     Inr \<lparr>Length = len, Blobs = blobs st, Directories = dirs st\<rparr>))))))"

definition parseSignature :: "hash_lib \<Rightarrow> byte list \<Rightarrow> bool \<Rightarrow> Signature result" where
  "parseSignature H data allowUnsigned =
     parseSignatureRange H (length data) (memoryRange data) allowUnsigned"

subsection \<open>Safety: no reader that keeps the interface can make the parser panic\<close>

context safe_reader begin

lemma sig_entry_safe:
  assumes "12 + Suc i * 8 \<le> len" "len \<le> sz"
  shows "safe (sig_entry H read len count i st)"
  using assms unfolding sig_entry_def Let_def rangeOK_iff
  by (intro safe_if read_then_safe safe_rbind parseDirectory_safe; simp)

lemma sig_entries_safe:
  "12 + (i + k) * 8 \<le> len \<Longrightarrow> len \<le> sz \<Longrightarrow> safe (sig_entries H read len count i k st)"
proof (induction k arbitrary: i st)
  case (Suc k)
  then show ?case by (auto intro!: safe_rbind sig_entry_safe)
qed simp

lemma parseSignatureRange_safe: "safe (parseSignatureRange H sz read allowUnsigned)"
  unfolding parseSignatureRange_def
  by (intro safe_if read_then_safe safe_rbind sig_entries_safe; auto)

end

end
