(* ===== verification/Samples.thy ===== *)
theory Samples
  imports Blob_Format
begin

text \<open>
  Small concrete inputs, on which the witnesses evaluate the model: a stand-in for the
  hash functions with the right digest sizes, and the shortest CodeDirectory the parser
  accepts (version 0x20001, identifier "a", no slots).
\<close>

definition sampleHash :: hash_lib where
  "sampleHash = \<lparr>sha1 = (\<lambda>d. replicate 20 (of_nat (length d))),
     sha256 = (\<lambda>d. replicate 32 (of_nat (length d))),
     sha384 = (\<lambda>d. replicate 48 (of_nat (length d)))\<rparr>"

lemma sampleHash_ok: "hash_lib_ok sampleHash"
  by (simp add: hash_lib_ok_def sampleHash_def)

definition sampleDirectory :: "byte list" where
  "sampleDirectory = [0xfa,0xde,0x0c,0x02, 0,0,0,46, 0,2,0,1, 0,0,0,2, 0,0,0,46, 0,0,0,44,
     0,0,0,0, 0,0,0,0, 0,0,0,0, 32,2,0,12, 0,0,0,0, 97,0]"

text \<open>Evaluation of the parsers on literal bytes by the simplifier.\<close>

lemma put32_eval:
  "put32 n = [of_nat (n div 16777216), of_nat (n div 65536), of_nat (n div 256), of_nat n]"
proof -
  have "(4 :: nat) = Suc (Suc (Suc (Suc 0)))" by simp
  then show ?thesis by (simp only: be_put.simps) simp
qed

lemmas parse_eval = put32_eval Let_def be32_def be64_def slice_def rd8_def rd32_def rd64_def slice_at_def
  be_nat_def rangeOK_def magic_defs slot_defs

lemmas directory_eval = parse_eval parseDirectory_def directoryHeader_def digest_def when_rd_def
  cstring_def sampleHash_def

definition sampleBlobs :: "Blob list" where
  "sampleBlobs =
     [\<lparr>Slot = SlotRequirements, Magic = MagicRequirements, Data = superblob MagicRequirements []\<rparr>,
      \<lparr>Slot = SlotDirectory, Magic = MagicDirectory, Data = sampleDirectory\<rparr>]"

definition sampleSignature :: "byte list" where
  "sampleSignature = superblob MagicSignature sampleBlobs"

lemma sample_directory: "\<exists>d. parseDirectory sampleHash sampleDirectory = Inr d"
  by (simp add: sampleDirectory_def directory_eval)

end
