(* ===== verification/Signature_Props.thy ===== *)
theory Signature_Props
  imports Samples "HOL-Library.Multiset"
begin

text \<open>
  Correctness of the owned signature parser of blob.go: what an accepted SuperBlob
  guarantees, and that \<open>superblob\<close> and \<open>parseSignature\<close> are inverse.
\<close>

section \<open>Components by slot\<close>

lemma find_blob_member: "distinct (map Slot bs) \<Longrightarrow> b \<in> set bs \<Longrightarrow> find_blob bs (Slot b) = Data b"
  by (induction bs) (auto simp: rev_image_eqI)

lemma find_blob_absent: "slot \<notin> Slot ` set bs \<Longrightarrow> find_blob bs slot = []"
  by (induction bs) auto

section \<open>The overlap pass\<close>

text \<open>Two half-open ranges that share no byte.\<close>

definition disjointSpan :: "nat \<times> nat \<Rightarrow> nat \<times> nat \<Rightarrow> bool" where
  "disjointSpan a b \<longleftrightarrow> snd a \<le> fst b \<or> snd b \<le> fst a"

definition disjointSpans :: "(nat \<times> nat) list \<Rightarrow> bool" where
  "disjointSpans xs \<longleftrightarrow> sorted_wrt disjointSpan xs"

lemma disjointSpan_sym: "disjointSpan a b \<longleftrightarrow> disjointSpan b a"
  by (auto simp: disjointSpan_def)

lemma sorted_wrt_remove1:
  assumes "\<And>a b. R a b \<longleftrightarrow> R b a" "x \<in> set ys"
  shows "sorted_wrt R ys \<longleftrightarrow> (\<forall>y \<in> set (remove1 x ys). R x y) \<and> sorted_wrt R (remove1 x ys)"
  using assms(2)
proof (induction ys)
  case (Cons y ys)
  show ?case
  proof (cases "x = y")
    case False
    with Cons.prems have "x \<in> set ys" by simp
    then have "set ys = insert x (set (remove1 x ys))"
      using in_set_remove1 [of _ x ys] set_remove1_subset [of x ys] by blast
    with False Cons.IH [OF \<open>x \<in> set ys\<close>] show ?thesis
      using assms(1) [of x y] by auto
  qed simp
qed simp

lemma sorted_wrt_sym_perm:
  assumes "\<And>a b. R a b \<longleftrightarrow> R b a" "mset xs = mset ys"
  shows "sorted_wrt R xs \<longleftrightarrow> sorted_wrt R ys"
  using assms(2)
proof (induction xs arbitrary: ys)
  case (Cons x xs)
  then have "x \<in> set ys" "mset (remove1 x ys) = mset xs"
    by (metis list.set_intros(1) mset_eq_setD, metis add_mset_remove_trivial mset.simps(2) mset_remove1)
  then show ?case
    using Cons.IH [of "remove1 x ys"] sorted_wrt_remove1 [of R x ys, OF assms(1)]
    by (metis mset_eq_setD sorted_wrt.simps(2))
qed simp

lemma adjacentOverlap_sorted:
  "sorted (map fst xs) \<Longrightarrow> (\<forall>x \<in> set xs. fst x < snd x) \<Longrightarrow>
   \<not> adjacentOverlap xs \<longleftrightarrow> sorted_wrt (\<lambda>a b. snd a \<le> fst b) xs"
proof (induction xs rule: adjacentOverlap.induct)
  case (1 s1 e1 s2 e2 rest)
  then show ?case by (auto simp: not_less) (meson le_trans less_imp_le)?
qed auto

lemma sorted_disjoint:
  "sorted_wrt disjointSpan xs \<Longrightarrow> sorted_wrt (\<lambda>a b. fst a \<le> fst b) xs \<Longrightarrow>
   (\<forall>x \<in> set xs. fst x < snd x) \<Longrightarrow> sorted_wrt (\<lambda>a b. snd a \<le> fst b) xs"
proof (induction xs)
  case (Cons a xs)
  have "snd a \<le> fst b" if "b \<in> set xs" for b
    using that Cons.prems by (force simp: disjointSpan_def)
  with Cons show ?case by simp
qed simp

lemma adjacentOverlap_iff:
  assumes "\<forall>x \<in> set xs. fst x < snd x"
  shows "adjacentOverlap (sort_key fst xs) \<longleftrightarrow> \<not> disjointSpans xs"
proof -
  let ?ys = "sort_key fst xs"
  have "\<not> adjacentOverlap ?ys \<longleftrightarrow> sorted_wrt (\<lambda>a b. snd a \<le> fst b) ?ys"
    using assms by (intro adjacentOverlap_sorted) auto
  also have "\<dots> \<longleftrightarrow> sorted_wrt disjointSpan ?ys"
  proof
    assume "sorted_wrt (\<lambda>a b. snd a \<le> fst b) ?ys"
    then show "sorted_wrt disjointSpan ?ys"
      by (rule sorted_wrt_mono_rel [rotated]) (simp add: disjointSpan_def)
  next
    assume "sorted_wrt disjointSpan ?ys"
    moreover have "sorted_wrt (\<lambda>a b. fst a \<le> fst b) ?ys"
      using sorted_sort_key [of fst xs] by (simp add: sorted_map)
    moreover have "\<forall>x \<in> set ?ys. fst x < snd x" using assms by simp
    ultimately show "sorted_wrt (\<lambda>a b. snd a \<le> fst b) ?ys"
      by (intro sorted_disjoint)
  qed
  also have "\<dots> \<longleftrightarrow> disjointSpans xs"
    unfolding disjointSpans_def by (rule sorted_wrt_sym_perm) (auto simp: disjointSpan_def)
  finally show ?thesis by blast
qed

section \<open>What an accepted signature guarantees\<close>

text \<open>
  \<open>entryOff content i\<close> and \<open>entrySlot content i\<close> are the fields of index entry \<open>i\<close>.
  \<open>blob_ok\<close>: the component's bytes are the announced range of the input, after the
  index and inside the declared length; its own header repeats the length; its magic is
  the slot's.
\<close>

definition entrySlot :: "byte list \<Rightarrow> nat \<Rightarrow> nat" where
  "entrySlot content i = be32 content (12 + 8 * i)"

definition entryOff :: "byte list \<Rightarrow> nat \<Rightarrow> nat" where
  "entryOff content i = be32 content (16 + 8 * i)"

definition blob_ok :: "byte list \<Rightarrow> nat \<Rightarrow> nat \<Rightarrow> nat \<Rightarrow> Blob \<Rightarrow> bool" where
  "blob_ok content len cnt i b \<longleftrightarrow>
     Slot b = entrySlot content i \<and> 12 + 8 * cnt \<le> entryOff content i \<and>
     8 \<le> length (Data b) \<and> entryOff content i + length (Data b) \<le> len \<and>
     Data b = slice content (entryOff content i) (length (Data b)) \<and>
     be32 (Data b) 4 = length (Data b) \<and> Magic b = be32 (Data b) 0 \<and>
     (expectedMagic (Slot b) \<noteq> 0 \<longrightarrow> Magic b = expectedMagic (Slot b))"

definition blobSpan :: "byte list \<Rightarrow> nat \<Rightarrow> Blob \<Rightarrow> nat \<times> nat" where
  "blobSpan content i b = (entryOff content i, entryOff content i + length (Data b))"

definition indexed :: "(nat \<Rightarrow> 'a \<Rightarrow> 'b) \<Rightarrow> 'a list \<Rightarrow> 'b list" where
  "indexed f xs = map2 f [0..<length xs] xs"

definition directoriesOf :: "hash_lib \<Rightarrow> Blob list \<Rightarrow> Directory result list" where
  "directoriesOf H bs = map (\<lambda>b. parseDirectory H (Data b)) (filter (\<lambda>b. isDirectorySlot (Slot b)) bs)"

definition signature_wf :: "hash_lib \<Rightarrow> byte list \<Rightarrow> Signature \<Rightarrow> bool" where
  "signature_wf H content sig \<longleftrightarrow>
     be32 content 0 = MagicSignature \<and> Length sig = be32 content 4 \<and>
     Length sig \<le> length content \<and> length (Blobs sig) = be32 content 8 \<and>
     (\<forall>i < length (Blobs sig). blob_ok content (Length sig) (length (Blobs sig)) i (Blobs sig ! i)) \<and>
     distinct (map Slot (Blobs sig)) \<and> disjointSpans (indexed (blobSpan content) (Blobs sig)) \<and>
     directoriesOf H (Blobs sig) = map Inr (Directories sig)"

text \<open>The loop invariant after \<open>i\<close> entries.\<close>

definition sig_inv :: "hash_lib \<Rightarrow> byte list \<Rightarrow> nat \<Rightarrow> nat \<Rightarrow> nat \<Rightarrow> sig_state \<Rightarrow> bool" where
  "sig_inv H content len cnt i st \<longleftrightarrow>
     length (blobs st) = i \<and> seen st = rev (map Slot (blobs st)) \<and> distinct (map Slot (blobs st)) \<and>
     (\<forall>j < i. blob_ok content len cnt j (blobs st ! j)) \<and>
     spans st = indexed (blobSpan content) (blobs st) \<and>
     directoriesOf H (blobs st) = map Inr (dirs st)"

lemma indexed_snoc: "indexed f (xs @ [x]) = indexed f xs @ [f (length xs) x]"
  by (simp add: indexed_def)

lemma indexed_Nil [simp]: "indexed f [] = []"
  by (simp add: indexed_def)

lemma in_set_indexed: "y \<in> set (indexed f xs) \<Longrightarrow> \<exists>i < length xs. y = f i (xs ! i)"
  unfolding indexed_def by (auto simp: in_set_conv_nth) blast

context range_source begin

lemma sig_entry_reads:
  assumes "12 + Suc i * 8 \<le> len" "len \<le> length content"
  shows "read (12 + i * 8) 8 = Inr (slice content (12 + 8 * i) 8)"
    "rd32 (slice content (12 + 8 * i) 8) 0 = Inr (entrySlot content i)"
    "rd32 (slice content (12 + 8 * i) 8) 4 = Inr (entryOff content i)"
  using assms by (simp_all add: read_content mult.commute be32_slice entrySlot_def entryOff_def)

lemma sig_entry_Inr:
  assumes "12 + Suc i * 8 \<le> len" "len \<le> length content" "len < 2 ^ 32" "12 + cnt * 8 \<le> len"
    and r: "sig_entry H read len cnt i st = Inr st'"
  shows "\<exists>b. blob_ok content len cnt i b \<and> Slot b \<notin> set (seen st) \<and>
    seen st' = Slot b # seen st \<and> spans st' = spans st @ [blobSpan content i b] \<and>
    blobs st' = blobs st @ [b] \<and>
    (if isDirectorySlot (Slot b) then \<exists>d. parseDirectory H (Data b) = Inr d \<and> dirs st' = dirs st @ [d]
     else dirs st' = dirs st)"
proof -
  let ?off = "entryOff content i"
  have small: "(12 + cnt * 8) mod 2 ^ 32 = 12 + cnt * 8" using assms by simp
  have hdr: "read ?off 8 = Inr (slice content ?off 8)" if "?off + 8 \<le> len"
    using that assms by (simp add: read_content)
  let ?n = "be32 content (?off + 4)"
  let ?b = "\<lparr>Slot = entrySlot content i, Magic = be32 content ?off, Data = slice content ?off ?n\<rparr>"
  from r [unfolded sig_entry_def sig_entry_reads [OF assms(1,2)] rbind_Inr small]
  have off: "12 + cnt * 8 \<le> ?off" "?off + 8 \<le> len"
    by (auto simp: rangeOK_iff split: if_split_asm)
  with assms have h: "rd32 (slice content ?off 8) 4 = Inr ?n"
      "rd32 (slice content ?off 8) 0 = Inr (be32 content ?off)"
    by (simp_all add: be32_slice)
  from r [unfolded sig_entry_def sig_entry_reads [OF assms(1,2)] rbind_Inr small hdr [OF off(2)] h]
  have n: "8 \<le> ?n" "?off + ?n \<le> len" by (auto simp: rangeOK_iff split: if_split_asm)
  have data: "read ?off ?n = Inr (slice content ?off ?n)"
    "slice_at (slice content ?off ?n) 0 8 = Inr (slice content ?off 8)"
    using n assms by (simp_all add: read_content slice_slice)
  have len: "min ?n (length content - ?off) = ?n" using n assms by simp
  have ok: "blob_ok content len cnt i ?b" if "expectedMagic (Slot ?b) \<noteq> 0 \<longrightarrow> Magic ?b = expectedMagic (Slot ?b)"
    using that n off assms by (auto simp: blob_ok_def be32_slice min_def mult.commute)
  have wrap: "(?off + ?n) mod 2 ^ 32 = ?off + ?n" using n assms by simp
  from r [unfolded sig_entry_def sig_entry_reads [OF assms(1,2)] rbind_Inr small hdr [OF off(2)] h data wrap]
  show ?thesis
    using ok by (intro exI [of _ ?b])
      (auto simp: Let_def result_simps blobSpan_def len split: if_split_asm)
qed

lemma sig_entry_inv:
  assumes "12 + cnt * 8 \<le> len" "len \<le> length content" "len < 2 ^ 32" "i < cnt"
    and "sig_inv H content len cnt i st" "sig_entry H read len cnt i st = Inr st'"
  shows "sig_inv H content len cnt (Suc i) st'"
proof -
  from assms have "12 + Suc i * 8 \<le> len" by auto
  from sig_entry_Inr [OF this assms(2,3,1,6)] assms(5) show ?thesis
    by (auto simp: sig_inv_def directoriesOf_def indexed_snoc less_Suc_eq nth_append split: if_splits)
qed

lemma sig_entries_inv:
  assumes "12 + cnt * 8 \<le> len" "len \<le> length content" "len < 2 ^ 32"
  shows "i + k = cnt \<Longrightarrow> sig_inv H content len cnt i st \<Longrightarrow>
    sig_entries H read len cnt i k st = Inr st' \<Longrightarrow> sig_inv H content len cnt cnt st'"
proof (induction k arbitrary: i st)
  case (Suc k)
  then obtain st1 where "sig_entry H read len cnt i st = Inr st1"
      "sig_entries H read len cnt (Suc i) k st1 = Inr st'"
    by (auto simp: result_simps)
  with Suc assms show ?case
    using sig_entry_inv [of cnt len i H st st1] by auto
qed simp

theorem parseSignatureRange_wf:
  assumes "parseSignatureRange H (length content) read allow = Inr sig"
  shows "signature_wf H content sig \<and> (0 \<in> set (map Slot (Blobs sig)) \<or> allow \<and> Directories sig = [])"
proof -
  from assms have "12 \<le> length content" by (auto simp: parseSignatureRange_def guard_eq_Inr)
  then have reads: "read 0 12 = Inr (slice content 0 12)" "rd32 (slice content 0 12) 0 = Inr (be32 content 0)"
      "rd32 (slice content 0 12) 4 = Inr (be32 content 4)" "rd32 (slice content 0 12) 8 = Inr (be32 content 8)"
    by (simp_all add: read_content be32_slice)
  let ?st0 = "\<lparr>seen = [], spans = [], blobs = [], dirs = []\<rparr>"
  from assms obtain st where hdr: "be32 content 0 = MagicSignature" "12 + be32 content 8 * 8 \<le> be32 content 4"
      "be32 content 4 \<le> length content"
    and st: "sig_entries H read (be32 content 4) (be32 content 8) 0 (be32 content 8) ?st0 = Inr st"
    and fin: "\<not> adjacentOverlap (sort_key fst (spans st))" "0 \<in> set (seen st) \<or> allow \<and> dirs st = []"
      "sig = \<lparr>Length = be32 content 4, Blobs = blobs st, Directories = dirs st\<rparr>"
    unfolding parseSignatureRange_def reads rbind_Inr by (auto simp: result_simps)
  have "sig_inv H content (be32 content 4) (be32 content 8) 0 ?st0"
    by (simp add: sig_inv_def directoriesOf_def)
  from sig_entries_inv [OF hdr(2,3) be32_less _ this st]
  have inv: "sig_inv H content (be32 content 4) (be32 content 8) (be32 content 8) st" by simp
  have "\<forall>x \<in> set (spans st). fst x < snd x"
    using inv by (fastforce simp: sig_inv_def blob_ok_def blobSpan_def dest!: in_set_indexed)
  from adjacentOverlap_iff [OF this] fin inv hdr show ?thesis
    by (auto simp: signature_wf_def sig_inv_def)
qed

end

section \<open>Writing then parsing\<close>

text \<open>
  Components a SuperBlob can carry: distinct 32-bit slots, each with its own header and
  the magic its slot asks for, a primary CodeDirectory, and a total length that fits the
  32-bit length field.
\<close>

definition component_ok :: "Blob \<Rightarrow> bool" where
  "component_ok b \<longleftrightarrow> Slot b < 2 ^ 32 \<and> 8 \<le> length (Data b) \<and> be32 (Data b) 4 = length (Data b) \<and>
     Magic b = be32 (Data b) 0 \<and> (expectedMagic (Slot b) \<noteq> 0 \<longrightarrow> Magic b = expectedMagic (Slot b))"

definition superblobLength :: "Blob list \<Rightarrow> nat" where
  "superblobLength bs = 12 + 8 * length bs + sum_list (map (\<lambda>b. length (Data b)) bs)"

definition components_ok :: "Blob list \<Rightarrow> bool" where
  "components_ok bs \<longleftrightarrow> list_all component_ok bs \<and> distinct (map Slot bs) \<and>
     0 \<in> set (map Slot bs) \<and> superblobLength bs < 2 ^ 32"

definition dataOff :: "Blob list \<Rightarrow> nat \<Rightarrow> nat" where
  "dataOff bs i = sum_list (map (\<lambda>b. length (Data b)) (take i bs))"

lemma length_sb_index [simp]: "length (sb_index p bs) = 8 * length bs"
  by (induction bs arbitrary: p) auto

lemma sb_index_fields:
  "i < length bs \<Longrightarrow> be32 (sb_index p bs) (8 * i) = Slot (bs ! i) mod 2 ^ 32 \<and>
     be32 (sb_index p bs) (4 + 8 * i) = (p + dataOff bs i) mod 2 ^ 32"
proof (induction bs arbitrary: i p)
  case (Cons b bs)
  show ?case
  proof (cases i)
    case 0
    then show ?thesis by (simp add: dataOff_def byte_simps be32_put32 [of _ "_ @ _", simplified])
  next
    case (Suc j)
    with Cons.prems Cons.IH [of j "p + length (Data b)"] show ?thesis
      by (simp add: dataOff_def byte_simps add.assoc)
  qed
qed simp

lemma slice_concat_data:
  "i < length bs \<Longrightarrow> slice (concat (map Data bs)) (dataOff bs i) (length (Data (bs ! i))) = Data (bs ! i)"
proof (induction bs arbitrary: i)
  case (Cons b bs)
  then show ?case by (cases i) (auto simp: dataOff_def slice_def)
qed simp

lemma dataOff_Suc: "i < length bs \<Longrightarrow> dataOff bs (Suc i) = dataOff bs i + length (Data (bs ! i))"
  by (simp add: dataOff_def take_Suc_conv_app_nth)

lemma dataOff_mono: "i \<le> j \<Longrightarrow> dataOff bs i \<le> dataOff bs j"
  by (auto simp: dataOff_def take_add le_iff_add)

lemma length_concat_data: "length (concat (map Data bs)) = dataOff bs (length bs)"
  by (simp add: dataOff_def length_concat comp_def)

text \<open>The layout of a SuperBlob whose components are already sorted.\<close>

definition sb_layout :: "nat \<Rightarrow> Blob list \<Rightarrow> byte list" where
  "sb_layout magic bs = put32 magic @ put32 (superblobLength bs) @ put32 (length bs)
     @ sb_index (12 + 8 * length bs) bs @ concat (map Data bs)"

lemma superblob_layout: "superblob magic bs = sb_layout magic (sort_key Slot bs)"
  by (simp add: superblob_def sb_layout_def superblobLength_def Let_def length_concat comp_def)

lemma length_sb_layout [simp]: "length (sb_layout magic bs) = superblobLength bs"
  by (simp add: sb_layout_def superblobLength_def length_concat comp_def)

lemma sb_layout_header:
  assumes "superblobLength bs < 2 ^ 32" "magic < 2 ^ 32"
  shows "be32 (sb_layout magic bs) 0 = magic" "be32 (sb_layout magic bs) 4 = superblobLength bs"
    "be32 (sb_layout magic bs) 8 = length bs"
  using assms by (simp_all add: sb_layout_def byte_simps superblobLength_def)

lemma sb_layout_entry:
  assumes "superblobLength bs < 2 ^ 32" "i < length bs" "Slot (bs ! i) < 2 ^ 32"
  shows "entrySlot (sb_layout magic bs) i = Slot (bs ! i)"
    "entryOff (sb_layout magic bs) i = 12 + 8 * length bs + dataOff bs i"
    "slice (sb_layout magic bs) (12 + 8 * length bs + dataOff bs i) (length (Data (bs ! i))) = Data (bs ! i)"
    "12 + 8 * length bs + dataOff bs i + length (Data (bs ! i)) \<le> superblobLength bs"
proof -
  have bound: "dataOff bs i + length (Data (bs ! i)) \<le> dataOff bs (length bs)"
    using assms dataOff_mono [of "Suc i" "length bs" bs] by (simp add: dataOff_Suc)
  then show fit: "12 + 8 * length bs + dataOff bs i + length (Data (bs ! i)) \<le> superblobLength bs"
    by (simp add: superblobLength_def dataOff_def)
  have at: "be32 (sb_layout magic bs) (12 + o') = be32 (sb_index (12 + 8 * length bs) bs) o'"
    if "o' + 4 \<le> 8 * length bs" for o'
    using that by (simp add: sb_layout_def byte_simps)
  then show "entrySlot (sb_layout magic bs) i = Slot (bs ! i)"
      "entryOff (sb_layout magic bs) i = 12 + 8 * length bs + dataOff bs i"
    using at [of "4 + 8 * i"] at [of "8 * i"] sb_index_fields [of i bs "12 + 8 * length bs"] assms fit
    by (simp_all add: entrySlot_def entryOff_def flip: add.assoc)
  show "slice (sb_layout magic bs) (12 + 8 * length bs + dataOff bs i) (length (Data (bs ! i))) = Data (bs ! i)"
    using slice_concat_data [OF assms(2)] by (simp add: sb_layout_def slice_append2)
qed

context range_source begin

lemma sig_entry_forward:
  assumes "12 + cnt * 8 \<le> len" "len \<le> length content" "len < 2 ^ 32" "i < cnt"
    and ok: "blob_ok content len cnt i b" "Slot b \<notin> set (seen st)"
    and dir: "isDirectorySlot (Slot b) \<longrightarrow> parseDirectory H (Data b) = Inr d"
  shows "sig_entry H read len cnt i st = Inr (st\<lparr>seen := Slot b # seen st,
     spans := spans st @ [blobSpan content i b], blobs := blobs st @ [b],
     dirs := (if isDirectorySlot (Slot b) then dirs st @ [d] else dirs st)\<rparr>)"
proof -
  let ?off = "entryOff content i" and ?n = "length (Data b)"
  from assms have "12 + Suc i * 8 \<le> len" by auto
  note reads = sig_entry_reads [OF this assms(2)]
  from ok have off: "12 + 8 * cnt \<le> ?off" "?off + ?n \<le> len" "8 \<le> ?n"
    and data: "slice content ?off ?n = Data b" and slot: "entrySlot content i = Slot b"
    and n: "be32 (Data b) 4 = ?n" and magic: "be32 (Data b) 0 = Magic b"
      "expectedMagic (Slot b) = 0 \<or> Magic b = expectedMagic (Slot b)"
    by (auto simp: blob_ok_def)
  have prefix: "slice content ?off 8 = slice (Data b) 0 8"
    using data off by (metis add.right_neutral add_0 slice_slice)
  have "read ?off 8 = Inr (slice (Data b) 0 8)" "read ?off ?n = Inr (Data b)"
    using off assms(2) data prefix by (simp_all add: read_content)
  moreover have "rd32 (slice (Data b) 0 8) 4 = Inr ?n" "rd32 (slice (Data b) 0 8) 0 = Inr (Magic b)"
    using off n magic by (simp_all add: be32_slice)
  moreover have "slice_at (Data b) 0 8 = Inr (slice (Data b) 0 8)" using off by simp
  moreover have "(12 + cnt * 8) mod 2 ^ 32 = 12 + cnt * 8" "(?off + ?n) mod 2 ^ 32 = ?off + ?n"
    using assms off by simp_all
  ultimately show ?thesis
    unfolding sig_entry_def reads slot rbind_Inr
    using off magic ok(2) dir by (cases st) (simp add: Let_def rangeOK_iff blobSpan_def)
qed

lemma sig_entries_forward:
  assumes len: "12 + length bs * 8 \<le> len" "len \<le> length content" "len < 2 ^ 32"
    and ok: "\<And>i. i < length bs \<Longrightarrow> blob_ok content len (length bs) i (bs ! i)"
    and dist: "distinct (map Slot bs)" and dir: "directoriesOf H bs = map Inr ds"
  shows "i + k = length bs \<Longrightarrow> sig_inv H content len (length bs) i st \<Longrightarrow> blobs st = take i bs \<Longrightarrow>
    \<exists>st'. sig_entries H read len (length bs) i k st = Inr st' \<and> blobs st' = bs \<and>
      sig_inv H content len (length bs) (length bs) st'"
proof (induction k arbitrary: i st)
  case (Suc k)
  let ?b = "bs ! i"
  have i: "i < length bs" using Suc.prems by simp
  have "distinct (map Slot (take i bs @ ?b # drop (Suc i) bs))"
    using dist id_take_nth_drop [OF i] by simp
  then have fresh: "Slot ?b \<notin> set (seen st)"
    using Suc.prems(2,3) by (simp add: sig_inv_def)
  have "\<exists>d. isDirectorySlot (Slot ?b) \<longrightarrow> parseDirectory H (Data ?b) = Inr d"
  proof (cases "isDirectorySlot (Slot ?b)")
    case True
    with i have "parseDirectory H (Data ?b) \<in> set (directoriesOf H bs)"
      by (auto simp: directoriesOf_def)
    with dir show ?thesis by auto
  qed simp
  then obtain d where d: "isDirectorySlot (Slot ?b) \<longrightarrow> parseDirectory H (Data ?b) = Inr d" by blast
  note step = sig_entry_forward [OF len i ok [OF i] fresh d]
  from sig_entry_inv [OF len i Suc.prems(2) step] i Suc.prems(1,3) Suc.IH show ?case
    by (simp add: step take_Suc_conv_app_nth)
qed (auto simp: sig_inv_def)

end

lemma spans_disjoint:
  assumes "\<And>i. i < length bs \<Longrightarrow> entryOff content i = base + dataOff bs i"
  shows "disjointSpans (indexed (blobSpan content) bs)"
  unfolding disjointSpans_def sorted_wrt_iff_nth_less
proof (intro allI impI)
  fix i j assume ij: "i < j" "j < length (indexed (blobSpan content) bs)"
  then have "j < length bs" by (simp add: indexed_def)
  with ij have "dataOff bs i + length (Data (bs ! i)) \<le> dataOff bs j"
    using dataOff_mono [of "Suc i" j bs] by (simp add: dataOff_Suc)
  with ij \<open>j < length bs\<close> assms show "disjointSpan (indexed (blobSpan content) bs ! i) (indexed (blobSpan content) bs ! j)"
    by (simp add: indexed_def disjointSpan_def blobSpan_def)
qed

lemma sum_list_sort_key: "sum_list (map f (sort_key k xs)) = (sum_list (map f xs) :: nat)"
  by (simp flip: sum_mset_sum_list)

lemma superblobLength_sort: "superblobLength (sort_key Slot bs) = superblobLength bs"
  by (simp add: superblobLength_def sum_list_sort_key)

context range_source begin

lemma parse_layout:
  assumes content: "content = sb_layout MagicSignature bs" and ok: "components_ok bs" and dir: "directoriesOf H bs = map Inr ds"
  shows "parseSignatureRange H (superblobLength bs) read allow =
    Inr \<lparr>Length = superblobLength bs, Blobs = bs, Directories = ds\<rparr>"
proof -
  let ?n = "length bs" and ?len = "superblobLength bs"
  from ok have fits: "?len < 2 ^ 32" and dist: "distinct (map Slot bs)" and prim: "0 \<in> set (map Slot bs)"
    and comp: "\<And>i. i < ?n \<Longrightarrow> component_ok (bs ! i)"
    by (auto simp: components_ok_def list_all_length)
  note header = sb_layout_header [OF fits, of MagicSignature, folded content]
  have bok: "blob_ok content ?len ?n i (bs ! i)" if "i < ?n" for i
    using sb_layout_entry(1-3) [OF fits that, of MagicSignature] sb_layout_entry(4) [OF fits that] comp [OF that]
    by (auto simp: blob_ok_def component_ok_def content)
  have len: "12 + ?n * 8 \<le> ?len" "?len \<le> length content" by (simp_all add: superblobLength_def content)
  let ?st0 = "\<lparr>seen = [], spans = [], blobs = [], dirs = []\<rparr>"
  have "sig_inv H content ?len ?n 0 ?st0" by (simp add: sig_inv_def directoriesOf_def)
  from sig_entries_forward [OF len fits bok dist dir _ this, of ?n]
  obtain st where st: "sig_entries H read ?len ?n 0 ?n ?st0 = Inr st" "blobs st = bs"
      and inv: "sig_inv H content ?len ?n ?n st"
    by auto
  have "\<forall>x \<in> set (spans st). fst x < snd x"
    using inv by (fastforce simp: sig_inv_def blob_ok_def blobSpan_def dest!: in_set_indexed)
  moreover have "disjointSpans (spans st)"
    using inv sb_layout_entry(2) [OF fits, of _ MagicSignature] comp
    by (auto simp: sig_inv_def component_ok_def st(2) content intro!: spans_disjoint)
  ultimately have ov: "\<not> adjacentOverlap (sort_key fst (spans st))" by (simp add: adjacentOverlap_iff)
  have "dirs st = ds" using inv dir st(2) by (auto simp: sig_inv_def)
  have rd: "read 0 12 = Inr (slice content 0 12)" "rd32 (slice content 0 12) 0 = Inr MagicSignature"
      "rd32 (slice content 0 12) 4 = Inr ?len" "rd32 (slice content 0 12) 8 = Inr ?n"
    using len header by (simp_all add: read_content be32_slice MagicSignature_def)
  from inv prim st(2) have "0 \<in> set (seen st)" by (simp add: sig_inv_def)
  then show ?thesis
    using len ov st \<open>dirs st = ds\<close> unfolding parseSignatureRange_def rd rbind_Inr by simp
qed

end

theorem parse_sb_layout:
  assumes "components_ok bs" "directoriesOf H bs = map Inr ds"
  shows "parseSignature H (sb_layout MagicSignature bs) allow = Inr \<lparr>Length = superblobLength bs, Blobs = bs, Directories = ds\<rparr>"
  using mem.parse_layout [OF refl assms] by (simp add: parseSignature_def)

section \<open>The sample signature\<close>

lemma sample_components:
  "components_ok sampleBlobs" "superblobLength sampleBlobs = 86"
  "sort_key Slot sampleBlobs = rev sampleBlobs"
  by (simp_all add: components_ok_def component_ok_def sampleBlobs_def superblobLength_def superblob_def
      expectedMagic_def isDirectorySlot_def sampleDirectory_def parse_eval)

lemma sample_directories: "\<exists>ds. directoriesOf sampleHash (rev sampleBlobs) = map Inr ds"
proof -
  from sample_directory obtain d where "parseDirectory sampleHash sampleDirectory = Inr d" ..
  then have "directoriesOf sampleHash (rev sampleBlobs) = map Inr [d]"
    by (simp add: directoriesOf_def sampleBlobs_def isDirectorySlot_def slot_defs)
  then show ?thesis by blast
qed

lemma sample_parse: "\<exists>sig. parseSignature sampleHash sampleSignature False = Inr sig"
proof -
  have "components_ok (rev sampleBlobs)"
    using sample_components(1) by (simp add: components_ok_def superblobLength_def sum_list_rev flip: rev_map)
  with sample_directories show ?thesis
    unfolding sampleSignature_def superblob_layout sample_components(3) by (metis parse_sb_layout)
qed

section \<open>Properties\<close>

text \<open>
  C1. No input makes the signature parser panic: every slice expression and every
  fixed-width read of parseSignatureRange and parseDirectory is in bounds, whatever the
  bytes are and whether or not an unsigned container is allowed.
\<close>

theorem parseSignature_no_panic: "safe (parseSignature H data allow)"
  unfolding parseSignature_def by (rule mem.held.parseSignatureRange_safe)

text \<open>
  C2. What the parser accepts is a well-formed signature: the declared length lies in the
  input, component i is exactly the byte range its index entry announces, after the index
  and inside the declared length, with its own length repeated in its header and the magic
  its slot requires; slots are distinct, no two components share a byte, the directories
  are the parses of the directory slots in order, and a primary CodeDirectory is present
  unless the caller admitted an unsigned container without directories.
\<close>

theorem parseSignature_accepts_wf:
  assumes "parseSignature H data allow = Inr sig"
  shows "signature_wf H data sig \<and> (0 \<in> set (map Slot (Blobs sig)) \<or> allow \<and> Directories sig = [])"
  using assms unfolding parseSignature_def by (rule mem.parseSignatureRange_wf)

theorem parseSignature_accepts_wf_witness:
  "\<exists>sig. parseSignature sampleHash sampleSignature False = Inr sig \<and>
     signature_wf sampleHash sampleSignature sig \<and> 0 \<in> set (map Slot (Blobs sig))"
proof -
  from sample_parse obtain sig where "parseSignature sampleHash sampleSignature False = Inr sig" ..
  with parseSignature_accepts_wf [OF this] show ?thesis by blast
qed

text \<open>
  C3. Round trip: a SuperBlob written by superblob from components in any order, with
  distinct slots, correct component headers and a primary directory, is accepted by the
  parser, which returns exactly those components sorted by slot and their directories.
\<close>

theorem parseSignature_superblob:
  assumes "components_ok bs" "directoriesOf H (sort_key Slot bs) = map Inr ds"
  shows "parseSignature H (superblob MagicSignature bs) allow =
    Inr \<lparr>Length = superblobLength bs, Blobs = sort_key Slot bs, Directories = ds\<rparr>"
proof -
  have "components_ok (sort_key Slot bs)"
    using assms(1) unfolding components_ok_def superblobLength_sort
    by (simp add: list_all_iff distinct_map)
  from parse_sb_layout [OF this assms(2)] show ?thesis
    by (simp add: superblob_layout superblobLength_sort)
qed

theorem parseSignature_superblob_witness:
  "\<exists>ds. parseSignature sampleHash sampleSignature False =
     Inr \<lparr>Length = 86, Blobs = rev sampleBlobs, Directories = ds\<rparr>"
proof -
  from sample_directories obtain ds
    where "directoriesOf sampleHash (sort_key Slot sampleBlobs) = map Inr ds"
    unfolding sample_components(3) by blast
  from parseSignature_superblob [OF sample_components(1) this, of False] show ?thesis
    unfolding sampleSignature_def sample_components by blast
qed

end
