(* ===== verification/MachO_Format.thy ===== *)
theory MachO_Format
  imports Samples
begin

text \<open>
  macho.go: Mach-O images and universal containers, read through the range reader. The
  parser keeps a fixed summary of the load commands; one definition per command kind, one
  for the command loop, one for the index of a universal file.
\<close>

section \<open>Images\<close>

record symbolSummary =
  sy_present :: bool
  sy_duplicate :: bool
  sy_size :: nat
  sy_symbols :: nat
  sy_count :: nat
  sy_strings :: nat
  sy_stringSize :: nat

text \<open>The struct image; the borrowed source is the reader and not part of the record.\<close>

record image =
  im_order :: byte_order
  im_header :: nat
  im_headerBytes :: "byte list"
  im_cpu :: nat
  im_subtype :: nat
  im_filetype :: nat
  im_commandCount :: nat
  im_commandBytes :: nat
  im_sigOffset :: nat
  im_sigSize :: nat
  im_sigCommand :: int
  im_linkedit :: int
  im_linkeditKind :: nat
  im_linkStart :: nat
  im_textBase :: nat
  im_textSize :: nat
  im_firstSection :: nat
  im_uuidOffset :: int
  im_uuidSize :: nat
  im_uuid :: "byte list"
  im_versionPlatform :: nat
  im_versionMin :: nat
  im_versionSDK :: nat
  im_buildVersionSeen :: bool
  im_minVersionSeen :: bool
  im_execPlatform :: nat
  im_legacyPlatform :: nat
  im_strictCandidate :: bool
  im_strictValid :: bool
  im_symbols :: symbolSummary

text \<open>The zero value, with the four fields the constructor sets.\<close>

definition newImage :: "nat \<Rightarrow> image" where
  "newImage len =
     \<lparr>im_order = BigEndian, im_header = 28, im_headerBytes = replicate 32 0, im_cpu = 0, im_subtype = 0,
      im_filetype = 0, im_commandCount = 0, im_commandBytes = 0, im_sigOffset = 0, im_sigSize = 0,
      im_sigCommand = -1, im_linkedit = -1, im_linkeditKind = 0, im_linkStart = 0, im_textBase = 0,
      im_textSize = 0, im_firstSection = len, im_uuidOffset = -1, im_uuidSize = 0, im_uuid = replicate 16 0,
      im_versionPlatform = 0, im_versionMin = 0, im_versionSDK = 0, im_buildVersionSeen = False,
      im_minVersionSeen = False, im_execPlatform = 0, im_legacyPlatform = 0, im_strictCandidate = False,
      im_strictValid = False,
      im_symbols = \<lparr>sy_present = False, sy_duplicate = False, sy_size = 0, sy_symbols = 0, sy_count = 0,
                    sy_strings = 0, sy_stringSize = 0\<rparr>\<rparr>"

section \<open>Load commands\<close>

text \<open>
  Each step gets the command's offset \<open>p\<close>, its \<open>size\<close>, the end of the command area and
  the length of the file.
\<close>

text \<open>LC_CODE_SIGNATURE (0x1d).\<close>

definition signatureCommand :: "range_reader \<Rightarrow> nat \<Rightarrow> nat \<Rightarrow> nat \<Rightarrow> nat \<Rightarrow> image \<Rightarrow> image result" where
  "signatureCommand read len fin p sz im =
    (if sz \<noteq> 16 \<or> im_sigCommand im \<ge> 0 then Inl (Malformed ''code signature command'') else
     rbind (read (p + 8) 8) (\<lambda>b.
     rbind (ord_rd32 (im_order im) b 0) (\<lambda>off. rbind (ord_rd32 (im_order im) b 4) (\<lambda>n.
     if off < fin \<or> \<not> rangeOK off n len then Inl (Malformed ''code signature range'') else
     Inr (im\<lparr>im_sigCommand := int p, im_sigOffset := off, im_sigSize := n\<rparr>)))))"

definition trimZeros :: "byte list \<Rightarrow> byte list" where
  "trimZeros xs = rev (dropWhile (\<lambda>b. b = 0) (rev xs))"

text \<open>The section loop: the smallest nonzero section offset.\<close>

fun sectionLoop :: "range_reader \<Rightarrow> byte_order \<Rightarrow> nat \<Rightarrow> nat \<Rightarrow> nat \<Rightarrow> nat \<Rightarrow> nat result" where
  "sectionLoop read ord at stride 0 first = Inr first"
| "sectionLoop read ord at stride (Suc k) first =
    rbind (read at 4) (\<lambda>b. rbind (ord_rd32 ord b 0) (\<lambda>off.
    sectionLoop read ord (at + stride) stride k (if off \<noteq> 0 \<and> off < first then off else first)))"

text \<open>LC_SEGMENT (1) and LC_SEGMENT_64 (0x19).\<close>

definition linkeditSegment :: "nat \<Rightarrow> nat \<Rightarrow> nat \<Rightarrow> nat \<Rightarrow> nat \<Rightarrow> image \<Rightarrow> image result" where
  "linkeditSegment len p kind off segLen im =
    (if im_linkedit im \<ge> 0 then Inl (Malformed ''duplicate LINKEDIT'') else
     let im = im\<lparr>im_linkedit := int p, im_linkeditKind := kind, im_linkStart := off\<rparr> in
     Inr (if \<not> im_strictCandidate im
          then im\<lparr>im_strictCandidate := True, im_strictValid := segLen = len - off\<rparr> else im))"

definition segmentCommand :: "range_reader \<Rightarrow> nat \<Rightarrow> nat \<Rightarrow> nat \<Rightarrow> nat \<Rightarrow> image \<Rightarrow> image result" where
  "segmentCommand read len p kind sz im =
    (let wide = (kind = 0x19); base = (if wide then 72 else 56); sectionSize = (if wide then 80 else 68);
         field = (if wide then 48 else 40); ord = im_order im in
     if sz < base then Inl (Malformed ''segment header'') else
     rbind (read p base) (\<lambda>b. rbind (slice_at b 8 16) (\<lambda>rawName. let name = trimZeros rawName in
     rbind (if wide then ord_rd64 ord b 40 else ord_rd32 ord b 32) (\<lambda>off.
     rbind (if wide then ord_rd64 ord b 48 else ord_rd32 ord b 36) (\<lambda>segLen.
     rbind (if wide then ord_rd32 ord b 64 else ord_rd32 ord b 48) (\<lambda>cnt.
     if \<not> rangeOK off segLen len \<or> cnt * sectionSize > sz - base then Inl (Malformed ''segment bounds'') else
     rbind (if name = str ''__LINKEDIT'' then linkeditSegment len p kind off segLen im else Inr im) (\<lambda>im.
     let im = (if name = str ''__TEXT'' then im\<lparr>im_textBase := off, im_textSize := segLen\<rparr> else im) in
     rbind (sectionLoop read ord (p + base + field) sectionSize cnt (im_firstSection im)) (\<lambda>first.
     Inr (im\<lparr>im_firstSection := first\<rparr>)))))))))"

text \<open>LC_UUID (0x1b): the first one wins.\<close>

definition uuidCommand :: "range_reader \<Rightarrow> nat \<Rightarrow> nat \<Rightarrow> image \<Rightarrow> image result" where
  "uuidCommand read p sz im =
    (if im_uuidOffset im \<ge> 0 then Inr im else
     let im = im\<lparr>im_uuidOffset := int p, im_uuidSize := sz\<rparr> in
     if sz = 24 then rbind (read (p + 8) 16) (\<lambda>b. Inr (im\<lparr>im_uuid := b\<rparr>)) else Inr im)"

text \<open>LC_BUILD_VERSION (0x32).\<close>

definition buildVersionFields :: "range_reader \<Rightarrow> nat \<Rightarrow> image \<Rightarrow> image result" where
  "buildVersionFields read p im =
    rbind (read (p + 8) 12) (\<lambda>b.
    rbind (ord_rd32 (im_order im) b 0) (\<lambda>platform. rbind (ord_rd32 (im_order im) b 4) (\<lambda>mn.
    rbind (ord_rd32 (im_order im) b 8) (\<lambda>sdk.
    let im = im\<lparr>im_versionPlatform := platform, im_versionMin := mn, im_versionSDK := sdk\<rparr> in
    Inr (if \<not> im_buildVersionSeen im then im\<lparr>im_execPlatform := platform\<rparr> else im)))))"

definition buildVersionCommand :: "range_reader \<Rightarrow> nat \<Rightarrow> nat \<Rightarrow> image \<Rightarrow> image result" where
  "buildVersionCommand read p sz im =
    rbind (if sz \<ge> 24 then buildVersionFields read p im else Inr im) (\<lambda>im.
    Inr (im\<lparr>im_buildVersionSeen := True\<rparr>))"

text \<open>The four LC_VERSION_MIN commands.\<close>

definition legacyPlatformOf :: "nat \<Rightarrow> nat" where
  "legacyPlatformOf kind = (if kind = 0x24 then 1 else if kind = 0x25 then 2 else if kind = 0x2f then 3 else 4)"

definition minVersionCommand :: "nat \<Rightarrow> nat \<Rightarrow> image \<Rightarrow> image" where
  "minVersionCommand kind sz im =
    (let im = (if \<not> im_minVersionSeen im \<and> sz \<ge> 16 then im\<lparr>im_legacyPlatform := legacyPlatformOf kind\<rparr> else im)
     in im\<lparr>im_minVersionSeen := True\<rparr>)"

text \<open>LC_SYMTAB (2).\<close>

definition symtabFields :: "range_reader \<Rightarrow> nat \<Rightarrow> byte_order \<Rightarrow> (nat \<times> nat \<times> nat \<times> nat) result" where
  "symtabFields read p ord =
    rbind (read (p + 8) 16) (\<lambda>b.
    rbind (ord_rd32 ord b 0) (\<lambda>s. rbind (ord_rd32 ord b 4) (\<lambda>c.
    rbind (ord_rd32 ord b 8) (\<lambda>st. rbind (ord_rd32 ord b 12) (\<lambda>ss. Inr (s, c, st, ss))))))"

definition recordSymtab :: "nat \<Rightarrow> nat \<Rightarrow> nat \<times> nat \<times> nat \<times> nat \<Rightarrow> image \<Rightarrow> image" where
  "recordSymtab len sz v im = (case v of (s, c, st, ss) \<Rightarrow>
    let im = (if \<not> sy_present (im_symbols im)
              then im\<lparr>im_symbols := \<lparr>sy_present = True, sy_duplicate = False, sy_size = sz, sy_symbols = s,
                     sy_count = c, sy_strings = st, sy_stringSize = ss\<rparr>\<rparr>
              else im\<lparr>im_symbols := (im_symbols im)\<lparr>sy_duplicate := True\<rparr>\<rparr>) in
    if \<not> im_strictCandidate im
    then im\<lparr>im_strictCandidate := True, im_strictValid := sz \<ge> 24 \<and> st + ss = len\<rparr> else im)"

definition symtabCommand :: "range_reader \<Rightarrow> nat \<Rightarrow> nat \<Rightarrow> nat \<Rightarrow> image \<Rightarrow> image result" where
  "symtabCommand read len p sz im =
    rbind (if sz \<ge> 24 then symtabFields read p (im_order im) else Inr (0, 0, 0, 0)) (\<lambda>v.
    Inr (recordSymtab len sz v im))"

definition commandStep ::
  "range_reader \<Rightarrow> nat \<Rightarrow> nat \<Rightarrow> nat \<Rightarrow> nat \<Rightarrow> nat \<Rightarrow> image \<Rightarrow> image result" where
  "commandStep read len fin p kind sz im =
    (if kind = 0x1d then signatureCommand read len fin p sz im
     else if kind = 1 \<or> kind = 0x19 then segmentCommand read len p kind sz im
     else if kind = 0x1b then uuidCommand read p sz im
     else if kind = 0x32 then buildVersionCommand read p sz im
     else if kind \<in> {0x24, 0x25, 0x2f, 0x30} then Inr (minVersionCommand kind sz im)
     else if kind = 2 then symtabCommand read len p sz im
     else Inr im)"

fun commandLoop :: "range_reader \<Rightarrow> nat \<Rightarrow> nat \<Rightarrow> nat \<Rightarrow> nat \<Rightarrow> image \<Rightarrow> (image \<times> nat) result" where
  "commandLoop read len fin 0 p im = Inr (im, p)"
| "commandLoop read len fin (Suc k) p im =
    (if p + 8 > fin then Inl (Malformed ''truncated load command'') else
     rbind (read p 8) (\<lambda>command.
     rbind (ord_rd32 (im_order im) command 0) (\<lambda>kind. rbind (ord_rd32 (im_order im) command 4) (\<lambda>sz.
     if sz < 8 \<or> sz mod 4 \<noteq> 0 \<or> sz > fin - p then Inl (Malformed ''load command size'') else
     rbind (commandStep read len fin p kind sz im) (\<lambda>im.
     commandLoop read len fin k (p + sz) im)))))"

text \<open>The magic table: byte order and header size.\<close>

definition magicOrder :: "nat \<Rightarrow> (byte_order \<times> nat) option" where
  "magicOrder magic =
    (if magic = 0xfeedface then Some (BigEndian, 28)
     else if magic = 0xcefaedfe then Some (LittleEndian, 28)
     else if magic = 0xfeedfacf then Some (BigEndian, 32)
     else if magic = 0xcffaedfe then Some (LittleEndian, 32) else None)"

definition parseImageRange :: "nat \<Rightarrow> range_reader \<Rightarrow> image result" where
  "parseImageRange len read =
    (if len < 28 then Inl (Malformed ''Mach-O header'') else
     rbind (read 0 (min len 32)) (\<lambda>data. rbind (rd32 data 0) (\<lambda>magic.
     case magicOrder magic of None \<Rightarrow> Inl (Malformed ''Mach-O magic'') | Some (ord, hdr) \<Rightarrow>
     if len < hdr then Inl (Malformed ''64-bit Mach-O header'') else
     rbind (ord_rd32 ord data 4) (\<lambda>cpu. rbind (ord_rd32 ord data 8) (\<lambda>subtype.
     rbind (ord_rd32 ord data 12) (\<lambda>filetype. rbind (ord_rd32 ord data 16) (\<lambda>cnt.
     rbind (ord_rd32 ord data 20) (\<lambda>bytes.
     if \<not> rangeOK hdr bytes len \<or> cnt * 8 > bytes then Inl (Malformed ''load command bounds'') else
     let fin = hdr + bytes;
         im = (newImage len)\<lparr>im_order := ord, im_header := hdr,
                im_headerBytes := data @ replicate (32 - length data) 0, im_cpu := cpu, im_subtype := subtype,
                im_filetype := filetype, im_commandCount := cnt, im_commandBytes := bytes\<rparr> in
     rbind (commandLoop read len fin cnt hdr im) (\<lambda>(im, p).
     if p \<noteq> fin \<or> im_firstSection im < fin then Inl (Malformed ''load commands overlap content'') else
     Inr (if \<not> im_buildVersionSeen im then im\<lparr>im_execPlatform := im_legacyPlatform im\<rparr> else im))))))))))"

definition parseImage :: "byte list \<Rightarrow> image result" where
  "parseImage data = parseImageRange (length data) (memoryRange data)"

section \<open>Containers\<close>

text \<open>The Go struct slice; the list operation of that name is the prelude's.\<close>

record archSlice =
  sl_offset :: nat
  sl_size :: nat
  sl_cpu :: nat
  sl_subtype :: nat
  sl_alignment :: nat
  sl_image :: image

record container =
  co_data :: "byte list"
  co_fat :: bool
  co_fat64 :: bool
  co_order :: byte_order
  co_slices :: "archSlice list"

text \<open>The fields of a universal index entry at \<open>p\<close>: cpu, subtype, offset, size, alignment.\<close>

definition fatEntry :: "byte_order \<Rightarrow> bool \<Rightarrow> byte list \<Rightarrow> nat \<Rightarrow> (nat \<times> nat \<times> nat \<times> nat \<times> nat) result" where
  "fatEntry ord wide data p =
    rbind (ord_rd32 ord data p) (\<lambda>cpu. rbind (ord_rd32 ord data (p + 4)) (\<lambda>subtype.
    rbind (if wide then ord_rd64 ord data (p + 8) else ord_rd32 ord data (p + 8)) (\<lambda>off.
    rbind (if wide then ord_rd64 ord data (p + 16) else ord_rd32 ord data (p + 12)) (\<lambda>n.
    rbind (if wide then ord_rd32 ord data (p + 24) else ord_rd32 ord data (p + 16)) (\<lambda>alignment.
    Inr (cpu, subtype, off, n, alignment))))))"

text \<open>The inner loop against the slices already accepted.\<close>

fun checkAgainst :: "nat \<Rightarrow> nat \<Rightarrow> nat \<Rightarrow> nat \<Rightarrow> archSlice list \<Rightarrow> unit result" where
  "checkAgainst cpu subtype off n [] = Inr ()"
| "checkAgainst cpu subtype off n (old # olds) =
    (if sl_cpu old = cpu \<and> sl_subtype old = subtype then Inl (Malformed ''duplicate architecture'') else
     if off < sl_offset old + sl_size old \<and> sl_offset old < off + n
     then Inl (Malformed ''overlapping architectures'') else checkAgainst cpu subtype off n olds)"

fun fatLoop ::
  "(nat \<Rightarrow> nat \<Rightarrow> image result) \<Rightarrow> nat \<Rightarrow> byte_order \<Rightarrow> bool \<Rightarrow> byte list \<Rightarrow> nat \<Rightarrow> nat \<Rightarrow> nat \<Rightarrow> archSlice list
     \<Rightarrow> archSlice list result" where
  "fatLoop readImage len ord wide data n i 0 acc = Inr acc"
| "fatLoop readImage len ord wide data n i (Suc k) acc =
    (let entry = (if wide then 32 else 20) in
     rbind (fatEntry ord wide data (8 + i * entry)) (\<lambda>(cpu, subtype, off, sz, alignment).
     if alignment > 30 \<or> off mod 2 ^ alignment \<noteq> 0 \<or> off < 8 + n * entry \<or> \<not> rangeOK off sz len
     then Inl (Malformed ''universal slice bounds'') else
     rbind (checkAgainst cpu subtype off sz acc) (\<lambda>_.
     rbind (readImage off sz) (\<lambda>im.
     if im_cpu im \<noteq> cpu \<or> im_subtype im \<noteq> subtype then Inl (Malformed ''universal architecture mismatch'') else
     fatLoop readImage len ord wide data n (Suc i) k
       (acc @ [\<lparr>sl_offset = off, sl_size = sz, sl_cpu = cpu, sl_subtype = subtype,
                sl_alignment = alignment, sl_image = im\<rparr>])))))"

definition parseContainerRange ::
  "nat \<Rightarrow> range_reader \<Rightarrow> (nat \<Rightarrow> nat \<Rightarrow> image result) \<Rightarrow> container result" where
  "parseContainerRange len read readImage =
    (if len < 4 then Inl (Malformed ''empty or truncated file'') else
     rbind (read 0 (min len 8)) (\<lambda>data. rbind (rd32 data 0) (\<lambda>magic.
     if magic \<notin> {0xcafebabe, 0xbebafeca, 0xcafebabf, 0xbfbafeca} then
       rbind (readImage 0 len) (\<lambda>im.
       Inr \<lparr>co_data = [], co_fat = False, co_fat64 = False, co_order = BigEndian,
            co_slices = [\<lparr>sl_offset = 0, sl_size = len, sl_cpu = im_cpu im, sl_subtype = im_subtype im,
                          sl_alignment = 0, sl_image = im\<rparr>]\<rparr>)
     else
       let wide = (magic = 0xcafebabf \<or> magic = 0xbfbafeca);
           ord = (if magic = 0xbebafeca \<or> magic = 0xbfbafeca then LittleEndian else BigEndian);
           entry = (if wide then 32 else 20) in
       if len < 8 then Inl (Malformed ''universal header'') else
       rbind (ord_rd32 ord data 4) (\<lambda>n.
       if n = 0 \<or> n > 128 \<or> n * entry + 8 > len then Inl (Malformed ''universal index bounds'') else
       rbind (read 0 (8 + n * entry)) (\<lambda>data.
       rbind (fatLoop readImage len ord wide data n 0 n []) (\<lambda>slices.
       Inr \<lparr>co_data = data, co_fat = True, co_fat64 = wide, co_order = ord, co_slices = slices\<rparr>))))))"

definition parseContainer :: "byte list \<Rightarrow> container result" where
  "parseContainer data =
    rbind (parseContainerRange (length data) (memoryRange data)
      (\<lambda>off n. rbind (slice_at data off n) parseImage)) (\<lambda>c. Inr (c\<lparr>co_data := data\<rparr>))"

text \<open>The display name; unknown architectures are printed in hexadecimal.\<close>

fun hexNat :: "nat \<Rightarrow> gostring" where
  "hexNat n = (if n < 16 then [hexdigit n] else hexNat (n div 16) @ [hexdigit (n mod 16)])"

declare hexNat.simps [simp del]

definition archName :: "nat \<Rightarrow> nat \<Rightarrow> gostring" where
  "archName cpu sub =
    (if cpu = 0x100000c then (if sub mod 2 ^ 24 = 2 then str ''arm64e'' else str ''arm64'')
     else if cpu = 0x1000007 then (if sub mod 2 ^ 24 = 8 then str ''x86_64h'' else str ''x86_64'')
     else if cpu = 7 then str ''i386''
     else if cpu = 12 then str ''arm''
     else if cpu = 18 then str ''ppc''
     else if cpu = 0x1000012 then str ''ppc64''
     else str ''cpu-'' @ hexNat cpu @ str ''-'' @ hexNat sub)"

section \<open>Safety\<close>

lemma ord_rd32_safe [simp]: "off + 4 \<le> length b \<Longrightarrow> safe (ord_rd32 ord b off)"
  by simp

lemma ord_rd64_safe [simp]: "off + 8 \<le> length b \<Longrightarrow> safe (ord_rd64 ord b off)"
  by simp

context safe_reader begin

lemma sectionLoop_safe:
  "at + k * stride \<le> sz + (stride - 4) \<Longrightarrow> 4 \<le> stride \<Longrightarrow> safe (sectionLoop read ord at stride k first)"
proof (induction k arbitrary: at first)
  case (Suc k)
  then have "at + 4 \<le> sz" "at + stride + k * stride \<le> sz + (stride - 4)" by (auto simp: algebra_simps)
  with Suc show ?case by (simp, intro read_then_safe safe_rbind) simp_all
qed simp

lemma signatureCommand_safe: "p + 16 \<le> sz \<or> n \<noteq> 16 \<Longrightarrow> safe (signatureCommand read len fin p n im)"
  unfolding signatureCommand_def by (intro safe_if read_then_safe safe_rbind; simp)

lemma linkeditSegment_safe: "safe (linkeditSegment len p kind off n im)"
  by (simp add: linkeditSegment_def Let_def)

lemma segmentCommand_safe:
  assumes "p + n \<le> sz" shows "safe (segmentCommand read len p kind n im)"
proof -
  have sections: "safe (sectionLoop read ord (p + base + field) stride cnt first)"
    if "base \<le> n" "cnt * stride \<le> n - base" "field + 4 \<le> stride" for ord base field stride cnt first
    using that assms by (intro sectionLoop_safe) auto
  show ?thesis
    using assms unfolding segmentCommand_def Let_def
    by (intro safe_if read_then_safe safe_rbind sections linkeditSegment_safe; simp add: rangeOK_iff)
qed

lemma uuidCommand_safe: "p + n \<le> sz \<Longrightarrow> safe (uuidCommand read p n im)"
  unfolding uuidCommand_def Let_def by (intro safe_if read_then_safe; simp)

lemma buildVersionCommand_safe: "p + n \<le> sz \<Longrightarrow> safe (buildVersionCommand read p n im)"
  unfolding buildVersionCommand_def buildVersionFields_def Let_def by (intro safe_if read_then_safe safe_rbind; simp)

lemma symtabCommand_safe: "p + n \<le> sz \<Longrightarrow> safe (symtabCommand read len p n im)"
  unfolding symtabCommand_def symtabFields_def by (intro safe_if read_then_safe safe_rbind; simp add: case_prod_unfold)

lemma commandStep_safe: "p + n \<le> sz \<Longrightarrow> safe (commandStep read len fin p kind n im)"
  unfolding commandStep_def
  by (auto intro: signatureCommand_safe segmentCommand_safe uuidCommand_safe buildVersionCommand_safe symtabCommand_safe)

lemma commandLoop_safe: "fin \<le> sz \<Longrightarrow> safe (commandLoop read len fin k p im)"
proof (induction k arbitrary: p im)
  case (Suc k)
  then show ?case
    unfolding commandLoop.simps by (intro safe_if read_then_safe safe_rbind commandStep_safe; auto)
qed simp

lemma parseImageRange_safe: "safe (parseImageRange sz read)"
proof (cases "sz < 28")
  case False
  have "safe (parseImageRange sz read)" if "read 0 (min sz 32) = Inr data" "length data = min sz 32" for data
  proof (cases "magicOrder (be32 data 0)")
    case None
    with False that show ?thesis by (simp add: parseImageRange_def)
  next
    case (Some r)
    obtain ord hdr where r: "r = (ord, hdr)" by (cases r)
    with Some have "hdr \<in> {28, 32}" by (auto simp: magicOrder_def split: if_split_asm)
    with False that Some r show ?thesis
      unfolding parseImageRange_def Let_def rangeOK_iff that(1) rbind_Inr
      by (simp del: ord_rd32_ok, intro impI safe_if safe_rbind; simp add: case_prod_unfold commandLoop_safe)
  qed
  with False show ?thesis
    using read_safe [of 0 "min sz 32"] read_length [of 0 "min sz 32"]
    by (cases "read 0 (min sz 32)") (auto simp: parseImageRange_def)
qed (simp add: parseImageRange_def)

end

lemma fatLoop_safe:
  assumes images: "\<And>off n. off + n \<le> len \<Longrightarrow> safe (readImage off n)"
  shows "length data = 8 + cnt * (if wide then 32 else 20) \<Longrightarrow> i + k \<le> cnt \<Longrightarrow>
    safe (fatLoop readImage len ord wide data cnt i k acc)"
proof (induction k arbitrary: i acc)
  case (Suc k)
  have check: "safe (checkAgainst cpu subtype off n olds)" for cpu subtype off n olds
    by (induction olds) auto
  have room: "8 + i * (if wide then 32 else 20) + (if wide then 32 else 20) \<le> length data"
  proof -
    have "Suc i * (if wide then 32 else 20) \<le> cnt * (if wide then 32 else 20)"
      using Suc.prems by (intro mult_le_mono1) simp
    with Suc.prems show ?thesis by simp
  qed
  then have entry: "safe (fatEntry ord wide data (8 + i * (if wide then 32 else 20)))"
    unfolding fatEntry_def by (auto intro!: safe_rbind)
  have IH: "safe (fatLoop readImage len ord wide data cnt (Suc i) k acc')" for acc'
    using Suc by simp
  show ?case
    unfolding fatLoop.simps Let_def
  proof (rule safe_rbind [OF entry])
    fix v :: "nat \<times> nat \<times> nat \<times> nat \<times> nat"
    obtain cpu subtype off n alignment where v: "v = (cpu, subtype, off, n, alignment)" by (cases v)
    show "safe (case v of (cpu, subtype, off, sz, alignment) \<Rightarrow>
        if 30 < alignment \<or> off mod 2 ^ alignment \<noteq> 0 \<or> off < 8 + cnt * (if wide then 32 else 20) \<or> \<not> rangeOK off sz len
        then Inl (Malformed ''universal slice bounds'')
        else rbind (checkAgainst cpu subtype off sz acc) (\<lambda>_. rbind (readImage off sz) (\<lambda>im.
          if im_cpu im \<noteq> cpu \<or> im_subtype im \<noteq> subtype then Inl (Malformed ''universal architecture mismatch'')
          else fatLoop readImage len ord wide data cnt (Suc i) k
            (acc @ [\<lparr>sl_offset = off, sl_size = sz, sl_cpu = cpu, sl_subtype = subtype, sl_alignment = alignment, sl_image = im\<rparr>]))))"
      unfolding v prod.case
      by (intro safe_if safe_rbind check images IH; simp add: rangeOK_iff)
  qed
qed simp

context safe_reader begin

lemma parseContainerRange_safe:
  assumes "\<And>off n. off + n \<le> sz \<Longrightarrow> safe (readImage off n)"
  shows "safe (parseContainerRange sz read readImage)"
  unfolding parseContainerRange_def Let_def
  by (intro safe_if read_then_safe safe_rbind assms fatLoop_safe; simp)

end

lemma parseImage_safe: "safe (parseImage data)"
  unfolding parseImage_def by (rule mem.held.parseImageRange_safe)

lemma parseContainer_safe: "safe (parseContainer data)"
  unfolding parseContainer_def
  by (intro safe_rbind safe_Inr mem.held.parseContainerRange_safe) (auto intro!: parseImage_safe)

end
