(* ===== verification/MachO_Props.thy ===== *)
theory MachO_Props
  imports MachO_Format Signature_Props
begin

text \<open>
  What an accepted image or container guarantees: invariants of the command loop and of
  the universal index loop.
\<close>

section \<open>The command loop\<close>

text \<open>
  After the commands before \<open>p\<close>: the signature and UUID commands and the LINKEDIT segment
  command lie between the header and \<open>p\<close>, the ranges they name inside the file, the
  signature data after the commands; signature command and LINKEDIT header are disjoint.
\<close>

definition linkeditLen :: "nat \<Rightarrow> nat" where
  "linkeditLen kind = (if kind = 0x19 then 72 else 56)"

definition image_inv :: "nat \<Rightarrow> nat \<Rightarrow> nat \<Rightarrow> nat \<Rightarrow> image \<Rightarrow> bool" where
  "image_inv len hdr fin p im \<longleftrightarrow> im_header im = hdr \<and> hdr + im_commandBytes im = fin \<and>
     8 * im_commandCount im \<le> im_commandBytes im \<and>
     (im_sigCommand im = -1 \<or> int hdr \<le> im_sigCommand im \<and> im_sigCommand im + 16 \<le> int p \<and>
        fin \<le> im_sigOffset im \<and> im_sigOffset im + im_sigSize im \<le> len) \<and>
     (im_linkedit im = -1 \<or> int hdr \<le> im_linkedit im \<and> im_linkedit im + int (linkeditLen (im_linkeditKind im)) \<le> int p \<and>
        im_linkStart im \<le> len \<and>
        (im_sigCommand im = -1 \<or> im_sigCommand im + 16 \<le> im_linkedit im \<or>
         im_linkedit im + int (linkeditLen (im_linkeditKind im)) \<le> im_sigCommand im)) \<and>
     (im_uuidOffset im = -1 \<or> int hdr \<le> im_uuidOffset im \<and> im_uuidOffset im + int (im_uuidSize im) \<le> int p) \<and>
     im_textBase im + im_textSize im \<le> len \<and> im_firstSection im \<le> len"

lemma image_inv_mono: "image_inv len hdr fin p im \<Longrightarrow> p \<le> p' \<Longrightarrow> image_inv len hdr fin p' im"
  by (auto simp: image_inv_def)

lemma signatureCommand_inv:
  "signatureCommand read len fin p n im = Inr im' \<Longrightarrow> image_inv len hdr fin p im \<Longrightarrow> hdr \<le> p \<Longrightarrow>
   image_inv len hdr fin (p + n) im'"
  by (auto simp: signatureCommand_def result_simps rangeOK_iff image_inv_def)

lemma sectionLoop_le: "sectionLoop read ord at stride k first = Inr r \<Longrightarrow> r \<le> first"
proof (induction k arbitrary: at first)
  case (Suc k)
  then obtain off where "sectionLoop read ord (at + stride) stride k (if off \<noteq> 0 \<and> off < first then off else first) = Inr r"
    by (simp only: sectionLoop.simps result_simps) blast
  from Suc.IH [OF this] show ?case by (auto split: if_split_asm)
qed simp

lemma linkeditSegment_inv:
  assumes "linkeditSegment len p kind off n im = Inr im'" "image_inv len hdr fin p im" "hdr \<le> p" "off \<le> len"
    "linkeditLen kind \<le> sz"
  shows "image_inv len hdr fin (p + sz) im'"
  using assms by (auto simp: linkeditSegment_def Let_def image_inv_def guard_eq_Inr split: if_split_asm)

lemma image_inv_text:
  "image_inv len hdr fin p im \<Longrightarrow> off + n \<le> len \<Longrightarrow>
   image_inv len hdr fin p (im\<lparr>im_textBase := off, im_textSize := n\<rparr>)"
  and image_inv_first:
  "image_inv len hdr fin p im \<Longrightarrow> first \<le> len \<Longrightarrow> image_inv len hdr fin p (im\<lparr>im_firstSection := first\<rparr>)"
  and image_inv_firstSection: "image_inv len hdr fin p im \<Longrightarrow> im_firstSection im \<le> len"
  by (simp_all add: image_inv_def)

lemma segmentCommand_inv:
  assumes seg: "segmentCommand read len p kind n im = Inr im'" and inv: "image_inv len hdr fin p im" and p: "hdr \<le> p"
  shows "image_inv len hdr fin (p + n) im'"
proof -
  from seg obtain rawName off segLen im1 at stride cnt first where
      n: "\<not> n < (if kind = 25 then 72 else 56)" and off: "\<not> (\<not> rangeOK off segLen len \<or> cnt * stride > n - (if kind = 25 then 72 else 56))"
    and im1: "(if trimZeros rawName = str ''__LINKEDIT'' then linkeditSegment len p kind off segLen im else Inr im) = Inr im1"
    and sec: "sectionLoop read (im_order im) at stride cnt
        (im_firstSection (if trimZeros rawName = str ''__TEXT'' then im1\<lparr>im_textBase := off, im_textSize := segLen\<rparr> else im1)) = Inr first"
    and im': "Inr ((if trimZeros rawName = str ''__TEXT'' then im1\<lparr>im_textBase := off, im_textSize := segLen\<rparr> else im1)
        \<lparr>im_firstSection := first\<rparr>) = (Inr im' :: image result)"
    unfolding segmentCommand_def Let_def
    by (simp only: result_simps) (elim exE conjE, rule that; assumption)
  have n: "linkeditLen kind \<le> n" and off: "off + segLen \<le> len"
    using n off by (auto simp: linkeditLen_def rangeOK_iff split: if_split_asm)
  have "image_inv len hdr fin (p + n) im1"
    using im1 linkeditSegment_inv [of len p kind off segLen im im1 hdr fin n] inv p off n image_inv_mono [OF inv, of "p + n"]
    by (auto split: if_split_asm)
  with off have inv1: "image_inv len hdr fin (p + n)
      (if trimZeros rawName = str ''__TEXT'' then im1\<lparr>im_textBase := off, im_textSize := segLen\<rparr> else im1)"
    by (simp add: image_inv_text)
  have "first \<le> len" using sectionLoop_le [OF sec] image_inv_firstSection [OF inv1] by (rule order_trans)
  from image_inv_first [OF inv1 this] show ?thesis using im' by blast
qed

lemma uuidCommand_inv:
  "uuidCommand read p n im = Inr im' \<Longrightarrow> image_inv len hdr fin p im \<Longrightarrow> hdr \<le> p \<Longrightarrow>
   image_inv len hdr fin (p + n) im'"
  by (auto simp: uuidCommand_def Let_def result_simps image_inv_def split: if_split_asm)

lemma buildVersionFields_inv:
  assumes "buildVersionFields read p im = Inr im'" "image_inv len hdr fin p im"
  shows "image_inv len hdr fin p im'"
proof -
  from assms(1) obtain a b c where "im' = (let im = im\<lparr>im_versionPlatform := a, im_versionMin := b, im_versionSDK := c\<rparr> in
      if \<not> im_buildVersionSeen im then im\<lparr>im_execPlatform := a\<rparr> else im)"
    unfolding buildVersionFields_def Let_def rbind_eq_Inr by auto
  with assms(2) show ?thesis by (auto simp: Let_def image_inv_def)
qed

lemma buildVersionCommand_inv:
  assumes "buildVersionCommand read p n im = Inr im'" "image_inv len hdr fin p im"
  shows "image_inv len hdr fin (p + n) im'"
proof -
  from assms(1) obtain im1 where "(if n \<ge> 24 then buildVersionFields read p im else Inr im) = Inr im1"
      "im' = im1\<lparr>im_buildVersionSeen := True\<rparr>"
    unfolding buildVersionCommand_def rbind_eq_Inr by auto
  with buildVersionFields_inv assms(2) have "image_inv len hdr fin p im1" by (auto split: if_split_asm)
  with \<open>im' = _\<close> show ?thesis by (auto simp: image_inv_def)
qed

lemma minVersionCommand_inv:
  "image_inv len hdr fin p im \<Longrightarrow> image_inv len hdr fin (p + n) (minVersionCommand kind n im)"
  by (auto simp: minVersionCommand_def Let_def image_inv_def)

lemma recordSymtab_inv: "image_inv len hdr fin p im \<Longrightarrow> image_inv len hdr fin p (recordSymtab len n v im)"
  by (cases v) (auto simp: recordSymtab_def Let_def image_inv_def)

lemma symtabCommand_inv:
  "symtabCommand read len p n im = Inr im' \<Longrightarrow> image_inv len hdr fin p im \<Longrightarrow> image_inv len hdr fin (p + n) im'"
  unfolding symtabCommand_def rbind_eq_Inr
  using image_inv_mono [OF recordSymtab_inv, of len hdr fin p im "p + n"] by auto

lemma commandStep_inv:
  "commandStep read len fin p kind n im = Inr im' \<Longrightarrow> image_inv len hdr fin p im \<Longrightarrow> hdr \<le> p \<Longrightarrow>
   image_inv len hdr fin (p + n) im'"
  unfolding commandStep_def
  by (auto split: if_split_asm intro: signatureCommand_inv segmentCommand_inv uuidCommand_inv
      buildVersionCommand_inv minVersionCommand_inv symtabCommand_inv image_inv_mono)

lemma commandLoop_inv:
  "commandLoop read len fin k p im = Inr (im', p') \<Longrightarrow> image_inv len hdr fin p im \<Longrightarrow> hdr \<le> p \<Longrightarrow> p \<le> fin \<Longrightarrow>
   image_inv len hdr fin p' im' \<and> p' \<le> fin \<and> p + 8 * k \<le> p'"
proof (induction k arbitrary: p im)
  case (Suc k)
  from Suc.prems(1) obtain kind n im1 where n: "\<not> (n < 8 \<or> n mod 4 \<noteq> 0 \<or> n > fin - p)" "\<not> p + 8 > fin"
      and step: "commandStep read len fin p kind n im = Inr im1"
      and rest: "commandLoop read len fin k (p + n) im1 = Inr (im', p')"
    by (simp only: commandLoop.simps result_simps) (elim exE conjE, rule that; assumption)
  have "image_inv len hdr fin (p + n) im1" using commandStep_inv [OF step] Suc.prems by simp
  moreover have "8 \<le> n" "p + n \<le> fin" using n by auto
  ultimately show ?case using Suc.IH [OF rest] Suc.prems(3) by auto
qed simp

section \<open>Images\<close>

definition image_wf :: "nat \<Rightarrow> image \<Rightarrow> bool" where
  "image_wf len im \<longleftrightarrow> (let fin = im_header im + im_commandBytes im in
     im_header im \<in> {28, 32} \<and> fin \<le> len \<and> 8 * im_commandCount im \<le> im_commandBytes im \<and>
     fin \<le> im_firstSection im \<and> image_inv len (im_header im) fin fin im)"

lemma parseImageRange_wf:
  assumes "parseImageRange len read = Inr im" shows "image_wf len im"
proof -
  from assms obtain data where data: "read 0 (min len 32) = Inr data" "rd32 data 0 = Inr (be32 data 0)"
    unfolding parseImageRange_def rbind_eq_Inr guard_eq_Inr rd32_Inr by (elim exE conjE) (simp add: rd32_def)
  obtain m where "magicOrder (be32 data 0) = Some m"
    using assms unfolding parseImageRange_def data rbind_Inr guard_eq_Inr
    by (cases "magicOrder (be32 data 0)") simp_all
  then obtain ord hdr where magic: "magicOrder (be32 data 0) = Some (ord, hdr)" by (cases m) simp
  obtain cpu subtype filetype cnt bytes r where
      bounds: "\<not> (\<not> rangeOK hdr bytes len \<or> cnt * 8 > bytes)"
    and loop: "commandLoop read len (hdr + bytes) cnt hdr
        ((newImage len)\<lparr>im_order := ord, im_header := hdr,
                im_headerBytes := data @ replicate (32 - length data) 0, im_cpu := cpu, im_subtype := subtype,
                im_filetype := filetype, im_commandCount := cnt, im_commandBytes := bytes\<rparr>) = Inr r"
    and tail: "(case r of (im, p) \<Rightarrow>
     if p \<noteq> hdr + bytes \<or> im_firstSection im < hdr + bytes then Inl (Malformed ''load commands overlap content'') else
     Inr (if \<not> im_buildVersionSeen im then im\<lparr>im_execPlatform := im_legacyPlatform im\<rparr> else im)) = Inr im"
    using assms unfolding parseImageRange_def Let_def data rbind_Inr magic option.case prod.case
    by (simp only: rbind_eq_Inr guard_eq_Inr) (elim exE conjE, rule that; assumption)
  obtain im1 p where r: "r = (im1, p)" by (cases r)
  from tail have fin: "p = hdr + bytes" "hdr + bytes \<le> im_firstSection im1"
    and im: "im = (if \<not> im_buildVersionSeen im1 then im1\<lparr>im_execPlatform := im_legacyPlatform im1\<rparr> else im1)"
    unfolding r prod.case by (auto simp: guard_eq_Inr)
  have bounds: "hdr + bytes \<le> len" "cnt * 8 \<le> bytes" using bounds by (auto simp: rangeOK_iff)
  note loop = loop [unfolded r]
  have hdr: "hdr \<in> {28, 32}" using magic by (auto simp: magicOrder_def split: if_split_asm)
  have "image_inv len hdr (hdr + bytes) hdr
      ((newImage len)\<lparr>im_order := ord, im_header := hdr,
                im_headerBytes := data @ replicate (32 - length data) 0, im_cpu := cpu, im_subtype := subtype,
                im_filetype := filetype, im_commandCount := cnt, im_commandBytes := bytes\<rparr>)"
    using bounds(2) by (simp add: image_inv_def newImage_def)
  from commandLoop_inv [OF loop this] fin hdr bounds show ?thesis
    by (auto simp: image_wf_def Let_def im image_inv_def)
qed

section \<open>Containers\<close>

definition sliceSpan :: "archSlice \<Rightarrow> nat \<times> nat" where
  "sliceSpan s = (sl_offset s, sl_offset s + sl_size s)"

definition slice_ok :: "(nat \<Rightarrow> nat \<Rightarrow> image result) \<Rightarrow> nat \<Rightarrow> nat \<Rightarrow> archSlice \<Rightarrow> bool" where
  "slice_ok readImage len index s \<longleftrightarrow> index \<le> sl_offset s \<and> sl_offset s + sl_size s \<le> len \<and>
     sl_alignment s \<le> 30 \<and> 2 ^ sl_alignment s dvd sl_offset s \<and>
     readImage (sl_offset s) (sl_size s) = Inr (sl_image s) \<and>
     im_cpu (sl_image s) = sl_cpu s \<and> im_subtype (sl_image s) = sl_subtype s"

text \<open>Architectures distinct, ranges disjoint, every slice in bounds and parsed.\<close>

definition slices_wf :: "(nat \<Rightarrow> nat \<Rightarrow> image result) \<Rightarrow> nat \<Rightarrow> nat \<Rightarrow> archSlice list \<Rightarrow> bool" where
  "slices_wf readImage len index ss \<longleftrightarrow> (\<forall>s \<in> set ss. slice_ok readImage len index s) \<and>
     distinct (map (\<lambda>s. (sl_cpu s, sl_subtype s)) ss) \<and>
     sorted_wrt (\<lambda>a b. disjointSpan (sliceSpan a) (sliceSpan b)) ss"

lemma checkAgainst_Inr:
  "checkAgainst cpu subtype off n olds = Inr () \<Longrightarrow> old \<in> set olds \<Longrightarrow>
   (sl_cpu old, sl_subtype old) \<noteq> (cpu, subtype) \<and> disjointSpan (sliceSpan old) (off, off + n)"
  by (induction olds) (auto simp: guard_eq_Inr disjointSpan_def sliceSpan_def)

lemma fatLoop_wf:
  "fatLoop readImage len ord wide data cnt i k acc = Inr ss \<Longrightarrow>
   slices_wf readImage len (8 + cnt * (if wide then 32 else 20)) acc \<Longrightarrow>
   slices_wf readImage len (8 + cnt * (if wide then 32 else 20)) ss \<and> length ss = length acc + k"
proof (induction k arbitrary: i acc)
  case (Suc k)
  let ?index = "8 + cnt * (if wide then 32 else 20)"
  from Suc.prems(1) obtain e where step: "(case e of (cpu, subtype, off, sz, alignment) \<Rightarrow>
       if alignment > 30 \<or> off mod 2 ^ alignment \<noteq> 0 \<or> off < ?index \<or> \<not> rangeOK off sz len
       then Inl (Malformed ''universal slice bounds'') else
       rbind (checkAgainst cpu subtype off sz acc) (\<lambda>_.
       rbind (readImage off sz) (\<lambda>im.
       if im_cpu im \<noteq> cpu \<or> im_subtype im \<noteq> subtype then Inl (Malformed ''universal architecture mismatch'') else
       fatLoop readImage len ord wide data cnt (Suc i) k
         (acc @ [\<lparr>sl_offset = off, sl_size = sz, sl_cpu = cpu, sl_subtype = subtype,
                  sl_alignment = alignment, sl_image = im\<rparr>])))) = Inr ss"
    unfolding fatLoop.simps Let_def rbind_eq_Inr by blast
  obtain cpu subtype off n alignment where e: "e = (cpu, subtype, off, n, alignment)" by (cases e)
  from step obtain im where
      bounds: "\<not> (alignment > 30 \<or> off mod 2 ^ alignment \<noteq> 0 \<or> off < ?index \<or> \<not> rangeOK off n len)"
    and check: "checkAgainst cpu subtype off n acc = Inr ()"
    and im: "readImage off n = Inr im" "\<not> (im_cpu im \<noteq> cpu \<or> im_subtype im \<noteq> subtype)"
    and rest: "fatLoop readImage len ord wide data cnt (Suc i) k
       (acc @ [\<lparr>sl_offset = off, sl_size = n, sl_cpu = cpu, sl_subtype = subtype,
                sl_alignment = alignment, sl_image = im\<rparr>]) = Inr ss"
    unfolding e prod.case rbind_eq_Inr guard_eq_Inr by auto
  let ?s = "\<lparr>sl_offset = off, sl_size = n, sl_cpu = cpu, sl_subtype = subtype, sl_alignment = alignment, sl_image = im\<rparr>"
  have "slice_ok readImage len ?index ?s"
    using bounds im by (auto simp: slice_ok_def dvd_eq_mod_eq_0 rangeOK_iff)
  with Suc.prems(2) checkAgainst_Inr [OF check] have "slices_wf readImage len ?index (acc @ [?s])"
    by (force simp: slices_wf_def sorted_wrt_append sliceSpan_def)
  with Suc.IH [OF rest] show ?case by simp
qed simp

definition container_wf :: "(nat \<Rightarrow> nat \<Rightarrow> image result) \<Rightarrow> nat \<Rightarrow> container \<Rightarrow> bool" where
  "container_wf readImage len c \<longleftrightarrow> co_slices c \<noteq> [] \<and> length (co_slices c) \<le> 128 \<and>
     (if co_fat c
      then slices_wf readImage len (8 + length (co_slices c) * (if co_fat64 c then 32 else 20)) (co_slices c)
      else length (co_slices c) = 1 \<and> sl_offset (hd (co_slices c)) = 0 \<and> sl_size (hd (co_slices c)) = len \<and>
        slices_wf readImage len 0 (co_slices c))"

lemma parseContainerRange_wf:
  assumes "parseContainerRange len read readImage = Inr c"
  shows "container_wf readImage len c"
proof -
  from assms obtain data where data: "read 0 (min len 8) = Inr data" "rd32 data 0 = Inr (be32 data 0)"
    unfolding parseContainerRange_def rbind_eq_Inr guard_eq_Inr rd32_Inr by (elim exE conjE) (simp add: rd32_def)
  note parse = assms [unfolded parseContainerRange_def Let_def data rbind_Inr guard_eq_Inr]
  show ?thesis
  proof (cases "be32 data 0 \<notin> {0xcafebabe, 0xbebafeca, 0xcafebabf, 0xbfbafeca}")
    case True
    with parse obtain im where "readImage 0 len = Inr im"
        "c = \<lparr>co_data = [], co_fat = False, co_fat64 = False, co_order = BigEndian,
            co_slices = [\<lparr>sl_offset = 0, sl_size = len, sl_cpu = im_cpu im, sl_subtype = im_subtype im,
                          sl_alignment = 0, sl_image = im\<rparr>]\<rparr>"
      by (auto simp: rbind_eq_Inr)
    then show ?thesis by (simp add: container_wf_def slices_wf_def slice_ok_def)
  next
    case False
    define wide where "wide = (be32 data 0 = 0xcafebabf \<or> be32 data 0 = 0xbfbafeca)"
    note parse' = parse [unfolded if_not_P [OF False] wide_def [symmetric] guard_eq_Inr rbind_eq_Inr]
    from parse' obtain ord n data' ss where n: "\<not> (n = 0 \<or> n > 128 \<or> n * (if wide then 32 else 20) + 8 > len)"
      and ss: "fatLoop readImage len ord wide data' n 0 n [] = Inr ss"
        "Inr \<lparr>co_data = data', co_fat = True, co_fat64 = wide, co_order = ord, co_slices = ss\<rparr> = (Inr c :: container result)"
      by (elim exE conjE) (rule that; assumption)
    from fatLoop_wf [OF ss(1)] n ss(2) show ?thesis
      by (auto simp: container_wf_def slices_wf_def)
  qed
qed

section \<open>Properties\<close>

text \<open>
  C4. No input makes the Mach-O and universal parsers panic: every read, slice and index of
  the load command loop, the section loop and the universal index stays in bounds.
\<close>

theorem parseContainer_no_panic: "safe (parseContainer data)"
  by (rule parseContainer_safe)

text \<open>The reader of a universal file's slices.\<close>

definition sliceImage :: "byte list \<Rightarrow> nat \<Rightarrow> nat \<Rightarrow> image result" where
  "sliceImage data off n = rbind (slice_at data off n) parseImage"

lemma parseContainer_wf_lemma:
  assumes "parseContainer data = Inr c"
  shows "container_wf (sliceImage data) (length data) c \<and> (\<forall>s \<in> set (co_slices c). image_wf (sl_size s) (sl_image s))"
proof -
  from assms have wf: "container_wf (sliceImage data) (length data) c"
    using parseContainerRange_wf [of "length data" "memoryRange data" "sliceImage data"]
    unfolding parseContainer_def sliceImage_def [abs_def] by (auto simp: rbind_eq_Inr container_wf_def)
  moreover have "image_wf (sl_size s) (sl_image s)" if "s \<in> set (co_slices c)" for s
  proof -
    from wf that have "sliceImage data (sl_offset s) (sl_size s) = Inr (sl_image s)" "sl_offset s + sl_size s \<le> length data"
      by (auto simp: container_wf_def slices_wf_def slice_ok_def split: if_split_asm)
    then have "parseImageRange (sl_size s) (memoryRange (slice data (sl_offset s) (sl_size s))) = Inr (sl_image s)"
      by (auto simp: sliceImage_def parseImage_def min_absorb1)
    then show ?thesis by (rule parseImageRange_wf)
  qed
  ultimately show ?thesis by blast
qed

text \<open>
  C5. An accepted container is well-formed: 1 to 128 slices; a universal file's slices lie
  after its index and inside the file, at offsets aligned as announced, pairwise disjoint,
  with distinct architectures that agree with their images; and every slice's image has its
  load commands inside the slice and before all content, its signature command and data,
  LINKEDIT, TEXT and UUID ranges inside their bounds.
\<close>

theorem parseContainer_wf:
  assumes "parseContainer data = Inr c"
  shows "container_wf (sliceImage data) (length data) c \<and> (\<forall>s \<in> set (co_slices c). image_wf (sl_size s) (sl_image s))"
  using assms by (rule parseContainer_wf_lemma)

definition sampleImage :: "byte list" where
  "sampleImage = [0xfe, 0xed, 0xfa, 0xce] @ replicate 24 0"

lemma sampleImage_parses: "\<exists>c. parseContainer sampleImage = Inr c"
proof -
  have "case parseContainer sampleImage of Inr c \<Rightarrow> True | Inl _ \<Rightarrow> False" by code_simp
  then show ?thesis by (auto split: sum.split_asm)
qed

theorem parseContainer_wf_witness:
  "\<exists>c. parseContainer sampleImage = Inr c \<and> container_wf (sliceImage sampleImage) (length sampleImage) c"
  using sampleImage_parses parseContainer_wf [of sampleImage] by blast

end
