(* ===== verification/DER_Codec.thy ===== *)
theory DER_Codec
  imports Samples
begin

text \<open>
  The DER writer shared by the entitlement and CMS code (entitlements.go, cms.go) and the
  bounded BER reader of cms_range.go and cms_ber.go, which walks the indefinite-length
  envelopes Apple emits without copying their payload.
\<close>

section \<open>Writing\<close>

text \<open>The shortest big-endian form of a positive length: the loop of derHeader.\<close>

fun minBytes :: "nat \<Rightarrow> byte list" where
  "minBytes n = (if n = 0 then [] else minBytes (n div 256) @ [of_nat n])"

declare minBytes.simps [simp del]

definition derHeader :: "byte \<Rightarrow> nat \<Rightarrow> byte list" where
  "derHeader tag len =
     (if len < 128 then [tag, of_nat len]
      else let buf = minBytes len in [tag, of_nat (128 + length buf)] @ buf)"

definition derWrap :: "byte \<Rightarrow> byte list \<Rightarrow> byte list" where
  "derWrap tag data = derHeader tag (length data) @ data"

definition derSequence :: "byte list list \<Rightarrow> byte list" where
  "derSequence parts = derWrap 0x30 (concat parts)"

definition cmsBERWrap :: "byte \<Rightarrow> byte list list \<Rightarrow> byte list" where
  "cmsBERWrap tag parts = [tag, 0x80] @ concat parts @ [0, 0]"

lemma minBytes_0 [simp]: "minBytes 0 = []"
  by (simp add: minBytes.simps)

lemma minBytes_pos: "0 < n \<Longrightarrow> minBytes n = minBytes (n div 256) @ [of_nat n]"
  by (simp add: minBytes.simps [of n])

lemma be_nat_minBytes: "be_nat (minBytes n) = n"
proof (induction n rule: minBytes.induct)
  case (1 n)
  then show ?case
    by (cases "n = 0") (simp_all add: minBytes_pos be_nat_append unat_of_nat_byte)
qed

lemma minBytes_nonempty: "0 < n \<Longrightarrow> minBytes n \<noteq> []"
  by (simp add: minBytes_pos)

lemma length_minBytes: "n < 256 ^ k \<Longrightarrow> length (minBytes n) \<le> k"
proof (induction k arbitrary: n)
  case (Suc k)
  have "n div 256 < 256 ^ k"
    using Suc.prems by (simp add: less_mult_imp_div_less mult.commute)
  with Suc.IH [of "n div 256"] show ?case
    by (cases "n = 0") (simp_all add: minBytes_pos)
qed simp

lemma hd_minBytes: "0 < n \<Longrightarrow> hd (minBytes n) \<noteq> 0"
proof (induction n rule: minBytes.induct)
  case (1 n)
  show ?case
  proof (cases "n < 256")
    case True
    then have "unat (of_nat n :: byte) = n" by (simp add: unat_of_nat_byte)
    with True "1.prems" show ?thesis by (auto simp: minBytes_pos)
  next
    case False
    then have "0 < n div 256" by (simp add: div_greater_zero_iff)
    with "1.IH" "1.prems" show ?thesis
      by (simp add: minBytes_pos [of n] minBytes_nonempty)
  qed
qed

section \<open>Reading\<close>

record cmsBERRange =
  ber_tag :: byte
  ber_offset :: nat
  ber_length :: nat
  ber_content :: nat
  ber_contentSize :: nat

text \<open>
  cmsBERHeader: \<open>n\<close> bytes at \<open>at\<close>, refused when they pass \<open>end\<close>. The source is an
  in-memory message here; the reader's transport errors are those of Range_Reader.
\<close>

definition cmsBERHeader :: "byte list \<Rightarrow> nat \<Rightarrow> nat \<Rightarrow> nat \<Rightarrow> byte list result" where
  "cmsBERHeader src at fin n =
     (if fin > length src \<or> at > fin \<or> n > fin - at
      then Inl (Malformed ''CMS BER source range'') else slice_at src at n)"

text \<open>
  readCMSBERRange and its loop over the children of an indefinite value. The budget is
  the pointer the source threads through, returned with the value; \<open>fuel\<close> bounds the
  call depth, and \<open>OutOfFuel\<close> is proved unreachable for fuel above twice the budget.
\<close>

definition OutOfFuel :: error where
  "OutOfFuel = Plain ''out of fuel''"

text \<open>
  The definite-length tail of readCMSBERRange: the length octets, then the value, whose
  end must not pass \<open>fin\<close>.
\<close>

definition berLength :: "byte list \<Rightarrow> nat \<Rightarrow> nat \<Rightarrow> byte list \<Rightarrow> nat \<Rightarrow> (nat \<times> nat) result" where
  "berLength src at fin h len =
    (if len > 128 then
       (let n = len mod 128 in
        if n > 4 then Inl (Malformed ''CMS BER length'') else
        rbind (cmsBERHeader src (at + 2) fin n) (\<lambda>lb.
        rbind (rd8 (h @ lb) 2) (\<lambda>first.
        if first = 0 then Inl (Malformed ''CMS BER length'') else
        if be_nat lb < 128 then Inl (Malformed ''nonminimal CMS BER length'') else
        Inr (be_nat lb, at + 2 + n))))
     else Inr (len, at + 2))"

definition berDefinite :: "byte list \<Rightarrow> nat \<Rightarrow> nat \<Rightarrow> byte list \<Rightarrow> cmsBERRange result" where
  "berDefinite src at fin h =
    rbind (rd8 h 0) (\<lambda>tag. rbind (rd8 h 1) (\<lambda>len0.
    rbind (berLength src at fin h len0) (\<lambda>(len, content).
    if len > fin - content then Inl (Malformed ''truncated CMS BER'') else
    Inr \<lparr>ber_tag = of_nat tag, ber_offset = at, ber_length = content - at + len,
         ber_content = content, ber_contentSize = len\<rparr>)))"

definition berIndefinite :: "nat \<Rightarrow> nat \<Rightarrow> nat \<Rightarrow> cmsBERRange" where
  "berIndefinite tag at nxt = \<lparr>ber_tag = of_nat tag, ber_offset = at, ber_length = nxt + 2 - at,
     ber_content = at + 2, ber_contentSize = nxt - (at + 2)\<rparr>"

text \<open>
  The loop over the children of an indefinite value: \<open>readChild\<close> is the recursive call
  at the nxt depth. Each child takes at least two bytes, so \<open>fin\<close> turns are enough.
\<close>

primrec cmsBERLoop ::
  "nat \<Rightarrow> (nat \<Rightarrow> int \<Rightarrow> (cmsBERRange \<times> int) result) \<Rightarrow> byte list \<Rightarrow> nat \<Rightarrow> nat \<Rightarrow> int \<Rightarrow> (nat \<times> int) result"
where
  "cmsBERLoop 0 readChild src nxt fin budget = Inl OutOfFuel"
| "cmsBERLoop (Suc k) readChild src nxt fin budget =
    rbind (cmsBERHeader src nxt fin 2) (\<lambda>h. rbind (rd8 h 0) (\<lambda>b0. rbind (rd8 h 1) (\<lambda>b1.
    if b0 = 0 \<and> b1 = 0 then Inr (nxt, budget) else
    rbind (readChild nxt budget) (\<lambda>(child, budget').
    cmsBERLoop k readChild src (nxt + ber_length child) fin budget'))))"

primrec readCMSBERRange :: "nat \<Rightarrow> byte list \<Rightarrow> nat \<Rightarrow> nat \<Rightarrow> nat \<Rightarrow> int \<Rightarrow> (cmsBERRange \<times> int) result"
where
  "readCMSBERRange 0 src at fin depth budget = Inl OutOfFuel"
| "readCMSBERRange (Suc fuel) src at fin depth budget =
    (if depth > 32 \<or> budget - 1 < 0 \<or> at > fin \<or> fin - at < 2
     then Inl (Malformed ''CMS BER tag, depth, or element limit'') else
     rbind (cmsBERHeader src at fin 2) (\<lambda>h. rbind (rd8 h 0) (\<lambda>tag. rbind (rd8 h 1) (\<lambda>len.
     if tag = 0 \<or> tag mod 32 = 31
     then Inl (Malformed ''CMS BER tag, depth, or element limit'') else
     if len = 128 then
       (if tag div 32 mod 2 = 0 then Inl (Malformed ''primitive indefinite CMS BER'') else
        rbind (cmsBERLoop (Suc fin) (\<lambda>nxt. readCMSBERRange fuel src nxt fin (depth + 1))
                 src (at + 2) fin (budget - 1)) (\<lambda>(nxt, budget').
        Inr (berIndefinite tag at nxt, budget')))
     else rbind (berDefinite src at fin h) (\<lambda>v. Inr (v, budget - 1))))))"

text \<open>
  readCMSBER: the entry on a byte slice, with the value's bytes, its content and the rest.
  Depth 0 needs at most 34 nested calls.
\<close>

record cmsBERValue =
  val_tag :: byte
  val_raw :: "byte list"
  val_content :: "byte list"

definition berFuel :: nat where
  "berFuel = 34"

definition readCMSBER :: "byte list \<Rightarrow> int \<Rightarrow> (cmsBERValue \<times> byte list \<times> int) result" where
  "readCMSBER data budget =
    rbind (readCMSBERRange berFuel data 0 (length data) 0 budget) (\<lambda>(v, budget').
    rbind (slice_at data 0 (ber_length v)) (\<lambda>raw.
    rbind (slice_at data (ber_content v) (ber_contentSize v)) (\<lambda>content.
    Inr (\<lparr>val_tag = ber_tag v, val_raw = raw, val_content = content\<rparr>,
         drop (ber_length v) data, budget'))))"

primrec readAllBER :: "nat \<Rightarrow> byte list \<Rightarrow> int \<Rightarrow> (cmsBERValue list \<times> int) result" where
  "readAllBER 0 rest budget = Inl OutOfFuel"
| "readAllBER (Suc k) rest budget =
    (if rest = [] then Inr ([], budget) else
     rbind (readCMSBER rest budget) (\<lambda>(child, rest', budget').
     rbind (readAllBER k rest' budget') (\<lambda>(children, budget'').
     Inr (child # children, budget''))))"

definition cmsBERChildren :: "byte list \<Rightarrow> byte \<Rightarrow> int \<Rightarrow> (cmsBERValue list \<times> int) result" where
  "cmsBERChildren data tag budget =
    rbind (readCMSBER data budget) (\<lambda>(v, rest, budget').
    if val_tag v \<noteq> tag \<or> rest \<noteq> [] then Inl (Malformed ''CMS BER container'') else
    readAllBER (Suc (length (val_content v))) (val_content v) budget')"

text \<open>cmsEnvelopeFields and cmsEnvelopeDER: the four outer containers.\<close>

definition cmsEnvelopeFields :: "byte list \<Rightarrow> (byte list \<times> cmsBERValue list) result" where
  "cmsEnvelopeFields data =
    (if length data > 16 * 2 ^ 20 then Inl (Malformed ''CMS size limit'') else
     rbind (cmsBERChildren data 0x30 4096) (\<lambda>(outer, budget).
     case outer of
       [oid, content] \<Rightarrow>
         rbind (cmsBERChildren (val_raw content) 0xa0 budget) (\<lambda>(wrapped, budget).
         case wrapped of
           [inner] \<Rightarrow>
             rbind (cmsBERChildren (val_raw inner) 0x30 budget) (\<lambda>(fields, budget).
             if length fields < 4 \<or> length fields > 6 \<or> val_tag (fields ! 2) \<noteq> 0x30
             then Inl (Malformed ''CMS SignedData fields'') else
             Inr (val_raw oid, fields))
         | _ \<Rightarrow> Inl (Malformed ''CMS explicit content''))
     | _ \<Rightarrow> Inl (Malformed ''CMS ContentInfo fields'')))"

definition cmsEnvelopeDER :: "byte list \<Rightarrow> byte list result" where
  "cmsEnvelopeDER data =
    rbind (cmsEnvelopeFields data) (\<lambda>(oid, fields).
    let parts = map (\<lambda>i. if i = 2 then derWrap 0x30 (val_content (fields ! i)) else val_raw (fields ! i))
                  [0..<length fields]
    in Inr (derSequence [oid, derWrap 0xa0 (derSequence parts)]))"

section \<open>Bounds and termination of the reader\<close>

text \<open>
  A value that was read: it lies between \<open>at\<close> and \<open>fin\<close>, its content inside it, and
  it has cost at least one unit of the budget.
\<close>

definition ber_ok :: "nat \<Rightarrow> nat \<Rightarrow> int \<Rightarrow> cmsBERRange \<times> int \<Rightarrow> bool" where
  "ber_ok at fin budget r \<longleftrightarrow> (case r of (v, budget') \<Rightarrow>
     ber_offset v = at \<and> 2 \<le> ber_length v \<and> at + ber_length v \<le> fin \<and>
     at + 2 \<le> ber_content v \<and> ber_content v + ber_contentSize v \<le> at + ber_length v \<and>
     budget' < budget \<and> 0 \<le> budget')"

lemma cmsBERHeader_Inr [result_simps]:
  "cmsBERHeader src at fin n = Inr h \<longleftrightarrow> fin \<le> length src \<and> at + n \<le> fin \<and> h = slice src at n"
  by (auto simp: cmsBERHeader_def result_simps)

lemma cmsBERHeader_ok [simp]:
  "fin \<le> length src \<Longrightarrow> at + n \<le> fin \<Longrightarrow> cmsBERHeader src at fin n = Inr (slice src at n)"
  by (simp add: cmsBERHeader_Inr)

definition fueled :: "'a result \<Rightarrow> bool" where
  "fueled r \<longleftrightarrow> safe r \<and> r \<noteq> Inl OutOfFuel"

lemma fueled_Inr [simp]: "fueled (Inr v)"
  and fueled_Inl [simp]: "fueled (Inl e) \<longleftrightarrow> e \<noteq> Panic \<and> e \<noteq> OutOfFuel"
  by (auto simp: fueled_def)

lemma OutOfFuel_neq [simp]: "OutOfFuel \<noteq> Malformed s" "Malformed s \<noteq> OutOfFuel"
  "OutOfFuel \<noteq> Panic" "OutOfFuel \<noteq> Unsupported s" "Unsupported s \<noteq> OutOfFuel"
  by (simp_all add: OutOfFuel_def)

lemma fueled_rbind: "fueled r \<Longrightarrow> (\<And>v. r = Inr v \<Longrightarrow> fueled (k v)) \<Longrightarrow> fueled (rbind r k)"
  by (cases r) simp_all

lemma fueled_if: "(c \<Longrightarrow> fueled a) \<Longrightarrow> (\<not> c \<Longrightarrow> fueled b) \<Longrightarrow> fueled (if c then a else b)"
  by simp

lemma cmsBERHeader_fueled [simp]: "fueled (cmsBERHeader src at fin n)"
  by (auto simp: cmsBERHeader_def slice_at_def)

lemma rd8_fueled: "off < length data \<Longrightarrow> fueled (rd8 data off)"
  by simp

lemma berLength_ok:
  "berLength src at fin h len0 = Inr (len, content) \<Longrightarrow> at + 2 \<le> fin \<Longrightarrow>
   at + 2 \<le> content \<and> content \<le> fin"
  by (auto simp: berLength_def Let_def result_simps split: if_split_asm)

lemma berDefinite_ok:
  "berDefinite src at fin h = Inr v \<Longrightarrow> at + 2 \<le> fin \<Longrightarrow> 0 \<le> b - 1 \<Longrightarrow> ber_ok at fin b (v, b - 1)"
  by (auto simp: berDefinite_def result_simps ber_ok_def dest!: berLength_ok)

lemma berLength_fueled:
  assumes "length h = 2" "len < 256" shows "fueled (berLength src at fin h len)"
proof -
  have "fueled (rd8 (h @ slice src (at + 2) n) 2)" if "at + 2 + n \<le> length src" "0 < n" for n
    using assms that by (intro rd8_fueled) simp
  moreover have "0 < len mod 128" if "128 < len"
    using that assms(2) by (simp add: le_mod_geq)
  ultimately show ?thesis
    unfolding berLength_def Let_def
    by (auto intro!: fueled_if fueled_rbind simp: result_simps)
qed

lemma berDefinite_fueled: "length h = 2 \<Longrightarrow> fueled (berDefinite src at fin h)"
  unfolding berDefinite_def
  by (auto intro!: fueled_if fueled_rbind berLength_fueled simp: result_simps unat_byte_less)

lemma cmsBERLoop_ok:
  assumes child: "\<And>nxt b r. readChild nxt b = Inr r \<Longrightarrow> ber_ok nxt fin b r"
    and "cmsBERLoop k readChild src nxt fin b = Inr (nxt', b')" "0 \<le> b"
  shows "nxt \<le> nxt' \<and> nxt' + 2 \<le> fin \<and> b' \<le> b \<and> 0 \<le> b'"
  using assms(2,3)
proof (induction k arbitrary: nxt b)
  case (Suc k)
  from Suc.prems consider "nxt' = nxt" "b' = b" "nxt + 2 \<le> fin"
    | v c where "readChild nxt b = Inr (v, c)" "cmsBERLoop k readChild src (nxt + ber_length v) fin c = Inr (nxt', b')"
    by (auto simp: result_simps split: if_split_asm)
  then show ?case
  proof cases
    case 2
    with child [OF 2(1)] Suc.IH [OF 2(2)] show ?thesis by (auto simp: ber_ok_def)
  qed (use Suc.prems in auto)
qed simp

lemma readCMSBERRange_ok:
  "readCMSBERRange fuel src at fin depth budget = Inr r \<Longrightarrow> ber_ok at fin budget r"
proof (induction fuel arbitrary: at depth budget r)
  case (Suc fuel)
  from Suc.prems have at: "at + 2 \<le> fin" "0 \<le> budget - 1" by (auto simp: result_simps)
  from Suc.prems consider h v where "berDefinite src at fin h = Inr v" "r = (v, budget - 1)"
    | tag nxt b where "cmsBERLoop (Suc fin) (\<lambda>nxt. readCMSBERRange fuel src nxt fin (depth + 1))
        src (at + 2) fin (budget - 1) = Inr (nxt, b)" "r = (berIndefinite tag at nxt, b)"
    by (auto simp: result_simps split: if_split_asm simp del: cmsBERLoop.simps)
  then show ?case
  proof cases
    case 1
    with berDefinite_ok at show ?thesis by blast
  next
    case 2
    have child: "ber_ok nxt fin b r" if "readCMSBERRange fuel src nxt fin (depth + 1) b = Inr r" for nxt b r
      using Suc.IH that by blast
    from cmsBERLoop_ok [OF child 2(1) at(2)] at show ?thesis
      by (auto simp: 2(2) ber_ok_def berIndefinite_def)
  qed
qed simp

lemma cmsBERLoop_fueled:
  assumes "\<And>nxt b. fueled (readChild nxt b)" "\<And>nxt b r. readChild nxt b = Inr r \<Longrightarrow> ber_ok nxt fin b r"
  shows "nxt \<le> fin \<Longrightarrow> fin < nxt + k \<Longrightarrow> fueled (cmsBERLoop k readChild src nxt fin b)"
proof (induction k arbitrary: nxt b)
  case (Suc k)
  have "nxt + ber_length v \<le> fin \<and> fin < nxt + ber_length v + k" if "readChild nxt b = Inr (v, b')" for v b'
    using assms(2) [OF that] Suc.prems by (simp add: ber_ok_def)
  with assms(1) Suc.IH show ?case
    by (auto intro!: fueled_rbind simp: result_simps)
qed simp

lemma readCMSBERRange_fueled:
  "34 \<le> fuel + depth \<Longrightarrow> depth \<le> 33 \<Longrightarrow> fueled (readCMSBERRange fuel src at fin depth budget)"
proof (induction fuel arbitrary: at depth budget)
  case (Suc fuel)
  show ?case
  proof (cases "depth > 32 \<or> at + 2 > fin")
    case False
    have ok: "ber_ok nxt fin b r" if "readCMSBERRange fuel src nxt fin (depth + 1) b = Inr r" for nxt b r
      using readCMSBERRange_ok that by blast
    have "fueled (cmsBERLoop (Suc fin) (\<lambda>nxt. readCMSBERRange fuel src nxt fin (depth + 1)) src (at + 2) fin (budget - 1))"
      using Suc False by (intro cmsBERLoop_fueled ok) auto
    with False show ?thesis
      by (auto intro!: fueled_rbind fueled_if berDefinite_fueled simp: result_simps simp del: cmsBERLoop.simps)
  qed auto
qed simp

section \<open>Properties of the reader\<close>

lemma readCMSBER_Inr:
  assumes "readCMSBER data budget = Inr (v, rest, budget')"
  obtains r where "readCMSBERRange berFuel data 0 (length data) 0 budget = Inr (r, budget')"
    "v = \<lparr>val_tag = ber_tag r, val_raw = slice data 0 (ber_length r),
          val_content = slice data (ber_content r) (ber_contentSize r)\<rparr>"
    "rest = drop (ber_length r) data" "ber_ok 0 (length data) budget (r, budget')"
proof -
  from assms obtain r where r: "readCMSBERRange berFuel data 0 (length data) 0 budget = Inr (r, budget')"
    "v = \<lparr>val_tag = ber_tag r, val_raw = slice data 0 (ber_length r),
          val_content = slice data (ber_content r) (ber_contentSize r)\<rparr>"
    "rest = drop (ber_length r) data"
    by (auto simp: readCMSBER_def result_simps)
  with that readCMSBERRange_ok show ?thesis by blast
qed

lemma readCMSBER_fueled: "fueled (readCMSBER data budget)"
proof -
  let ?r = "readCMSBERRange berFuel data 0 (length data) 0 budget"
  have "fueled ?r"
    by (rule readCMSBERRange_fueled) (simp_all add: berFuel_def)
  moreover have "ber_length r \<le> length data \<and> ber_content r + ber_contentSize r \<le> length data"
    if "?r = Inr (r, b)" for r b
    using readCMSBERRange_ok [OF that] by (simp add: ber_ok_def)
  ultimately show ?thesis
    unfolding readCMSBER_def
    by (intro fueled_rbind) (force simp: slice_at_def intro!: fueled_rbind)+
qed

lemma readAllBER_fueled: "length rest < k \<Longrightarrow> fueled (readAllBER k rest budget)"
proof (induction k arbitrary: rest budget)
  case (Suc k)
  have "length rest' < k" if "readCMSBER rest budget = Inr (c, rest', b)" for c rest' b
    using that Suc.prems by (elim readCMSBER_Inr) (auto simp: ber_ok_def)
  with Suc.IH show ?case
    by (auto intro!: fueled_if fueled_rbind readCMSBER_fueled)
qed simp

lemma cmsBERChildren_fueled: "fueled (cmsBERChildren data tag budget)"
  unfolding cmsBERChildren_def
  by (auto intro!: fueled_if fueled_rbind readCMSBER_fueled readAllBER_fueled)

lemma cmsEnvelopeFields_fueled: "fueled (cmsEnvelopeFields data)"
  unfolding cmsEnvelopeFields_def
  by (auto intro!: fueled_if fueled_rbind cmsBERChildren_fueled split: list.split)

text \<open>
  C39. Normalising an untrusted CMS envelope always returns: neither the recursion over
  nested containers, nor the loops over their children run out of the bounds the source
  relies on, and no slice expression is out of range.
\<close>

theorem cmsEnvelopeDER_terminates:
  "cmsEnvelopeDER data \<noteq> Inl OutOfFuel \<and> cmsEnvelopeDER data \<noteq> Inl Panic"
proof -
  have "fueled (cmsEnvelopeDER data)"
    unfolding cmsEnvelopeDER_def Let_def
    by (auto intro!: fueled_rbind cmsEnvelopeFields_fueled)
  then show ?thesis by (simp add: fueled_def safe_def)
qed

text \<open>
  A value the BER reader returns is a proper prefix of the input: its bytes and the
  returned rest are the input again, its content lies inside it, it is at least two bytes
  long, and it has used up at least one unit of the element budget.
\<close>

lemma readCMSBER_prefix:
  assumes "readCMSBER data budget = Inr (v, rest, budget')"
  shows "data = val_raw v @ rest \<and> 2 \<le> length (val_raw v) \<and>
    (\<exists>pre post. val_raw v = pre @ val_content v @ post \<and> 2 \<le> length pre) \<and>
    0 \<le> budget' \<and> budget' < budget"
proof -
  from readCMSBER_Inr [OF assms] obtain r where
    v: "v = \<lparr>val_tag = ber_tag r, val_raw = slice data 0 (ber_length r),
          val_content = slice data (ber_content r) (ber_contentSize r)\<rparr>"
    and rest: "rest = drop (ber_length r) data"
    and ok: "ber_ok 0 (length data) budget (r, budget')" .
  define n where "n = ber_length r - (ber_content r + ber_contentSize r)"
  have len: "ber_length r = ber_content r + ber_contentSize r + n"
    using ok by (simp add: ber_ok_def n_def)
  have "slice data 0 (ber_length r) = slice data 0 (ber_content r) @ val_content v @
      slice data (ber_content r + ber_contentSize r) n"
    unfolding len v slice_split by simp
  moreover have "2 \<le> length (slice data 0 (ber_content r))"
    using ok by (simp add: ber_ok_def)
  ultimately have "\<exists>pre post. val_raw v = pre @ val_content v @ post \<and> 2 \<le> length pre"
    by (auto simp: v)
  then show ?thesis
    using ok by (auto simp: v rest ber_ok_def slice_def)
qed

section \<open>Outcomes\<close>

text \<open>An error that is neither a panic nor a loop that stops advancing, or a value in \<open>Q\<close>.\<close>

definition outcome :: "('a \<Rightarrow> bool) \<Rightarrow> 'a result \<Rightarrow> bool" where
  "outcome Q r \<longleftrightarrow> (case r of Inl e \<Rightarrow> e \<noteq> Panic \<and> e \<noteq> OutOfFuel | Inr v \<Rightarrow> Q v)"

lemma outcome_Inr [simp]: "outcome Q (Inr v) = Q v"
  and outcome_Inl [simp]: "outcome Q (Inl (Malformed s))" "outcome Q (Inl (Unsupported s))"
  by (simp_all add: outcome_def OutOfFuel_def)

lemma outcome_Plain: "s \<noteq> ''out of fuel'' \<Longrightarrow> outcome Q (Inl (Plain s))"
  by (simp add: outcome_def OutOfFuel_def)

lemma outcome_rbind:
  "outcome P r \<Longrightarrow> (\<And>v. P v \<Longrightarrow> outcome Q (k v)) \<Longrightarrow> outcome Q (rbind r k)"
  by (cases r) (simp_all add: outcome_def)

lemma outcome_mono: "outcome P r \<Longrightarrow> (\<And>v. P v \<Longrightarrow> Q v) \<Longrightarrow> outcome Q r"
  by (cases r) (simp_all add: outcome_def)

section \<open>Round trip with the writer\<close>

lemma unat_of_nat_small: "n < 256 \<Longrightarrow> unat (of_nat n :: byte) = n"
  by (simp add: unat_of_nat_byte)

lemma derHeader_long:
  "128 \<le> n \<Longrightarrow> derHeader tag n = [tag, of_nat (128 + length (minBytes n))] @ minBytes n"
  by (simp add: derHeader_def Let_def)

lemma berLength_minBytes:
  assumes n: "128 \<le> n" "n < 2 ^ 32"
    and src: "src = pre @ [tag, of_nat (128 + length (minBytes n))] @ minBytes n @ post"
    and fin: "fin \<le> length src" "length pre + 2 + length (minBytes n) \<le> fin"
  shows "berLength src (length pre) fin [tag, b] (128 + length (minBytes n)) =
    Inr (n, length pre + 2 + length (minBytes n))"
proof -
  let ?m = "minBytes n"
  have len: "length ?m \<le> 4" "0 < length ?m"
    using length_minBytes [of n 4] n minBytes_nonempty [of n] by auto
  have s: "slice src (length pre + 2) (length ?m) = ?m"
    by (simp add: src slice_def)
  have "hd ?m \<noteq> 0" using n by (simp add: hd_minBytes)
  moreover have "?m ! 0 = hd ?m" using len(2) by (cases ?m) auto
  ultimately have "unat (?m ! 0) \<noteq> 0" by (simp add: unat_eq_0)
  with len n fin s show ?thesis
    by (simp add: berLength_def be_nat_minBytes nth_append)
qed

lemma readCMSBERRange_derWrap:
  assumes tag: "tag \<noteq> 0" "unat tag mod 32 \<noteq> 31" and c: "length c < 2 ^ 32"
    and src: "src = pre @ derWrap tag c @ post" and at: "at = length pre"
    and fin: "fin \<le> length src" "at + length (derWrap tag c) \<le> fin"
    and budget: "depth \<le> 32" "1 \<le> budget"
  shows "readCMSBERRange (Suc fuel) src at fin depth budget =
    Inr (\<lparr>ber_tag = tag, ber_offset = at, ber_length = length (derWrap tag c),
         ber_content = at + (length (derWrap tag c) - length c), ber_contentSize = length c\<rparr>, budget - 1)"
proof -
  have t: "unat tag \<noteq> 0" using tag(1) by (simp add: unat_eq_0)
  show ?thesis
  proof (cases "length c < 128")
    case True
    then have w: "derWrap tag c = [tag, of_nat (length c)] @ c"
      by (simp add: derWrap_def derHeader_def)
    then have h: "slice src at 2 = [tag, of_nat (length c)]" by (simp add: src at slice_def)
    show ?thesis
      using True t tag fin budget
      by (auto simp: h w berDefinite_def berLength_def unat_of_nat_small)
  next
    case False
    let ?m = "minBytes (length c)"
    have "0 < length c" using False by linarith
    then have m: "length ?m \<le> 4" "0 < length ?m"
      using length_minBytes [of "length c" 4] c minBytes_nonempty [of "length c"] by auto
    have w: "derWrap tag c = [tag, of_nat (128 + length ?m)] @ ?m @ c"
      using False by (simp add: derWrap_def derHeader_long)
    then have h: "slice src at 2 = [tag, of_nat (128 + length ?m)]" by (simp add: src at slice_def)
    have u: "unat (of_nat (128 + length ?m) :: byte) = 128 + length ?m"
      using m by (intro unat_of_nat_small) simp
    have "berLength src at fin [tag, of_nat (128 + length ?m)] (128 + length ?m) =
        Inr (length c, at + 2 + length ?m)"
      unfolding at using False c fin by (intro berLength_minBytes) (auto simp: src w at)
    then have "berDefinite src at fin [tag, of_nat (128 + length ?m)] =
        Inr \<lparr>ber_tag = tag, ber_offset = at, ber_length = length (derWrap tag c),
         ber_content = at + (length (derWrap tag c) - length c), ber_contentSize = length c\<rparr>"
      using fin u by (simp add: berDefinite_def w del: of_nat_add)
    then show ?thesis
      using t tag fin budget m u by (simp add: h w del: of_nat_add)
  qed
qed

text \<open>
  C40. What the DER writer emits, the BER reader reads back: the tag, the content and the
  bytes that follow it, for every tag it accepts and every length below 2 ^ 32, at the
  cost of one element.
\<close>

theorem readCMSBER_derWrap:
  assumes "tag \<noteq> 0" "unat tag mod 32 \<noteq> 31" "length c < 2 ^ 32" "1 \<le> budget"
  shows "readCMSBER (derWrap tag c @ rest) budget =
    Inr (\<lparr>val_tag = tag, val_raw = derWrap tag c, val_content = c\<rparr>, rest, budget - 1)"
proof -
  have "readCMSBERRange (Suc 33) (derWrap tag c @ rest) 0 (length (derWrap tag c @ rest)) 0 budget =
    Inr (\<lparr>ber_tag = tag, ber_offset = 0, ber_length = length (derWrap tag c),
         ber_content = 0 + (length (derWrap tag c) - length c), ber_contentSize = length c\<rparr>, budget - 1)"
    using assms by (intro readCMSBERRange_derWrap [of _ _ _ "[]"]) auto
  moreover have "slice (derWrap tag c @ rest) (length (derWrap tag c) - length c) (length c) = c"
    by (simp add: derWrap_def slice_def)
  moreover have "length c \<le> length (derWrap tag c)"
    by (simp add: derWrap_def)
  ultimately show ?thesis
    by (simp add: readCMSBER_def berFuel_def slice_def del: readCMSBERRange.simps)
qed

theorem readCMSBER_derWrap_witness:
  "readCMSBER (derWrap 4 [7, 8] @ [5, 0]) 3 =
    Inr (\<lparr>val_tag = 4, val_raw = derWrap 4 [7, 8], val_content = [7, 8]\<rparr>, [5, 0], 2)"
  using readCMSBER_derWrap [of 4 "[7, 8]" 3 "[5, 0]"] by simp

end
