(* ===== verification/Byte_Transfer.thy ===== *)
theory Byte_Transfer
  imports Blob_Format DER_Codec
begin

text \<open>
  transfer.go and the transport half of source.go: random-access sources, the bounded copy
  loop every output and digest goes through, and the checked range reads of a held file.

  Two interfaces carry the proofs. \<open>content_reader\<close> is io.ReaderAt over fixed bytes, with
  the freedom the Go contract leaves (end-of-file may accompany a full read).
  \<open>sink\<close> is an io.WriterAt fed contiguously: what it has absorbed after each wr.
  Offsets and sizes are int64 values, here integers with the range checks written out;
  polls of the context's cancellation are not modelled.
\<close>

section \<open>Sources\<close>

text \<open>ReadAt: the bytes delivered for an offset and a requested length, and the error.\<close>

type_synonym reader_at = "int \<Rightarrow> nat \<Rightarrow> byte list \<times> error option"

definition MaxInt64 :: int where
  "MaxInt64 = 2 ^ 63 - 1"

definition transferBufferSize :: nat where
  "transferBufferSize = 2 ^ 16"

definition maxFileSize :: nat where
  "maxFileSize = 2 ^ 30"

record outputSource =
  reader :: "reader_at option"
  offset :: int
  srcSize :: int

text \<open>errors.Join of two results, the second possibly nil.\<close>

definition errJoin :: "error \<Rightarrow> error option \<Rightarrow> error" where
  "errJoin e f = Joined (e # (case f of None \<Rightarrow> [] | Some g \<Rightarrow> [g]))"

lemma errJoin_not_Panic [simp]: "errJoin e f \<noteq> Panic" "errJoin e f \<noteq> OutOfFuel"
  by (simp_all add: errJoin_def OutOfFuel_def)

text \<open>bytes.Reader.ReadAt and rangeBuffer.ReadAt: they differ only outside the bytes.\<close>

definition bytesReadAt :: "byte list \<Rightarrow> reader_at" where
  "bytesReadAt data off want =
    (if off < 0 then ([], Some (Plain ''negative offset''))
     else if off \<ge> int (length data) then ([], Some IoEOF)
     else let got = slice data (nat off) want in
       (got, if length got < want then Some IoEOF else None))"

definition rangeBufferReadAt :: "byte list \<Rightarrow> reader_at" where
  "rangeBufferReadAt b off want =
    (if off < 0 \<or> off > int (length b) then ([], Some IoEOF)
     else let got = slice b (nat off) want in
       (got, if length got \<noteq> want then Some IoEOF else None))"

definition byteOutput :: "byte list \<Rightarrow> outputSource" where
  "byteOutput data = \<lparr>reader = Some (bytesReadAt data), offset = 0, srcSize = int (length data)\<rparr>"

text \<open>zeroSource of output_plan.go.\<close>

definition zeroReadAt :: reader_at where
  "zeroReadAt off want = (replicate want 0, None)"

text \<open>The source ranges the transfer refuses; the subtraction is guarded by the size test.\<close>

definition badRange :: "outputSource \<Rightarrow> bool" where
  "badRange src \<longleftrightarrow> offset src < 0 \<or> srcSize src < 0 \<or> offset src > MaxInt64 - srcSize src"

section \<open>The copy loop\<close>

text \<open>WriteAt on a target with state \<open>'s\<close>: data and offset, giving count and error.\<close>

type_synonym 's writer_at = "'s \<Rightarrow> byte list \<Rightarrow> int \<Rightarrow> 's \<times> nat \<times> error option"

text \<open>
  transferOutputBuffer. \<open>buf\<close> is the length of the reservation; with an empty one the Go
  loop does not advance, which is the value \<open>OutOfFuel\<close> here, and callers reserve at least
  one byte. A missing reader is the nil dereference.
\<close>

function transferOutputBuffer ::
  "'s writer_at \<Rightarrow> 's \<Rightarrow> outputSource \<Rightarrow> nat \<Rightarrow> nat \<Rightarrow> 's \<times> error option" where
  "transferOutputBuffer wr s src buf off =
    (if int off \<ge> srcSize src then (s, None) else
     if buf = 0 then (s, Some OutOfFuel) else
     case reader src of None \<Rightarrow> (s, Some Panic) | Some r \<Rightarrow>
     let want = min buf (nat (srcSize src - int off)); (got, readErr) = r (offset src + int off) want in
     if length got > want then (s, Some (errJoin IoUnexpectedEOF readErr)) else
     let (s', written, writeErr) = (if got = [] then (s, 0, None) else wr s got (int off));
         writeErr' = (if written \<noteq> length got then Some (errJoin IoShortWrite writeErr) else writeErr) in
     if got \<noteq> [] \<and> writeErr' \<noteq> None then (s', Some (errJoin (the writeErr') readErr)) else
     if length got \<noteq> want then (s', Some (errJoin IoUnexpectedEOF readErr)) else
     if readErr \<noteq> None \<and> readErr \<noteq> Some IoEOF then (s', Some (errJoin (the readErr) None)) else
     transferOutputBuffer wr s' src buf (off + want))"
  by pat_completeness auto
termination
  by (relation "measure (\<lambda>(_, _, src, _, off). nat (srcSize src - int off))") auto

declare transferOutputBuffer.simps [simp del]

text \<open>transferBuffer's reservation: at most 64 KiB.\<close>

definition transferBuffer :: "int \<Rightarrow> nat" where
  "transferBuffer sz = nat (min sz (int transferBufferSize))"

definition transferOutput :: "'s writer_at \<Rightarrow> 's \<Rightarrow> outputSource \<Rightarrow> 's \<times> error option" where
  "transferOutput wr s src =
    (if badRange src then (s, Some (Malformed ''output source range'')) else
     if srcSize src = 0 then (s, None) else
     transferOutputBuffer wr s src (transferBuffer (srcSize src)) 0)"

section \<open>The reader interface\<close>

locale content_reader =
  fixes r :: reader_at and content :: "byte list"
  assumes read_at: "off + want \<le> length content \<Longrightarrow> 0 < want \<Longrightarrow>
    fst (r (int off) want) = slice content off want \<and> snd (r (int off) want) \<in> {None, Some IoEOF}"

interpretation bytes: content_reader "bytesReadAt data" data for data :: "byte list"
  by unfold_locales (auto simp: bytesReadAt_def Let_def)

interpretation range_buffer: content_reader "rangeBufferReadAt b" b for b :: "byte list"
  by unfold_locales (auto simp: rangeBufferReadAt_def Let_def)

interpretation zeros: content_reader zeroReadAt "replicate n 0" for n :: nat
  by unfold_locales (auto simp: zeroReadAt_def slice_def min_def)

text \<open>
  What a source delivers: the range of its reader's content that its offset and size name.
\<close>

definition delivers :: "outputSource \<Rightarrow> byte list \<Rightarrow> bool" where
  "delivers src bytes \<longleftrightarrow> (\<exists>r content. reader src = Some r \<and> content_reader r content \<and>
     0 \<le> offset src \<and> srcSize src = int (length bytes) \<and> offset src + srcSize src \<le> MaxInt64 \<and>
     nat (offset src) + length bytes \<le> length content \<and>
     bytes = slice content (nat (offset src)) (length bytes))"

lemma delivers_range: "delivers src bytes \<Longrightarrow> \<not> badRange src \<and> srcSize src = int (length bytes)"
  by (auto simp: delivers_def badRange_def)

lemma delivers_read:
  assumes "delivers src bytes" "off + want \<le> length bytes" "0 < want"
  obtains r e where "reader src = Some r" "r (offset src + int off) want = (slice bytes off want, e)"
    "e \<in> {None, Some IoEOF}"
proof -
  from assms(1) obtain r content where r: "reader src = Some r" "content_reader r content" "0 \<le> offset src"
      "nat (offset src) + length bytes \<le> length content"
      "bytes = slice content (nat (offset src)) (length bytes)"
    unfolding delivers_def by blast
  have "offset src + int off = int (nat (offset src) + off)" using r(3) by simp
  moreover have "slice content (nat (offset src) + off) want = slice bytes off want"
    using assms(2) r(5) by (metis slice_slice)
  ultimately have "fst (r (offset src + int off) want) = slice bytes off want"
      "snd (r (offset src + int off) want) \<in> {None, Some IoEOF}"
    using content_reader.read_at [OF r(2), of "nat (offset src) + off" want] assms r(4) by auto
  with r(1) show thesis by (metis prod.collapse that)
qed

lemma byteOutput_delivers: "int (length data) \<le> MaxInt64 \<Longrightarrow> delivers (byteOutput data) data"
  using bytes.content_reader_axioms [of data] by (auto simp: delivers_def byteOutput_def intro!: exI [of _ data])

section \<open>The writer interface\<close>

text \<open>
  \<open>absorbed s xs\<close>: the target has taken the bytes \<open>xs\<close>, written contiguously from \<open>base\<close>.
  It accepts any further chunk up to \<open>limit\<close> bytes in all. The copy loop writes from 0.
\<close>

locale sink =
  fixes wr :: "'s writer_at" and absorbed :: "'s \<Rightarrow> byte list \<Rightarrow> bool" and limit :: nat and base :: int
  assumes write_ok: "absorbed s xs \<Longrightarrow> p \<noteq> [] \<Longrightarrow> length xs + length p \<le> limit \<Longrightarrow>
    \<exists>s'. wr s p (base + int (length xs)) = (s', length p, None) \<and> absorbed s' (xs @ p)"

locale stream_sink = sink wr absorbed limit 0
  for wr :: "'s writer_at" and absorbed :: "'s \<Rightarrow> byte list \<Rightarrow> bool" and limit :: nat
begin

lemma transferOutputBuffer_copies:
  assumes src: "delivers src bytes" and buf: "0 < buf" and limit: "length bytes \<le> limit"
  shows "off \<le> length bytes \<Longrightarrow> absorbed s (take off bytes) \<Longrightarrow>
    \<exists>s'. transferOutputBuffer wr s src buf off = (s', None) \<and> absorbed s' bytes"
proof (induction "length bytes - off" arbitrary: off s rule: less_induct)
  case less
  have size: "srcSize src = int (length bytes)" using delivers_range [OF src] by blast
  show ?case
  proof (cases "off = length bytes")
    case True
    with less.prems size show ?thesis by (simp add: transferOutputBuffer.simps)
  next
    case False
    define want where "want = min buf (length bytes - off)"
    have want: "0 < want" "off + want \<le> length bytes"
      using False less.prems buf by (auto simp: want_def)
    let ?got = "slice bytes off want"
    obtain r e where r: "reader src = Some r" "r (offset src + int off) want = (?got, e)"
        "e \<in> {None, Some IoEOF}"
      using delivers_read [OF src want(2,1)] .
    have got: "length ?got = want" "?got \<noteq> []" using want by (auto simp flip: length_greater_0_conv)
    obtain s' where s': "wr s ?got (int off) = (s', want, None)" "absorbed s' (take off bytes @ ?got)"
      using write_ok [OF less.prems(2), of ?got] less.prems(1) got want limit by auto
    have "take off bytes @ ?got = take (off + want) bytes"
      by (simp add: slice_def take_add)
    moreover have "length bytes - (off + want) < length bytes - off" using want by linarith
    ultimately obtain s'' where
        "transferOutputBuffer wr s' src buf (off + want) = (s'', None)" "absorbed s'' bytes"
      using less.hyps [of "off + want" s'] s'(2) want by auto
    moreover have "transferOutputBuffer wr s src buf off = transferOutputBuffer wr s' src buf (off + want)"
    proof -
      have w: "min buf (nat (srcSize src - int off)) = want"
        using less.prems(1) by (simp add: want_def size nat_diff_distrib)
      have "\<not> int off \<ge> srcSize src" using False less.prems(1) size by simp
      then show ?thesis
        using r s' got buf by (subst transferOutputBuffer.simps) (auto simp: w Let_def)
    qed
    ultimately show ?thesis by auto
  qed
qed

lemma transferOutput_copies:
  assumes "delivers src bytes" "length bytes \<le> limit" "absorbed s []"
  shows "\<exists>s'. transferOutput wr s src = (s', None) \<and> absorbed s' bytes"
proof (cases "bytes = []")
  case True
  with assms delivers_range [OF assms(1)] show ?thesis by (simp add: transferOutput_def)
next
  case False
  then have "0 < transferBuffer (srcSize src)"
    using delivers_range [OF assms(1)] by (simp add: transferBuffer_def transferBufferSize_def)
  with transferOutputBuffer_copies [OF assms(1) this assms(2), of 0 s] assms delivers_range [OF assms(1)] False
  show ?thesis by (simp add: transferOutput_def)
qed

end

text \<open>rangeBuffer.WriteAt: copy into the buffer; the slice expression checks the offset.\<close>

definition rangeBufferWriteAt :: "byte list writer_at" where
  "rangeBufferWriteAt b p off =
    (if off < 0 \<or> off > int (length b) then (b, 0, Some Panic)
     else let n = min (length p) (length b - nat off) in
       (take (nat off) b @ take n p @ drop (nat off + n) b, n, None))"

interpretation buffer: stream_sink rangeBufferWriteAt
  "\<lambda>b xs. length b = n \<and> take (length xs) b = xs" n for n :: nat
  by unfold_locales (auto simp: rangeBufferWriteAt_def Let_def min_def)

text \<open>The same buffer written from an offset; what precedes the offset is kept.\<close>

interpretation buffer_at: sink rangeBufferWriteAt
  "\<lambda>b xs. length b = off + n \<and> take off b = pre \<and> slice b off (length xs) = xs" n "int off"
  for off n :: nat and pre :: "byte list"
proof unfold_locales
  fix b xs p :: "byte list"
  assume a: "length b = off + n \<and> take off b = pre \<and> slice b off (length xs) = xs"
    "p \<noteq> []" "length xs + length p \<le> n"
  let ?b = "take (off + length xs) b @ p @ drop (off + length xs + length p) b"
  have "nat (int off + int (length xs)) = off + length xs" by (simp add: nat_int_add)
  then have "rangeBufferWriteAt b p (int off + int (length xs)) = (?b, length p, None)"
    using a by (auto simp: rangeBufferWriteAt_def Let_def min_def)
  moreover have "slice ?b off (length (xs @ p)) = xs @ p"
    using a by (simp add: slice_def drop_take)
  moreover have "take off ?b = pre" using a by (auto simp: min_def)
  moreover have "length ?b = off + n" using a by simp
  ultimately show "\<exists>s'. rangeBufferWriteAt b p (int off + int (length xs)) = (s', length p, None) \<and>
      length s' = off + n \<and> take off s' = pre \<and> slice s' off (length (xs @ p)) = xs @ p"
    by blast
qed

text \<open>A running hash.Hash is the bytes written to it since its last reset.\<close>

definition hashWriteAt :: "byte list writer_at" where
  "hashWriteAt h p off = (h @ p, length p, None)"

interpretation hashing: stream_sink hashWriteAt "\<lambda>h xs. h = xs" n for n :: nat
  by unfold_locales (simp add: hashWriteAt_def)

section \<open>Reads of a held file\<close>

text \<open>codeSource.read, zero and digest. The buffer starts as zeros.\<close>

definition codeRead :: "outputSource \<Rightarrow> range_reader" where
  "codeRead src off len =
    (if \<not> rangeOK off len (nat (srcSize src)) then Inl (Malformed ''source range'') else
     if len > maxFileSize then Inl (Unsupported ''metadata exceeds memory limit'') else
     case transferOutput rangeBufferWriteAt (replicate len 0)
            \<lparr>reader = reader src, offset = offset src + int off, srcSize = int len\<rparr> of
       (data, None) \<Rightarrow> Inr data
     | (_, Some e) \<Rightarrow> Inl e)"

function codeZero :: "outputSource \<Rightarrow> nat \<Rightarrow> nat \<Rightarrow> bool result" where
  "codeZero src off len =
    (if len = 0 then Inr True else
     let n = min len transferBufferSize in
     rbind (codeRead src off n) (\<lambda>data.
     if \<exists>b \<in> set data. b \<noteq> 0 then Inr False else codeZero src (off + n) (len - n)))"
  by pat_completeness auto
termination
  by (relation "measure (\<lambda>(_, _, len). len)") (auto simp: transferBufferSize_def)

declare codeZero.simps [simp del]

text \<open>(s codeSource) zero, with its range check.\<close>

definition zeroRange :: "outputSource \<Rightarrow> nat \<Rightarrow> nat \<Rightarrow> bool result" where
  "zeroRange src off len =
    (if \<not> rangeOK off len (nat (srcSize src)) then Inl (Malformed ''padding source range'')
     else codeZero src off len)"

text \<open>digestSource: the algorithm's stream over a transfer; kind 3 is truncated.\<close>

definition digestSource :: "hash_lib \<Rightarrow> nat \<Rightarrow> outputSource \<Rightarrow> byte list result" where
  "digestSource H kind src =
    (if kind \<notin> {1, 2, 3, 4} then Inl (Unsupported ''hash type'') else
     case transferOutput hashWriteAt [] src of
       (_, Some e) \<Rightarrow> Inl e
     | (h, None) \<Rightarrow>
       Inr (if kind = 1 then sha1 H h else if kind = 2 then sha256 H h
            else if kind = 3 then take 20 (sha256 H h) else sha384 H h))"

definition digestContext :: "hash_lib \<Rightarrow> nat \<Rightarrow> byte list \<Rightarrow> byte list result" where
  "digestContext H kind data =
    (if length data > transferBufferSize then digestSource H kind (byteOutput data) else digest H kind data)"

definition sourceDigest :: "hash_lib \<Rightarrow> outputSource \<Rightarrow> nat \<Rightarrow> nat \<Rightarrow> nat \<Rightarrow> byte list result" where
  "sourceDigest H src kind off len =
    (if \<not> rangeOK off len (nat (srcSize src)) then Inl (Malformed ''hash source range'') else
     digestSource H kind \<lparr>reader = reader src, offset = offset src + int off, srcSize = int len\<rparr>)"

lemma delivers_sub:
  assumes "delivers src bytes" "off + len \<le> length bytes"
  shows "delivers \<lparr>reader = reader src, offset = offset src + int off, srcSize = int len\<rparr> (slice bytes off len)"
proof -
  from assms(1) obtain r content where r: "reader src = Some r" "content_reader r content" "0 \<le> offset src"
      "nat (offset src) + length bytes \<le> length content" "srcSize src = int (length bytes)"
      "bytes = slice content (nat (offset src)) (length bytes)" "offset src + srcSize src \<le> MaxInt64"
    unfolding delivers_def by blast
  have "slice bytes off len = slice content (nat (offset src) + off) len"
    using assms(2) r(6) by (metis slice_slice)
  moreover have "nat (offset src + int off) = nat (offset src) + off" using r(3) by simp
  ultimately show ?thesis
    using r assms(2) unfolding delivers_def by (auto intro!: exI [of _ r] exI [of _ content])
qed

lemma codeRead_content:
  assumes "delivers src bytes" "off + len \<le> length bytes" "len \<le> maxFileSize"
  shows "codeRead src off len = Inr (slice bytes off len)"
proof -
  let ?b = "slice bytes off len"
  have len: "length ?b = len" using assms(2) by simp
  obtain b where b: "transferOutput rangeBufferWriteAt (replicate len 0)
      \<lparr>reader = reader src, offset = offset src + int off, srcSize = int len\<rparr> = (b, None)"
      "length b = len" "take (length ?b) b = ?b"
    using buffer.transferOutput_copies [OF delivers_sub [OF assms(1,2)], of len "replicate len 0"] len by auto
  then have "b = ?b" using len by simp
  with b assms delivers_range [OF assms(1)] show ?thesis
    by (simp add: codeRead_def rangeOK_iff)
qed

text \<open>
  A held file of at most the metadata limit is a \<open>range_source\<close>; without that limit,
  and whatever the file does, its reads never panic.
\<close>

lemma codeRead_source:
  "delivers src bytes \<Longrightarrow> length bytes \<le> maxFileSize \<Longrightarrow> range_source (codeRead src) bytes"
  by (rule range_source.intro) (simp add: codeRead_content)

lemma codeZero_iff:
  "delivers src bytes \<Longrightarrow> off + len \<le> length bytes \<Longrightarrow>
   codeZero src off len = Inr (set (slice bytes off len) \<subseteq> {0})"
proof (induction len arbitrary: off rule: less_induct)
  case (less len)
  show ?case
  proof (cases "len = 0")
    case False
    define n where "n = min len transferBufferSize"
    have n: "0 < n" "n \<le> len" "n \<le> maxFileSize"
      using False by (auto simp: n_def transferBufferSize_def maxFileSize_def)
    have "codeRead src off n = Inr (slice bytes off n)"
      using less.prems n by (intro codeRead_content) auto
    moreover have "codeZero src (off + n) (len - n) = Inr (set (slice bytes (off + n) (len - n)) \<subseteq> {0})"
      using less n by auto
    moreover have "slice bytes off len = slice bytes off n @ slice bytes (off + n) (len - n)"
      using slice_split [of bytes off n "len - n"] n by simp
    ultimately show ?thesis
      using False by (subst codeZero.simps) (auto simp: Let_def n_def [symmetric])
  qed (simp add: codeZero.simps)
qed

lemma digestSource_content:
  "delivers src bytes \<Longrightarrow> digestSource H kind src = digest H kind bytes"
  using hashing.transferOutput_copies [of src bytes "length bytes" "[]"]
  by (auto simp: digestSource_def digest_def)

end
