(* ===== verification/Output_Plan.thy ===== *)
theory Output_Plan
  imports Byte_Transfer
begin

text \<open>
  output_plan.go: a plan is a list of contiguous spans over borrowed sources, read back as
  one random-access source; patchedOutput replaces ranges of a base and extends it with
  zeros. The abstraction of a plan is the concatenation of what its spans deliver.
\<close>

section \<open>Plans\<close>

record outputSpan =
  start :: int
  source :: outputSource

record outputPlan =
  planSpans :: "outputSpan list"
  planSize :: int

definition emptyPlan :: outputPlan where
  "emptyPlan = \<lparr>planSpans = [], planSize = 0\<rparr>"

definition append_plan :: "outputPlan \<Rightarrow> outputSource \<Rightarrow> outputPlan result" where
  "append_plan p src =
    (if offset src < 0 \<or> srcSize src < 0 \<or> offset src > MaxInt64 - srcSize src \<or>
        planSize p > MaxInt64 - srcSize src \<or> srcSize src > 0 \<and> reader src = None
     then Inl (Malformed ''output plan range'') else
     if srcSize src \<noteq> 0
     then Inr \<lparr>planSpans = planSpans p @ [\<lparr>start = planSize p, source = src\<rparr>], planSize = planSize p + srcSize src\<rparr>
     else Inr p)"

text \<open>
  The loop of ReadAt from the first span that ends after \<open>at\<close>; \<open>rem\<close> is what is still
  missing and \<open>acc\<close> what was delivered.
\<close>

fun planLoop :: "outputSpan list \<Rightarrow> int \<Rightarrow> nat \<Rightarrow> byte list \<Rightarrow> byte list \<times> error option" where
  "planLoop [] at rem acc = (acc, if rem \<noteq> 0 then Some IoEOF else None)"
| "planLoop (span # rest) at rem acc =
    (if rem = 0 then (acc, None) else
     case reader (source span) of None \<Rightarrow> (acc, Some Panic) | Some r \<Rightarrow>
     let delta = at - start span; want = min rem (nat (srcSize (source span) - delta));
         (got, e) = r (offset (source span) + delta) want in
     if length got > want then (acc, Some (errJoin IoUnexpectedEOF e)) else
     if length got \<noteq> want then (acc @ got, Some (errJoin IoUnexpectedEOF e)) else
     if e \<noteq> None \<and> e \<noteq> Some IoEOF then (acc @ got, e) else
     planLoop rest (at + int want) (rem - want) (acc @ got))"

text \<open>sort.Search on the monotone predicate: the spans before the first that qualifies are dropped.\<close>

definition planReadAt :: "outputPlan \<Rightarrow> reader_at" where
  "planReadAt p at want =
    (if at < 0 then ([], Some (Malformed ''negative output offset'')) else
     if want = 0 then ([], None) else
     if at \<ge> planSize p then ([], Some IoEOF) else
     planLoop (dropWhile (\<lambda>s. start s + srcSize (source s) \<le> at) (planSpans p)) at want [])"

definition planOutput :: "outputPlan \<Rightarrow> outputSource" where
  "planOutput p = \<lparr>reader = Some (planReadAt p), offset = 0, srcSize = planSize p\<rparr>"

section \<open>Patches\<close>

text \<open>appendBase: the untouched part of the base up to \<open>fin\<close>, then zeros.\<close>

definition appendBase :: "outputSource \<Rightarrow> outputPlan \<Rightarrow> int \<Rightarrow> outputPlan result" where
  "appendBase base p fin =
    rbind (if planSize p < min fin (srcSize base)
           then append_plan p \<lparr>reader = reader base, offset = offset base + planSize p,
                               srcSize = min fin (srcSize base) - planSize p\<rparr>
           else Inr p) (\<lambda>p.
    append_plan p \<lparr>reader = Some zeroReadAt, offset = 0, srcSize = fin - planSize p\<rparr>)"

fun applyPatches :: "outputSource \<Rightarrow> int \<Rightarrow> outputSpan list \<Rightarrow> outputPlan \<Rightarrow> outputPlan result" where
  "applyPatches base sz [] p = Inr p"
| "applyPatches base sz (patch # patches) p =
    (if start patch < planSize p \<or> start patch > sz \<or> srcSize (source patch) < 0 \<or>
        srcSize (source patch) > sz - start patch
     then Inl (Malformed ''overlapping or out-of-bounds output patch'') else
     rbind (appendBase base p (start patch)) (\<lambda>p.
     rbind (append_plan p (source patch)) (\<lambda>p. applyPatches base sz patches p)))"

definition patchedOutput :: "outputSource \<Rightarrow> int \<Rightarrow> outputSpan list \<Rightarrow> outputSource result" where
  "patchedOutput base sz patches =
    (if sz < 0 \<or> srcSize base < 0 \<or> offset base < 0 \<or> offset base > MaxInt64 - srcSize base
     then Inl (Malformed ''patched output range'') else
     rbind (applyPatches base sz patches emptyPlan) (\<lambda>p.
     rbind (appendBase base p sz) (\<lambda>p. Inr (planOutput p))))"

definition materializeOutput :: "outputSource \<Rightarrow> byte list result" where
  "materializeOutput src =
    (if srcSize src > int maxFileSize then Inl (Unsupported ''output exceeds memory limit'') else
     if srcSize src < 0 then Inl (Malformed ''negative output size'') else
     case transferOutput rangeBufferWriteAt (replicate (nat (srcSize src)) 0) src of
       (b, None) \<Rightarrow> Inr b | (_, Some e) \<Rightarrow> Inl e)"

section \<open>A plan delivers the concatenation of its spans\<close>

text \<open>\<open>spans_at p sps css\<close>: contiguous from \<open>p\<close>, span \<open>i\<close> delivering the nonempty \<open>css ! i\<close>.\<close>

fun spans_at :: "int \<Rightarrow> outputSpan list \<Rightarrow> byte list list \<Rightarrow> bool" where
  "spans_at p [] [] = True"
| "spans_at p (s # ss) (c # cs) =
    (start s = p \<and> c \<noteq> [] \<and> delivers (source s) c \<and> spans_at (p + int (length c)) ss cs)"
| "spans_at _ _ _ = False"

definition plan_content :: "outputPlan \<Rightarrow> byte list \<Rightarrow> bool" where
  "plan_content p content \<longleftrightarrow>
     (\<exists>cs. spans_at 0 (planSpans p) cs \<and> content = concat cs \<and> planSize p = int (length content)) \<and>
     planSize p \<le> MaxInt64"

lemma spans_at_snoc:
  "spans_at p ss cs \<Longrightarrow> q = p + int (length (concat cs)) \<Longrightarrow> c \<noteq> [] \<Longrightarrow> delivers src c \<Longrightarrow>
   spans_at p (ss @ [\<lparr>start = q, source = src\<rparr>]) (cs @ [c])"
  by (induction p ss cs rule: spans_at.induct) auto

lemma emptyPlan_content: "plan_content emptyPlan []"
  by (auto simp: plan_content_def emptyPlan_def MaxInt64_def intro!: exI [of _ "[]"])

lemma append_plan_content:
  assumes "plan_content p xs" "srcSize src = int (length c)" "c \<noteq> [] \<Longrightarrow> delivers src c"
    and "append_plan p src = Inr p'"
  shows "plan_content p' (xs @ c)"
proof (cases "c = []")
  case True
  with assms show ?thesis by (simp add: append_plan_def split: if_split_asm)
next
  case False
  from assms(1) obtain cs where cs: "spans_at 0 (planSpans p) cs" "xs = concat cs" "planSize p = int (length xs)"
    by (auto simp: plan_content_def)
  from assms(4) False assms(2) have p': "p' = \<lparr>planSpans = planSpans p @ [\<lparr>start = planSize p, source = src\<rparr>],
      planSize = planSize p + srcSize src\<rparr>" "planSize p \<le> MaxInt64 - srcSize src"
    by (auto simp: append_plan_def split: if_split_asm)
  have "spans_at 0 (planSpans p') (cs @ [c])"
    using spans_at_snoc [OF cs(1), of "planSize p" c src] False assms(3) cs p' by simp
  with p' assms(2) cs show ?thesis
    unfolding plan_content_def by (auto intro!: exI [of _ "cs @ [c]"])
qed

lemma append_plan_ok:
  assumes "plan_content p xs" "delivers src c" "int (length xs) + int (length c) \<le> MaxInt64"
  shows "\<exists>p'. append_plan p src = Inr p'"
  using assms by (auto simp: append_plan_def plan_content_def delivers_def)

lemma planLoop_content:
  "spans_at p sps cs \<Longrightarrow> p \<le> at \<Longrightarrow> (sps = [] \<or> at < p + int (length (hd cs))) \<Longrightarrow>
   nat (at - p) + rem \<le> length (concat cs) \<Longrightarrow>
   planLoop sps at rem acc = (acc @ slice (concat cs) (nat (at - p)) rem, None)"
proof (induction p sps cs arbitrary: at rem acc rule: spans_at.induct)
  case (2 p s ss c cs)
  show ?case
  proof (cases "rem = 0")
    case False
    define off where "off = nat (at - p)"
    define want where "want = min rem (length c - off)"
    have off: "at = p + int off" "off < length c"
      using "2.prems" by (auto simp: off_def)
    have want: "0 < want" "off + want \<le> length c" "want \<le> rem"
      using False off by (auto simp: want_def)
    from "2.prems"(1) have src: "delivers (source s) c" and s: "start s = p"
        and rest: "spans_at (p + int (length c)) ss cs"
      by auto
    obtain r e where r: "reader (source s) = Some r" "r (offset (source s) + int off) want = (slice c off want, e)"
        "e \<in> {None, Some IoEOF}"
      using delivers_read [OF src want(2,1)] .
    have w: "min rem (nat (srcSize (source s) - int off)) = want"
      using delivers_range [OF src] off by (simp add: want_def nat_diff_distrib)
    have d: "at - start s = int off" using off s by simp
    have len: "length (slice c off want) = want" using want by simp
    have step: "planLoop (s # ss) at rem acc = planLoop ss (at + int want) (rem - want) (acc @ slice c off want)"
      using False r len unfolding planLoop.simps d Let_def w by auto
    have tail: "slice (concat (c # cs)) off rem = slice c off want @ slice (concat cs) 0 (rem - want)"
    proof (cases "rem \<le> length c - off")
      case True
      then have "want = rem" by (simp add: want_def)
      with want show ?thesis by (simp add: slice_append1)
    next
      case False
      then have w': "want = length c - off" "off + want = length c" using off by (auto simp: want_def)
      have "slice (concat (c # cs)) off rem = slice (concat (c # cs)) off want @ slice (concat (c # cs)) (off + want) (rem - want)"
        using slice_split [of "concat (c # cs)" off want "rem - want"] want by simp
      with w' want show ?thesis by (simp add: slice_append1 slice_append2)
    qed
    show ?thesis
    proof (cases "rem - want = 0")
      case True
      then have "planLoop ss (at + int want) (rem - want) (acc @ slice c off want) = (acc @ slice c off want, None)"
        by (cases ss) auto
      with step tail True show ?thesis by (simp add: off_def)
    next
      case left: False
      then have eq: "at + int want = p + int (length c)" using off want by (auto simp: want_def min_def split: if_split_asm)
      have ne: "ss = [] \<or> p + int (length c) < p + int (length c) + int (length (hd cs))"
        using rest by (cases ss; cases cs) auto
      have fit: "rem - want \<le> length (concat cs)"
        using "2.prems"(4) left off want by (auto simp: off_def [symmetric] want_def min_def split: if_split_asm)
      from "2.IH" [OF _ _ ne, of "rem - want" "acc @ slice c off want"] rest fit
      have "planLoop ss (at + int want) (rem - want) (acc @ slice c off want) =
          (acc @ slice c off want @ slice (concat cs) 0 (rem - want), None)"
        by (simp add: eq)
      with step tail show ?thesis by (simp add: off_def)
    qed
  qed simp
qed simp_all

lemma planLoop_drop:
  "spans_at p sps cs \<Longrightarrow> p \<le> at \<Longrightarrow> nat (at - p) + rem \<le> length (concat cs) \<Longrightarrow> 0 < rem \<Longrightarrow>
   planLoop (dropWhile (\<lambda>s. start s + srcSize (source s) \<le> at) sps) at rem [] =
     (slice (concat cs) (nat (at - p)) rem, None)"
proof (induction p sps cs arbitrary: at rem rule: spans_at.induct)
  case (2 p s ss c cs)
  have size: "srcSize (source s) = int (length c)" "start s = p"
    using "2.prems"(1) delivers_range by auto
  show ?case
  proof (cases "p + int (length c) \<le> at")
    case True
    define off where "off = nat (at - (p + int (length c)))"
    have off: "nat (at - p) = length c + off" using True by (simp add: off_def)
    from "2.IH" [of at rem] "2.prems" True show ?thesis
      by (simp add: size slice_append2 off off_def [symmetric])
  next
    case False
    with planLoop_content [OF "2.prems"(1,2), of rem "[]"] "2.prems"(3) show ?thesis
      by (simp add: size)
  qed
qed simp_all

lemma plan_reader:
  assumes "plan_content p content" shows "content_reader (planReadAt p) content"
proof (rule content_reader.intro)
  fix off want :: nat
  assume a: "off + want \<le> length content" "0 < want"
  from assms obtain cs where "spans_at 0 (planSpans p) cs" "content = concat cs" "planSize p = int (length content)"
    by (auto simp: plan_content_def)
  with planLoop_drop [of 0 "planSpans p" cs "int off" want] a
  show "fst (planReadAt p (int off) want) = slice content off want \<and>
      snd (planReadAt p (int off) want) \<in> {None, Some IoEOF}"
    by (simp add: planReadAt_def)
qed

lemma plan_delivers:
  assumes "plan_content p content" shows "delivers (planOutput p) content"
  using assms plan_reader [OF assms]
  by (auto simp: delivers_def planOutput_def plan_content_def intro!: exI [of _ content])

section \<open>What a patched output is\<close>

text \<open>
  Byte \<open>i\<close> of the result: the patch that covers it, else the base, else zero. Patches
  are given as start and delivered bytes, in order and disjoint from \<open>pos\<close> up to \<open>sz\<close>.
\<close>

definition baseByte :: "byte list \<Rightarrow> nat \<Rightarrow> byte" where
  "baseByte xs i = (if i < length xs then xs ! i else 0)"

fun patchByte :: "byte list \<Rightarrow> (nat \<times> byte list) list \<Rightarrow> nat \<Rightarrow> byte" where
  "patchByte xs [] i = baseByte xs i"
| "patchByte xs ((st, c) # ps) i =
     (if st \<le> i \<and> i < st + length c then c ! (i - st) else patchByte xs ps i)"

definition patchedBytes :: "byte list \<Rightarrow> nat \<Rightarrow> (nat \<times> byte list) list \<Rightarrow> byte list" where
  "patchedBytes xs sz ps = map (patchByte xs ps) [0..<sz]"

fun valid_patches :: "nat \<Rightarrow> nat \<Rightarrow> (nat \<times> byte list) list \<Rightarrow> bool" where
  "valid_patches pos sz [] \<longleftrightarrow> pos \<le> sz"
| "valid_patches pos sz ((st, c) # ps) \<longleftrightarrow> pos \<le> st \<and> st + length c \<le> sz \<and> valid_patches (st + length c) sz ps"

definition patch_sources :: "outputSpan list \<Rightarrow> (nat \<times> byte list) list \<Rightarrow> bool" where
  "patch_sources patches ps \<longleftrightarrow>
     list_all2 (\<lambda>patch (st, c). start patch = int st \<and> delivers (source patch) c) patches ps"

lemma baseRange_split:
  assumes "m \<le> n"
  shows "map (baseByte xs) [m..<n] = slice xs m (min n (length xs) - m) @ replicate (n - max m (length xs)) 0"
proof (rule nth_equalityI)
  fix i assume "i < length (map (baseByte xs) [m..<n])"
  with assms show "map (baseByte xs) [m..<n] ! i =
      (slice xs m (min n (length xs) - m) @ replicate (n - max m (length xs)) 0) ! i"
    by (auto simp: nth_append baseByte_def nth_slice min_def max_def)
qed (use assms in \<open>auto simp: min_def max_def\<close>)

lemma zero_delivers: "int n \<le> MaxInt64 \<Longrightarrow>
  delivers \<lparr>reader = Some zeroReadAt, offset = 0, srcSize = int n\<rparr> (replicate n 0)"
  using zeros.content_reader_axioms [of n]
  by (auto simp: delivers_def slice_def intro!: exI [of _ "replicate n 0"])

lemma appendBase_content:
  assumes p: "plan_content p acc" and base: "delivers base xs" and fin: "length acc \<le> fin" "int fin \<le> MaxInt64"
  shows "\<exists>p'. appendBase base p (int fin) = Inr p' \<and>
    plan_content p' (acc @ map (baseByte xs) [length acc..<fin])"
proof -
  have size: "srcSize base = int (length xs)" using base delivers_range by blast
  have pos: "planSize p = int (length acc)" using p by (auto simp: plan_content_def)
  define m where "m = min fin (length xs) - length acc"
  obtain q where q: "(if planSize p < min (int fin) (srcSize base)
           then append_plan p \<lparr>reader = reader base, offset = offset base + planSize p,
                               srcSize = min (int fin) (srcSize base) - planSize p\<rparr>
           else Inr p) = Inr q" "plan_content q (acc @ slice xs (length acc) m)"
  proof (cases "length acc < min fin (length xs)")
    case True
    have m: "min (int fin) (srcSize base) - planSize p = int m" "length acc + m \<le> length xs" "0 < m"
      using True by (auto simp: m_def size pos min_def)
    have d: "delivers \<lparr>reader = reader base, offset = offset base + planSize p, srcSize = int m\<rparr> (slice xs (length acc) m)"
      using delivers_sub [OF base m(2)] pos by simp
    have "length (slice xs (length acc) m) = m" using m(2) by simp
    then have "int (length acc) + int (length (slice xs (length acc) m)) \<le> MaxInt64"
      using fin(2) True by (simp add: m_def min_def split: if_split_asm)
    from append_plan_ok [OF p d this] obtain q where
        q: "append_plan p \<lparr>reader = reader base, offset = offset base + planSize p, srcSize = int m\<rparr> = Inr q" ..
    from append_plan_content [OF p _ d q] m(2) have "plan_content q (acc @ slice xs (length acc) m)" by simp
    with q True m size pos show thesis by (intro that) auto
  next
    case False
    then have "m = 0" by (auto simp: m_def)
    with False size pos p show thesis by (intro that [of p]) auto
  qed
  define k where "k = fin - max (length acc) (length xs)"
  have q': "planSize q = int (length acc + m)" "length (slice xs (length acc) m) = m"
    using q(2) by (auto simp: plan_content_def m_def)
  have k: "int fin - planSize q = int k"
    using fin q' by (auto simp: k_def m_def min_def max_def)
  have "int k \<le> MaxInt64" using fin by (simp add: k_def)
  note z = zero_delivers [OF this]
  from append_plan_ok [OF q(2) z] fin q' k obtain p' where
      p': "append_plan q \<lparr>reader = Some zeroReadAt, offset = 0, srcSize = int k\<rparr> = Inr p'"
    by auto
  from append_plan_content [OF q(2) _ z p'] have "plan_content p' ((acc @ slice xs (length acc) m) @ replicate k 0)"
    by simp
  with q(1) p' k fin(1) show ?thesis
    by (simp add: appendBase_def baseRange_split m_def k_def)
qed

text \<open>The bytes of a plan after the patches, from the position it has reached.\<close>

lemma patchByte_before: "valid_patches pos sz ps \<Longrightarrow> i < pos \<Longrightarrow> patchByte xs ps i = baseByte xs i"
  by (induction pos sz ps rule: valid_patches.induct) auto

lemma applyPatches_content:
  assumes base: "delivers base xs" and size: "int sz \<le> MaxInt64"
  shows "plan_content p acc \<Longrightarrow> patch_sources patches ps \<Longrightarrow> valid_patches (length acc) sz ps \<Longrightarrow>
    \<exists>p' acc'. applyPatches base (int sz) patches p = Inr p' \<and> plan_content p' acc' \<and> length acc' \<le> sz \<and>
      acc' @ map (baseByte xs) [length acc'..<sz] = acc @ map (patchByte xs ps) [length acc..<sz]"
proof (induction patches arbitrary: p acc ps)
  case Nil
  then have "ps = []" by (simp add: patch_sources_def)
  with Nil show ?case by (intro exI [of _ p] exI [of _ acc]) (simp cong: map_cong)
next
  case (Cons patch patches)
  then obtain st c ps' where ps: "ps = (st, c) # ps'" "start patch = int st" "delivers (source patch) c"
      "patch_sources patches ps'"
    by (auto simp: patch_sources_def list_all2_Cons1)
  with Cons.prems have v: "length acc \<le> st" "st + length c \<le> sz" "valid_patches (st + length c) sz ps'" by auto
  let ?acc = "acc @ map (baseByte xs) [length acc..<st] @ c"
  obtain q where q: "appendBase base p (int st) = Inr q" "plan_content q (acc @ map (baseByte xs) [length acc..<st])"
    using appendBase_content [OF Cons.prems(1) base v(1)] v size by auto
  from append_plan_ok [OF q(2) ps(3)] v size obtain q' where q': "append_plan q (source patch) = Inr q'" by auto
  have "srcSize (source patch) = int (length c)" using ps(3) delivers_range by blast
  with append_plan_content [OF q(2) _ ps(3) q'] have c: "plan_content q' ?acc" by simp
  have len: "length ?acc = st + length c" using v by simp
  from Cons.IH [OF c ps(4)] v(3) len obtain p' acc' where
      p': "applyPatches base (int sz) patches q' = Inr p'" "plan_content p' acc'" "length acc' \<le> sz"
      "acc' @ map (baseByte xs) [length acc'..<sz] = ?acc @ map (patchByte xs ps') [st + length c..<sz]"
    by auto
  have pos: "planSize p = int (length acc)" using Cons.prems(1) by (auto simp: plan_content_def)
  have "applyPatches base (int sz) (patch # patches) p = Inr p'"
    using p'(1) q(1) q' ps(2) pos v delivers_range [OF ps(3)] by auto
  moreover have "map (patchByte xs ps) [length acc..<sz] =
      map (baseByte xs) [length acc..<st] @ c @ map (patchByte xs ps') [st + length c..<sz]"
  proof -
    have "[length acc..<sz] = [length acc..<st] @ [st..<st + length c] @ [st + length c..<sz]"
      using v by (metis add_leD1 le_add1 le_add_diff_inverse upt_add_eq_append)
    moreover have "map (patchByte xs ps) [length acc..<st] = map (baseByte xs) [length acc..<st]"
      using patchByte_before [OF v(3)] by (auto simp: ps(1))
    moreover have "map (patchByte xs ps) [st..<st + length c] = c"
      by (rule nth_equalityI) (auto simp: ps(1))
    moreover have "map (patchByte xs ps) [st + length c..<sz] = map (patchByte xs ps') [st + length c..<sz]"
      by (auto simp: ps(1))
    ultimately show ?thesis by simp
  qed
  ultimately show ?case using p' by auto
qed

lemma patchedOutput_content:
  assumes "delivers base xs" "int sz \<le> MaxInt64" "patch_sources patches ps" "valid_patches 0 sz ps"
  shows "\<exists>out. patchedOutput base (int sz) patches = Inr out \<and> delivers out (patchedBytes xs sz ps)"
proof -
  obtain p acc where p: "applyPatches base (int sz) patches emptyPlan = Inr p" "plan_content p acc" "length acc \<le> sz"
      "acc @ map (baseByte xs) [length acc..<sz] = map (patchByte xs ps) [0..<sz]"
    using applyPatches_content [OF assms(1,2) emptyPlan_content assms(3)] assms(4) by auto
  obtain q where "appendBase base p (int sz) = Inr q" "plan_content q (patchedBytes xs sz ps)"
    using appendBase_content [OF p(2) assms(1) p(3) assms(2)] p(4) by (auto simp: patchedBytes_def)
  moreover have "\<not> (int sz < 0 \<or> srcSize base < 0 \<or> offset base < 0 \<or> offset base > MaxInt64 - srcSize base)"
    using delivers_range [OF assms(1)] by (auto simp: badRange_def)
  ultimately show ?thesis
    using p(1) plan_delivers by (auto simp: patchedOutput_def)
qed

lemma materialize_content:
  assumes "delivers src bytes" "length bytes \<le> maxFileSize"
  shows "materializeOutput src = Inr bytes"
proof -
  have size: "srcSize src = int (length bytes)" using assms(1) delivers_range by blast
  obtain b where "transferOutput rangeBufferWriteAt (replicate (length bytes) 0) src = (b, None)"
      "length b = length bytes" "take (length bytes) b = bytes"
    using buffer.transferOutput_copies [OF assms(1) order_refl, of "replicate (length bytes) 0"] by auto
  with assms(2) size show ?thesis by (simp add: materializeOutput_def)
qed

section \<open>Properties\<close>

text \<open>
  C7. Reading through a patched output is reading the patched bytes: for a base, a new size
  and ordered disjoint patches inside it, the plan exists and every range of it delivers
  exactly the covering patch's bytes, the untouched base bytes elsewhere and zeros past
  the base. (\<open>delivers\<close> fixes what every ReadAt inside the source returns.)
\<close>

theorem patchedOutput_delivers:
  assumes "delivers base xs" "int sz \<le> MaxInt64" "patch_sources patches ps" "valid_patches 0 sz ps"
  shows "\<exists>out. patchedOutput base (int sz) patches = Inr out \<and> delivers out (patchedBytes xs sz ps)"
  using assms by (rule patchedOutput_content)

lemma sample_patch:
  "delivers (byteOutput [1, 2, 3]) [1, 2, 3]"
  "patch_sources [\<lparr>start = 1, source = byteOutput [9]\<rparr>] [(1, [9])]"
  "valid_patches 0 5 [(1, [9])]"
  by (auto simp: patch_sources_def byteOutput_delivers MaxInt64_def)

theorem patchedOutput_delivers_witness:
  "\<exists>out. patchedOutput (byteOutput [1, 2, 3]) 5 [\<lparr>start = 1, source = byteOutput [9]\<rparr>] = Inr out \<and>
     delivers out [1, 9, 3, 0, 0]"
proof -
  have eq: "patchedBytes [1, 2, 3] 5 [(1, [9])] = [1, 9, 3, 0, 0]"
    by (simp add: patchedBytes_def baseByte_def upt_conv_Cons)
  have "int 5 \<le> MaxInt64" by (simp add: MaxInt64_def)
  from patchedOutput_delivers [OF sample_patch(1) this sample_patch(2,3)] show ?thesis
    unfolding eq by simp
qed

text \<open>
  C8. A transfer copies: materialising a source that delivers given bytes, through any
  number of chunks, yields exactly those bytes.
\<close>

theorem materializeOutput_exact:
  assumes "delivers src bytes" "length bytes \<le> maxFileSize"
  shows "materializeOutput src = Inr bytes"
  using assms by (rule materialize_content)

theorem materializeOutput_exact_witness: "materializeOutput (byteOutput [1, 2, 3]) = Inr [1, 2, 3]"
  using materializeOutput_exact [OF sample_patch(1)] by (simp add: maxFileSize_def)

end
