(* ===== verification/Page_Hash.thy ===== *)
theory Page_Hash
  imports Output_Plan
begin

text \<open>
  The page-hashing writers of hashing.go. \<open>codePageOutput\<close> splits the transfer's chunks at
  page boundaries and keeps one running hash; \<open>pageHashBatch\<close> stages digests before they
  reach the target. The specification is the digest of each page of the content.
\<close>

section \<open>Specification\<close>

fun chunks :: "nat \<Rightarrow> 'a list \<Rightarrow> 'a list list" where
  "chunks page xs = (if page = 0 \<or> xs = [] then [] else take page xs # chunks page (drop page xs))"

declare chunks.simps [simp del]

definition pageDigests :: "hash_lib \<Rightarrow> nat \<Rightarrow> byte list \<Rightarrow> byte list" where
  "pageDigests H page xs = concat (map (sha256 H) (chunks page xs))"

lemma chunks_Nil [simp]: "chunks page [] = []"
  by (simp add: chunks.simps)

lemma chunks_short: "xs \<noteq> [] \<Longrightarrow> length xs \<le> page \<Longrightarrow> chunks page xs = [xs]"
  by (cases page) (simp_all add: chunks.simps [of _ xs])

lemma chunks_full: "0 < page \<Longrightarrow> length xs = page \<Longrightarrow> chunks page (xs @ ys) = xs # chunks page ys"
  by (subst chunks.simps) auto

lemma chunks_append:
  "0 < page \<Longrightarrow> page dvd length xs \<Longrightarrow> chunks page (xs @ ys) = chunks page xs @ chunks page ys"
proof (induction "length xs" arbitrary: xs rule: less_induct)
  case less
  show ?case
  proof (cases "xs = []")
    case False
    then have "page \<le> length xs" using less.prems by (auto dest: dvd_imp_le)
    then have split: "xs = take page xs @ drop page xs" "length (take page xs) = page" by simp_all
    have "chunks page (drop page xs @ ys) = chunks page (drop page xs) @ chunks page ys"
      using False less \<open>page \<le> length xs\<close> by (intro less.hyps) (auto simp: dvd_minus_self)
    then show ?thesis
      using chunks_full [OF less.prems(1) split(2), of "drop page xs @ ys"]
        chunks_full [OF less.prems(1) split(2), of "drop page xs"] split(1)
      by (metis append.assoc append_Cons)
  qed simp
qed

lemma length_chunks: "0 < page \<Longrightarrow> length (chunks page xs) = (length xs + page - 1) div page"
proof (induction page xs rule: chunks.induct)
  case (1 page xs)
  show ?case
  proof (cases "xs = []")
    case False
    have "length (chunks page xs) = Suc ((length xs - page + page - 1) div page)"
      using 1 False by (simp add: chunks.simps [of page xs])
    also have "\<dots> = (length xs + page - 1) div page"
    proof (cases "length xs \<le> page")
      case True
      with False have "(length xs + page - 1) div page = 1"
        using 1(2) by (cases xs) (auto intro!: div_nat_eqI)
      with True 1(2) show ?thesis by simp
    next
      case False
      then have "length xs + page - 1 = (length xs - 1) + page" "length xs - page + page - 1 = length xs - 1"
        using 1(2) by simp_all
      moreover have "((length xs - 1) + page) div page = Suc ((length xs - 1) div page)"
        by (subst div_add_self2) (use 1(2) in auto)
      ultimately show ?thesis by (simp only:)
    qed
    finally show ?thesis .
  next
    case True
    with 1(2) show ?thesis by simp
  qed
qed

lemma chunks_dvd: "0 < page \<Longrightarrow> page dvd length xs \<Longrightarrow> page * length (chunks page xs) = length xs"
proof -
  assume pos: "0 < page" and "page dvd length xs"
  then obtain k where "length xs = page * k" by auto
  moreover have "(page * k + page - 1) div page = k"
    using pos by (intro div_nat_eqI) (auto simp: mult.commute)
  ultimately show ?thesis using pos by (simp add: length_chunks)
qed

lemma length_chunks_ceil:
  "0 < page \<Longrightarrow> length (chunks page xs) = length xs div page + (if length xs mod page \<noteq> 0 then 1 else 0)"
proof -
  assume pos: "0 < page"
  let ?q = "length xs div page" and ?r = "length xs mod page"
  have r: "length xs = page * ?q + ?r" "?r < page" using pos by simp_all
  then have "(length xs + page - 1) div page = (page * ?q + (?r + page - 1)) div page" using pos by simp
  also have "\<dots> = ?q + (?r + page - 1) div page" using pos by (intro div_mult_self4) simp
  also have "(?r + page - 1) div page = (if ?r \<noteq> 0 then 1 else 0)"
  proof (cases "?r = 0")
    case False
    then have "page \<le> ?r + page - 1" "?r + page - 1 < page + page" using r(2) by linarith+
    then have "(?r + page - 1) div page = 1" by (intro div_nat_eqI) (simp_all del: mod_less_divisor)
    with False show ?thesis by simp
  qed (use pos in simp)
  finally show ?thesis using pos by (simp add: length_chunks)
qed

lemma length_pageDigests:
  assumes "hash_lib_ok H" shows "length (pageDigests H page xs) = 32 * length (chunks page xs)"
proof -
  have "length (concat (map (sha256 H) ys)) = 32 * length ys" for ys
    using assms by (induction ys) (auto simp: hash_lib_ok_def)
  then show ?thesis by (simp add: pageDigests_def)
qed

section \<open>codePageOutput\<close>

text \<open>
  The record's \<open>sums\<close> slice is \<open>room\<close> bytes not yet written; \<open>target\<close> is the state of the
  writer. finish sends one digest to whichever of the two is used.
\<close>

record 's codePageOutput =
  stream :: "byte list"
  page :: nat
  remaining :: nat
  target :: 's
  outOffset :: int

text \<open>finish for a writer: \<open>put\<close> is the WriteAt that takes the digest.\<close>

definition finishPage ::
  "hash_lib \<Rightarrow> 's writer_at \<Rightarrow> 's codePageOutput \<Rightarrow> 's codePageOutput \<times> error option" where
  "finishPage H put p =
    (let d = sha256 H (stream p); (t, n, e) = put (target p) d (outOffset p) in
     if e \<noteq> None then (p\<lparr>target := t\<rparr>, e) else
     if n \<noteq> length d then (p\<lparr>target := t\<rparr>, Some IoShortWrite) else
     (p\<lparr>target := t, outOffset := outOffset p + int n, stream := [], remaining := page p\<rparr>, None))"

text \<open>The loop of WriteAt; \<open>data\<close> is what is left of the call's argument.\<close>

function pageWrite ::
  "hash_lib \<Rightarrow> 's writer_at \<Rightarrow> 's codePageOutput \<Rightarrow> byte list \<Rightarrow> 's codePageOutput \<times> nat \<times> error option"
where
  "pageWrite H put p data =
    (if data = [] then (p, 0, None) else
     if remaining p = 0 then (p, 0, Some OutOfFuel) else
     let chunk = take (remaining p) data; rest = drop (remaining p) data;
         p1 = p\<lparr>stream := stream p @ chunk, remaining := remaining p - length chunk\<rparr>;
         (p2, e) = (if remaining p1 = 0 then finishPage H put p1 else (p1, None)) in
     case e of Some err \<Rightarrow> (p2, length data - length rest, Some err)
     | None \<Rightarrow> (case pageWrite H put p2 rest of (p3, n, e3) \<Rightarrow> (p3, length chunk + n, e3)))"
  by pat_completeness auto
termination
  by (relation "measure (\<lambda>(_, _, _, data). length data)") auto

declare pageWrite.simps [simp del]

definition pageWriteAt :: "hash_lib \<Rightarrow> 's writer_at \<Rightarrow> 's codePageOutput writer_at" where
  "pageWriteAt H put p data off = pageWrite H put p data"

text \<open>The in-memory target of hashCodePages: p.sums, with \<open>room\<close> bytes left.\<close>

definition sumsPut :: "(byte list \<times> nat) writer_at" where
  "sumsPut s d off =
    (case s of (done_, room) \<Rightarrow>
     if room < length d then (s, 0, Some Panic) else ((done_ @ d, room - length d), length d, None))"

definition hashCodePages :: "hash_lib \<Rightarrow> outputSource \<Rightarrow> nat \<Rightarrow> nat \<Rightarrow> byte list result" where
  "hashCodePages H src pg room =
    (case transferOutput (pageWriteAt H sumsPut)
        \<lparr>stream = [], page = pg, remaining = pg, target = ([], room), outOffset = 0\<rparr> src of
       (p, Some e) \<Rightarrow> Inl e
     | (p, None) \<Rightarrow>
       if remaining p \<noteq> page p then
         (case finishPage H sumsPut p of (q, Some e) \<Rightarrow> Inl e | (q, None) \<Rightarrow> Inr (fst (target q)))
       else Inr (fst (target p)))"

section \<open>pageHashBatch\<close>

text \<open>The batch buffers \<open>staged\<close> bytes of at most \<open>capacity\<close> before writing them on.\<close>

record 's pageHashBatch =
  staged :: "byte list"
  capacity :: nat
  batchOffset :: int
  sink_state :: 's

definition flushBatch :: "'s writer_at \<Rightarrow> 's pageHashBatch \<Rightarrow> 's pageHashBatch \<times> error option" where
  "flushBatch put b =
    (if staged b = [] then (b, None) else
     let (t, n, e) = put (sink_state b) (staged b) (batchOffset b);
         e' = (if n \<noteq> length (staged b) then Some (errJoin IoShortWrite e) else e) in
     if e' \<noteq> None then (b\<lparr>sink_state := t\<rparr>, Some (errJoin (the e') None))
     else (b\<lparr>sink_state := t, batchOffset := batchOffset b + int (length (staged b)), staged := []\<rparr>, None))"

definition batchPut :: "'s writer_at \<Rightarrow> 's pageHashBatch writer_at" where
  "batchPut put b p at =
    (if at \<noteq> batchOffset b + int (length (staged b)) \<or> length p > capacity b - length (staged b)
     then (b, 0, Some (Malformed ''noncontiguous page hash batch'')) else
     let b' = b\<lparr>staged := staged b @ p\<rparr> in
     if length (staged b') = capacity b'
     then (case flushBatch put b' of (b2, e) \<Rightarrow> (b2, length p, e))
     else (b', length p, None))"

definition hashCodePagesTo ::
  "hash_lib \<Rightarrow> outputSource \<Rightarrow> nat \<Rightarrow> 's writer_at \<Rightarrow> 's \<Rightarrow> int \<Rightarrow> 's \<times> error option" where
  "hashCodePagesTo H src pg dst s off =
    (if pg = 0 \<or> badRange src \<or> off < 0 then (s, Some (Malformed ''code page hash range'')) else
     let pages = srcSize src div int pg + (if srcSize src mod int pg \<noteq> 0 then 1 else 0) in
     if pages > (MaxInt64 - off) div 32 then (s, Some (Malformed ''code page hash output overflow'')) else
     if srcSize src = 0 then (s, None) else
     let buf = transferBuffer (max (srcSize src) 64); split = buf div 2 div 32 * 32;
         p0 = \<lparr>stream = [], page = pg, remaining = pg,
               target = \<lparr>staged = [], capacity = split, batchOffset = off, sink_state = s\<rparr>, outOffset = off\<rparr> in
     case transferOutputBuffer (pageWriteAt H (batchPut dst)) p0 src (buf - split) 0 of
       (p, Some e) \<Rightarrow> (sink_state (target p), Some e)
     | (p, None) \<Rightarrow>
       (case (if remaining p \<noteq> page p then finishPage H (batchPut dst) p else (p, None)) of
          (p, Some e) \<Rightarrow> (sink_state (target p), Some e)
        | (p, None) \<Rightarrow> (case flushBatch dst (target p) of (b, e) \<Rightarrow> (sink_state b, e))))"

section \<open>The digests are those of the pages\<close>

text \<open>A target for 32-byte digests written contiguously from \<open>base\<close>.\<close>

locale digest_target =
  fixes put :: "'s writer_at" and absorbed :: "'s \<Rightarrow> byte list \<Rightarrow> bool" and limit :: nat and base :: int
  assumes put_ok: "absorbed s xs \<Longrightarrow> length d = 32 \<Longrightarrow> 32 dvd length xs \<Longrightarrow> length xs + 32 \<le> limit \<Longrightarrow>
    \<exists>s'. put s d (base + int (length xs)) = (s', 32, None) \<and> absorbed s' (xs @ d)"

interpretation sums: digest_target sumsPut "\<lambda>(d, room) xs. d = xs \<and> length xs + room = n" n 0 for n :: nat
  by unfold_locales (auto simp: sumsPut_def)

text \<open>Batching a contiguous writer, with a capacity of whole digests.\<close>

locale batched = sink dst absorbed limit base
  for dst :: "'s writer_at" and absorbed :: "'s \<Rightarrow> byte list \<Rightarrow> bool" and limit :: nat and base :: int +
  fixes cap :: nat
  assumes cap: "0 < cap" "32 dvd cap"
begin

definition batched_ok :: "'s pageHashBatch \<Rightarrow> byte list \<Rightarrow> bool" where
  "batched_ok b xs \<longleftrightarrow> capacity b = cap \<and> length (staged b) < cap \<and>
     (\<exists>ys. xs = ys @ staged b \<and> 32 dvd length ys \<and> absorbed (sink_state b) ys \<and>
        batchOffset b = base + int (length ys))"

lemma flushBatch_ok:
  assumes "absorbed (sink_state b) ys" "batchOffset b = base + int (length ys)" "length ys + length (staged b) \<le> limit"
  shows "\<exists>b'. flushBatch dst b = (b', None) \<and> capacity b' = capacity b \<and> staged b' = [] \<and>
    absorbed (sink_state b') (ys @ staged b) \<and> batchOffset b' = base + int (length (ys @ staged b))"
proof (cases "staged b = []")
  case False
  with write_ok [OF assms(1) False assms(3)] assms(2) show ?thesis
    by (auto simp: flushBatch_def Let_def)
qed (use assms in \<open>simp add: flushBatch_def\<close>)

lemma batchPut_ok:
  assumes b: "batched_ok b xs" and d: "length d = 32" and xs: "32 dvd length xs" "length xs + 32 \<le> limit"
  shows "\<exists>b'. batchPut dst b d (base + int (length xs)) = (b', 32, None) \<and> batched_ok b' (xs @ d)"
proof -
  from b obtain ys where ys: "xs = ys @ staged b" "32 dvd length ys" "absorbed (sink_state b) ys"
      "batchOffset b = base + int (length ys)" "capacity b = cap" "length (staged b) < cap"
    by (auto simp: batched_ok_def)
  have "32 dvd length (staged b)" using xs(1) ys(1,2) by (simp add: dvd_add_right_iff)
  with ys(6) cap have room: "length (staged b) + 32 \<le> cap"
    by (metis dvd_add_right_iff dvd_diff_nat dvd_imp_le le_add_diff_inverse less_imp_le_nat add_left_mono zero_less_diff)
  let ?b = "b\<lparr>staged := staged b @ d\<rparr>"
  have accept: "\<not> (base + int (length xs) \<noteq> batchOffset b + int (length (staged b)) \<or> length d > capacity b - length (staged b))"
    using ys d room by simp
  show ?thesis
  proof (cases "length (staged ?b) = cap")
    case True
    obtain b' where "flushBatch dst ?b = (b', None)" "capacity b' = cap" "staged b' = []"
        "absorbed (sink_state b') (ys @ staged b @ d)" "batchOffset b' = base + int (length (ys @ staged b @ d))"
      using flushBatch_ok [of ?b ys] ys xs d by auto
    moreover have "32 dvd length (xs @ d)" using xs(1) d by simp
    then have "32 dvd length (ys @ staged b @ d)" unfolding ys(1) by simp
    ultimately show ?thesis
      using True accept ys cap d by (auto simp: batchPut_def batched_ok_def)
  next
    case False
    with accept ys room d show ?thesis
      by (auto simp: batchPut_def batched_ok_def Let_def)
  qed
qed

end

sublocale batched \<subseteq> batch: digest_target "batchPut dst" batched_ok limit base
  by unfold_locales (rule batchPut_ok)

context batched begin

lemmas batch_target = batch.digest_target_axioms

end

interpretation batched_buffer: batched rangeBufferWriteAt
  "\<lambda>b xs. length b = off + n \<and> take off b = pre \<and> slice b off (length xs) = xs" n "int off" "32 * Suc k"
  for off n k :: nat and pre :: "byte list"
  by unfold_locales simp_all

text \<open>Splitting a stream into pages in front of such a target.\<close>

locale paged = digest_target put absorbed limit base
  for put :: "'s writer_at" and absorbed :: "'s \<Rightarrow> byte list \<Rightarrow> bool" and limit :: nat and base :: int +
  fixes H :: hash_lib and pg :: nat
  assumes lib: "hash_lib_ok H" and pg: "0 < pg"
begin

definition page_ok :: "'s codePageOutput \<Rightarrow> byte list \<Rightarrow> bool" where
  "page_ok p xs \<longleftrightarrow> page p = pg \<and> 0 < remaining p \<and> length (stream p) + remaining p = pg \<and>
     (\<exists>ys. xs = ys @ stream p \<and> pg dvd length ys \<and> absorbed (target p) (pageDigests H pg ys) \<and>
        outOffset p = base + int (length (pageDigests H pg ys)))"

lemmas length_digests = length_pageDigests [OF lib]

lemma finishPage_ok:
  assumes "absorbed (target p) (pageDigests H pg ys)" "outOffset p = base + int (length (pageDigests H pg ys))"
    and "page p = pg" "pg dvd length ys" "stream p \<noteq> []" "length (stream p) \<le> pg"
    and "32 * length (chunks pg ys) + 32 \<le> limit"
  shows "\<exists>p'. finishPage H put p = (p', None) \<and> page p' = pg \<and> remaining p' = pg \<and> stream p' = [] \<and>
    absorbed (target p') (pageDigests H pg (ys @ stream p)) \<and>
    outOffset p' = base + int (length (pageDigests H pg (ys @ stream p)))"
proof -
  have d: "length (sha256 H (stream p)) = 32" using lib by (simp add: hash_lib_ok_def)
  have eq: "pageDigests H pg (ys @ stream p) = pageDigests H pg ys @ sha256 H (stream p)"
    using assms(4-6) pg by (simp add: pageDigests_def chunks_append chunks_short)
  from put_ok [OF assms(1) d, folded assms(2)] assms(7) obtain t where
      "put (target p) (sha256 H (stream p)) (outOffset p) = (t, 32, None)"
      "absorbed t (pageDigests H pg ys @ sha256 H (stream p))"
    by (auto simp: length_digests)
  then show ?thesis using assms(2,3) d by (auto simp: finishPage_def eq)
qed

lemma pageWrite_ok:
  "page_ok p xs \<Longrightarrow> length xs + length data \<le> pg * (limit div 32) \<Longrightarrow>
   \<exists>p'. pageWrite H put p data = (p', length data, None) \<and> page_ok p' (xs @ data)"
proof (induction "length data" arbitrary: p xs data rule: less_induct)
  case less
  show ?case
  proof (cases "data = []")
    case False
    let ?chunk = "take (remaining p) data" and ?rest = "drop (remaining p) data"
    define p1 where "p1 = p\<lparr>stream := stream p @ ?chunk, remaining := remaining p - length ?chunk\<rparr>"
    from less.prems(1) obtain ys where ys: "xs = ys @ stream p" "pg dvd length ys"
        "absorbed (target p) (pageDigests H pg ys)" "outOffset p = base + int (length (pageDigests H pg ys))"
        "page p = pg" "0 < remaining p" "length (stream p) + remaining p = pg"
      by (auto simp: page_ok_def)
    have chunk: "?chunk \<noteq> []" using False ys(6) by simp
    have "\<exists>p2. (if remaining p1 = 0 then finishPage H put p1 else (p1, None)) = (p2, None) \<and> page_ok p2 (xs @ ?chunk)"
    proof (cases "remaining p1 = 0")
      case True
      then have full: "length ?chunk = remaining p" by (auto simp: p1_def)
      have "pg * length (chunks pg ys) = length ys"
        using chunks_dvd [OF pg ys(2)] .
      moreover have "length ys + pg \<le> pg * (limit div 32)"
        using less.prems(2) ys(1,7) full by (simp add: min_def split: if_split_asm)
      ultimately have "length (chunks pg ys) + 1 \<le> limit div 32"
        using pg by (metis Suc_eq_plus1 mult_Suc_right add.commute mult_le_cancel1)
      then have "32 * length (chunks pg ys) + 32 \<le> limit" by linarith
      with finishPage_ok [of p1 ys] ys chunk full obtain p2 where p2: "finishPage H put p1 = (p2, None)"
          "page p2 = pg" "remaining p2 = pg" "stream p2 = []"
          "absorbed (target p2) (pageDigests H pg (ys @ stream p1))"
          "outOffset p2 = base + int (length (pageDigests H pg (ys @ stream p1)))"
        by (auto simp: p1_def)
      have "pg dvd length (ys @ stream p1)" using ys full by (simp add: p1_def)
      with p2 True ys(1) pg show ?thesis by (auto simp: page_ok_def p1_def)
    next
      case False
      with ys show ?thesis by (auto simp: page_ok_def p1_def)
    qed
    then obtain p2 where p2: "(if remaining p1 = 0 then finishPage H put p1 else (p1, None)) = (p2, None)"
        "page_ok p2 (xs @ ?chunk)" by blast
    have "length (xs @ ?chunk) + length ?rest \<le> pg * (limit div 32)" "length ?rest < length data"
      using less.prems(2) False ys(6) by auto
    from less.hyps [OF this(2) p2(2) this(1)] obtain p3 where
        p3: "pageWrite H put p2 ?rest = (p3, length ?rest, None)" "page_ok p3 (xs @ data)"
      by auto
    have "pageWrite H put p data = (p3, length ?chunk + length ?rest, None)"
      using False ys(6) p2(1) p3(1) unfolding p1_def
      by (subst pageWrite.simps) (simp add: Let_def)
    moreover have "length ?chunk + length ?rest = length data" by (metis append_take_drop_id length_append)
    ultimately show ?thesis using p3(2) by auto
  qed (use less in \<open>simp add: pageWrite.simps\<close>)
qed

lemma page_start:
  "absorbed t [] \<Longrightarrow> page_ok \<lparr>stream = [], page = pg, remaining = pg, target = t, outOffset = base\<rparr> []"
  using pg by (simp add: page_ok_def pageDigests_def)

text \<open>After the last chunk: the remainder, if any, is one more page.\<close>

lemma page_finish:
  assumes "page_ok p xs" "32 * length (chunks pg xs) \<le> limit"
  shows "\<exists>q. (if remaining p \<noteq> page p then finishPage H put p else (p, None)) = (q, None) \<and>
    absorbed (target q) (pageDigests H pg xs)"
proof -
  from assms(1) obtain ys where ys: "xs = ys @ stream p" "pg dvd length ys"
      "absorbed (target p) (pageDigests H pg ys)" "outOffset p = base + int (length (pageDigests H pg ys))"
      "page p = pg" "0 < remaining p" "length (stream p) + remaining p = pg"
    by (auto simp: page_ok_def)
  show ?thesis
  proof (cases "stream p = []")
    case False
    with ys have more: "remaining p \<noteq> page p" "length (stream p) \<le> pg" by auto
    then have "chunks pg xs = chunks pg ys @ [stream p]"
      using ys(1,2) pg False by (simp add: chunks_append chunks_short)
    with assms(2) have "32 * length (chunks pg ys) + 32 \<le> limit" by simp
    from finishPage_ok [OF ys(3,4,5,2) False more(2) this] more ys(1) show ?thesis by auto
  qed (use ys in simp)
qed

end

sublocale paged \<subseteq> pages: stream_sink "pageWriteAt H put" page_ok "pg * (limit div 32)"
  by unfold_locales (simp add: pageWriteAt_def pageWrite_ok)

context paged begin

lemma chunks_limit: "length xs \<le> pg * m \<Longrightarrow> length (chunks pg xs) \<le> m"
proof -
  assume "length xs \<le> pg * m"
  then have "length xs + pg - 1 < Suc m * pg" using pg by (simp add: mult.commute)
  then have "(length xs + pg - 1) div pg < Suc m" by (simp add: div_less_iff_less_mult pg)
  then show ?thesis using pg by (simp add: length_chunks)
qed

lemmas transfer_pages = pages.transferOutput_copies
lemmas transfer_buffer_pages = pages.transferOutputBuffer_copies

lemma pages_fit: "32 * length (chunks pg xs) \<le> limit \<Longrightarrow> length xs \<le> pg * (limit div 32)"
proof -
  assume "32 * length (chunks pg xs) \<le> limit"
  then have "length (chunks pg xs) \<le> limit div 32" by linarith
  moreover have "length xs \<le> pg * length (chunks pg xs)"
  proof -
    have "(length xs + pg - 1) - (length xs + pg - 1) mod pg = pg * ((length xs + pg - 1) div pg)"
      by (simp add: minus_mod_eq_mult_div)
    moreover have "(length xs + pg - 1) mod pg \<le> pg - 1"
      using mod_less_divisor [OF pg, of "length xs + pg - 1"] by linarith
    ultimately show ?thesis using pg by (simp add: length_chunks)
  qed
  ultimately show ?thesis by (meson le_trans mult_le_mono2)
qed

end

interpretation paged_sums: paged sumsPut "\<lambda>(d, room) xs. d = xs \<and> length xs + room = n" n 0 sampleHash "Suc k"
  for n k :: nat
  by unfold_locales (simp_all add: sampleHash_ok)

lemma sums_paged:
  "hash_lib_ok H \<Longrightarrow> 0 < pg \<Longrightarrow> paged sumsPut (\<lambda>(d, room) xs. d = xs \<and> length xs + room = n) n 0 H pg"
  using sums.digest_target_axioms by (simp add: paged_def paged_axioms_def)

lemma hashCodePages_pages:
  assumes H: "hash_lib_ok H" "0 < pg" and src: "delivers src bytes" and room: "room = 32 * length (chunks pg bytes)"
  shows "hashCodePages H src pg room = Inr (pageDigests H pg bytes)"
proof -
  note paged = sums_paged [OF H, of room]
  let ?p0 = "\<lparr>stream = [], page = pg, remaining = pg, target = ([], room), outOffset = 0\<rparr>"
  obtain p where p: "transferOutput (pageWriteAt H sumsPut) ?p0 src = (p, None)"
      "paged.page_ok (\<lambda>(d, room') xs. d = xs \<and> length xs + room' = room) 0 H pg p bytes"
    using paged.transfer_pages [OF paged src, of ?p0] paged.page_start [OF paged, of "([], room)"]
      paged.pages_fit [OF paged, of bytes] room by auto
  obtain q where q: "(if remaining p \<noteq> page p then finishPage H sumsPut p else (p, None)) = (q, None)"
      "fst (target q) = pageDigests H pg bytes"
    using paged.page_finish [OF paged p(2)] room by (auto simp: case_prod_unfold)
  then show ?thesis
    using p(1) by (cases "remaining p = page p") (auto simp: hashCodePages_def)
qed

lemma batch_paged:
  assumes "hash_lib_ok H" "0 < pg" "0 < cap" "32 dvd cap" "sink dst absorbed n base"
  shows "paged (batchPut dst) (batched.batched_ok absorbed base cap) n base H pg"
proof -
  have "batched dst absorbed n base cap"
    using assms by (simp add: batched_def batched_axioms_def)
  then show ?thesis
    using batched.batch_target assms by (auto simp: paged_def paged_axioms_def)
qed

lemma batch_capacity: "64 \<le> buf \<Longrightarrow> 0 < buf div 2 div 32 * 32 \<and> buf div 2 div 32 * 32 < (buf :: nat)"
proof -
  assume "64 \<le> buf"
  then have "1 \<le> buf div 2 div 32" by linarith
  moreover have "buf div 2 div 32 * 32 \<le> buf div 2" by simp
  moreover have "buf div 2 < buf" using \<open>64 \<le> buf\<close> by simp
  ultimately show ?thesis by linarith
qed

text \<open>For any contiguous target with room for the digests.\<close>

lemma hashCodePagesTo_sink:
  assumes H: "hash_lib_ok H" "0 < pg" and src: "delivers src bytes"
    and dst: "sink dst absorbed (32 * length (chunks pg bytes)) (int off)" "absorbed b []"
    and bound: "int (off + 32 * length (chunks pg bytes)) \<le> MaxInt64"
  shows "\<exists>b'. hashCodePagesTo H src pg dst b (int off) = (b', None) \<and> absorbed b' (pageDigests H pg bytes)"
proof -
  let ?n = "32 * length (chunks pg bytes)"
  have size: "srcSize src = int (length bytes)" "\<not> badRange src" using delivers_range [OF src] by auto
  have qr: "srcSize src div int pg = int (length bytes div pg)" "srcSize src mod int pg = int (length bytes mod pg)"
    by (simp_all add: size zdiv_int zmod_int)
  have pages: "srcSize src div int pg + (if srcSize src mod int pg \<noteq> 0 then 1 else 0) = int (length (chunks pg bytes))"
    unfolding qr length_chunks_ceil [OF H(2)] by simp
  have "32 * int (length (chunks pg bytes)) \<le> MaxInt64 - int off" using bound by simp
  then have overflow: "\<not> int (length (chunks pg bytes)) > (MaxInt64 - int off) div 32" by linarith
  have len: "length (pageDigests H pg bytes) = ?n" using H(1) by (rule length_pageDigests)
  show ?thesis
  proof (cases "bytes = []")
    case True
    with size H dst(2) pages overflow show ?thesis
      by (auto simp: hashCodePagesTo_def pageDigests_def)
  next
    case False
    define buf where "buf = transferBuffer (max (srcSize src) 64)"
    define cap where "cap = buf div 2 div 32 * 32"
    have "64 \<le> buf" by (auto simp: buf_def transferBuffer_def transferBufferSize_def)
    then have cap: "0 < cap" "cap < buf" "32 dvd cap"
      using batch_capacity [of buf] by (auto simp: cap_def)
    note paged = batch_paged [OF H cap(1,3) dst(1)]
    let ?t0 = "\<lparr>staged = [], capacity = cap, batchOffset = int off, sink_state = b\<rparr>"
    let ?p0 = "\<lparr>stream = [], page = pg, remaining = pg, target = ?t0, outOffset = int off\<rparr>"
    let ?ok = "batched.batched_ok absorbed (int off) cap"
    have bat: "batched dst absorbed ?n (int off) cap"
      using dst(1) cap by (simp add: batched_def batched_axioms_def)
    have "?ok ?t0 []"
      using cap dst(2) by (auto simp: batched.batched_ok_def [OF bat])
    then obtain p where p: "transferOutputBuffer (pageWriteAt H (batchPut dst)) ?p0 src (buf - cap) 0 = (p, None)"
        "paged.page_ok ?ok (int off) H pg p bytes"
      using paged.transfer_buffer_pages [OF paged src _ paged.pages_fit [OF paged order_refl], of "buf - cap" 0 ?p0]
        paged.page_start [OF paged, of ?t0] cap by auto
    obtain q where q: "(if remaining p \<noteq> page p then finishPage H (batchPut dst) p else (p, None)) = (q, None)"
        "?ok (target q) (pageDigests H pg bytes)"
      using paged.page_finish [OF paged p(2) order_refl] by auto
    from q(2) obtain ys where ys: "pageDigests H pg bytes = ys @ staged (target q)" "absorbed (sink_state (target q)) ys"
        "batchOffset (target q) = int off + int (length ys)"
      by (auto simp: batched.batched_ok_def [OF bat])
    have "length ys + length (staged (target q)) \<le> ?n" using len ys(1) by simp
    from batched.flushBatch_ok [OF bat ys(2,3) this] obtain r where
        r: "flushBatch dst (target q) = (r, None)" "absorbed (sink_state r) (pageDigests H pg bytes)"
      using ys(1) by auto
    have "\<not> (pg = 0 \<or> badRange src \<or> int off < 0)" "srcSize src \<noteq> 0"
      using H(2) size False by auto
    then have "hashCodePagesTo H src pg dst b (int off) = (sink_state r, None)"
      unfolding hashCodePagesTo_def Let_def pages buf_def [symmetric] cap_def [symmetric]
      using overflow p(1) q(1) r(1) by simp
    with r(2) show ?thesis by blast
  qed
qed

lemma hashCodePagesTo_pages:
  assumes H: "hash_lib_ok H" "0 < pg" and src: "delivers src bytes" and b: "length b = off + 32 * length (chunks pg bytes)"
    and bound: "int (length b) \<le> MaxInt64"
  shows "\<exists>b'. hashCodePagesTo H src pg rangeBufferWriteAt b (int off) = (b', None) \<and>
    b' = take off b @ pageDigests H pg bytes"
proof -
  let ?n = "32 * length (chunks pg bytes)"
  let ?abs = "\<lambda>b' xs. length b' = off + ?n \<and> take off b' = take off b \<and> slice b' off (length xs) = xs"
  have "?abs b []" "int (off + ?n) \<le> MaxInt64" using b bound by auto
  with hashCodePagesTo_sink [OF H src buffer_at.sink_axioms] obtain b' where
      "hashCodePagesTo H src pg rangeBufferWriteAt b (int off) = (b', None)" "?abs b' (pageDigests H pg bytes)"
    by blast
  moreover have "length (pageDigests H pg bytes) = ?n" using H(1) by (rule length_pageDigests)
  ultimately show ?thesis
    by (metis append_take_drop_id length_drop slice_def take_all_iff diff_add_inverse order_refl)
qed

section \<open>Properties\<close>

text \<open>
  C6. Hashing a file's pages through bounded chunks gives the digest of every page of the
  content, in order, the last one shorter: chunk boundaries, the reuse of one running hash
  and the partial last page do not show in the result.
\<close>

theorem hashCodePages_exact:
  assumes "hash_lib_ok H" "0 < pg" "delivers src bytes" "room = 32 * length (chunks pg bytes)"
  shows "hashCodePages H src pg room = Inr (pageDigests H pg bytes)"
  using assms by (rule hashCodePages_pages)

lemma sample_pages:
  "delivers (byteOutput [1, 2, 3]) [1, 2, 3]" "chunks 2 [1, 2, 3 :: byte] = [[1, 2], [3]]"
  by (simp_all add: byteOutput_delivers MaxInt64_def chunks.simps)

theorem hashCodePages_exact_witness:
  "hashCodePages sampleHash (byteOutput [1, 2, 3]) 2 64 = Inr (replicate 32 2 @ replicate 32 1)"
  using hashCodePages_exact [OF sampleHash_ok _ sample_pages(1), of 2 64]
  by (simp add: sample_pages(2) pageDigests_def sampleHash_def)

text \<open>
  The batched writer of large outputs stores the same digests: written at an offset of
  a target with just enough room, hashCodePagesTo leaves what precedes the offset and
  appends exactly the page digests, whatever the batch size and however pages straddle
  the chunks.
\<close>

lemma hashCodePagesTo_exact:
  assumes "hash_lib_ok H" "0 < pg" "delivers src bytes" "length b = off + 32 * length (chunks pg bytes)"
    "int (length b) \<le> MaxInt64"
  shows "hashCodePagesTo H src pg rangeBufferWriteAt b (int off) = (take off b @ pageDigests H pg bytes, None)"
  using hashCodePagesTo_pages [OF assms] by auto

end
