(* ===== verification/Working_Storage.thy ===== *)
theory Working_Storage
  imports Byte_Transfer "HOL-Library.Multiset"
begin

text \<open>
  working_storage.go and compressionStage of compression.go: the operation-owned scratch
  budget. Operations are total functions on the guarded state; what the file system answers
  is an argument. The concurrent use of the pool is the step relation \<open>sstep\<close>: every method
  holds the mutex from its first to its last access, so a run is an interleaving of them.
  A transfer buffer that does not fit waits, that is, it has no step.
\<close>

section \<open>State\<close>

record WorkingStorageStats =
  PeakMemoryBytes :: int
  MemoryBytes :: int
  SpillBytes :: int
  SpillFiles :: int
  TemporaryBytes :: int
  PeakTemporaryBytes :: int
  TemporaryFiles :: int
  PeakTemporaryFiles :: int

text \<open>
  \<open>ws_stages\<close> is the set of open stages with their extents, by the stage's identity; a stage
  leaves it when it closes.
\<close>

record workingStorage =
  ws_budget :: int
  ws_stats :: WorkingStorageStats
  ws_file :: bool
  ws_closed :: bool
  ws_stages :: "(nat \<times> int) list"

definition defaultWorkingMemory :: int where
  "defaultWorkingMemory = 128 * 2 ^ 20"

definition zeroStats :: WorkingStorageStats where
  "zeroStats = \<lparr>PeakMemoryBytes = 0, MemoryBytes = 0, SpillBytes = 0, SpillFiles = 0, TemporaryBytes = 0,
     PeakTemporaryBytes = 0, TemporaryFiles = 0, PeakTemporaryFiles = 0\<rparr>"

text \<open>\<open>None\<close>: a nested operation, which inherits the pool of the context.\<close>

definition beginWorkingStorage :: "bool \<Rightarrow> int \<Rightarrow> workingStorage option result" where
  "beginWorkingStorage nested memory =
    (if nested then Inr None else
     let memory = (if memory = 0 then defaultWorkingMemory else memory) in
     if memory < int transferBufferSize then Inl (Plain ''working memory must allow at least one transfer buffer'') else
     Inr (Some \<lparr>ws_budget = memory, ws_stats = zeroStats, ws_file = False, ws_closed = False, ws_stages = []\<rparr>))"

section \<open>Operations\<close>

definition addTemporaryFile :: "WorkingStorageStats \<Rightarrow> WorkingStorageStats" where
  "addTemporaryFile s = s\<lparr>TemporaryFiles := TemporaryFiles s + 1,
     PeakTemporaryFiles := max (PeakTemporaryFiles s) (TemporaryFiles s + 1)\<rparr>"

definition growTemporary :: "int \<Rightarrow> WorkingStorageStats \<Rightarrow> WorkingStorageStats" where
  "growTemporary n s = s\<lparr>TemporaryBytes := TemporaryBytes s + n,
     PeakTemporaryBytes := max (PeakTemporaryBytes s) (TemporaryBytes s + n)\<rparr>"

definition reserve :: "int \<Rightarrow> WorkingStorageStats \<Rightarrow> WorkingStorageStats" where
  "reserve n s = s\<lparr>MemoryBytes := MemoryBytes s + n,
     PeakMemoryBytes := max (PeakMemoryBytes s) (MemoryBytes s + n)\<rparr>"

definition release :: "int \<Rightarrow> workingStorage \<Rightarrow> workingStorage" where
  "release n s = (if ws_closed s then s else s\<lparr>ws_stats := (ws_stats s)\<lparr>MemoryBytes := MemoryBytes (ws_stats s) - n\<rparr>\<rparr>)"

text \<open>One turn of transferBuffer's loop: the reserved size, or \<open>None\<close> to wait for a release.\<close>

definition tryTransferBuffer :: "int \<Rightarrow> workingStorage \<Rightarrow> (int option \<times> workingStorage) result" where
  "tryTransferBuffer sz s =
    (let n = min sz (int transferBufferSize) in
     if n < 0 then Inl (Malformed ''negative transfer buffer size'') else
     if ws_closed s then Inl OsClosed else
     if n \<le> ws_budget s - MemoryBytes (ws_stats s)
     then Inr (Some n, s\<lparr>ws_stats := reserve n (ws_stats s)\<rparr>) else Inr (None, s))"

text \<open>A section of memory (its buffer starts at 0) or of the spill file.\<close>

record workingSection =
  sec_spilled :: bool
  sec_base :: int
  sec_size :: int

text \<open>The spill file exists from the first section that needs it.\<close>

definition createSpill :: "workingStorage \<Rightarrow> workingStorage" where
  "createSpill s = (if ws_file s then s else
     s\<lparr>ws_file := True,
       ws_stats := addTemporaryFile ((ws_stats s)\<lparr>SpillFiles := SpillFiles (ws_stats s) + 1\<rparr>)\<rparr>)"

definition growSpill :: "int \<Rightarrow> workingStorage \<Rightarrow> workingStorage" where
  "growSpill sz s = s\<lparr>ws_stats := growTemporary sz ((ws_stats s)\<lparr>SpillBytes := SpillBytes (ws_stats s) + sz\<rparr>)\<rparr>"

text \<open>\<open>create\<close> and \<open>trunc\<close>: whether creating the spill file and growing it succeed.\<close>

definition newWorkingSection ::
  "bool \<Rightarrow> bool \<Rightarrow> int \<Rightarrow> workingStorage \<Rightarrow> workingSection result \<times> workingStorage" where
  "newWorkingSection create trunc sz s =
    (if sz < 0 then (Inl (Malformed ''negative working section size''), s) else
     if ws_closed s then (Inl OsClosed, s) else
     if sz \<le> ws_budget s - MemoryBytes (ws_stats s) - int transferBufferSize
     then (Inr \<lparr>sec_spilled = False, sec_base = 0, sec_size = sz\<rparr>, s\<lparr>ws_stats := reserve sz (ws_stats s)\<rparr>) else
     if sz > MaxInt64 - SpillBytes (ws_stats s) then (Inl (Malformed ''spill extent overflow''), s) else
     if sz > MaxInt64 - TemporaryBytes (ws_stats s) then (Inl (Malformed ''temporary extent overflow''), s) else
     if \<not> ws_file s \<and> \<not> create then (Inl (Plain ''create temporary''), s) else
     let s = createSpill s; base = SpillBytes (ws_stats s) in
     if \<not> trunc then (Inl (Plain ''truncate''), s) else
     (Inr \<lparr>sec_spilled = True, sec_base = base, sec_size = sz\<rparr>, growSpill sz s))"

section \<open>Compression stages\<close>

definition newCompressionStage :: "bool \<Rightarrow> nat \<Rightarrow> workingStorage \<Rightarrow> unit result \<times> workingStorage" where
  "newCompressionStage create i s =
    (if ws_closed s then (Inl OsClosed, s) else
     if \<not> create then (Inl (Plain ''create temporary''), s) else
     (Inr (), s\<lparr>ws_stages := (i, 0) # ws_stages s, ws_stats := addTemporaryFile (ws_stats s)\<rparr>))"

definition resizeStage :: "nat \<Rightarrow> int \<Rightarrow> (nat \<times> int) list \<Rightarrow> (nat \<times> int) list" where
  "resizeStage i extent = map (\<lambda>(j, e). (j, if j = i then extent else e))"

text \<open>
  The stage's WriteAt: \<open>len\<close> bytes requested at \<open>at\<close>, of which the file took \<open>n\<close>. A stage
  that has left the list is closed.
\<close>

definition stageWriteAt :: "nat \<Rightarrow> int \<Rightarrow> nat \<Rightarrow> nat \<Rightarrow> workingStorage \<Rightarrow> nat result \<times> workingStorage" where
  "stageWriteAt i at len n s =
    (case map_of (ws_stages s) i of None \<Rightarrow> (Inl OsClosed, s) | Some extent \<Rightarrow>
     if at < 0 \<or> at > MaxInt64 - int len then (Inl IoShortWrite, s) else
     if ws_closed s then (Inl OsClosed, s) else
     if len > 0 \<and> max (at + int len - extent) 0 > MaxInt64 - TemporaryBytes (ws_stats s)
     then (Inl (Malformed ''temporary extent overflow''), s) else
     if n > 0 \<and> at + int n > extent
     then (Inr n, s\<lparr>ws_stages := resizeStage i (at + int n) (ws_stages s),
                     ws_stats := growTemporary (at + int n - extent) (ws_stats s)\<rparr>)
     else (Inr n, s))"

definition stageClose :: "bool \<Rightarrow> nat \<Rightarrow> workingStorage \<Rightarrow> workingStorage" where
  "stageClose removed i s =
    (case map_of (ws_stages s) i of None \<Rightarrow> s | Some extent \<Rightarrow>
     s\<lparr>ws_stages := filter (\<lambda>(j, e). j \<noteq> i) (ws_stages s),
       ws_stats := (if removed
         then (ws_stats s)\<lparr>TemporaryFiles := TemporaryFiles (ws_stats s) - 1,
                           TemporaryBytes := TemporaryBytes (ws_stats s) - extent\<rparr>
         else ws_stats s)\<rparr>)"

text \<open>The stages the pool still owns are closed one after the other, then the spill file.\<close>

fun closeStages :: "(nat \<Rightarrow> bool) \<Rightarrow> nat list \<Rightarrow> workingStorage \<Rightarrow> workingStorage" where
  "closeStages removed [] s = s"
| "closeStages removed (i # is) s = closeStages removed is (stageClose (removed i) i s)"

definition closeStorage :: "(nat \<Rightarrow> bool) \<Rightarrow> bool \<Rightarrow> workingStorage \<Rightarrow> workingStorage" where
  "closeStorage removed fileRemoved s =
    (if ws_closed s then s else
     let s = closeStages removed (map fst (ws_stages s)) (s\<lparr>ws_closed := True\<rparr>);
         s = (if ws_file s \<and> fileRemoved
              then s\<lparr>ws_stats := (ws_stats s)\<lparr>TemporaryFiles := TemporaryFiles (ws_stats s) - 1,
                       TemporaryBytes := TemporaryBytes (ws_stats s) - SpillBytes (ws_stats s)\<rparr>\<rparr>
              else s) in
     s\<lparr>ws_stats := (ws_stats s)\<lparr>MemoryBytes := 0\<rparr>\<rparr>)"

section \<open>Concurrent use\<close>

text \<open>
  The pool with what its users hold: outstanding transfer buffers, the sections handed out,
  and the extents of stage files whose removal failed.
\<close>

record system =
  store :: workingStorage
  buffers :: "int list"
  sections :: "workingSection list"
  leaked :: "int list"

inductive sstep :: "system \<Rightarrow> system \<Rightarrow> bool" where
  get_buffer: "tryTransferBuffer sz (store y) = Inr (Some n, s) \<Longrightarrow>
    sstep y (y\<lparr>store := s, buffers := n # buffers y\<rparr>)"
| put_buffer: "n \<in> set (buffers y) \<Longrightarrow>
    sstep y (y\<lparr>store := release n (store y), buffers := remove1 n (buffers y)\<rparr>)"
| get_section: "newWorkingSection create trunc sz (store y) = (Inr sec, s) \<Longrightarrow>
    sstep y (y\<lparr>store := s, sections := sec # sections y\<rparr>)"
| no_section: "newWorkingSection create trunc sz (store y) = (Inl e, s) \<Longrightarrow> sstep y (y\<lparr>store := s\<rparr>)"
| open_stage: "i \<notin> fst ` set (ws_stages (store y)) \<Longrightarrow> newCompressionStage create i (store y) = (r, s) \<Longrightarrow>
    sstep y (y\<lparr>store := s\<rparr>)"
| write_stage: "n \<le> len \<Longrightarrow> stageWriteAt i at len n (store y) = (r, s) \<Longrightarrow> sstep y (y\<lparr>store := s\<rparr>)"
| close_stage: "map_of (ws_stages (store y)) i = Some extent \<Longrightarrow> \<not> ws_closed (store y) \<Longrightarrow>
    sstep y (y\<lparr>store := stageClose removed i (store y),
               leaked := (if removed then leaked y else extent # leaked y)\<rparr>)"

inductive reachable :: "int \<Rightarrow> system \<Rightarrow> bool" for memory where
  opened: "beginWorkingStorage False memory = Inr (Some s) \<Longrightarrow> memory \<le> MaxInt64 \<Longrightarrow>
    reachable memory \<lparr>store = s, buffers = [], sections = [], leaked = []\<rparr>"
| stepped: "reachable memory y \<Longrightarrow> sstep y y' \<Longrightarrow> reachable memory y'"

inductive_cases sstep_elim: "sstep y y'"

section \<open>Invariant\<close>

definition memorySections :: "system \<Rightarrow> int" where
  "memorySections y = (\<Sum>sec \<leftarrow> sections y. if sec_spilled sec then 0 else sec_size sec)"

definition stageExtents :: "workingStorage \<Rightarrow> int" where
  "stageExtents s = sum_list (map snd (ws_stages s))"

definition disjointSections :: "workingSection \<Rightarrow> workingSection \<Rightarrow> bool" where
  "disjointSections a b \<longleftrightarrow> sec_spilled a \<and> sec_spilled b \<longrightarrow>
     sec_base a + sec_size a \<le> sec_base b \<or> sec_base b + sec_size b \<le> sec_base a"

text \<open>Memory: what is reserved is what is held, within the budget, one buffer always free of sections.\<close>

definition memory_inv :: "int \<Rightarrow> system \<Rightarrow> bool" where
  "memory_inv budget y \<longleftrightarrow> (let s = store y; st = ws_stats s in
     ws_budget s = budget \<and> int transferBufferSize \<le> budget \<and>
     MemoryBytes st = sum_list (buffers y) + memorySections y \<and> MemoryBytes st \<le> budget \<and>
     MemoryBytes st \<le> PeakMemoryBytes st \<and> PeakMemoryBytes st \<le> budget \<and>
     (\<forall>n \<in> set (buffers y). 0 \<le> n \<and> n \<le> int transferBufferSize) \<and>
     0 \<le> memorySections y \<and> memorySections y \<le> budget - int transferBufferSize)"

text \<open>Sections: in bounds of the spill file and pairwise disjoint.\<close>

definition sections_inv :: "system \<Rightarrow> bool" where
  "sections_inv y \<longleftrightarrow> (let s = store y; st = ws_stats s in
     (\<forall>sec \<in> set (sections y). 0 \<le> sec_size sec \<and> 0 \<le> sec_base sec \<and>
        (sec_spilled sec \<longrightarrow> ws_file s \<and> sec_base sec + sec_size sec \<le> SpillBytes st)) \<and>
     sorted_wrt disjointSections (sections y) \<and> 0 \<le> SpillBytes st \<and> (\<not> ws_file s \<longrightarrow> SpillBytes st = 0) \<and>
     SpillFiles st = of_bool (ws_file s))"

text \<open>Files: the scratch counters are the files that exist and their extents.\<close>

definition files_inv :: "system \<Rightarrow> bool" where
  "files_inv y \<longleftrightarrow> (let s = store y; st = ws_stats s in
     TemporaryFiles st = of_bool (ws_file s) + int (length (ws_stages s)) + int (length (leaked y)) \<and>
     TemporaryBytes st = SpillBytes st + stageExtents s + sum_list (leaked y) \<and> TemporaryBytes st \<le> MaxInt64 \<and>
     distinct (map fst (ws_stages s)) \<and> (\<forall>e \<in> snd ` set (ws_stages s). 0 \<le> e) \<and> (\<forall>e \<in> set (leaked y). 0 \<le> e))"

definition storage_inv :: "int \<Rightarrow> system \<Rightarrow> bool" where
  "storage_inv budget y \<longleftrightarrow> \<not> ws_closed (store y) \<and> memory_inv budget y \<and> sections_inv y \<and> files_inv y"

lemmas stats_ops = addTemporaryFile_def growTemporary_def reserve_def
lemmas inv_defs = storage_inv_def memory_inv_def sections_inv_def files_inv_def memorySections_def stageExtents_def Let_def

lemma inv_get_buffer:
  assumes "storage_inv budget y" "tryTransferBuffer sz (store y) = Inr (Some n, s)"
  shows "storage_inv budget (y\<lparr>store := s, buffers := n # buffers y\<rparr>)"
proof -
  have "0 \<le> n" "n \<le> int transferBufferSize" "n \<le> ws_budget (store y) - MemoryBytes (ws_stats (store y))"
      "s = (store y)\<lparr>ws_stats := reserve n (ws_stats (store y))\<rparr>"
    using assms(2) by (auto simp: tryTransferBuffer_def Let_def split: if_split_asm)
  with assms(1) show ?thesis by (simp add: inv_defs stats_ops)
qed

lemma sum_list_remove1: "n \<in> set ns \<Longrightarrow> sum_list (remove1 n ns) = sum_list ns - (n :: int)"
  by (induction ns) auto

lemma inv_put_buffer:
  assumes "storage_inv budget y" "n \<in> set (buffers y)"
  shows "storage_inv budget (y\<lparr>store := release n (store y), buffers := remove1 n (buffers y)\<rparr>)"
proof -
  have "0 \<le> n" using assms by (auto simp: storage_inv_def memory_inv_def Let_def)
  moreover have "set (remove1 n (buffers y)) \<subseteq> set (buffers y)" by (rule set_remove1_subset)
  ultimately show ?thesis
    using assms by (auto simp: inv_defs release_def sum_list_remove1)
qed

lemma held_nonneg: "storage_inv budget y \<Longrightarrow> 0 \<le> sum_list (buffers y)"
  by (rule sum_list_nonneg) (auto simp: storage_inv_def memory_inv_def Let_def)

lemma inv_memory_section:
  assumes "storage_inv budget y" "0 \<le> sz" "sz \<le> budget - MemoryBytes (ws_stats (store y)) - int transferBufferSize"
  shows "storage_inv budget (y\<lparr>store := (store y)\<lparr>ws_stats := reserve sz (ws_stats (store y))\<rparr>,
    sections := \<lparr>sec_spilled = False, sec_base = 0, sec_size = sz\<rparr> # sections y\<rparr>)"
  using assms held_nonneg [OF assms(1)] by (auto simp: inv_defs stats_ops disjointSections_def)

lemma inv_createSpill: "storage_inv budget y \<Longrightarrow> storage_inv budget (y\<lparr>store := createSpill (store y)\<rparr>)"
  by (auto simp: inv_defs createSpill_def stats_ops)

lemma inv_growSpill:
  assumes "storage_inv budget y" "0 \<le> sz" "ws_file (store y)" "sz \<le> MaxInt64 - TemporaryBytes (ws_stats (store y))"
  shows "storage_inv budget (y\<lparr>store := growSpill sz (store y),
    sections := \<lparr>sec_spilled = True, sec_base = SpillBytes (ws_stats (store y)), sec_size = sz\<rparr> # sections y\<rparr>)"
  using assms by (auto simp: inv_defs growSpill_def stats_ops disjointSections_def)

lemma createSpill_simps [simp]:
  "ws_file (createSpill s)" "TemporaryBytes (ws_stats (createSpill s)) = TemporaryBytes (ws_stats s)"
  "SpillBytes (ws_stats (createSpill s)) = SpillBytes (ws_stats s)"
  by (simp_all add: createSpill_def stats_ops)

lemma inv_section:
  assumes inv: "storage_inv budget y" and new: "newWorkingSection create trunc sz (store y) = (r, s)"
  shows "storage_inv budget (case r of Inl e \<Rightarrow> y\<lparr>store := s\<rparr> | Inr sec \<Rightarrow> y\<lparr>store := s, sections := sec # sections y\<rparr>)"
proof -
  have same: "y\<lparr>store := store y\<rparr> = y" by simp
  have budget: "ws_budget (store y) = budget" using inv by (simp add: storage_inv_def memory_inv_def Let_def)
  show ?thesis
    using new inv inv_memory_section [OF inv, of sz] inv_createSpill [OF inv]
      inv_growSpill [OF inv_createSpill [OF inv], of sz]
    unfolding newWorkingSection_def Let_def budget
    by (auto simp: same split: if_split_asm)
qed

lemma inv_open_stage:
  assumes "storage_inv budget y" "newCompressionStage create i (store y) = (r, s)" "i \<notin> fst ` set (ws_stages (store y))"
  shows "storage_inv budget (y\<lparr>store := s\<rparr>)"
  using assms by (auto simp: inv_defs newCompressionStage_def stats_ops split: if_split_asm)

lemma keys_resizeStage [simp]: "map fst (resizeStage i v xs) = map fst xs"
  and length_resizeStage [simp]: "length (resizeStage i v xs) = length xs"
  by (auto simp: resizeStage_def)

lemma extents_resizeStage: "e \<in> snd ` set (resizeStage i v xs) \<Longrightarrow> e = v \<or> e \<in> snd ` set xs"
  by (auto simp: resizeStage_def split: if_split_asm)

lemma grow_stage_sum:
  "distinct (map fst xs) \<Longrightarrow> map_of xs i = Some e \<Longrightarrow>
   sum_list (map snd (resizeStage i v xs)) = sum_list (map snd xs) - e + v"
proof (induction xs)
  case (Cons x xs)
  have "resizeStage i v xs = xs" if "i \<notin> fst ` set xs"
    using that unfolding resizeStage_def by (intro map_idI) force
  moreover have "resizeStage i v (x # xs) = (fst x, if fst x = i then v else snd x) # resizeStage i v xs"
    by (simp add: resizeStage_def case_prod_unfold)
  ultimately show ?case using Cons by (cases x) (auto split: if_split_asm)
qed simp

lemma inv_write_stage:
  assumes inv: "storage_inv budget y" and wr: "stageWriteAt i at len n (store y) = (r, s)" and n: "n \<le> len"
  shows "storage_inv budget (y\<lparr>store := s\<rparr>)"
proof (cases "s = store y")
  case False
  let ?s = "store y"
  from wr False obtain extent where extent: "map_of (ws_stages ?s) i = Some extent"
    and room: "\<not> (len > 0 \<and> max (at + int len - extent) 0 > MaxInt64 - TemporaryBytes (ws_stats ?s))"
    and grown: "0 < n" "extent < at + int n"
    and s: "s = ?s\<lparr>ws_stages := resizeStage i (at + int n) (ws_stages ?s),
                   ws_stats := growTemporary (at + int n - extent) (ws_stats ?s)\<rparr>"
    by (auto simp: stageWriteAt_def split: option.split_asm if_split_asm)
  have dist: "distinct (map fst (ws_stages ?s))" and e: "0 \<le> extent"
    using inv map_of_SomeD [OF extent] by (force simp: storage_inv_def files_inv_def Let_def)+
  have fits: "TemporaryBytes (ws_stats ?s) + (at + int n - extent) \<le> MaxInt64" using room n grown by auto
  have "\<forall>e' \<in> snd ` set (resizeStage i (at + int n) (ws_stages ?s)). 0 \<le> e'"
  proof
    fix e' assume "e' \<in> snd ` set (resizeStage i (at + int n) (ws_stages ?s))"
    from extents_resizeStage [OF this] show "0 \<le> e'"
      using inv e grown by (auto simp: storage_inv_def files_inv_def Let_def)
  qed
  with inv grow_stage_sum [OF dist extent, of "at + int n"] fits show ?thesis
    by (simp add: s inv_defs stats_ops)
qed (use inv in simp)

lemma drop_stage:
  "distinct (map fst xs) \<Longrightarrow> map_of xs i = Some e \<Longrightarrow>
   sum_list (map snd (filter (\<lambda>(j, e). j \<noteq> i) xs)) = sum_list (map snd xs) - (e :: int) \<and>
   length (filter (\<lambda>(j, e). j \<noteq> i) xs) + 1 = length xs"
proof (induction xs)
  case (Cons x xs)
  have "filter (\<lambda>(j, e). j \<noteq> i) xs = xs" if "i \<notin> fst ` set xs"
    using that by (intro filter_True) force
  with Cons show ?case by (cases x) (auto split: if_split_asm)
qed simp

lemma stageClose_open:
  "map_of (ws_stages s) i = Some extent \<Longrightarrow> ws_stages (stageClose removed i s) = filter (\<lambda>(j, e). j \<noteq> i) (ws_stages s) \<and>
   ws_file (stageClose removed i s) = ws_file s \<and> ws_closed (stageClose removed i s) = ws_closed s \<and>
   ws_budget (stageClose removed i s) = ws_budget s"
  by (simp add: stageClose_def)

text \<open>Closing a stage keeps the file accounting, also while the pool itself is closing.\<close>

lemma files_close_stage:
  assumes inv: "files_inv y" and i: "map_of (ws_stages (store y)) i = Some extent"
  shows "files_inv (y\<lparr>store := stageClose removed i (store y), leaked := (if removed then leaked y else extent # leaked y)\<rparr>)"
proof -
  let ?xs = "ws_stages (store y)"
  have d: "distinct (map fst ?xs)" using inv by (simp add: files_inv_def Let_def)
  have "int (length (filter (\<lambda>(j, e). j \<noteq> i) ?xs)) = int (length ?xs) - 1"
    using drop_stage [OF d i] by linarith
  moreover have "0 \<le> extent" using inv map_of_SomeD [OF i] by (force simp: files_inv_def Let_def)
  moreover have "distinct (map fst (filter (\<lambda>(j, e). j \<noteq> i) ?xs))" using d by (rule distinct_map_filter)
  ultimately show ?thesis
    using inv i drop_stage [OF d i] by (auto simp: files_inv_def stageExtents_def stageClose_def Let_def)
qed

lemma inv_close_stage:
  assumes "storage_inv budget y" "map_of (ws_stages (store y)) i = Some extent"
  shows "storage_inv budget (y\<lparr>store := stageClose removed i (store y),
    leaked := (if removed then leaked y else extent # leaked y)\<rparr>)"
  using assms files_close_stage [of y i extent removed]
  by (auto simp: storage_inv_def memory_inv_def sections_inv_def memorySections_def stageClose_def Let_def)

lemma sstep_inv: "sstep y y' \<Longrightarrow> storage_inv budget y \<Longrightarrow> storage_inv budget y'"
proof (induction rule: sstep.induct)
  case (get_section create trunc sz y sec s)
  with inv_section [of budget y create trunc sz "Inr sec" s] show ?case by simp
next
  case (no_section create trunc sz y e s)
  with inv_section [of budget y create trunc sz "Inl e" s] show ?case by simp
qed (blast intro: inv_get_buffer inv_put_buffer inv_open_stage inv_write_stage inv_close_stage)+

definition budgetOf :: "int \<Rightarrow> int" where
  "budgetOf memory = (if memory = 0 then defaultWorkingMemory else memory)"

lemma begin_inv:
  assumes "beginWorkingStorage False memory = Inr (Some s)"
  shows "storage_inv (budgetOf memory) \<lparr>store = s, buffers = [], sections = [], leaked = []\<rparr>"
proof -
  from assms have "s = \<lparr>ws_budget = budgetOf memory, ws_stats = zeroStats, ws_file = False, ws_closed = False, ws_stages = []\<rparr>"
    "int transferBufferSize \<le> budgetOf memory"
    by (auto simp: beginWorkingStorage_def budgetOf_def Let_def split: if_split_asm)
  then show ?thesis
    by (simp add: inv_defs zeroStats_def MaxInt64_def transferBufferSize_def)
qed

lemma reachable_inv: "reachable memory y \<Longrightarrow> storage_inv (budgetOf memory) y"
  by (induction rule: reachable.induct) (auto intro: begin_inv sstep_inv)

section \<open>Closing the pool\<close>

text \<open>The extents of the stages whose removal failed during Close.\<close>

definition lostStages :: "(nat \<Rightarrow> bool) \<Rightarrow> (nat \<times> int) list \<Rightarrow> int list" where
  "lostStages removed xs = map snd (filter (\<lambda>(i, e). \<not> removed i) xs)"

lemma closeStages_files:
  "files_inv y \<Longrightarrow> is = map fst (ws_stages (store y)) \<Longrightarrow>
   (\<exists>lost. mset lost = mset (lostStages removed (ws_stages (store y))) \<and>
     files_inv (y\<lparr>store := closeStages removed is (store y), leaked := lost @ leaked y\<rparr>)) \<and>
   ws_stages (closeStages removed is (store y)) = [] \<and>
   ws_file (closeStages removed is (store y)) = ws_file (store y) \<and>
   SpillBytes (ws_stats (closeStages removed is (store y))) = SpillBytes (ws_stats (store y))"
proof (induction "is" arbitrary: y)
  case Nil
  then show ?case by (auto simp: lostStages_def intro!: exI [of _ "[]"])
next
  case (Cons i js)
  then obtain extent xs where xs: "ws_stages (store y) = (i, extent) # xs" "js = map fst xs"
    by (cases "ws_stages (store y)") auto
  have i: "map_of (ws_stages (store y)) i = Some extent" by (simp add: xs)
  have "i \<notin> fst ` set xs" using Cons.prems(1) xs by (auto simp: files_inv_def Let_def)
  then have flt: "filter (\<lambda>(j, e). j \<noteq> i) xs = xs" by (intro filter_True) force
  define y' where "y' = y\<lparr>store := stageClose (removed i) i (store y),
    leaked := (if removed i then leaked y else extent # leaked y)\<rparr>"
  have y': "files_inv y'" "ws_stages (store y') = xs" "ws_file (store y') = ws_file (store y)"
      "SpillBytes (ws_stats (store y')) = SpillBytes (ws_stats (store y))"
    using files_close_stage [OF Cons.prems(1) i, of "removed i"] flt
    by (auto simp: y'_def stageClose_def xs)
  from Cons.IH [OF y'(1)] y' xs(2) obtain lost where
      lost: "mset lost = mset (lostStages removed xs)"
        "files_inv (y'\<lparr>store := closeStages removed js (store y'), leaked := lost @ leaked y'\<rparr>)"
    and rest: "ws_stages (closeStages removed js (store y')) = []"
      "ws_file (closeStages removed js (store y')) = ws_file (store y)"
      "SpillBytes (ws_stats (closeStages removed js (store y'))) = SpillBytes (ws_stats (store y))"
    by auto
  have "store y' = stageClose (removed i) i (store y)" by (simp add: y'_def)
  with lost rest show ?case
    by (intro conjI exI [of _ "if removed i then lost else lost @ [extent]"])
      (auto simp: y'_def lostStages_def xs)
qed

lemma closeStorage_files:
  assumes inv: "storage_inv budget y"
  shows "TemporaryFiles (ws_stats (closeStorage removed fileRemoved (store y))) =
      int (length (leaked y)) + int (length (lostStages removed (ws_stages (store y)))) +
      of_bool (ws_file (store y) \<and> \<not> fileRemoved) \<and>
    TemporaryBytes (ws_stats (closeStorage removed fileRemoved (store y))) =
      sum_list (leaked y) + sum_list (lostStages removed (ws_stages (store y))) +
      (if fileRemoved then 0 else SpillBytes (ws_stats (store y))) \<and>
    MemoryBytes (ws_stats (closeStorage removed fileRemoved (store y))) = 0"
proof -
  define y0 where "y0 = y\<lparr>store := (store y)\<lparr>ws_closed := True\<rparr>\<rparr>"
  have "files_inv y0" using inv by (simp add: y0_def storage_inv_def files_inv_def stageExtents_def Let_def)
  from closeStages_files [OF this refl, of removed] obtain lost where
      lost: "mset lost = mset (lostStages removed (ws_stages (store y)))"
    and fin: "files_inv (y0\<lparr>store := closeStages removed (map fst (ws_stages (store y0))) (store y0), leaked := lost @ leaked y\<rparr>)"
    and empty: "ws_stages (closeStages removed (map fst (ws_stages (store y0))) (store y0)) = []"
    and filed: "ws_file (closeStages removed (map fst (ws_stages (store y0))) (store y0)) = ws_file (store y)"
    and spill: "SpillBytes (ws_stats (closeStages removed (map fst (ws_stages (store y0))) (store y0))) = SpillBytes (ws_stats (store y))"
    by (auto simp: y0_def)
  have "length lost = length (lostStages removed (ws_stages (store y)))"
      "sum_list lost = sum_list (lostStages removed (ws_stages (store y)))"
    using lost by (metis size_mset, metis sum_mset_sum_list)
  moreover have "\<not> ws_file (store y) \<longrightarrow> SpillBytes (ws_stats (store y)) = 0" "\<not> ws_closed (store y)"
    using inv by (auto simp: storage_inv_def sections_inv_def Let_def)
  ultimately show ?thesis
    using fin empty filed spill
    by (auto simp: closeStorage_def Let_def files_inv_def stageExtents_def y0_def)
qed

section \<open>Properties\<close>

text \<open>
  C24. In every reachable state the pool's memory counter is exactly what its users hold, and
  neither it nor its peak exceeds the budget; what sections hold leaves room for one full
  transfer buffer.
\<close>

theorem storage_budget:
  assumes "reachable memory y"
  shows "MemoryBytes (ws_stats (store y)) = sum_list (buffers y) + memorySections y \<and>
    MemoryBytes (ws_stats (store y)) \<le> PeakMemoryBytes (ws_stats (store y)) \<and>
    PeakMemoryBytes (ws_stats (store y)) \<le> budgetOf memory \<and>
    memorySections y + int transferBufferSize \<le> budgetOf memory"
  using reachable_inv [OF assms] by (auto simp: storage_inv_def memory_inv_def Let_def)

text \<open>A pool of the minimal budget with one 20-byte section, which has to spill.\<close>

definition minimalPool :: workingStorage where
  "minimalPool = \<lparr>ws_budget = 65536, ws_stats = zeroStats, ws_file = False, ws_closed = False, ws_stages = []\<rparr>"

definition spilledSystem :: system where
  "spilledSystem = \<lparr>store = snd (newWorkingSection True True 20 minimalPool), buffers = [],
     sections = [\<lparr>sec_spilled = True, sec_base = 0, sec_size = 20\<rparr>], leaked = []\<rparr>"

lemma spilledSystem_eval:
  "newWorkingSection True True 20 minimalPool =
     (Inr \<lparr>sec_spilled = True, sec_base = 0, sec_size = 20\<rparr>, snd (newWorkingSection True True 20 minimalPool))"
  by (simp add: newWorkingSection_def minimalPool_def zeroStats_def transferBufferSize_def
      MaxInt64_def createSpill_def addTemporaryFile_def Let_def)

lemma spilledSystem_reachable: "reachable 65536 spilledSystem"
proof -
  let ?y = "\<lparr>store = minimalPool, buffers = [], sections = [], leaked = []\<rparr>"
  have start: "reachable 65536 ?y"
    by (rule reachable.opened)
      (simp_all add: beginWorkingStorage_def transferBufferSize_def MaxInt64_def minimalPool_def)
  have "newWorkingSection True True 20 (store ?y) =
      (Inr \<lparr>sec_spilled = True, sec_base = 0, sec_size = 20\<rparr>, snd (newWorkingSection True True 20 minimalPool))"
    unfolding system.simps by (rule spilledSystem_eval)
  from reachable.stepped [OF start get_section [OF this]] show ?thesis
    unfolding spilledSystem_def by (simp only: system.simps)
qed

theorem storage_budget_witness: "MemoryBytes (ws_stats (store spilledSystem)) = 0"
  using storage_budget [OF spilledSystem_reachable] by (simp add: spilledSystem_def memorySections_def)

text \<open>
  Spilling cannot deadlock: a transfer buffer request on an open pool fails to be granted
  only while another buffer is outstanding, whatever sections are held, so the last holder
  to release lets the waiter proceed.
\<close>

lemma transfer_buffer_progress:
  assumes "reachable memory y" "buffers y = []" "0 \<le> sz"
  shows "\<exists>s. tryTransferBuffer sz (store y) = Inr (Some (min sz (int transferBufferSize)), s)"
  using reachable_inv [OF assms(1)] assms(2,3)
  by (auto simp: storage_inv_def memory_inv_def tryTransferBuffer_def Let_def)

text \<open>
  Sections of the spill file are in its extent and pairwise disjoint, and at most one
  spill file is ever created.
\<close>

lemma spill_sections_disjoint:
  assumes "reachable memory y"
  shows "sorted_wrt disjointSections (sections y) \<and>
    (\<forall>sec \<in> set (sections y). sec_spilled sec \<longrightarrow>
       0 \<le> sec_base sec \<and> sec_base sec + sec_size sec \<le> SpillBytes (ws_stats (store y))) \<and>
    SpillFiles (ws_stats (store y)) \<le> 1"
  using reachable_inv [OF assms] by (auto simp: storage_inv_def sections_inv_def Let_def)

text \<open>
  Close accounts for every scratch file: afterwards the counters are the files whose
  removal failed (of a stage closed earlier, of a stage Close still owned, or of the spill
  file) and their bytes, so after successful removals both are zero; no memory is reserved.
\<close>

lemma close_accounts_files:
  assumes "reachable memory y"
  shows "TemporaryFiles (ws_stats (closeStorage removed fileRemoved (store y))) =
      int (length (leaked y)) + int (length (lostStages removed (ws_stages (store y)))) +
      of_bool (ws_file (store y) \<and> \<not> fileRemoved) \<and>
    TemporaryBytes (ws_stats (closeStorage removed fileRemoved (store y))) =
      sum_list (leaked y) + sum_list (lostStages removed (ws_stages (store y))) +
      (if fileRemoved then 0 else SpillBytes (ws_stats (store y))) \<and>
    MemoryBytes (ws_stats (closeStorage removed fileRemoved (store y))) = 0"
  by (rule closeStorage_files [OF reachable_inv [OF assms]])

end
