(* ===== verification/Signature_Output.thy ===== *)
theory Signature_Output
  imports Page_Hash Signature_Props
begin

text \<open>
  signature_output.go and the section reads and writes of working_storage.go: a CodeDirectory
  is written into a zero-filled section, a SuperBlob is an output plan over its components.
  The plan's index is one buffer that the plan's first span borrows and that is filled in
  while the components are appended; the aliasing is the step \<open>aliasHeader\<close>.
\<close>

section \<open>Sections\<close>

definition sectionReadAt :: "reader_at \<Rightarrow> int \<Rightarrow> int \<Rightarrow> reader_at" where
  "sectionReadAt r base sz at want =
    (if at < 0 \<or> at > sz then ([], Some IoEOF) else
     let (got, e) = r (base + at) (min want (nat (sz - at))) in
     (got, if length got \<noteq> want \<and> e = None then Some IoEOF else e))"

definition sectionWriteAt :: "'s writer_at \<Rightarrow> int \<Rightarrow> int \<Rightarrow> 's writer_at" where
  "sectionWriteAt wr base sz s p at =
    (if at < 0 \<or> at > sz \<or> int (length p) > sz - at then (s, 0, Some IoShortWrite) else wr s p (base + at))"

lemma section_reader:
  assumes "content_reader r content" "off + n \<le> length content"
  shows "content_reader (sectionReadAt r (int off) (int n)) (slice content off n)"
proof (rule content_reader.intro)
  fix at want :: nat
  assume a: "at + want \<le> length (slice content off n)" "0 < want"
  then have want: "min want (nat (int n - int at)) = want" "\<not> int at > int n" "at + want \<le> n" by auto
  have r: "fst (r (int (off + at)) want) = slice content (off + at) want"
      "snd (r (int (off + at)) want) \<in> {None, Some IoEOF}"
    using content_reader.read_at [OF assms(1), of "off + at" want] assms(2) a want(3) by auto
  obtain got e where ge: "r (int (off + at)) want = (got, e)" by (cases "r (int (off + at)) want")
  have "length got = want" using r(1) ge assms(2) a want(3) by simp
  with r ge want show "fst (sectionReadAt r (int off) (int n) (int at) want) = slice (slice content off n) at want \<and>
      snd (sectionReadAt r (int off) (int n) (int at) want) \<in> {None, Some IoEOF}"
    by (auto simp: sectionReadAt_def slice_slice)
qed

text \<open>A sink limited by a section's bounds is a stream.\<close>

lemma section_sink:
  assumes "sink wr absorbed limit base"
  shows "stream_sink (sectionWriteAt wr base (int limit)) absorbed limit"
  unfolding stream_sink_def
proof (rule sink.intro)
  fix s and xs p :: "byte list"
  assume "absorbed s xs" "p \<noteq> []" "length xs + length p \<le> limit"
  with sink.write_ok [OF assms this]
  show "\<exists>s'. sectionWriteAt wr base (int limit) s p (0 + int (length xs)) = (s', length p, None) \<and> absorbed s' (xs @ p)"
    by (auto simp: sectionWriteAt_def)
qed

section \<open>Overwriting a buffer\<close>

definition overwrite :: "nat \<Rightarrow> byte list \<Rightarrow> byte list \<Rightarrow> byte list" where
  "overwrite off p b = take off b @ p @ drop (off + length p) b"

lemma length_overwrite [simp]: "off + length p \<le> length b \<Longrightarrow> length (overwrite off p b) = length b"
  by (simp add: overwrite_def)

lemma overwrite_Nil [simp]: "overwrite off [] b = b"
  by (simp add: overwrite_def)

lemma bufferWriteAt_overwrite:
  "off + length p \<le> length b \<Longrightarrow> rangeBufferWriteAt b p (int off) = (overwrite off p b, length p, None)"
  by (simp add: rangeBufferWriteAt_def overwrite_def Let_def)

lemma overwrite_append:
  "off + length xs + length p \<le> length b \<Longrightarrow>
   overwrite (off + length xs) p (overwrite off xs b) = overwrite off (xs @ p) b"
  by (simp add: overwrite_def ac_simps)

section \<open>The directory prefix\<close>

fun writeNames :: "'s writer_at \<Rightarrow> 's \<Rightarrow> int \<Rightarrow> gostring list \<Rightarrow> 's \<times> error option" where
  "writeNames wr s base [] = (s, None)"
| "writeNames wr s base (name # names) =
    (case transferOutput (sectionWriteAt wr base (int (length name))) s (byteOutput name) of
       (s, Some e) \<Rightarrow> (s, Some e)
     | (s, None) \<Rightarrow> writeNames wr s (base + int (length name) + 1) names)"

definition writeDirectoryPrefix ::
  "'s writer_at \<Rightarrow> 's \<Rightarrow> byte list \<Rightarrow> gostring \<Rightarrow> gostring \<Rightarrow> 's \<times> error option" where
  "writeDirectoryPrefix wr s header name team =
    (case wr s header 0 of (s, _, Some e) \<Rightarrow> (s, Some e) | (s, _, None) \<Rightarrow>
     writeNames wr s (int (length header)) [name, team])"

lemma slice_overwrite_same: "off + length p \<le> length b \<Longrightarrow> slice (overwrite off p b) off (length p) = p"
  by (simp add: overwrite_def slice_def)

lemma slice_overwrite_before: "at + n \<le> off \<Longrightarrow> off + length p \<le> length b \<Longrightarrow> slice (overwrite off p b) at n = slice b at n"
  by (simp add: overwrite_def slice_def drop_take min_absorb1)

lemma slice_overwrite_after:
  assumes "off + length p \<le> at" "off + length p \<le> length b"
  shows "slice (overwrite off p b) at n = slice b at n"
proof -
  have "drop at (overwrite off p b) = drop (at - (off + length p)) (drop (off + length p) b)"
    using assms by (simp add: overwrite_def)
  then show ?thesis using assms(1) by (simp add: slice_def)
qed

text \<open>
  A writer whose state is a fixed buffer: a write in bounds replaces exactly its range. Unlike
  \<open>sink\<close>, this contract also fixes what lies outside the range.
\<close>

locale overwriter =
  fixes wr :: "byte list writer_at" and room :: nat
  assumes overwrites: "off + length p \<le> room \<Longrightarrow> length b = room \<Longrightarrow>
    wr b p (int off) = (overwrite off p b, length p, None)"
begin

lemma region_sink:
  assumes "off + n \<le> room" "length b0 = room"
  shows "sink wr (\<lambda>b xs. b = overwrite off xs b0 \<and> length xs \<le> n) n (int off)"
proof (rule sink.intro)
  fix b xs p :: "byte list"
  assume a: "b = overwrite off xs b0 \<and> length xs \<le> n" "p \<noteq> []" "length xs + length p \<le> n"
  then have "wr b p (int (off + length xs)) = (overwrite (off + length xs) p b, length p, None)"
    using assms by (intro overwrites) auto
  moreover have "overwrite (off + length xs) p b = overwrite off (xs @ p) b0"
    using a assms by (simp add: overwrite_append)
  ultimately show "\<exists>s'. wr b p (int off + int (length xs)) = (s', length p, None) \<and>
      s' = overwrite off (xs @ p) b0 \<and> length (xs @ p) \<le> n"
    using a by auto
qed

lemma name_write:
  assumes "off + length name \<le> room" "length b = room" "int room \<le> MaxInt64"
  shows "transferOutput (sectionWriteAt wr (int off) (int (length name))) b (byteOutput name) = (overwrite off name b, None)"
proof -
  have "delivers (byteOutput name) name" using assms by (intro byteOutput_delivers) simp
  from stream_sink.transferOutput_copies [OF section_sink [OF region_sink [OF assms(1,2)]] this order_refl, of b]
  show ?thesis by auto
qed

lemma directoryPrefix_content:
  assumes "length header + length name + 1 + length team \<le> room" "length b = room" "int room \<le> MaxInt64"
  shows "writeDirectoryPrefix wr b header name team =
    (overwrite (length header + length name + 1) team
       (overwrite (length header) name (overwrite 0 header b)), None)"
proof -
  let ?b1 = "overwrite 0 header b" and ?b2 = "overwrite (length header) name (overwrite 0 header b)"
  have header: "wr b header 0 = (?b1, length header, None)"
    using assms overwrites [of 0 header b] by simp
  have named: "transferOutput (sectionWriteAt wr (int (length header)) (int (length name)))
      ?b1 (byteOutput name) = (?b2, None)"
    using assms by (intro name_write) simp_all
  have at: "int (length header) + int (length name) + 1 = int (length header + length name + 1)" by simp
  have team: "transferOutput (sectionWriteAt wr
      (int (length header) + int (length name) + 1) (int (length team))) ?b2 (byteOutput team) =
      (overwrite (length header + length name + 1) team ?b2, None)"
    unfolding at using assms by (intro name_write) simp_all
  show ?thesis
    by (simp only: writeDirectoryPrefix_def writeNames.simps header named team prod.case option.case)
qed

text \<open>On zeros: header, name, NUL, team, and zeros to the end.\<close>

lemma directoryPrefix_layout:
  assumes "length header + length name + 1 + length team \<le> room" "int room \<le> MaxInt64"
  shows "writeDirectoryPrefix wr (replicate room 0) header name team =
    (header @ name @ [0] @ team @ replicate (room - (length header + length name + 1 + length team)) 0, None)"
  using directoryPrefix_content [OF assms(1) _ assms(2), of "replicate room 0"] assms
  by (simp add: overwrite_def add.assoc flip: replicate_append_same)

end

interpretation buffer_overwrites: overwriter rangeBufferWriteAt room for room :: nat
  by unfold_locales (simp add: bufferWriteAt_overwrite)

interpretation section_overwrites: overwriter "sectionWriteAt rangeBufferWriteAt 0 (int room)" room for room :: nat
  by unfold_locales (simp add: sectionWriteAt_def bufferWriteAt_overwrite)

section \<open>The SuperBlob output\<close>

record signatureSection =
  secSlot :: nat
  secData :: outputSource

text \<open>The loop: previous slot, length so far, plan and index entries so far.\<close>

fun outputSections ::
  "nat option \<Rightarrow> nat \<Rightarrow> signatureSection list \<Rightarrow> outputPlan \<Rightarrow> byte list \<Rightarrow> (nat \<times> outputPlan \<times> byte list) result"
where
  "outputSections prev len [] p idx = Inr (len, p, idx)"
| "outputSections prev len (s # ss) p idx =
    (if srcSize (secData s) < 8 \<or> srcSize (secData s) > 2 ^ 32 - 1 - int len
     then Inl (Malformed ''signature component exceeds 32-bit length'') else
     if prev = Some (secSlot s) then Inl (Malformed ''duplicate signature output slot'') else
     rbind (append_plan p (secData s)) (\<lambda>p.
     outputSections (Some (secSlot s)) (len + nat (srcSize (secData s))) ss p
       (idx @ put32 (secSlot s) @ put32 len)))"

definition aliasHeader :: "byte list \<Rightarrow> outputPlan \<Rightarrow> outputPlan" where
  "aliasHeader header p = p\<lparr>planSpans := (case planSpans p of [] \<Rightarrow> [] | s # ss \<Rightarrow> s\<lparr>source := byteOutput header\<rparr> # ss)\<rparr>"

definition superblobOutput :: "nat \<Rightarrow> signatureSection list \<Rightarrow> outputSource result" where
  "superblobOutput magic sections =
    (let ss = sort_key secSlot sections; n = length ss in
     if n > (2 ^ 32 - 1 - 12) div 8 then Inl (Malformed ''signature index exceeds 32-bit length'') else
     rbind (append_plan emptyPlan (byteOutput (replicate (12 + 8 * n) 0))) (\<lambda>p.
     rbind (outputSections None (12 + 8 * n) ss p []) (\<lambda>(len, p, idx).
     Inr (planOutput (aliasHeader (put32 magic @ put32 len @ put32 n @ idx) p)))))"

text \<open>A plan that starts with the span of an \<open>n\<close>-byte header, followed by \<open>xs\<close>.\<close>

definition headed :: "nat \<Rightarrow> byte list \<Rightarrow> outputPlan \<Rightarrow> bool" where
  "headed n xs p \<longleftrightarrow> (\<exists>s ss cs. planSpans p = s # ss \<and> start s = 0 \<and>
     spans_at (int n) ss cs \<and> xs = concat cs \<and> planSize p = int (n + length xs) \<and> planSize p \<le> MaxInt64)"

lemma headed_append:
  assumes p: "headed n xs p" and src: "delivers src c" and fit: "int (n + length xs + length c) \<le> MaxInt64"
  shows "\<exists>p'. append_plan p src = Inr p' \<and> headed n (xs @ c) p'"
proof -
  from p obtain s ss cs where h: "planSpans p = s # ss" "start s = 0" "spans_at (int n) ss cs" "xs = concat cs"
      "planSize p = int (n + length xs)"
    by (auto simp: headed_def)
  have r: "\<not> badRange src" "srcSize src = int (length c)" using delivers_range [OF src] by simp_all
  have "reader src \<noteq> None" using src by (auto simp: delivers_def)
  note r = r this
  show ?thesis
  proof (cases "c = []")
    case True
    with r h p fit show ?thesis by (auto simp: append_plan_def badRange_def)
  next
    case False
    have more: "spans_at (int n) (ss @ [\<lparr>start = planSize p, source = src\<rparr>]) (cs @ [c])"
      using spans_at_snoc [OF h(3) _ False src] h by simp
    moreover have "append_plan p src = Inr \<lparr>planSpans = s # ss @ [\<lparr>start = planSize p, source = src\<rparr>],
        planSize = planSize p + srcSize src\<rparr>"
    proof -
      have "\<not> (offset src < 0 \<or> srcSize src < 0 \<or> offset src > MaxInt64 - srcSize src \<or>
          planSize p > MaxInt64 - srcSize src \<or> srcSize src > 0 \<and> reader src = None)" "srcSize src \<noteq> 0"
        using r h(5) fit False by (auto simp: badRange_def)
      then show ?thesis by (simp add: append_plan_def h(1))
    qed
    moreover have "headed n (xs @ c) \<lparr>planSpans = s # ss @ [\<lparr>start = planSize p, source = src\<rparr>],
        planSize = planSize p + srcSize src\<rparr>" (is "headed n _ ?p")
      unfolding headed_def
      by (rule exI [of _ s], rule exI [of _ "ss @ [\<lparr>start = planSize p, source = src\<rparr>]"], rule exI [of _ "cs @ [c]"])
        (use h(2,4,5) r(2) fit more in simp)
    ultimately show ?thesis by blast
  qed
qed

lemma headed_alias:
  assumes "headed n xs p" "length header = n" "0 < n"
  shows "plan_content (aliasHeader header p) (header @ xs)"
proof -
  from assms(1) obtain s ss cs where h: "planSpans p = s # ss" "start s = 0" "spans_at (int n) ss cs" "xs = concat cs"
      "planSize p = int (n + length xs)" "planSize p \<le> MaxInt64"
    by (auto simp: headed_def)
  have "delivers (byteOutput header) header" using h assms(2) by (intro byteOutput_delivers) simp
  with h assms show ?thesis
    by (auto simp: plan_content_def aliasHeader_def intro!: exI [of _ "header # cs"])
qed

lemma headed_start:
  assumes "0 < length h" "int (length h) \<le> MaxInt64"
  shows "\<exists>p. append_plan emptyPlan (byteOutput h) = Inr p \<and> headed (length h) [] p"
proof (intro exI conjI)
  let ?s = "\<lparr>start = 0, source = byteOutput h\<rparr>"
  let ?p = "\<lparr>planSpans = [?s], planSize = int (length h)\<rparr>"
  show "append_plan emptyPlan (byteOutput h) = Inr ?p"
    using assms by (auto simp: append_plan_def emptyPlan_def byteOutput_def)
  show "headed (length h) [] ?p" unfolding headed_def
    by (rule exI [of _ ?s], rule exI [of _ "[]"], rule exI [of _ "[]"]) (use assms in simp)
qed

lemma outputSections_content:
  assumes small: "int (n + 2 ^ 32) \<le> MaxInt64"
  shows "headed n xs p \<Longrightarrow> len = n + length xs \<Longrightarrow>
    list_all2 (\<lambda>s b. secSlot s = Slot b \<and> delivers (secData s) (Data b)) ss bs \<Longrightarrow>
    \<forall>b \<in> set bs. 8 \<le> length (Data b) \<Longrightarrow> len + sum_list (map (\<lambda>b. length (Data b)) bs) < 2 ^ 32 \<Longrightarrow>
    distinct (map Slot bs) \<Longrightarrow> (\<forall>k. prev = Some k \<longrightarrow> k \<notin> set (map Slot bs)) \<Longrightarrow>
    \<exists>p'. outputSections prev len ss p idx =
        Inr (len + sum_list (map (\<lambda>b. length (Data b)) bs), p', idx @ sb_index len bs) \<and>
      headed n (xs @ concat (map Data bs)) p'"
proof (induction bs arbitrary: prev len ss p idx xs)
  case (Cons b bs)
  then obtain s ss' where ss: "ss = s # ss'" "secSlot s = Slot b" "delivers (secData s) (Data b)"
      "list_all2 (\<lambda>s b. secSlot s = Slot b \<and> delivers (secData s) (Data b)) ss' bs"
    by (auto simp: list_all2_Cons2)
  have size: "srcSize (secData s) = int (length (Data b))" using ss(3) delivers_range by blast
  have "int (n + length xs + length (Data b)) \<le> MaxInt64" using Cons.prems(2,5) small by simp
  from headed_append [OF Cons.prems(1) ss(3) this] obtain p1 where
      p1: "append_plan p (secData s) = Inr p1" "headed n (xs @ Data b) p1" by blast
  have step: "outputSections prev len ss p idx =
      outputSections (Some (Slot b)) (len + length (Data b)) ss' p1 (idx @ put32 (Slot b) @ put32 len)"
    using Cons.prems(4,5,7) p1(1) ss(1,2) size by auto
  from Cons.IH [OF p1(2) _ ss(4), of "len + length (Data b)" "Some (Slot b)" "idx @ put32 (Slot b) @ put32 len"]
  show ?case using Cons.prems unfolding step by (auto simp: add.assoc)
qed (simp add: list_all2_Nil2)

definition sectionsOf :: "signatureSection list \<Rightarrow> Blob list \<Rightarrow> bool" where
  "sectionsOf ss bs \<longleftrightarrow> list_all2 (\<lambda>s b. secSlot s = Slot b \<and> delivers (secData s) (Data b)) ss bs"

lemma insort_key_all2:
  "list_all2 P xs ys \<Longrightarrow> P x y \<Longrightarrow> (\<And>x y. P x y \<Longrightarrow> f x = g y) \<Longrightarrow>
   list_all2 P (insort_key f x xs) (insort_key g y ys)"
  by (induction rule: list_all2_induct) auto

lemma sort_key_all2:
  "list_all2 P xs ys \<Longrightarrow> (\<And>x y. P x y \<Longrightarrow> f x = g y) \<Longrightarrow> list_all2 P (sort_key f xs) (sort_key g ys)"
  by (induction rule: list_all2_induct) (auto simp: sort_key_def intro: insort_key_all2)

lemma superblobOutput_content:
  assumes ss: "sectionsOf ss bs" and bs: "distinct (map Slot bs)" "\<forall>b \<in> set bs. 8 \<le> length (Data b)"
    and len: "superblobLength bs < 2 ^ 32"
  shows "\<exists>out. superblobOutput magic ss = Inr out \<and> delivers out (superblob magic bs)"
proof -
  let ?ss = "sort_key secSlot ss" and ?bs = "sort_key Slot bs" and ?n = "12 + 8 * length bs"
  have sorted: "list_all2 (\<lambda>s b. secSlot s = Slot b \<and> delivers (secData s) (Data b)) ?ss ?bs"
    using ss unfolding sectionsOf_def by (rule sort_key_all2) simp
  have n: "length ss = length bs" using ss by (auto simp: sectionsOf_def dest: list_all2_lengthD)
  have total: "?n + sum_list (map (\<lambda>b. length (Data b)) ?bs) < 2 ^ 32"
    using len superblobLength_sort [of bs] by (simp add: superblobLength_def)
  then have small: "length bs \<le> (2 ^ 32 - 1 - 12) div 8" by simp
  have zeros: "delivers (byteOutput (replicate ?n 0)) (replicate ?n 0)"
    using total by (intro byteOutput_delivers) (simp add: MaxInt64_def)
  have "0 < length (replicate ?n (0 :: byte))" "int (length (replicate ?n (0 :: byte))) \<le> MaxInt64"
    using total by (simp_all add: MaxInt64_def)
  from headed_start [OF this] obtain p0 where
      p0: "append_plan emptyPlan (byteOutput (replicate ?n 0)) = Inr p0" "headed ?n [] p0"
    unfolding length_replicate by blast
  have fit: "int (?n + 2 ^ 32) \<le> MaxInt64" using total by (simp add: MaxInt64_def)
  from outputSections_content [OF fit p0(2) _ sorted, of ?n None "[]"] total bs obtain p1 where
      p1: "outputSections None ?n ?ss p0 [] = Inr (?n + sum_list (map (\<lambda>b. length (Data b)) ?bs), p1, sb_index ?n ?bs)"
        "headed ?n (concat (map Data ?bs)) p1"
    by (auto simp: distinct_map)
  let ?h = "put32 magic @ put32 (?n + sum_list (map (\<lambda>b. length (Data b)) ?bs)) @ put32 (length bs) @ sb_index ?n ?bs"
  have "plan_content (aliasHeader ?h p1) (?h @ concat (map Data ?bs))"
    by (rule headed_alias [OF p1(2)]) simp_all
  moreover have "?h @ concat (map Data ?bs) = superblob magic bs"
    by (simp add: superblob_def Let_def length_concat comp_def)
  moreover have "superblobOutput magic ss = Inr (planOutput (aliasHeader ?h p1))"
    using n small p0(1) p1(1) by (simp add: superblobOutput_def Let_def)
  ultimately show ?thesis using plan_delivers by metis
qed

section \<open>Properties\<close>

text \<open>
  C20. The streamed SuperBlob is the in-memory one: for component sources that deliver the
  components' bytes, with distinct slots and a total that fits 32 bits, superblobOutput
  succeeds and delivers exactly what superblob builds, whatever order they were given in.
\<close>

theorem superblobOutput_delivers:
  assumes "sectionsOf ss bs" "distinct (map Slot bs)" "\<forall>b \<in> set bs. 8 \<le> length (Data b)"
    "superblobLength bs < 2 ^ 32"
  shows "\<exists>out. superblobOutput magic ss = Inr out \<and> delivers out (superblob magic bs)"
  using assms by (rule superblobOutput_content)

theorem superblobOutput_delivers_witness:
  "\<exists>out. superblobOutput MagicSignature (map (\<lambda>b. \<lparr>secSlot = Slot b, secData = byteOutput (Data b)\<rparr>) sampleBlobs) = Inr out \<and>
     delivers out sampleSignature"
  unfolding sampleSignature_def
proof (rule superblobOutput_delivers)
  have ok: "components_ok sampleBlobs" by (rule sample_components)
  then show "distinct (map Slot sampleBlobs)" "superblobLength sampleBlobs < 2 ^ 32"
    by (simp_all add: components_ok_def)
  show "\<forall>b \<in> set sampleBlobs. 8 \<le> length (Data b)"
    by (auto simp: sampleBlobs_def sampleDirectory_def superblob_def Let_def)
  have "int (length (Data b)) \<le> MaxInt64" if "b \<in> set sampleBlobs" for b
    using that by (auto simp: sampleBlobs_def sampleDirectory_def superblob_def Let_def MaxInt64_def)
  then show "sectionsOf (map (\<lambda>b. \<lparr>secSlot = Slot b, secData = byteOutput (Data b)\<rparr>) sampleBlobs) sampleBlobs"
    unfolding sectionsOf_def by (auto simp: list_all2_conv_all_nth intro: byteOutput_delivers)
qed

text \<open>
  A CodeDirectory's header and names land where its offsets say: in a zero-filled section
  the header, the name after it and the team name one byte after the
  name's end, every other byte still zero.
\<close>

lemma writeDirectoryPrefix_layout:
  assumes "length header + length name + 1 + length team \<le> n" "int n \<le> MaxInt64"
  shows "writeDirectoryPrefix rangeBufferWriteAt (replicate n 0) header name team =
    (header @ name @ [0] @ team @ replicate (n - (length header + length name + 1 + length team)) 0, None)"
  using assms by (rule buffer_overwrites.directoryPrefix_layout)

end
