(* ===== verification/MachO_Rewrite.thy ===== *)
theory MachO_Rewrite
  imports Signature_Output MachO_Props
begin

text \<open>
  macho_commands.go, remove.go and macho_source.go: the load commands of a signed or stripped
  image as patches over the borrowed source, and the reassembly of a universal file. Sizes
  are the source's uint64 and uint32 values, the wrap-around written out.
\<close>

section \<open>Writes into a header\<close>

text \<open>\<open>order.PutUint32(b[off:], v)\<close> and the 64-bit form: the value is truncated, the slice checked.\<close>

definition ordWr :: "byte_order \<Rightarrow> nat \<Rightarrow> byte list \<Rightarrow> nat \<Rightarrow> nat \<Rightarrow> byte list result" where
  "ordWr ord k b off v = (if off + k \<le> length b then Inr (overwrite off (ord_put ord k v) b) else Inl Panic)"

lemma ordWr_ok [simp]: "off + k \<le> length b \<Longrightarrow> ordWr ord k b off v = Inr (overwrite off (ord_put ord k v) b)"
  by (simp add: ordWr_def)

text \<open>The command count and size of a header.\<close>

definition recount :: "byte_order \<Rightarrow> byte list \<Rightarrow> nat \<Rightarrow> nat \<Rightarrow> byte list result" where
  "recount ord header cnt bytes = rbind (ordWr ord 4 header 16 cnt) (\<lambda>h. ordWr ord 4 h 20 bytes)"

section \<open>Signing commands\<close>

definition commandsEnd :: "image \<Rightarrow> nat" where
  "commandsEnd im = im_header im + im_commandBytes im"

text \<open>\<open>(n + 16383) &^ 16383\<close> on a \<open>w\<close>-bit integer.\<close>

definition roundPage :: "nat \<Rightarrow> nat \<Rightarrow> nat" where
  "roundPage w n = (n mod 2 ^ w + 16383) mod 2 ^ w div 16384 * 16384"

text \<open>The new size of LINKEDIT is a uint64 difference.\<close>

definition linkeditSize :: "image \<Rightarrow> nat \<Rightarrow> nat" where
  "linkeditSize im fin = (fin + 2 ^ 64 - im_linkStart im) mod 2 ^ 64"

text \<open>A LINKEDIT that starts after the new end wraps to a size no file has.\<close>

lemma linkeditSize_wraps:
  "fin < im_linkStart im \<Longrightarrow> im_linkStart im < 2 ^ 64 \<Longrightarrow>
   linkeditSize im fin = 2 ^ 64 - (im_linkStart im - fin) \<and> \<not> rangeOK (im_linkStart im) (linkeditSize im fin) fin"
  by (auto simp: linkeditSize_def rangeOK_def)

definition linkeditFields :: "image \<Rightarrow> nat \<Rightarrow> (nat \<times> byte list) list" where
  "linkeditFields im fin =
    (let ord = im_order im; at = nat (im_linkedit im); n = linkeditSize im fin in
     if im_linkeditKind im = 0x19
     then [(at + 32, ord_put ord 8 (roundPage 64 n)), (at + 48, ord_put ord 8 n)]
     else [(at + 28, ord_put ord 4 (roundPage 32 n) @ ord_put ord 4 (im_linkStart im) @ ord_put ord 4 n)])"

definition signatureBytes :: "byte_order \<Rightarrow> nat \<Rightarrow> nat \<Rightarrow> byte list" where
  "signatureBytes ord codeEnd sigSize =
     ord_put ord 4 0x1d @ ord_put ord 4 16 @ ord_put ord 4 codeEnd @ ord_put ord 4 sigSize"

definition bytePatch :: "nat \<times> byte list \<Rightarrow> outputSpan" where
  "bytePatch = (\<lambda>(at, bs). \<lparr>start = int at, source = byteOutput bs\<rparr>)"

text \<open>The header to write and the place of the signature command.\<close>

definition commandPlace :: "image \<Rightarrow> outputSource \<Rightarrow> byte list \<Rightarrow> (byte list \<times> nat) result" where
  "commandPlace im src header =
    (if im_sigCommand im \<ge> 0 then Inr (header, nat (im_sigCommand im)) else
     rbind (codeRead src (commandsEnd im) 16) (\<lambda>padding.
     if commandsEnd im + 16 > im_firstSection im \<or> padding \<noteq> replicate 16 0
     then Inl (Unsupported ''no room for LC_CODE_SIGNATURE'') else
     rbind (recount (im_order im) header (im_commandCount im + 1) (im_commandBytes im + 16)) (\<lambda>h.
     Inr (h, commandsEnd im))))"

definition signingCommandOutput :: "image \<Rightarrow> outputSource \<Rightarrow> nat \<Rightarrow> nat \<Rightarrow> nat \<Rightarrow> outputSource result" where
  "signingCommandOutput im src codeEnd sigSize fin =
    (if int (commandsEnd im + (if im_sigCommand im < 0 then 16 else 0)) > srcSize src
     then Inl (Unsupported ''no room for LC_CODE_SIGNATURE'') else
     rbind (codeRead src 0 (im_header im)) (\<lambda>header.
     rbind (commandPlace im src header) (\<lambda>(header, pos).
     patchedOutput src (int fin) (sort_key start (map bytePatch
       ([(0, header), (pos, signatureBytes (im_order im) codeEnd sigSize)] @ linkeditFields im fin))))))"

section \<open>Removal\<close>

text \<open>The end of the stripped image: the symbol strings decide about alignment padding.\<close>

definition removalEnd :: "image \<Rightarrow> nat result" where
  "removalEnd im =
    (let sym = im_symbols im; fin = im_sigOffset im; entry = (if im_header im = 32 then 16 else 12);
         stringsEnd = sy_strings sym + sy_stringSize sym; symbolsEnd = sy_symbols sym + sy_count sym * entry in
     if im_linkStart im > fin then Inl (Malformed ''signature precedes LINKEDIT'') else
     if \<not> sy_present sym then Inr fin else
     if sy_size sym \<noteq> 24 then Inl (Malformed ''symbol table command'') else
     if \<not> rangeOK (sy_strings sym) (sy_stringSize sym) fin \<or>
        sy_stringSize sym \<noteq> 0 \<and> sy_strings sym < max (im_linkStart im) (commandsEnd im) \<or>
        \<not> rangeOK (sy_symbols sym) (sy_count sym * entry) fin \<or> sy_count sym \<noteq> 0 \<and> sy_symbols sym < im_linkStart im
     then Inl (Malformed ''symbol table range during removal'') else
     rbind (if fin > stringsEnd \<and> fin - stringsEnd \<le> 12 then
              if stringsEnd < im_linkStart im \<or> symbolsEnd > stringsEnd
              then Inl (Malformed ''symbol table overlaps alignment padding'') else Inr stringsEnd
            else Inr fin) (\<lambda>fin.
     if sy_duplicate sym then Inl (Malformed ''symbol table command'') else Inr fin))"

definition removeImageSource :: "image \<Rightarrow> outputSource \<Rightarrow> outputSource result" where
  "removeImageSource im src =
    (if im_filetype im \<notin> {2, 6, 7, 8, 11} then Inl (Unsupported ''Mach-O file type for signature removal'') else
     if im_linkedit im < 0 then Inl (Malformed ''missing LINKEDIT'') else
     if im_sigCommand im < 0 then Inr src else
     if (srcSize src - int (im_sigOffset im) - int (im_sigSize im)) mod 2 ^ 64 > 7
     then Inl (Unsupported ''signature is not at end of slice'') else
     rbind (removalEnd im) (\<lambda>fin.
     if fin < commandsEnd im then Inl (Malformed ''removal overlaps load commands'') else
     rbind (codeRead src 0 (im_header im)) (\<lambda>header.
     rbind (recount (im_order im) header (im_commandCount im + 2 ^ 32 - 1) (im_commandBytes im + 2 ^ 32 - 16)) (\<lambda>h.
     rbind (patchedOutput src (int fin)
       [\<lparr>start = 0, source = byteOutput h\<rparr>,
        \<lparr>start = im_sigCommand im,
         source = \<lparr>reader = reader src, offset = offset src + im_sigCommand im + 16,
                   srcSize = int (commandsEnd im) - im_sigCommand im - 16\<rparr>\<rparr>,
        \<lparr>start = int (commandsEnd im) - 16, source = \<lparr>reader = Some zeroReadAt, offset = 0, srcSize = 16\<rparr>\<rparr>]) (\<lambda>shifted.
     let p = (if im_linkedit im > im_sigCommand im then im_linkedit im - 16 else im_linkedit im) in
     patchedOutput shifted (int fin)
       [bytePatch (if im_linkeditKind im = 0x19 then (nat (p + 48), ord_put (im_order im) 8 (fin - im_linkStart im))
                   else (nat (p + 36), ord_put (im_order im) 4 (fin - im_linkStart im)))])))))"

section \<open>Universal files\<close>

definition allocationError :: "string \<Rightarrow> error" where
  "allocationError detail = VerificationFailure ''internal error in Code Signing subsystem'' [] True (Unsupported detail)"

text \<open>The index fields of slice \<open>i\<close>: offset, size and alignment at the entry's width.\<close>

definition indexFields :: "bool \<Rightarrow> byte_order \<Rightarrow> nat \<Rightarrow> nat \<Rightarrow> nat \<Rightarrow> nat \<Rightarrow> byte list \<Rightarrow> byte list result" where
  "indexFields wide ord at off n alignment header =
    (let k = (if wide then 8 else 4) in
     rbind (ordWr ord k header (at + 8) off) (\<lambda>h. rbind (ordWr ord k h (at + 8 + k) n) (\<lambda>h.
     ordWr ord 4 h (at + 8 + 2 * k) alignment)))"

fun assembleLoop :: "bool \<Rightarrow> byte_order \<Rightarrow> nat \<Rightarrow> (outputSource \<times> nat) list \<Rightarrow> outputPlan \<Rightarrow> byte list
    \<Rightarrow> (outputPlan \<times> byte list) result" where
  "assembleLoop wide ord i [] p header = Inr (p, header)"
| "assembleLoop wide ord i ((part, alignment) # parts) p header =
    rbind (append_plan p \<lparr>reader = Some zeroReadAt, offset = 0, srcSize = (- planSize p) mod 2 ^ alignment\<rparr>) (\<lambda>p.
    let off = planSize p in
    rbind (append_plan p part) (\<lambda>p.
    if \<not> wide \<and> planSize p > 2 ^ 32 - 1 then Inl (allocationError ''universal file exceeds 32-bit offsets'') else
    rbind (indexFields wide ord (8 + i * (if wide then 32 else 20)) (nat off) (nat (srcSize part)) alignment header) (\<lambda>header.
    assembleLoop wide ord (Suc i) parts p header)))"

text \<open>As in superblobOutput, the plan's first span borrows the header that the loop fills in.\<close>

definition assembleSources :: "container \<Rightarrow> (outputSource \<times> nat) list \<Rightarrow> outputSource result" where
  "assembleSources c parts =
    (if \<not> co_fat c then (case parts of [] \<Rightarrow> Inl Panic | part # _ \<Rightarrow> Inr (fst part)) else
     rbind (slice_at (co_data c) 0 (8 + length parts * (if co_fat64 c then 32 else 20))) (\<lambda>header.
     rbind (append_plan emptyPlan (byteOutput header)) (\<lambda>p.
     rbind (assembleLoop (co_fat64 c) (co_order c) 0 parts p header) (\<lambda>(p, header).
     Inr (planOutput (aliasHeader header p))))))"

text \<open>
  The loop of mutateSource: the rewritten slice and its new alignment. \<open>None\<close> removes,
  \<open>Some sign\<close> signs.
\<close>

fun mutateSlices :: "bool \<Rightarrow> (image \<Rightarrow> outputSource \<Rightarrow> outputSource result) option \<Rightarrow> outputSource \<Rightarrow> archSlice list
    \<Rightarrow> (outputSource \<times> nat) list result" where
  "mutateSlices fat sign src [] = Inr []"
| "mutateSlices fat sign src (s # ss) =
    (let part = \<lparr>reader = reader src, offset = offset src + int (sl_offset s), srcSize = int (sl_size s)\<rparr> in
     rbind (case sign of
        None \<Rightarrow> rbind (removeImageSource (sl_image s) part) (\<lambda>r. Inr (r, if fat then 14 else sl_alignment s))
      | Some f \<Rightarrow> (case f (sl_image s) part of
            Inl e \<Rightarrow> Inl (Wrapped ''architecture'' e)
          | Inr r \<Rightarrow> Inr (r, if fat \<and> sl_alignment s < 14 then 14 else sl_alignment s))) (\<lambda>r.
     rbind (mutateSlices fat sign src ss) (\<lambda>rs. Inr (r # rs))))"

definition mutateSource :: "(image \<Rightarrow> outputSource \<Rightarrow> outputSource result) option \<Rightarrow> container \<Rightarrow> outputSource \<Rightarrow> outputSource result" where
  "mutateSource sign c src =
    (if srcSize src > 2 ^ 32 - 1 then Inl (allocationError ''Mach-O input exceeds 32-bit allocation size'') else
     rbind (mutateSlices (co_fat c) sign src (co_slices c)) (assembleSources c))"

section \<open>Patches in order\<close>

definition disjointPatch :: "nat \<times> byte list \<Rightarrow> nat \<times> byte list \<Rightarrow> bool" where
  "disjointPatch p q \<longleftrightarrow> fst p + length (snd p) \<le> fst q \<or> fst q + length (snd q) \<le> fst p"

lemma disjointPatch_sym: "disjointPatch p q \<Longrightarrow> disjointPatch q p"
  by (auto simp: disjointPatch_def)

lemma sorted_wrt_insort:
  "sorted_wrt R xs \<Longrightarrow> (\<And>a b. R a b \<Longrightarrow> R b a) \<Longrightarrow> \<forall>y \<in> set xs. R x y \<Longrightarrow> sorted_wrt R (insort_key f x xs)"
  by (induction xs) (auto simp: set_insort_key)

lemma sorted_wrt_sort_key:
  "sorted_wrt R xs \<Longrightarrow> (\<And>a b. R a b \<Longrightarrow> R b a) \<Longrightarrow> sorted_wrt R (sort_key f xs)"
  by (induction xs) (auto simp: sort_key_def intro!: sorted_wrt_insort simp flip: sort_key_def)

lemma valid_patches_sorted:
  "sorted (map fst ps) \<Longrightarrow> sorted_wrt disjointPatch ps \<Longrightarrow>
   \<forall>p \<in> set ps. snd p \<noteq> [] \<and> pos \<le> fst p \<and> fst p + length (snd p) \<le> sz \<Longrightarrow> pos \<le> sz \<Longrightarrow> valid_patches pos sz ps"
proof (induction ps arbitrary: pos)
  case (Cons p ps)
  have "\<forall>q \<in> set ps. fst p + length (snd p) \<le> fst q"
  proof
    fix q assume q: "q \<in> set ps"
    with Cons.prems have "fst p \<le> fst q" "disjointPatch p q" "snd q \<noteq> []" by auto
    then show "fst p + length (snd p) \<le> fst q" by (cases "snd q") (auto simp: disjointPatch_def)
  qed
  with Cons show ?case by (cases p) auto
qed simp

lemma valid_sort_patches:
  assumes "sorted_wrt disjointPatch ps" "\<forall>p \<in> set ps. snd p \<noteq> [] \<and> fst p + length (snd p) \<le> sz"
  shows "valid_patches 0 sz (sort_key fst ps)"
  using assms by (intro valid_patches_sorted sorted_wrt_sort_key) (auto intro: disjointPatch_sym)

lemma start_bytePatch [simp]: "start (bytePatch p) = int (fst p)"
  by (simp add: bytePatch_def case_prod_unfold)

lemma sort_bytePatch: "sort_key start (map bytePatch ps) = map bytePatch (sort_key fst ps)"
proof (induction ps)
  case (Cons p ps)
  have "insort_key start (bytePatch q) (map bytePatch qs) = map bytePatch (insort_key fst q qs)" for q qs
    by (induction qs) simp_all
  with Cons show ?case by (simp add: sort_key_def)
qed (simp add: sort_key_def)

lemma patch_sources_bytes:
  "\<forall>p \<in> set ps. int (length (snd p)) \<le> MaxInt64 \<Longrightarrow> patch_sources (map bytePatch ps) ps"
  by (auto simp: patch_sources_def list_all2_conv_all_nth bytePatch_def case_prod_unfold intro!: byteOutput_delivers)

text \<open>Byte patches over a source, in any order: the sorted list is what gets applied.\<close>

lemma bytePatches_content:
  assumes src: "delivers src xs" and sz: "int sz \<le> MaxInt64" and ps: "sorted_wrt disjointPatch ps"
    and "\<forall>p \<in> set ps. snd p \<noteq> [] \<and> fst p + length (snd p) \<le> sz"
  shows "\<exists>out. patchedOutput src (int sz) (sort_key start (map bytePatch ps)) = Inr out \<and>
    delivers out (patchedBytes xs sz (sort_key fst ps))"
  unfolding sort_bytePatch
  using assms by (intro patchedOutput_content patch_sources_bytes valid_sort_patches) auto

section \<open>What signing patches\<close>

lemma image_wf_bounds:
  assumes "image_wf len im"
  shows "im_header im \<in> {28, 32}" "im_header im \<le> commandsEnd im" "commandsEnd im \<le> len"
    "im_sigCommand im \<ge> 0 \<Longrightarrow> int (im_header im) \<le> im_sigCommand im \<and> im_sigCommand im + 16 \<le> int (commandsEnd im)"
    "im_linkedit im \<ge> 0 \<Longrightarrow> int (im_header im) \<le> im_linkedit im \<and>
       im_linkedit im + int (linkeditLen (im_linkeditKind im)) \<le> int (commandsEnd im)"
    "im_sigCommand im \<ge> 0 \<Longrightarrow> im_linkedit im \<ge> 0 \<Longrightarrow> im_sigCommand im + 16 \<le> im_linkedit im \<or>
       im_linkedit im + int (linkeditLen (im_linkeditKind im)) \<le> im_sigCommand im"
  using assms unfolding image_wf_def image_inv_def commandsEnd_def Let_def by auto

definition signedHeader :: "image \<Rightarrow> byte list \<Rightarrow> byte list" where
  "signedHeader im header = (if im_sigCommand im \<ge> 0 then header else
     overwrite 20 (ord_put (im_order im) 4 (im_commandBytes im + 16))
       (overwrite 16 (ord_put (im_order im) 4 (im_commandCount im + 1)) header))"

definition signatureAt :: "image \<Rightarrow> nat" where
  "signatureAt im = (if im_sigCommand im \<ge> 0 then nat (im_sigCommand im) else commandsEnd im)"

definition signedPatches :: "image \<Rightarrow> byte list \<Rightarrow> nat \<Rightarrow> nat \<Rightarrow> nat \<Rightarrow> (nat \<times> byte list) list" where
  "signedPatches im xs codeEnd sigSize fin =
     [(0, signedHeader im (slice xs 0 (im_header im))), (signatureAt im, signatureBytes (im_order im) codeEnd sigSize)]
     @ linkeditFields im fin"

lemma length_signatureBytes [simp]: "length (signatureBytes ord codeEnd sigSize) = 16"
  by (simp add: signatureBytes_def)

lemma length_signedHeader: "24 \<le> length header \<Longrightarrow> length (signedHeader im header) = length header"
  by (simp add: signedHeader_def)

lemma signedPatches_ok:
  assumes wf: "image_wf (length xs) im" and link: "im_linkedit im \<ge> 0"
    and fin: "signatureAt im + 16 \<le> fin" "commandsEnd im \<le> fin"
  shows "sorted_wrt disjointPatch (signedPatches im xs codeEnd sigSize fin) \<and>
    (\<forall>p \<in> set (signedPatches im xs codeEnd sigSize fin). snd p \<noteq> [] \<and> fst p + length (snd p) \<le> fin)"
proof -
  note b = image_wf_bounds [OF wf]
  have hdr: "length (signedHeader im (slice xs 0 (im_header im))) = im_header im" "0 < im_header im"
    using b(1-3) by (auto simp: length_signedHeader)
  have at: "im_header im \<le> signatureAt im"
    using b by (auto simp: signatureAt_def)
  have apart: "signatureAt im + 16 \<le> nat (im_linkedit im) \<or>
      nat (im_linkedit im) + linkeditLen (im_linkeditKind im) \<le> signatureAt im"
    using b(5,6) link by (auto simp: signatureAt_def)
  have le: "im_header im \<le> nat (im_linkedit im)" "nat (im_linkedit im) + linkeditLen (im_linkeditKind im) \<le> commandsEnd im"
    using b(5) link by auto
  have ne: "signedHeader im (slice xs 0 (im_header im)) \<noteq> []" "signatureBytes ord codeEnd sigSize \<noteq> []"
      "ord_put ord 8 n \<noteq> []" "ord_put ord 4 n \<noteq> []" for ord n
    using hdr by (auto simp flip: length_greater_0_conv)
  show ?thesis
  proof (cases "im_linkeditKind im = 0x19")
    case True
    with hdr at apart le ne fin show ?thesis
      by (auto simp: signedPatches_def linkeditFields_def Let_def disjointPatch_def linkeditLen_def)
  next
    case False
    with hdr at apart le ne fin show ?thesis
      by (auto simp: signedPatches_def linkeditFields_def Let_def disjointPatch_def linkeditLen_def)
  qed
qed

lemma recount_ok: "24 \<le> length header \<Longrightarrow> recount ord header cnt bytes =
  Inr (overwrite 20 (ord_put ord 4 bytes) (overwrite 16 (ord_put ord 4 cnt) header))"
  by (simp add: recount_def)

lemma signingCommandOutput_content:
  assumes src: "delivers src xs" and wf: "image_wf (length xs) im" and link: "im_linkedit im \<ge> 0"
    and fin: "signatureAt im + 16 \<le> fin" "commandsEnd im \<le> fin" "int fin \<le> MaxInt64"
    and room: "im_sigCommand im < 0 \<Longrightarrow> commandsEnd im + 16 \<le> im_firstSection im \<and>
      commandsEnd im + 16 \<le> length xs \<and> slice xs (commandsEnd im) 16 = replicate 16 0"
  shows "\<exists>out. signingCommandOutput im src codeEnd sigSize fin = Inr out \<and>
    delivers out (patchedBytes xs fin (sort_key fst (signedPatches im xs codeEnd sigSize fin)))"
proof -
  note b = image_wf_bounds [OF wf]
  have size: "srcSize src = int (length xs)" using delivers_range [OF src] by simp
  have head: "codeRead src 0 (im_header im) = Inr (slice xs 0 (im_header im))"
    using b(1-3) by (intro codeRead_content [OF src]) (auto simp: maxFileSize_def)
  have h24: "24 \<le> length (slice xs 0 (im_header im))" using b(1-3) by auto
  have place: "commandPlace im src (slice xs 0 (im_header im)) =
      Inr (signedHeader im (slice xs 0 (im_header im)), signatureAt im)"
  proof (cases "im_sigCommand im \<ge> 0")
    case False
    with room have "codeRead src (commandsEnd im) 16 = Inr (slice xs (commandsEnd im) 16)"
      by (intro codeRead_content [OF src]) (auto simp: maxFileSize_def)
    with False room recount_ok [OF h24] show ?thesis
      by (simp add: commandPlace_def signedHeader_def signatureAt_def)
  qed (simp add: commandPlace_def signedHeader_def signatureAt_def)
  have "\<not> int (commandsEnd im + (if im_sigCommand im < 0 then 16 else 0)) > srcSize src"
    using b(3) room size by auto
  with head place have "signingCommandOutput im src codeEnd sigSize fin =
      patchedOutput src (int fin) (sort_key start (map bytePatch (signedPatches im xs codeEnd sigSize fin)))"
    by (simp add: signingCommandOutput_def signedPatches_def)
  moreover note bytePatches_content [OF src fin(3)] signedPatches_ok [OF wf link fin(1,2), of codeEnd sigSize]
  ultimately show ?thesis by simp
qed

section \<open>What removal leaves\<close>

lemma patchedBytes_Cons:
  assumes "pos \<le> st" "st + length c \<le> sz" "valid_patches (st + length c) sz ps" "st \<le> length xs"
  shows "map (patchByte xs ((st, c) # ps)) [pos..<sz] =
    slice xs pos (st - pos) @ c @ map (patchByte xs ps) [st + length c..<sz]"
proof -
  have "[pos..<sz] = [pos..<st] @ [st..<st + length c] @ [st + length c..<sz]"
    using assms by (metis add_leD1 le_add1 le_add_diff_inverse upt_add_eq_append)
  moreover have "map (patchByte xs ((st, c) # ps)) [pos..<st] = map (baseByte xs) [pos..<st]"
    using patchByte_before [OF assms(3)] by auto
  moreover have "map (baseByte xs) [pos..<st] = slice xs pos (st - pos)"
    using baseRange_split [OF assms(1), of xs] assms(4) by (simp add: min_absorb1)
  moreover have "map (patchByte xs ((st, c) # ps)) [st..<st + length c] = c"
    by (rule nth_equalityI) auto
  moreover have "map (patchByte xs ((st, c) # ps)) [st + length c..<sz] = map (patchByte xs ps) [st + length c..<sz]"
    by auto
  ultimately show ?thesis by simp
qed

lemma patchedBytes_tail:
  assumes "pos \<le> sz" "sz \<le> length xs" shows "map (patchByte xs []) [pos..<sz] = slice xs pos (sz - pos)"
  using baseRange_split [OF assms(1), of xs] assms by (simp add: min_absorb1 cong: map_cong)

lemma patchedBytes_one:
  "st + length c \<le> length xs \<Longrightarrow> patchedBytes xs (length xs) [(st, c)] = overwrite st c xs"
  using patchedBytes_Cons [of 0 st c "length xs" "[]" xs] patchedBytes_tail [of "st + length c" "length xs" xs]
  by (simp add: patchedBytes_def overwrite_def slice_def)

text \<open>The commands with the signature command taken out and zeros at their end, cut at \<open>fin\<close>.\<close>

definition strippedBytes :: "image \<Rightarrow> nat \<Rightarrow> byte list \<Rightarrow> byte list" where
  "strippedBytes im fin xs =
    (let hdr = im_header im; sig = nat (im_sigCommand im); ce = commandsEnd im in
     overwrite 20 (ord_put (im_order im) 4 (im_commandBytes im + 2 ^ 32 - 16))
       (overwrite 16 (ord_put (im_order im) 4 (im_commandCount im + 2 ^ 32 - 1)) (slice xs 0 hdr)) @
     slice xs hdr (sig - hdr) @ slice xs (sig + 16) (ce - sig - 16) @ replicate 16 0 @ slice xs ce (fin - ce))"

text \<open>The new file size of LINKEDIT and where it goes once the commands have moved.\<close>

definition linkeditShrunk :: "image \<Rightarrow> nat \<Rightarrow> nat \<times> byte list" where
  "linkeditShrunk im fin =
    (let p = nat (if im_linkedit im > im_sigCommand im then im_linkedit im - 16 else im_linkedit im) in
     if im_linkeditKind im = 0x19 then (p + 48, ord_put (im_order im) 8 (fin - im_linkStart im))
     else (p + 36, ord_put (im_order im) 4 (fin - im_linkStart im)))"

lemma length_strippedBytes:
  assumes "image_wf (length xs) im" "im_sigCommand im \<ge> 0" "commandsEnd im \<le> fin" "fin \<le> length xs"
  shows "length (strippedBytes im fin xs) = fin"
  using image_wf_bounds(1-4) [OF assms(1)] assms(2-4) by (auto simp: strippedBytes_def Let_def)

lemma stripped_delivers:
  assumes src: "delivers src xs" and wf: "image_wf (length xs) im" and sig: "im_sigCommand im \<ge> 0"
    and fin: "commandsEnd im \<le> fin" "fin \<le> length xs"
  shows "\<exists>out. patchedOutput src (int fin)
       [\<lparr>start = 0, source = byteOutput (overwrite 20 (ord_put (im_order im) 4 (im_commandBytes im + 2 ^ 32 - 16))
           (overwrite 16 (ord_put (im_order im) 4 (im_commandCount im + 2 ^ 32 - 1)) (slice xs 0 (im_header im))))\<rparr>,
        \<lparr>start = im_sigCommand im,
         source = \<lparr>reader = reader src, offset = offset src + im_sigCommand im + 16,
                   srcSize = int (commandsEnd im) - im_sigCommand im - 16\<rparr>\<rparr>,
        \<lparr>start = int (commandsEnd im) - 16, source = \<lparr>reader = Some zeroReadAt, offset = 0, srcSize = 16\<rparr>\<rparr>] = Inr out \<and>
    delivers out (strippedBytes im fin xs)"
proof -
  define hdr sig ce where "hdr = im_header im" and "sig = nat (im_sigCommand im)" and "ce = commandsEnd im"
  define h where "h = overwrite 20 (ord_put (im_order im) 4 (im_commandBytes im + 2 ^ 32 - 16))
      (overwrite 16 (ord_put (im_order im) 4 (im_commandCount im + 2 ^ 32 - 1)) (slice xs 0 hdr))"
  note b = image_wf_bounds [OF wf]
  have pos: "hdr \<in> {28, 32}" "hdr \<le> sig" "sig + 16 \<le> ce" "ce \<le> length xs" "int sig = im_sigCommand im"
    using b(1-4) sig by (auto simp: hdr_def sig_def ce_def)
  have hl: "length h = hdr" using pos by (auto simp: h_def)
  have size: "srcSize src = int (length xs)" using delivers_range [OF src] by simp
  have max: "int (length xs) \<le> MaxInt64" using src size by (auto simp: delivers_def)
  have d1: "delivers (byteOutput h) h" using hl pos max by (intro byteOutput_delivers) auto
  have d2: "delivers \<lparr>reader = reader src, offset = offset src + int (sig + 16), srcSize = int (ce - sig - 16)\<rparr>
      (slice xs (sig + 16) (ce - sig - 16))"
    using pos by (intro delivers_sub [OF src]) auto
  have eqs: "im_sigCommand im = int sig" "offset src + int sig + 16 = offset src + int (sig + 16)"
      "int (commandsEnd im) - int sig - 16 = int (ce - sig - 16)" "int (commandsEnd im) - 16 = int (ce - 16)"
    using pos by (auto simp: ce_def)
  have d3: "delivers \<lparr>reader = Some zeroReadAt, offset = 0, srcSize = 16\<rparr> (replicate 16 0)"
    using zero_delivers [of 16] by (simp add: MaxInt64_def)
  let ?ps = "[(0, h), (sig, slice xs (sig + 16) (ce - sig - 16)), (ce - 16, replicate 16 0)]"
  have valid: "valid_patches 0 fin ?ps" using pos hl fin by (auto simp: ce_def)
  have bytes: "patchedBytes xs fin ?ps = strippedBytes im fin xs"
  proof -
    have l2: "length (slice xs (sig + 16) (ce - sig - 16)) = ce - sig - 16" "sig + (ce - sig - 16) = ce - 16" "ce - 16 + 16 = ce"
      using pos by auto
    have "patchedBytes xs fin ?ps = h @ slice xs hdr (sig - hdr) @ slice xs (sig + 16) (ce - sig - 16) @
        replicate 16 0 @ slice xs ce (fin - ce)"
      unfolding patchedBytes_def
      using pos hl fin l2 by (simp add: patchedBytes_Cons patchedBytes_tail ce_def [symmetric])
    then show ?thesis by (simp add: strippedBytes_def Let_def h_def hdr_def sig_def ce_def)
  qed
  have "patch_sources [\<lparr>start = 0, source = byteOutput h\<rparr>,
      \<lparr>start = int sig, source = \<lparr>reader = reader src, offset = offset src + int (sig + 16), srcSize = int (ce - sig - 16)\<rparr>\<rparr>,
      \<lparr>start = int (ce - 16), source = \<lparr>reader = Some zeroReadAt, offset = 0, srcSize = 16\<rparr>\<rparr>] ?ps"
    using d1 d2 d3 by (simp add: patch_sources_def)
  moreover have "int fin \<le> MaxInt64" using fin max by simp
  ultimately show ?thesis
    unfolding h_def [symmetric] hdr_def [symmetric] eqs bytes [symmetric]
    by (intro patchedOutput_content src valid)
qed

lemma removeImageSource_content:
  assumes src: "delivers src xs" and wf: "image_wf (length xs) im" and sig: "im_sigCommand im \<ge> 0"
    and rem: "removeImageSource im src = Inr out"
  shows "\<exists>fin. removalEnd im = Inr fin \<and> commandsEnd im \<le> fin \<and> fin \<le> im_sigOffset im \<and>
    delivers out (overwrite (fst (linkeditShrunk im fin)) (snd (linkeditShrunk im fin)) (strippedBytes im fin xs))"
proof -
  note b = image_wf_bounds [OF wf]
  from rem sig have link: "im_linkedit im \<ge> 0" by (auto simp: removeImageSource_def guard_eq_Inr)
  from rem sig obtain fin where fin: "removalEnd im = Inr fin" "\<not> fin < commandsEnd im"
    unfolding removeImageSource_def by (auto simp: guard_eq_Inr rbind_eq_Inr)
  have le: "fin \<le> im_sigOffset im"
    using fin(1) unfolding removalEnd_def Let_def by (auto simp: guard_eq_Inr rbind_eq_Inr split: if_split_asm)
  moreover have "im_sigOffset im \<le> length xs"
    using wf sig by (auto simp: image_wf_def image_inv_def Let_def)
  ultimately have fit: "commandsEnd im \<le> fin" "fin \<le> length xs" using fin by auto
  have head: "codeRead src 0 (im_header im) = Inr (slice xs 0 (im_header im))"
    using b(1-3) by (intro codeRead_content [OF src]) (auto simp: maxFileSize_def)
  have h24: "24 \<le> length (slice xs 0 (im_header im))" using b(1-3) by auto
  from stripped_delivers [OF src wf sig fit] obtain shifted where
      sh: "patchedOutput src (int fin)
       [\<lparr>start = 0, source = byteOutput (overwrite 20 (ord_put (im_order im) 4 (im_commandBytes im + 2 ^ 32 - 16))
           (overwrite 16 (ord_put (im_order im) 4 (im_commandCount im + 2 ^ 32 - 1)) (slice xs 0 (im_header im))))\<rparr>,
        \<lparr>start = im_sigCommand im,
         source = \<lparr>reader = reader src, offset = offset src + im_sigCommand im + 16,
                   srcSize = int (commandsEnd im) - im_sigCommand im - 16\<rparr>\<rparr>,
        \<lparr>start = int (commandsEnd im) - 16, source = \<lparr>reader = Some zeroReadAt, offset = 0, srcSize = 16\<rparr>\<rparr>] = Inr shifted"
    and del: "delivers shifted (strippedBytes im fin xs)"
    by blast
  have len: "length (strippedBytes im fin xs) = fin" by (rule length_strippedBytes [OF wf sig fit])
  let ?f = "linkeditShrunk im fin"
  define p where "p = (if im_linkedit im > im_sigCommand im then im_linkedit im - 16 else im_linkedit im)"
  have nsig: "\<not> im_sigCommand im < 0" using sig by simp
  have "patchedOutput shifted (int fin)
       [bytePatch (if im_linkeditKind im = 0x19 then (nat (p + 48), ord_put (im_order im) 8 (fin - im_linkStart im))
                   else (nat (p + 36), ord_put (im_order im) 4 (fin - im_linkStart im)))] = Inr out"
    using rem unfolding removeImageSource_def guard_eq_Inr if_not_P [OF nsig] fin(1) head recount_ok [OF h24]
      rbind_Inr sh Let_def p_def by blast
  moreover have "0 \<le> p" using sig link b(6) by (auto simp: p_def)
  then have "nat (p + 48) = nat p + 48" "nat (p + 36) = nat p + 36" by auto
  ultimately have out: "patchedOutput shifted (int fin) [bytePatch ?f] = Inr out"
    unfolding linkeditShrunk_def Let_def p_def [symmetric] by (cases "im_linkeditKind im = 0x19") simp_all
  have fits: "fst ?f + length (snd ?f) \<le> fin"
    using b(5) link fit by (auto simp: linkeditShrunk_def Let_def linkeditLen_def nat_le_iff)
  have max: "int fin \<le> MaxInt64" using src fit by (auto simp: delivers_def)
  have "patch_sources [bytePatch ?f] [?f]"
    using fits max by (intro patch_sources_bytes [of "[?f]", simplified]) auto
  moreover have "valid_patches 0 fin [?f]" using fits by (cases ?f) auto
  ultimately have "delivers out (patchedBytes (strippedBytes im fin xs) fin [?f])"
    using patchedOutput_content [OF del max] out by fastforce
  then show ?thesis
    using fin fit le patchedBytes_one [of "fst ?f" "snd ?f" "strippedBytes im fin xs"] len fits by auto
qed

end
