(* ===== verification/Certificates.thy ===== *)
theory Certificates
  imports DER_Codec
begin

text \<open>
  pkg/codesign/certificate.go: names, extensions, the Apple anchors, the conservative
  certificate policy and the bounded path search to a caller-supplied root.

  A certificate is the record that parseCertificate builds. The DER decodings its users
  ask encoding/asn1 for (the subject's attributes, an extension's value at a type) are
  fields holding the decoder's result (a bit string as the positions of its set bits), and the signature checks of crypto/rsa and
  crypto/ecdsa are the parameter \<open>crypto_lib\<close>: the bytes of a key are never inspected.
  Times are numbers.
\<close>

section \<open>Object identifiers\<close>

text \<open>strconv.Itoa on a non-negative number.\<close>

fun decimal :: "nat \<Rightarrow> gostring" where
  "decimal n = (if n < 10 then [of_nat (48 + n)] else decimal (n div 10) @ [of_nat (48 + n mod 10)])"

declare decimal.simps [simp del]

text \<open>asn1.ObjectIdentifier.String.\<close>

fun oidString :: "nat list \<Rightarrow> gostring" where
  "oidString [] = []"
| "oidString [a] = decimal a"
| "oidString (a # rest) = decimal a @ str ''.'' @ oidString rest"

text \<open>parseBase128Int of encoding/asn1: at most five septets, minimal, below 2 ^ 31.\<close>

fun base128 :: "nat \<Rightarrow> nat \<Rightarrow> byte list \<Rightarrow> (nat \<times> byte list) option" where
  "base128 shifted acc [] = None"
| "base128 shifted acc (b # bs) =
    (if shifted = 5 \<or> shifted = 0 \<and> b = 0x80 then None
     else let v = acc * 128 + unat b mod 128 in
       if unat b < 128 then (if v > 2147483647 then None else Some (v, bs))
       else base128 (Suc shifted) v bs)"

lemma base128_shorter: "base128 s a bs = Some (v, rest) \<Longrightarrow> length rest < length bs"
proof (induction bs arbitrary: s a)
  case (Cons b bs)
  then show ?case by (auto simp: Let_def less_Suc_eq split: if_split_asm)
qed simp

function base128s :: "byte list \<Rightarrow> nat list option" where
  "base128s [] = Some []"
| "base128s (b # bs) =
    (case base128 0 0 (b # bs) of None \<Rightarrow> None
     | Some (v, rest) \<Rightarrow> (case base128s rest of None \<Rightarrow> None | Some vs \<Rightarrow> Some (v # vs)))"
  by pat_completeness auto
termination
  by (relation "measure length") (auto simp del: base128.simps dest!: base128_shorter)

text \<open>parseObjectIdentifier: the first subidentifier holds the first two arcs.\<close>

definition parseOID :: "byte list \<Rightarrow> nat list option" where
  "parseOID bs =
    (case base128s bs of
       Some (v # vs) \<Rightarrow> Some (if v < 80 then v div 40 # v mod 40 # vs else 2 # (v - 80) # vs)
     | _ \<Rightarrow> None)"

text \<open>decodeDER(derWrap(6, field), &oid): identity.go's size limit, then encoding/asn1.\<close>

definition decodeOID :: "byte list \<Rightarrow> nat list result" where
  "decodeOID field =
    (if length (derWrap 6 field) > 16 * 2 ^ 20 then Inl (Malformed ''DER size'') else
     case parseOID field of None \<Rightarrow> Inl (Malformed ''DER'') | Some oid \<Rightarrow> Inr oid)"

section \<open>Names and extensions\<close>

record extension_field =
  ext_id :: gostring
  ext_critical :: bool
  ext_value :: "byte list"
  ext_usage :: "nat list result"
  ext_constraints :: "(bool \<times> int) result"
  ext_purposes :: "gostring list result"

datatype hash_alg = SHA256 | SHA384 | SHA512

datatype public_key = RSAKey "byte list" | ECDSAKey "byte list"

text \<open>What is verified is the digest of the to-be-signed bytes under the algorithm's hash.\<close>

record crypto_lib =
  verifyPKCS1v15 :: "byte list \<Rightarrow> hash_alg \<Rightarrow> byte list \<Rightarrow> byte list \<Rightarrow> bool"
  verifyASN1 :: "byte list \<Rightarrow> hash_alg \<Rightarrow> byte list \<Rightarrow> byte list \<Rightarrow> bool"

text \<open>The DER parameters of an algorithm: absent, NULL or anything else.\<close>

datatype alg_params = Absent | Null | OtherParams

record certificate =
  raw :: "byte list"
  version :: nat
  algorithm :: gostring
  parameters :: alg_params
  tbsRaw :: "byte list"
  public :: public_key
  signature :: "byte list"
  issuer :: "byte list"
  subject :: "byte list"
  attributes :: "(gostring \<times> gostring result) list list result"
  notBefore :: int
  notAfter :: int
  extensions :: "extension_field list"

fun findAttribute :: "(gostring \<times> gostring result) list \<Rightarrow> gostring \<Rightarrow> gostring result" where
  "findAttribute [] oid = Inr []"
| "findAttribute ((i, v) # rest) oid = (if i = oid then v else findAttribute rest oid)"

definition subjectAttribute :: "certificate \<Rightarrow> gostring \<Rightarrow> gostring result" where
  "subjectAttribute c oid = rbind (attributes c) (\<lambda>sets. findAttribute (concat sets) oid)"

definition extension :: "certificate \<Rightarrow> gostring \<Rightarrow> byte list option" where
  "extension c oid = map_option ext_value (List.find (\<lambda>e. ext_id e = oid) (extensions c))"

text \<open>The published SHA-256 of Apple's public roots.\<close>

definition appleRoots :: "gostring set" where
  "appleRoots = {str ''b0b1730ecbc7ff4505142c49f1295e6eda6bcaed7e2c68c5be91b5a11001f024'',
    str ''c2b9b042dd57830e7d117dac55ac8ae19407d38e41d88f3215bc3a890444a050'',
    str ''63343abfb89a6a03ebb57e9b3f5fa7be7c4f5c756f3017b3a8c488c3653e9179''}"

definition appleAnchor :: "hash_lib \<Rightarrow> certificate list \<Rightarrow> bool" where
  "appleAnchor H path \<longleftrightarrow> path \<noteq> [] \<and> hexEncode (sha256 H (raw (last path))) \<in> appleRoots"

definition appleDeveloper :: "hash_lib \<Rightarrow> certificate list \<Rightarrow> bool" where
  "appleDeveloper H path \<longleftrightarrow> appleAnchor H path \<and>
     ((\<exists>suffix \<in> set [str ''2'', str ''12'', str ''7'', str ''4''].
         extension (path ! 0) (str ''1.2.840.113635.100.6.1.'' @ suffix) \<noteq> None) \<or>
      length path > 1 \<and> extension (path ! 0) (str ''1.2.840.113635.100.6.1.13'') \<noteq> None \<and>
      extension (path ! 1) (str ''1.2.840.113635.100.6.2.6'') \<noteq> None)"

definition checkTeamID :: "hash_lib \<Rightarrow> certificate list \<Rightarrow> gostring \<Rightarrow> unit result" where
  "checkTeamID H path team =
    (if appleDeveloper H path then
       rbind (subjectAttribute (path ! 0) (str ''2.5.4.11'')) (\<lambda>want.
       if team \<noteq> [] \<and> team \<noteq> want
       then Inl (Invalid ''Team ID does not match signing certificate'') else Inr ())
     else Inr ())"

section \<open>Policy\<close>

definition codeSigning :: gostring where
  "codeSigning = str ''1.3.6.1.5.5.7.3.3''"

text \<open>One turn of the loop over the extensions; the state is the constraints so far.\<close>

definition policyExtension ::
  "bool \<Rightarrow> gostring \<Rightarrow> extension_field \<Rightarrow> bool \<times> int \<Rightarrow> (bool \<times> int) result" where
  "policyExtension ca purpose e constraints =
    (if ext_id e = str ''2.5.29.15'' then
       rbind (ext_usage e) (\<lambda>ku.
       if (if ca then 5 else 0) \<notin> set ku then Inl (Invalid ''certificate key usage'')
       else Inr constraints)
     else if ext_id e = str ''2.5.29.19'' then
       rbind (ext_constraints e) (\<lambda>(isCA, pathLen).
       if pathLen < -1 \<or> \<not> isCA \<and> pathLen \<noteq> -1
       then Inl (Malformed ''certificate basic constraints'') else Inr (isCA, pathLen))
     else if ext_id e = str ''2.5.29.37'' then
       rbind (ext_purposes e) (\<lambda>ps.
       if purpose \<in> set ps \<or> str ''2.5.29.37.0'' \<in> set ps then Inr constraints
       else Inl (Invalid ''certificate does not permit purpose''))
     else if ext_id e \<in> {str ''2.5.29.30'', str ''2.5.29.33'', str ''2.5.29.36'', str ''2.5.29.54''}
     then Inl (Unsupported ''certificate path constraint'')
     else let known = ext_id e \<in> {str ''1.2.840.113635.100.6.1.13'',
                str ''1.2.840.113635.100.6.1.18'', str ''1.2.840.113635.100.6.2.6''} in
       if known \<and> ext_value e \<noteq> [5, 0] then Inl (Malformed ''Apple certificate marker'')
       else if ext_critical e \<and> \<not> known then Inl (Unsupported ''critical certificate extension'')
       else Inr constraints)"

fun policyExtensions ::
  "bool \<Rightarrow> gostring \<Rightarrow> extension_field list \<Rightarrow> bool \<times> int \<Rightarrow> (bool \<times> int) result" where
  "policyExtensions ca purpose [] constraints = Inr constraints"
| "policyExtensions ca purpose (e # es) constraints =
     rbind (policyExtension ca purpose e constraints) (policyExtensions ca purpose es)"

definition certificatePolicyFor ::
  "certificate \<Rightarrow> int \<Rightarrow> bool \<Rightarrow> nat \<Rightarrow> gostring \<Rightarrow> unit result" where
  "certificatePolicyFor c at ca below purpose =
    (if at < notBefore c \<or> at > notAfter c
     then Inl (Invalid ''certificate is not valid at verification time'') else
     rbind (policyExtensions ca purpose (extensions c) (False, -1)) (\<lambda>(isCA, pathLen).
     if ca \<and> (\<not> isCA \<or> version c \<noteq> 2 \<or> pathLen \<ge> 0 \<and> int below > pathLen)
     then Inl (Invalid ''certificate CA or path length constraint'') else Inr ()))"

definition certificatePolicy :: "certificate \<Rightarrow> int \<Rightarrow> bool \<Rightarrow> nat \<Rightarrow> unit result" where
  "certificatePolicy c at ca below = certificatePolicyFor c at ca below codeSigning"

section \<open>Path search\<close>

text \<open>The algorithm table of certificateSignature: the hash, and whether it is RSA's.\<close>

definition signatureAlgorithm :: "gostring \<Rightarrow> (hash_alg \<times> bool) option" where
  "signatureAlgorithm oid =
    (if oid = str ''1.2.840.113549.1.1.11'' then Some (SHA256, True)
     else if oid = str ''1.2.840.113549.1.1.12'' then Some (SHA384, True)
     else if oid = str ''1.2.840.113549.1.1.13'' then Some (SHA512, True)
     else if oid = str ''1.2.840.10045.4.3.2'' then Some (SHA256, False)
     else if oid = str ''1.2.840.10045.4.3.3'' then Some (SHA384, False)
     else if oid = str ''1.2.840.10045.4.3.4'' then Some (SHA512, False)
     else None)"

definition certificateSignature :: "crypto_lib \<Rightarrow> certificate \<Rightarrow> certificate \<Rightarrow> unit result" where
  "certificateSignature C child parent =
    (if issuer child \<noteq> subject parent
     then Inl (Invalid ''certificate issuer does not match parent subject'') else
     case signatureAlgorithm (algorithm child) of
       None \<Rightarrow> Inl (Unsupported ''certificate signature algorithm'')
     | Some (h, rsaAlgorithm) \<Rightarrow>
       if rsaAlgorithm \<and> parameters child = OtherParams \<or> \<not> rsaAlgorithm \<and> parameters child \<noteq> Absent
       then Inl (Malformed ''certificate signature parameters'') else
       if (case public parent of
             RSAKey key \<Rightarrow> rsaAlgorithm \<and> verifyPKCS1v15 C key h (tbsRaw child) (signature child)
           | ECDSAKey key \<Rightarrow> \<not> rsaAlgorithm \<and> verifyASN1 C key h (tbsRaw child) (signature child))
       then Inr () else Inl (Invalid ''certificate signature''))"

text \<open>
  The recursive search of verifyCertificateChainFor. The closure's counter \<open>visits\<close> is
  threaded through the calls; the environment is the record \<open>search_env\<close>. \<open>searchFrom\<close> is
  the body, \<open>searchPool\<close> its loop over the pool with \<open>reason\<close>, and \<open>search\<close> the
  recursive call, of depth at most 33 since a path of more than 32 is refused.
\<close>

record search_env =
  env_crypto :: crypto_lib
  env_at :: int
  env_purpose :: gostring
  env_anchors :: "byte list list"
  env_pool :: "certificate list"

type_synonym path_result = "(certificate list result) \<times> nat"

fun searchPool ::
  "search_env \<Rightarrow> (certificate list \<Rightarrow> nat \<Rightarrow> nat \<Rightarrow> path_result) \<Rightarrow> certificate list \<Rightarrow> nat \<Rightarrow> nat
     \<Rightarrow> certificate list \<Rightarrow> error \<Rightarrow> path_result" where
  "searchPool env call path below visits [] reason = (Inl reason, visits)"
| "searchPool env call path below visits (parent # pool) reason =
    (if issuer (last path) \<noteq> subject parent then searchPool env call path below visits pool reason
     else if raw parent \<in> raw ` set path then searchPool env call path below visits pool reason
     else case certificateSignature (env_crypto env) (last path) parent of
       Inl e \<Rightarrow> searchPool env call path below visits pool e
     | Inr _ \<Rightarrow>
       let nextBelow = (if length path > 1 \<and> subject (last path) \<noteq> issuer (last path)
                        then below + 1 else below) in
       (case certificatePolicyFor parent (env_at env) True nextBelow (env_purpose env) of
          Inl e \<Rightarrow> searchPool env call path below visits pool e
        | Inr _ \<Rightarrow>
          (case call (path @ [parent]) nextBelow visits of
             (Inr result, visits') \<Rightarrow> (Inr result, visits')
           | (Inl e, visits') \<Rightarrow> searchPool env call path below visits' pool e)))"

definition searchFrom ::
  "search_env \<Rightarrow> (certificate list \<Rightarrow> nat \<Rightarrow> nat \<Rightarrow> path_result) \<Rightarrow> certificate list \<Rightarrow> nat \<Rightarrow> nat \<Rightarrow> path_result"
where
  "searchFrom env call path below visits0 =
    (let visits = visits0 + 1 in
     if visits > 256 \<or> length path > 32
     then (Inl (Malformed ''certificate path search limit''), visits)
     else if raw (last path) \<in> set (env_anchors env) then
       (case certificatePolicyFor (last path) (env_at env) True below (env_purpose env) of
          Inl e \<Rightarrow> (Inl e, visits) | Inr _ \<Rightarrow> (Inr path, visits))
     else searchPool env call path below visits (env_pool env) ErrUntrusted)"

primrec search :: "nat \<Rightarrow> search_env \<Rightarrow> certificate list \<Rightarrow> nat \<Rightarrow> nat \<Rightarrow> path_result" where
  "search 0 env path below visits = (Inl OutOfFuel, visits)"
| "search (Suc fuel) env path below visits = searchFrom env (search fuel env) path below visits"

definition searchFuel :: nat where
  "searchFuel = 33"

text \<open>
  verifyCertificateChainFor, up to describeChain. \<open>parse\<close> is parseCertificate; the pool
  keeps the first occurrence of each encoding, the leaf's excluded.
\<close>

fun buildPool ::
  "(byte list \<Rightarrow> certificate result) \<Rightarrow> byte list list \<Rightarrow> byte list list \<Rightarrow> certificate list \<Rightarrow> certificate list result" where
  "buildPool parse known [] pool = Inr pool"
| "buildPool parse known (der # ders) pool =
    (if der \<in> set known then buildPool parse known ders pool
     else rbind (parse der) (\<lambda>p. buildPool parse (der # known) ders (pool @ [p])))"

definition verifyCertificateChainFor ::
  "(byte list \<Rightarrow> certificate result) \<Rightarrow> crypto_lib \<Rightarrow> byte list \<Rightarrow> byte list list \<Rightarrow> byte list list \<Rightarrow> int
     \<Rightarrow> gostring \<Rightarrow> certificate list result" where
  "verifyCertificateChainFor parse C leaf intermediates roots at purpose =
    (if roots = [] then Inl ErrUntrusted else
     if length intermediates + length roots > 64 then Inl (Malformed ''certificate pool limit'') else
     rbind (parse leaf) (\<lambda>c.
     rbind (certificatePolicyFor c at False 0 purpose) (\<lambda>_.
     rbind (buildPool parse [leaf] (roots @ intermediates) []) (\<lambda>pool.
     fst (search searchFuel \<lparr>env_crypto = C, env_at = at, env_purpose = purpose,
            env_anchors = roots, env_pool = pool\<rparr> [c] 0 0)))))"


text \<open>
  linkedCertificates: the display chain. Each turn looks for the one certificate that
  signed the last; the loop condition allows 32 turns.
\<close>

fun linkedParent ::
  "(byte list \<Rightarrow> certificate result) \<Rightarrow> crypto_lib \<Rightarrow> certificate list \<Rightarrow> byte list list \<Rightarrow> certificate option
     \<Rightarrow> certificate option result" where
  "linkedParent parse C path [] parent = Inr parent"
| "linkedParent parse C path (der # ders) parent =
    rbind (parse der) (\<lambda>p.
    if certificateSignature C (last path) p \<noteq> Inr () then linkedParent parse C path ders parent else
    rbind (certificatePolicy p (notBefore p) True (length path - 1)) (\<lambda>_.
    if parent \<noteq> None \<and> raw (the parent) \<noteq> raw p then Inl (Unsupported ''ambiguous certificate chain'')
    else linkedParent parse C path ders (Some p)))"

function linkedLoop ::
  "(byte list \<Rightarrow> certificate result) \<Rightarrow> crypto_lib \<Rightarrow> byte list list \<Rightarrow> certificate list \<Rightarrow> certificate list result"
where
  "linkedLoop parse C certs path =
    (if length path > 32 then Inl (Malformed ''certificate chain length'') else
     if issuer (last path) = subject (last path) then Inr path else
     rbind (linkedParent parse C path certs None) (\<lambda>parent.
     case parent of None \<Rightarrow> Inr path
     | Some p \<Rightarrow>
       if raw p \<in> raw ` set path then Inl (Invalid ''certificate chain cycle'')
       else linkedLoop parse C certs (path @ [p])))"
  by pat_completeness auto
termination
  by (relation "measure (\<lambda>(_, _, _, path). 33 - length path)") auto

declare linkedLoop.simps [simp del]

definition linkedCertificates ::
  "(byte list \<Rightarrow> certificate result) \<Rightarrow> crypto_lib \<Rightarrow> byte list \<Rightarrow> byte list list \<Rightarrow> certificate list result"
where
  "linkedCertificates parse C leaf certs =
    rbind (parse leaf) (\<lambda>c.
    if length certs > 32 then Inl (Malformed ''certificate chain limit'') else
    linkedLoop parse C certs [c])"

section \<open>Soundness of the path search\<close>

text \<open>
  \<open>belowAt path i\<close> is the number of non-self-issued intermediates strictly between the
  leaf and certificate \<open>i\<close>, which its path-length constraint bounds.
\<close>

definition linked :: "crypto_lib \<Rightarrow> certificate list \<Rightarrow> bool" where
  "linked C path \<longleftrightarrow> (\<forall>i. Suc i < length path \<longrightarrow> certificateSignature C (path ! i) (path ! Suc i) = Inr ())"

definition belowAt :: "certificate list \<Rightarrow> nat \<Rightarrow> nat" where
  "belowAt path i = length (filter (\<lambda>c. subject c \<noteq> issuer c) (slice path 1 (i - 1)))"

definition authorities_ok :: "int \<Rightarrow> gostring \<Rightarrow> certificate list \<Rightarrow> bool" where
  "authorities_ok at purpose path \<longleftrightarrow>
     (\<forall>i < length path. 0 < i \<longrightarrow> certificatePolicyFor (path ! i) at True (belowAt path i) purpose = Inr ())"

definition path_ok :: "search_env \<Rightarrow> certificate list \<Rightarrow> bool" where
  "path_ok env path \<longleftrightarrow> path \<noteq> [] \<and> linked (env_crypto env) path \<and> distinct (map raw path) \<and>
     authorities_ok (env_at env) (env_purpose env) path \<and> set (tl path) \<subseteq> set (env_pool env)"

lemma belowAt_append: "i < length path \<Longrightarrow> belowAt (path @ [p]) i = belowAt path i"
  by (simp add: belowAt_def slice_append1 slice_def)

lemma belowAt_Suc:
  "0 < length path \<Longrightarrow> belowAt (path @ [p]) (length path) =
     (if length path > 1 \<and> subject (last path) \<noteq> issuer (last path)
      then belowAt path (length path - 1) + 1 else belowAt path (length path - 1))"
proof (cases path rule: rev_cases)
  case (snoc xs x)
  then show ?thesis
    by (cases xs) (auto simp: belowAt_def slice_def)
qed simp

lemma path_ok_append:
  assumes "path_ok env path" "p \<in> set (env_pool env)" "raw p \<notin> raw ` set path"
    and "certificateSignature (env_crypto env) (last path) p = Inr ()"
    and "certificatePolicyFor p (env_at env) True (belowAt (path @ [p]) (length path)) (env_purpose env) = Inr ()"
  shows "path_ok env (path @ [p])"
proof -
  have ne: "path \<noteq> []" using assms(1) by (simp add: path_ok_def)
  have "linked (env_crypto env) (path @ [p])"
    using assms(1,4) ne
    by (auto simp: path_ok_def linked_def nth_append last_conv_nth less_Suc_eq)
       (metis diff_Suc_Suc minus_nat.diff_0)
  moreover have "authorities_ok (env_at env) (env_purpose env) (path @ [p])"
    using assms(1,5) by (auto simp: path_ok_def authorities_ok_def belowAt_append nth_append less_Suc_eq)
  ultimately show ?thesis
    using assms ne by (auto simp: path_ok_def)
qed

text \<open>What the search promises for a path it was called on.\<close>

definition found_ok :: "search_env \<Rightarrow> certificate list \<Rightarrow> certificate list \<Rightarrow> bool" where
  "found_ok env path result \<longleftrightarrow> path_ok env result \<and> raw (last result) \<in> set (env_anchors env) \<and>
     length result \<le> 32 \<and> hd result = hd path \<and>
     certificatePolicyFor (last result) (env_at env) True (belowAt result (length result - 1)) (env_purpose env) = Inr ()"

lemma searchPool_sound:
  assumes call: "\<And>p b v r v'. call (path @ [p]) b v = (Inr r, v') \<Longrightarrow> path_ok env (path @ [p]) \<Longrightarrow>
      b = belowAt (path @ [p]) (length path) \<Longrightarrow> found_ok env (path @ [p]) r"
    and "path_ok env path" "below = belowAt path (length path - 1)"
  shows "set pool \<subseteq> set (env_pool env) \<Longrightarrow> searchPool env call path below visits pool reason = (Inr r, v') \<Longrightarrow>
    found_ok env path r"
proof (induction pool arbitrary: visits reason)
  case (Cons p pool)
  have ne: "path \<noteq> []" using assms(2) by (simp add: path_ok_def)
  let ?nb = "if length path > 1 \<and> subject (last path) \<noteq> issuer (last path) then below + 1 else below"
  have nb: "?nb = belowAt (path @ [p]) (length path)"
    using belowAt_Suc [of path p] ne assms(3) by simp
  show ?case
  proof (cases "issuer (last path) \<noteq> subject p \<or> raw p \<in> raw ` set path \<or>
      certificateSignature (env_crypto env) (last path) p \<noteq> Inr () \<or>
      certificatePolicyFor p (env_at env) True ?nb (env_purpose env) \<noteq> Inr ()")
    case True
    with Cons show ?thesis
      by (auto simp: Let_def split: if_split_asm sum.split_asm)
  next
    case False
    then have ok: "path_ok env (path @ [p])"
      using assms(2) Cons.prems(1) nb by (intro path_ok_append) auto
    from False Cons.prems(2) consider r1 v1 where "call (path @ [p]) ?nb visits = (Inr r1, v1)" "r1 = r"
      | e v1 where "searchPool env call path below v1 pool e = (Inr r, v')"
      by (auto simp: Let_def split: prod.split_asm sum.split_asm)
    then show ?thesis
    proof cases
      case 1
      with call [OF 1(1) ok nb] ne show ?thesis by (simp add: found_ok_def)
    next
      case 2
      with Cons show ?thesis by auto
    qed
  qed
qed simp

lemma search_sound:
  "search fuel env path below visits = (Inr r, v') \<Longrightarrow> path_ok env path \<Longrightarrow>
   below = belowAt path (length path - 1) \<Longrightarrow> found_ok env path r"
proof (induction fuel arbitrary: path below visits r v')
  case (Suc fuel)
  show ?case
  proof (cases "raw (last path) \<in> set (env_anchors env)")
    case True
    with Suc.prems show ?thesis
      by (auto simp: searchFrom_def Let_def found_ok_def split: if_split_asm sum.split_asm)
  next
    case False
    with Suc.prems(1) have s: "searchPool env (search fuel env) path below (Suc visits) (env_pool env) ErrUntrusted = (Inr r, v')"
      by (auto simp: searchFrom_def Let_def split: if_split_asm)
    show ?thesis
      by (rule searchPool_sound [OF _ Suc.prems(2,3) subset_refl s]) (use Suc.IH in simp)
  qed
qed simp

lemma buildPool_parsed:
  "buildPool parse known ders pool = Inr pool' \<Longrightarrow>
   set pool' \<subseteq> set pool \<union> {p. \<exists>der \<in> set ders. parse der = Inr p}"
proof (induction ders arbitrary: known pool)
  case (Cons d ders)
  show ?case
  proof (cases "d \<in> set known")
    case True
    with Cons show ?thesis by fastforce
  next
    case False
    with Cons.prems obtain p where "parse d = Inr p" "buildPool parse (d # known) ders (pool @ [p]) = Inr pool'"
      by (auto simp: result_simps)
    with Cons.IH [OF this(2)] show ?thesis by auto
  qed
qed simp

lemma searchPool_cong:
  "(\<And>p b v. call (path @ [p]) b v = call' (path @ [p]) b v) \<Longrightarrow>
   searchPool env call path below visits pool reason = searchPool env call' path below visits pool reason"
  by (induction pool arbitrary: visits reason) (auto simp: Let_def split: sum.split prod.split)

lemma search_fuel:
  "length path \<le> 33 \<Longrightarrow> 34 \<le> fuel + length path \<Longrightarrow> 34 \<le> fuel' + length path \<Longrightarrow>
   search fuel env path below visits = search fuel' env path below visits"
proof (induction fuel arbitrary: fuel' path below visits)
  case (Suc fuel)
  then obtain g where g: "fuel' = Suc g" by (cases fuel') auto
  show ?case
  proof (cases "length path > 32")
    case True
    then show ?thesis by (simp add: g searchFrom_def Let_def)
  next
    case False
    then have "search fuel env (path @ [p]) b v = search g env (path @ [p]) b v" for p b v
      using Suc g by (intro Suc.IH) auto
    then show ?thesis
      by (simp add: g searchFrom_def Let_def searchPool_cong [of "search fuel env" path "search g env"])
  qed
qed simp

section \<open>Properties\<close>

text \<open>
  C38. An accepted chain is trusted: it starts with the leaf, whose policy was checked as an
  end entity, ends in one of the caller's roots, is at most 32 certificates long, repeats
  none, has every certificate signed by the next under the issuer's name, and every
  authority in it satisfies the CA policy with the exact number of non-self-issued
  intermediates below it; the intermediates come from the supplied pools.
\<close>

theorem verifyCertificateChainFor_sound:
  assumes "verifyCertificateChainFor parse C leaf intermediates roots at purpose = Inr path"
  shows "path \<noteq> [] \<and> parse leaf = Inr (hd path) \<and> raw (last path) \<in> set roots \<and> length path \<le> 32 \<and>
    distinct (map raw path) \<and> linked C path \<and>
    certificatePolicyFor (hd path) at False 0 purpose = Inr () \<and> authorities_ok at purpose path \<and>
    certificatePolicyFor (last path) at True (belowAt path (length path - 1)) purpose = Inr () \<and>
    (\<forall>p \<in> set (tl path). \<exists>der \<in> set (roots @ intermediates). parse der = Inr p)"
proof -
  from assms obtain c pool where c: "parse leaf = Inr c" "certificatePolicyFor c at False 0 purpose = Inr ()"
    and pool: "buildPool parse [leaf] (roots @ intermediates) [] = Inr pool"
    and s: "fst (search searchFuel \<lparr>env_crypto = C, env_at = at, env_purpose = purpose,
            env_anchors = roots, env_pool = pool\<rparr> [c] 0 0) = Inr path"
    by (auto simp: verifyCertificateChainFor_def result_simps)
  define env where "env = \<lparr>env_crypto = C, env_at = at, env_purpose = purpose,
            env_anchors = roots, env_pool = pool\<rparr>"
  from s obtain v where "search searchFuel env [c] 0 0 = (Inr path, v)"
    by (auto simp: env_def fst_def split: prod.splits)
  moreover have "path_ok env [c]"
    by (simp add: path_ok_def linked_def authorities_ok_def)
  moreover have "0 = belowAt [c] (length [c] - 1)"
    by (simp add: belowAt_def slice_def)
  ultimately have "found_ok env [c] path" by (rule search_sound)
  with c buildPool_parsed [OF pool] show ?thesis
    unfolding found_ok_def path_ok_def env_def by auto
qed

text \<open>
  The bounded search is the recursion of the source: with the fuel chosen, the search
  closure satisfies its own defining equation on every path, so the fuel is never what
  stops it.
\<close>

lemma search_is_recursive:
  assumes "path \<noteq> []" "length path \<le> 33"
  shows "search searchFuel env path below visits = searchFrom env (search searchFuel env) path below visits"
proof -
  have "search searchFuel env path below visits = search (Suc searchFuel) env path below visits"
    using assms by (intro search_fuel) (auto simp: searchFuel_def Suc_le_eq)
  then show ?thesis by simp
qed

text \<open>
  A leaf that is its own trusted root, and the two-certificate chain, with a library that
  accepts every RSA signature.
\<close>

definition sampleCert :: "byte list \<Rightarrow> byte list \<Rightarrow> byte list \<Rightarrow> extension_field list \<Rightarrow> certificate" where
  "sampleCert der iss subj exts =
     \<lparr>raw = der, version = 2, algorithm = str ''1.2.840.113549.1.1.11'', parameters = Null, tbsRaw = der,
      public = RSAKey [], signature = [], issuer = iss, subject = subj, attributes = Inr [],
      notBefore = 0, notAfter = 10, extensions = exts\<rparr>"

definition sampleCA :: extension_field where
  "sampleCA = \<lparr>ext_id = str ''2.5.29.19'', ext_critical = True, ext_value = [],
     ext_usage = Inl (Malformed ''DER''), ext_constraints = Inr (True, -1), ext_purposes = Inl (Malformed ''DER'')\<rparr>"

definition sampleCrypto :: crypto_lib where
  "sampleCrypto = \<lparr>verifyPKCS1v15 = (\<lambda>key h msg sig. h = SHA256 \<and> sig = []),
     verifyASN1 = (\<lambda>key h msg sig. False)\<rparr>"

definition sampleParse :: "byte list \<Rightarrow> certificate result" where
  "sampleParse der =
     (if der = [1] then Inr (sampleCert [1] [2] [1] [])
      else if der = [2] then Inr (sampleCert [2] [2] [2] [sampleCA])
      else Inl (Malformed ''DER''))"

lemma sample_chain:
  "verifyCertificateChainFor sampleParse sampleCrypto [1] [] [[2]] 5 codeSigning =
     Inr [sampleCert [1] [2] [1] [], sampleCert [2] [2] [2] [sampleCA]]"
  by code_simp

theorem verifyCertificateChainFor_sound_witness:
  "linked sampleCrypto [sampleCert [1] [2] [1] [], sampleCert [2] [2] [2] [sampleCA]]"
  using verifyCertificateChainFor_sound [OF sample_chain] by blast

definition sampleEnv :: search_env where
  "sampleEnv = \<lparr>env_crypto = sampleCrypto, env_at = 5, env_purpose = codeSigning,
     env_anchors = [[2]], env_pool = [sampleCert [2] [2] [2] [sampleCA]]\<rparr>"

end
