(* ===== verification/Requirements.thy ===== *)
theory Requirements
  imports Certificates Signature_Props
begin

text \<open>
  The compiled requirement language of requirements.go: expression trees, their encoding,
  the bounded decoder, the evaluator and the validation of requirement sets; and the users
  of a set in requirement_verify.go, requirement_metadata.go and requirement_sign.go.
\<close>

section \<open>Expressions and their encoding\<close>

text \<open>requirementNode: one constructor per opcode of the grammar.\<close>

datatype req =
    ReqNever
  | ReqAlways
  | ReqIdentifier gostring
  | ReqCertificate int gostring
  | ReqAnd req req
  | ReqOr req req
  | ReqCDHash gostring
  | ReqNot req
  | ReqSubject int gostring gostring
  | ReqExtension int gostring
  | ReqAnchor

fun opcode :: "req \<Rightarrow> nat" where
  "opcode ReqNever = 0"
| "opcode ReqAlways = 1"
| "opcode (ReqIdentifier _) = 2"
| "opcode (ReqCertificate _ _) = 4"
| "opcode (ReqAnd _ _) = 6"
| "opcode (ReqOr _ _) = 7"
| "opcode (ReqCDHash _) = 8"
| "opcode (ReqNot _) = 9"
| "opcode (ReqSubject _ _ _) = 11"
| "opcode (ReqExtension _ _) = 14"
| "opcode ReqAnchor = 15"

text \<open>The conversions between int32 and uint32.\<close>

definition uint32_of :: "int \<Rightarrow> nat" where
  "uint32_of s = nat (s mod 2 ^ 32)"

definition int32_of :: "nat \<Rightarrow> int" where
  "int32_of u = (if u < 2 ^ 31 then int u else int u - 2 ^ 32)"

definition append32 :: "byte list \<Rightarrow> nat \<Rightarrow> byte list" where
  "append32 dst v = dst @ put32 v"

text \<open>The padding loop: zero bytes up to the next multiple of four of the whole buffer.\<close>

function pad4 :: "byte list \<Rightarrow> byte list" where
  "pad4 dst = (if length dst mod 4 \<noteq> 0 then pad4 (dst @ [0]) else dst)"
  by pat_completeness auto
termination
  by (relation "measure (\<lambda>dst. (4 - length dst mod 4) mod 4)") (simp, simp add: mod_Suc, presburger)

declare pad4.simps [simp del]

definition appendRequirementData :: "byte list \<Rightarrow> gostring \<Rightarrow> byte list" where
  "appendRequirementData dst s = pad4 (append32 dst (length s) @ s)"

primrec encode :: "req \<Rightarrow> byte list \<Rightarrow> byte list" where
  "encode ReqNever dst = append32 dst 0"
| "encode ReqAlways dst = append32 dst 1"
| "encode (ReqIdentifier v) dst = appendRequirementData (append32 dst 2) v"
| "encode (ReqCertificate slot v) dst =
     appendRequirementData (append32 (append32 dst 4) (uint32_of slot)) v"
| "encode (ReqAnd l r) dst = encode r (encode l (append32 dst 6))"
| "encode (ReqOr l r) dst = encode r (encode l (append32 dst 7))"
| "encode (ReqCDHash v) dst = appendRequirementData (append32 dst 8) v"
| "encode (ReqNot l) dst = encode l (append32 dst 9)"
| "encode (ReqSubject slot f v) dst =
     appendRequirementData (append32 (appendRequirementData
       (append32 (append32 dst 11) (uint32_of slot)) f) 1) v"
| "encode (ReqExtension slot f) dst =
     append32 (appendRequirementData (append32 (append32 dst 14) (uint32_of slot)) f) 0"
| "encode ReqAnchor dst = append32 dst 15"

text \<open>The tail of CompileRequirement: the blob of a parsed expression.\<close>

definition compileNode :: "req \<Rightarrow> byte list" where
  "compileNode n = blob MagicRequirement (encode n (append32 [] 1))"

section \<open>Decoding\<close>

definition readWord :: "byte list \<Rightarrow> nat \<Rightarrow> (nat \<times> nat) result" where
  "readWord data pos =
     (if pos + 4 > length data then Inl (Malformed ''requirement operand'')
      else rbind (rd32 data pos) (\<lambda>v. Inr (v, pos + 4)))"

definition padded :: "nat \<Rightarrow> nat" where
  "padded n = (n + 3) div 4 * 4"

definition readString :: "byte list \<Rightarrow> nat \<Rightarrow> (gostring \<times> nat) result" where
  "readString data pos =
     rbind (readWord data pos) (\<lambda>(n, pos).
     if \<not> rangeOK pos (padded n) (length data) then Inl (Malformed ''requirement field'') else
     rbind (slice_at data pos n) (\<lambda>s. Inr (s, pos + padded n)))"

definition readSlot :: "byte list \<Rightarrow> nat \<Rightarrow> (int \<times> nat) result" where
  "readSlot data pos =
     rbind (readWord data pos) (\<lambda>(u, pos).
     if int32_of u < -1 \<or> int32_of u > 31 then Inl (Unsupported ''certificate index'')
     else Inr (int32_of u, pos))"

text \<open>Opcode 4 reads its index itself, with messages of its own.\<close>

definition readCertificateSlot :: "byte list \<Rightarrow> nat \<Rightarrow> (int \<times> nat) result" where
  "readCertificateSlot data pos =
     (if pos + 4 > length data then Inl (Malformed ''certificate requirement slot'') else
      rbind (rd32 data pos) (\<lambda>u.
      if int32_of u < -1 \<or> int32_of u > 31 then Inl (Unsupported ''certificate requirement index'')
      else Inr (int32_of u, pos + 4)))"

text \<open>The operand of opcodes 2, 4 and 8; hashes are 20 bytes.\<close>

definition readValue :: "byte list \<Rightarrow> nat \<Rightarrow> bool \<Rightarrow> (gostring \<times> nat) result" where
  "readValue data pos hash =
     rbind (readWord data pos) (\<lambda>(n, pos).
     if \<not> rangeOK pos (padded n) (length data) then Inl (Malformed ''requirement string'') else
     if hash \<and> n \<noteq> 20 then Inl (Malformed ''requirement CDHash'') else
     rbind (slice_at data pos n) (\<lambda>s. Inr (s, pos + padded n)))"

definition subjectFields :: "gostring list" where
  "subjectFields = [str ''subject.CN'', str ''subject.OU'', str ''subject.O'']"

text \<open>
  The recursive reader of decodeRequirement. \<open>pos\<close> and \<open>nodes\<close> are the variables its
  closure captures. The depth limit is what ends the recursion.
\<close>

function readReq :: "byte list \<Rightarrow> nat \<Rightarrow> nat \<times> nat \<Rightarrow> (req \<times> nat \<times> nat) result" where
  "readReq data depth (pos, nodes) =
    (if depth > 128 \<or> nodes + 1 > 4096 then Inl (Malformed ''requirement expression limit'') else
     if pos + 4 > length data then Inl (Malformed ''requirement opcode'') else
     rbind (rd32 data pos) (\<lambda>opc.
     if opc = 0 then Inr (ReqNever, pos + 4, nodes + 1)
     else if opc = 1 then Inr (ReqAlways, pos + 4, nodes + 1)
     else if opc = 15 then Inr (ReqAnchor, pos + 4, nodes + 1)
     else if opc = 11 then
       rbind (readSlot data (pos + 4)) (\<lambda>(slot, pos).
       rbind (readString data pos) (\<lambda>(field, pos).
       rbind (readWord data pos) (\<lambda>(match, pos).
       if match \<noteq> 1 \<or> field \<notin> set subjectFields
       then Inl (Unsupported ''certificate field match'') else
       rbind (readString data pos) (\<lambda>(value, pos).
       Inr (ReqSubject slot field value, pos, nodes + 1)))))
     else if opc = 14 then
       rbind (readSlot data (pos + 4)) (\<lambda>(slot, pos).
       rbind (readString data pos) (\<lambda>(field, pos).
       rbind (readWord data pos) (\<lambda>(match, pos).
       rbind (decodeOID field) (\<lambda>oid.
       if match \<noteq> 0 then Inl (Unsupported ''certificate extension match'')
       else Inr (ReqExtension slot field, pos, nodes + 1)))))
     else if opc = 2 then
       rbind (readValue data (pos + 4) False) (\<lambda>(value, pos).
       Inr (ReqIdentifier value, pos, nodes + 1))
     else if opc = 4 then
       rbind (readCertificateSlot data (pos + 4)) (\<lambda>(slot, pos).
       rbind (readValue data pos True) (\<lambda>(value, pos).
       Inr (ReqCertificate slot value, pos, nodes + 1)))
     else if opc = 8 then
       rbind (readValue data (pos + 4) True) (\<lambda>(value, pos).
       Inr (ReqCDHash value, pos, nodes + 1))
     else if opc = 6 \<or> opc = 7 then
       rbind (readReq data (depth + 1) (pos + 4, nodes + 1)) (\<lambda>(l, st).
       rbind (readReq data (depth + 1) st) (\<lambda>(r, st).
       Inr (if opc = 6 then ReqAnd l r else ReqOr l r, st)))
     else if opc = 9 then
       rbind (readReq data (depth + 1) (pos + 4, nodes + 1)) (\<lambda>(l, st).
       Inr (ReqNot l, st))
     else Inl (Unsupported ''requirement opcode'')))"
  by pat_completeness auto
termination
  by (relation "measure (\<lambda>(_, depth, _). 129 - depth)") auto

declare readReq.simps [simp del]

definition decodeRequirement :: "byte list \<Rightarrow> req result" where
  "decodeRequirement data =
    (if length data < 12 \<or> be32 data 0 \<noteq> MagicRequirement \<or> be32 data 4 \<noteq> length data
        \<or> be32 data 8 \<noteq> 1
     then Inl (Malformed ''standalone requirement'') else
     rbind (readReq data 0 (12, 0)) (\<lambda>(n, pos, _).
     if pos \<noteq> length data then Inl (Malformed ''trailing requirement bytes'') else Inr n))"

section \<open>Evaluation\<close>

text \<open>A verified directory: the parsed fields with the chain and the signing certificate.\<close>

record verified = Directory +
  chain :: "certificate list"
  signer :: "byte list"

text \<open>The certificate index of an operand: from the leaf, or from the root when negative.\<close>

definition chainAt :: "certificate list \<Rightarrow> int \<Rightarrow> certificate option" where
  "chainAt path slot =
    (let i = (if slot < 0 then slot + int (length path) else slot) in
     if i < 0 \<or> i \<ge> int (length path) then None else Some (path ! nat i))"

definition fieldOID :: "gostring \<Rightarrow> gostring" where
  "fieldOID field =
    (if field = str ''subject.CN'' then str ''2.5.4.3''
     else if field = str ''subject.O'' then str ''2.5.4.10''
     else if field = str ''subject.OU'' then str ''2.5.4.11'' else [])"

text \<open>The SHA-1 comparison of opcode 4: an unchained directory has only its signer.\<close>

definition certificateFor :: "verified \<Rightarrow> int \<Rightarrow> byte list" where
  "certificateFor d slot =
    (if chain d \<noteq> [] then (case chainAt (chain d) slot of None \<Rightarrow> [] | Some c \<Rightarrow> raw c)
     else if slot \<noteq> 0 then [] else signer d)"

primrec matches :: "hash_lib \<Rightarrow> req \<Rightarrow> verified \<Rightarrow> bool" where
  "matches H ReqNever d = False"
| "matches H ReqAlways d = True"
| "matches H (ReqIdentifier v) d = (Identifier d = v)"
| "matches H (ReqCertificate slot v) d =
     (certificateFor d slot \<noteq> [] \<and> sha1 H (certificateFor d slot) = v)"
| "matches H (ReqAnd l r) d = (matches H l d \<and> matches H r d)"
| "matches H (ReqOr l r) d = (matches H l d \<or> matches H r d)"
| "matches H (ReqCDHash v) d = (CDHash d = hexEncode v)"
| "matches H (ReqNot l) d = (\<not> matches H l d)"
| "matches H (ReqSubject slot f v) d =
     (case chainAt (chain d) slot of None \<Rightarrow> False
      | Some c \<Rightarrow> (case subjectAttribute c (fieldOID f) of Inl _ \<Rightarrow> False | Inr w \<Rightarrow> w \<noteq> [] \<and> w = v))"
| "matches H (ReqExtension slot f) d =
     (case chainAt (chain d) slot of None \<Rightarrow> False
      | Some c \<Rightarrow> (case decodeOID f of Inl _ \<Rightarrow> False | Inr oid \<Rightarrow> extension c (oidString oid) \<noteq> None))"
| "matches H ReqAnchor d = appleAnchor H (chain d)"

definition EvaluateRequirementBytes :: "hash_lib \<Rightarrow> byte list \<Rightarrow> verified \<Rightarrow> bool result" where
  "EvaluateRequirementBytes H data d = rbind (decodeRequirement data) (\<lambda>n. Inr (matches H n d))"


section \<open>Encoding and decoding are inverse\<close>

text \<open>
  The expressions the decoder can return: certificate indices between -1 and 31, 20-byte
  hashes, known subject fields and object identifiers that decode.
\<close>

definition slot_ok :: "int \<Rightarrow> bool" where
  "slot_ok s \<longleftrightarrow> -1 \<le> s \<and> s \<le> 31"

primrec req_ok :: "req \<Rightarrow> bool" where
  "req_ok ReqNever = True"
| "req_ok ReqAlways = True"
| "req_ok (ReqIdentifier v) = True"
| "req_ok (ReqCertificate slot v) = (slot_ok slot \<and> length v = 20)"
| "req_ok (ReqAnd l r) = (req_ok l \<and> req_ok r)"
| "req_ok (ReqOr l r) = (req_ok l \<and> req_ok r)"
| "req_ok (ReqCDHash v) = (length v = 20)"
| "req_ok (ReqNot l) = req_ok l"
| "req_ok (ReqSubject slot f v) = (slot_ok slot \<and> f \<in> set subjectFields)"
| "req_ok (ReqExtension slot f) = (slot_ok slot \<and> (\<exists>oid. decodeOID f = Inr oid))"
| "req_ok ReqAnchor = True"

text \<open>Nesting depth and node count, the decoder's two limits.\<close>

primrec depth_of :: "req \<Rightarrow> nat" where
  "depth_of ReqNever = 0"
| "depth_of ReqAlways = 0"
| "depth_of (ReqIdentifier v) = 0"
| "depth_of (ReqCertificate slot v) = 0"
| "depth_of (ReqAnd l r) = Suc (max (depth_of l) (depth_of r))"
| "depth_of (ReqOr l r) = Suc (max (depth_of l) (depth_of r))"
| "depth_of (ReqCDHash v) = 0"
| "depth_of (ReqNot l) = Suc (depth_of l)"
| "depth_of (ReqSubject slot f v) = 0"
| "depth_of (ReqExtension slot f) = 0"
| "depth_of ReqAnchor = 0"

primrec nodes_of :: "req \<Rightarrow> nat" where
  "nodes_of ReqNever = 1"
| "nodes_of ReqAlways = 1"
| "nodes_of (ReqIdentifier v) = 1"
| "nodes_of (ReqCertificate slot v) = 1"
| "nodes_of (ReqAnd l r) = Suc (nodes_of l + nodes_of r)"
| "nodes_of (ReqOr l r) = Suc (nodes_of l + nodes_of r)"
| "nodes_of (ReqCDHash v) = 1"
| "nodes_of (ReqNot l) = Suc (nodes_of l)"
| "nodes_of (ReqSubject slot f v) = 1"
| "nodes_of (ReqExtension slot f) = 1"
| "nodes_of ReqAnchor = 1"

text \<open>The words of an expression, independent of what precedes them in the buffer.\<close>

definition dataWords :: "gostring \<Rightarrow> byte list" where
  "dataWords s = put32 (length s) @ s @ replicate (padded (length s) - length s) 0"

primrec wordsOf :: "req \<Rightarrow> byte list" where
  "wordsOf ReqNever = put32 0"
| "wordsOf ReqAlways = put32 1"
| "wordsOf (ReqIdentifier v) = put32 2 @ dataWords v"
| "wordsOf (ReqCertificate slot v) = put32 4 @ put32 (uint32_of slot) @ dataWords v"
| "wordsOf (ReqAnd l r) = put32 6 @ wordsOf l @ wordsOf r"
| "wordsOf (ReqOr l r) = put32 7 @ wordsOf l @ wordsOf r"
| "wordsOf (ReqCDHash v) = put32 8 @ dataWords v"
| "wordsOf (ReqNot l) = put32 9 @ wordsOf l"
| "wordsOf (ReqSubject slot f v) =
     put32 11 @ put32 (uint32_of slot) @ dataWords f @ put32 1 @ dataWords v"
| "wordsOf (ReqExtension slot f) = put32 14 @ put32 (uint32_of slot) @ dataWords f @ put32 0"
| "wordsOf ReqAnchor = put32 15"

lemma padded_bounds: "n \<le> padded n" "padded n < n + 4" "4 dvd padded n"
  unfolding padded_def by presburger+

lemma length_dataWords [simp]: "length (dataWords s) = 4 + padded (length s)"
  using padded_bounds(1) [of "length s"] by (simp add: dataWords_def)

lemma dvd_length_wordsOf: "4 dvd length (wordsOf n)"
  by (induction n) (auto simp: padded_bounds(3))

lemma pad4_replicate: "pad4 dst = dst @ replicate (padded (length dst) - length dst) 0"
proof (induction dst rule: pad4.induct)
  case (1 dst)
  show ?case
  proof (cases "length dst mod 4 = 0")
    case True
    then have "padded (length dst) = length dst" unfolding padded_def by presburger
    with True show ?thesis by (simp add: pad4.simps [of dst])
  next
    case False
    then have "padded (Suc (length dst)) = padded (length dst)" "length dst < padded (length dst)"
      unfolding padded_def by presburger+
    with False 1 show ?thesis
      by (simp add: pad4.simps [of dst] Suc_diff_Suc flip: replicate_Suc)
  qed
qed

lemma padded_aligned: "4 dvd m \<Longrightarrow> padded (m + n) = m + padded n"
  unfolding padded_def by presburger

lemma appendRequirementData_aligned:
  assumes "4 dvd length dst" shows "appendRequirementData dst s = dst @ dataWords s"
proof -
  have "padded (length dst + 4 + length s) = length dst + 4 + padded (length s)"
    using assms by (intro padded_aligned) simp
  then show ?thesis
    by (simp add: appendRequirementData_def append32_def pad4_replicate dataWords_def add.assoc)
qed

lemma encode_wordsOf: "4 dvd length dst \<Longrightarrow> encode n dst = dst @ wordsOf n"
  by (induction n arbitrary: dst)
     (simp_all add: append32_def appendRequirementData_aligned dvd_length_wordsOf padded_bounds(3))

lemma compileNode_words: "compileNode n = blob MagicRequirement (put32 1 @ wordsOf n)"
  by (simp add: compileNode_def encode_wordsOf append32_def)

lemma int32_uint32: "slot_ok s \<Longrightarrow> int32_of (uint32_of s) = s \<and> uint32_of s < 2 ^ 32"
proof (cases "s = -1")
  case False
  assume "slot_ok s"
  with False have "0 \<le> s" "s \<le> 31" by (auto simp: slot_ok_def)
  then show ?thesis by (auto simp: int32_of_def uint32_of_def nat_less_iff)
qed (simp add: int32_of_def uint32_of_def)

text \<open>Reading at a position where known bytes stand.\<close>

lemma be32_at [simp]: "be32 (pre @ put32 v @ post) (length pre) = v mod 2 ^ 32"
  by (simp add: be32_append2 be32_put32)

lemma rd32_at: "pos = length pre \<Longrightarrow> v < 2 ^ 32 \<Longrightarrow> rd32 (pre @ put32 v @ post) pos = Inr v"
  by (simp add: rd32_def be32_at)

lemma readWord_at: "pos = length pre \<Longrightarrow> v < 2 ^ 32 \<Longrightarrow> readWord (pre @ put32 v @ post) pos = Inr (v, pos + 4)"
  by (simp add: readWord_def rd32_at)

lemma readString_at:
  assumes "pos = length pre" "length s < 2 ^ 32"
  shows "readString (pre @ dataWords s @ post) pos = Inr (s, pos + length (dataWords s))"
proof -
  have "slice (pre @ dataWords s @ post) (pos + 4) (length s) = s"
    by (simp add: assms(1) dataWords_def slice_def)
  then show ?thesis
    using assms padded_bounds(1) [of "length s"] readWord_at [of pos pre "length s"]
    by (simp add: readString_def dataWords_def rangeOK_iff)
qed

lemma readValue_at:
  assumes "pos = length pre" "length s < 2 ^ 32" "hash \<Longrightarrow> length s = 20"
  shows "readValue (pre @ dataWords s @ post) pos hash = Inr (s, pos + length (dataWords s))"
proof -
  have "slice (pre @ dataWords s @ post) (pos + 4) (length s) = s"
    by (simp add: assms(1) dataWords_def slice_def)
  then show ?thesis
    using assms padded_bounds(1) [of "length s"] readWord_at [of pos pre "length s"]
    by (auto simp: readValue_def dataWords_def rangeOK_iff)
qed

lemma readSlot_at:
  "pos = length pre \<Longrightarrow> slot_ok s \<Longrightarrow> readSlot (pre @ put32 (uint32_of s) @ post) pos = Inr (s, pos + 4)"
  using int32_uint32 [of s] by (simp add: readSlot_def readWord_at slot_ok_def)

lemma readCertificateSlot_at:
  "pos = length pre \<Longrightarrow> slot_ok s \<Longrightarrow>
   readCertificateSlot (pre @ put32 (uint32_of s) @ post) pos = Inr (s, pos + 4)"
  using int32_uint32 [of s] by (simp add: readCertificateSlot_def be32_at slot_ok_def)


lemma readReq_at:
  assumes "req_ok n" "depth + depth_of n \<le> 128" "nodes + nodes_of n \<le> 4096"
    and "data = pre @ wordsOf n @ post" "length data < 2 ^ 32"
  shows "readReq data depth (length pre, nodes) =
    Inr (n, length pre + length (wordsOf n), nodes + nodes_of n)"
  using assms
proof (induction n arbitrary: depth nodes pre post)
  case (ReqAnd l r)
  let ?p = "pre @ put32 6" and ?q = "pre @ put32 6 @ wordsOf l"
  have l: "readReq data (depth + 1) (length ?p, nodes + 1) =
      Inr (l, length ?p + length (wordsOf l), nodes + 1 + nodes_of l)"
    by (rule ReqAnd.IH(1) [where post = "wordsOf r @ post"]) (use ReqAnd.prems in auto)
  have r: "readReq data (depth + 1) (length ?q, nodes + 1 + nodes_of l) =
      Inr (r, length ?q + length (wordsOf r), nodes + 1 + nodes_of l + nodes_of r)"
    by (rule ReqAnd.IH(2) [where post = post]) (use ReqAnd.prems in auto)
  have "rd32 data (length pre) = Inr 6" "length pre + 4 \<le> length data" using ReqAnd.prems(4) by simp_all
  then show ?case
    using l r ReqAnd.prems(1-3) by (simp add: readReq.simps [of data depth] add.assoc)
next
  case (ReqOr l r)
  let ?p = "pre @ put32 7" and ?q = "pre @ put32 7 @ wordsOf l"
  have l: "readReq data (depth + 1) (length ?p, nodes + 1) =
      Inr (l, length ?p + length (wordsOf l), nodes + 1 + nodes_of l)"
    by (rule ReqOr.IH(1) [where post = "wordsOf r @ post"]) (use ReqOr.prems in auto)
  have r: "readReq data (depth + 1) (length ?q, nodes + 1 + nodes_of l) =
      Inr (r, length ?q + length (wordsOf r), nodes + 1 + nodes_of l + nodes_of r)"
    by (rule ReqOr.IH(2) [where post = post]) (use ReqOr.prems in auto)
  have "rd32 data (length pre) = Inr 7" "length pre + 4 \<le> length data" using ReqOr.prems(4) by simp_all
  then show ?case
    using l r ReqOr.prems(1-3) by (simp add: readReq.simps [of data depth] add.assoc)
next
  case (ReqNot l)
  let ?p = "pre @ put32 9"
  have l: "readReq data (depth + 1) (length ?p, nodes + 1) =
      Inr (l, length ?p + length (wordsOf l), nodes + 1 + nodes_of l)"
    by (rule ReqNot.IH [where post = post]) (use ReqNot.prems in auto)
  have "rd32 data (length pre) = Inr 9" "length pre + 4 \<le> length data" using ReqNot.prems(4) by simp_all
  then show ?case
    using l ReqNot.prems(1-3) by (simp add: readReq.simps [of data depth] add.assoc)
next
  case (ReqIdentifier v)
  have "rd32 data (length pre) = Inr 2" "length pre + 4 \<le> length data" using ReqIdentifier.prems(4) by simp_all
  moreover have "readValue data (length pre + 4) False = Inr (v, length pre + 4 + length (dataWords v))"
    using ReqIdentifier.prems readValue_at [of "length pre + 4" "pre @ put32 2" v False post]
      padded_bounds(1) [of "length v"] by simp
  ultimately show ?case
    using ReqIdentifier.prems(1-3) by (simp add: readReq.simps [of data depth])
next
  case (ReqCDHash v)
  have "rd32 data (length pre) = Inr 8" "length pre + 4 \<le> length data" using ReqCDHash.prems(4) by simp_all
  moreover have "readValue data (length pre + 4) True = Inr (v, length pre + 4 + length (dataWords v))"
    using ReqCDHash.prems readValue_at [of "length pre + 4" "pre @ put32 8" v True post]
      padded_bounds(1) [of "length v"] by simp
  ultimately show ?case
    using ReqCDHash.prems(1-3) by (simp add: readReq.simps [of data depth])
next
  case (ReqCertificate slot v)
  have "rd32 data (length pre) = Inr 4" "length pre + 4 \<le> length data" using ReqCertificate.prems(4) by simp_all
  moreover have "readCertificateSlot data (length pre + 4) = Inr (slot, length pre + 8)"
    using ReqCertificate.prems readCertificateSlot_at [of "length pre + 4" "pre @ put32 4" slot "dataWords v @ post"]
    by simp
  moreover have "readValue data (length pre + 8) True = Inr (v, length pre + 8 + length (dataWords v))"
    using ReqCertificate.prems
      readValue_at [of "length pre + 8" "pre @ put32 4 @ put32 (uint32_of slot)" v True post]
      padded_bounds(1) [of "length v"] by simp
  ultimately show ?case
    using ReqCertificate.prems(1-3) by (simp add: readReq.simps [of data depth])
next
  case (ReqExtension slot f)
  have "rd32 data (length pre) = Inr 14" "length pre + 4 \<le> length data" using ReqExtension.prems(4) by simp_all
  moreover have "readSlot data (length pre + 4) = Inr (slot, length pre + 8)"
    using ReqExtension.prems readSlot_at [of "length pre + 4" "pre @ put32 14" slot] by simp
  moreover have "readString data (length pre + 8) = Inr (f, length pre + 8 + length (dataWords f))"
    using ReqExtension.prems
      readString_at [of "length pre + 8" "pre @ put32 14 @ put32 (uint32_of slot)" f]
      padded_bounds(1) [of "length f"] by simp
  moreover have "readWord data (length pre + 8 + length (dataWords f)) =
      Inr (0, length pre + 12 + length (dataWords f))"
    using ReqExtension.prems
      readWord_at [of "length pre + 8 + length (dataWords f)"
        "pre @ put32 14 @ put32 (uint32_of slot) @ dataWords f" 0 post]
    by simp
  ultimately show ?case
    using ReqExtension.prems(1-3) by (auto simp: readReq.simps [of data depth])
next
  case (ReqSubject slot f v)
  let ?pre = "pre @ put32 11 @ put32 (uint32_of slot)"
  have "rd32 data (length pre) = Inr 11" "length pre + 4 \<le> length data" using ReqSubject.prems(4) by simp_all
  moreover have "readSlot data (length pre + 4) = Inr (slot, length pre + 8)"
    using ReqSubject.prems readSlot_at [of "length pre + 4" "pre @ put32 11" slot] by simp
  moreover have "readString data (length pre + 8) = Inr (f, length pre + 8 + length (dataWords f))"
    using ReqSubject.prems readString_at [of "length pre + 8" ?pre f]
      padded_bounds(1) [of "length f"] by simp
  moreover have "readWord data (length pre + 8 + length (dataWords f)) =
      Inr (1, length pre + 12 + length (dataWords f))"
    using ReqSubject.prems
      readWord_at [of "length pre + 8 + length (dataWords f)" "?pre @ dataWords f" 1 "dataWords v @ post"]
    by simp
  moreover have "readString data (length pre + 12 + length (dataWords f)) =
      Inr (v, length pre + 12 + length (dataWords f) + length (dataWords v))"
    using ReqSubject.prems readString_at [of "length pre + 12 + length (dataWords f)"
        "?pre @ dataWords f @ put32 1" v post]
      padded_bounds(1) [of "length v"] by simp
  ultimately show ?case
    using ReqSubject.prems(1-3) by (simp add: readReq.simps [of data depth])
qed (simp_all add: readReq.simps)

text \<open>The expressions whose compiled form the decoder accepts, limits included.\<close>

definition req_fits :: "req \<Rightarrow> bool" where
  "req_fits n \<longleftrightarrow> req_ok n \<and> depth_of n \<le> 128 \<and> nodes_of n \<le> 4096 \<and> length (wordsOf n) + 12 < 2 ^ 32"

lemma length_compileNode [simp]: "length (compileNode n) = 12 + length (wordsOf n)"
  by (simp add: compileNode_words blob_def)

lemma compileNode_header:
  "length (wordsOf n) + 12 < 2 ^ 32 \<Longrightarrow> be32 (compileNode n) 0 = MagicRequirement \<and>
     be32 (compileNode n) 4 = length (compileNode n) \<and> be32 (compileNode n) 8 = 1"
  by (simp add: compileNode_words blob_def byte_simps MagicRequirement_def)

lemma decode_compile:
  assumes "req_fits n" shows "decodeRequirement (compileNode n) = Inr n"
proof -
  have "readReq (compileNode n) 0 (length (put32 MagicRequirement @ put32 (12 + length (wordsOf n)) @ put32 1), 0) =
      Inr (n, 12 + length (wordsOf n), 0 + nodes_of n)"
    using assms readReq_at [of n 0 0 "compileNode n" "put32 MagicRequirement @ put32 (12 + length (wordsOf n)) @ put32 1" "[]"]
    by (simp add: req_fits_def compileNode_words blob_def)
  then show ?thesis
    using assms compileNode_header [of n] by (simp add: decodeRequirement_def req_fits_def)
qed

end
