(* ===== verification/Requirement_Sets.thy ===== *)
theory Requirement_Sets
  imports Requirements
begin

text \<open>
  Requirement sets: their validation (requirements.go), the designated requirement of
  requirement_text.go and requirement_metadata.go, the merge of requirement_sign.go and
  the checks of requirement_verify.go.
\<close>

section \<open>The decoder's guarantees\<close>

lemma readWord_safe [simp]: "safe (readWord data pos)"
  by (simp add: readWord_def)

lemma decodeOID_safe [simp]: "safe (decodeOID f)"
  by (simp add: decodeOID_def split: option.split)

lemma readSlot_safe [simp]: "safe (readSlot data pos)"
  by (auto simp: readSlot_def intro!: safe_rbind)

lemma readCertificateSlot_safe [simp]: "safe (readCertificateSlot data pos)"
  by (auto simp: readCertificateSlot_def intro!: safe_rbind)

lemma slice_at_padded_safe: "pos + padded n \<le> length data \<Longrightarrow> safe (slice_at data pos n)"
  using padded_bounds(1) [of n] by simp

lemma readString_safe [simp]: "safe (readString data pos)"
  by (auto simp: readString_def rangeOK_iff intro!: safe_rbind slice_at_padded_safe)

lemma readValue_safe [simp]: "safe (readValue data pos hash)"
  by (auto simp: readValue_def rangeOK_iff intro!: safe_rbind slice_at_padded_safe)

text \<open>Induction on the levels that are left below the depth limit.\<close>

lemma depth_induct:
  fixes depth :: nat
  assumes "\<And>depth pos nodes. (\<And>pos nodes. depth \<le> 128 \<Longrightarrow> P (depth + 1) pos nodes) \<Longrightarrow> P depth pos nodes"
  shows "P depth pos nodes"
proof (induction "129 - depth" arbitrary: depth pos nodes rule: less_induct)
  case less
  show ?case by (rule assms) (simp add: less)
qed

lemma readReq_safe: "safe (readReq data depth (pos, nodes))"
proof (induction depth pos nodes rule: depth_induct)
  case (1 depth pos nodes)
  show ?case
  proof (cases "depth > 128 \<or> nodes + 1 > 4096 \<or> pos + 4 > length data")
    case False
    then have read: "rd32 data pos = Inr (be32 data pos)" by simp
    from False 1 have IH: "safe (readReq data (Suc depth) st)" for st
      by (cases st) simp
    show ?thesis
      unfolding readReq.simps [of data depth] read rbind_Inr
      by (rule safe_if safe_rbind_pair safe_rbind | simp add: IH)+
  qed (auto simp: readReq.simps [of data depth])
qed

lemma decodeRequirement_safe: "safe (decodeRequirement data)"
  unfolding decodeRequirement_def
  by (auto intro!: safe_rbind readReq_safe)

lemma readWord_Inr [result_simps]:
  "readWord data pos = Inr (v, pos') \<longleftrightarrow> pos + 4 \<le> length data \<and> v = be32 data pos \<and> pos' = pos + 4"
  by (auto simp: readWord_def result_simps)

lemma readString_Inr:
  "readString data pos = Inr (s, pos') \<Longrightarrow> pos' = pos + length (dataWords s) \<and> pos' \<le> length data"
  using padded_bounds(1) [of "be32 data pos"]
  by (auto simp: readString_def result_simps rangeOK_iff)

lemma readValue_Inr:
  "readValue data pos hash = Inr (s, pos') \<Longrightarrow>
   pos' = pos + length (dataWords s) \<and> pos' \<le> length data \<and> (hash \<longrightarrow> length s = 20)"
  using padded_bounds(1) [of "be32 data pos"]
  by (auto simp: readValue_def result_simps rangeOK_iff)

lemma readSlot_Inr: "readSlot data pos = Inr (s, pos') \<Longrightarrow> slot_ok s \<and> pos' = pos + 4"
  by (auto simp: readSlot_def result_simps slot_ok_def)

lemma readCertificateSlot_Inr: "readCertificateSlot data pos = Inr (s, pos') \<Longrightarrow> slot_ok s \<and> pos' = pos + 4"
  by (auto simp: readCertificateSlot_def result_simps slot_ok_def)

text \<open>What the recursive reader returns is well-formed and accounts for its bytes and nodes.\<close>

definition read_ok :: "byte list \<Rightarrow> nat \<Rightarrow> nat \<Rightarrow> nat \<Rightarrow> req \<times> nat \<times> nat \<Rightarrow> bool" where
  "read_ok data depth pos nodes r \<longleftrightarrow> (case r of (n, pos', nodes') \<Rightarrow>
     req_ok n \<and> depth + depth_of n \<le> 128 \<and> nodes' = nodes + nodes_of n \<and> nodes' \<le> 4096 \<and>
     pos' = pos + length (wordsOf n) \<and> pos' \<le> length data)"

lemma readReq_ok: "readReq data depth (pos, nodes) = Inr r \<Longrightarrow> read_ok data depth pos nodes r"
proof (induction depth pos nodes arbitrary: r rule: depth_induct)
  case (1 depth pos nodes)
  from 1(2) have g: "depth \<le> 128" "nodes + 1 \<le> 4096" "pos + 4 \<le> length data"
    unfolding readReq.simps [of data depth] by (auto simp: guard_eq_Inr)
  then have read: "rd32 data pos = Inr (be32 data pos)" by simp
  note body = 1(2) [unfolded readReq.simps [of data depth] read rbind_Inr]
  show ?case
  proof (cases "be32 data pos \<in> {6, 7, 9}")
    case True
    consider (two) l pos1 nodes1 r' st' where
        "readReq data (depth + 1) (pos + 4, nodes + 1) = Inr (l, pos1, nodes1)"
        "readReq data (depth + 1) (pos1, nodes1) = Inr (r', st')"
        "r = (if be32 data pos = 6 then ReqAnd l r' else ReqOr l r', st')"
      | (one) l st where "readReq data (depth + 1) (pos + 4, nodes + 1) = Inr (l, st)"
        "r = (ReqNot l, st)"
      using body g True by (auto simp: result_simps)
    then show ?thesis
    proof cases
      case two
      from 1(1) [OF g(1) two(1)] 1(1) [OF g(1) two(2)] two(3) show ?thesis
        by (cases st') (auto simp: read_ok_def)
    next
      case one
      from 1(1) [OF g(1) one(1)] one(2) show ?thesis by (cases st) (auto simp: read_ok_def)
    qed
  next
    case False
    with body g show ?thesis
      by (auto simp: result_simps read_ok_def subjectFields_def split: if_split_asm
          dest!: readString_Inr readValue_Inr readSlot_Inr readCertificateSlot_Inr)
  qed
qed

lemma decodeRequirement_ok:
  assumes "decodeRequirement data = Inr n"
  shows "req_fits n \<and> length data = 12 + length (wordsOf n) \<and> be32 data 4 = length data"
proof -
  from assms obtain pos nodes where r: "readReq data 0 (12, 0) = Inr (n, pos, nodes)"
      "pos = length data" "be32 data 4 = length data"
    by (auto simp: decodeRequirement_def result_simps)
  from readReq_ok [OF r(1)] r be32_less [of data 4] show ?thesis
    by (auto simp: read_ok_def req_fits_def)
qed

section \<open>Validation of a set\<close>

text \<open>
  One index entry of validateRequirements; the state is \<open>seen\<close> and \<open>spans\<close>.
  \<open>12 + count * 8\<close> is a uint32 expression.
\<close>

definition reqEntry ::
  "byte list \<Rightarrow> nat \<Rightarrow> nat \<Rightarrow> nat list \<times> (nat \<times> nat) list \<Rightarrow> (nat list \<times> (nat \<times> nat) list) result" where
  "reqEntry data cnt i st = (case st of (known, ranges) \<Rightarrow>
    rbind (rd32 data (12 + i * 8)) (\<lambda>slot. rbind (rd32 data (16 + i * 8)) (\<lambda>off.
    if slot \<in> set known \<or> off < (12 + cnt * 8) mod 2 ^ 32 \<or> \<not> rangeOK off 12 (length data)
    then Inl (Malformed ''requirement offset'') else
    rbind (rd32 data (off + 4)) (\<lambda>n.
    if n < 12 \<or> \<not> rangeOK off n (length data) then Inl (Malformed ''requirement blob'') else
    rbind (rd32 data off) (\<lambda>magic. rbind (rd32 data (off + 8)) (\<lambda>kind.
    if magic \<noteq> MagicRequirement \<or> kind \<noteq> 1 then Inl (Malformed ''requirement blob'') else
    Inr (slot # known, ranges @ [(off, off + n)])))))))"

fun reqEntries ::
  "byte list \<Rightarrow> nat \<Rightarrow> nat \<Rightarrow> nat \<Rightarrow> nat list \<times> (nat \<times> nat) list \<Rightarrow> (nat list \<times> (nat \<times> nat) list) result"
where
  "reqEntries data cnt i 0 st = Inr st"
| "reqEntries data cnt i (Suc k) st = rbind (reqEntry data cnt i st) (reqEntries data cnt (Suc i) k)"

text \<open>The pass over the sorted spans: overlap with the predecessor, then the decoder.\<close>

fun reqSpans :: "byte list \<Rightarrow> nat \<Rightarrow> (nat \<times> nat) list \<Rightarrow> unit result" where
  "reqSpans data prevEnd [] = Inr ()"
| "reqSpans data prevEnd ((start, fin) # rest) =
    (if start < prevEnd then Inl (Malformed ''overlapping requirements'') else
     rbind (slice_at data start (fin - start)) (\<lambda>d.
     rbind (decodeRequirement d) (\<lambda>_. reqSpans data fin rest)))"

definition validateRequirements :: "byte list \<Rightarrow> unit result" where
  "validateRequirements data =
    (if length data < 12 \<or> be32 data 0 \<noteq> MagicRequirements \<or> be32 data 4 \<noteq> length data
     then Inl (Malformed ''requirements set'') else
     rbind (rd32 data 8) (\<lambda>cnt.
     if cnt * 8 + 12 > length data then Inl (Malformed ''requirements index'') else
     rbind (reqEntries data cnt 0 cnt ([], [])) (\<lambda>(_, ranges).
     reqSpans data 0 (sort_key fst ranges))))"

text \<open>
  The loop every user of a valid set runs over its index: kind and bytes of each entry,
  with the reads checked.
\<close>

fun setEntries :: "byte list \<Rightarrow> nat \<Rightarrow> nat \<Rightarrow> (nat \<times> byte list) list result" where
  "setEntries data i 0 = Inr []"
| "setEntries data i (Suc k) =
    rbind (rd32 data (12 + i * 8)) (\<lambda>kind. rbind (rd32 data (16 + i * 8)) (\<lambda>off.
    rbind (rd32 data (off + 4)) (\<lambda>len. rbind (slice_at data off len) (\<lambda>entry.
    rbind (setEntries data (Suc i) k) (\<lambda>rest. Inr ((kind, entry) # rest))))))"

definition requirementEntries :: "byte list \<Rightarrow> (nat \<times> byte list) list result" where
  "requirementEntries data = rbind (rd32 data 8) (setEntries data 0)"

section \<open>The users of a set\<close>

text \<open>checkDesignatedRequirement: every entry of kind 3 must match.\<close>

fun checkEntries :: "hash_lib \<Rightarrow> verified \<Rightarrow> (nat \<times> byte list) list \<Rightarrow> unit result" where
  "checkEntries H d [] = Inr ()"
| "checkEntries H d ((kind, entry) # rest) =
    (if kind \<noteq> 3 then checkEntries H d rest else
     rbind (EvaluateRequirementBytes H entry d) (\<lambda>ok.
     if \<not> ok then Inl ErrDesignatedRequirement else checkEntries H d rest))"

definition checkDesignatedRequirement :: "hash_lib \<Rightarrow> byte list \<Rightarrow> verified \<Rightarrow> unit result" where
  "checkDesignatedRequirement H data d =
    (if data = [] then Inr () else
     rbind (validateRequirements data) (\<lambda>_.
     rbind (requirementEntries data) (checkEntries H d)))"

text \<open>
  designatedRequirement of requirement_text.go, on the bytes of the requirements slot:
  the first entry of kind 3, decoded.
\<close>

definition designatedRequirement :: "byte list \<Rightarrow> req option result" where
  "designatedRequirement data =
    (if data = [] then Inr None else
     rbind (validateRequirements data) (\<lambda>_.
     rbind (requirementEntries data) (\<lambda>entries.
     case List.find (\<lambda>e. fst e = 3) entries of
       None \<Rightarrow> Inr None | Some (_, entry) \<Rightarrow> rbind (decodeRequirement entry) (\<lambda>n. Inr (Some n)))))"

text \<open>
  prepareRequirements. \<open>generated\<close> is the outcome of defaultCertificateRequirement, which
  is called only for a signer with a chain and a set without a designated entry; the
  result is the new value of opts.Requirements.
\<close>

definition requirementSetBytes :: "(nat \<times> byte list) list \<Rightarrow> byte list" where
  "requirementSetBytes entries =
     superblob MagicRequirements (map (\<lambda>(kind, data). \<lparr>Slot = kind, Magic = 0, Data = data\<rparr>) entries)"

definition prepareRequirements ::
  "byte list \<Rightarrow> certificate list \<Rightarrow> byte list result \<Rightarrow> byte list result" where
  "prepareRequirements data path generated =
    (if length data > 2 ^ 20 \<or> length data \<ge> 12 \<and> be32 data 0 = MagicRequirements \<and> be32 data 8 > 64
     then Inl (Unsupported ''requirements set exceeds 1 MiB or 64 entries'') else
     rbind (if data = [] then Inr [] else
            rbind (validateRequirements data) (\<lambda>_. requirementEntries data)) (\<lambda>entries.
     rbind (if (\<exists>e \<in> set entries. fst e = 3) \<or> path = [] then Inr entries else
            rbind generated (\<lambda>g. rbind (rd32 g 16) (\<lambda>offset.
            if offset > length g then Inl Panic else Inr (entries @ [(3, drop offset g)])))) (\<lambda>entries.
     if length entries > 64 then Inl (Unsupported ''default requirement exceeds 64-entry set limit'') else
     let merged = requirementSetBytes entries in
     if length merged > 2 ^ 20 then Inl (Unsupported ''default requirement exceeds 1 MiB set limit'')
     else Inr merged)))"

section \<open>What validation accepts\<close>

definition entryLen :: "byte list \<Rightarrow> nat \<Rightarrow> nat" where
  "entryLen data i = be32 data (entryOff data i + 4)"

definition entrySpan :: "byte list \<Rightarrow> nat \<Rightarrow> nat \<times> nat" where
  "entrySpan data i = (entryOff data i, entryOff data i + entryLen data i)"

definition entryBytes :: "byte list \<Rightarrow> nat \<Rightarrow> byte list" where
  "entryBytes data i = slice data (entryOff data i) (entryLen data i)"

text \<open>The checks on one entry: after the index, inside the set, a requirement header.\<close>

definition entry_in :: "byte list \<Rightarrow> nat \<Rightarrow> nat \<Rightarrow> bool" where
  "entry_in data cnt i \<longleftrightarrow> 12 + cnt * 8 \<le> entryOff data i \<and> 12 \<le> entryLen data i \<and>
     entryOff data i + entryLen data i \<le> length data \<and>
     be32 data (entryOff data i) = MagicRequirement \<and> be32 data (entryOff data i + 8) = 1"

definition set_wf :: "byte list \<Rightarrow> bool" where
  "set_wf data \<longleftrightarrow> 12 + be32 data 8 * 8 \<le> length data \<and> be32 data 0 = MagicRequirements \<and>
     be32 data 4 = length data \<and>
     (\<forall>i < be32 data 8. entry_in data (be32 data 8) i \<and> (\<exists>n. decodeRequirement (entryBytes data i) = Inr n)) \<and>
     distinct (map (entrySlot data) [0..<be32 data 8]) \<and>
     disjointSpans (map (entrySpan data) [0..<be32 data 8])"

lemma reqEntry_Inr:
  assumes "12 + Suc i * 8 \<le> length data" "12 + cnt * 8 < 2 ^ 32"
  shows "reqEntry data cnt i (known, ranges) = Inr st \<longleftrightarrow>
    entry_in data cnt i \<and> entrySlot data i \<notin> set known \<and>
    st = (entrySlot data i # known, ranges @ [entrySpan data i])"
proof -
  have "rd32 data (12 + i * 8) = Inr (entrySlot data i)" "rd32 data (16 + i * 8) = Inr (entryOff data i)"
    using assms by (simp_all add: entrySlot_def entryOff_def mult.commute)
  then show ?thesis
    using assms unfolding reqEntry_def
    by (auto simp: result_simps rangeOK_iff entry_in_def entryLen_def entrySpan_def)
qed

lemma reqEntries_Inr:
  assumes "12 + cnt * 8 \<le> length data" "12 + cnt * 8 < 2 ^ 32"
  shows "i + k \<le> cnt \<Longrightarrow> reqEntries data cnt i k (known, ranges) = Inr st \<longleftrightarrow>
    (\<forall>j \<in> {i..<i + k}. entry_in data cnt j \<and> entrySlot data j \<notin> set known) \<and>
    distinct (map (entrySlot data) [i..<i + k]) \<and>
    st = (rev (map (entrySlot data) [i..<i + k]) @ known, ranges @ map (entrySpan data) [i..<i + k])"
proof (induction k arbitrary: i known ranges)
  case (Suc k)
  have r: "reqEntry data cnt i (known, ranges) = Inr st' \<longleftrightarrow>
      entry_in data cnt i \<and> entrySlot data i \<notin> set known \<and>
      st' = (entrySlot data i # known, ranges @ [entrySpan data i])" for st'
    using Suc.prems assms by (intro reqEntry_Inr) auto
  have range: "{i..<i + Suc k} = insert i {Suc i..<Suc i + k}" by auto
  have upt: "[i..<i + Suc k] = i # [Suc i..<Suc i + k]" by (simp add: upt_conv_Cons)
  show ?case
    unfolding reqEntries.simps rbind_eq_Inr r range upt
    using Suc.IH [of "Suc i" "entrySlot data i # known"] Suc.prems
    by (auto simp del: upt_Suc) (metis atLeastLessThan_iff image_eqI)
qed auto

lemma reqSpans_Inr:
  "(\<forall>x \<in> set xs. fst x \<le> snd x \<and> snd x \<le> length data) \<Longrightarrow>
   reqSpans data p xs = Inr () \<longleftrightarrow> (xs = [] \<or> p \<le> fst (hd xs)) \<and> \<not> adjacentOverlap xs \<and>
     (\<forall>x \<in> set xs. \<exists>n. decodeRequirement (slice data (fst x) (snd x - fst x)) = Inr n)"
proof (induction xs arbitrary: p)
  case (Cons x xs)
  then show ?case
    by (cases x; cases xs) (auto simp: result_simps not_less)
qed simp

lemma validateRequirements_iff: "validateRequirements data = Inr () \<longleftrightarrow> set_wf data"
proof (cases "12 \<le> length data \<and> be32 data 0 = MagicRequirements \<and> be32 data 4 = length data
    \<and> be32 data 8 * 8 + 12 \<le> length data")
  case True
  let ?cnt = "be32 data 8" and ?spans = "map (entrySpan data) [0..<be32 data 8]"
  have hdr: "12 + ?cnt * 8 \<le> length data" "12 + ?cnt * 8 < 2 ^ 32"
    using True be32_less [of data 4] by auto
  have "validateRequirements data = Inr () \<longleftrightarrow>
      (\<forall>i < ?cnt. entry_in data ?cnt i) \<and> distinct (map (entrySlot data) [0..<?cnt]) \<and>
      reqSpans data 0 (sort_key fst ?spans) = Inr ()"
    using True reqEntries_Inr [OF hdr, of 0 ?cnt "[]" "[]"]
    unfolding validateRequirements_def by (auto simp: result_simps)
  moreover have "reqSpans data 0 (sort_key fst ?spans) = Inr () \<longleftrightarrow>
      disjointSpans ?spans \<and> (\<forall>i < ?cnt. \<exists>n. decodeRequirement (entryBytes data i) = Inr n)"
    if "\<forall>i < ?cnt. entry_in data ?cnt i"
  proof -
    have "\<forall>x \<in> set (sort_key fst ?spans). fst x \<le> snd x \<and> snd x \<le> length data"
      using that by (auto simp: entrySpan_def entry_in_def)
    moreover have "\<forall>x \<in> set ?spans. fst x < snd x"
      using that by (force simp: entrySpan_def entry_in_def)
    ultimately show ?thesis
      by (simp add: reqSpans_Inr adjacentOverlap_iff) (auto simp: entrySpan_def entryBytes_def)
  qed
  ultimately show ?thesis
    using True by (auto simp: set_wf_def)
next
  case False
  then show ?thesis
    by (auto simp: validateRequirements_def set_wf_def result_simps)
qed

lemma setEntries_Inr:
  "(\<forall>j \<in> {i..<i + k}. entry_in data cnt j) \<Longrightarrow> 12 + (i + k) * 8 \<le> length data \<Longrightarrow>
   setEntries data i k = Inr (map (\<lambda>j. (entrySlot data j, entryBytes data j)) [i..<i + k])"
proof (induction k arbitrary: i)
  case (Suc k)
  have "rd32 data (12 + i * 8) = Inr (entrySlot data i)" "rd32 data (16 + i * 8) = Inr (entryOff data i)"
    using Suc.prems by (simp_all add: entrySlot_def entryOff_def mult.commute)
  moreover have "entry_in data cnt i" using Suc.prems(1) by simp
  then have "rd32 data (entryOff data i + 4) = Inr (entryLen data i)"
    "slice_at data (entryOff data i) (entryLen data i) = Inr (entryBytes data i)"
    by (simp_all add: entry_in_def entryLen_def entryBytes_def)
  moreover have "setEntries data (Suc i) k =
      Inr (map (\<lambda>j. (entrySlot data j, entryBytes data j)) [Suc i..<Suc i + k])"
    using Suc.prems by (intro Suc.IH) auto
  moreover have "[i..<i + Suc k] = i # [Suc i..<Suc i + k]" by (simp add: upt_conv_Cons)
  ultimately show ?case
    by (simp only: setEntries.simps rbind_Inr list.map)
qed simp

lemma requirementEntries_wf:
  assumes "set_wf data"
  shows "requirementEntries data =
    Inr (map (\<lambda>i. (entrySlot data i, entryBytes data i)) [0..<be32 data 8])"
proof -
  have "12 \<le> length data" using assms by (auto simp: set_wf_def)
  with assms show ?thesis
    using setEntries_Inr [of 0 "be32 data 8" data "be32 data 8"]
    by (simp add: requirementEntries_def set_wf_def mult.commute)
qed

lemma validateRequirements_safe: "safe (validateRequirements data)"
proof -
  have entries: "safe (reqEntries data cnt i k st)" if "12 + (i + k) * 8 \<le> length data" for cnt i k st
    using that
  proof (induction k arbitrary: i st)
    case (Suc k)
    have "safe (reqEntry data cnt i st)"
      using Suc.prems unfolding reqEntry_def rangeOK_iff
      by (cases st) (auto intro!: safe_if safe_rbind)
    with Suc show ?case by (auto intro: safe_rbind)
  qed simp
  have spans: "safe (reqSpans data p xs)" if "\<forall>x \<in> set xs. fst x \<le> snd x \<and> snd x \<le> length data" for p xs
    using that
    by (induction xs arbitrary: p) (auto intro!: safe_if safe_rbind decodeRequirement_safe)
  show ?thesis
  proof (cases "12 \<le> length data \<and> be32 data 4 = length data \<and> be32 data 8 * 8 + 12 \<le> length data")
    case True
    then have hdr: "12 + be32 data 8 * 8 \<le> length data" "12 + be32 data 8 * 8 < 2 ^ 32"
      using be32_less [of data 4] by auto
    have "safe (reqSpans data 0 (sort_key fst ranges))"
      if "reqEntries data (be32 data 8) 0 (be32 data 8) ([], []) = Inr (known, ranges)" for known ranges
      using that reqEntries_Inr [OF hdr, of 0 "be32 data 8" "[]" "[]" "(known, ranges)"]
      by (intro spans) (auto simp: entrySpan_def entry_in_def)
    with True hdr show ?thesis
      unfolding validateRequirements_def
      by (auto intro!: safe_if safe_rbind entries)
  next
    case False
    then show ?thesis by (auto simp: validateRequirements_def)
  qed
qed


section \<open>Sets that are written\<close>

text \<open>Entries that make a valid set: distinct 32-bit kinds, each a decodable requirement.\<close>

definition entries_ok :: "(nat \<times> byte list) list \<Rightarrow> bool" where
  "entries_ok entries \<longleftrightarrow> distinct (map fst entries) \<and>
     (\<forall>(kind, data) \<in> set entries. kind < 2 ^ 32 \<and> (\<exists>n. decodeRequirement data = Inr n)) \<and>
     length (requirementSetBytes entries) < 2 ^ 32"

lemma decode_header:
  assumes "decodeRequirement data = Inr n"
  shows "12 \<le> length data \<and> be32 data 0 = MagicRequirement \<and> be32 data 4 = length data \<and> be32 data 8 = 1"
  using assms by (auto simp: decodeRequirement_def guard_eq_Inr)

lemma be32_slice_at:
  "slice data off n = ys \<Longrightarrow> length ys = n \<Longrightarrow> k + 4 \<le> n \<Longrightarrow> be32 data (off + k) = be32 ys k"
  by (metis be32_slice)

definition blobsOf :: "(nat \<times> byte list) list \<Rightarrow> Blob list" where
  "blobsOf entries = sort_key Slot (map (\<lambda>(kind, data). \<lparr>Slot = kind, Magic = 0, Data = data\<rparr>) entries)"

lemma requirementSetBytes_layout: "requirementSetBytes entries = sb_layout MagicRequirements (blobsOf entries)"
  by (simp add: requirementSetBytes_def superblob_layout blobsOf_def)

lemma set_blobsOf:
  "set (blobsOf entries) = (\<lambda>(kind, data). \<lparr>Slot = kind, Magic = 0, Data = data\<rparr>) ` set entries"
  by (simp add: blobsOf_def)

lemma distinct_blobsOf: "distinct (map fst entries) \<Longrightarrow> distinct (map Slot (blobsOf entries))"
proof -
  assume "distinct (map fst entries)"
  then have "distinct (map Slot (map (\<lambda>(kind, data). \<lparr>Slot = kind, Magic = 0, Data = data\<rparr>) entries))"
    by (simp add: comp_def case_prod_unfold)
  moreover have "mset (map Slot (blobsOf entries)) =
      mset (map Slot (map (\<lambda>(kind, data). \<lparr>Slot = kind, Magic = 0, Data = data\<rparr>) entries))"
    unfolding blobsOf_def by (simp only: mset_map mset_sort)
  ultimately show ?thesis by (metis mset_eq_imp_distinct_iff)
qed

lemma blobsOf_decode:
  "entries_ok entries \<Longrightarrow> b \<in> set (blobsOf entries) \<Longrightarrow>
   Slot b < 2 ^ 32 \<and> (\<exists>n. decodeRequirement (Data b) = Inr n)"
  unfolding set_blobsOf entries_ok_def by fastforce

lemma written_entry:
  assumes ok: "entries_ok entries" and i: "i < length (blobsOf entries)"
  defines "data \<equiv> requirementSetBytes entries" and "b \<equiv> blobsOf entries ! i"
  shows "entrySlot data i = Slot b" "entryOff data i = 12 + 8 * length (blobsOf entries) + dataOff (blobsOf entries) i"
    "entryLen data i = length (Data b)" "entryBytes data i = Data b"
    "entry_in data (length (blobsOf entries)) i"
proof -
  let ?bs = "blobsOf entries" and ?data = "sb_layout MagicRequirements (blobsOf entries)"
  have fits: "superblobLength ?bs < 2 ^ 32"
    using ok by (simp add: entries_ok_def requirementSetBytes_layout)
  have b: "Slot b < 2 ^ 32" "\<exists>n. decodeRequirement (Data b) = Inr n"
    using blobsOf_decode [OF ok, of b] i by (auto simp: b_def)
  note entry = sb_layout_entry(1-3) [OF fits i b(1) [unfolded b_def], of MagicRequirements, folded b_def]
    sb_layout_entry(4) [OF fits i b(1) [unfolded b_def], folded b_def]
  have data: "data = ?data" by (simp add: data_def requirementSetBytes_layout)
  from b(2) obtain n where "decodeRequirement (Data b) = Inr n" ..
  note hdr = decode_header [OF this]
  have at: "be32 ?data (entryOff ?data i + k) = be32 (Data b) k" if "k + 4 \<le> length (Data b)" for k
    using that entry(2,3) by (intro be32_slice_at) auto
  show "entrySlot data i = Slot b"
      "entryOff data i = 12 + 8 * length (blobsOf entries) + dataOff (blobsOf entries) i"
    using entry(1,2) by (simp_all add: data)
  show len: "entryLen data i = length (Data b)"
    using at [of 4] hdr by (simp add: data entryLen_def)
  show "entryBytes data i = Data b"
    using entry(2,3) len by (simp add: data entryBytes_def)
  show "entry_in data (length ?bs) i"
    using entry(2,4) len hdr at [of 0] at [of 8] by (simp add: data entry_in_def)
qed

lemma written_spans:
  assumes ok: "entries_ok entries"
  shows "disjointSpans (map (entrySpan (requirementSetBytes entries)) [0..<length (blobsOf entries)])"
  unfolding disjointSpans_def sorted_wrt_iff_nth_less
proof (intro allI impI)
  fix i j
  let ?bs = "blobsOf entries"
  assume ij: "i < j" "j < length (map (entrySpan (requirementSetBytes entries)) [0..<length ?bs])"
  then have "dataOff ?bs i + length (Data (?bs ! i)) \<le> dataOff ?bs j"
    using dataOff_mono [of "Suc i" j ?bs] by (simp add: dataOff_Suc)
  with ij show "disjointSpan (map (entrySpan (requirementSetBytes entries)) [0..<length ?bs] ! i)
      (map (entrySpan (requirementSetBytes entries)) [0..<length ?bs] ! j)"
    using written_entry(2,3) [OF ok] by (simp add: disjointSpan_def entrySpan_def)
qed

lemma written_count:
  assumes ok: "entries_ok entries"
  shows "be32 (requirementSetBytes entries) 0 = MagicRequirements"
    "be32 (requirementSetBytes entries) 4 = length (requirementSetBytes entries)"
    "be32 (requirementSetBytes entries) 8 = length (blobsOf entries)"
  using ok sb_layout_header [of "blobsOf entries" MagicRequirements]
  by (simp_all add: entries_ok_def requirementSetBytes_layout MagicRequirements_def)

lemma written_set_wf:
  assumes ok: "entries_ok entries" shows "set_wf (requirementSetBytes entries)"
proof -
  let ?bs = "blobsOf entries"
  have len: "12 + length ?bs * 8 \<le> length (requirementSetBytes entries)"
    by (simp add: requirementSetBytes_layout superblobLength_def)
  have slots: "map (entrySlot (requirementSetBytes entries)) [0..<length ?bs] = map Slot ?bs"
    using written_entry(1) [OF ok] by (auto intro: nth_equalityI)
  have "distinct (map Slot ?bs)"
    using ok by (intro distinct_blobsOf) (simp add: entries_ok_def)
  with len slots written_spans [OF ok] written_entry(4,5) [OF ok] blobsOf_decode [OF ok] show ?thesis
    unfolding set_wf_def written_count [OF ok] by auto
qed

lemma written_entries:
  assumes ok: "entries_ok entries"
  shows "requirementEntries (requirementSetBytes entries) = Inr (sort_key fst entries)"
proof -
  let ?bs = "blobsOf entries" and ?blob = "\<lambda>(kind, data). \<lparr>Slot = kind, Magic = 0, Data = data\<rparr>"
  have "requirementEntries (requirementSetBytes entries) = Inr (map (\<lambda>b. (Slot b, Data b)) ?bs)"
    using written_entry(1,4) [OF ok]
    by (simp add: requirementEntries_wf [OF written_set_wf [OF ok]] written_count [OF ok])
       (auto intro: nth_equalityI)
  moreover have "sort_key fst entries = map (\<lambda>b. (Slot b, Data b)) ?bs"
  proof (rule sort_key_inj_key_eq)
    show "inj_on fst (set entries)"
      using ok by (simp add: entries_ok_def distinct_map)
    show "mset entries = mset (map (\<lambda>b. (Slot b, Data b)) ?bs)"
      unfolding blobsOf_def mset_map mset_sort
      by (simp add: image_mset.compositionality comp_def case_prod_unfold)
    show "sorted (map fst (map (\<lambda>b. (Slot b, Data b)) ?bs))"
      by (simp add: blobsOf_def comp_def)
  qed
  ultimately show ?thesis by simp
qed

section \<open>Preparing the signer's set\<close>

definition suppliedEntries :: "byte list \<Rightarrow> (nat \<times> byte list) list" where
  "suppliedEntries data =
     (if data = [] then [] else map (\<lambda>i. (entrySlot data i, entryBytes data i)) [0..<be32 data 8])"

lemma decode_compile_header: "req_fits n \<Longrightarrow> length (requirementSetBytes [(3, compileNode n)]) = 20 + length (compileNode n)"
  by (simp add: requirementSetBytes_layout blobsOf_def superblobLength_def)

text \<open>A generated set: its entry starts at the offset word 16 names, and runs to the end.\<close>

lemma generated_entry:
  assumes fits: "length (compileNode n) + 20 < 2 ^ 32"
  defines "g \<equiv> requirementSetBytes [(3, compileNode n)]"
  shows "rd32 g 16 = Inr 20" "length g = 20 + length (compileNode n)" "drop 20 g = compileNode n"
proof -
  have g: "g = put32 MagicRequirements @ put32 (20 + length (compileNode n)) @ put32 1 @ put32 3 @ put32 20 @ compileNode n"
    by (simp add: g_def requirementSetBytes_layout blobsOf_def sb_layout_def superblobLength_def)
  then show "length g = 20 + length (compileNode n)" "drop 20 g = compileNode n" by simp_all
  have "be32 g 16 = 20"
    unfolding g by (simp add: be32_append2 be32_put32)
  then show "rd32 g 16 = Inr 20" by (simp add: g)
qed

lemma entrySlot_less: "entrySlot data i < 2 ^ 32"
  unfolding entrySlot_def by (rule be32_less)

lemma supplied_ok:
  assumes "set_wf data"
  shows "distinct (map fst (suppliedEntries data))"
    "\<forall>(kind, entry) \<in> set (suppliedEntries data). kind < 2 ^ 32 \<and> (\<exists>n. decodeRequirement entry = Inr n)"
proof -
  show "distinct (map fst (suppliedEntries data))"
    using assms by (cases "data = []") (simp_all add: suppliedEntries_def set_wf_def comp_def)
  show "\<forall>(kind, entry) \<in> set (suppliedEntries data). kind < 2 ^ 32 \<and> (\<exists>n. decodeRequirement entry = Inr n)"
    using assms entrySlot_less [of data] by (cases "data = []") (auto simp: suppliedEntries_def set_wf_def)
qed

lemma prepareRequirements_ok:
  assumes "prepareRequirements data path generated = Inr merged"
    and default: "\<And>g. generated = Inr g \<Longrightarrow>
      \<exists>n. req_fits n \<and> length (compileNode n) + 20 < 2 ^ 32 \<and> g = requirementSetBytes [(3, compileNode n)]"
  obtains extra where "merged = requirementSetBytes (suppliedEntries data @ extra)"
    "entries_ok (suppliedEntries data @ extra)"
    "extra = [] \<or> (\<exists>n. req_fits n \<and> extra = [(3, compileNode n)])"
    "path \<noteq> [] \<longrightarrow> 3 \<in> fst ` set (suppliedEntries data @ extra)"
    "length merged \<le> 2 ^ 20"
proof -
  let ?es = "suppliedEntries data"
  from assms(1) obtain es es' where
      es: "(if data = [] then Inr [] else rbind (validateRequirements data) (\<lambda>_. requirementEntries data)) = Inr es"
    and es': "(if (\<exists>e \<in> set es. fst e = 3) \<or> path = [] then Inr es else
            rbind generated (\<lambda>g. rbind (rd32 g 16) (\<lambda>offset.
            if offset > length g then Inl Panic else Inr (es @ [(3, drop offset g)])))) = Inr es'"
    and merged: "merged = requirementSetBytes es'" "length merged \<le> 2 ^ 20"
    unfolding prepareRequirements_def Let_def by (auto simp: result_simps)
  have supplied: "es = ?es \<and> distinct (map fst ?es) \<and>
      (\<forall>(kind, entry) \<in> set ?es. kind < 2 ^ 32 \<and> (\<exists>n. decodeRequirement entry = Inr n))"
  proof (cases "data = []")
    case False
    with es have wf: "set_wf data" by (auto simp: result_simps validateRequirements_iff)
    with es False have "es = ?es"
      by (auto simp: result_simps requirementEntries_wf suppliedEntries_def)
    with supplied_ok [OF wf] show ?thesis by auto
  qed (use es in \<open>simp add: suppliedEntries_def\<close>)
  have small: "length (requirementSetBytes es') < 2 ^ 32" using merged by simp
  show thesis
  proof (cases "(\<exists>e \<in> set es. fst e = 3) \<or> path = []")
    case True
    with es' have "es' = ?es" using supplied by simp
    with True supplied small merged show thesis
      by (intro that [of "[]"]) (auto simp: entries_ok_def intro: rev_image_eqI)
  next
    case False
    with es' obtain g offset where g: "generated = Inr g" "rd32 g 16 = Inr offset" "es' = es @ [(3, drop offset g)]"
      by (auto simp: result_simps)
    from default [OF g(1)] obtain n where n: "req_fits n" "length (compileNode n) + 20 < 2 ^ 32"
      "g = requirementSetBytes [(3, compileNode n)]" by blast
    with g generated_entry [OF n(2)] have extra: "es' = es @ [(3, compileNode n)]" by simp
    with False supplied have "3 \<notin> fst ` set ?es" by force
    with extra supplied small merged decode_compile [OF n(1)] n(1) show thesis
      by (intro that [of "[(3, compileNode n)]"]) (auto simp: entries_ok_def)
  qed
qed

section \<open>Properties\<close>

text \<open>
  C25. Compiling and decoding are inverse: every expression within the decoder's limits
  (nesting at most 128, at most 4096 nodes, valid indices, hashes and fields) is read back
  unchanged from its compiled blob.
\<close>

theorem decodeRequirement_compileNode:
  assumes "req_fits n" shows "decodeRequirement (compileNode n) = Inr n"
  using assms by (rule decode_compile)

definition sampleReq :: req where
  "sampleReq = ReqAnd (ReqIdentifier (str ''ab'')) (ReqNot (ReqCertificate (-1) (replicate 20 7)))"

lemma sampleReq_fits: "req_fits sampleReq"
  by (simp add: req_fits_def sampleReq_def slot_ok_def str_def padded_def)

theorem decodeRequirement_compileNode_witness:
  "decodeRequirement (compileNode sampleReq) = Inr sampleReq"
  using decodeRequirement_compileNode [OF sampleReq_fits] .

text \<open>
  The decoder of untrusted requirements never panics, and whatever it returns is
  within its limits, has valid operands, and has a compiled form of exactly the length of
  the input, which its header declares.
\<close>

lemma decodeRequirement_bounds:
  "safe (decodeRequirement data) \<and>
   (case decodeRequirement data of Inl _ \<Rightarrow> True
    | Inr n \<Rightarrow> req_fits n \<and> length (compileNode n) = length data \<and> be32 data 4 = length data)"
  using decodeRequirement_safe [of data] decodeRequirement_ok [of data] by (auto split: sum.split)

text \<open>
  C35. Validation of a requirement set never panics and accepts exactly the well-formed
  sets: header and length right, every index entry after the index, inside the set and a
  decodable requirement, kinds distinct, no two entries overlapping.
\<close>

theorem validateRequirements_exact:
  "safe (validateRequirements data) \<and> (validateRequirements data = Inr () \<longleftrightarrow> set_wf data)"
  using validateRequirements_safe validateRequirements_iff by blast

text \<open>
  A set written from distinct kinds of decodable requirements validates, and its index
  lists exactly those entries, sorted by kind.
\<close>

lemma written_set_validates:
  assumes "entries_ok entries"
  shows "validateRequirements (requirementSetBytes entries) = Inr () \<and>
    requirementEntries (requirementSetBytes entries) = Inr (sort_key fst entries)"
  using written_set_wf [OF assms] written_entries [OF assms] by (simp add: validateRequirements_iff)

lemma sample_entries_ok: "entries_ok [(3, compileNode sampleReq), (1, compileNode ReqAlways)]"
  using decode_compile [OF sampleReq_fits] decode_compile [of ReqAlways]
  by (auto simp: entries_ok_def requirementSetBytes_layout superblobLength_def blobsOf_def req_fits_def
      sampleReq_def str_def padded_def)

text \<open>
  C36. What prepareRequirements hands to the signer is a valid set that keeps every supplied
  entry byte for byte, adds at most the default designated requirement, contains a
  designated requirement whenever the signer has a chain, and stays within 1 MiB. The
  hypothesis on \<open>generated\<close> is what defaultCertificateRequirement returns: a set of one
  compiled designated entry.
\<close>

theorem prepareRequirements_valid:
  assumes "prepareRequirements data path generated = Inr merged"
    and "\<And>g. generated = Inr g \<Longrightarrow>
      \<exists>n. req_fits n \<and> length (compileNode n) + 20 < 2 ^ 32 \<and> g = requirementSetBytes [(3, compileNode n)]"
  shows "\<exists>extra. validateRequirements merged = Inr () \<and>
    requirementEntries merged = Inr (sort_key fst (suppliedEntries data @ extra)) \<and>
    (extra = [] \<or> (\<exists>n. req_fits n \<and> extra = [(3, compileNode n)])) \<and>
    (path \<noteq> [] \<longrightarrow> 3 \<in> fst ` set (suppliedEntries data @ extra)) \<and> length merged \<le> 2 ^ 20"
proof (rule prepareRequirements_ok [OF assms])
  fix extra
  assume ok: "entries_ok (suppliedEntries data @ extra)" and "merged = requirementSetBytes (suppliedEntries data @ extra)"
    "extra = [] \<or> (\<exists>n. req_fits n \<and> extra = [(3, compileNode n)])"
    "path \<noteq> [] \<longrightarrow> 3 \<in> fst ` set (suppliedEntries data @ extra)" "length merged \<le> 2 ^ 20"
  with written_set_wf [OF ok] written_entries [OF ok] show ?thesis
    by (intro exI [of _ extra]) (simp add: validateRequirements_iff)
qed

lemma sample_generated:
  "prepareRequirements [] [sampleCert [1] [2] [1] []] (Inr (requirementSetBytes [(3, compileNode ReqAlways)])) =
     Inr (requirementSetBytes [(3, compileNode ReqAlways)])"
  using generated_entry [of ReqAlways]
  by (simp add: prepareRequirements_def Let_def)

theorem prepareRequirements_valid_witness:
  "validateRequirements (requirementSetBytes [(3, compileNode ReqAlways)]) = Inr ()"
proof -
  have "\<exists>n. req_fits n \<and> length (compileNode n) + 20 < 2 ^ 32 \<and> g = requirementSetBytes [(3, compileNode n)]"
    if "Inr (requirementSetBytes [(3, compileNode ReqAlways)]) = (Inr g :: byte list result)" for g
    using that by (intro exI [of _ ReqAlways]) (simp add: req_fits_def)
  from prepareRequirements_valid [OF sample_generated this] show ?thesis by blast
qed

text \<open>
  C37. A verified architecture satisfies its designated requirement exactly when it stores
  none, or its set is well-formed and every entry of kind 3 evaluates to true; the check
  never panics, and a malformed set is an error, never a match.
\<close>

theorem checkDesignatedRequirement_exact:
  "safe (checkDesignatedRequirement H data d) \<and>
   (checkDesignatedRequirement H data d = Inr () \<longleftrightarrow>
      data = [] \<or> set_wf data \<and>
        (\<forall>(kind, entry) \<in> set (suppliedEntries data). kind = 3 \<longrightarrow>
           EvaluateRequirementBytes H entry d = Inr True))"
proof -
  have entries: "(checkEntries H d es = Inr () \<longleftrightarrow>
        (\<forall>(kind, entry) \<in> set es. kind = 3 \<longrightarrow> EvaluateRequirementBytes H entry d = Inr True)) \<and>
      safe (checkEntries H d es)" for es
  proof (induction es)
    case (Cons e es)
    have "safe (EvaluateRequirementBytes H x d)" for x
      unfolding EvaluateRequirementBytes_def by (intro safe_rbind decodeRequirement_safe) simp
    with Cons show ?case
      by (cases e) (auto simp: result_simps intro!: safe_rbind)
  qed simp
  have "safe (requirementEntries data)" if "set_wf data"
    by (simp add: requirementEntries_wf [OF that])
  then show ?thesis
    using entries
    by (auto simp: checkDesignatedRequirement_def result_simps validateRequirements_iff suppliedEntries_def
        requirementEntries_wf intro!: safe_rbind validateRequirements_safe)
qed

definition sampleVerified :: verified where
  "sampleVerified = \<lparr>Version = 0x20001, Flags = 0, Identifier = str ''a'', TeamID = [], HashType = 2,
     HashSize = 32, PageExponent = 12, Platform = 0, CodeLimit = 0, CodeSlots = 0, SpecialSlots = 0,
     HashOffset = 46, ExecBase = 0, ExecLimit = 0, ExecFlags = 0, Runtime = 0, CDHash = [], FullHash = [],
     Raw = sampleDirectory, chain = [], signer = []\<rparr>"

theorem checkDesignatedRequirement_exact_witness:
  "checkDesignatedRequirement sampleHash (requirementSetBytes [(3, compileNode ReqAlways)]) sampleVerified = Inr ()"
proof -
  let ?set = "requirementSetBytes [(3, compileNode ReqAlways)]"
  have dec: "decodeRequirement (compileNode ReqAlways) = Inr ReqAlways"
    by (rule decode_compile) (simp add: req_fits_def)
  have len: "length ?set = 36"
    by (simp add: requirementSetBytes_layout blobsOf_def superblobLength_def)
  with dec have ok: "entries_ok [(3, compileNode ReqAlways)]" by (simp add: entries_ok_def)
  have "suppliedEntries ?set = [(3, compileNode ReqAlways)]"
    using written_entries [OF ok] requirementEntries_wf [OF written_set_wf [OF ok]] len
    by (auto simp: suppliedEntries_def)
  then show ?thesis
    using checkDesignatedRequirement_exact [of sampleHash ?set sampleVerified] written_set_wf [OF ok] dec
    by (simp add: EvaluateRequirementBytes_def)
qed

end
