(* ===== verification/Directory_Layout.thy ===== *)
theory Directory_Layout
  imports MachO_Rewrite Requirement_Sets
begin

unbundle bit_operations_syntax

text \<open>
  The CodeDirectory both signers write (sign.go and dmg.go): a header of disjoint checked fields,
  the names, the special digests counted down from the hash offset and the page digests. Its bytes
  as a function of its parts, what the parser reads back from them, and the directory that results.
\<close>

section \<open>The writes\<close>

fun trailingZeros :: "nat \<Rightarrow> nat" where
  "trailingZeros n = (if n = 0 \<or> odd n then 0 else Suc (trailingZeros (n div 2)))"

declare trailingZeros.simps [simp del]

text \<open>The checked writes into the header buffer, in order.\<close>

fun writeAll :: "(nat \<times> byte list) list \<Rightarrow> byte list \<Rightarrow> byte list result" where
  "writeAll [] b = Inr b"
| "writeAll ((off, p) # ws) b =
    (if off + length p \<le> length b then writeAll ws (overwrite off p b) else Inl Panic)"

text \<open>A special slot's digest, 32 bytes per slot before the hash offset.\<close>

fun writeDigests :: "hash_lib \<Rightarrow> nat \<Rightarrow> (nat \<times> byte list) list \<Rightarrow> byte list \<Rightarrow> byte list result" where
  "writeDigests H hashOff [] s = Inr s"
| "writeDigests H hashOff ((slot, data) # r) s =
    rbind (digestContext H 2 data) (\<lambda>h.
    case sectionWriteAt rangeBufferWriteAt 0 (int (length s)) s h (int hashOff - int slot * 32) of
      (s, _, Some e) \<Rightarrow> Inl e | (s, _, None) \<Rightarrow> writeDigests H hashOff r s)"

section \<open>Disjoint writes\<close>

text \<open>Disjoint writes, one after the other: each is there in the end, all else is as before.\<close>

definition writes_over :: "(nat \<times> byte list) list \<Rightarrow> byte list \<Rightarrow> byte list" where
  "writes_over ws b = fold (\<lambda>(off, p). overwrite off p) ws b"

lemma writes_over_simps [simp]:
  "writes_over [] b = b" "writes_over ((off, p) # ws) b = writes_over ws (overwrite off p b)"
  by (simp_all add: writes_over_def)

lemma length_writes_over [simp]:
  "\<forall>(off, p) \<in> set ws. off + length p \<le> length b \<Longrightarrow> length (writes_over ws b) = length b"
  by (induction ws arbitrary: b) auto

lemma writeAll_ok: "\<forall>(off, p) \<in> set ws. off + length p \<le> length b \<Longrightarrow> writeAll ws b = Inr (writes_over ws b)"
  by (induction ws arbitrary: b) auto

lemma writes_over_untouched:
  "\<forall>(off, p) \<in> set ws. off + length p \<le> length b \<and> (at + n \<le> off \<or> off + length p \<le> at) \<Longrightarrow>
   slice (writes_over ws b) at n = slice b at n"
proof (induction ws arbitrary: b)
  case (Cons w ws)
  obtain off p where w: "w = (off, p)" by (cases w)
  with Cons have "slice (writes_over ws (overwrite off p b)) at n = slice (overwrite off p b) at n"
    by (intro Cons.IH) auto
  also have "\<dots> = slice b at n" using Cons.prems w by (auto simp: slice_overwrite_before slice_overwrite_after)
  finally show ?case by (simp add: w)
qed simp

lemma writes_over_written:
  assumes "\<forall>(off, p) \<in> set ws. off + length p \<le> length b" "sorted_wrt disjointPatch ws" "(off, p) \<in> set ws"
  shows "slice (writes_over ws b) off (length p) = p"
  using assms
proof (induction ws arbitrary: b)
  case (Cons w ws)
  show ?case
  proof (cases "w = (off, p)")
    case True
    with Cons.prems have "slice (writes_over ws (overwrite off p b)) off (length p) = slice (overwrite off p b) off (length p)"
      by (intro writes_over_untouched) (fastforce simp: disjointPatch_def)
    with Cons.prems True show ?thesis by (auto simp: slice_overwrite_same)
  next
    case False
    obtain off' p' where w: "w = (off', p')" by (cases w)
    with False Cons.prems show ?thesis by (auto intro!: Cons.IH)
  qed
qed simp

lemma digestContext_content: "int (length data) \<le> MaxInt64 \<Longrightarrow> digestContext H 2 data = Inr (sha256 H data)"
  using digestSource_content [OF byteOutput_delivers, of data H 2]
  by (simp add: digestContext_def digest_def)

text \<open>Slot \<open>k\<close>'s digest lies \<open>32 * k\<close> bytes before the hash offset.\<close>

definition digestWrites :: "hash_lib \<Rightarrow> nat \<Rightarrow> (nat \<times> byte list) list \<Rightarrow> (nat \<times> byte list) list" where
  "digestWrites H hashOff = map (\<lambda>(slot, data). (hashOff - slot * 32, sha256 H data))"

definition specials_ok :: "nat \<Rightarrow> (nat \<times> byte list) list \<Rightarrow> bool" where
  "specials_ok special ds \<longleftrightarrow> distinct (map fst ds) \<and>
     (\<forall>(slot, data) \<in> set ds. 1 \<le> slot \<and> slot \<le> special \<and> int (length data) \<le> MaxInt64)"

lemma writeDigests_ok:
  assumes H: "hash_lib_ok H"
  shows "\<forall>(slot, data) \<in> set ds. 1 \<le> slot \<and> slot * 32 \<le> hashOff \<and> int (length data) \<le> MaxInt64 \<Longrightarrow> hashOff \<le> length s \<Longrightarrow>
    writeDigests H hashOff ds s = Inr (writes_over (digestWrites H hashOff ds) s)"
proof (induction ds arbitrary: s)
  case (Cons d ds)
  obtain slot data where d: "d = (slot, data)" by (cases d)
  have bounds: "1 \<le> slot" "slot * 32 \<le> hashOff" "int (length data) \<le> MaxInt64" using Cons.prems(1) d by auto
  have len: "length (sha256 H data) = 32" using H by (simp add: hash_lib_ok_def)
  have at: "int hashOff - int slot * 32 = int (hashOff - slot * 32)" using bounds(2) by simp
  have fit: "hashOff - slot * 32 + 32 \<le> length s" using bounds Cons.prems(2) by linarith
  have "sectionWriteAt rangeBufferWriteAt 0 (int (length s)) s (sha256 H data) (int hashOff - int slot * 32) =
      (overwrite (hashOff - slot * 32) (sha256 H data) s, 32, None)"
    unfolding at using section_overwrites.overwrites [of "hashOff - slot * 32" "sha256 H data" "length s" s] fit len by simp
  with Cons.IH [of "overwrite (hashOff - slot * 32) (sha256 H data) s"] Cons.prems fit len
  show ?case by (simp add: d digestWrites_def digestContext_content [OF bounds(3)])
qed (simp add: digestWrites_def)

lemma digestWrites_ok:
  assumes H: "hash_lib_ok H" and ds: "specials_ok special ds" and off: "special * 32 \<le> hashOff" "hashOff \<le> n"
  shows "\<forall>(at, p) \<in> set (digestWrites H hashOff ds). hashOff - special * 32 \<le> at \<and> at + length p \<le> hashOff"
    "sorted_wrt disjointPatch (digestWrites H hashOff ds)"
proof -
  have len: "length (sha256 H data) = 32" for data using H by (simp add: hash_lib_ok_def)
  have slot: "32 \<le> slot * 32 \<and> slot * 32 \<le> special * 32" if "(slot, data) \<in> set ds" for slot data
    using ds that by (auto simp: specials_ok_def)
  then show "\<forall>(at, p) \<in> set (digestWrites H hashOff ds). hashOff - special * 32 \<le> at \<and> at + length p \<le> hashOff"
    using off by (fastforce simp: digestWrites_def len)
  have "sorted_wrt (\<lambda>d e. disjointPatch (hashOff - fst d * 32, sha256 H (snd d)) (hashOff - fst e * 32, sha256 H (snd e))) ds"
  proof (rule sorted_wrt_mono_rel [of ds "\<lambda>d e. fst d \<noteq> fst e"])
    fix d e assume "d \<in> set ds" "e \<in> set ds" "fst d \<noteq> fst e"
    with slot [of "fst d" "snd d"] slot [of "fst e" "snd e"] off
    show "disjointPatch (hashOff - fst d * 32, sha256 H (snd d)) (hashOff - fst e * 32, sha256 H (snd e))"
      by (cases "fst d < fst e") (auto simp: disjointPatch_def len)
  next
    show "sorted_wrt (\<lambda>d e. fst d \<noteq> fst e) ds"
      using ds by (induction ds) (auto simp: specials_ok_def)
  qed
  then show "sorted_wrt disjointPatch (digestWrites H hashOff ds)"
    by (simp add: digestWrites_def sorted_wrt_map case_prod_unfold)
qed

section \<open>Fields and names\<close>

lemma and_pred_zero: "n \<noteq> 0 \<Longrightarrow> n AND (n - 1) = 0 \<Longrightarrow> n = 2 ^ trailingZeros n"
proof (induction n rule: trailingZeros.induct)
  case (1 n)
  show ?case
  proof (cases "odd n")
    case True
    then obtain m where m: "n = 2 * m + 1" by (elim oddE)
    then have "n AND (n - 1) = 2 * (m AND m)" by (subst and_rec) simp
    with 1(3) m show ?thesis by (simp add: trailingZeros.simps)
  next
    case False
    then obtain m where "n = 2 * m" by (auto elim: evenE)
    with 1(2) have m: "n = 2 * m" "m \<noteq> 0" by simp_all
    have half: "(2 * m - 1) div 2 = m - 1" using m(2) by (cases m) simp_all
    have "n AND (n - 1) = 2 * (m AND (m - 1))" using half by (subst and_rec) (simp add: m)
    with 1(3) have "m AND (m - 1) = 0" by simp
    moreover have "n div 2 = m" using m by simp
    ultimately have "m = 2 ^ trailingZeros m" using 1(1) [OF _ _] False 1(2) m(2) by auto
    then show ?thesis using m by (subst trailingZeros.simps) auto
  qed
qed

lemma be32_written:
  "\<forall>(off, p) \<in> set ws. off + length p \<le> length b \<Longrightarrow> sorted_wrt disjointPatch ws \<Longrightarrow> (off, put32 v) \<in> set ws \<Longrightarrow>
   be32 (writes_over ws b) off = v mod 2 ^ 32"
  using writes_over_written [of ws b off "put32 v"] by (simp add: be32_def be_nat_be_put)

lemma byte_written:
  assumes "\<forall>(off, p) \<in> set ws. off + length p \<le> length b" "sorted_wrt disjointPatch ws" "(off, [v]) \<in> set ws"
  shows "writes_over ws b ! off = v"
proof -
  have "off < length b" using assms(1,3) by auto
  then show ?thesis
    using writes_over_written [OF assms] assms(1) nth_slice [of 0 1 off "writes_over ws b"] by simp
qed

lemma be_nat_zeros: "be_nat (replicate n 0) = 0"
  by (induction n) (simp_all add: be_nat_Cons)

lemma cstring_at:
  assumes "off + length s < length bs" "slice bs off (length s) = s" "bs ! (off + length s) = 0" "0 \<notin> set s"
  shows "cstring bs off = Inr s"
proof -
  have d: "drop off bs = s @ 0 # drop (off + length s + 1) bs"
  proof -
    have "drop off bs = take (length s) (drop off bs) @ drop (length s) (drop off bs)"
      by (rule append_take_drop_id [symmetric])
    also have "take (length s) (drop off bs) = s" using assms(2) by (simp add: slice_def)
    also have "drop (length s) (drop off bs) = 0 # drop (off + length s + 1) bs"
      using assms(1,3) Cons_nth_drop_Suc [of "off + length s" bs] by (simp add: add.commute)
    finally show ?thesis .
  qed
  have "takeWhile (\<lambda>b. b \<noteq> 0) (s @ 0 # t) = s" for t
    using assms(4) by (subst takeWhile_append2) auto
  then show ?thesis using assms(1) unfolding cstring_def d by auto
qed

lemma name_string:
  assumes "slice bs off (length s + 1) = s @ [0]" "off + length s < length bs" "0 \<notin> set s"
  shows "cstring bs off = Inr s"
proof (rule cstring_at)
  have "slice bs off (length s) = take (length s) (slice bs off (length s + 1))" by (simp add: slice_def)
  then show "slice bs off (length s) = s" unfolding assms(1) by simp
  show "bs ! (off + length s) = 0"
    using assms(1,2) nth_slice [of "length s" "length s + 1" off bs] by simp
qed (use assms in auto)

lemma of_nat_byte_less: "n < 256 \<Longrightarrow> unat (of_nat n :: byte) = n"
  by (simp add: unat_of_nat)

lemma slice_zero_tail:
  "length p \<le> at \<Longrightarrow> at + n \<le> length p + k \<Longrightarrow> slice (p @ replicate k 0) at n = replicate n 0"
  by (simp add: slice_def)

section \<open>Layouts\<close>

text \<open>The parts of a directory; \<open>cl_pages\<close> are the digests of its pages, one after the other.\<close>

record directory_layout =
  cl_ident :: gostring
  cl_team :: gostring
  cl_writes :: "(nat \<times> byte list) list"
  cl_header :: nat
  cl_special :: nat
  cl_data :: "(nat \<times> byte list) list"
  cl_pages :: "byte list"

definition cl_names :: "directory_layout \<Rightarrow> nat" where
  "cl_names l = cl_header l + length (cl_ident l) + 1 + (if cl_team l \<noteq> [] then length (cl_team l) + 1 else 0)"

definition cl_hashOff :: "directory_layout \<Rightarrow> nat" where
  "cl_hashOff l = cl_names l + cl_special l * 32"

definition cl_size :: "directory_layout \<Rightarrow> nat" where
  "cl_size l = cl_hashOff l + length (cl_pages l)"

definition cl_head :: "directory_layout \<Rightarrow> byte list" where
  "cl_head l = writes_over (cl_writes l) (replicate (cl_header l) 0)"

text \<open>The section after writeDirectoryPrefix.\<close>

definition cl_base :: "directory_layout \<Rightarrow> byte list" where
  "cl_base l = cl_head l @ cl_ident l @ [0] @ cl_team l @
     replicate (cl_size l - (cl_header l + length (cl_ident l) + 1 + length (cl_team l))) 0"

definition cl_bytes :: "hash_lib \<Rightarrow> directory_layout \<Rightarrow> byte list" where
  "cl_bytes H l = take (cl_hashOff l) (writes_over (digestWrites H (cl_hashOff l) (cl_data l)) (cl_base l)) @ cl_pages l"

definition layout_ok :: "hash_lib \<Rightarrow> directory_layout \<Rightarrow> bool" where
  "layout_ok H l \<longleftrightarrow> hash_lib_ok H \<and> (\<forall>(off, p) \<in> set (cl_writes l). off + length p \<le> cl_header l) \<and>
     sorted_wrt disjointPatch (cl_writes l) \<and> specials_ok (cl_special l) (cl_data l) \<and>
     0 \<notin> set (cl_ident l) \<and> 0 \<notin> set (cl_team l)"

lemma cl_order:
  "cl_header l + length (cl_ident l) + 1 + length (cl_team l) \<le> cl_names l"
  "cl_team l \<noteq> [] \<Longrightarrow> cl_header l + length (cl_ident l) + 1 + length (cl_team l) < cl_names l"
  "cl_names l + cl_special l * 32 = cl_hashOff l" "cl_hashOff l + length (cl_pages l) = cl_size l"
  by (simp_all add: cl_names_def cl_hashOff_def cl_size_def)

lemma layout_writes:
  assumes "layout_ok H l"
  shows "\<forall>(off, p) \<in> set (cl_writes l). off + length p \<le> cl_header l" "sorted_wrt disjointPatch (cl_writes l)"
    "\<forall>(off, p) \<in> set (cl_writes l). off + length p \<le> length (replicate (cl_header l) (0 :: byte))"
  using assms by (simp_all add: layout_ok_def)

lemma length_cl_head: "layout_ok H l \<Longrightarrow> length (cl_head l) = cl_header l"
  using layout_writes(1) by (simp add: cl_head_def)

lemma length_cl_base:
  assumes "layout_ok H l" shows "length (cl_base l) = cl_size l"
  using length_cl_head [OF assms] cl_order(1,3,4) [of l] by (simp add: cl_base_def)

lemma layout_digests:
  assumes "layout_ok H l"
  shows "\<forall>(at, p) \<in> set (digestWrites H (cl_hashOff l) (cl_data l)). cl_names l \<le> at \<and> at + length p \<le> cl_hashOff l"
    "sorted_wrt disjointPatch (digestWrites H (cl_hashOff l) (cl_data l))"
proof -
  have "hash_lib_ok H" "specials_ok (cl_special l) (cl_data l)" "cl_special l * 32 \<le> cl_hashOff l" "cl_hashOff l - cl_special l * 32 = cl_names l"
    using assms cl_order(3) [of l] by (simp_all add: layout_ok_def)
  with digestWrites_ok [OF this(1,2,3) order_refl]
  show "\<forall>(at, p) \<in> set (digestWrites H (cl_hashOff l) (cl_data l)). cl_names l \<le> at \<and> at + length p \<le> cl_hashOff l"
    "sorted_wrt disjointPatch (digestWrites H (cl_hashOff l) (cl_data l))" by simp_all
qed

lemma length_cl_filled:
  assumes "layout_ok H l"
  shows "length (writes_over (digestWrites H (cl_hashOff l) (cl_data l)) (cl_base l)) = cl_size l"
  using layout_digests(1) [OF assms] cl_order(4) [of l] length_cl_base [OF assms] by (subst length_writes_over) fastforce+

lemma length_cl_bytes: "layout_ok H l \<Longrightarrow> length (cl_bytes H l) = cl_size l"
  using length_cl_filled cl_order(4) [of l] by (simp add: cl_bytes_def)

lemma cl_below:
  assumes "layout_ok H l" "at + n \<le> cl_hashOff l"
  shows "slice (cl_bytes H l) at n = slice (writes_over (digestWrites H (cl_hashOff l) (cl_data l)) (cl_base l)) at n"
  using length_cl_filled [OF assms(1)] cl_order(4) [of l] assms(2)
  by (simp add: cl_bytes_def slice_append1) (simp add: slice_def drop_take min_absorb1)

lemma cl_low:
  assumes ok: "layout_ok H l" and at: "at + n \<le> cl_names l"
  shows "slice (cl_bytes H l) at n = slice (cl_base l) at n"
proof -
  have "slice (writes_over (digestWrites H (cl_hashOff l) (cl_data l)) (cl_base l)) at n = slice (cl_base l) at n"
    using layout_digests(1) [OF ok] at cl_order(3,4) [of l] length_cl_base [OF ok] by (intro writes_over_untouched) fastforce
  with cl_below [OF ok, of at n] at cl_order(3) [of l] show ?thesis by simp
qed

lemma cl_in_header:
  assumes "layout_ok H l" "at + n \<le> cl_header l" shows "slice (cl_bytes H l) at n = slice (cl_head l) at n"
proof -
  have "at + n \<le> cl_names l" using assms(2) cl_order(1) [of l] by linarith
  with cl_low [OF assms(1)] assms length_cl_head show ?thesis by (simp add: cl_base_def slice_append1)
qed

text \<open>A field of the header, a byte of it and what no write touches.\<close>

lemma cl_written:
  assumes "layout_ok H l" "(off, p) \<in> set (cl_writes l)" shows "slice (cl_bytes H l) off (length p) = p"
proof -
  have "off + length p \<le> cl_header l" using layout_writes(1) [OF assms(1)] assms(2) by fastforce
  then show ?thesis
    using writes_over_written [OF layout_writes(3,2) [OF assms(1)] assms(2)] by (simp add: cl_in_header [OF assms(1)] cl_head_def)
qed

lemma cl_field: "layout_ok H l \<Longrightarrow> (off, put32 v) \<in> set (cl_writes l) \<Longrightarrow> be32 (cl_bytes H l) off = v mod 2 ^ 32"
  and cl_field64: "layout_ok H l \<Longrightarrow> (off, put64 v) \<in> set (cl_writes l) \<Longrightarrow> be64 (cl_bytes H l) off = v mod 2 ^ 64"
  using cl_written [of H l off "put32 v"] cl_written [of H l off "put64 v"] by (simp_all add: be32_def be64_def be_nat_be_put)

lemma header_inside: "layout_ok H l \<Longrightarrow> off < cl_header l \<Longrightarrow> off < length (cl_bytes H l)"
  using length_cl_bytes [of H l] cl_order [of l] by linarith

lemma cl_byte:
  assumes "layout_ok H l" "(off, [v]) \<in> set (cl_writes l)" shows "cl_bytes H l ! off = v"
proof -
  have "off < cl_header l" using layout_writes(1) [OF assms(1)] assms(2) by fastforce
  then show ?thesis
    using cl_written [OF assms] header_inside [OF assms(1)] nth_slice [of 0 1 off "cl_bytes H l"] by simp
qed

lemma cl_zero:
  assumes "layout_ok H l" "at + n \<le> cl_header l" "\<forall>(off, p) \<in> set (cl_writes l). at + n \<le> off \<or> off + length p \<le> at"
  shows "slice (cl_bytes H l) at n = replicate n 0"
proof -
  have "slice (cl_bytes H l) at n = slice (replicate (cl_header l) 0) at n"
    unfolding cl_in_header [OF assms(1,2)] cl_head_def
    using assms(3) layout_writes(1) [OF assms(1)] by (intro writes_over_untouched) fastforce
  then show ?thesis using assms(2) by (simp add: slice_def)
qed

lemma cl_zero_nat:
  assumes "layout_ok H l" "at + n \<le> cl_header l" "\<forall>(off, p) \<in> set (cl_writes l). at + n \<le> off \<or> off + length p \<le> at"
  shows "be_nat (slice (cl_bytes H l) at n) = 0"
  using cl_zero [OF assms] by (simp add: be_nat_zeros)

text \<open>The identifier and the team identifier, each followed by a zero byte.\<close>

lemma cl_ident_string:
  assumes ok: "layout_ok H l" shows "cstring (cl_bytes H l) (cl_header l) = Inr (cl_ident l)"
proof (rule name_string)
  show "slice (cl_bytes H l) (cl_header l) (length (cl_ident l) + 1) = cl_ident l @ [0]"
    using length_cl_head [OF ok] cl_order(1) [of l] by (subst cl_low [OF ok]) (simp_all add: cl_base_def slice_def)
qed (use ok length_cl_bytes [OF ok] cl_order [of l] in \<open>auto simp: layout_ok_def\<close>)

lemma cl_team_string:
  assumes ok: "layout_ok H l" and team: "cl_team l \<noteq> []"
  shows "cstring (cl_bytes H l) (cl_header l + length (cl_ident l) + 1) = Inr (cl_team l)"
proof (rule name_string)
  let ?k = "cl_header l + length (cl_ident l) + 1 + length (cl_team l)"
  have "0 < cl_size l - ?k" using cl_order(2) [OF team] cl_order(3,4) [of l] by linarith
  then have "take 1 (replicate (cl_size l - ?k) (0 :: byte)) = [0]" by (cases "cl_size l - ?k") simp_all
  then have "slice (cl_base l) (cl_header l + length (cl_ident l) + 1) (length (cl_team l) + 1) = cl_team l @ [0]"
    using length_cl_head [OF ok] by (simp add: cl_base_def slice_def)
  then show "slice (cl_bytes H l) (cl_header l + length (cl_ident l) + 1) (length (cl_team l) + 1) = cl_team l @ [0]"
    using cl_order(2) [OF team] by (subst cl_low [OF ok]) simp_all
qed (use ok length_cl_bytes [OF ok] cl_order(2) [OF team] cl_order(3,4) [of l] in \<open>auto simp: layout_ok_def\<close>)

text \<open>The digests.\<close>

lemma cl_page_digests: "layout_ok H l \<Longrightarrow> slice (cl_bytes H l) (cl_hashOff l) (length (cl_pages l)) = cl_pages l"
  using length_cl_filled [of H l] cl_order(4) [of l] by (simp add: cl_bytes_def slice_def)

lemma cl_special_digest:
  assumes ok: "layout_ok H l" and d: "(slot, data) \<in> set (cl_data l)"
  shows "slice (cl_bytes H l) (cl_hashOff l - slot * 32) 32 = sha256 H data"
proof -
  let ?w = "digestWrites H (cl_hashOff l) (cl_data l)"
  have slot: "1 \<le> slot" "slot * 32 \<le> cl_special l * 32" and len: "length (sha256 H data) = 32"
    using ok d by (auto simp: layout_ok_def specials_ok_def hash_lib_ok_def)
  have "(cl_hashOff l - slot * 32, sha256 H data) \<in> set ?w" using d by (force simp: digestWrites_def)
  moreover have "\<forall>(off, p) \<in> set ?w. off + length p \<le> length (cl_base l)"
    using layout_digests(1) [OF ok] cl_order(4) [of l] length_cl_base [OF ok] by fastforce
  ultimately have "slice (writes_over ?w (cl_base l)) (cl_hashOff l - slot * 32) 32 = sha256 H data"
    using writes_over_written [OF _ layout_digests(2) [OF ok], of "cl_base l"] len by metis
  moreover have "slot * 32 \<le> cl_hashOff l" using slot(2) cl_order(3) [of l] by linarith
  ultimately show ?thesis using cl_below [OF ok, of "cl_hashOff l - slot * 32" 32] slot(1) by simp
qed

lemma cl_special_zero:
  assumes ok: "layout_ok H l" and slot: "1 \<le> slot" "slot \<le> cl_special l" "slot \<notin> fst ` set (cl_data l)"
  shows "slice (cl_bytes H l) (cl_hashOff l - slot * 32) 32 = replicate 32 0"
proof -
  let ?at = "cl_hashOff l - slot * 32" and ?w = "digestWrites H (cl_hashOff l) (cl_data l)"
    and ?k = "cl_header l + length (cl_ident l) + 1 + length (cl_team l)"
  have le: "slot * 32 \<le> cl_special l * 32" using slot(2) by simp
  then have at: "?at + 32 \<le> cl_hashOff l" "?k \<le> ?at" using slot(1) cl_order(1,3) [of l] by linarith+
  have "\<forall>(off, p) \<in> set ?w. off + length p \<le> length (cl_base l) \<and> (?at + 32 \<le> off \<or> off + length p \<le> ?at)"
  proof (clarify)
    fix off p assume "(off, p) \<in> set ?w"
    then obtain s data where s: "(s, data) \<in> set (cl_data l)" "off = cl_hashOff l - s * 32" "length p = 32"
      using ok by (auto simp: digestWrites_def layout_ok_def hash_lib_ok_def)
    then have "s \<noteq> slot" "s * 32 \<le> cl_special l * 32" using slot(3) ok by (force simp: layout_ok_def specials_ok_def)+
    then have "s * 32 + 32 \<le> slot * 32 \<or> slot * 32 + 32 \<le> s * 32" by linarith
    then have "?at + 32 \<le> off \<or> off + length p \<le> ?at"
      using s(2,3) \<open>s * 32 \<le> _\<close> le cl_order(3) [of l] by linarith
    then show "off + length p \<le> length (cl_base l) \<and> (?at + 32 \<le> off \<or> off + length p \<le> ?at)"
      using s(2,3) length_cl_base [OF ok] cl_order(4) [of l] \<open>(off, p) \<in> set ?w\<close> layout_digests(1) [OF ok] by fastforce
  qed
  then have "slice (writes_over ?w (cl_base l)) ?at 32 = slice (cl_base l) ?at 32" by (rule writes_over_untouched)
  with cl_below [OF ok at(1)] have "slice (cl_bytes H l) ?at 32 = slice (cl_base l) ?at 32" by simp
  also have "\<dots> = replicate 32 0"
  proof -
    let ?p = "cl_head l @ cl_ident l @ [0] @ cl_team l"
    have base: "cl_base l = ?p @ replicate (cl_size l - ?k) 0" by (simp add: cl_base_def)
    have "length ?p = ?k" using length_cl_head [OF ok] by simp
    then show ?thesis using at cl_order(4) [of l] unfolding base by (intro slice_zero_tail) linarith+
  qed
  finally show ?thesis .
qed

text \<open>How the section comes to hold these bytes: fields, names, special digests, page digests.\<close>

lemma layout_filled:
  assumes ok: "layout_ok H l" and sz: "int (cl_size l) \<le> MaxInt64"
  defines "s \<equiv> writes_over (digestWrites H (cl_hashOff l) (cl_data l)) (cl_base l)"
  shows "writeAll (cl_writes l) (replicate (cl_header l) 0) = Inr (cl_head l)"
    "writeDirectoryPrefix (sectionWriteAt rangeBufferWriteAt 0 (int (cl_size l))) (replicate (cl_size l) 0) (cl_head l) (cl_ident l) (cl_team l)
      = (cl_base l, None)"
    "writeDigests H (cl_hashOff l) (cl_data l) (cl_base l) = Inr s" "length s = cl_size l"
    "overwrite (cl_hashOff l) (cl_pages l) s = cl_bytes H l"
proof -
  show "writeAll (cl_writes l) (replicate (cl_header l) 0) = Inr (cl_head l)"
    using layout_writes(3) [OF ok] by (simp add: writeAll_ok cl_head_def)
  show "writeDirectoryPrefix (sectionWriteAt rangeBufferWriteAt 0 (int (cl_size l))) (replicate (cl_size l) 0) (cl_head l) (cl_ident l) (cl_team l)
      = (cl_base l, None)"
    using section_overwrites.directoryPrefix_layout [of "cl_head l" "cl_ident l" "cl_team l" "cl_size l"] length_cl_head [OF ok]
      cl_order(1,3,4) [of l] sz by (simp add: cl_base_def)
  have "\<forall>(slot, data) \<in> set (cl_data l). 1 \<le> slot \<and> slot * 32 \<le> cl_hashOff l \<and> int (length data) \<le> MaxInt64"
    using ok cl_order(3) [of l] by (fastforce simp: layout_ok_def specials_ok_def)
  then show "writeDigests H (cl_hashOff l) (cl_data l) (cl_base l) = Inr s"
    unfolding s_def using ok length_cl_base [OF ok] cl_order(4) [of l] by (intro writeDigests_ok) (simp_all add: layout_ok_def)
  show len: "length s = cl_size l" unfolding s_def by (rule length_cl_filled [OF ok])
  show "overwrite (cl_hashOff l) (cl_pages l) s = cl_bytes H l"
    using len cl_order(4) [of l] by (simp add: overwrite_def cl_bytes_def s_def)
qed

section \<open>The directory parses\<close>

definition headerVersion :: "nat \<Rightarrow> nat \<Rightarrow> bool" where
  "headerVersion header vers \<longleftrightarrow> (header, vers) \<in> {(48, 0x20100), (52, 0x20200), (64, 0x20300), (88, 0x20400), (96, 0x20500)}"

lemma headerVersion_cases:
  assumes "headerVersion header vers"
  obtains "header = 48" "vers = 0x20100" | "header = 52" "vers = 0x20200" | "header = 64" "vers = 0x20300"
    | "header = 88" "vers = 0x20400" | "header = 96" "vers = 0x20500"
  using assms by (auto simp: headerVersion_def)

lemma headerVersion_facts:
  assumes "headerVersion header vers"
  shows "directoryHeader vers = header" "0x20100 \<le> vers" "vers \<le> 0x20600" "48 \<le> header" "header \<le> 96" "0x20200 \<le> vers \<longleftrightarrow> 52 \<le> header"
    "0x20300 \<le> vers \<longleftrightarrow> 64 \<le> header" "vers < 2 ^ 32"
  using assms by (auto simp: directoryHeader_def elim!: headerVersion_cases)

definition untouched :: "(nat \<times> byte list) list \<Rightarrow> nat \<Rightarrow> nat \<Rightarrow> bool" where
  "untouched ws at n \<longleftrightarrow> (\<forall>(off, p) \<in> set ws. at + n \<le> off \<or> off + length p \<le> at)"

text \<open>
  The fields a signer writes: version, flags, page count, code limit and page exponent. A limit
  beyond 32 bits has a field of its own; an exponent of zero may be left out.
\<close>

definition layout_fields :: "directory_layout \<Rightarrow> nat \<Rightarrow> nat \<Rightarrow> nat \<Rightarrow> nat \<Rightarrow> nat \<Rightarrow> bool" where
  "layout_fields l vers flags slots limit e \<longleftrightarrow>
     headerVersion (cl_header l) vers \<and> cl_size l < 2 ^ 32 \<and> length (cl_pages l) = slots * 32 \<and> e \<le> 31 \<and>
     (0, put32 MagicDirectory) \<in> set (cl_writes l) \<and> (4, put32 (cl_size l)) \<in> set (cl_writes l) \<and>
     (8, put32 vers) \<in> set (cl_writes l) \<and> (12, put32 flags) \<in> set (cl_writes l) \<and>
     (16, put32 (cl_hashOff l)) \<in> set (cl_writes l) \<and> (20, put32 (cl_header l)) \<in> set (cl_writes l) \<and>
     (24, put32 (cl_special l)) \<in> set (cl_writes l) \<and> (28, put32 slots) \<in> set (cl_writes l) \<and>
     (32, put32 (min limit (2 ^ 32 - 1))) \<in> set (cl_writes l) \<and> (36, [32]) \<in> set (cl_writes l) \<and> (37, [2]) \<in> set (cl_writes l) \<and>
     ((39, [of_nat e]) \<in> set (cl_writes l) \<or> e = 0 \<and> untouched (cl_writes l) 39 1) \<and> untouched (cl_writes l) 44 4 \<and>
     (if cl_team l = [] then 52 \<le> cl_header l \<longrightarrow> untouched (cl_writes l) 48 4
      else 52 \<le> cl_header l \<and> (48, put32 (cl_header l + length (cl_ident l) + 1)) \<in> set (cl_writes l)) \<and>
     (if limit < 2 ^ 32 then 64 \<le> cl_header l \<longrightarrow> untouched (cl_writes l) 56 8
      else 64 \<le> cl_header l \<and> limit < 2 ^ 64 \<and> (56, put64 limit) \<in> set (cl_writes l))"

lemma layout_reads:
  assumes ok: "layout_ok H l" and f: "layout_fields l vers flags slots limit e"
  defines "bs \<equiv> cl_bytes H l"
  shows "be32 bs 0 = MagicDirectory" "be32 bs 4 = cl_size l" "be32 bs 8 = vers" "be32 bs 12 = flags mod 2 ^ 32" "be32 bs 16 = cl_hashOff l"
    "be32 bs 20 = cl_header l" "be32 bs 24 = cl_special l" "be32 bs 28 = slots" "be32 bs 32 = min limit (2 ^ 32 - 1)"
    "unat (bs ! 36) = 32" "unat (bs ! 37) = 2" "unat (bs ! 39) = e" "be32 bs 44 = 0"
    "52 \<le> cl_header l \<Longrightarrow> be32 bs 48 = (if cl_team l = [] then 0 else cl_header l + length (cl_ident l) + 1)"
    "64 \<le> cl_header l \<Longrightarrow> be64 bs 56 = (if limit < 2 ^ 32 then 0 else limit)"
proof -
  have hv: "headerVersion (cl_header l) vers" and size: "cl_size l < 2 ^ 32" "length (cl_pages l) = slots * 32" "e \<le> 31"
    and w: "(0, put32 MagicDirectory) \<in> set (cl_writes l)" "(4, put32 (cl_size l)) \<in> set (cl_writes l)"
      "(8, put32 vers) \<in> set (cl_writes l)" "(12, put32 flags) \<in> set (cl_writes l)"
      "(16, put32 (cl_hashOff l)) \<in> set (cl_writes l)" "(20, put32 (cl_header l)) \<in> set (cl_writes l)"
      "(24, put32 (cl_special l)) \<in> set (cl_writes l)" "(28, put32 slots) \<in> set (cl_writes l)"
      "(32, put32 (min limit (2 ^ 32 - 1))) \<in> set (cl_writes l)" "(36, [32]) \<in> set (cl_writes l)" "(37, [2]) \<in> set (cl_writes l)"
    and ex: "(39, [of_nat e]) \<in> set (cl_writes l) \<or> e = 0 \<and> untouched (cl_writes l) 39 1" and scatter: "untouched (cl_writes l) 44 4"
    and team: "if cl_team l = [] then 52 \<le> cl_header l \<longrightarrow> untouched (cl_writes l) 48 4
      else 52 \<le> cl_header l \<and> (48, put32 (cl_header l + length (cl_ident l) + 1)) \<in> set (cl_writes l)"
    and lim: "if limit < 2 ^ 32 then 64 \<le> cl_header l \<longrightarrow> untouched (cl_writes l) 56 8
      else 64 \<le> cl_header l \<and> limit < 2 ^ 64 \<and> (56, put64 limit) \<in> set (cl_writes l)"
    using f unfolding layout_fields_def by - (elim conjE, assumption)+
  note hf = headerVersion_facts [OF hv]
  have less: "cl_hashOff l < 2 ^ 32" "cl_header l < 2 ^ 32" "cl_special l < 2 ^ 32" "slots < 2 ^ 32"
      "cl_header l + length (cl_ident l) + 1 < 2 ^ 32"
    using size cl_order(1,3,4) [of l] by linarith+
  note r = cl_field [OF ok, folded bs_def] and b = cl_byte [OF ok, folded bs_def]
  have fits: "v < 2 ^ 32 \<Longrightarrow> (off, put32 v) \<in> set (cl_writes l) \<Longrightarrow> be32 bs off = v" for off v
    using r [of off v] by simp
  have top: "MagicDirectory < 2 ^ 32" "min limit (2 ^ 32 - 1) < 2 ^ 32" by (simp_all add: MagicDirectory_def min_def)
  show "be32 bs 0 = MagicDirectory" by (rule fits [OF top(1) w(1)])
  show "be32 bs 32 = min limit (2 ^ 32 - 1)" by (rule fits [OF top(2) w(9)])
  show "be32 bs 4 = cl_size l" by (rule fits [OF size(1) w(2)])
  show "be32 bs 8 = vers" by (rule fits [OF hf(8) w(3)])
  show "be32 bs 12 = flags mod 2 ^ 32" by (rule r [OF w(4)])
  show "be32 bs 16 = cl_hashOff l" by (rule fits [OF less(1) w(5)])
  show "be32 bs 20 = cl_header l" by (rule fits [OF less(2) w(6)])
  show "be32 bs 24 = cl_special l" by (rule fits [OF less(3) w(7)])
  show "be32 bs 28 = slots" by (rule fits [OF less(4) w(8)])
  show "unat (bs ! 36) = 32" "unat (bs ! 37) = 2" using b [OF w(10)] b [OF w(11)] by simp_all
  have zero: "be_nat (slice bs at n) = 0" if "untouched (cl_writes l) at n" "at + n \<le> cl_header l" for at n
    unfolding bs_def using that by (intro cl_zero_nat [OF ok]) (simp_all add: untouched_def)
  show "unat (bs ! 39) = e"
  proof (cases "(39, [of_nat e]) \<in> set (cl_writes l)")
    case True
    then show ?thesis using b [OF True] size(3) by (simp add: of_nat_byte_less)
  next
    case False
    then have e: "e = 0" "untouched (cl_writes l) 39 1" using ex by simp_all
    have "39 < length bs" unfolding bs_def using hf(4) by (intro header_inside [OF ok]) simp
    then have "slice bs 39 1 = [bs ! 39]" by (simp add: slice_def take_Suc_conv_app_nth flip: Cons_nth_drop_Suc)
    then show ?thesis using zero [OF e(2)] hf(4) e(1) by simp
  qed
  show "be32 bs 44 = 0" using zero [OF scatter] hf(4) by (simp add: be32_def)
  show "be32 bs 48 = (if cl_team l = [] then 0 else cl_header l + length (cl_ident l) + 1)" if "52 \<le> cl_header l"
  proof (cases "cl_team l = []")
    case True
    then show ?thesis using team that zero [of 48 4] by (simp add: be32_def)
  next
    case False
    then have "(48, put32 (cl_header l + length (cl_ident l) + 1)) \<in> set (cl_writes l)" using team by simp
    from fits [OF less(5) this] False show ?thesis by simp
  qed
  show "be64 bs 56 = (if limit < 2 ^ 32 then 0 else limit)" if "64 \<le> cl_header l"
  proof (cases "limit < 2 ^ 32")
    case True
    then show ?thesis using lim that zero [of 56 8] by (simp add: be64_def)
  next
    case False
    then have "limit < 2 ^ 64" "(56, put64 limit) \<in> set (cl_writes l)" using lim by simp_all
    then show ?thesis using cl_field64 [OF ok, of 56 limit, folded bs_def] False by simp
  qed
qed

text \<open>The directory a signer writes is one the parser accepts, with the fields that were put in.\<close>

lemma layout_parses:
  assumes ok: "layout_ok H l" and f: "layout_fields l vers flags slots limit e"
  shows "\<exists>d. parseDirectory H (cl_bytes H l) = Inr d \<and> Identifier d = cl_ident l \<and> TeamID d = cl_team l \<and> HashType d = 2 \<and>
    HashSize d = 32 \<and> PageExponent d = e \<and> CodeLimit d = limit \<and> CodeSlots d = slots \<and> SpecialSlots d = cl_special l \<and>
    HashOffset d = cl_hashOff l \<and> Version d = vers \<and> Flags d = flags mod 2 ^ 32 \<and> Raw d = cl_bytes H l"
proof -
  let ?bs = "cl_bytes H l"
  note r = layout_reads [OF ok f] and len = length_cl_bytes [OF ok]
  have hv: "headerVersion (cl_header l) vers" and tail: "length (cl_pages l) = slots * 32" and e: "e \<le> 31"
    and team: "cl_team l \<noteq> [] \<Longrightarrow> 52 \<le> cl_header l" and lim: "\<not> limit < 2 ^ 32 \<Longrightarrow> 64 \<le> cl_header l"
    using f unfolding layout_fields_def by (auto split: if_splits)
  note hdr = headerVersion_facts [OF hv]
  have H: "hash_lib_ok H" using ok by (simp add: layout_ok_def)
  have long: "\<not> length ?bs < 44" "\<not> length ?bs < cl_header l" "directoryHeader vers \<le> length ?bs"
    using len cl_order(1,3,4) [of l] hdr(1,4) by linarith+
  note fields = directory_fields [OF long(1)] directory_reads [OF long(3)]
  have teamField: "(if (if 0x20200 \<le> vers then be32 ?bs 48 else 0) \<noteq> 0
      then cstring ?bs (if 0x20200 \<le> vers then be32 ?bs 48 else 0) else Inr []) = Inr (cl_team l)"
    using team cl_team_string [OF ok] r(14) hdr(6) by auto
  have limit: "(if (if 0x20300 \<le> vers then be64 ?bs 56 else 0) \<noteq> 0 then (if 0x20300 \<le> vers then be64 ?bs 56 else 0) else be32 ?bs 32) = limit"
    using r(9,15) hdr(7) lim by (auto simp: min_def)
  have dig: "digest H 2 ?bs = Inr (sha256 H ?bs)" "length (sha256 H ?bs) = 32"
    using H by (simp_all add: digest_def hash_lib_ok_def)
  have bounds: "\<not> (cl_hashOff l < cl_header l + cl_special l * 32 \<or> \<not> rangeOK (cl_hashOff l) (slots * 32) (length ?bs))"
    using len cl_order(1,3,4) [of l] tail by (auto simp: rangeOK_iff)
  have vers: "\<not> (vers < 0x20001 \<or> 0x20600 < vers)" using hdr(2,3) by simp
  have dims: "\<not> (32 \<noteq> length (sha256 H ?bs) \<or> 31 < e)" using dig(2) e by simp
  show ?thesis
    unfolding parseDirectory_def Let_def fields rbind_Inr r(1,3-8,10-13) hdr(1) if_not_P [OF long(1)] if_not_P [OF vers]
      if_not_P [OF long(2)] dig(1) if_not_P [OF dims] teamField cl_ident_string [OF ok] if_not_P [OF bounds] limit
    by (simp add: if_not_P)
qed

text \<open>As a component it announces its magic and its length.\<close>

lemma layout_component:
  assumes ok: "layout_ok H l" and f: "layout_fields l vers flags slots limit e"
  shows "component_ok \<lparr>Slot = 0, Magic = MagicDirectory, Data = cl_bytes H l\<rparr>"
proof -
  have "headerVersion (cl_header l) vers" "cl_size l < 2 ^ 32" using f by (simp_all add: layout_fields_def)
  then have "48 \<le> cl_size l" "cl_size l < 2 ^ 32" using headerVersion_facts(4) cl_order(1,3,4) [of l] by fastforce+
  then show ?thesis
    using layout_reads(1,2) [OF ok f] length_cl_bytes [OF ok] by (simp add: component_ok_def expectedMagic_def slot_defs)
qed

end
