(* ===== verification/Disk_Image.thy ===== *)
theory Disk_Image
  imports Byte_Transfer Signature_Props
begin

text \<open>
  dmg.go: UDIF disk images, whose trailer tells where the signature lies, and their identifiers.
  The trailer's fields are those of a third-party structure; its layout is a parameter, with
  what encoding/binary guarantees of a structure of fixed size as its laws.
\<close>

section \<open>The trailer\<close>

text \<open>disk.DMGFooter: the fields the package names; the others are kept as \<open>ft_other\<close>.\<close>

record dmgFooter =
  ft_Version :: nat
  ft_HeaderSize :: nat
  ft_Flags :: nat
  ft_RunningDataForkOffset :: nat
  ft_DataForkOffset :: nat
  ft_DataForkLength :: nat
  ft_RsrcForkOffset :: nat
  ft_RsrcForkLength :: nat
  ft_SegmentNumber :: nat
  ft_SegmentCount :: nat
  ft_PlistOffset :: nat
  ft_PlistLength :: nat
  ft_CodeSignatureOffset :: nat
  ft_CodeSignatureLength :: nat
  ft_other :: "byte list"

text \<open>binary.Size, binary.Read and binary.Write of the structure.\<close>

record dmg_layout =
  dm_size :: nat
  dm_decode :: "byte list \<Rightarrow> dmgFooter"
  dm_encode :: "dmgFooter \<Rightarrow> byte list"

definition signedFooter :: "dmgFooter \<Rightarrow> nat \<Rightarrow> nat \<Rightarrow> dmgFooter" where
  "signedFooter h off len = h\<lparr>ft_CodeSignatureOffset := off, ft_CodeSignatureLength := len\<rparr>"

text \<open>
  Reading and writing are inverse on byte strings of the structure's size and on the structures
  they stand for, also with other values of the two 64-bit signature fields, which lie behind the
  four bytes of the marker.
\<close>

definition dmg_layout_ok :: "dmg_layout \<Rightarrow> bool" where
  "dmg_layout_ok L \<longleftrightarrow> 4 \<le> dm_size L \<and> dm_size L \<le> 2 ^ 16 \<and>
     (\<forall>b. length b = dm_size L \<longrightarrow> dm_encode L (dm_decode L b) = b \<and>
       ft_CodeSignatureOffset (dm_decode L b) < 2 ^ 64 \<and> ft_CodeSignatureLength (dm_decode L b) < 2 ^ 64 \<and>
       (\<forall>off len. off < 2 ^ 64 \<longrightarrow> len < 2 ^ 64 \<longrightarrow>
         length (dm_encode L (signedFooter (dm_decode L b) off len)) = dm_size L \<and>
         take 4 (dm_encode L (signedFooter (dm_decode L b) off len)) = take 4 b \<and>
         dm_decode L (dm_encode L (signedFooter (dm_decode L b) off len)) = signedFooter (dm_decode L b) off len))"

lemma signedFooter_twice [simp]: "signedFooter (signedFooter h off len) off' len' = signedFooter h off' len'"
  and signedFooter_sel [simp]: "ft_CodeSignatureOffset (signedFooter h off len) = off" "ft_CodeSignatureLength (signedFooter h off len) = len"
  by (simp_all add: signedFooter_def)

section \<open>Recognising and parsing\<close>

text \<open>isDMG: Mach-O magics win over a trailing UDIF marker.\<close>

definition isDMG :: "nat \<Rightarrow> byte list \<Rightarrow> bool result" where
  "isDMG footer data =
    (if length data < footer then Inr False else
     rbind (rd32 data 0) (\<lambda>magic.
     if magic \<in> {0xfeedface, 0xcefaedfe, 0xfeedfacf, 0xcffaedfe, 0xcafebabe, 0xbebafeca, 0xcafebabf, 0xbfbafeca}
     then Inr False else
     rbind (slice_at (drop (length data - footer) data) 0 4) (\<lambda>t. Inr (t = str ''koly''))))"

record dmgImage =
  dg_footer :: dmgFooter
  dg_content :: "byte list"
  dg_signature :: "Signature option"
  dg_signed :: bool
  dg_priorFlags :: nat

record dmgSignatureState =
  ds_length :: nat
  ds_signed :: bool
  ds_flags :: nat

text \<open>The data ranges: inside the content and, where not empty, pairwise disjoint.\<close>

fun checkRegions :: "nat \<Rightarrow> (nat \<times> nat) list \<Rightarrow> (nat \<times> nat) list \<Rightarrow> unit result" where
  "checkRegions fin prior [] = Inr ()"
| "checkRegions fin prior ((off, len) # rs) =
    (if \<not> rangeOK off len fin then Inl (Malformed ''UDIF data range'') else
     if \<exists>(o', l') \<in> set prior. len > 0 \<and> l' > 0 \<and> off < o' + l' \<and> o' < off + len
     then Inl (Malformed ''overlapping UDIF data ranges'') else
     checkRegions fin (prior @ [(off, len)]) rs)"

definition dmgRegions :: "dmgFooter \<Rightarrow> (nat \<times> nat) list" where
  "dmgRegions h = [(ft_DataForkOffset h, ft_DataForkLength h), (ft_RsrcForkOffset h, ft_RsrcForkLength h),
     (ft_PlistOffset h, ft_PlistLength h)]"

text \<open>
  Where the signature lies, and what the callback finds there. The value the callback of the
  code stores outside is returned beside the image.
\<close>

definition dmgSignature ::
  "dmgFooter \<Rightarrow> nat \<Rightarrow> (nat \<Rightarrow> nat \<Rightarrow> (dmgSignatureState \<times> 'a) result) \<Rightarrow> (nat \<times> (dmgSignatureState \<times> 'a) option) result" where
  "dmgSignature h fin parse =
    (let off = ft_CodeSignatureOffset h; len = ft_CodeSignatureLength h in
     if off = 0 then
       if len \<noteq> 0 then Inl (Malformed ''UDIF signature length without offset'') else Inr (fin, None)
     else if off < 8 \<or> \<not> rangeOK off len fin \<or> len = 0 \<or> off + len \<noteq> fin then Inl (Malformed ''UDIF signature bounds'') else
     rbind (parse off (fin - off)) (\<lambda>(state, x).
     if ds_length state \<noteq> len then Inl (Malformed ''UDIF signature padding'') else Inr (off, Some (state, x))))"

definition parseDMGStructure ::
  "dmg_layout \<Rightarrow> nat \<Rightarrow> byte list \<Rightarrow> (nat \<Rightarrow> nat \<Rightarrow> (dmgSignatureState \<times> 'a) result) \<Rightarrow> (dmgImage \<times> 'a option) result" where
  "parseDMGStructure L len trailer parse =
    (if len < dm_size L + 8 then Inl (Malformed ''UDIF image size or trailer'') else
     let h = dm_decode L trailer in
     if ft_Version h \<noteq> 4 \<or> ft_HeaderSize h \<noteq> dm_size L \<or> ft_Flags h \<noteq> 1 \<or> ft_SegmentNumber h \<noteq> 1 \<or> ft_SegmentCount h \<noteq> 1 \<or>
        ft_RunningDataForkOffset h \<noteq> 0
     then Inl (Unsupported ''UDIF version, flags or segmented image'') else
     rbind (dmgSignature h (len - dm_size L) parse) (\<lambda>(fin, found).
     rbind (checkRegions fin [] (dmgRegions h)) (\<lambda>_.
     if ft_PlistLength h = 0 then Inl (Unsupported ''UDIF image without a resource plist'') else
     Inr (\<lparr>dg_footer = signedFooter h fin 0, dg_content = [], dg_signature = None,
            dg_signed = (case found of None \<Rightarrow> False | Some (state, _) \<Rightarrow> ds_signed state),
            dg_priorFlags = (case found of None \<Rightarrow> 0 | Some (state, _) \<Rightarrow> ds_flags state)\<rparr>, map_option snd found))))"

text \<open>The owned parse of the signature.\<close>

definition signatureState :: "Signature \<Rightarrow> dmgSignatureState" where
  "signatureState sig = \<lparr>ds_length = Length sig, ds_signed = Directories sig \<noteq> [],
     ds_flags = (if Directories sig \<noteq> [] then Flags (hd (Directories sig)) else 0)\<rparr>"

definition parseDMGRange :: "hash_lib \<Rightarrow> dmg_layout \<Rightarrow> nat \<Rightarrow> byte list \<Rightarrow> range_reader \<Rightarrow> dmgImage result" where
  "parseDMGRange H L len trailer read =
    rbind (parseDMGStructure L len trailer (\<lambda>off n.
      rbind (parseSignatureRange H n (subRange read off) True) (\<lambda>sig. Inr (signatureState sig, sig)))) (\<lambda>(m, sig).
    Inr (if dg_signed m then m\<lparr>dg_signature := sig\<rparr> else m))"

definition parseDMG :: "hash_lib \<Rightarrow> dmg_layout \<Rightarrow> byte list \<Rightarrow> dmgImage result" where
  "parseDMG H L data =
    (if length data < dm_size L + 8 \<or> length data > maxFileSize then Inl (Malformed ''UDIF image size or trailer'') else
     rbind (isDMG (dm_size L) data) (\<lambda>dmg.
     if \<not> dmg then Inl (Malformed ''UDIF image size or trailer'') else
     rbind (parseDMGRange H L (length data) (drop (length data - dm_size L) data) (memoryRange data)) (\<lambda>m.
     rbind (slice_at data 0 (ft_CodeSignatureOffset (dg_footer m))) (\<lambda>content.
     Inr (m\<lparr>dg_content := content\<rparr>)))))"

definition dmgTrailer :: "dmg_layout \<Rightarrow> dmgImage \<Rightarrow> byte list" where
  "dmgTrailer L m = dm_encode L (dg_footer m)"

section \<open>Identifiers\<close>

text \<open>filepath.Base: trailing separators removed, then what follows the last one.\<close>

definition baseName :: "gostring \<Rightarrow> gostring" where
  "baseName path =
    (if path = [] then str ''.'' else
     let p = rev (dropWhile (\<lambda>c. c = 47) (rev path)); b = rev (takeWhile (\<lambda>c. c \<noteq> 47) (rev p)) in
     if b = [] then str ''/'' else b)"

definition isDigit :: "byte \<Rightarrow> bool" where
  "isDigit c \<longleftrightarrow> 48 \<le> unat c \<and> unat c \<le> 57"

definition isVersionByte :: "byte \<Rightarrow> bool" where
  "isVersionByte c \<longleftrightarrow> isDigit c \<or> c = 46"

text \<open>DiskRep's heuristic: the extension is dropped, and of a version suffix all but its first number.\<close>

definition dropExtension :: "gostring \<Rightarrow> gostring" where
  "dropExtension name =
    (let ext = rev (takeWhile (\<lambda>c. c \<noteq> 46) (rev name)) in
     if 46 \<in> set name \<and> ext \<noteq> [] \<and> \<not> isDigit (hd ext) then take (length name - length ext - 1) name else name)"

definition canonicalIdentifier :: "gostring \<Rightarrow> gostring" where
  "canonicalIdentifier path =
    (let name = dropExtension (baseName path) in
     if name \<noteq> [] \<and> \<not> isVersionByte (hd name) then
       let suffix = rev (takeWhile isVersionByte (rev name));
           stem = take (length name - length suffix) name;
           (dot, digits) = (if suffix \<noteq> [] \<and> hd suffix = 46 then ([46], tl suffix) else ([], suffix))
       in stem @ dot @ takeWhile isDigit digits
     else name)"

definition dmgImageIdentifier :: "hash_lib \<Rightarrow> dmg_layout \<Rightarrow> dmgImage \<Rightarrow> gostring \<Rightarrow> bool \<Rightarrow> gostring" where
  "dmgImageIdentifier H L m path adhoc =
    (let name = canonicalIdentifier path in
     if adhoc \<and> 46 \<notin> set name then name @ str ''-'' @ hexEncode (sha1 H (dmgTrailer L m)) else name)"

definition dmgIdentifier :: "hash_lib \<Rightarrow> dmg_layout \<Rightarrow> gostring \<Rightarrow> byte list \<Rightarrow> bool \<Rightarrow> gostring result" where
  "dmgIdentifier H L path data adhoc = rbind (parseDMG H L data) (\<lambda>m. Inr (dmgImageIdentifier H L m path adhoc))"

section \<open>Parsed images\<close>

text \<open>An accepted image is its content, the signature's bytes and the trailer.\<close>

lemma parseDMG_inv:
  assumes "parseDMG H L data = Inr m"
  defines "fin \<equiv> length data - dm_size L" and "h \<equiv> dm_decode L (drop (length data - dm_size L) data)"
  shows "dm_size L + 8 \<le> length data" "length data \<le> maxFileSize" "isDMG (dm_size L) data = Inr True"
    "ft_Version h = 4 \<and> ft_HeaderSize h = dm_size L \<and> ft_Flags h = 1 \<and> ft_SegmentNumber h = 1 \<and> ft_SegmentCount h = 1 \<and>
      ft_RunningDataForkOffset h = 0 \<and> ft_PlistLength h \<noteq> 0"
    "\<exists>off. 8 \<le> off \<and> off \<le> fin \<and> dg_footer m = signedFooter h off 0 \<and> dg_content m = take off data \<and> checkRegions off [] (dmgRegions h) = Inr ()"
proof -
  from assms(1) obtain m0 found where size: "\<not> (length data < dm_size L + 8 \<or> length data > maxFileSize)" and dmg: "isDMG (dm_size L) data = Inr True"
    and p: "parseDMGStructure L (length data) (drop (length data - dm_size L) data) (\<lambda>off n.
      rbind (parseSignatureRange H n (subRange (memoryRange data) off) True) (\<lambda>sig. Inr (signatureState sig, sig))) = Inr (m0, found)"
    and foot: "dg_footer m = dg_footer m0" "ft_CodeSignatureOffset (dg_footer m0) \<le> length data"
      "dg_content m = take (ft_CodeSignatureOffset (dg_footer m0)) data"
    by (auto simp: parseDMG_def parseDMGRange_def guard_eq_Inr rbind_eq_Inr slice_at_Inr slice_def split: if_splits)
  show "dm_size L + 8 \<le> length data" "length data \<le> maxFileSize" "isDMG (dm_size L) data = Inr True" using size dmg by simp_all
  from p obtain off x where h: "\<not> (ft_Version h \<noteq> 4 \<or> ft_HeaderSize h \<noteq> dm_size L \<or> ft_Flags h \<noteq> 1 \<or> ft_SegmentNumber h \<noteq> 1 \<or> ft_SegmentCount h \<noteq> 1 \<or>
        ft_RunningDataForkOffset h \<noteq> 0)" "ft_PlistLength h \<noteq> 0" "checkRegions off [] (dmgRegions h) = Inr ()" "dg_footer m0 = signedFooter h off 0"
      and s: "dmgSignature h fin (\<lambda>off n.
        rbind (parseSignatureRange H n (subRange (memoryRange data) off) True) (\<lambda>sig. Inr (signatureState sig, sig))) = Inr (off, x)"
    unfolding parseDMGStructure_def Let_def h_def fin_def by (auto simp: guard_eq_Inr rbind_eq_Inr)
  show "ft_Version h = 4 \<and> ft_HeaderSize h = dm_size L \<and> ft_Flags h = 1 \<and> ft_SegmentNumber h = 1 \<and> ft_SegmentCount h = 1 \<and>
      ft_RunningDataForkOffset h = 0 \<and> ft_PlistLength h \<noteq> 0" using h(1,2) by simp
  have "8 \<le> off \<and> off \<le> fin"
    using s size by (auto simp: dmgSignature_def Let_def guard_eq_Inr rbind_eq_Inr rangeOK_iff fin_def split: if_splits)
  then show "\<exists>off. 8 \<le> off \<and> off \<le> fin \<and> dg_footer m = signedFooter h off 0 \<and> dg_content m = take off data \<and> checkRegions off [] (dmgRegions h) = Inr ()"
    using h(3,4) foot by auto
qed

section \<open>A concrete layout\<close>

text \<open>The big-endian trailer of 512 bytes, with the unnamed fields in place: an instance of the laws.\<close>

definition udifLayout :: dmg_layout where
  "udifLayout = \<lparr>dm_size = 512,
     dm_decode = (\<lambda>b. \<lparr>ft_Version = be32 b 4, ft_HeaderSize = be32 b 8, ft_Flags = be32 b 12,
       ft_RunningDataForkOffset = be64 b 16, ft_DataForkOffset = be64 b 24, ft_DataForkLength = be64 b 32,
       ft_RsrcForkOffset = be64 b 40, ft_RsrcForkLength = be64 b 48, ft_SegmentNumber = be32 b 56, ft_SegmentCount = be32 b 60,
       ft_PlistOffset = be64 b 216, ft_PlistLength = be64 b 224, ft_CodeSignatureOffset = be64 b 296,
       ft_CodeSignatureLength = be64 b 304, ft_other = slice b 0 4 @ slice b 64 152 @ slice b 232 64 @ slice b 312 200\<rparr>),
     dm_encode = (\<lambda>f. slice (ft_other f) 0 4 @ put32 (ft_Version f) @ put32 (ft_HeaderSize f) @ put32 (ft_Flags f) @
       put64 (ft_RunningDataForkOffset f) @ put64 (ft_DataForkOffset f) @ put64 (ft_DataForkLength f) @
       put64 (ft_RsrcForkOffset f) @ put64 (ft_RsrcForkLength f) @ put32 (ft_SegmentNumber f) @ put32 (ft_SegmentCount f) @
       slice (ft_other f) 4 152 @ put64 (ft_PlistOffset f) @ put64 (ft_PlistLength f) @ slice (ft_other f) 156 64 @
       put64 (ft_CodeSignatureOffset f) @ put64 (ft_CodeSignatureLength f) @ slice (ft_other f) 220 200)\<rparr>"

lemma put64_be64: "at + 8 \<le> length b \<Longrightarrow> put64 (be64 b at) = slice b at 8"
  using be_put_be_nat [of "slice b at 8"] by (simp add: be64_def)

lemma slice_join: "b = a + m \<Longrightarrow> slice xs a m @ slice xs b n = slice xs a (m + n)"
  "b = a + m \<Longrightarrow> slice xs a m @ slice xs b n @ ys = slice xs a (m + n) @ ys"
  by (simp_all add: slice_split)

lemma udif_encode:
  assumes "length b = 512"
  shows "dm_encode udifLayout (signedFooter (dm_decode udifLayout b) off len) = slice b 0 296 @ put64 off @ put64 len @ slice b 312 200"
  using assms by (simp add: udifLayout_def signedFooter_def put32_be32 put64_be64 slice_join byte_simps)

lemma udif_decode_encode:
  assumes b: "length b = 512" and small: "off < 2 ^ 64" "len < 2 ^ 64"
  shows "dm_decode udifLayout (slice b 0 296 @ put64 off @ put64 len @ slice b 312 200) = signedFooter (dm_decode udifLayout b) off len"
proof -
  let ?e = "slice b 0 296 @ put64 off @ put64 len @ slice b 312 200"
  have low: "slice ?e at n = slice b at n" if "at + n \<le> 296" for at n
    using b that by (simp add: slice_append1 slice_slice)
  have high: "slice ?e 312 200 = slice b 312 200" using b by (simp add: byte_simps)
  have fields: "be64 ?e 296 = off" "be64 ?e 304 = len" using b small by (simp_all add: be64_def byte_simps)
  have r: "at + 4 \<le> 296 \<Longrightarrow> be32 ?e at = be32 b at" "at + 8 \<le> 296 \<Longrightarrow> be64 ?e at = be64 b at" for at
    by (simp_all only: be32_def be64_def low)
  show ?thesis unfolding udifLayout_def signedFooter_def by (simp only: dmg_layout.simps fields high) (simp add: r low)
qed

lemma udifLayout_ok: "dmg_layout_ok udifLayout"
proof -
  have size: "dm_size udifLayout = 512" by (simp add: udifLayout_def)
  have "dm_encode udifLayout (dm_decode udifLayout b) = b" if "length b = 512" for b
    using that by (simp add: udifLayout_def put32_be32 put64_be64 slice_join byte_simps)
  moreover have "ft_CodeSignatureOffset (dm_decode udifLayout b) < 2 ^ 64" "ft_CodeSignatureLength (dm_decode udifLayout b) < 2 ^ 64" for b
    using be64_less [of b 296] be64_less [of b 304] by (simp_all add: udifLayout_def)
  ultimately show ?thesis
    unfolding dmg_layout_ok_def size
    using udif_encode udif_decode_encode by (simp add: slice_def)
qed

end
