(* ===== verification/MachO_Signing.thy ===== *)
theory MachO_Signing
  imports Directory_Layout Disk_Image
begin

unbundle bit_operations_syntax

text \<open>
  sign.go: signing one image. Parameters stand for what other components compute: the
  entitlement payloads and their executable flags, and the CMS signature of an identity.
  The CodeDirectory's section is the memory form of a working section.
\<close>

section \<open>Options\<close>

text \<open>osversion.MacOSProfile: the zero value, the three supported profiles, any other.\<close>

datatype profile = DefaultProfile | MacOS15 | MacOS26 | MacOS27 | OtherProfile

text \<open>The timestamp options: whether a provider and TSA roots are given.\<close>

record SignOptions =
  so_MacOSProfile :: profile
  so_Identifier :: gostring
  so_Force :: bool
  so_Flags :: nat
  so_PageSize :: nat
  so_Entitlements :: "byte list"
  so_ForceLibraryEntitlements :: bool
  so_Requirements :: "byte list"
  so_InfoPlist :: "byte list"
  so_Resources :: "byte list"
  so_Identity :: bool
  so_RuntimeVersion :: nat
  so_teamID :: gostring
  so_Timestamp :: "(bool \<times> bool) option"

definition legacySigningProfile :: "SignOptions \<Rightarrow> bool" where
  "legacySigningProfile opts \<longleftrightarrow> so_MacOSProfile opts = MacOS15 \<or> so_MacOSProfile opts = MacOS26"

definition validateProfile :: "SignOptions \<Rightarrow> unit result" where
  "validateProfile opts = (case so_MacOSProfile opts of OtherProfile \<Rightarrow> Inl (Unsupported ''macOS signing profile'') | _ \<Rightarrow> Inr ())"

definition defaultCMSSize :: nat where
  "defaultCMSSize = 18000"

record sign_tools =
  encodeEntitlements :: "byte list \<Rightarrow> (byte list \<times> byte list) result"
  entitlementFlags :: "byte list \<Rightarrow> nat"
  generateCMS :: "outputSource \<Rightarrow> byte list result"
  prepareIdentity :: "SignOptions \<Rightarrow> SignOptions result"
  dmgLayout :: dmg_layout

section \<open>The signature's parameters\<close>

definition signPage :: "SignOptions \<Rightarrow> image \<Rightarrow> nat result" where
  "signPage opts im =
    (let pg = (if so_PageSize opts \<noteq> 0 then so_PageSize opts
                 else if im_cpu im = 0x100000c \<and> so_MacOSProfile opts \<noteq> MacOS15 then 16384 else 4096) in
     if pg < 1 \<or> pg AND (pg - 1) \<noteq> 0 \<or> pg > 2 ^ 30
     then Inl (Plain ''page size must be a power of two at most 1 GiB'') else Inr pg)"

text \<open>Where the code ends: the signature has to be the last thing in the slice.\<close>

definition signCodeEnd :: "image \<Rightarrow> outputSource \<Rightarrow> nat result" where
  "signCodeEnd im src =
    rbind (if im_sigCommand im \<ge> 0 then
             if int (im_sigOffset im + im_sigSize im) \<noteq> srcSize src mod 2 ^ 64
             then Inl (Unsupported ''signature is not at end of slice'') else Inr (int (im_sigOffset im))
           else Inr (srcSize src)) (\<lambda>e.
    if srcSize src < 0 \<or> srcSize src > 2 ^ 32 - 1
    then Inl (allocationError ''Mach-O input exceeds 32-bit allocation size'') else
    Inr ((nat e + 15) div 16 * 16))"

text \<open>The number of special slots, the executable flags and the components.\<close>

definition signComponents :: "sign_tools \<Rightarrow> SignOptions \<Rightarrow> image \<Rightarrow> (nat \<times> nat \<times> Blob list) result" where
  "signComponents tools opts im =
    (let reqs = (if so_Requirements opts = [] then superblob MagicRequirements [] else so_Requirements opts);
         special = (if so_Resources opts \<noteq> [] then 3 else 2);
         comps = [\<lparr>Slot = SlotRequirements, Magic = 0, Data = reqs\<rparr>, \<lparr>Slot = SlotCMS, Magic = 0, Data = blob MagicCMS []\<rparr>];
         execFlags = (if im_filetype im = 2 then 1 else 0) in
     if so_Entitlements opts \<noteq> [] \<and> (im_filetype im = 2 \<or> so_ForceLibraryEntitlements opts) then
       rbind (encodeEntitlements tools (so_Entitlements opts)) (\<lambda>(xml, der).
       Inr (7, execFlags OR entitlementFlags tools xml,
         comps @ [\<lparr>Slot = SlotEntitlements, Magic = 0, Data = blob MagicEntitlements xml\<rparr>,
                  \<lparr>Slot = SlotDEREntitlements, Magic = 0, Data = blob MagicDEREntitlements der\<rparr>]))
     else Inr (special, execFlags, comps))"

text \<open>Header size, vers and the runtime vers to record.\<close>

definition signHeader :: "SignOptions \<Rightarrow> image \<Rightarrow> nat \<times> nat \<times> nat" where
  "signHeader opts im =
    (let (header, vers) = (if so_teamID opts \<noteq> [] then (52, 0x20200) else (48, 0x20100));
         (header, vers) = (if im_execPlatform im \<noteq> 0 \<and> im_textSize im > 0 then (88, 0x20400) else (header, vers)) in
     if so_Flags opts AND FlagRuntime \<noteq> 0 then
       (96, 0x20500, if so_RuntimeVersion opts \<noteq> 0 then so_RuntimeVersion opts
                     else if im_versionSDK im \<noteq> 0 then im_versionSDK im else 27 * 2 ^ 16)
     else (header, vers, so_RuntimeVersion opts))"

definition teamSize :: "SignOptions \<Rightarrow> nat" where
  "teamSize opts = (if so_teamID opts \<noteq> [] then length (so_teamID opts) + 1 else 0)"

definition hashOffset :: "SignOptions \<Rightarrow> nat \<Rightarrow> nat \<Rightarrow> nat" where
  "hashOffset opts header special = header + length (so_Identifier opts) + 1 + teamSize opts + special * 32"

text \<open>The reserved signature size; a CMS estimate replaces the empty wrapper.\<close>

definition signatureSize :: "SignOptions \<Rightarrow> nat \<Rightarrow> nat \<Rightarrow> Blob list \<Rightarrow> nat" where
  "signatureSize opts header cdSize comps =
    (let sigLen = 12 + (length comps + 1) * 8 + cdSize + sum_list (map (\<lambda>b. length (Data b)) comps);
         sigLen = (if so_Identity opts \<or> legacySigningProfile opts then sigLen + (defaultCMSSize - 8) else sigLen)
     in (sigLen + (96 - header) + 15) div 16 * 16)"

section \<open>The CodeDirectory\<close>

definition directoryWrites ::
  "SignOptions \<Rightarrow> image \<Rightarrow> nat \<Rightarrow> nat \<Rightarrow> nat \<Rightarrow> nat \<Rightarrow> nat \<Rightarrow> nat \<Rightarrow> nat \<Rightarrow> nat \<Rightarrow> (nat \<times> byte list) list" where
  "directoryWrites opts im pg header vers runtime special execFlags codeEnd cdSize =
    (let flags = (if so_Identity opts then so_Flags opts else so_Flags opts OR FlagAdhoc) in
     [(0, put32 MagicDirectory), (4, put32 cdSize), (8, put32 vers), (12, put32 flags),
      (16, put32 (hashOffset opts header special)), (20, put32 header), (24, put32 special),
      (28, put32 ((codeEnd + pg - 1) div pg)), (32, put32 codeEnd),
      (36, [32]), (37, [2]), (39, [of_nat (trailingZeros pg)])] @
     (if header \<ge> 88
      then (if im_execPlatform im \<noteq> 0 then [(64, put64 (im_textBase im)), (72, put64 (im_textSize im))] else [])
           @ [(80, put64 execFlags)]
      else []) @
     (if header \<ge> 96 then [(88, put32 runtime)] else []) @
     (if teamSize opts > 0 then [(48, put32 (header + length (so_Identifier opts) + 1))] else []))"

text \<open>
  What the special slots bind. The loop over the map literal of Info.plist and resources has
  no fixed order in Go; the two slots are disjoint and any order gives the same bytes.
\<close>

definition specialData :: "SignOptions \<Rightarrow> Blob list \<Rightarrow> (nat \<times> byte list) list" where
  "specialData opts comps = map (\<lambda>b. (Slot b, Data b)) (filter (\<lambda>b. Slot b < 0x1000) comps) @
     filter (\<lambda>(slot, data). data \<noteq> []) [(SlotInfo, so_InfoPlist opts), (SlotResources, so_Resources opts)]"

definition signDirectory ::
  "hash_lib \<Rightarrow> SignOptions \<Rightarrow> nat \<Rightarrow> (nat \<times> byte list) list \<Rightarrow> nat \<Rightarrow> nat \<Rightarrow> nat \<Rightarrow> (nat \<times> byte list) list
     \<Rightarrow> outputSource \<Rightarrow> nat \<Rightarrow> byte list result" where
  "signDirectory H opts pg writes header hashOff cdSize specials patched codeEnd =
    rbind (writeAll writes (replicate header 0)) (\<lambda>cd.
    case writeDirectoryPrefix (sectionWriteAt rangeBufferWriteAt 0 (int cdSize)) (replicate cdSize 0) cd
           (so_Identifier opts) (so_teamID opts) of
      (s, Some e) \<Rightarrow> Inl e
    | (s, None) \<Rightarrow>
      rbind (writeDigests H hashOff specials s) (\<lambda>s.
      case hashCodePagesTo H \<lparr>reader = reader patched, offset = 0, srcSize = int codeEnd\<rparr> pg
             (sectionWriteAt rangeBufferWriteAt 0 (int cdSize)) s (int hashOff) of
        (s, Some e) \<Rightarrow> Inl e | (s, None) \<Rightarrow> Inr s))"

definition sectionOutput :: "byte list \<Rightarrow> outputSource" where
  "sectionOutput b = \<lparr>reader = Some (sectionReadAt (rangeBufferReadAt b) 0 (int (length b))), offset = 0,
     srcSize = int (length b)\<rparr>"

section \<open>Signing an image\<close>

definition finishSignature :: "sign_tools \<Rightarrow> SignOptions \<Rightarrow> byte list \<Rightarrow> Blob list \<Rightarrow> outputSource result" where
  "finishSignature tools opts cd comps =
    rbind (if so_Identity opts then rbind (generateCMS tools (sectionOutput cd)) (\<lambda>cms.
             Inr (map (\<lambda>b. if Slot b = SlotCMS then b\<lparr>Data := blob MagicCMS cms\<rparr> else b) comps))
           else Inr comps) (\<lambda>comps.
    superblobOutput MagicSignature (\<lparr>secSlot = SlotDirectory, secData = sectionOutput cd\<rparr> #
      map (\<lambda>b. \<lparr>secSlot = Slot b, secData = byteOutput (Data b)\<rparr>) comps))"

definition signImageSource ::
  "hash_lib \<Rightarrow> sign_tools \<Rightarrow> SignOptions \<Rightarrow> image \<Rightarrow> outputSource \<Rightarrow> outputSource result" where
  "signImageSource H tools opts im src =
    (if im_sigCommand im \<ge> 0 \<and> \<not> so_Force opts then Inl ErrSigned else
     if im_filetype im \<notin> {2, 6, 8} then Inl (Unsupported ''Mach-O file type'') else
     if im_linkedit im < 0 then Inl (Malformed ''missing LINKEDIT'') else
     rbind (signPage opts im) (\<lambda>pg. rbind (signCodeEnd im src) (\<lambda>codeEnd.
     rbind (signComponents tools opts im) (\<lambda>(special, execFlags, comps).
     let (header, vers, runtime) = signHeader opts im;
         hashOff = hashOffset opts header special;
         cdSize = hashOff + (codeEnd + pg - 1) div pg * 32;
         sigSize = signatureSize opts header cdSize comps;
         fin = codeEnd + sigSize in
     if cdSize > 2 ^ 32 - 1 \<or> sigSize > 2 ^ 32 - 1
     then Inl (allocationError ''signature metadata exceeds 32-bit representation'') else
     if fin > 2 ^ 32 - 1 then Inl (allocationError ''Mach-O output exceeds 32-bit allocation size'') else
     rbind (signingCommandOutput im src codeEnd sigSize fin) (\<lambda>patched.
     rbind (signDirectory H opts pg
       (directoryWrites opts im pg header vers runtime special execFlags codeEnd cdSize)
       header hashOff cdSize (specialData opts comps) patched codeEnd) (\<lambda>cd.
     rbind (finishSignature tools opts cd comps) (\<lambda>sig.
     if srcSize sig > int sigSize then Inl (Invalid ''CMS exceeds reserved signature space'') else
     patchedOutput patched (int fin) [\<lparr>start = int codeEnd, source = sig\<rparr>])))))))"

section \<open>Options of an operation\<close>

definition prepareSigningOptions :: "sign_tools \<Rightarrow> SignOptions \<Rightarrow> SignOptions result" where
  "prepareSigningOptions tools opts =
    rbind (validateProfile opts) (\<lambda>_.
    if so_Identifier opts = [] \<or> 0 \<in> set (so_Identifier opts)
    then Inl (Plain ''identifier must be nonempty and contain no NUL'') else
    if (case so_Timestamp opts of None \<Rightarrow> False
        | Some (provider, roots) \<Rightarrow> \<not> so_Identity opts \<or> \<not> provider \<or> \<not> roots)
    then Inl (Invalid ''timestamp requires a signing identity, provider and TSA roots'') else
    rbind (if so_Identity opts then
             if so_Flags opts AND FlagAdhoc \<noteq> 0 then Inl (Invalid ''ad-hoc flag conflicts with signing identity'')
             else prepareIdentity tools opts
           else Inr opts) (\<lambda>opts.
    if so_Flags opts AND (2 ^ 32 - 1 - 0x33f02) \<noteq> 0 then Inl (Unsupported ''code signing flags'') else
    if so_Identity opts then Inr opts else
    rbind (prepareRequirements (so_Requirements opts) [] (Inl Panic)) (\<lambda>reqs.
    Inr (opts\<lparr>so_Requirements := reqs\<rparr>))))"

section \<open>The directory that is written\<close>

lemma directoryWrites_ok:
  assumes "headerVersion header vers" "teamSize opts > 0 \<Longrightarrow> 52 \<le> header"
  shows "\<forall>(off, p) \<in> set (directoryWrites opts im pg header vers runtime special execFlags codeEnd cdSize). off + length p \<le> header"
    "sorted_wrt disjointPatch (directoryWrites opts im pg header vers runtime special execFlags codeEnd cdSize)"
    "\<forall>(off, p) \<in> set (directoryWrites opts im pg header vers runtime special execFlags codeEnd cdSize).
       off + length p \<le> 44 \<or> 48 \<le> off \<and> off + length p \<le> 52 \<and> 0 < teamSize opts \<or> 64 \<le> off"
  using assms by (auto simp: directoryWrites_def Let_def disjointPatch_def elim!: headerVersion_cases)

text \<open>The inputs of one directory, as signImageSource computes them, and what holds of them.\<close>

record directory_input =
  di_opts :: SignOptions
  di_image :: image
  di_page :: nat
  di_header :: nat
  di_version :: nat
  di_runtime :: nat
  di_special :: nat
  di_exec :: nat
  di_data :: "(nat \<times> byte list) list"
  di_code :: "byte list"

definition di_end :: "directory_input \<Rightarrow> nat" where
  "di_end x = length (di_code x)"

definition di_hashOff :: "directory_input \<Rightarrow> nat" where
  "di_hashOff x = hashOffset (di_opts x) (di_header x) (di_special x)"

definition di_pages :: "directory_input \<Rightarrow> nat" where
  "di_pages x = (di_end x + di_page x - 1) div di_page x"

definition di_size :: "directory_input \<Rightarrow> nat" where
  "di_size x = di_hashOff x + di_pages x * 32"

definition di_writes :: "directory_input \<Rightarrow> (nat \<times> byte list) list" where
  "di_writes x = directoryWrites (di_opts x) (di_image x) (di_page x) (di_header x) (di_version x) (di_runtime x)
     (di_special x) (di_exec x) (di_end x) (di_size x)"

text \<open>As a layout, and the directory's bytes.\<close>

definition di_layout :: "hash_lib \<Rightarrow> directory_input \<Rightarrow> directory_layout" where
  "di_layout H x = \<lparr>cl_ident = so_Identifier (di_opts x), cl_team = so_teamID (di_opts x), cl_writes = di_writes x,
     cl_header = di_header x, cl_special = di_special x, cl_data = di_data x, cl_pages = pageDigests H (di_page x) (di_code x)\<rparr>"

definition di_bytes :: "hash_lib \<Rightarrow> directory_input \<Rightarrow> byte list" where
  "di_bytes H x = cl_bytes H (di_layout H x)"

definition directory_ok :: "hash_lib \<Rightarrow> directory_input \<Rightarrow> bool" where
  "directory_ok H x \<longleftrightarrow> hash_lib_ok H \<and> 0 < di_page x \<and> trailingZeros (di_page x) \<le> 30 \<and>
     headerVersion (di_header x) (di_version x) \<and> (teamSize (di_opts x) > 0 \<longrightarrow> 52 \<le> di_header x) \<and>
     di_size x < 2 ^ 32 \<and> di_end x < 2 ^ 32 \<and> specials_ok (di_special x) (di_data x) \<and>
     0 \<notin> set (so_Identifier (di_opts x)) \<and> 0 \<notin> set (so_teamID (di_opts x))"

lemma di_layout_simps [simp]:
  "cl_ident (di_layout H x) = so_Identifier (di_opts x)" "cl_team (di_layout H x) = so_teamID (di_opts x)"
  "cl_writes (di_layout H x) = di_writes x" "cl_header (di_layout H x) = di_header x" "cl_special (di_layout H x) = di_special x"
  "cl_data (di_layout H x) = di_data x" "cl_pages (di_layout H x) = pageDigests H (di_page x) (di_code x)"
  by (simp_all add: di_layout_def)

lemma di_chunks: "directory_ok H x \<Longrightarrow> length (chunks (di_page x) (di_code x)) = di_pages x"
  by (simp add: directory_ok_def length_chunks di_pages_def di_end_def)

lemma di_sizes:
  assumes "directory_ok H x"
  shows "cl_hashOff (di_layout H x) = di_hashOff x" "length (pageDigests H (di_page x) (di_code x)) = di_pages x * 32"
    "cl_size (di_layout H x) = di_size x"
proof -
  show off: "cl_hashOff (di_layout H x) = di_hashOff x"
    by (simp add: cl_hashOff_def cl_names_def di_hashOff_def hashOffset_def teamSize_def)
  show len: "length (pageDigests H (di_page x) (di_code x)) = di_pages x * 32"
    using length_pageDigests [of H "di_page x" "di_code x"] di_chunks [OF assms] assms by (simp add: directory_ok_def)
  show "cl_size (di_layout H x) = di_size x" by (simp add: cl_size_def off len di_size_def)
qed

lemma di_layout_ok: "directory_ok H x \<Longrightarrow> layout_ok H (di_layout H x)"
  using directoryWrites_ok [of "di_header x" "di_version x" "di_opts x"]
  by (simp add: layout_ok_def directory_ok_def di_writes_def)

lemma di_layout_fields:
  assumes "directory_ok H x"
  shows "layout_fields (di_layout H x) (di_version x)
    (if so_Identity (di_opts x) then so_Flags (di_opts x) else so_Flags (di_opts x) OR FlagAdhoc) (di_pages x) (di_end x)
    (trailingZeros (di_page x))"
proof -
  have "headerVersion (di_header x) (di_version x)" "teamSize (di_opts x) > 0 \<Longrightarrow> 52 \<le> di_header x"
    using assms by (simp_all add: directory_ok_def)
  from directoryWrites_ok(3) [OF this, of "di_opts x"]
  have ws: "\<forall>(off, p) \<in> set (di_writes x). off + length p \<le> 44 \<or> 48 \<le> off \<and> off + length p \<le> 52 \<and> 0 < teamSize (di_opts x) \<or> 64 \<le> off"
    by (simp add: di_writes_def)
  have free: "untouched (di_writes x) 44 4" "teamSize (di_opts x) = 0 \<Longrightarrow> untouched (di_writes x) 48 4" "untouched (di_writes x) 56 8"
    unfolding untouched_def using ws by fastforce+
  then show ?thesis
    using assms unfolding layout_fields_def di_layout_simps di_sizes [OF assms]
    by (auto simp: directory_ok_def di_writes_def directoryWrites_def Let_def di_hashOff_def di_pages_def teamSize_def min_def)
qed

lemma di_hash_off:
  "di_hashOff x = di_header x + length (so_Identifier (di_opts x)) + 1 + teamSize (di_opts x) + di_special x * 32"
  by (simp add: di_hashOff_def hashOffset_def)

lemma length_di_bytes: "directory_ok H x \<Longrightarrow> length (di_bytes H x) = di_size x"
  by (simp add: di_bytes_def length_cl_bytes di_layout_ok di_sizes)

text \<open>Signing writes these bytes.\<close>

lemma signDirectory_content:
  assumes ok: "directory_ok H x"
    and code: "delivers \<lparr>reader = reader patched, offset = 0, srcSize = int (di_end x)\<rparr> (di_code x)"
  shows "signDirectory H (di_opts x) (di_page x) (di_writes x) (di_header x) (di_hashOff x) (di_size x) (di_data x) patched (di_end x) =
    Inr (di_bytes H x)"
proof -
  let ?wr = "sectionWriteAt rangeBufferWriteAt 0 (int (di_size x))"
    and ?s = "writes_over (digestWrites H (di_hashOff x) (di_data x)) (cl_base (di_layout H x))"
  have H: "hash_lib_ok H" "0 < di_page x" and small: "int (di_size x) \<le> MaxInt64" using ok by (simp_all add: directory_ok_def MaxInt64_def)
  note filled = layout_filled [OF di_layout_ok [OF ok], unfolded di_sizes [OF ok] di_layout_simps, OF small]
  have sz: "di_size x = di_hashOff x + 32 * length (chunks (di_page x) (di_code x))" by (simp add: di_size_def di_chunks [OF ok])
  have "sink ?wr (\<lambda>b xs. b = overwrite (di_hashOff x) xs ?s \<and> length xs \<le> 32 * length (chunks (di_page x) (di_code x)))
      (32 * length (chunks (di_page x) (di_code x))) (int (di_hashOff x))"
    using filled(4) sz by (intro section_overwrites.region_sink) simp_all
  from hashCodePagesTo_sink [OF H code this] sz small
  have "hashCodePagesTo H \<lparr>reader = reader patched, offset = 0, srcSize = int (di_end x)\<rparr> (di_page x) ?wr ?s (int (di_hashOff x)) =
      (overwrite (di_hashOff x) (pageDigests H (di_page x) (di_code x)) ?s, None)"
    by auto
  then show ?thesis
    using filled by (simp add: signDirectory_def di_bytes_def)
qed

section \<open>The directory parses\<close>

lemma directory_parses:
  assumes ok: "directory_ok H x"
  shows "\<exists>d. parseDirectory H (di_bytes H x) = Inr d \<and> Identifier d = so_Identifier (di_opts x) \<and>
    TeamID d = so_teamID (di_opts x) \<and> HashType d = 2 \<and> HashSize d = 32 \<and> PageExponent d = trailingZeros (di_page x) \<and>
    CodeLimit d = di_end x \<and> CodeSlots d = di_pages x \<and> SpecialSlots d = di_special x \<and> HashOffset d = di_hashOff x \<and>
    Version d = di_version x \<and>
    Flags d = (if so_Identity (di_opts x) then so_Flags (di_opts x) else so_Flags (di_opts x) OR FlagAdhoc) mod 2 ^ 32 \<and>
    Raw d = di_bytes H x"
  using layout_parses [OF di_layout_ok [OF ok] di_layout_fields [OF ok]]
  unfolding di_layout_simps di_sizes [OF ok] di_bytes_def .

lemma directory_component: "directory_ok H x \<Longrightarrow> component_ok \<lparr>Slot = 0, Magic = MagicDirectory, Data = di_bytes H x\<rparr>"
  unfolding di_bytes_def by (rule layout_component [OF di_layout_ok di_layout_fields])

text \<open>The digests a written directory holds.\<close>

lemma di_page_digests:
  "directory_ok H x \<Longrightarrow> slice (di_bytes H x) (di_hashOff x) (32 * di_pages x) = pageDigests H (di_page x) (di_code x)"
  using cl_page_digests [OF di_layout_ok, of H x] di_sizes [of H x] by (simp add: di_bytes_def mult.commute)

lemma di_special_digest:
  "directory_ok H x \<Longrightarrow> (slot, data) \<in> set (di_data x) \<Longrightarrow> slice (di_bytes H x) (di_hashOff x - slot * 32) 32 = sha256 H data"
  using cl_special_digest [OF di_layout_ok, of H x slot data] di_sizes(1) [of H x] by (simp add: di_bytes_def)

lemma di_special_zero:
  "directory_ok H x \<Longrightarrow> 1 \<le> slot \<Longrightarrow> slot \<le> di_special x \<Longrightarrow> slot \<notin> fst ` set (di_data x) \<Longrightarrow>
   slice (di_bytes H x) (di_hashOff x - slot * 32) 32 = replicate 32 0"
  using cl_special_zero [OF di_layout_ok, of H x slot] di_sizes(1) [of H x] by (simp add: di_bytes_def)

end
