(* ===== verification/Requirement_Scanner.thy ===== *)
theory Requirement_Scanner
  imports Requirements
begin

text \<open>
  What the requirement parser of requirements.go uses of the standard library: UTF-8 decoding,
  the scanner of text/scanner in the mode and with the error handler that newRequirementParser
  sets, and the conversions of strconv and encoding/hex. Unicode's letter and digit tables
  above ASCII are the parameter \<open>unicode\<close>.
\<close>

section \<open>Runes\<close>

text \<open>A rune with the bytes it was decoded from; an invalid byte is U+FFFD from one byte.\<close>

type_synonym rune = "nat \<times> byte list"

definition contByte :: "byte \<Rightarrow> bool" where
  "contByte b \<longleftrightarrow> 0x80 \<le> unat b \<and> unat b \<le> 0xBF"

definition cont6 :: "byte \<Rightarrow> nat" where
  "cont6 b = unat b mod 64"

text \<open>utf8.DecodeRune on a nonempty string: the code and the width.\<close>

definition decodeRune :: "byte list \<Rightarrow> nat \<times> nat" where
  "decodeRune bs =
    (let b = unat (bs ! 0); b1 = bs ! 1; b2 = bs ! 2; b3 = bs ! 3; n = length bs in
     if b < 0x80 then (b, 1)
     else if 0xC2 \<le> b \<and> b \<le> 0xDF \<and> n \<ge> 2 \<and> contByte b1 then ((b - 0xC0) * 64 + cont6 b1, 2)
     else if 0xE0 \<le> b \<and> b \<le> 0xEF \<and> n \<ge> 3 \<and> contByte b1 \<and> contByte b2 \<and>
         (b = 0xE0 \<longrightarrow> unat b1 \<ge> 0xA0) \<and> (b = 0xED \<longrightarrow> unat b1 \<le> 0x9F)
     then ((b - 0xE0) * 4096 + cont6 b1 * 64 + cont6 b2, 3)
     else if 0xF0 \<le> b \<and> b \<le> 0xF4 \<and> n \<ge> 4 \<and> contByte b1 \<and> contByte b2 \<and> contByte b3 \<and>
         (b = 0xF0 \<longrightarrow> unat b1 \<ge> 0x90) \<and> (b = 0xF4 \<longrightarrow> unat b1 \<le> 0x8F)
     then ((b - 0xF0) * 262144 + cont6 b1 * 4096 + cont6 b2 * 64 + cont6 b3, 4)
     else (0xFFFD, 1))"

lemma decodeRune_width: "1 \<le> snd (decodeRune bs)"
  by (simp add: decodeRune_def Let_def)

function runes :: "byte list \<Rightarrow> rune list" where
  "runes bs = (if bs = [] then [] else let (c, n) = decodeRune bs in (c, take n bs) # runes (drop n bs))"
  by pat_completeness auto
termination
proof (relation "measure length")
  fix bs :: "byte list" and x c n
  assume "bs \<noteq> []" "x = decodeRune bs" "(c, n) = x"
  then show "(drop n bs, bs) \<in> measure length"
    using decodeRune_width [of bs] by (cases bs) (auto simp: prod_eq_iff)
qed simp

declare runes.simps [simp del]

record unicode =
  uni_letter :: "nat \<Rightarrow> bool"
  uni_digit :: "nat \<Rightarrow> bool"

definition asciiLetter :: "nat \<Rightarrow> bool" where
  "asciiLetter c \<longleftrightarrow> 65 \<le> c \<and> c \<le> 90 \<or> 97 \<le> c \<and> c \<le> 122"

definition isDecimal :: "nat \<Rightarrow> bool" where
  "isDecimal c \<longleftrightarrow> 48 \<le> c \<and> c \<le> 57"

text \<open>The scanner's lower.\<close>

definition lowerRune :: "nat \<Rightarrow> nat" where
  "lowerRune c = (if c div 32 mod 2 = 1 then c else c + 32)"

definition isHex :: "nat \<Rightarrow> bool" where
  "isHex c \<longleftrightarrow> isDecimal c \<or> 97 \<le> lowerRune c \<and> lowerRune c \<le> 102"

text \<open>isIdentRune of the zero scanner; \<open>first\<close> when the position is 0.\<close>

definition identRune :: "unicode \<Rightarrow> bool \<Rightarrow> nat \<Rightarrow> bool" where
  "identRune U first c \<longleftrightarrow> c = 95 \<or> (if c < 128 then asciiLetter c else uni_letter U c) \<or>
     \<not> first \<and> (if c < 128 then isDecimal c else uni_digit U c)"

section \<open>The scanner\<close>

text \<open>
  The head of \<open>sc_rest\<close> is the scanner's lookahead character. \<open>sc_err\<close> is whether the parser's
  handler has kept an error: every diagnostic but the two of octal digits.
\<close>

record scanner =
  sc_rest :: "rune list"
  sc_err :: bool

definition badHead :: "rune list \<Rightarrow> bool" where
  "badHead rs = (case rs of [] \<Rightarrow> False | (c, bs) # _ \<Rightarrow> c = 0 \<or> c = 0xFFFD \<and> length bs = 1)"

text \<open>next: step to the following character, with the diagnostics of invalid encodings and NUL.\<close>

definition adv :: "scanner \<Rightarrow> scanner" where
  "adv s = \<lparr>sc_rest = tl (sc_rest s), sc_err = (sc_err s \<or> badHead (tl (sc_rest s)))\<rparr>"

definition fail :: "scanner \<Rightarrow> scanner" where
  "fail s = s\<lparr>sc_err := True\<rparr>"

fun advN :: "nat \<Rightarrow> scanner \<Rightarrow> scanner" where
  "advN 0 s = s"
| "advN (Suc n) s = advN n (adv s)"

text \<open>Whether the lookahead is the character \<open>c\<close>.\<close>

definition sees :: "scanner \<Rightarrow> nat \<Rightarrow> bool" where
  "sees s c = (case sc_rest s of [] \<Rightarrow> False | (d, _) # _ \<Rightarrow> d = c)"

text \<open>Init and the first Peek: a byte order mark is ignored.\<close>

definition startScanner :: "byte list \<Rightarrow> scanner" where
  "startScanner txt =
    (let s = \<lparr>sc_rest = runes txt, sc_err = badHead (runes txt)\<rparr> in if sees s 0xFEFF then adv s else s)"

definition headCode :: "scanner \<Rightarrow> nat option" where
  "headCode s = (case sc_rest s of [] \<Rightarrow> None | (c, _) # _ \<Rightarrow> Some c)"

lemma adv_rest [simp]: "sc_rest (adv s) = tl (sc_rest s)" by (simp add: adv_def)
lemma fail_rest [simp]: "sc_rest (fail s) = sc_rest s" by (simp add: fail_def)
lemma advN_rest [simp]: "sc_rest (advN n s) = drop n (sc_rest s)"
  by (induction n arbitrary: s) (simp_all add: drop_Suc)

datatype token = TEOF | TIdent | TInt | TString | TChar nat

text \<open>The bytes between two positions.\<close>

definition textBetween :: "scanner \<Rightarrow> scanner \<Rightarrow> byte list" where
  "textBetween s s' = concat (map snd (take (length (sc_rest s) - length (sc_rest s')) (sc_rest s)))"

subsection \<open>Numbers\<close>

definition digitRune :: "bool \<Rightarrow> nat \<Rightarrow> bool" where
  "digitRune hex c \<longleftrightarrow> c = 95 \<or> (if hex then isHex c else isDecimal c)"

text \<open>The length of the digits run from the \<open>n\<close>-th rune on.\<close>

definition runLength :: "bool \<Rightarrow> rune list \<Rightarrow> nat" where
  "runLength hex rs = length (takeWhile (\<lambda>r. digitRune hex (fst r)) rs)"

text \<open>The prefix letter of a number: 0 for none, else the lower case x, o or b.\<close>

definition numberPrefix :: "rune list \<Rightarrow> nat" where
  "numberPrefix rs =
    (if length rs \<ge> 2 \<and> fst (rs ! 0) = 48 \<and> lowerRune (fst (rs ! 1)) \<in> {120, 111, 98} then lowerRune (fst (rs ! 1)) else 0)"

definition numberLength :: "rune list \<Rightarrow> nat" where
  "numberLength rs =
    (let p = numberPrefix rs in if p = 0 then runLength False rs else 2 + runLength (p = 120) (drop 2 rs))"

text \<open>invalidSep: a separator that is not between digits; a prefix counts as a digit.\<close>

fun badSeparator :: "bool \<Rightarrow> nat \<Rightarrow> nat list \<Rightarrow> bool" where
  "badSeparator hex d [] = (d = 95)"
| "badSeparator hex d (c # cs) =
    (if c = 95 then d \<noteq> 48 \<or> badSeparator hex 95 cs
     else if isDecimal c \<or> hex \<and> isHex c then badSeparator hex 48 cs
     else d = 95 \<or> badSeparator hex 46 cs)"

definition numberFails :: "rune list \<Rightarrow> bool" where
  "numberFails rs =
    (let p = numberPrefix rs; digits = map fst (take (numberLength rs) rs); after = drop (if p = 0 then 0 else 2) digits in
     (\<forall>c \<in> set after. c = 95) \<or> p = 98 \<and> (\<exists>c \<in> set after. c \<noteq> 95 \<and> c \<ge> 50) \<or>
     95 \<in> set after \<and> badSeparator (p = 120) (if p = 0 then 46 else 48) after)"

subsection \<open>Strings\<close>

definition digitVal :: "scanner \<Rightarrow> nat" where
  "digitVal s = (case headCode s of None \<Rightarrow> 16 | Some c \<Rightarrow>
     if isDecimal c then c - 48 else if isHex c then lowerRune c - 97 + 10 else 16)"

fun scanDigits :: "nat \<Rightarrow> nat \<Rightarrow> scanner \<Rightarrow> scanner" where
  "scanDigits base 0 s = s"
| "scanDigits base (Suc n) s = (if digitVal s < base then scanDigits base n (adv s) else fail s)"

text \<open>The lookahead is the backslash.\<close>

definition scanEscape :: "scanner \<Rightarrow> scanner" where
  "scanEscape s0 =
    (let s = adv s0 in
     case headCode s of None \<Rightarrow> fail s | Some c \<Rightarrow>
     if c \<in> {97, 98, 102, 110, 114, 116, 118, 92, 34} then adv s
     else if 48 \<le> c \<and> c \<le> 55 then scanDigits 8 3 s
     else if c = 120 then scanDigits 16 2 (adv s)
     else if c = 117 then scanDigits 16 4 (adv s)
     else if c = 85 then scanDigits 16 8 (adv s)
     else fail s)"

lemma scanDigits_rest: "length (sc_rest (scanDigits base n s)) \<le> length (sc_rest s)"
proof (induction n arbitrary: s)
  case (Suc n)
  have "length (sc_rest (scanDigits base n (adv s))) \<le> length (sc_rest s)"
    using Suc [of "adv s"] by simp
  then show ?case by simp
qed simp

lemma scanEscape_rest: "sc_rest s \<noteq> [] \<Longrightarrow> length (sc_rest (scanEscape s)) < length (sc_rest s)"
  using scanDigits_rest [of 8 3 "adv s"] scanDigits_rest [of 16 _ "adv (adv s)"]
  by (cases "sc_rest s") (auto simp: scanEscape_def Let_def headCode_def le_imp_less_Suc split: option.split list.split intro!: le_imp_less_Suc order_trans [OF scanDigits_rest])

text \<open>scanString from the character after the quote; it stops before the closing quote.\<close>

function scanString :: "scanner \<Rightarrow> scanner" where
  "scanString s =
    (case sc_rest s of [] \<Rightarrow> fail s | (c, _) # _ \<Rightarrow>
     if c = 34 then s else if c = 10 then fail s else
     if c = 92 then scanString (scanEscape s) else scanString (adv s))"
  by pat_completeness auto
termination
proof (relation "measure (\<lambda>s. length (sc_rest s))")
  fix s :: scanner and r rs p c b
  assume a: "sc_rest s = r # rs" "p = r"
  from a(1) show "(scanEscape s, s) \<in> measure (\<lambda>s. length (sc_rest s))" "(adv s, s) \<in> measure (\<lambda>s. length (sc_rest s))"
    using scanEscape_rest [of s] by simp_all
qed simp

declare scanString.simps [simp del]

subsection \<open>Comments\<close>

text \<open>A line comment ends before the newline.\<close>

definition lineComment :: "scanner \<Rightarrow> scanner" where
  "lineComment s = advN (length (takeWhile (\<lambda>r. fst r \<noteq> 10) (sc_rest s))) s"

function blockComment :: "scanner \<Rightarrow> scanner" where
  "blockComment s =
    (if sc_rest s = [] then fail s else
     if sees s 42 \<and> sees (adv s) 47 then adv (adv s) else blockComment (adv s))"
  by pat_completeness auto
termination
  by (relation "measure (\<lambda>s. length (sc_rest s))") auto

declare blockComment.simps [simp del]

lemma blockComment_rest: "length (sc_rest (blockComment s)) \<le> length (sc_rest s)"
proof (induction s rule: blockComment.induct)
  case (1 s)
  then show ?case by (subst blockComment.simps) (auto intro: order_trans)
qed

subsection \<open>Scan\<close>

definition skipSpace :: "scanner \<Rightarrow> scanner" where
  "skipSpace s = advN (length (takeWhile (\<lambda>r. fst r \<in> {9, 10, 13, 32}) (sc_rest s))) s"

lemma skipSpace_rest: "sc_rest (skipSpace s) = dropWhile (\<lambda>r. fst r \<in> {9, 10, 13, 32}) (sc_rest s)"
  by (simp add: skipSpace_def dropWhile_eq_drop)

lemma skipSpace_length: "length (sc_rest (skipSpace s)) \<le> length (sc_rest s)"
  by (simp add: skipSpace_rest length_dropWhile_le)

definition tokenTo :: "token \<Rightarrow> scanner \<Rightarrow> scanner \<Rightarrow> token \<times> byte list \<times> scanner" where
  "tokenTo k s s' = (k, textBetween s s', s')"

lemma comments_shorter:
  assumes "x # rs' = sc_rest (skipSpace s)"
  shows "length (sc_rest (lineComment (adv (adv (skipSpace s))))) < length (sc_rest s)"
    "length (sc_rest (blockComment (adv (adv (skipSpace s))))) < length (sc_rest s)"
proof -
  have l: "length rs' < length (sc_rest s)" using skipSpace_length [of s] unfolding assms [symmetric] by simp
  then show "length (sc_rest (lineComment (adv (adv (skipSpace s))))) < length (sc_rest s)"
    unfolding lineComment_def by (simp flip: assms)
  have "length (sc_rest (blockComment (adv (adv (skipSpace s))))) \<le> length rs'"
    using blockComment_rest [of "adv (adv (skipSpace s))"] by (simp flip: assms)
  then show "length (sc_rest (blockComment (adv (adv (skipSpace s))))) < length (sc_rest s)" using l by simp
qed

function scanToken :: "unicode \<Rightarrow> scanner \<Rightarrow> token \<times> byte list \<times> scanner" where
  "scanToken U s0 =
    (let s = skipSpace s0; rs = sc_rest s in
     case rs of [] \<Rightarrow> (TEOF, [], s) | (c, _) # rs' \<Rightarrow>
     if identRune U True c then
       tokenTo TIdent s (advN (Suc (length (takeWhile (\<lambda>r. identRune U False (fst r)) rs'))) s)
     else if isDecimal c then
       (let s' = advN (numberLength rs) s in tokenTo TInt s (if numberFails rs then fail s' else s'))
     else if c = 34 then tokenTo TString s (adv (scanString (adv s)))
     else if c = 47 \<and> sees (adv s) 47 then scanToken U (lineComment (adv (adv s)))
     else if c = 47 \<and> sees (adv s) 42 then scanToken U (blockComment (adv (adv s)))
     else tokenTo (TChar c) s (adv s))"
  by pat_completeness auto
termination
  by (relation "measure (\<lambda>(_, s). length (sc_rest s))") (auto dest: comments_shorter)

declare scanToken.simps [simp del]

end
