(* ===== verification/Requirement_Parser.thy ===== *)
theory Requirement_Parser
  imports Requirement_Scanner Requirement_Sets "HOL-Library.AList"
begin

unbundle bit_operations_syntax

text \<open>
  The text form of requirements: the recursive descent parser and the compilers of
  requirements.go over the scanner.
\<close>

section \<open>Conversions\<close>

text \<open>utf8.AppendRune of a valid rune.\<close>

definition encodeRune :: "nat \<Rightarrow> byte list" where
  "encodeRune c =
    (if c < 0x80 then [of_nat c]
     else if c < 0x800 then [of_nat (0xC0 + c div 64), of_nat (0x80 + c mod 64)]
     else if c < 0x10000 then [of_nat (0xE0 + c div 4096), of_nat (0x80 + c div 64 mod 64), of_nat (0x80 + c mod 64)]
     else [of_nat (0xF0 + c div 262144), of_nat (0x80 + c div 4096 mod 64), of_nat (0x80 + c div 64 mod 64), of_nat (0x80 + c mod 64)])"

definition unhex :: "byte \<Rightarrow> nat option" where
  "unhex b =
    (let c = unat b in
     if isDecimal c then Some (c - 48) else if 97 \<le> c \<and> c \<le> 102 then Some (c - 97 + 10)
     else if 65 \<le> c \<and> c \<le> 70 then Some (c - 65 + 10) else None)"

fun hexValue :: "nat \<Rightarrow> byte list \<Rightarrow> nat option" where
  "hexValue acc [] = Some acc"
| "hexValue acc (b # bs) = (case unhex b of None \<Rightarrow> None | Some v \<Rightarrow> hexValue (acc * 16 + v) bs)"

text \<open>hex.DecodeString.\<close>

fun hexDecode :: "byte list \<Rightarrow> byte list option" where
  "hexDecode [] = Some []"
| "hexDecode [b] = None"
| "hexDecode (a # b # bs) =
    (case (unhex a, unhex b, hexDecode bs) of (Some x, Some y, Some r) \<Rightarrow> Some (of_nat (x * 16 + y) # r) | _ \<Rightarrow> None)"

text \<open>An escape after the backslash: the bytes it stands for and how many it takes.\<close>

definition hexEscape :: "nat \<Rightarrow> byte list \<Rightarrow> nat option" where
  "hexEscape n bs = (if length bs < n then None else hexValue 0 (take n bs))"

definition octalEscape :: "byte list \<Rightarrow> nat option" where
  "octalEscape bs =
    (if length bs < 3 \<or> (\<exists>b \<in> set (take 3 bs). unat b < 48 \<or> unat b > 55) then None else
     let v = (unat (bs ! 0) - 48) * 64 + (unat (bs ! 1) - 48) * 8 + (unat (bs ! 2) - 48) in
     if v > 255 then None else Some v)"

definition validRune :: "nat \<Rightarrow> bool" where
  "validRune v \<longleftrightarrow> v < 0xD800 \<or> 0xDFFF < v \<and> v \<le> 0x10FFFF"

definition unescape :: "byte list \<Rightarrow> (byte list \<times> nat) option" where
  "unescape bs =
    (case bs of [] \<Rightarrow> None | b # r \<Rightarrow> let c = unat b in
     if c = 97 then Some ([7], 1) else if c = 98 then Some ([8], 1) else if c = 102 then Some ([12], 1)
     else if c = 110 then Some ([10], 1) else if c = 114 then Some ([13], 1) else if c = 116 then Some ([9], 1)
     else if c = 118 then Some ([11], 1)
     else if c = 120 then map_option (\<lambda>v. ([of_nat v], 3)) (hexEscape 2 r)
     else if c = 117 \<or> c = 85 then
       (let n = if c = 117 then 4 else 8 in
        case hexEscape n r of None \<Rightarrow> None
        | Some v \<Rightarrow> if validRune v then Some (encodeRune v, Suc n) else None)
     else if 48 \<le> c \<and> c \<le> 55 then map_option (\<lambda>v. ([of_nat v], 3)) (octalEscape bs)
     else if c = 92 then Some ([92], 1) else if c = 34 then Some ([34], 1) else None)"

text \<open>strconv.Unquote on a double-quoted literal, from the character after the quote.\<close>

function unquoteTail :: "byte list \<Rightarrow> byte list option" where
  "unquoteTail bs =
    (case bs of [] \<Rightarrow> None | b # r \<Rightarrow> let c = unat b in
     if c = 34 then (if r = [] then Some [] else None)
     else if c = 10 then None
     else if c \<ge> 0x80 then
       (case decodeRune bs of (v, n) \<Rightarrow> map_option (\<lambda>out. encodeRune v @ out) (unquoteTail (drop (max 1 n) bs)))
     else if c \<noteq> 92 then map_option (\<lambda>out. b # out) (unquoteTail r)
     else (case unescape r of None \<Rightarrow> None
           | Some (out, n) \<Rightarrow> map_option (\<lambda>out'. out @ out') (unquoteTail (drop n r))))"
  by pat_completeness auto
termination
  by (relation "measure length") auto

declare unquoteTail.simps [simp del]

definition unquote :: "byte list \<Rightarrow> byte list option" where
  "unquote bs = (case bs of [] \<Rightarrow> None | b # r \<Rightarrow> if unat b = 34 then unquoteTail r else None)"

text \<open>strconv on decimal digits; \<open>atoi\<close> accepts a sign.\<close>

definition digitsValue :: "byte list \<Rightarrow> nat option" where
  "digitsValue bs = (if bs = [] \<or> (\<exists>b \<in> set bs. \<not> isDecimal (unat b)) then None
     else Some (foldl (\<lambda>v b. v * 10 + (unat b - 48)) 0 bs))"

definition atoi :: "byte list \<Rightarrow> int option" where
  "atoi bs =
    (let (neg, ds) = (case bs of b # r \<Rightarrow> if b = 45 then (True, r) else if b = 43 then (False, r) else (False, bs) | [] \<Rightarrow> (False, []));
         v = map_option (\<lambda>n. if neg then - int n else int n) (digitsValue ds) in
     case v of None \<Rightarrow> None | Some n \<Rightarrow> if - (2 ^ 63) \<le> n \<and> n < 2 ^ 63 then Some n else None)"

text \<open>asn1.Marshal of an object identifier, its contents; arcs are int64, and a wrapped one is empty.\<close>

fun septets :: "nat \<Rightarrow> byte list" where
  "septets n = (if n < 128 then [of_nat n] else map (\<lambda>b. b OR 0x80) (septets (n div 128)) @ [of_nat (n mod 128)])"

declare septets.simps [simp del]

definition wrap64 :: "int \<Rightarrow> int" where
  "wrap64 n = (n + 2 ^ 63) mod 2 ^ 64 - 2 ^ 63"

definition arcBytes :: "int \<Rightarrow> byte list" where
  "arcBytes n = (if n < 0 then [] else septets (nat n))"

definition marshalOID :: "int list \<Rightarrow> byte list option" where
  "marshalOID oid =
    (case oid of a # b # rest \<Rightarrow>
       if a > 2 \<or> a < 2 \<and> b \<ge> 40 then None
       else Some (concat (map arcBytes (wrap64 (a * 40 + b) # rest)))
     | _ \<Rightarrow> None)"

text \<open>strings.Split at dots.\<close>

fun splitDots :: "byte list \<Rightarrow> byte list list" where
  "splitDots [] = [[]]"
| "splitDots (b # bs) =
    (if b = 46 then [] # splitDots bs else (case splitDots bs of s # ss \<Rightarrow> (b # s) # ss | [] \<Rightarrow> [[b]]))"

fun parseArcs :: "byte list list \<Rightarrow> int list option" where
  "parseArcs [] = Some []"
| "parseArcs (p # ps) =
    (case atoi p of None \<Rightarrow> None | Some v \<Rightarrow> if v < 0 then None else map_option ((#) v) (parseArcs ps))"

section \<open>Simple strings\<close>

text \<open>requirement_text.go: words that need no quotes and are not keywords.\<close>

definition requirementKeywords :: "gostring list" where
  "requirementKeywords = map str [''guest'', ''host'', ''designated'', ''library'', ''plugin'', ''or'', ''and'', ''always'', ''true'',
     ''never'', ''false'', ''identifier'', ''cdhash'', ''platform'', ''notarized'', ''legacy'', ''anchor'', ''apple'', ''generic'',
     ''certificate'', ''cert'', ''trusted'', ''info'', ''entitlement'', ''exists'', ''absent'', ''leaf'', ''root'', ''timestamp'']"

definition alphanumeric :: "byte \<Rightarrow> bool" where
  "alphanumeric b \<longleftrightarrow> asciiLetter (unat b) \<or> isDecimal (unat b)"

definition simpleRequirementString :: "gostring \<Rightarrow> bool" where
  "simpleRequirementString s \<longleftrightarrow>
    s \<noteq> [] \<and> \<not> isDecimal (unat (hd s)) \<and> s \<notin> set requirementKeywords \<and> (\<forall>b \<in> set s. alphanumeric b)"

section \<open>The parser's state\<close>

record parser =
  ps_scan :: scanner
  ps_token :: token
  ps_text :: gostring
  ps_nodes :: nat

text \<open>The comment loop of next: through the newline.\<close>

function dropLine :: "scanner \<Rightarrow> scanner" where
  "dropLine s = (if sc_rest s = [] then s else if sees s 10 then adv s else dropLine (adv s))"
  by pat_completeness auto
termination
  by (relation "measure (\<lambda>s. length (sc_rest s))") auto

declare dropLine.simps [simp del]

lemma dropLine_rest: "length (sc_rest (dropLine s)) \<le> length (sc_rest s)"
proof (induction s rule: dropLine.induct)
  case (1 s)
  then show ?case by (subst dropLine.simps) (auto intro: order_trans)
qed

lemma scanString_rest: "length (sc_rest (scanString s)) \<le> length (sc_rest s)"
proof (induction "length (sc_rest s)" arbitrary: s rule: less_induct)
  case less
  show ?case
  proof (cases "sc_rest s")
    case (Cons r rs)
    obtain c b where r: "r = (c, b)" by (cases r)
    have e: "length (sc_rest (scanEscape s)) < length (sc_rest s)" using Cons by (intro scanEscape_rest) simp
    have "length (sc_rest (scanString (scanEscape s))) \<le> length (sc_rest s)" using less.hyps [OF e] e by simp
    moreover have "length (sc_rest (scanString (adv s))) \<le> length (sc_rest s)" using less.hyps [of "adv s"] Cons by simp
    ultimately show ?thesis using Cons r by (subst scanString.simps) simp
  qed (simp add: scanString.simps [of s])
qed

lemma numberLength_pos: "rs \<noteq> [] \<Longrightarrow> isDecimal (fst (hd rs)) \<Longrightarrow> 1 \<le> numberLength rs"
  by (cases rs) (auto simp: numberLength_def Let_def runLength_def digitRune_def)

lemma scanToken_rest:
  "scanToken U s = (k, lx, s') \<Longrightarrow> if k = TEOF then sc_rest s' = [] \<and> lx = [] else length (sc_rest s') < length (sc_rest s)"
proof (induction "length (sc_rest s)" arbitrary: s k lx s' rule: less_induct)
  case (less s0)
  note res = less.prems
  let ?s = "skipSpace s0"
  show ?case
  proof (cases "sc_rest ?s")
    case Nil
    then show ?thesis using res by (simp add: scanToken.simps [of U s0])
  next
    case (Cons r rs)
    obtain c b where r: "r = (c, b)" by (cases r)
    have le: "length (sc_rest ?s) \<le> length (sc_rest s0)" by (rule skipSpace_length)
    have run: "scanToken U s0 =
       (if identRune U True c then tokenTo TIdent ?s (advN (Suc (length (takeWhile (\<lambda>r. identRune U False (fst r)) rs))) ?s)
        else if isDecimal c then
          tokenTo TInt ?s (if numberFails (sc_rest ?s) then fail (advN (numberLength (sc_rest ?s)) ?s) else advN (numberLength (sc_rest ?s)) ?s)
        else if c = 34 then tokenTo TString ?s (adv (scanString (adv ?s)))
        else if c = 47 \<and> sees (adv ?s) 47 then scanToken U (lineComment (adv (adv ?s)))
        else if c = 47 \<and> sees (adv ?s) 42 then scanToken U (blockComment (adv (adv ?s)))
        else tokenTo (TChar c) ?s (adv ?s))"
      by (subst scanToken.simps) (simp add: Let_def Cons r)
    have short: "length (sc_rest (lineComment (adv (adv ?s)))) < length (sc_rest s0)"
      "length (sc_rest (blockComment (adv (adv ?s)))) < length (sc_rest s0)"
      using comments_shorter [of r rs s0] Cons by simp_all
    consider "identRune U True c" | "\<not> identRune U True c" "isDecimal c" | "\<not> identRune U True c" "\<not> isDecimal c" "c = 34"
      | (line) "\<not> identRune U True c" "\<not> isDecimal c" "c = 47" "sees (adv ?s) 47"
      | (block) "\<not> identRune U True c" "\<not> isDecimal c" "c = 47" "\<not> sees (adv ?s) 47" "sees (adv ?s) 42"
      | (other) "\<not> identRune U True c" "\<not> isDecimal c" "c \<noteq> 34" "\<not> (c = 47 \<and> sees (adv ?s) 47)" "\<not> (c = 47 \<and> sees (adv ?s) 42)" by argo
    then show ?thesis
    proof cases
      case 1
      then show ?thesis using run res le Cons by (auto simp: tokenTo_def)
    next
      case 2
      then show ?thesis using res le Cons r numberLength_pos [of "sc_rest ?s"]
        by (auto simp: run tokenTo_def split: if_splits)
    next
      case 3
      have "length (sc_rest (scanString (adv ?s))) \<le> length rs" using scanString_rest [of "adv ?s"] Cons by simp
      then show ?thesis using 3 res le Cons by (auto simp: run tokenTo_def)
    next
      case line
      then have "scanToken U (lineComment (adv (adv ?s))) = (k, lx, s')" using run res by simp
      from less.hyps [OF short(1) this] short(1) show ?thesis by (auto split: if_splits)
    next
      case block
      then have "scanToken U (blockComment (adv (adv ?s))) = (k, lx, s')" using run res by simp
      from less.hyps [OF short(2) this] short(2) show ?thesis by (auto split: if_splits)
    next
      case other
      then show ?thesis using res le Cons by (auto simp: run tokenTo_def)
    qed
  qed
qed

section \<open>Parsing\<close>

lemma comment_rest: "(TChar 35, lx, s') = scanToken U s \<Longrightarrow> length (sc_rest (dropLine s')) < length (sc_rest s)"
  using scanToken_rest [of U s "TChar 35" lx s'] dropLine_rest [of s'] by simp

function scanSkip :: "unicode \<Rightarrow> scanner \<Rightarrow> token \<times> byte list \<times> scanner" where
  "scanSkip U s =
    (case scanToken U s of (k, lx, s') \<Rightarrow> if k = TChar 35 then scanSkip U (dropLine s') else (k, lx, s'))"
  by pat_completeness auto
termination
  by (relation "measure (\<lambda>(_, s). length (sc_rest s))") (auto dest!: comment_rest)

declare scanSkip.simps [simp del]

definition nextP :: "unicode \<Rightarrow> parser \<Rightarrow> parser" where
  "nextP U p = (case scanSkip U (ps_scan p) of (k, lx, s) \<Rightarrow> p\<lparr>ps_scan := s, ps_token := k, ps_text := lx\<rparr>)"

text \<open>What is left to read, the measure of the parser's loops.\<close>

definition remaining :: "parser \<Rightarrow> nat" where
  "remaining p = (if ps_token p = TEOF then 0 else Suc (length (sc_rest (ps_scan p))))"

lemma scanSkip_rest:
  "scanSkip U s = (k, lx, s') \<Longrightarrow> if k = TEOF then sc_rest s' = [] \<and> lx = [] else length (sc_rest s') < length (sc_rest s)"
proof (induction "length (sc_rest s)" arbitrary: s rule: less_induct)
  case less
  obtain k1 l1 s1 where t: "scanToken U s = (k1, l1, s1)" by (cases "scanToken U s")
  note r = scanToken_rest [OF t]
  show ?case
  proof (cases "k1 = TChar 35")
    case True
    with r dropLine_rest [of s1] have d: "length (sc_rest (dropLine s1)) < length (sc_rest s)" by simp
    have "scanSkip U (dropLine s1) = (k, lx, s')" using less.prems t True by (simp add: scanSkip.simps [of U s])
    from less.hyps [OF d this] d show ?thesis by (auto split: if_splits)
  next
    case False
    with less.prems t have "k = k1" "lx = l1" "s' = s1" by (simp_all add: scanSkip.simps [of U s])
    with r show ?thesis by simp
  qed
qed

lemma nextP_remaining: "remaining (nextP U p) \<le> length (sc_rest (ps_scan p))"
proof -
  obtain k lx s where t: "scanSkip U (ps_scan p) = (k, lx, s)" by (cases "scanSkip U (ps_scan p)")
  from scanSkip_rest [OF t] t show ?thesis by (auto simp: nextP_def remaining_def Suc_le_eq split: if_splits)
qed

lemma nextP_less: "ps_token p \<noteq> TEOF \<Longrightarrow> remaining (nextP U p) < remaining p"
  using nextP_remaining [of U p] by (simp add: remaining_def)

definition newRequirementParser :: "unicode \<Rightarrow> gostring \<Rightarrow> parser result" where
  "newRequirementParser U src =
    (if length src > 2 ^ 20 then Inl (Malformed ''requirement size limit'') else
     Inr (nextP U \<lparr>ps_scan = startScanner src, ps_token = TEOF, ps_text = [], ps_nodes = 0\<rparr>))"

text \<open>
  The loops of expression and conjunction: \<open>f\<close> parses an operand. Every round consumes the
  operator, so the last test never fails.
\<close>

function chainLoop ::
  "unicode \<Rightarrow> gostring \<Rightarrow> (req \<Rightarrow> req \<Rightarrow> req) \<Rightarrow> (parser \<Rightarrow> (req \<times> parser) result) \<Rightarrow> req \<Rightarrow> parser \<Rightarrow> (req \<times> parser) result" where
  "chainLoop U kw node f n p =
    (if ps_text p \<noteq> kw then Inr (n, p) else
     rbind (f (nextP U p)) (\<lambda>(r, p').
     if remaining p' < remaining p then chainLoop U kw node f (node n r) p' else Inl OutOfFuel))"
  by pat_completeness auto
termination
  by (relation "measure (\<lambda>(_, _, _, _, _, p). remaining p)") auto

declare chainLoop.simps [simp del]

lemma chainLoop_cong [fundef_cong]:
  "(\<And>q. f q = g q) \<Longrightarrow> chainLoop U kw node f n p = chainLoop U kw node g n p"
  by (rule arg_cong [of f g "\<lambda>f. chainLoop U kw node f n p"]) (rule ext)

definition conjunction :: "unicode \<Rightarrow> (parser \<Rightarrow> (req \<times> parser) result) \<Rightarrow> parser \<Rightarrow> (req \<times> parser) result" where
  "conjunction U atom p = rbind (atom p) (\<lambda>(n, p). chainLoop U (str ''and'') ReqAnd atom n p)"

text \<open>\<open>depth\<close> is the depth on entry; it is restored on return.\<close>

definition expression :: "unicode \<Rightarrow> (parser \<Rightarrow> (req \<times> parser) result) \<Rightarrow> nat \<Rightarrow> parser \<Rightarrow> (req \<times> parser) result" where
  "expression U atom depth p =
    (if depth + 1 > 128 then Inl (Malformed ''requirement nesting limit'') else
     rbind (conjunction U atom p) (\<lambda>(n, p). chainLoop U (str ''or'') ReqOr (conjunction U atom) n p))"

lemma expression_cong [fundef_cong]:
  "(\<And>q. depth + 1 \<le> 128 \<Longrightarrow> f q = g q) \<Longrightarrow> expression U f depth p = expression U g depth p"
proof (cases "depth + 1 \<le> 128")
  case True
  assume "\<And>q. depth + 1 \<le> 128 \<Longrightarrow> f q = g q"
  with True have "f = g" by auto
  then show ?thesis by simp
qed (simp add: expression_def)

definition stringValue :: "unicode \<Rightarrow> parser \<Rightarrow> (gostring \<times> parser) result" where
  "stringValue U p =
    (let s = ps_text p; p' = nextP U p in
     if ps_token p = TString then
       (case unquote s of Some v \<Rightarrow> Inr (v, p') | None \<Rightarrow> Inl (Plain ''invalid syntax''))
     else if ps_token p = TIdent \<and> simpleRequirementString s then Inr (s, p')
     else if ps_token p = TInt \<and> take 2 s = str ''0x'' then
       (case hexDecode (drop 2 s) of Some v \<Rightarrow> Inr (v, p') | None \<Rightarrow> Inl (Plain ''encoding/hex''))
     else Inl (Malformed ''requirement string value''))"

definition requirementKind :: "parser \<Rightarrow> nat option" where
  "requirementKind p =
    (let s = ps_text p in
     if s = str ''host'' then Some 1 else if s = str ''guest'' then Some 2 else if s = str ''designated'' then Some 3
     else if s = str ''library'' then Some 4 else if s = str ''plugin'' then Some 5
     else if ps_token p \<noteq> TInt then None
     else case digitsValue s of Some v \<Rightarrow> if v < 2 ^ 32 then Some v else None | None \<Rightarrow> None)"

function fieldText :: "unicode \<Rightarrow> gostring \<Rightarrow> parser \<Rightarrow> gostring \<times> parser" where
  "fieldText U acc p =
    (if ps_text p \<noteq> str '']'' \<and> ps_token p \<noteq> TEOF then fieldText U (acc @ ps_text p) (nextP U p) else (acc, p))"
  by pat_completeness auto
termination
  by (relation "measure (\<lambda>(_, _, p). remaining p)") (auto intro: nextP_less)

declare fieldText.simps [simp del]

text \<open>What may follow an extension field that has no match operator.\<close>

definition endsField :: "parser \<Rightarrow> bool" where
  "endsField p \<longleftrightarrow> ps_token p = TEOF \<or> ps_text p \<in> {str ''and'', str ''or'', str '')'', str '';''} \<or> requirementKind p \<noteq> None"

definition certificateField :: "unicode \<Rightarrow> int \<Rightarrow> parser \<Rightarrow> (req \<times> parser) result" where
  "certificateField U slot p0 =
    (case fieldText U [] (nextP U p0) of (field, p) \<Rightarrow>
     if ps_text p \<noteq> str '']'' then Inl (Malformed ''certificate field closing bracket'') else
     let p = nextP U p in
     if take 6 field = str ''field.'' then
       (case parseArcs (splitDots (drop 6 field)) of None \<Rightarrow> Inl (Malformed ''certificate field OID'') | Some oid \<Rightarrow>
        case marshalOID oid of None \<Rightarrow> Inl (Malformed ''certificate field OID'') | Some bytes \<Rightarrow>
        if ps_text p = str ''exists'' then Inr (ReqExtension slot bytes, nextP U p)
        else if \<not> endsField p then Inl (Unsupported ''certificate extension match'')
        else Inr (ReqExtension slot bytes, p))
     else if field \<notin> set subjectFields then Inl (Unsupported ''certificate subject field'')
     else if ps_text p \<noteq> str ''='' then Inl (Malformed ''certificate subject equality'')
     else rbind (stringValue U (nextP U p)) (\<lambda>(v, p). Inr (ReqSubject slot field v, p)))"

definition certificateIndex :: "gostring \<Rightarrow> int result" where
  "certificateIndex s =
    (if s = str ''leaf'' then Inr 0 else if s = str ''root'' then Inr (-1) else
     case digitsValue s of Some v \<Rightarrow> if v \<le> 31 then Inr (int v) else Inl (Unsupported ''certificate index'')
     | None \<Rightarrow> Inl (Unsupported ''certificate index''))"

definition certificateAtom :: "unicode \<Rightarrow> parser \<Rightarrow> (req \<times> parser) result" where
  "certificateAtom U p =
    rbind (certificateIndex (ps_text p)) (\<lambda>slot.
    let p = nextP U p in
    if ps_text p = str ''['' then certificateField U slot p else
    if ps_text p \<noteq> str ''='' then Inl (Malformed ''expected certificate equality'') else
    let p = nextP U p in
    if ps_text p \<noteq> str ''H'' then Inl (Malformed ''expected certificate hash'') else
    let p = nextP U p in
    if ps_token p \<noteq> TString then Inl (Malformed ''expected quoted certificate hash'') else
    case unquote (ps_text p) of None \<Rightarrow> Inl (Plain ''invalid syntax'') | Some value \<Rightarrow>
    case hexDecode value of None \<Rightarrow> Inl (Malformed ''certificate hash must contain 40 hexadecimal digits'') | Some h \<Rightarrow>
    if length h \<noteq> 20 then Inl (Malformed ''certificate hash must contain 40 hexadecimal digits'') else
    Inr (ReqCertificate slot h, nextP U p))"

definition cdhashAtom :: "unicode \<Rightarrow> parser \<Rightarrow> (req \<times> parser) result" where
  "cdhashAtom U p =
    (if ps_text p \<noteq> str ''H'' then Inl (Plain ''requirement: expected H followed by a quoted hash'') else
     let p = nextP U p in
     if ps_token p \<noteq> TString then Inl (Malformed ''quoted CDHash required'') else
     rbind (stringValue U p) (\<lambda>(value, p).
     case hexDecode value of None \<Rightarrow> Inl (Plain ''requirement: CDHash must contain 40 hexadecimal digits'') | Some h \<Rightarrow>
     if length h \<noteq> 20 then Inl (Plain ''requirement: CDHash must contain 40 hexadecimal digits'') else Inr (ReqCDHash h, p)))"

definition anchorAtom :: "unicode \<Rightarrow> parser \<Rightarrow> (req \<times> parser) result" where
  "anchorAtom U p =
    (if ps_text p \<noteq> str ''apple'' then Inl (Unsupported ''anchor predicate'') else
     let p = nextP U p in
     if ps_text p \<noteq> str ''generic'' then Inl (Unsupported ''only generic Apple anchors are implemented'') else
     Inr (ReqAnchor, nextP U p))"

function atom :: "unicode \<Rightarrow> nat \<Rightarrow> parser \<Rightarrow> (req \<times> parser) result" where
  "atom U depth p =
    (if ps_nodes p + 1 > 4096 then Inl (Malformed ''requirement expression limit'') else
     if depth + 1 > 128 then Inl (Malformed ''requirement nesting limit'') else
     let s = ps_text p; p = nextP U (p\<lparr>ps_nodes := ps_nodes p + 1\<rparr>) in
     if s = str ''anchor'' then anchorAtom U p
     else if s = str ''always'' \<or> s = str ''true'' then Inr (ReqAlways, p)
     else if s = str ''never'' \<or> s = str ''false'' then Inr (ReqNever, p)
     else if s = str ''!'' \<or> s = str ''not'' then rbind (atom U (depth + 1) p) (\<lambda>(n, p). Inr (ReqNot n, p))
     else if s = str ''('' then
       rbind (expression U (atom U (depth + 2)) (depth + 1) p) (\<lambda>(n, p).
       if ps_text p \<noteq> str '')'' then Inl (Plain ''requirement: expected closing parenthesis'') else Inr (n, nextP U p))
     else if s = str ''identifier'' then rbind (stringValue U p) (\<lambda>(v, p). Inr (ReqIdentifier v, p))
     else if s = str ''cdhash'' then cdhashAtom U p
     else if s = str ''certificate'' then certificateAtom U p
     else Inl (Unsupported ''requirement predicate''))"
  by pat_completeness auto
termination
  by (relation "measure (\<lambda>(_, depth, _). 129 - depth)") auto

declare atom.simps [simp del]

function semicolons :: "unicode \<Rightarrow> parser \<Rightarrow> parser" where
  "semicolons U p = (if ps_text p = str '';'' \<and> ps_token p \<noteq> TEOF then semicolons U (nextP U p) else p)"
  by pat_completeness auto
termination
  by (relation "measure (\<lambda>(_, p). remaining p)") (auto intro: nextP_less)

declare semicolons.simps [simp del]

definition element :: "unicode \<Rightarrow> parser \<Rightarrow> (req \<times> parser) result" where
  "element U p =
    rbind (expression U (atom U 1) 0 (p\<lparr>ps_nodes := 0\<rparr>)) (\<lambda>(n, p).
    let p = semicolons U p in
    if sc_err (ps_scan p) then Inl (Plain ''requirement'') else Inr (n, p))"

definition parseRequirement :: "unicode \<Rightarrow> gostring \<Rightarrow> req result" where
  "parseRequirement U src =
    rbind (newRequirementParser U src) (\<lambda>p.
    rbind (element U p) (\<lambda>(n, p).
    if ps_token p \<noteq> TEOF then Inl (Plain ''requirement: unexpected'') else Inr n))"

definition CompileRequirement :: "unicode \<Rightarrow> gostring \<Rightarrow> byte list result" where
  "CompileRequirement U src = rbind (parseRequirement U src) (\<lambda>n. Inr (compileNode n))"

section \<open>Requirement sets\<close>

text \<open>The Go map as an association list; a later entry replaces an earlier one of its kind.\<close>

function entryLoop :: "unicode \<Rightarrow> nat \<Rightarrow> (nat \<times> byte list) list \<Rightarrow> parser \<Rightarrow> (nat \<times> byte list) list result" where
  "entryLoop U n entries p =
    (if ps_token p = TEOF then Inr entries else
     if n \<ge> 64 then Inl (Malformed ''requirement set entry limit'') else
     case requirementKind p of None \<Rightarrow> Inl (Malformed ''requirement kind'') | Some kind \<Rightarrow>
     let p = nextP U p in
     if ps_text p \<noteq> str ''='' \<or> \<not> sees (ps_scan p) 62 then Inl (Malformed ''expected requirement => expression'') else
     rbind (element U (nextP U (p\<lparr>ps_scan := adv (ps_scan p)\<rparr>))) (\<lambda>(r, p).
     entryLoop U (n + 1) (AList.update kind (compileNode r) entries) p))"
  by pat_completeness auto
termination
  by (relation "measure (\<lambda>(_, n, _). 64 - n)") auto

declare entryLoop.simps [simp del]

definition CompileRequirements :: "unicode \<Rightarrow> gostring \<Rightarrow> byte list result" where
  "CompileRequirements U src =
    rbind (newRequirementParser U src) (\<lambda>p.
    if requirementKind p = None then
      rbind (CompileRequirement U src) (\<lambda>req.
      Inr (requirementSetBytes [(3, req)]))
    else
      rbind (entryLoop U 0 [] p) (\<lambda>entries. Inr (requirementSetBytes entries)))"

definition RequirementsBytes :: "unicode \<Rightarrow> byte list \<Rightarrow> byte list result" where
  "RequirementsBytes U data =
    (if length data \<ge> 4 \<and> be32 data 0 = MagicRequirements
     then rbind (validateRequirements data) (\<lambda>_. Inr data) else CompileRequirements U data)"

end
