(* ===== verification/Verification.thy ===== *)
theory Verification
  imports MachO_Signing Requirement_Parser
begin

text \<open>
  verify.go with the parts of file_list.go, report_view.go, verification_error.go,
  requirement_verify.go, sideband_verification.go and strict_verification.go it calls: the
  report of an input and its verification, for inputs held in memory. Parameters stand for
  CMS decoding, the layout of the disk image trailer and the side file reader; certificates are those of the
  certificate model.
\<close>

section \<open>Reports\<close>

text \<open>
  Architecture and Report of types.go. The chain verification stores in every directory of a
  signature is one value per architecture.
\<close>

record architecture =
  ar_VersionPlatform :: nat
  ar_VersionMin :: nat
  ar_VersionSDK :: nat
  ar_Name :: gostring
  ar_CPU :: nat
  ar_Subtype :: nat
  ar_Offset :: nat
  ar_Size :: nat
  ar_SignatureOffset :: nat
  ar_SignatureSize :: nat
  ar_Signature :: "Signature option"
  ar_chain :: "certificate list"

record report =
  rp_Format :: gostring
  rp_Architectures :: "architecture list"
  rp_Valid :: bool
  rp_ResourcesIgnored :: bool
  rp_repSpecific :: "byte list"
  rp_verifiedArchitecture :: gostring

text \<open>The result of verifyCMS that verification uses; a timestamp has its own leaf.\<close>

record timestamp_info =
  ts_Time :: int
  ts_Signer :: "byte list"
  ts_Certificates :: "byte list list"

record cms_info =
  ci_Signer :: "byte list"
  ci_Certificates :: "byte list list"
  ci_Timestamp :: "timestamp_info option"

record VerifyOptions =
  vo_IgnoreResources :: bool
  vo_NoStrict :: bool
  vo_StrictSymlinks :: bool
  vo_StrictSideband :: bool
  vo_AppleDouble :: bool
  vo_AppleDoubleFiles :: bool
  vo_Architecture :: gostring
  vo_InfoPlist :: "byte list"
  vo_Resources :: "byte list"
  vo_Requirement :: gostring
  vo_CheckDesignatedRequirement :: bool
  vo_TrustedCertificates :: "byte list list"
  vo_TrustedRoots :: "byte list list"
  vo_TimestampRoots :: "byte list list"
  vo_CurrentTime :: "int option"
  vo_directoryOnly :: bool
  vo_linkScope :: bool
  vo_sidebandFile :: bool
  vo_sidebandObject :: bool

record verify_tools =
  vt_hash :: hash_lib
  vt_crypto :: crypto_lib
  vt_parse :: "byte list \<Rightarrow> certificate result"
  vt_verifyCMS :: "Signature \<Rightarrow> byte list \<Rightarrow> cms_info result"
  vt_now :: int
  vt_sidebandFirst :: "string result"
  vt_dmgLayout :: dmg_layout
  vt_unicode :: unicode

section \<open>Verification errors\<close>

text \<open>errors.As to a VerificationError: the first in the chain.\<close>

fun findVerification :: "error \<Rightarrow> (string \<times> byte list \<times> bool) option" where
  "findVerification (VerificationFailure diag arch omit cause) = Some (diag, arch, omit)"
| "findVerification (Wrapped s e) = findVerification e"
| "findVerification (Joined es) = foldr (\<lambda>e r. case findVerification e of None \<Rightarrow> r | Some v \<Rightarrow> Some v) es None"
| "findVerification _ = None"

definition signatureDiagnostic :: string where
  "signatureDiagnostic = ''invalid signature (code or signature have been modified)''"

definition verificationFailure :: "string \<Rightarrow> error \<Rightarrow> error" where
  "verificationFailure message e = VerificationFailure message [] False e"

definition verificationArchitecture :: "error \<Rightarrow> gostring \<Rightarrow> error" where
  "verificationArchitecture e arch =
    (case findVerification e of
       Some (diag, _, omit) \<Rightarrow> if arch \<noteq> str ''dmg'' \<and> \<not> omit then VerificationFailure diag arch omit e else e
     | None \<Rightarrow> e)"

definition slotVerificationFailure :: "nat \<Rightarrow> error \<Rightarrow> error" where
  "slotVerificationFailure slot e =
    VerificationFailure
      (if slot = SlotInfo then ''invalid Info.plist (plist or signature have been modified)''
       else if slot = SlotResources then ''invalid resource directory (directory or signature have been modified)''
       else signatureDiagnostic) [] (slot = SlotResources) e"

section \<open>Inspection\<close>

definition inspectSlice :: "hash_lib \<Rightarrow> range_reader \<Rightarrow> archSlice \<Rightarrow> architecture result" where
  "inspectSlice H read s =
    (let im = sl_image s;
         a = \<lparr>ar_VersionPlatform = im_versionPlatform im, ar_VersionMin = im_versionMin im, ar_VersionSDK = im_versionSDK im,
              ar_Name = archName (sl_cpu s) (sl_subtype s), ar_CPU = sl_cpu s, ar_Subtype = sl_subtype s,
              ar_Offset = sl_offset s, ar_Size = sl_size s, ar_SignatureOffset = im_sigOffset im,
              ar_SignatureSize = im_sigSize im, ar_Signature = None, ar_chain = []\<rparr> in
     if im_sigCommand im \<ge> 0 then
       rbind (parseSignatureRange H (im_sigSize im) (subRange read (sl_offset s + im_sigOffset im)) False) (\<lambda>sig.
       Inr (a\<lparr>ar_Signature := Some sig\<rparr>))
     else Inr a)"

fun inspectSlices :: "hash_lib \<Rightarrow> range_reader \<Rightarrow> archSlice list \<Rightarrow> architecture list result" where
  "inspectSlices H read [] = Inr []"
| "inspectSlices H read (s # ss) =
    rbind (inspectSlice H read s) (\<lambda>a. rbind (inspectSlices H read ss) (\<lambda>rest. Inr (a # rest)))"

definition inspectContainer :: "hash_lib \<Rightarrow> container \<Rightarrow> range_reader \<Rightarrow> report result" where
  "inspectContainer H c read =
    rbind (inspectSlices H read (co_slices c)) (\<lambda>as.
    Inr \<lparr>rp_Format = str (if co_fat c then ''Mach-O universal'' else ''Mach-O thin''), rp_Architectures = as, rp_Valid = False,
         rp_ResourcesIgnored = False, rp_repSpecific = [], rp_verifiedArchitecture = []\<rparr>)"

text \<open>A disk image is one architecture; its trailer is what the last special slot binds.\<close>

definition inspectDMGImage :: "dmg_layout \<Rightarrow> dmgImage \<Rightarrow> nat \<Rightarrow> report" where
  "inspectDMGImage L m len =
    \<lparr>rp_Format = str ''disk image'',
     rp_Architectures = [\<lparr>ar_VersionPlatform = 0, ar_VersionMin = 0, ar_VersionSDK = 0, ar_Name = str ''dmg'', ar_CPU = 0, ar_Subtype = 0,
       ar_Offset = 0, ar_Size = len, ar_SignatureOffset = ft_CodeSignatureOffset (dg_footer m),
       ar_SignatureSize = (case dg_signature m of None \<Rightarrow> 0 | Some sig \<Rightarrow> Length sig), ar_Signature = dg_signature m, ar_chain = []\<rparr>],
     rp_Valid = False, rp_ResourcesIgnored = False, rp_repSpecific = dmgTrailer L m, rp_verifiedArchitecture = []\<rparr>"

definition inspectDMG :: "verify_tools \<Rightarrow> byte list \<Rightarrow> report result" where
  "inspectDMG T data = rbind (parseDMG (vt_hash T) (vt_dmgLayout T) data) (\<lambda>m. Inr (inspectDMGImage (vt_dmgLayout T) m (length data)))"

definition InspectBytes :: "verify_tools \<Rightarrow> byte list \<Rightarrow> report result" where
  "InspectBytes T data =
    rbind (isDMG (dm_size (vt_dmgLayout T)) data) (\<lambda>dmg.
    if dmg then inspectDMG T data else
    rbind (parseContainer data) (\<lambda>c. inspectContainer (vt_hash T) c (memoryRange data)))"

text \<open>selectArchitecture returns a pointer into the report: its index.\<close>

fun preferArchitecture :: "architecture list \<Rightarrow> nat \<Rightarrow> nat option \<Rightarrow> nat option" where
  "preferArchitecture [] i selected = selected"
| "preferArchitecture (a # as) i selected =
    preferArchitecture as (Suc i) (if selected = None \<or> ar_Name a = str ''arm64'' then Some i else selected)"

fun namedArchitecture :: "architecture list \<Rightarrow> nat \<Rightarrow> gostring \<Rightarrow> nat option" where
  "namedArchitecture [] i name = None"
| "namedArchitecture (a # as) i name = (if ar_Name a = name then Some i else namedArchitecture as (Suc i) name)"

definition selectArchitecture :: "report \<Rightarrow> gostring \<Rightarrow> nat option" where
  "selectArchitecture r name =
    (if name \<noteq> [] then namedArchitecture (rp_Architectures r) 0 name else preferArchitecture (rp_Architectures r) 0 None)"

definition SelectArchitecture :: "report \<Rightarrow> gostring \<Rightarrow> nat result" where
  "SelectArchitecture r name =
    (case selectArchitecture r name of None \<Rightarrow> Inl (Plain ''architecture not present'')
     | Some i \<Rightarrow> if ar_Signature (rp_Architectures r ! i) = None then Inl ErrUnsigned else Inr i)"

text \<open>The preferred slice first, then the others in order.\<close>

definition verificationArchitectures :: "report \<Rightarrow> nat list" where
  "verificationArchitectures r =
    (let n = length (rp_Architectures r) in
     case selectArchitecture r [] of None \<Rightarrow> [0..<n] | Some p \<Rightarrow> p # filter (\<lambda>i. i \<noteq> p) [0..<n])"

section \<open>Strict layout\<close>

definition strictFailure :: "string \<Rightarrow> error" where
  "strictFailure reason = VerificationFailure ''main executable failed strict validation'' [] True (Invalid reason)"

text \<open>
  The pass over the universal slices by offset: \<open>fin\<close> is the end of the previous slice.
  The subtraction is a uint64 one.
\<close>

fun strictGaps :: "bool \<Rightarrow> (nat \<Rightarrow> nat \<Rightarrow> bool result) \<Rightarrow> bool \<Rightarrow> archSlice list \<Rightarrow> nat \<Rightarrow> nat result" where
  "strictGaps disabled zero first [] fin = Inr fin"
| "strictGaps disabled zero first (s # ss) fin =
    (let room = (sl_offset s + 2 ^ 64 - fin) mod 2 ^ 64 in
     rbind (zero fin room) (\<lambda>padding.
     if \<not> first \<and> room \<ge> 2 ^ sl_alignment s \<or> \<not> padding then
       if ss \<noteq> [] then Inl (VerificationFailure ''An internal error has occurred.'' [] True
           (Invalid ''incomplete native universal size index''))
       else if \<not> disabled then Inl (strictFailure ''invalid universal padding'')
       else Inr (sl_offset s + sl_size s)
     else strictGaps disabled zero False ss (sl_offset s + sl_size s)))"

fun strictImages :: "gostring \<Rightarrow> archSlice list \<Rightarrow> unit result" where
  "strictImages arch [] = Inr ()"
| "strictImages arch (s # ss) =
    (if arch \<noteq> [] \<and> archName (sl_cpu s) (sl_subtype s) \<noteq> arch then strictImages arch ss else
     if \<not> im_strictValid (sl_image s) then Inl (strictFailure ''link-edit data does not end at the image boundary'')
     else strictImages arch ss)"

definition verifyStrictContainer ::
  "container \<Rightarrow> nat \<Rightarrow> gostring \<Rightarrow> bool \<Rightarrow> (nat \<Rightarrow> nat \<Rightarrow> bool result) \<Rightarrow> unit result" where
  "verifyStrictContainer c len arch disabled zero =
    (if arch = [] \<and> co_fat c \<and> (co_fat64 c \<or> co_order c \<noteq> BigEndian) then
       (if disabled then Inr () else Inl (Unsupported ''strict validation of nonstandard universal headers''))
     else
     rbind (if co_fat c \<and> arch = [] then
         (let ordered = sort_key sl_offset (co_slices c) in
          if length ordered > 100 then Inl (Unsupported ''native universal architecture limit'') else
          rbind (strictGaps disabled zero True ordered (8 + 20 * length ordered)) (\<lambda>fin.
          if \<not> disabled \<and> fin \<noteq> len then Inl (strictFailure ''trailing universal data'') else Inr ()))
       else Inr ()) (\<lambda>_.
     if disabled then Inr () else strictImages arch (co_slices c)))"

definition memoryZero :: "byte list \<Rightarrow> nat \<Rightarrow> nat \<Rightarrow> bool result" where
  "memoryZero data off len = rbind (slice_at data off len) (\<lambda>bs. Inr (list_all (\<lambda>b. b = 0) bs))"

definition verifyStrictLayout :: "nat \<Rightarrow> byte list \<Rightarrow> gostring \<Rightarrow> bool \<Rightarrow> unit result" where
  "verifyStrictLayout footer data arch disabled =
    rbind (isDMG footer data) (\<lambda>dmg. if dmg then Inr () else
    rbind (parseContainer data) (\<lambda>c.
    verifyStrictContainer c (length data) arch disabled (memoryZero data)))"

section \<open>Side files\<close>

definition sidebandOptions :: "VerifyOptions \<Rightarrow> bool \<Rightarrow> unit result" where
  "sidebandOptions opts bytesOnly =
    (if (vo_AppleDouble opts \<or> vo_AppleDoubleFiles opts) \<and> (\<not> vo_StrictSideband opts \<or> vo_NoStrict opts)
     then Inl (Unsupported ''AppleDouble input requires enabled strict sideband verification'') else
     if bytesOnly \<and> vo_StrictSideband opts \<and> \<not> vo_NoStrict opts \<and> \<not> vo_sidebandFile opts \<and> \<not> vo_sidebandObject opts
     then Inl (Unsupported ''strict sideband verification requires a held filesystem object; use Verify'') else Inr ())"

definition sidebandFailure :: "string list \<Rightarrow> error" where
  "sidebandFailure names = VerificationFailure
     ''resource fork, Finder information, or similar detritus not allowed'' [] True (Invalid (concat names))"

definition verifySideband :: "verify_tools \<Rightarrow> VerifyOptions \<Rightarrow> unit result" where
  "verifySideband T opts =
    (if \<not> vo_StrictSideband opts \<or> vo_NoStrict opts then Inr () else
     rbind (vt_sidebandFirst T) (\<lambda>name. if name = [] then Inr () else Inl (sidebandFailure [name])))"

section \<open>Certificates\<close>

definition timestampPurpose :: gostring where
  "timestampPurpose = str ''1.3.6.1.5.5.7.3.8''"

text \<open>The returned value has the verified path's certificates.\<close>

definition verifyTimestampTrust :: "verify_tools \<Rightarrow> timestamp_info \<Rightarrow> byte list list \<Rightarrow> int \<Rightarrow> timestamp_info result" where
  "verifyTimestampTrust T info roots now =
    (if ts_Time info > now then Inl (Invalid ''timestamp is in the future'') else
     case verifyCertificateChainFor (vt_parse T) (vt_crypto T) (ts_Signer info) (ts_Certificates info) roots (ts_Time info)
            timestampPurpose of
       Inl e \<Rightarrow> Inl (Wrapped ''timestamp authority'' e)
     | Inr path \<Rightarrow> Inr (info\<lparr>ts_Certificates := map raw path\<rparr>))"

definition checkTimestampApplePolicy :: "verify_tools \<Rightarrow> certificate list \<Rightarrow> timestamp_info \<Rightarrow> unit result" where
  "checkTimestampApplePolicy T codePath info =
    (if \<not> appleAnchor (vt_hash T) codePath then Inr () else
     if ts_Certificates info = [] then Inl Panic else
     rbind (vt_parse T (last (ts_Certificates info))) (\<lambda>root.
     if \<not> appleAnchor (vt_hash T) [root] then Inl (Invalid ''Apple code signature requires an Apple-anchored timestamp'')
     else Inr ()))"

fun checkTeamIDs :: "hash_lib \<Rightarrow> certificate list \<Rightarrow> Directory list \<Rightarrow> unit result" where
  "checkTeamIDs H path [] = Inr ()"
| "checkTeamIDs H path (d # ds) = rbind (checkTeamID H path (TeamID d)) (\<lambda>_. checkTeamIDs H path ds)"

text \<open>
  The certificate part of verifyInput: the leaf and the path, both empty without a CMS.
  A nil certificate would be dereferenced by checkCertificatePurpose.
\<close>

definition verifySigner :: "verify_tools \<Rightarrow> VerifyOptions \<Rightarrow> Signature \<Rightarrow> (byte list \<times> certificate list) result" where
  "verifySigner T opts sig =
    (let cms = find_blob (Blobs sig) SlotCMS in
     if length cms \<le> 8 then Inr ([], []) else
     rbind (vt_verifyCMS T sig (drop 8 cms)) (\<lambda>info.
     let leaf = ci_Signer info; trusted = leaf \<in> set (vo_TrustedCertificates opts) in
     case vt_parse T leaf of Inl _ \<Rightarrow> Inl Panic | Inr cert \<Rightarrow>
     let now = (case vo_CurrentTime opts of None \<Rightarrow> vt_now T | Some t \<Rightarrow> t) in
     rbind (case ci_Timestamp info of
              None \<Rightarrow> Inr (None, now)
            | Some ts \<Rightarrow> rbind (verifyTimestampTrust T ts (vo_TimestampRoots opts) now) (\<lambda>ts'. Inr (Some ts', ts_Time ts))) (\<lambda>(stamp, at).
     rbind (certificatePolicy cert at False 0) (\<lambda>_.
     rbind (if trusted then Inr (ci_Certificates info) else
            rbind (verifyCertificateChainFor (vt_parse T) (vt_crypto T) leaf (ci_Certificates info) (vo_TrustedRoots opts) at codeSigning)
              (\<lambda>path. Inr (map raw path))) (\<lambda>certs.
     rbind (linkedCertificates (vt_parse T) (vt_crypto T) leaf certs) (\<lambda>path.
     rbind (case stamp of None \<Rightarrow> Inr () | Some ts \<Rightarrow> checkTimestampApplePolicy T path ts) (\<lambda>_.
     rbind (checkTeamIDs (vt_hash T) path (Directories sig)) (\<lambda>_. Inr (leaf, path)))))))) )"

section \<open>Pages and slots\<close>

text \<open>hashAt and componentDigest, on an owned signature.\<close>

definition hashAt :: "Directory \<Rightarrow> nat \<Rightarrow> byte list result" where
  "hashAt d off =
    (if \<not> rangeOK off (HashSize d) (length (Raw d)) then Inl (Malformed ''CodeDirectory hash bounds'')
     else slice_at (Raw d) off (HashSize d))"

definition componentDigest :: "hash_lib \<Rightarrow> Signature \<Rightarrow> nat \<Rightarrow> nat \<Rightarrow> (byte list \<times> bool) result" where
  "componentDigest H sig slot kind =
    (let data = find_blob (Blobs sig) slot in
     if data = [] then Inr ([], False) else rbind (digestContext H kind data) (\<lambda>h. Inr (h, True)))"

text \<open>One turn of the page loop; \<open>pd kind offset length\<close> digests a range of the input.\<close>

definition verifyPage ::
  "(nat \<Rightarrow> nat \<Rightarrow> nat \<Rightarrow> byte list result) \<Rightarrow> architecture \<Rightarrow> Directory \<Rightarrow> nat \<Rightarrow> nat \<Rightarrow> unit result" where
  "verifyPage pd a d pg i =
    (let st = ar_Offset a + i * pg; fin = min (st + pg) (ar_Offset a + CodeLimit d) in
     rbind (pd (HashType d) st (fin - st)) (\<lambda>h.
     rbind (hashAt d (HashOffset d + i * HashSize d)) (\<lambda>want.
     if h \<noteq> want then Inl (verificationFailure signatureDiagnostic (Invalid ''code page'')) else Inr ())))"

fun verifyPages ::
  "(nat \<Rightarrow> nat \<Rightarrow> nat \<Rightarrow> byte list result) \<Rightarrow> architecture \<Rightarrow> Directory \<Rightarrow> nat \<Rightarrow> nat \<Rightarrow> nat \<Rightarrow> unit result" where
  "verifyPages pd a d pg i 0 = Inr ()"
| "verifyPages pd a d pg i (Suc k) = rbind (verifyPage pd a d pg i) (\<lambda>_. verifyPages pd a d pg (Suc i) k)"

text \<open>The bytes a slot has to match: an external payload, or the signature's component.\<close>

definition slotDigest ::
  "hash_lib \<Rightarrow> VerifyOptions \<Rightarrow> byte list \<Rightarrow> Signature \<Rightarrow> Directory \<Rightarrow> nat \<Rightarrow> (byte list \<times> bool) result" where
  "slotDigest H opts rep sig d slot =
    (let external = (\<lambda>payload. if payload = [] then Inr ([], False)
                       else rbind (digestContext H (HashType d) payload) (\<lambda>h. Inr (h, True))) in
     if slot = SlotInfo then external (vo_InfoPlist opts)
     else if slot = SlotResources then external (vo_Resources opts)
     else if slot = SlotRepSpecific \<and> rep \<noteq> [] then external rep
     else componentDigest H sig slot (HashType d))"

definition verifySlot ::
  "hash_lib \<Rightarrow> VerifyOptions \<Rightarrow> byte list \<Rightarrow> Signature \<Rightarrow> Directory \<Rightarrow> nat \<Rightarrow> unit result" where
  "verifySlot H opts rep sig d slot =
    (if (vo_directoryOnly opts \<or> vo_IgnoreResources opts) \<and> slot = SlotResources then Inr () else
     rbind (hashAt d ((HashOffset d + 2 ^ 64 - slot * HashSize d) mod 2 ^ 64)) (\<lambda>want.
     rbind (slotDigest H opts rep sig d slot) (\<lambda>(h, present).
     if \<not> present then
       (if want = replicate (HashSize d) 0 then Inr ()
        else if slot = SlotInfo \<or> slot = SlotResources
        then Inl (slotVerificationFailure slot (Unsupported ''external data for special slot is required''))
        else Inl (slotVerificationFailure slot (Invalid ''missing special slot'')))
     else if h \<noteq> want then Inl (slotVerificationFailure slot (Invalid ''special slot'')) else Inr ())))"

fun verifySlots ::
  "hash_lib \<Rightarrow> VerifyOptions \<Rightarrow> byte list \<Rightarrow> Signature \<Rightarrow> Directory \<Rightarrow> nat \<Rightarrow> nat \<Rightarrow> unit result" where
  "verifySlots H opts rep sig d slot 0 = Inr ()"
| "verifySlots H opts rep sig d slot (Suc k) =
     rbind (verifySlot H opts rep sig d slot) (\<lambda>_. verifySlots H opts rep sig d (Suc slot) k)"

text \<open>
  One directory. The page size and count are uint64 expressions that cannot wrap once the
  code limit is the 32-bit signature offset.
\<close>

definition pageSize :: "Directory \<Rightarrow> nat" where
  "pageSize d = (if PageExponent d = 0 then CodeLimit d else 2 ^ PageExponent d)"

definition verifyDirectory ::
  "hash_lib \<Rightarrow> VerifyOptions \<Rightarrow> (nat \<Rightarrow> nat \<Rightarrow> nat \<Rightarrow> byte list result) \<Rightarrow> byte list \<Rightarrow> architecture \<Rightarrow> Signature
     \<Rightarrow> byte list \<Rightarrow> Directory \<Rightarrow> unit result" where
  "verifyDirectory H opts pd rep a sig leaf d =
    (if rep \<noteq> [] \<and> SpecialSlots d < SlotRepSpecific then Inl (Invalid ''disk image signature lacks trailer binding'') else
     if CodeLimit d \<noteq> ar_SignatureOffset a then Inl (Invalid ''code limit does not cover complete image'') else
     if pageSize d = 0 then Inl (Invalid ''empty code limit'') else
     if CodeSlots d \<noteq> (CodeLimit d + pageSize d - 1) div pageSize d then Inl (Invalid ''code slot count'') else
     rbind (if vo_directoryOnly opts then Inr () else verifyPages pd a d (pageSize d) 0 (CodeSlots d)) (\<lambda>_.
     rbind (verifySlots H opts rep sig d 1 (SpecialSlots d)) (\<lambda>_.
     if leaf \<noteq> [] \<and> Flags d AND FlagAdhoc \<noteq> 0 then Inl (Invalid ''ad-hoc CodeDirectory contains a certificate signature'') else
     if leaf = [] \<and> Flags d AND FlagAdhoc = 0 then Inl (Invalid ''missing certificate signature'') else
     let set = find_blob (Blobs sig) SlotRequirements in
     if set \<noteq> [] then validateRequirements set else Inr ())))"

fun verifyDirectories ::
  "hash_lib \<Rightarrow> VerifyOptions \<Rightarrow> (nat \<Rightarrow> nat \<Rightarrow> nat \<Rightarrow> byte list result) \<Rightarrow> byte list \<Rightarrow> architecture \<Rightarrow> Signature
     \<Rightarrow> byte list \<Rightarrow> Directory list \<Rightarrow> unit result" where
  "verifyDirectories H opts pd rep a sig leaf [] = Inr ()"
| "verifyDirectories H opts pd rep a sig leaf (d # ds) =
     rbind (verifyDirectory H opts pd rep a sig leaf d) (\<lambda>_. verifyDirectories H opts pd rep a sig leaf ds)"

section \<open>The whole input\<close>

definition verifyArchitecture ::
  "verify_tools \<Rightarrow> VerifyOptions \<Rightarrow> (nat \<Rightarrow> nat \<Rightarrow> nat \<Rightarrow> byte list result) \<Rightarrow> byte list \<Rightarrow> architecture \<Rightarrow> certificate list result"
where
  "verifyArchitecture T opts pd rep a =
    (case ar_Signature a of
       None \<Rightarrow> Inl (verificationFailure ''code object is not signed at all'' ErrUnsigned)
     | Some sig \<Rightarrow>
       rbind (verifySigner T opts sig) (\<lambda>(leaf, path).
       rbind (verifyDirectories (vt_hash T) opts pd rep a sig leaf (Directories sig)) (\<lambda>_. Inr path)))"

text \<open>
  The loop over the architectures in verification order. The state is the report, the
  architecture last looked at and whether one matched. On an error the chains recorded so
  far stay in the report, which is then not valid.
\<close>

fun verifyLoop ::
  "verify_tools \<Rightarrow> VerifyOptions \<Rightarrow> (nat \<Rightarrow> nat \<Rightarrow> nat \<Rightarrow> byte list result) \<Rightarrow> nat list \<Rightarrow> report \<Rightarrow> gostring \<Rightarrow> bool
     \<Rightarrow> report \<times> gostring \<times> bool \<times> error option" where
  "verifyLoop T opts pd [] r arch found = (r, arch, found, None)"
| "verifyLoop T opts pd (i # is) r arch found =
    (let a = rp_Architectures r ! i in
     if vo_Architecture opts \<noteq> [] \<and> vo_Architecture opts \<noteq> ar_Name a then verifyLoop T opts pd is r arch found else
     case verifyArchitecture T opts pd (rp_repSpecific r) a of
       Inl e \<Rightarrow> (r, ar_Name a, True, Some e)
     | Inr path \<Rightarrow> verifyLoop T opts pd is (r\<lparr>rp_Architectures := (rp_Architectures r)[i := a\<lparr>ar_chain := path\<rparr>]\<rparr>) (ar_Name a) True)"

text \<open>checkRequirements: the selected architecture's directories in order.\<close>

definition verifiedDirectory :: "architecture \<Rightarrow> Directory \<Rightarrow> verified" where
  "verifiedDirectory a d = Directory.extend d (verified.fields (ar_chain a) [])"

fun checkDirectories :: "(Signature \<Rightarrow> verified \<Rightarrow> unit result) \<Rightarrow> architecture \<Rightarrow> Signature \<Rightarrow> Directory list \<Rightarrow> unit result" where
  "checkDirectories check a sig [] = Inr ()"
| "checkDirectories check a sig (d # ds) =
     rbind (check sig (verifiedDirectory a d)) (\<lambda>_. checkDirectories check a sig ds)"

fun checkArchitectures :: "gostring \<Rightarrow> (Signature \<Rightarrow> verified \<Rightarrow> unit result) \<Rightarrow> architecture list \<Rightarrow> unit result" where
  "checkArchitectures arch check [] = Inr ()"
| "checkArchitectures arch check (a # as) =
    (if arch \<noteq> [] \<and> arch \<noteq> ar_Name a then checkArchitectures arch check as else
     case ar_Signature a of None \<Rightarrow> Inl Panic
     | Some sig \<Rightarrow> rbind (checkDirectories check a sig (Directories sig)) (\<lambda>_. checkArchitectures arch check as))"

definition checkRequirements :: "report \<Rightarrow> gostring \<Rightarrow> (Signature \<Rightarrow> verified \<Rightarrow> unit result) \<Rightarrow> unit result" where
  "checkRequirements r arch check =
    (if \<not> rp_Valid r \<or> rp_Architectures r = [] then Inl (Invalid ''requirement evaluation requires successful verification'') else
     rbind (if arch = [] then Inr (rp_verifiedArchitecture r) else
            rbind (SelectArchitecture r arch) (\<lambda>_.
            if rp_verifiedArchitecture r \<noteq> [] \<and> rp_verifiedArchitecture r \<noteq> arch
            then Inl (Invalid ''architecture was not verified'') else Inr arch)) (\<lambda>arch.
     checkArchitectures arch check (rp_Architectures r)))"

definition CheckRequirement :: "verify_tools \<Rightarrow> report \<Rightarrow> gostring \<Rightarrow> gostring \<Rightarrow> unit result" where
  "CheckRequirement T r text arch =
    rbind (parseRequirement (vt_unicode T) text) (\<lambda>n.
    checkRequirements r arch (\<lambda>_ d. if \<not> matches (vt_hash T) n d then Inl ErrRequirement else Inr ()))"

definition CheckDesignatedRequirement :: "verify_tools \<Rightarrow> report \<Rightarrow> gostring \<Rightarrow> unit result" where
  "CheckDesignatedRequirement T r arch =
    checkRequirements r arch (\<lambda>sig d. checkDesignatedRequirement (vt_hash T) (find_blob (Blobs sig) SlotRequirements) d)"

text \<open>The requirement checks on a report that is valid so far.\<close>

definition finalChecks :: "verify_tools \<Rightarrow> VerifyOptions \<Rightarrow> report \<Rightarrow> unit result" where
  "finalChecks T opts r =
    rbind (if vo_CheckDesignatedRequirement opts \<and> \<not> vo_directoryOnly opts then CheckDesignatedRequirement T r [] else Inr ()) (\<lambda>_.
    if vo_Requirement opts \<noteq> [] then CheckRequirement T r (vo_Requirement opts) [] else Inr ())"

definition verifyPolicies :: "verify_tools \<Rightarrow> VerifyOptions \<Rightarrow> bool \<Rightarrow> (gostring \<Rightarrow> bool \<Rightarrow> unit result) \<Rightarrow> unit result" where
  "verifyPolicies T opts dmg strict =
    (if vo_linkScope opts then Inr () else
     rbind (if dmg then Inr () else verifySideband T opts) (\<lambda>_. strict (vo_Architecture opts) (vo_NoStrict opts)))"

definition verifyOptionErrors :: "VerifyOptions \<Rightarrow> bool \<Rightarrow> unit result" where
  "verifyOptionErrors opts dmg =
    (if vo_AppleDoubleFiles opts \<and> \<not> vo_sidebandObject opts
     then Inl (Unsupported ''AppleDoubleFiles requires a bundle filesystem scope; use Verify'') else
     rbind (sidebandOptions opts (\<not> dmg)) (\<lambda>_.
     if vo_StrictSymlinks opts \<and> \<not> vo_NoStrict opts \<and> \<not> vo_IgnoreResources opts \<and> \<not> vo_linkScope opts \<and> vo_Resources opts \<noteq> []
     then Inl (Unsupported ''strict resource links require a bundle filesystem scope'') else Inr ()))"

text \<open>The result is the report, when there is one, with the error, when there is one.\<close>

definition verifyInput ::
  "verify_tools \<Rightarrow> VerifyOptions \<Rightarrow> bool \<Rightarrow> report result \<Rightarrow> (nat \<Rightarrow> nat \<Rightarrow> nat \<Rightarrow> byte list result)
     \<Rightarrow> (gostring \<Rightarrow> bool \<Rightarrow> unit result) \<Rightarrow> report option \<times> error option" where
  "verifyInput T opts dmg inspect pd strict =
    (case rbind (verifyOptionErrors opts dmg) (\<lambda>_. inspect) of
       Inl e \<Rightarrow> (None, Some (verificationArchitecture e []))
     | Inr r \<Rightarrow> let r = r\<lparr>rp_ResourcesIgnored := vo_IgnoreResources opts\<rparr> in
       if rp_repSpecific r \<noteq> [] \<and> (vo_InfoPlist opts \<noteq> [] \<or> vo_Resources opts \<noteq> [])
       then (Some r, Some (verificationArchitecture (Unsupported ''external special-slot overrides for disk images'') [])) else
       (case verifyLoop T opts pd (verificationArchitectures r) r [] False of
          (r, arch, found, Some e) \<Rightarrow> (Some r, Some (verificationArchitecture e arch))
        | (r, arch, found, None) \<Rightarrow>
          if \<not> found then (Some r, Some (verificationArchitecture (verificationFailure
              ''object file format unrecognized, invalid, or unsuitable'' (Plain ''architecture not present'')) arch)) else
          (case verifyPolicies T opts dmg strict of
             Inl e \<Rightarrow> (Some r, Some (verificationArchitecture e arch))
           | Inr _ \<Rightarrow> let r = r\<lparr>rp_Valid := True, rp_verifiedArchitecture := vo_Architecture opts\<rparr> in
             (case finalChecks T opts r of
                Inl e \<Rightarrow> (Some (r\<lparr>rp_Valid := False\<rparr>), Some (verificationArchitecture e arch))
              | Inr _ \<Rightarrow> (Some r, None)))))"

definition VerifyBytes :: "verify_tools \<Rightarrow> VerifyOptions \<Rightarrow> byte list \<Rightarrow> report option \<times> error option" where
  "VerifyBytes T opts data =
    (case isDMG (dm_size (vt_dmgLayout T)) data of
       Inl e \<Rightarrow> (None, Some e)
     | Inr dmg \<Rightarrow> verifyInput T opts dmg (InspectBytes T data)
         (\<lambda>kind off len. rbind (slice_at data off len) (digestContext (vt_hash T) kind))
         (verifyStrictLayout (dm_size (vt_dmgLayout T)) data))"

end
