(* ===== verification/DMG_Signing.thy ===== *)
theory DMG_Signing
  imports MachO_Signing
begin

unbundle bit_operations_syntax

text \<open>
  dmg.go, the signer of disk images, and the byte operations of sign.go and remove.go, which tell
  disk images from Mach-O files. A signed disk image keeps its content; what follows it is the
  SuperBlob and the trailer. The directory's section is the memory form of a working section.
\<close>

section \<open>The signature's parameters\<close>

text \<open>The page size, the whole content by default, and the page count.\<close>

definition dmgPages :: "SignOptions \<Rightarrow> nat \<Rightarrow> (nat \<times> nat) result" where
  "dmgPages opts len =
    (let pg = so_PageSize opts in
     if pg \<noteq> 0 \<and> (pg < 2 \<or> pg AND (pg - 1) \<noteq> 0 \<or> pg > maxFileSize)
     then Inl (Plain ''disk image page size must be zero or a power of two from 2 to 1 GiB'') else
     let n = (if pg > 0 then (len - 1) div pg + 1 else 1) in
     if n > 2 ^ 32 - 1 then Inl (Unsupported ''disk image code slot count'') else Inr (if pg > 0 then pg else len, n))"

definition dmgComponents :: "sign_tools \<Rightarrow> SignOptions \<Rightarrow> (nat \<times> nat \<times> Blob list) result" where
  "dmgComponents tools opts =
    (let reqs = (if so_Requirements opts = [] then superblob MagicRequirements [] else so_Requirements opts);
         blobs = [\<lparr>Slot = SlotRequirements, Magic = 0, Data = reqs\<rparr>] in
     if so_Entitlements opts \<noteq> [] \<and> so_ForceLibraryEntitlements opts then
       rbind (encodeEntitlements tools (so_Entitlements opts)) (\<lambda>(xml, der).
       Inr (7, entitlementFlags tools xml,
         blobs @ [\<lparr>Slot = SlotEntitlements, Magic = 0, Data = blob MagicEntitlements xml\<rparr>,
                  \<lparr>Slot = SlotDEREntitlements, Magic = 0, Data = blob MagicDEREntitlements der\<rparr>]))
     else Inr (6, 0, blobs))"

definition dmgHeader :: "SignOptions \<Rightarrow> nat \<Rightarrow> nat \<times> nat" where
  "dmgHeader opts len =
    (let (header, vers) = (if so_teamID opts \<noteq> [] then (52, 0x20200) else (48, 0x20100));
         (header, vers) = (if len > 2 ^ 32 - 1 then (64, 0x20300) else (header, vers)) in
     if so_Flags opts AND FlagRuntime \<noteq> 0 \<and> so_RuntimeVersion opts \<noteq> 0 then (96, 0x20500) else (header, vers))"

section \<open>The CodeDirectory\<close>

definition dmgWrites :: "SignOptions \<Rightarrow> nat \<Rightarrow> nat \<Rightarrow> nat \<Rightarrow> nat \<Rightarrow> nat \<Rightarrow> nat \<Rightarrow> nat \<Rightarrow> (nat \<times> byte list) list" where
  "dmgWrites opts header vers special execFlags nPages len cdSize =
    (let flags = (if so_Identity opts then so_Flags opts else so_Flags opts OR FlagAdhoc) in
     [(0, put32 MagicDirectory), (4, put32 cdSize), (8, put32 vers), (12, put32 flags),
      (16, put32 (hashOffset opts header special)), (20, put32 header), (24, put32 special),
      (28, put32 nPages), (32, put32 (min len (2 ^ 32 - 1)))] @
     (if len > 2 ^ 32 - 1 then [(56, put64 len)] else []) @ [(36, [32]), (37, [2])] @
     (if so_PageSize opts \<noteq> 0 then [(39, [of_nat (trailingZeros (so_PageSize opts))])] else []) @
     (if header \<ge> 96 then [(80, put64 execFlags), (88, put32 (so_RuntimeVersion opts))] else []) @
     (if teamSize opts > 0 then [(48, put32 (header + length (so_Identifier opts) + 1))] else []))"

text \<open>The page digests, from page \<open>i\<close>; \<open>pageDigest\<close> reads a range of the content.\<close>

fun writePages :: "(nat \<Rightarrow> nat \<Rightarrow> byte list result) \<Rightarrow> nat \<Rightarrow> nat \<Rightarrow> nat \<Rightarrow> nat \<Rightarrow> nat \<Rightarrow> byte list \<Rightarrow> byte list result" where
  "writePages pageDigest pg len hashOff i 0 s = Inr s"
| "writePages pageDigest pg len hashOff i (Suc k) s =
    rbind (pageDigest (i * pg) (min pg (len - i * pg))) (\<lambda>h.
    case sectionWriteAt rangeBufferWriteAt 0 (int (length s)) s h (int hashOff + int i * 32) of
      (s, _, Some e) \<Rightarrow> Inl e | (s, _, None) \<Rightarrow> writePages pageDigest pg len hashOff (Suc i) k s)"

definition dmgDirectory ::
  "hash_lib \<Rightarrow> SignOptions \<Rightarrow> nat \<Rightarrow> nat \<Rightarrow> nat \<Rightarrow> (nat \<times> byte list) list \<Rightarrow> nat \<Rightarrow> nat \<Rightarrow> nat \<Rightarrow> (nat \<times> byte list) list
     \<Rightarrow> (nat \<Rightarrow> nat \<Rightarrow> byte list result) \<Rightarrow> byte list result" where
  "dmgDirectory H opts pg nPages len writes header hashOff cdSize specials pageDigest =
    rbind (writeAll writes (replicate header 0)) (\<lambda>cd.
    case writeDirectoryPrefix (sectionWriteAt rangeBufferWriteAt 0 (int cdSize)) (replicate cdSize 0) cd
           (so_Identifier opts) (so_teamID opts) of
      (s, Some e) \<Rightarrow> Inl e
    | (s, None) \<Rightarrow>
      rbind (writeDigests H hashOff specials s) (writePages pageDigest pg len hashOff 0 nPages))"

section \<open>Signing\<close>

definition signDMGTailSource ::
  "hash_lib \<Rightarrow> sign_tools \<Rightarrow> dmgImage \<Rightarrow> SignOptions \<Rightarrow> bool \<Rightarrow> (nat \<Rightarrow> nat \<Rightarrow> byte list result) \<Rightarrow> outputSource result" where
  "signDMGTailSource H tools m opts dryRun pageDigest =
    (if so_InfoPlist opts \<noteq> [] \<or> so_Resources opts \<noteq> [] then Inl (Unsupported ''external special-slot overrides for disk images'') else
     if (dg_signature m \<noteq> None \<or> dg_signed m) \<and> \<not> so_Force opts then Inl ErrSigned else
     if dryRun \<and> so_Identity opts then Inl (Unsupported ''certificate-signed DMG dry run'') else
     let len = ft_CodeSignatureOffset (dg_footer m) in
     rbind (dmgPages opts len) (\<lambda>(pg, nPages). rbind (dmgComponents tools opts) (\<lambda>(special, execFlags, blobs).
     let (header, vers) = dmgHeader opts len;
         hashOff = hashOffset opts header special;
         cdSize = hashOff + nPages * 32 in
     if cdSize > 2 ^ 32 - 1 then Inl (Unsupported ''disk image CodeDirectory exceeds 32-bit length'') else
     rbind (dmgDirectory H opts pg nPages len (dmgWrites opts header vers special execFlags nPages len cdSize) header hashOff cdSize
       (map (\<lambda>b. (Slot b, Data b)) blobs @ [(SlotRepSpecific, dmgTrailer (dmgLayout tools) m)]) pageDigest) (\<lambda>cd.
     rbind (if so_Identity opts then generateCMS tools (sectionOutput cd) else Inr []) (\<lambda>cms.
     rbind (superblobOutput MagicSignature
       ((if dryRun then [] else [\<lparr>secSlot = SlotDirectory, secData = sectionOutput cd\<rparr>]) @
        map (\<lambda>b. \<lparr>secSlot = Slot b, secData = byteOutput (Data b)\<rparr>)
          (blobs @ [\<lparr>Slot = SlotCMS, Magic = 0, Data = blob MagicCMS cms\<rparr>]))) (\<lambda>sig.
     rbind (append_plan emptyPlan sig) (\<lambda>plan.
     rbind (append_plan plan (byteOutput (dm_encode (dmgLayout tools) (signedFooter (dg_footer m) len (nat (srcSize sig)))))) (\<lambda>plan.
     Inr (planOutput plan)))))))))"

definition signDMGTail ::
  "hash_lib \<Rightarrow> sign_tools \<Rightarrow> dmgImage \<Rightarrow> SignOptions \<Rightarrow> bool \<Rightarrow> (nat \<Rightarrow> nat \<Rightarrow> byte list result) \<Rightarrow> byte list result" where
  "signDMGTail H tools m opts dryRun pageDigest = rbind (signDMGTailSource H tools m opts dryRun pageDigest) materializeOutput"

definition signDMG :: "hash_lib \<Rightarrow> sign_tools \<Rightarrow> byte list \<Rightarrow> SignOptions \<Rightarrow> bool \<Rightarrow> byte list result" where
  "signDMG H tools data opts dryRun =
    (if so_InfoPlist opts \<noteq> [] \<or> so_Resources opts \<noteq> [] then Inl (Unsupported ''external special-slot overrides for disk images'') else
     rbind (parseDMG H (dmgLayout tools) data) (\<lambda>m.
     rbind (signDMGTail H tools m opts dryRun (\<lambda>off n. rbind (slice_at (dg_content m) off n) (digestContext H 2))) (\<lambda>tail.
     if int (length (dg_content m)) > int maxFileSize - int (length tail) then Inl (Unsupported ''signed disk image exceeds memory limit'')
     else Inr (dg_content m @ tail))))"

section \<open>The byte operations\<close>

definition signBytes :: "hash_lib \<Rightarrow> sign_tools \<Rightarrow> SignOptions \<Rightarrow> byte list \<Rightarrow> bool \<Rightarrow> byte list result" where
  "signBytes H tools opts data dmgDryRun =
    rbind (prepareSigningOptions tools opts) (\<lambda>opts.
    rbind (isDMG (dm_size (dmgLayout tools)) data) (\<lambda>dmg.
    if dmg then signDMG H tools data opts dmgDryRun else
    rbind (parseContainer data) (\<lambda>c.
    rbind (mutateSource (Some (signImageSource H tools opts)) c (byteOutput data)) materializeOutput)))"

definition RemoveSignatureBytes :: "nat \<Rightarrow> byte list \<Rightarrow> byte list result" where
  "RemoveSignatureBytes footer data =
    rbind (isDMG footer data) (\<lambda>dmg.
    if dmg then Inl (Unsupported ''signature removal for disk images'') else
    rbind (parseContainer data) (\<lambda>c.
    rbind (mutateSource None c (byteOutput data)) materializeOutput))"

end
