(* ===== verification/MachO_Universal.thy ===== *)
theory MachO_Universal
  imports MachO_Rewrite
begin

text \<open>
  What assembleSources writes: every part at an offset aligned as its slice announces, and an
  index whose entries name exactly those offsets and sizes, so that the reader of the
  index (\<open>fatEntry\<close>) finds the parts again.
\<close>

section \<open>Layout\<close>

definition gap :: "nat \<Rightarrow> nat \<Rightarrow> nat" where
  "gap pos alignment = nat ((- int pos) mod 2 ^ alignment)"

fun layoutBody :: "nat \<Rightarrow> (byte list \<times> nat) list \<Rightarrow> byte list" where
  "layoutBody pos [] = []"
| "layoutBody pos ((b, al) # r) = replicate (gap pos al) 0 @ b @ layoutBody (pos + gap pos al + length b) r"

fun layoutOffsets :: "nat \<Rightarrow> (byte list \<times> nat) list \<Rightarrow> nat list" where
  "layoutOffsets pos [] = []"
| "layoutOffsets pos ((b, al) # r) = (pos + gap pos al) # layoutOffsets (pos + gap pos al + length b) r"

lemma gap_aligns: "2 ^ al dvd pos + gap pos al"
proof -
  have "int (pos + gap pos al) = int pos + (- int pos) mod 2 ^ al" by (simp add: gap_def)
  also have "2 ^ al dvd \<dots>" by (simp add: dvd_eq_mod_eq_0 mod_add_right_eq)
  finally have "int (2 ^ al) dvd int (pos + gap pos al)" by simp
  then show ?thesis by (simp only: int_dvd_int_iff)
qed

lemma gap_int: "int (gap pos al) = (- int pos) mod 2 ^ al"
  by (simp add: gap_def)

lemma length_layoutOffsets [simp]: "length (layoutOffsets pos ps) = length ps"
  by (induction pos ps rule: layoutOffsets.induct) auto

lemma layoutOffsets_le: "i < length ps \<Longrightarrow>
  pos \<le> layoutOffsets pos ps ! i \<and> layoutOffsets pos ps ! i + length (fst (ps ! i)) \<le> pos + length (layoutBody pos ps)"
proof (induction pos ps arbitrary: i rule: layoutOffsets.induct)
  case (2 pos b al r)
  then show ?case by (cases i) (fastforce)+
qed simp

text \<open>Each part is found at its offset, aligned.\<close>

lemma layout_part:
  "i < length ps \<Longrightarrow>
   slice (layoutBody pos ps) (layoutOffsets pos ps ! i - pos) (length (fst (ps ! i))) = fst (ps ! i) \<and>
   2 ^ snd (ps ! i) dvd layoutOffsets pos ps ! i"
proof (induction pos ps arbitrary: i rule: layoutOffsets.induct)
  case (2 pos b al r)
  show ?case
  proof (cases i)
    case 0
    have "slice (replicate (gap pos al) 0 @ b @ ys) (gap pos al) (length b) = b" for ys
      by (simp add: slice_def)
    with 0 show ?thesis by (simp add: gap_aligns)
  next
    case (Suc j)
    let ?p = "pos + gap pos al + length b"
    have j: "j < length r" using 2 Suc by simp
    have le: "?p \<le> layoutOffsets ?p r ! j" using layoutOffsets_le [OF j] by blast
    then have "layoutOffsets ?p r ! j - pos = gap pos al + length b + (layoutOffsets ?p r ! j - ?p)" by linarith
    then show ?thesis
      using 2(1) [of j] j Suc by (simp add: slice_append2)
  qed
qed simp

section \<open>The index\<close>

definition fatEntryLen :: "bool \<Rightarrow> nat" where
  "fatEntryLen wide = (if wide then 32 else 20)"

text \<open>What one entry has to read back as, under a header \<open>h0\<close> with the architecture fields.\<close>

definition entryOK :: "bool \<Rightarrow> byte_order \<Rightarrow> byte list \<Rightarrow> byte list \<Rightarrow> nat \<Rightarrow> nat \<Rightarrow> nat \<Rightarrow> nat \<Rightarrow> bool" where
  "entryOK wide ord h0 h i off n alignment \<longleftrightarrow>
     (let at = 8 + i * fatEntryLen wide in
      fatEntry ord wide h at =
        Inr (ord_nat ord (slice h0 at 4), ord_nat ord (slice h0 (at + 4) 4), off, n, alignment))"

text \<open>indexFields changes only the entry's offset, size and alignment.\<close>

lemma indexFields_ok:
  assumes "8 + (i + 1) * fatEntryLen wide \<le> length h" "off < 2 ^ (if wide then 64 else 32)"
    "n < 2 ^ (if wide then 64 else 32)" "al < 2 ^ 32"
  obtains h' where "indexFields wide ord (8 + i * fatEntryLen wide) off n al h = Inr h'" "length h' = length h"
    "entryOK wide ord h h' i off n al"
    "\<And>at m. at + m \<le> 8 + i * fatEntryLen wide + 8 \<Longrightarrow> slice h' at m = slice h at m"
    "\<And>at m. 8 + (i + 1) * fatEntryLen wide \<le> at \<Longrightarrow> slice h' at m = slice h at m"
proof -
  define at where "at = 8 + i * fatEntryLen wide"
  define k :: nat where "k = (if wide then 8 else 4)"
  let ?h = "overwrite (at + 8 + 2 * k) (ord_put ord 4 al)
      (overwrite (at + 8 + k) (ord_put ord k n) (overwrite (at + 8) (ord_put ord k off) h))"
  have fit: "at + 8 + 2 * k + 4 \<le> length h"
    using assms(1) by (auto simp: at_def k_def fatEntryLen_def)
  have idx: "indexFields wide ord at off n al h = Inr ?h"
    using fit by (simp add: indexFields_def k_def [symmetric] Let_def)
  have len: "length ?h = length h" using fit by simp
  have below: "slice ?h p m = slice h p m" if "p + m \<le> at + 8" for p m
    using that fit by (simp add: slice_overwrite_before)
  have above: "slice ?h p m = slice h p m" if "at + fatEntryLen wide \<le> p" for p m
  proof -
    have "at + 8 + 2 * k + 4 \<le> p" using that by (auto simp: fatEntryLen_def k_def)
    with fit show ?thesis by (simp add: slice_overwrite_after)
  qed
  have f1: "slice ?h (at + 8) k = ord_put ord k off"
    using fit slice_overwrite_same [of "at + 8" "ord_put ord k off" h] by (simp add: slice_overwrite_before)
  have f2: "slice ?h (at + 8 + k) k = ord_put ord k n"
    using fit slice_overwrite_same [of "at + 8 + k" "ord_put ord k n" "overwrite (at + 8) (ord_put ord k off) h"]
    by (simp add: slice_overwrite_before)
  have f3: "slice ?h (at + 8 + 2 * k) 4 = ord_put ord 4 al"
    using fit slice_overwrite_same [of "at + 8 + 2 * k" "ord_put ord 4 al"
        "overwrite (at + 8 + k) (ord_put ord k n) (overwrite (at + 8) (ord_put ord k off) h)"] by simp
  have vals: "ord_nat ord (ord_put ord k off) = off" "ord_nat ord (ord_put ord k n) = n" "ord_nat ord (ord_put ord 4 al) = al"
    using assms(2-4) by (auto simp: ord_nat_ord_put k_def)
  have "entryOK wide ord h ?h i off n al"
    unfolding entryOK_def Let_def at_def [symmetric] fatEntry_def
    using fit len below [of at 4] below [of "at + 4" 4] f1 f2 f3 vals
    by (cases wide) (simp_all add: k_def add.assoc)
  with idx len below above show thesis
    by (intro that [of ?h]) (auto simp: at_def)
qed

lemma fatEntry_cong:
  assumes "length h' = length h" "\<And>p m. at \<le> p \<Longrightarrow> p + m \<le> at + fatEntryLen wide \<Longrightarrow> slice h' p m = slice h p m"
  shows "fatEntry ord wide h' at = fatEntry ord wide h at"
proof -
  have "ord_rd32 ord h' p = ord_rd32 ord h p" if "at \<le> p" "p + 4 \<le> at + fatEntryLen wide" for p
    using that assms by (simp add: ord_rd32_def)
  moreover have "ord_rd64 ord h' p = ord_rd64 ord h p" if "at \<le> p" "p + 8 \<le> at + fatEntryLen wide" for p
    using that assms by (simp add: ord_rd64_def)
  ultimately show ?thesis by (simp add: fatEntry_def fatEntryLen_def)
qed

lemma assembleLoop_ok:
  fixes wide :: bool
  defines "cap \<equiv> (if wide then MaxInt64 else 2 ^ 32 - 1)"
  shows "list_all2 (\<lambda>(src, al) (b, al'). al = al' \<and> delivers src b) parts ps \<Longrightarrow> headed n xs p \<Longrightarrow>
    8 + (i + length ps) * fatEntryLen wide \<le> length header \<Longrightarrow> \<forall>(b, al) \<in> set ps. al < 2 ^ 32 \<Longrightarrow>
    int (n + length xs + length (layoutBody (n + length xs) ps)) \<le> cap \<Longrightarrow>
    \<exists>p' h'. assembleLoop wide ord i parts p header = Inr (p', h') \<and> headed n (xs @ layoutBody (n + length xs) ps) p' \<and>
      length h' = length header \<and>
      (\<forall>j < length ps. entryOK wide ord header h' (i + j) (layoutOffsets (n + length xs) ps ! j)
         (length (fst (ps ! j))) (snd (ps ! j))) \<and>
      (\<forall>at m. at + m \<le> 8 + i * fatEntryLen wide \<longrightarrow> slice h' at m = slice header at m)"
proof (induction ps arbitrary: parts xs p i header)
  case (Cons q ps)
  obtain b al where q: "q = (b, al)" by (cases q)
  with Cons.prems(1) obtain part parts' where parts: "parts = (part, al) # parts'" "delivers part b"
      "list_all2 (\<lambda>(src, al) (b, al'). al = al' \<and> delivers src b) parts' ps"
    by (auto simp: list_all2_Cons2)
  let ?pos = "n + length xs" and ?g = "gap (n + length xs) al" and ?e = "fatEntryLen wide"
  let ?xs = "xs @ replicate ?g 0 @ b"
  have cap: "cap \<le> MaxInt64" by (simp add: cap_def MaxInt64_def)
  have fit: "int (?pos + ?g + length b) \<le> cap" using Cons.prems(5) q by simp
  have size: "planSize p = int ?pos" using Cons.prems(2) by (auto simp: headed_def)
  have al: "al < 2 ^ 32" using Cons.prems(4) q by auto
  have z: "delivers \<lparr>reader = Some zeroReadAt, offset = 0, srcSize = (- planSize p) mod 2 ^ al\<rparr> (replicate ?g 0)"
    using zero_delivers [of ?g] fit cap gap_int [of ?pos al] by (simp add: size)
  from headed_append [OF Cons.prems(2) z] fit cap obtain p1 where
      p1: "append_plan p \<lparr>reader = Some zeroReadAt, offset = 0, srcSize = (- planSize p) mod 2 ^ al\<rparr> = Inr p1"
        "headed n (xs @ replicate ?g 0) p1"
    by auto
  from headed_append [OF p1(2) parts(2)] fit cap obtain p2 where
      p2: "append_plan p1 part = Inr p2" "headed n ?xs p2"
    by auto
  have sizes: "planSize p1 = int (?pos + ?g)" "planSize p2 = int (?pos + ?g + length b)" "srcSize part = int (length b)"
    using p1(2) p2(2) delivers_range [OF parts(2)] by (auto simp: headed_def)
  have room: "8 + (i + 1) * ?e \<le> length header"
    using Cons.prems(3) by (simp add: algebra_simps)
  have vals: "?pos + ?g < 2 ^ (if wide then 64 else 32)" "length b < 2 ^ (if wide then 64 else 32)"
    using fit by (auto simp: cap_def MaxInt64_def)
  obtain h1 where h1: "indexFields wide ord (8 + i * ?e) (?pos + ?g) (length b) al header = Inr h1" "length h1 = length header"
      "entryOK wide ord header h1 i (?pos + ?g) (length b) al"
      "\<And>at m. at + m \<le> 8 + i * ?e + 8 \<Longrightarrow> slice h1 at m = slice header at m"
      "\<And>at m. 8 + (i + 1) * ?e \<le> at \<Longrightarrow> slice h1 at m = slice header at m"
    using indexFields_ok [OF room vals al] by blast
  have nums: "nat (planSize p1) = ?pos + ?g" "nat (srcSize part) = length b" "\<not> (\<not> wide \<and> planSize p2 > 2 ^ 32 - 1)"
    using fit by (auto simp: sizes cap_def nat_int_add)
  have step: "assembleLoop wide ord i parts p header = assembleLoop wide ord (Suc i) parts' p2 h1"
    unfolding parts(1) assembleLoop.simps p1(1) rbind_Inr Let_def p2(1) if_not_P [OF nums(3)] nums(1,2)
      h1(1) [unfolded fatEntryLen_def] ..
  have eqs: "n + length ?xs = ?pos + ?g + length b" "xs @ layoutBody ?pos (q # ps) = ?xs @ layoutBody (n + length ?xs) ps"
    by (simp_all add: q add.assoc)
  have "8 + (Suc i + length ps) * ?e \<le> length h1" using Cons.prems(3) h1(2) by simp
  moreover have "int (n + length ?xs + length (layoutBody (n + length ?xs) ps)) \<le> cap"
    using Cons.prems(5) q unfolding eqs(1) by (simp add: add.assoc)
  moreover have "\<forall>(b, al) \<in> set ps. al < 2 ^ 32" using Cons.prems(4) by simp
  ultimately obtain p' h' where rest: "assembleLoop wide ord (Suc i) parts' p2 h1 = Inr (p', h')"
      "headed n (?xs @ layoutBody (n + length ?xs) ps) p'" "length h' = length h1"
      "\<And>j. j < length ps \<Longrightarrow> entryOK wide ord h1 h' (Suc i + j) (layoutOffsets (n + length ?xs) ps ! j)
         (length (fst (ps ! j))) (snd (ps ! j))"
      "\<And>at m. at + m \<le> 8 + Suc i * ?e \<Longrightarrow> slice h' at m = slice h1 at m"
    using Cons.IH [OF parts(3) p2(2), of "Suc i" h1] by blast
  have entry: "entryOK wide ord header h' (i + j) (layoutOffsets ?pos (q # ps) ! j)
      (length (fst ((q # ps) ! j))) (snd ((q # ps) ! j))" if "j < length (q # ps)" for j
  proof (cases j)
    case 0
    have "fatEntry ord wide h' (8 + i * ?e) = fatEntry ord wide h1 (8 + i * ?e)"
      using rest(3,5) by (intro fatEntry_cong) auto
    with h1(3) 0 show ?thesis by (simp add: entryOK_def q)
  next
    case (Suc k)
    define at where "at = 8 + (Suc i + k) * ?e"
    have "8 + (i + 1) * ?e \<le> at" by (simp add: at_def)
    then have "slice h1 at 4 = slice header at 4" "slice h1 (at + 4) 4 = slice header (at + 4) 4"
      by (simp_all add: h1(5))
    moreover have ij: "i + j = Suc i + k" using Suc by simp
    moreover have "(q # ps) ! j = ps ! k"
        "layoutOffsets ?pos (q # ps) ! j = layoutOffsets (n + length ?xs) ps ! k" "k < length ps"
      using Suc that unfolding eqs(1) by (simp_all add: q)
    ultimately show ?thesis
      using rest(4) [of k] unfolding ij entryOK_def Let_def at_def [symmetric] by simp
  qed
  have before: "slice h' at m = slice header at m" if "at + m \<le> 8 + i * ?e" for at m
    using that rest(5) [of at m] h1(4) [of at m] by simp
  have "assembleLoop wide ord i parts p header = Inr (p', h')" using step rest(1) by simp
  with rest(2,3) h1(2) eqs(2) entry before show ?case
    by (intro exI [of _ p'] exI [of _ h']) simp
qed simp

definition partsOf :: "(outputSource \<times> nat) list \<Rightarrow> (byte list \<times> nat) list \<Rightarrow> bool" where
  "partsOf parts ps \<longleftrightarrow> list_all2 (\<lambda>(src, al) (b, al'). al = al' \<and> delivers src b) parts ps"

lemma assembleSources_content:
  assumes fat: "co_fat c" and parts: "partsOf parts ps"
    and hdr: "8 + length ps * fatEntryLen (co_fat64 c) \<le> length (co_data c)" "\<forall>(b, al) \<in> set ps. al < 2 ^ 32"
    and cap: "int (8 + length ps * fatEntryLen (co_fat64 c) + length (layoutBody (8 + length ps * fatEntryLen (co_fat64 c)) ps))
      \<le> (if co_fat64 c then MaxInt64 else 2 ^ 32 - 1)"
  shows "\<exists>out header. assembleSources c parts = Inr out \<and>
    delivers out (header @ layoutBody (8 + length ps * fatEntryLen (co_fat64 c)) ps) \<and>
    length header = 8 + length ps * fatEntryLen (co_fat64 c) \<and> take 8 header = take 8 (co_data c) \<and>
    (\<forall>j < length ps. entryOK (co_fat64 c) (co_order c) (co_data c) header j
       (layoutOffsets (8 + length ps * fatEntryLen (co_fat64 c)) ps ! j) (length (fst (ps ! j))) (snd (ps ! j)))"
proof -
  let ?n = "8 + length ps * fatEntryLen (co_fat64 c)"
  define h0 where "h0 = slice (co_data c) 0 ?n"
  have h0: "length h0 = ?n" using hdr(1) by (simp add: h0_def)
  have len: "length parts = length ps" using parts by (auto simp: partsOf_def dest: list_all2_lengthD)
  have max: "int ?n \<le> MaxInt64" using cap by (auto simp: MaxInt64_def split: if_split_asm)
  have "0 < length h0" "int (length h0) \<le> MaxInt64" using h0 max by simp_all
  from headed_start [OF this] obtain p0 where p0: "append_plan emptyPlan (byteOutput h0) = Inr p0" "headed ?n [] p0"
    unfolding h0 by blast
  from assembleLoop_ok [of parts ps ?n "[]" p0 0 "co_fat64 c" h0 "co_order c"] parts p0(2) h0 hdr(2) cap
  obtain p' h' where loop: "assembleLoop (co_fat64 c) (co_order c) 0 parts p0 h0 = Inr (p', h')"
      "headed ?n (layoutBody ?n ps) p'" "length h' = ?n"
      "\<And>j. j < length ps \<Longrightarrow> entryOK (co_fat64 c) (co_order c) h0 h' j (layoutOffsets ?n ps ! j)
         (length (fst (ps ! j))) (snd (ps ! j))"
      "\<And>at m. at + m \<le> 8 \<Longrightarrow> slice h' at m = slice h0 at m"
    unfolding partsOf_def by auto
  have "assembleSources c parts = Inr (planOutput (aliasHeader h' p'))"
    using fat len hdr(1) p0(1) loop(1) by (simp add: assembleSources_def fatEntryLen_def h0_def split: if_split_asm)
  moreover have "delivers (planOutput (aliasHeader h' p')) (h' @ layoutBody ?n ps)"
    using loop(2,3) by (intro plan_delivers headed_alias [of ?n]) simp_all
  moreover have "take 8 h' = take 8 (co_data c)"
    using loop(5) [of 0 8] by (simp add: h0_def slice_def min_absorb1)
  moreover have "entryOK (co_fat64 c) (co_order c) (co_data c) h' j (layoutOffsets ?n ps ! j)
         (length (fst (ps ! j))) (snd (ps ! j))" if j: "j < length ps" for j
  proof -
    have "8 + (j + 1) * fatEntryLen (co_fat64 c) \<le> ?n"
      using j by (intro add_left_mono mult_le_mono1) simp
    then have "8 + j * fatEntryLen (co_fat64 c) + 8 \<le> ?n" by (simp add: fatEntryLen_def split: if_split_asm)
    with loop(4) [OF j] show ?thesis by (simp add: entryOK_def h0_def slice_slice Let_def)
  qed
  ultimately show ?thesis using loop(3) by blast
qed

section \<open>Properties\<close>

text \<open>
  The signature command goes in without disturbing anything else: for an accepted image
  with room for it, signingCommandOutput succeeds and delivers the original bytes, zero
  extended to the new size, with exactly the header counts, the signature command and the
  LINKEDIT size fields replaced, whichever order the commands have.
\<close>

lemma signingCommandOutput_delivers:
  assumes "delivers src xs" "image_wf (length xs) im" "im_linkedit im \<ge> 0"
    "signatureAt im + 16 \<le> fin" "commandsEnd im \<le> fin" "int fin \<le> MaxInt64"
    "im_sigCommand im < 0 \<Longrightarrow> commandsEnd im + 16 \<le> im_firstSection im \<and>
      commandsEnd im + 16 \<le> length xs \<and> slice xs (commandsEnd im) 16 = replicate 16 0"
  shows "\<exists>out. signingCommandOutput im src codeEnd sigSize fin = Inr out \<and>
    delivers out (patchedBytes xs fin (sort_key fst (signedPatches im xs codeEnd sigSize fin)))"
  using assms by (rule signingCommandOutput_content)

text \<open>
  A 32-bit image with one LINKEDIT segment command (56 bytes, no sections) at 28, and room for
  the signature command.
\<close>

definition linkImage :: image where
  "linkImage = (newImage 128)\<lparr>im_commandCount := 1, im_commandBytes := 56, im_linkedit := 28, im_linkeditKind := 1,
     im_linkStart := 128\<rparr>"

lemma linkImage_wf: "image_wf 128 linkImage"
  by (simp add: image_wf_def image_inv_def linkImage_def newImage_def linkeditLen_def Let_def)

lemma removalEnd_value:
  assumes "removalEnd im = Inr fin"
  defines "tbl \<equiv> im_symbols im"
  shows "fin = (let strings = sy_strings tbl + sy_stringSize tbl in
      if sy_present tbl \<and> strings < im_sigOffset im \<and> im_sigOffset im \<le> strings + 12 then strings else im_sigOffset im)"
    "im_linkStart im \<le> fin"
    "sy_present tbl \<Longrightarrow> sy_strings tbl + sy_stringSize tbl \<le> fin \<and>
       sy_symbols tbl + sy_count tbl * (if im_header im = 32 then 16 else 12) \<le> fin"
  using assms unfolding removalEnd_def
  by (auto simp: Let_def guard_eq_Inr rbind_eq_Inr rangeOK_iff not_less split: if_split_asm)

text \<open>
  C18. Removal takes out the signature command, the signature and at most twelve bytes of
  alignment padding: what it delivers is the header with the counts reduced, the commands
  before and after the signature command moved together, sixteen zero bytes in the gap, the rest
  unchanged up to the end, and LINKEDIT's file size ending there. The end is the end of the
  symbol strings when these end within twelve bytes before the signature, and the signature's
  offset otherwise; it is not before the commands or LINKEDIT's start, and no symbol or string
  of the symbol table lies behind it.
\<close>

theorem removeImageSource_delivers:
  assumes "delivers src xs" "image_wf (length xs) im" "im_sigCommand im \<ge> 0" "removeImageSource im src = Inr out"
  shows "\<exists>fin. fin = (let strings = sy_strings (im_symbols im) + sy_stringSize (im_symbols im) in
        if sy_present (im_symbols im) \<and> strings < im_sigOffset im \<and> im_sigOffset im \<le> strings + 12 then strings else im_sigOffset im) \<and>
    removalEnd im = Inr fin \<and> commandsEnd im \<le> fin \<and> im_linkStart im \<le> fin \<and>
    (sy_present (im_symbols im) \<longrightarrow> sy_strings (im_symbols im) + sy_stringSize (im_symbols im) \<le> fin \<and>
       sy_symbols (im_symbols im) + sy_count (im_symbols im) * (if im_header im = 32 then 16 else 12) \<le> fin) \<and>
    delivers out (overwrite (fst (linkeditShrunk im fin)) (snd (linkeditShrunk im fin)) (strippedBytes im fin xs))"
proof -
  from removeImageSource_content [OF assms] obtain fin where fin: "removalEnd im = Inr fin" "commandsEnd im \<le> fin"
      "delivers out (overwrite (fst (linkeditShrunk im fin)) (snd (linkeditShrunk im fin)) (strippedBytes im fin xs))"
    by blast
  with removalEnd_value [OF fin(1)] show ?thesis by (simp add: Let_def)
qed

definition signedImage :: image where
  "signedImage = (newImage 192)\<lparr>im_filetype := 2, im_commandCount := 2, im_commandBytes := 72, im_linkedit := 28,
     im_linkeditKind := 1, im_linkStart := 100, im_sigCommand := 84, im_sigOffset := 128, im_sigSize := 64\<rparr>"

lemma signedImage_removes:
  "image_wf 192 signedImage" "\<exists>out. removeImageSource signedImage (byteOutput (replicate 192 0)) = Inr out"
proof -
  show "image_wf 192 signedImage"
    by (simp add: image_wf_def image_inv_def signedImage_def newImage_def linkeditLen_def Let_def)
  have "case removeImageSource signedImage (byteOutput (replicate 192 0)) of Inr _ \<Rightarrow> True | Inl _ \<Rightarrow> False"
    by code_simp
  then show "\<exists>out. removeImageSource signedImage (byteOutput (replicate 192 0)) = Inr out"
    by (auto split: sum.split_asm)
qed

theorem removeImageSource_delivers_witness:
  "\<exists>out. removeImageSource signedImage (byteOutput (replicate 192 0)) = Inr out \<and>
     delivers out (overwrite 64 (ord_put BigEndian 4 28) (strippedBytes signedImage 128 (replicate 192 0)))"
proof -
  obtain out where out: "removeImageSource signedImage (byteOutput (replicate 192 0)) = Inr out"
    using signedImage_removes(2) by blast
  have fin: "removalEnd signedImage = Inr 128" "linkeditShrunk signedImage 128 = (64, ord_put BigEndian 4 28)"
      "im_sigCommand signedImage \<ge> 0"
    by (simp_all add: removalEnd_def linkeditShrunk_def signedImage_def newImage_def)
  have "delivers (byteOutput (replicate 192 0)) (replicate 192 0)"
    by (rule byteOutput_delivers) (simp add: MaxInt64_def)
  from removeImageSource_delivers [OF this _ fin(3) out] signedImage_removes(1) fin(1,2) out show ?thesis
    by auto
qed

text \<open>
  C19. A rewritten universal file is one the parser reads back: every part lies at an offset
  with its announced alignment, byte for byte, after an index of which entry j decodes to
  the original architecture and exactly part j's offset, size and alignment.
\<close>

theorem assembleSources_layout:
  assumes "co_fat c" "partsOf parts ps"
    "8 + length ps * fatEntryLen (co_fat64 c) \<le> length (co_data c)" "\<forall>(b, al) \<in> set ps. al < 2 ^ 32"
    "int (8 + length ps * fatEntryLen (co_fat64 c) + length (layoutBody (8 + length ps * fatEntryLen (co_fat64 c)) ps))
      \<le> (if co_fat64 c then MaxInt64 else 2 ^ 32 - 1)"
  defines "n \<equiv> 8 + length ps * fatEntryLen (co_fat64 c)"
  shows "\<exists>out header. assembleSources c parts = Inr out \<and> delivers out (header @ layoutBody n ps) \<and> length header = n \<and>
    (\<forall>j < length ps. let at = layoutOffsets n ps ! j; (b, al) = ps ! j in
       slice (header @ layoutBody n ps) at (length b) = b \<and> 2 ^ al dvd at \<and>
       entryOK (co_fat64 c) (co_order c) (co_data c) header j at (length b) al)"
proof -
  from assembleSources_content [OF assms(1-5)] obtain out header where
      out: "assembleSources c parts = Inr out" "delivers out (header @ layoutBody n ps)" "length header = n"
      "\<forall>j < length ps. entryOK (co_fat64 c) (co_order c) (co_data c) header j
         (layoutOffsets n ps ! j) (length (fst (ps ! j))) (snd (ps ! j))"
    unfolding n_def by blast
  have "slice (header @ layoutBody n ps) (layoutOffsets n ps ! j) (length (fst (ps ! j))) = fst (ps ! j) \<and>
      2 ^ snd (ps ! j) dvd layoutOffsets n ps ! j" if "j < length ps" for j
    using layout_part [OF that, of n] layoutOffsets_le [OF that, of n] out(3) by (simp add: slice_append2)
  with out show ?thesis by (auto simp: case_prod_unfold Let_def)
qed

theorem assembleSources_layout_witness:
  "\<exists>out header. assembleSources \<lparr>co_data = replicate 28 0, co_fat = True, co_fat64 = False, co_order = BigEndian, co_slices = []\<rparr>
     [(byteOutput [1, 2, 3], 5)] = Inr out \<and> delivers out (header @ replicate 4 0 @ [1, 2, 3])"
proof -
  have "delivers (byteOutput [1, 2, 3]) [1, 2, 3]" by (rule byteOutput_delivers) (simp add: MaxInt64_def)
  then have parts: "partsOf [(byteOutput [1, 2, 3], 5)] [([1, 2, 3], 5)]" by (simp add: partsOf_def)
  have g: "gap 28 5 = 4" by (simp add: gap_def)
  let ?c = "\<lparr>co_data = replicate 28 0, co_fat = True, co_fat64 = False, co_order = BigEndian, co_slices = []\<rparr>"
  have "\<exists>out header. assembleSources ?c [(byteOutput [1, 2, 3], 5)] = Inr out \<and>
      delivers out (header @ layoutBody (8 + length [([1, 2, 3 :: byte], 5 :: nat)] * fatEntryLen (co_fat64 ?c)) [([1, 2, 3], 5)])"
    using assembleSources_layout [OF _ parts, of ?c] by (auto simp: fatEntryLen_def g)
  then show ?thesis by (simp add: fatEntryLen_def g)
qed

end
