(* ===== verification/Signed_Images.thy ===== *)
theory Signed_Images
  imports DMG_Signing MachO_Universal
begin

text \<open>
  What an ad-hoc signing produces (sign.go, signImageSource and signBytes): the parameters of
  an accepted run, the shape of the signed image and when signing succeeds.
\<close>

section \<open>What a signed image is\<close>

lemma signPage_ok:
  assumes "signPage opts im = Inr pg" shows "0 < pg" "pg = 2 ^ trailingZeros pg" "trailingZeros pg \<le> 30"
proof -
  from assms have pg: "\<not> (pg < 1 \<or> pg AND (pg - 1) \<noteq> 0 \<or> pg > 2 ^ 30)"
    by (auto simp: signPage_def Let_def guard_eq_Inr)
  then show "0 < pg" "pg = 2 ^ trailingZeros pg" using and_pred_zero [of pg] by auto
  then have "(2 :: nat) ^ trailingZeros pg \<le> 2 ^ 30" using pg by simp
  then show "trailingZeros pg \<le> 30" by (rule power_le_imp_le_exp [rotated]) simp
qed

lemma signCodeEnd_ok:
  assumes "signCodeEnd im src = Inr codeEnd" "image_wf (length xs) im" "delivers src xs"
  shows "length xs < 2 ^ 32" "commandsEnd im \<le> codeEnd" "im_sigCommand im < 0 \<Longrightarrow> length xs \<le> codeEnd"
proof -
  have size: "srcSize src = int (length xs)" using assms(3) delivers_range by blast
  from assms(1) size obtain e where e: "e = (if im_sigCommand im \<ge> 0 then int (im_sigOffset im) else int (length xs))"
      "length xs < 2 ^ 32" "codeEnd = (nat e + 15) div 16 * 16"
    unfolding signCodeEnd_def by (auto simp: guard_eq_Inr rbind_eq_Inr split: if_split_asm)
  show "length xs < 2 ^ 32" by (rule e(2))
  have "nat e \<le> codeEnd" unfolding e(3) by linarith
  moreover have "im_sigCommand im \<ge> 0 \<Longrightarrow> commandsEnd im \<le> im_sigOffset im"
    using assms(2) by (auto simp: image_wf_def image_inv_def commandsEnd_def Let_def)
  ultimately show "commandsEnd im \<le> codeEnd" "im_sigCommand im < 0 \<Longrightarrow> length xs \<le> codeEnd"
    using e(1) image_wf_bounds(3) [OF assms(2)] by (auto split: if_split_asm)
qed

lemma signingCommandOutput_inv:
  assumes "signingCommandOutput im src codeEnd sigSize fin = Inr out" "delivers src xs" "im_sigCommand im < 0"
    "commandsEnd im \<le> length xs"
  shows "commandsEnd im + 16 \<le> im_firstSection im \<and> commandsEnd im + 16 \<le> length xs \<and>
    slice xs (commandsEnd im) 16 = replicate 16 0"
proof -
  have size: "srcSize src = int (length xs)" using assms(2) delivers_range by blast
  from assms(1,3) size obtain header r where "commandsEnd im + 16 \<le> length xs" "commandPlace im src header = Inr r"
    by (auto simp: signingCommandOutput_def guard_eq_Inr rbind_eq_Inr)
  moreover from this(1) have "codeRead src (commandsEnd im) 16 = Inr (slice xs (commandsEnd im) 16)"
    by (intro codeRead_content [OF assms(2)]) (simp_all add: maxFileSize_def)
  ultimately show ?thesis
    using assms(3) by (auto simp: commandPlace_def guard_eq_Inr)
qed

lemma patchedOutput_offset: "patchedOutput base sz patches = Inr out \<Longrightarrow> offset out = 0"
  by (auto simp: patchedOutput_def guard_eq_Inr rbind_eq_Inr planOutput_def)

text \<open>The patched image: its bytes, its size and the range that is hashed.\<close>

lemma signed_commands:
  assumes cmd: "signingCommandOutput im src codeEnd sigSize fin = Inr patched" and src: "delivers src xs"
    and wf: "image_wf (length xs) im" and link: "im_linkedit im \<ge> 0" and cend: "signCodeEnd im src = Inr codeEnd"
    and fin: "fin = codeEnd + sigSize" "fin \<le> 2 ^ 32 - 1" "16 \<le> sigSize"
  defines "ps \<equiv> patchedBytes xs fin (sort_key fst (signedPatches im xs codeEnd sigSize fin))"
  shows "delivers patched ps" "length ps = fin" "delivers \<lparr>reader = reader patched, offset = 0, srcSize = int codeEnd\<rparr> (take codeEnd ps)"
proof -
  note e = signCodeEnd_ok [OF cend wf src]
  have room: "im_sigCommand im < 0 \<Longrightarrow> commandsEnd im + 16 \<le> im_firstSection im \<and>
      commandsEnd im + 16 \<le> length xs \<and> slice xs (commandsEnd im) 16 = replicate 16 0"
    using signingCommandOutput_inv [OF cmd src] image_wf_bounds(3) [OF wf] by blast
  have at: "signatureAt im + 16 \<le> fin" "commandsEnd im \<le> fin"
    using e(2) fin image_wf_bounds(4) [OF wf] by (auto simp: signatureAt_def)
  have "int fin \<le> MaxInt64" using fin(2) by (simp add: MaxInt64_def)
  from signingCommandOutput_content [OF src wf link at this room, of codeEnd sigSize] cmd
  show del: "delivers patched ps" by (auto simp: ps_def)
  show len: "length ps = fin" by (simp add: ps_def patchedBytes_def)
  have "offset patched = 0" using cmd by (auto simp: signingCommandOutput_def guard_eq_Inr rbind_eq_Inr dest!: patchedOutput_offset)
  then show "delivers \<lparr>reader = reader patched, offset = 0, srcSize = int codeEnd\<rparr> (take codeEnd ps)"
    using delivers_sub [OF del, of 0 codeEnd] len fin(1) by (simp add: slice_def)
qed

lemma signComponents_ok:
  assumes "signComponents tools opts im = Inr (special, execFlags, comps)"
    "so_Requirements opts = [] \<or> 8 \<le> length (so_Requirements opts)"
  shows "distinct (0 # map Slot comps)" "\<forall>b \<in> set comps. 8 \<le> length (Data b)"
    "distinct (map fst (specialData opts comps))" "\<forall>(slot, data) \<in> set (specialData opts comps). 1 \<le> slot \<and> slot \<le> special"
    "\<forall>(slot, data) \<in> set (specialData opts comps).
       (\<exists>b \<in> set comps. data = Data b) \<or> data = so_InfoPlist opts \<or> data = so_Resources opts"
proof -
  have blobs8: "8 \<le> length (blob magic payload)" "8 \<le> length (superblob magic bs)" for magic payload bs
    by (simp_all add: blob_def superblob_def Let_def)
  have "comps = [\<lparr>Slot = SlotRequirements, Magic = 0, Data = if so_Requirements opts = [] then superblob MagicRequirements [] else so_Requirements opts\<rparr>,
        \<lparr>Slot = SlotCMS, Magic = 0, Data = blob MagicCMS []\<rparr>] \<and> special = (if so_Resources opts \<noteq> [] then 3 else 2) \<or>
      (\<exists>xml der. comps = [\<lparr>Slot = SlotRequirements, Magic = 0, Data = if so_Requirements opts = [] then superblob MagicRequirements [] else so_Requirements opts\<rparr>,
        \<lparr>Slot = SlotCMS, Magic = 0, Data = blob MagicCMS []\<rparr>, \<lparr>Slot = SlotEntitlements, Magic = 0, Data = blob MagicEntitlements xml\<rparr>,
        \<lparr>Slot = SlotDEREntitlements, Magic = 0, Data = blob MagicDEREntitlements der\<rparr>] \<and> special = 7)"
    using assms(1) by (auto simp: signComponents_def Let_def rbind_eq_Inr split: if_split_asm)
  then show "distinct (0 # map Slot comps)" "\<forall>b \<in> set comps. 8 \<le> length (Data b)"
    "distinct (map fst (specialData opts comps))" "\<forall>(slot, data) \<in> set (specialData opts comps). 1 \<le> slot \<and> slot \<le> special"
    "\<forall>(slot, data) \<in> set (specialData opts comps).
       (\<exists>b \<in> set comps. data = Data b) \<or> data = so_InfoPlist opts \<or> data = so_Resources opts"
    using assms(2) blobs8 by (auto simp: slot_defs specialData_def)
qed

lemma signHeader_ok:
  assumes "signHeader opts im = (header, vers, runtime)"
  shows "headerVersion header vers" "teamSize opts > 0 \<Longrightarrow> 52 \<le> header"
  using assms by (auto simp: signHeader_def headerVersion_def teamSize_def Let_def split: if_split_asm)

lemma signatureSize_ge:
  "superblobLength (\<lparr>Slot = s, Magic = m, Data = cd\<rparr> # comps) \<le> signatureSize opts header (length cd) comps"
proof -
  have "n \<le> (n + k + 15) div 16 * 16" for n k :: nat by linarith
  from this [of "12 + (length comps + 1) * 8 + length cd + sum_list (map (\<lambda>b. length (Data b)) comps) +
      (if so_Identity opts \<or> legacySigningProfile opts then defaultCMSSize - 8 else 0)" "96 - header"]
  show ?thesis by (auto simp: signatureSize_def superblobLength_def Let_def)
qed

lemma sectionOutput_delivers:
  assumes "int (length b) \<le> MaxInt64" shows "delivers (sectionOutput b) b"
proof -
  have "content_reader (sectionReadAt (rangeBufferReadAt b) (int 0) (int (length b))) (slice b 0 (length b))"
    by (rule section_reader [OF range_buffer.content_reader_axioms]) simp
  then show ?thesis
    using assms by (auto simp: delivers_def sectionOutput_def intro!: exI [of _ b])
qed

definition withMagic :: "Blob \<Rightarrow> Blob" where
  "withMagic b = b\<lparr>Magic := be32 (Data b) 0\<rparr>"

lemma withMagic_simps [simp]: "Slot (withMagic b) = Slot b" "Data (withMagic b) = Data b" "Magic (withMagic b) = be32 (Data b) 0"
  by (simp_all add: withMagic_def)

text \<open>The parameters an accepted signing goes through, before and after the reads.\<close>

definition signing_inputs ::
  "sign_tools \<Rightarrow> SignOptions \<Rightarrow> image \<Rightarrow> outputSource \<Rightarrow> directory_input \<Rightarrow> Blob list \<Rightarrow> nat \<Rightarrow> nat \<Rightarrow> bool" where
  "signing_inputs tools opts im src x comps codeEnd sigSize \<longleftrightarrow>
     di_opts x = opts \<and> di_image x = im \<and> signPage opts im = Inr (di_page x) \<and> signCodeEnd im src = Inr codeEnd \<and>
     signComponents tools opts im = Inr (di_special x, di_exec x, comps) \<and>
     signHeader opts im = (di_header x, di_version x, di_runtime x) \<and> di_data x = specialData opts comps \<and>
     sigSize = signatureSize opts (di_header x)
       (di_hashOff x + (codeEnd + di_page x - 1) div di_page x * 32) comps \<and>
     di_hashOff x + (codeEnd + di_page x - 1) div di_page x * 32 < 2 ^ 32 \<and> codeEnd + sigSize < 2 ^ 32"

definition runDirectory ::
  "hash_lib \<Rightarrow> SignOptions \<Rightarrow> image \<Rightarrow> directory_input \<Rightarrow> Blob list \<Rightarrow> nat \<Rightarrow> outputSource \<Rightarrow> byte list result" where
  "runDirectory H opts im x comps codeEnd patched =
     signDirectory H opts (di_page x)
       (directoryWrites opts im (di_page x) (di_header x) (di_version x) (di_runtime x) (di_special x) (di_exec x) codeEnd
         (di_hashOff x + (codeEnd + di_page x - 1) div di_page x * 32))
       (di_header x) (di_hashOff x) (di_hashOff x + (codeEnd + di_page x - 1) div di_page x * 32)
       (specialData opts comps) patched codeEnd"

definition signing_run ::
  "hash_lib \<Rightarrow> sign_tools \<Rightarrow> SignOptions \<Rightarrow> image \<Rightarrow> outputSource \<Rightarrow> outputSource \<Rightarrow> directory_input \<Rightarrow>
     Blob list \<Rightarrow> nat \<Rightarrow> nat \<Rightarrow> outputSource \<Rightarrow> outputSource \<Rightarrow> byte list \<Rightarrow> bool" where
  "signing_run H tools opts im src out x comps codeEnd sigSize patched sig cd \<longleftrightarrow>
     signingCommandOutput im src codeEnd sigSize (codeEnd + sigSize) = Inr patched \<and>
     runDirectory H opts im x comps codeEnd patched = Inr cd \<and>
     finishSignature tools opts cd comps = Inr sig \<and> srcSize sig \<le> int sigSize \<and>
     patchedOutput patched (int (codeEnd + sigSize)) [\<lparr>start = int codeEnd, source = sig\<rparr>] = Inr out"

lemma signImageSource_run:
  assumes "signImageSource H tools opts im src = Inr out"
  shows "im_linkedit im \<ge> 0 \<and> (\<exists>x comps codeEnd sigSize patched sig cd.
    signing_inputs tools opts im src x comps codeEnd sigSize \<and>
    signing_run H tools opts im src out x comps codeEnd sigSize patched sig cd)"
proof -
  from assms obtain pg codeEnd special execFlags comps where
    link: "im_linkedit im \<ge> 0" and
    a: "signPage opts im = Inr pg" "signCodeEnd im src = Inr codeEnd" "signComponents tools opts im = Inr (special, execFlags, comps)"
    by (auto simp: signImageSource_def guard_eq_Inr rbind_eq_Inr)
  obtain header vers runtime where h: "signHeader opts im = (header, vers, runtime)" by (cases "signHeader opts im") auto
  let ?hashOff = "hashOffset opts header special"
  let ?cdSize = "?hashOff + (codeEnd + pg - 1) div pg * 32"
  let ?sigSize = "signatureSize opts header ?cdSize comps"
  have filters: "im_filetype im \<in> {2, 6, 8}" "\<not> (im_sigCommand im \<ge> 0 \<and> \<not> so_Force opts)"
    using assms by (auto simp: signImageSource_def guard_eq_Inr)
  have "\<not> (im_filetype im \<notin> {2, 6, 8})" "\<not> im_linkedit im < 0" using filters link by auto
  note simps = if_not_P [OF filters(2)] if_not_P [OF this(1)] if_not_P [OF this(2)]
  from assms have "(if ?cdSize > 2 ^ 32 - 1 \<or> ?sigSize > 2 ^ 32 - 1
     then Inl (allocationError ''signature metadata exceeds 32-bit representation'') else
     if codeEnd + ?sigSize > 2 ^ 32 - 1 then Inl (allocationError ''Mach-O output exceeds 32-bit allocation size'') else
     rbind (signingCommandOutput im src codeEnd ?sigSize (codeEnd + ?sigSize)) (\<lambda>patched.
     rbind (signDirectory H opts pg
       (directoryWrites opts im pg header vers runtime special execFlags codeEnd ?cdSize)
       header ?hashOff ?cdSize (specialData opts comps) patched codeEnd) (\<lambda>cd.
     rbind (finishSignature tools opts cd comps) (\<lambda>sig.
     if srcSize sig > int ?sigSize then Inl (Invalid ''CMS exceeds reserved signature space'') else
     patchedOutput patched (int (codeEnd + ?sigSize)) [\<lparr>start = int codeEnd, source = sig\<rparr>])))) = Inr out"
    unfolding signImageSource_def simps a rbind_Inr h Let_def prod.case .
  then obtain patched cd sig where b: "?cdSize \<le> 2 ^ 32 - 1" "?sigSize \<le> 2 ^ 32 - 1" "codeEnd + ?sigSize \<le> 2 ^ 32 - 1"
      "signingCommandOutput im src codeEnd ?sigSize (codeEnd + ?sigSize) = Inr patched"
      "signDirectory H opts pg (directoryWrites opts im pg header vers runtime special execFlags codeEnd ?cdSize)
         header ?hashOff ?cdSize (specialData opts comps) patched codeEnd = Inr cd"
      "finishSignature tools opts cd comps = Inr sig" "srcSize sig \<le> int ?sigSize"
      "patchedOutput patched (int (codeEnd + ?sigSize)) [\<lparr>start = int codeEnd, source = sig\<rparr>] = Inr out"
    by (simp only: result_simps guard_eq_Inr rbind_eq_Inr not_less de_Morgan_disj) (elim exE conjE, rule that; assumption)
  let ?x = "\<lparr>di_opts = opts, di_image = im, di_page = pg, di_header = header, di_version = vers, di_runtime = runtime,
    di_special = special, di_exec = execFlags, di_data = specialData opts comps, di_code = []\<rparr>"
  have "signing_inputs tools opts im src ?x comps codeEnd ?sigSize"
    unfolding signing_inputs_def di_hashOff_def directory_input.simps using a h b by simp
  moreover have "signing_run H tools opts im src out ?x comps codeEnd ?sigSize patched sig cd"
    unfolding signing_run_def runDirectory_def di_hashOff_def directory_input.simps using b by simp
  ultimately show ?thesis using link by blast
qed

lemma di_code_update:
  "di_opts (x\<lparr>di_code := c\<rparr>) = di_opts x" "di_image (x\<lparr>di_code := c\<rparr>) = di_image x" "di_page (x\<lparr>di_code := c\<rparr>) = di_page x"
  "di_header (x\<lparr>di_code := c\<rparr>) = di_header x" "di_version (x\<lparr>di_code := c\<rparr>) = di_version x"
  "di_runtime (x\<lparr>di_code := c\<rparr>) = di_runtime x" "di_special (x\<lparr>di_code := c\<rparr>) = di_special x"
  "di_exec (x\<lparr>di_code := c\<rparr>) = di_exec x" "di_data (x\<lparr>di_code := c\<rparr>) = di_data x"
  by simp_all

lemma signing_inputs_code:
  "signing_inputs tools opts im src (x\<lparr>di_code := c\<rparr>) comps codeEnd sigSize \<longleftrightarrow> signing_inputs tools opts im src x comps codeEnd sigSize"
  unfolding signing_inputs_def di_hashOff_def di_code_update ..

lemma runDirectory_code:
  "runDirectory H opts im (x\<lparr>di_code := c\<rparr>) comps codeEnd patched = runDirectory H opts im x comps codeEnd patched"
  unfolding runDirectory_def di_hashOff_def di_code_update ..

text \<open>What the signer needs of its inputs: a supported library and texts without NUL.\<close>

definition signable :: "hash_lib \<Rightarrow> SignOptions \<Rightarrow> bool" where
  "signable H opts \<longleftrightarrow> hash_lib_ok H \<and> \<not> so_Identity opts \<and> 0 \<notin> set (so_Identifier opts) \<and> 0 \<notin> set (so_teamID opts) \<and>
     (so_Requirements opts = [] \<or> 8 \<le> length (so_Requirements opts) \<and>
       be32 (so_Requirements opts) 0 = MagicRequirements \<and> be32 (so_Requirements opts) 4 = length (so_Requirements opts)) \<and>
     int (length (so_InfoPlist opts)) \<le> MaxInt64 \<and> int (length (so_Resources opts)) \<le> MaxInt64"

lemma component_length: "b \<in> set comps \<Longrightarrow> length (Data b) \<le> superblobLength comps"
  by (induction comps) (auto simp: superblobLength_def)

lemma component_requirements:
  "signable H opts \<Longrightarrow> component_ok (withMagic \<lparr>Slot = SlotRequirements, Magic = 0,
     Data = if so_Requirements opts = [] then superblob MagicRequirements [] else so_Requirements opts\<rparr>)"
  by (auto simp: component_ok_def signable_def superblob_def expectedMagic_def isDirectorySlot_def slot_defs
      MagicRequirements_def byte_simps)

lemma component_blob:
  assumes "8 + length payload < 2 ^ 32" "expectedMagic slot = magic" "slot < 2 ^ 32" "magic < 2 ^ 32"
  shows "component_ok (withMagic \<lparr>Slot = slot, Magic = 0, Data = blob magic payload\<rparr>)"
  using assms by (simp add: component_ok_def blob_def byte_simps)

lemma signComponents_components:
  assumes "signComponents tools opts im = Inr (special, execFlags, comps)" "signable H opts" "superblobLength comps < 2 ^ 32"
  shows "\<forall>b \<in> set comps. component_ok (withMagic b) \<and> \<not> isDirectorySlot (Slot b)"
proof -
  have len: "8 + length payload < 2 ^ 32" if "\<lparr>Slot = s, Magic = m, Data = blob magic payload\<rparr> \<in> set comps" for s m magic payload
    using component_length [OF that] assms(3) by (simp add: blob_def)
  have "component_ok (withMagic b) \<and> \<not> isDirectorySlot (Slot b)" if b: "b \<in> set comps" for b
  proof -
    consider "b = \<lparr>Slot = SlotRequirements, Magic = 0,
          Data = if so_Requirements opts = [] then superblob MagicRequirements [] else so_Requirements opts\<rparr>"
      | payload where "b = \<lparr>Slot = SlotCMS, Magic = 0, Data = blob MagicCMS payload\<rparr>"
      | payload where "b = \<lparr>Slot = SlotEntitlements, Magic = 0, Data = blob MagicEntitlements payload\<rparr>"
      | payload where "b = \<lparr>Slot = SlotDEREntitlements, Magic = 0, Data = blob MagicDEREntitlements payload\<rparr>"
      using assms(1) b by (auto simp: signComponents_def Let_def rbind_eq_Inr split: if_split_asm)
    then show ?thesis
    proof cases
      case 1
      then show ?thesis using component_requirements [OF assms(2)] by (simp add: isDirectorySlot_def slot_defs)
    qed (use b in \<open>auto intro!: component_blob dest!: len simp: isDirectorySlot_def expectedMagic_def slot_defs
        MagicCMS_def MagicEntitlements_def MagicDEREntitlements_def\<close>)
  qed
  then show ?thesis by blast
qed

lemma signing_directory:
  assumes inputs: "signing_inputs tools opts im src x comps codeEnd sigSize" and ok: "signable H opts"
    and code: "length (di_code x) = codeEnd"
      "delivers \<lparr>reader = reader patched, offset = 0, srcSize = int codeEnd\<rparr> (di_code x)"
  shows "directory_ok H x" "runDirectory H opts im x comps codeEnd patched = Inr (di_bytes H x)"
    "superblobLength (\<lparr>Slot = SlotDirectory, Magic = m, Data = di_bytes H x\<rparr> # comps) \<le> sigSize"
proof -
  have r: "di_opts x = opts" "di_image x = im" "signPage opts im = Inr (di_page x)"
      "signComponents tools opts im = Inr (di_special x, di_exec x, comps)" "di_data x = specialData opts comps"
      "signHeader opts im = (di_header x, di_version x, di_runtime x)"
      "sigSize = signatureSize opts (di_header x) (di_hashOff x + (codeEnd + di_page x - 1) div di_page x * 32) comps"
      "di_hashOff x + (codeEnd + di_page x - 1) div di_page x * 32 < 2 ^ 32" "codeEnd + sigSize < 2 ^ 32"
    using inputs unfolding signing_inputs_def by blast+
  have sz: "di_size x = di_hashOff x + (codeEnd + di_page x - 1) div di_page x * 32"
    by (simp add: di_size_def di_pages_def di_end_def code(1))
  have le: "superblobLength (\<lparr>Slot = s, Magic = m, Data = bs\<rparr> # comps) \<le> sigSize" if "length bs = di_size x" for s m bs
    unfolding r(7) using signatureSize_ge [of s m bs comps opts "di_header x"] that sz by simp
  from le [of "replicate (di_size x) 0" 0 0] r(9) have small: "superblobLength comps < 2 ^ 32"
    by (simp add: superblobLength_def)
  have "specials_ok (di_special x) (di_data x)"
  proof -
    have "int (length data) \<le> MaxInt64" if "(slot, data) \<in> set (specialData opts comps)" for slot data
      using signComponents_ok(5) [OF r(4)] ok that component_length small
      by (fastforce simp: signable_def MaxInt64_def)
    then show ?thesis
      using signComponents_ok(3,4) [OF r(4)] ok unfolding r(5) by (fastforce simp: specials_ok_def signable_def)
  qed
  then show dok: "directory_ok H x"
    using signPage_ok [OF r(3)] signHeader_ok [OF r(6)] ok r(1,8,9) sz code(1)
    by (auto simp: directory_ok_def signable_def di_end_def)
  have "signDirectory H opts (di_page x) (di_writes x) (di_header x) (di_hashOff x) (di_size x) (di_data x) patched codeEnd =
      Inr (di_bytes H x)"
    using signDirectory_content [OF dok] code r(1) by (simp add: di_end_def)
  then show "runDirectory H opts im x comps codeEnd patched = Inr (di_bytes H x)"
    unfolding runDirectory_def di_writes_def r(1,2,5) by (simp add: sz di_end_def code(1))
  from length_di_bytes [OF dok]
  show "superblobLength (\<lparr>Slot = SlotDirectory, Magic = m, Data = di_bytes H x\<rparr> # comps) \<le> sigSize"
    by (intro le) simp
qed

text \<open>The components a signed image carries and the parse of their SuperBlob.\<close>

definition signedBlobs :: "byte list \<Rightarrow> Blob list \<Rightarrow> Blob list" where
  "signedBlobs cd comps = \<lparr>Slot = SlotDirectory, Magic = MagicDirectory, Data = cd\<rparr> # map withMagic comps"

lemma signedBlobs_length: "superblobLength (signedBlobs cd comps) = superblobLength (\<lparr>Slot = 0, Magic = 0, Data = cd\<rparr> # comps)"
  by (simp add: signedBlobs_def superblobLength_def comp_def)

lemma signedBlobs_sorted:
  assumes "components_ok (signedBlobs cd comps)" "\<forall>b \<in> set comps. \<not> isDirectorySlot (Slot b)" "parseDirectory H cd = Inr d"
  shows "components_ok (sort_key Slot (signedBlobs cd comps))" "directoriesOf H (sort_key Slot (signedBlobs cd comps)) = map Inr [d]"
proof -
  have "filter (\<lambda>b. isDirectorySlot (Slot b)) (signedBlobs cd comps) = [\<lparr>Slot = SlotDirectory, Magic = MagicDirectory, Data = cd\<rparr>]"
    using assms(2) by (auto simp: signedBlobs_def filter_empty_conv isDirectorySlot_def SlotDirectory_def)
  then show "directoriesOf H (sort_key Slot (signedBlobs cd comps)) = map Inr [d]"
    using assms(3) by (simp add: directoriesOf_def filter_sort)
  show "components_ok (sort_key Slot (signedBlobs cd comps))"
    using assms(1) unfolding components_ok_def superblobLength_sort by (simp add: list_all_iff distinct_map)
qed

lemma signedBlobs_parse_range:
  assumes "range_source read (superblob MagicSignature (signedBlobs cd comps))"
    "components_ok (signedBlobs cd comps)" "\<forall>b \<in> set comps. \<not> isDirectorySlot (Slot b)" "parseDirectory H cd = Inr d"
  shows "parseSignatureRange H (superblobLength (signedBlobs cd comps)) read allow =
    Inr \<lparr>Length = superblobLength (signedBlobs cd comps), Blobs = sort_key Slot (signedBlobs cd comps), Directories = [d]\<rparr>"
  using range_source.parse_layout [OF assms(1) _ signedBlobs_sorted [OF assms(2-4)]]
  by (simp add: superblob_layout superblobLength_sort)

lemma signedBlobs_parse:
  assumes "components_ok (signedBlobs cd comps)" "\<forall>b \<in> set comps. \<not> isDirectorySlot (Slot b)" "parseDirectory H cd = Inr d"
  shows "parseSignature H (superblob MagicSignature (signedBlobs cd comps)) allow =
    Inr \<lparr>Length = superblobLength (signedBlobs cd comps), Blobs = sort_key Slot (signedBlobs cd comps), Directories = [d]\<rparr>"
  using signedBlobs_parse_range [OF mem.range_source_axioms assms]
  by (simp add: parseSignature_def superblob_layout superblobLength_sort)

lemma finishSignature_content:
  assumes "\<not> so_Identity opts" "components_ok (signedBlobs cd comps)"
  shows "\<exists>sig. finishSignature tools opts cd comps = Inr sig \<and> delivers sig (superblob MagicSignature (signedBlobs cd comps))"
proof -
  let ?ss = "\<lparr>secSlot = SlotDirectory, secData = sectionOutput cd\<rparr> #
      map (\<lambda>b. \<lparr>secSlot = Slot b, secData = byteOutput (Data b)\<rparr>) comps"
  have len: "superblobLength (signedBlobs cd comps) < 2 ^ 32" using assms(2) by (simp add: components_ok_def)
  have "int (length (Data b)) \<le> MaxInt64" if "b \<in> set (signedBlobs cd comps)" for b
    using component_length [OF that] len by (simp add: MaxInt64_def)
  from this [of "\<lparr>Slot = SlotDirectory, Magic = MagicDirectory, Data = cd\<rparr>"] this [of "withMagic b" for b]
  have small: "int (length cd) \<le> MaxInt64" "b \<in> set comps \<Longrightarrow> int (length (Data b)) \<le> MaxInt64" for b
    by (simp_all add: signedBlobs_def)
  then have "sectionsOf ?ss (signedBlobs cd comps)"
    by (auto simp: sectionsOf_def signedBlobs_def list_all2_map1 list_all2_map2
        intro!: list.rel_refl_strong sectionOutput_delivers byteOutput_delivers)
  moreover have "distinct (map Slot (signedBlobs cd comps))" "\<forall>b \<in> set (signedBlobs cd comps). 8 \<le> length (Data b)"
    using assms(2) by (auto simp: components_ok_def list_all_iff component_ok_def)
  ultimately obtain out where "superblobOutput MagicSignature ?ss = Inr out" "delivers out (superblob MagicSignature (signedBlobs cd comps))"
    using superblobOutput_content len by blast
  with assms(1) show ?thesis by (auto simp: finishSignature_def)
qed

text \<open>
  A signed image: the SuperBlob lies at \<open>codeEnd\<close> and parses to one directory, which binds
  every byte before it page by page and every special slot's data.
\<close>

definition signed_image ::
  "hash_lib \<Rightarrow> SignOptions \<Rightarrow> Blob list \<Rightarrow> byte list \<Rightarrow> byte list \<Rightarrow> nat \<Rightarrow> Directory \<Rightarrow> bool" where
  "signed_image H opts comps ps ys codeEnd d \<longleftrightarrow>
     (let bs = signedBlobs (Raw d) comps; sb = superblob MagicSignature bs in
      codeEnd + length sb \<le> length ps \<and> ys = overwrite codeEnd sb ps \<and>
      parseSignature H sb False = Inr \<lparr>Length = length sb, Blobs = sort_key Slot bs, Directories = [d]\<rparr> \<and>
      Identifier d = so_Identifier opts \<and> TeamID d = so_teamID opts \<and> CodeLimit d = codeEnd \<and>
      HashType d = 2 \<and> HashSize d = 32 \<and> Flags d = (so_Flags opts OR FlagAdhoc) mod 2 ^ 32 \<and>
      CodeSlots d = (codeEnd + 2 ^ PageExponent d - 1) div 2 ^ PageExponent d \<and>
      SpecialSlots d \<le> 7 \<and> (\<forall>(slot, data) \<in> set (specialData opts comps). 1 \<le> slot \<and> slot \<le> SpecialSlots d) \<and>
      slice (Raw d) (HashOffset d) (32 * CodeSlots d) = pageDigests H (2 ^ PageExponent d) (take codeEnd ys) \<and>
      (\<forall>(slot, data) \<in> set (specialData opts comps). slice (Raw d) (HashOffset d - slot * 32) 32 = sha256 H data) \<and>
      (\<forall>slot. 1 \<le> slot \<and> slot \<le> SpecialSlots d \<and> slot \<notin> fst ` set (specialData opts comps) \<longrightarrow>
         slice (Raw d) (HashOffset d - slot * 32) 32 = replicate 32 0))"

lemma signing_result:
  assumes inputs: "signing_inputs tools opts im src x comps codeEnd sigSize" and ok: "signable H opts"
    and patched: "delivers patched ps" "length ps = codeEnd + sigSize"
      "delivers \<lparr>reader = reader patched, offset = 0, srcSize = int codeEnd\<rparr> (take codeEnd ps)"
    and cmd: "signingCommandOutput im src codeEnd sigSize (codeEnd + sigSize) = Inr patched"
  shows "\<exists>out sig d ys. signing_run H tools opts im src out x comps codeEnd sigSize patched sig (Raw d) \<and>
    delivers out ys \<and> signed_image H opts comps ps ys codeEnd d \<and> di_page x = 2 ^ PageExponent d"
proof -
  let ?x = "x\<lparr>di_code := take codeEnd ps\<rparr>"
  let ?cd = "di_bytes H ?x" let ?bs = "signedBlobs ?cd comps" let ?sb = "superblob MagicSignature ?bs"
  have inputs': "signing_inputs tools opts im src ?x comps codeEnd sigSize" using inputs by (simp only: signing_inputs_code)
  have code: "length (di_code ?x) = codeEnd" "delivers \<lparr>reader = reader patched, offset = 0, srcSize = int codeEnd\<rparr> (di_code ?x)"
    using patched by simp_all
  note d = signing_directory [OF inputs' ok code]
  have r: "di_opts ?x = opts" "signPage opts im = Inr (di_page ?x)" "di_data ?x = specialData opts comps"
      "signComponents tools opts im = Inr (di_special ?x, di_exec ?x, comps)" "codeEnd + sigSize < 2 ^ 32"
    using inputs' unfolding signing_inputs_def by blast+
  have len: "superblobLength ?bs \<le> sigSize" "superblobLength comps < 2 ^ 32"
    using d(3) [of 0] r(5) by (simp_all add: signedBlobs_length SlotDirectory_def) (simp add: superblobLength_def)
  note comps = signComponents_components [OF r(4) ok len(2)]
  have "distinct (0 # map Slot comps)" using signComponents_ok(1) [OF r(4)] ok by (auto simp: signable_def)
  then have cok: "components_ok ?bs"
    using directory_component [OF d(1)] comps len r(5)
    by (auto simp: components_ok_def signedBlobs_def SlotDirectory_def list_all_iff comp_def)
  from directory_parses [OF d(1)] obtain dir where dir: "parseDirectory H ?cd = Inr dir" "Identifier dir = so_Identifier opts"
      "TeamID dir = so_teamID opts" "PageExponent dir = trailingZeros (di_page ?x)" "CodeLimit dir = codeEnd"
      "CodeSlots dir = di_pages ?x" "HashOffset dir = di_hashOff ?x" "HashType dir = 2" "HashSize dir = 32"
      "SpecialSlots dir = di_special ?x"
      "Flags dir = (if so_Identity opts then so_Flags opts else so_Flags opts OR FlagAdhoc) mod 2 ^ 32" "Raw dir = ?cd"
    unfolding r(1) di_end_def code(1) by - (elim exE conjE, rule that; assumption)
  from finishSignature_content [of opts ?cd comps tools] ok cok
  obtain sig where sig: "finishSignature tools opts ?cd comps = Inr sig" "delivers sig ?sb" by (auto simp: signable_def)
  have sblen: "length ?sb = superblobLength ?bs"
    by (simp add: superblob_layout superblobLength_sort)
  have size: "srcSize sig = int (length ?sb)" using delivers_range [OF sig(2)] by simp
  have "patch_sources [\<lparr>start = int codeEnd, source = sig\<rparr>] [(codeEnd, ?sb)]"
    using sig(2) by (simp add: patch_sources_def)
  moreover have "valid_patches 0 (codeEnd + sigSize) [(codeEnd, ?sb)]" using sblen len(1) by simp
  moreover have "int (codeEnd + sigSize) \<le> MaxInt64" using r(5) by (simp add: MaxInt64_def)
  ultimately obtain out where out: "patchedOutput patched (int (codeEnd + sigSize)) [\<lparr>start = int codeEnd, source = sig\<rparr>] = Inr out"
      "delivers out (patchedBytes ps (codeEnd + sigSize) [(codeEnd, ?sb)])"
    using patchedOutput_content [OF patched(1)] by blast
  have ys: "patchedBytes ps (codeEnd + sigSize) [(codeEnd, ?sb)] = overwrite codeEnd ?sb ps"
    using patchedBytes_one [of codeEnd ?sb ps] patched(2) sblen len(1) by simp
  have keep: "take codeEnd (overwrite codeEnd ?sb ps) = take codeEnd ps"
    using patched(2) sblen len(1) by (simp add: overwrite_def)
  have "signing_run H tools opts im src out x comps codeEnd sigSize patched sig (Raw dir)"
    using cmd d(2) sig(1) size sblen len(1) out(1) unfolding signing_run_def runDirectory_code dir(12) by simp
  moreover have "signed_image H opts comps ps (overwrite codeEnd ?sb ps) codeEnd dir"
    unfolding signed_image_def dir(2-12) Let_def keep sblen
  proof (intro conjI refl)
    show "codeEnd + superblobLength ?bs \<le> length ps" using patched(2) len(1) by simp
    show "parseSignature H ?sb False = Inr \<lparr>Length = superblobLength ?bs, Blobs = sort_key Slot ?bs, Directories = [dir]\<rparr>"
      using comps by (intro signedBlobs_parse [OF cok _ dir(1)]) blast
    show "slice ?cd (di_hashOff ?x) (32 * di_pages ?x) = pageDigests H (2 ^ trailingZeros (di_page ?x)) (take codeEnd ps)"
      using di_page_digests [OF d(1)] signPage_ok(2) [OF r(2)] by simp
    show "\<forall>(slot, data) \<in> set (specialData opts comps). slice ?cd (di_hashOff ?x - slot * 32) 32 = sha256 H data"
      using di_special_digest [OF d(1)] unfolding r(3) by blast
    show "(if so_Identity opts then so_Flags opts else so_Flags opts OR FlagAdhoc) mod 2 ^ 32 = (so_Flags opts OR FlagAdhoc) mod 2 ^ 32"
      using ok by (simp add: signable_def)
    show "di_pages ?x = (codeEnd + 2 ^ trailingZeros (di_page ?x) - 1) div 2 ^ trailingZeros (di_page ?x)"
      using signPage_ok(2) [OF r(2)] unfolding di_pages_def di_end_def code(1) by simp
    show "di_special ?x \<le> 7"
      using r(4) by (auto simp: signComponents_def Let_def rbind_eq_Inr split: if_split_asm)
    show "\<forall>(slot, data) \<in> set (specialData opts comps). 1 \<le> slot \<and> slot \<le> di_special ?x"
      using d(1) unfolding r(3) [symmetric] by (auto simp: directory_ok_def specials_ok_def)
    show "\<forall>slot. 1 \<le> slot \<and> slot \<le> di_special ?x \<and> slot \<notin> fst ` set (specialData opts comps) \<longrightarrow>
        slice ?cd (di_hashOff ?x - slot * 32) 32 = replicate 32 0"
      using di_special_zero [OF d(1)] unfolding r(3) by blast
  qed
  moreover have "di_page x = 2 ^ PageExponent dir" using signPage_ok(2) [OF r(2)] dir(4) by simp
  ultimately show ?thesis using out(2) unfolding ys by blast
qed

text \<open>When the run's parameters exist and the load command has room, signing succeeds.\<close>

definition commandRoom :: "image \<Rightarrow> byte list \<Rightarrow> bool" where
  "commandRoom im xs \<longleftrightarrow> (im_sigCommand im < 0 \<longrightarrow> commandsEnd im + 16 \<le> im_firstSection im \<and>
     commandsEnd im + 16 \<le> length xs \<and> slice xs (commandsEnd im) 16 = replicate 16 0)"

definition commandBytes :: "image \<Rightarrow> byte list \<Rightarrow> nat \<Rightarrow> nat \<Rightarrow> byte list" where
  "commandBytes im xs codeEnd sigSize =
     patchedBytes xs (codeEnd + sigSize) (sort_key fst (signedPatches im xs codeEnd sigSize (codeEnd + sigSize)))"

lemma signing_run_unique:
  assumes "signing_run H tools opts im src out x comps codeEnd sigSize patched sig cd"
    "signing_run H tools opts im src out' x comps codeEnd sigSize patched' sig' cd'"
  shows "out' = out \<and> cd' = cd"
  using assms by (auto simp: signing_run_def)

lemma signing_commands:
  assumes src: "delivers src xs" and wf: "image_wf (length xs) im" and link: "im_linkedit im \<ge> 0"
    and inputs: "signing_inputs tools opts im src x comps codeEnd sigSize" and ok: "signable H opts"
    and cmd: "signingCommandOutput im src codeEnd sigSize (codeEnd + sigSize) = Inr patched"
  shows "\<exists>out sig d ys. signing_run H tools opts im src out x comps codeEnd sigSize patched sig (Raw d) \<and>
    delivers out ys \<and> signed_image H opts comps (commandBytes im xs codeEnd sigSize) ys codeEnd d \<and> di_page x = 2 ^ PageExponent d"
proof -
  have r: "signCodeEnd im src = Inr codeEnd" "codeEnd + sigSize < 2 ^ 32"
      "sigSize = signatureSize opts (di_header x) (di_hashOff x + (codeEnd + di_page x - 1) div di_page x * 32) comps"
    using inputs unfolding signing_inputs_def by blast+
  have "16 \<le> sigSize"
    unfolding r(3) using signatureSize_ge [of 0 0 "replicate (di_hashOff x + (codeEnd + di_page x - 1) div di_page x * 32) 0" comps opts "di_header x"]
    by (simp add: superblobLength_def)
  then have "codeEnd + sigSize \<le> 2 ^ 32 - 1" "16 \<le> sigSize" using r(2) by simp_all
  note c = signed_commands [OF cmd src wf link r(1) refl this, folded commandBytes_def]
  from signing_result [OF inputs ok c cmd] show ?thesis .
qed

lemma signImageSource_steps:
  assumes "im_sigCommand im < 0 \<or> so_Force opts" "im_filetype im \<in> {2, 6, 8}" "im_linkedit im \<ge> 0"
    "signing_inputs tools opts im src x comps codeEnd sigSize" "sigSize < 2 ^ 32"
    "signing_run H tools opts im src out x comps codeEnd sigSize patched sig cd"
  shows "signImageSource H tools opts im src = Inr out"
proof -
  have i: "signPage opts im = Inr (di_page x)" "signCodeEnd im src = Inr codeEnd"
      "signComponents tools opts im = Inr (di_special x, di_exec x, comps)"
      "signHeader opts im = (di_header x, di_version x, di_runtime x)" "di_hashOff x = hashOffset opts (di_header x) (di_special x)"
      "signatureSize opts (di_header x) (hashOffset opts (di_header x) (di_special x) +
        (codeEnd + di_page x - 1) div di_page x * 32) comps = sigSize"
    using assms(4) unfolding signing_inputs_def di_hashOff_def by auto
  have b: "\<not> (hashOffset opts (di_header x) (di_special x) + (codeEnd + di_page x - 1) div di_page x * 32 > 2 ^ 32 - 1 \<or> sigSize > 2 ^ 32 - 1)"
      "\<not> codeEnd + sigSize > 2 ^ 32 - 1"
    using assms(4,5) i(5) unfolding signing_inputs_def by auto
  have g: "\<not> (im_sigCommand im \<ge> 0 \<and> \<not> so_Force opts)" "\<not> im_filetype im \<notin> {2, 6, 8}" "\<not> im_linkedit im < 0"
    using assms(1-3) by auto
  from assms(6) have r: "signingCommandOutput im src codeEnd sigSize (codeEnd + sigSize) = Inr patched"
      "runDirectory H opts im x comps codeEnd patched = Inr cd" "finishSignature tools opts cd comps = Inr sig"
      "\<not> srcSize sig > int sigSize"
      "patchedOutput patched (int (codeEnd + sigSize)) [\<lparr>start = int codeEnd, source = sig\<rparr>] = Inr out"
    unfolding signing_run_def by auto
  show ?thesis
    unfolding signImageSource_def if_not_P [OF g(1)] if_not_P [OF g(2)] if_not_P [OF g(3)] i(1-4) rbind_Inr Let_def prod.case i(6)
      if_not_P [OF b(1)] if_not_P [OF b(2)] r(1) r(2) [unfolded runDirectory_def i(5)] r(3) if_not_P [OF r(4)] r(5) ..
qed

lemma signImageSource_signed:
  assumes ok: "signable H opts" and src: "delivers src xs" and wf: "image_wf (length xs) im"
    and out: "signImageSource H tools opts im src = Inr out"
  shows "\<exists>comps codeEnd sigSize ys d special execFlags. delivers out ys \<and> signCodeEnd im src = Inr codeEnd \<and>
    signComponents tools opts im = Inr (special, execFlags, comps) \<and> length ys = codeEnd + sigSize \<and>
    signPage opts im = Inr (2 ^ PageExponent d) \<and> signed_image H opts comps (commandBytes im xs codeEnd sigSize) ys codeEnd d"
proof -
  from signImageSource_run [OF out] obtain x comps codeEnd sigSize patched sig cd where link: "im_linkedit im \<ge> 0"
      and inputs: "signing_inputs tools opts im src x comps codeEnd sigSize"
      and run: "signing_run H tools opts im src out x comps codeEnd sigSize patched sig cd" by blast
  from run have "signingCommandOutput im src codeEnd sigSize (codeEnd + sigSize) = Inr patched"
    unfolding signing_run_def by blast
  from signing_commands [OF src wf link inputs ok this] signing_run_unique [OF run]
  obtain d ys where d: "delivers out ys" "signed_image H opts comps (commandBytes im xs codeEnd sigSize) ys codeEnd d"
      "di_page x = 2 ^ PageExponent d" by blast
  then have "length ys = codeEnd + sigSize"
    by (auto simp: signed_image_def Let_def commandBytes_def patchedBytes_def)
  with d(1,2) inputs show ?thesis unfolding signing_inputs_def d(3) by blast
qed

lemma signImageSource_total:
  assumes ok: "signable H opts" and src: "delivers src xs" and wf: "image_wf (length xs) im"
    and im: "im_sigCommand im < 0 \<or> so_Force opts" "im_filetype im \<in> {2, 6, 8}" "im_linkedit im \<ge> 0" "commandRoom im xs"
    and inputs: "signing_inputs tools opts im src x comps codeEnd sigSize"
  shows "\<exists>out ys. signImageSource H tools opts im src = Inr out \<and> delivers out ys \<and> length ys = codeEnd + sigSize"
proof -
  have r: "signCodeEnd im src = Inr codeEnd" "codeEnd + sigSize < 2 ^ 32"
      "sigSize = signatureSize opts (di_header x) (di_hashOff x + (codeEnd + di_page x - 1) div di_page x * 32) comps"
    using inputs unfolding signing_inputs_def by blast+
  have "16 \<le> sigSize"
    unfolding r(3) using signatureSize_ge [of 0 0 "replicate (di_hashOff x + (codeEnd + di_page x - 1) div di_page x * 32) 0" comps opts "di_header x"]
    by (simp add: superblobLength_def)
  then have "signatureAt im + 16 \<le> codeEnd + sigSize" "commandsEnd im \<le> codeEnd + sigSize" "int (codeEnd + sigSize) \<le> MaxInt64"
    using signCodeEnd_ok(2) [OF r(1) wf src] image_wf_bounds(4) [OF wf] r(2) by (auto simp: signatureAt_def MaxInt64_def)
  from signingCommandOutput_content [OF src wf im(3) this] im(4)
  obtain patched where "signingCommandOutput im src codeEnd sigSize (codeEnd + sigSize) = Inr patched"
    unfolding commandRoom_def by blast
  from signing_commands [OF src wf im(3) inputs ok this]
  obtain out sig d ys where run: "signing_run H tools opts im src out x comps codeEnd sigSize patched sig (Raw d)"
    and ys: "delivers out ys" "signed_image H opts comps (commandBytes im xs codeEnd sigSize) ys codeEnd d" by blast
  from ys(2) have "length ys = codeEnd + sigSize"
    by (auto simp: signed_image_def Let_def commandBytes_def patchedBytes_def)
  with signImageSource_steps [OF im(1-3) inputs _ run] r(2) ys(1) show ?thesis by auto
qed

section \<open>Prepared options\<close>

lemma prepared_signable:
  assumes "prepareSigningOptions tools opts = Inr opts'" "\<not> so_Identity opts" "hash_lib_ok H" "0 \<notin> set (so_teamID opts)"
    "int (length (so_InfoPlist opts)) \<le> MaxInt64" "int (length (so_Resources opts)) \<le> MaxInt64"
  shows "signable H opts'"
proof -
  from assms(1,2) obtain reqs where reqs: "prepareRequirements (so_Requirements opts) [] (Inl Panic) = Inr reqs"
      "opts' = opts\<lparr>so_Requirements := reqs\<rparr>" "0 \<notin> set (so_Identifier opts)"
    by (auto simp: prepareSigningOptions_def rbind_eq_Inr guard_eq_Inr)
  from prepareRequirements_ok [OF reqs(1)] obtain extra where
      "reqs = requirementSetBytes (suppliedEntries (so_Requirements opts) @ extra)" "length reqs \<le> 2 ^ 20" by auto
  then have "8 \<le> length reqs" "be32 reqs 0 = MagicRequirements" "be32 reqs 4 = length reqs"
    by (simp_all add: requirementSetBytes_def superblob_def Let_def byte_simps MagicRequirements_def)
  with reqs(2,3) assms show ?thesis by (simp add: signable_def)
qed

lemma thin_slice:
  assumes c: "parseContainer data = Inr c" "\<not> co_fat c"
  shows "\<exists>s. co_slices c = [s] \<and> sl_offset s = 0 \<and> sl_size s = length data \<and> parseImage data = Inr (sl_image s) \<and>
    image_wf (length data) (sl_image s)"
proof -
  note wf = parseContainer_wf_lemma [OF c(1)]
  from wf c(2) have "length (co_slices c) = Suc 0" by (simp add: container_wf_def)
  then obtain s where one: "co_slices c = [s]" by (auto simp: length_Suc_conv)
  with wf c(2) have "co_slices c = [s]" "sl_offset s = 0" "sl_size s = length data"
      "sliceImage data 0 (length data) = Inr (sl_image s)" "image_wf (length data) (sl_image s)"
    by (auto simp: container_wf_def slices_wf_def slice_ok_def)
  moreover from this(4) have "parseImage data = Inr (sl_image s)" by (auto simp: sliceImage_def slice_def)
  ultimately show ?thesis by blast
qed

lemma mutate_thin:
  assumes "\<not> co_fat c" "co_slices c = [s]" "sl_offset s = 0" "sl_size s = length data" "length data < 2 ^ 32"
  shows "mutateSource (Some f) c (byteOutput data) =
    (case f (sl_image s) (byteOutput data) of Inl e \<Rightarrow> Inl (Wrapped ''architecture'' e) | Inr r \<Rightarrow> Inr r)"
proof -
  have part: "\<lparr>reader = reader (byteOutput data), offset = offset (byteOutput data), srcSize = int (length data)\<rparr> = byteOutput data"
    by (simp add: byteOutput_def)
  have "\<not> srcSize (byteOutput data) > 2 ^ 32 - 1" using assms(5) by (simp add: byteOutput_def)
  then show ?thesis
    unfolding mutateSource_def using assms(1-4) by (simp add: assembleSources_def part split: sum.split)
qed

lemma signBytes_thin_lemma:
  assumes sign: "signBytes H tools opts data dry = Inr out" and dmg: "isDMG (dm_size (dmgLayout tools)) data = Inr False"
    and opts: "prepareSigningOptions tools opts = Inr opts'" "signable H opts'"
    and c: "parseContainer data = Inr c" "\<not> co_fat c"
  shows "\<exists>im comps codeEnd sigSize d special execFlags.
    parseImage data = Inr im \<and> signComponents tools opts' im = Inr (special, execFlags, comps) \<and>
    length out = codeEnd + sigSize \<and> signed_image H opts' comps (commandBytes im data codeEnd sigSize) out codeEnd d"
proof -
  from sign dmg opts(1) c(1) obtain src where src: "mutateSource (Some (signImageSource H tools opts')) c (byteOutput data) = Inr src"
      "materializeOutput src = Inr out"
    by (auto simp: signBytes_def rbind_eq_Inr)
  have small: "length data < 2 ^ 32"
    using src(1) by (auto simp: mutateSource_def guard_eq_Inr byteOutput_def)
  from thin_slice [OF c] obtain s where s: "co_slices c = [s]" "sl_offset s = 0" "sl_size s = length data"
      "parseImage data = Inr (sl_image s)" "image_wf (length data) (sl_image s)" by blast
  from src(1) have sig: "signImageSource H tools opts' (sl_image s) (byteOutput data) = Inr src"
    unfolding mutate_thin [OF c(2) s(1-3) small] by (auto split: sum.split_asm)
  have "delivers (byteOutput data) data" using small by (intro byteOutput_delivers) (simp add: MaxInt64_def)
  from signImageSource_signed [OF opts(2) this s(5) sig] obtain comps codeEnd sigSize ys d special execFlags where
      r: "delivers src ys" "signComponents tools opts' (sl_image s) = Inr (special, execFlags, comps)" "length ys = codeEnd + sigSize"
      "signed_image H opts' comps (commandBytes (sl_image s) data codeEnd sigSize) ys codeEnd d" by blast
  have "srcSize src = int (length ys)" using delivers_range [OF r(1)] by blast
  with src(2) have "length ys \<le> maxFileSize" by (auto simp: materializeOutput_def guard_eq_Inr)
  with materialize_content [OF r(1)] src(2) have "out = ys" by simp
  with s(4) r show ?thesis by blast
qed

section \<open>Properties\<close>

text \<open>
  C9. What ad-hoc signing returns is a signed image: the output is the image with its load
  commands patched and, at the code's end, a SuperBlob that the parser accepts with
  exactly the components signing built and one CodeDirectory; that directory carries the
  identifier, its code limit is the SuperBlob's offset, its code slots are the page
  digests of all output bytes before it, and each special slot is its data's digest.
\<close>

theorem signImageSource_signs:
  assumes "signable H opts" "delivers src xs" "image_wf (length xs) im" "signImageSource H tools opts im src = Inr out"
  shows "\<exists>comps codeEnd sigSize ys d special execFlags. delivers out ys \<and> signCodeEnd im src = Inr codeEnd \<and>
    signComponents tools opts im = Inr (special, execFlags, comps) \<and> length ys = codeEnd + sigSize \<and>
    signPage opts im = Inr (2 ^ PageExponent d) \<and> signed_image H opts comps (commandBytes im xs codeEnd sigSize) ys codeEnd d"
  using assms by (rule signImageSource_signed)

definition adhocOptions :: SignOptions where
  "adhocOptions = \<lparr>so_MacOSProfile = DefaultProfile, so_Identifier = str ''a'', so_Force = False, so_Flags = 0, so_PageSize = 0,
     so_Entitlements = [], so_ForceLibraryEntitlements = False, so_Requirements = superblob MagicRequirements [], so_InfoPlist = [1], so_Resources = [],
     so_Identity = False, so_RuntimeVersion = 0, so_teamID = [], so_Timestamp = None\<rparr>"

definition noTools :: sign_tools where
  "noTools = \<lparr>encodeEntitlements = \<lambda>_. Inl Panic, entitlementFlags = \<lambda>_. 0, generateCMS = \<lambda>_. Inl Panic,
     prepareIdentity = Inr, dmgLayout = udifLayout\<rparr>"

text \<open>A 32-bit executable of one LINKEDIT segment command and 44 spare bytes.\<close>

definition thinData :: "byte list" where
  "thinData = [0xfe, 0xed, 0xfa, 0xce] @ replicate 8 0 @ put32 2 @ put32 1 @ put32 56 @ put32 0 @
     put32 1 @ put32 56 @ str ''__LINKEDIT'' @ replicate 6 0 @ put32 0 @ put32 0 @ put32 128 @ put32 0 @ replicate 60 0"

definition plainExecutable :: "image \<Rightarrow> bool" where
  "plainExecutable im \<longleftrightarrow> im_filetype im = 2 \<and> im_sigCommand im = -1 \<and> im_cpu im = 0 \<and> im_execPlatform im = 0 \<and>
     im_linkedit im = 28 \<and> im_header im = 28 \<and> im_commandBytes im = 56 \<and> im_firstSection im = 128"

lemma length_thinData: "length thinData = 128"
  by (simp add: thinData_def str_def)

lemma thin_parses:
  "\<exists>c im. parseContainer thinData = Inr c \<and> \<not> co_fat c \<and> parseImage thinData = Inr im \<and> plainExecutable im \<and> image_wf 128 im"
proof -
  have "case parseContainer thinData of Inr c \<Rightarrow> \<not> co_fat c | Inl _ \<Rightarrow> False"
    "case parseImage thinData of Inr im \<Rightarrow> plainExecutable im | Inl _ \<Rightarrow> False" by code_simp+
  moreover have "image_wf 128 im" if "parseImage thinData = Inr im" for im
    using that parseImageRange_wf [of "length thinData"] unfolding parseImage_def length_thinData by blast
  ultimately show ?thesis by (auto split: sum.split_asm)
qed

definition thinImage :: image where
  "thinImage = (case parseImage thinData of Inr im \<Rightarrow> im | Inl _ \<Rightarrow> newImage 0)"

lemma thinImage: "parseImage thinData = Inr thinImage" "plainExecutable thinImage" "image_wf (length thinData) thinImage"
  using thin_parses by (auto simp: thinImage_def length_thinData)

lemma adhoc_signable: "signable sampleHash adhocOptions"
  by (simp add: signable_def sampleHash_ok adhocOptions_def str_def MaxInt64_def superblob_def byte_simps MagicRequirements_def)

lemma thin_delivered: "delivers (byteOutput thinData) thinData"
  by (rule byteOutput_delivers) (simp add: MaxInt64_def length_thinData)

lemma thin_room: "commandRoom thinImage thinData"
proof -
  have "slice thinData 84 16 = replicate 16 0" by code_simp
  then show ?thesis using thinImage(2) by (simp add: commandRoom_def plainExecutable_def commandsEnd_def length_thinData)
qed

definition adhocComponents :: "Blob list" where
  "adhocComponents = [\<lparr>Slot = SlotRequirements, Magic = 0, Data = superblob MagicRequirements []\<rparr>,
     \<lparr>Slot = SlotCMS, Magic = 0, Data = blob MagicCMS []\<rparr>]"

definition adhocInput :: directory_input where
  "adhocInput = \<lparr>di_opts = adhocOptions, di_image = thinImage, di_page = 4096, di_header = 48, di_version = 0x20100,
     di_runtime = 0, di_special = 2, di_exec = 1, di_data = specialData adhocOptions adhocComponents, di_code = []\<rparr>"

lemma adhoc_inputs:
  "signing_inputs noTools adhocOptions thinImage (byteOutput thinData) adhocInput adhocComponents 128
     (signatureSize adhocOptions 48 146 adhocComponents)"
  using thinImage(2)
  by (simp add: signing_inputs_def adhocInput_def signPage_def signCodeEnd_def signComponents_def signHeader_def di_hashOff_def
      hashOffset_def teamSize_def adhocOptions_def plainExecutable_def byteOutput_def adhocComponents_def length_thinData
      str_def FlagRuntime_def signatureSize_def legacySigningProfile_def superblob_def blob_def)

lemma thin_signs: "\<exists>out ys. signImageSource sampleHash noTools adhocOptions thinImage (byteOutput thinData) = Inr out \<and>
  delivers out ys \<and> length ys = 128 + signatureSize adhocOptions 48 146 adhocComponents"
  using thinImage(2)
  by (intro signImageSource_total [OF adhoc_signable thin_delivered thinImage(3) _ _ _ thin_room adhoc_inputs])
    (simp_all add: plainExecutable_def)

theorem signImageSource_signs_witness:
  "\<exists>out ys codeEnd comps sigSize d. signImageSource sampleHash noTools adhocOptions thinImage (byteOutput thinData) = Inr out \<and>
     delivers out ys \<and> signed_image sampleHash adhocOptions comps (commandBytes thinImage thinData codeEnd sigSize) ys codeEnd d"
proof -
  from thin_signs obtain out where out: "signImageSource sampleHash noTools adhocOptions thinImage (byteOutput thinData) = Inr out" by blast
  from signImageSource_signs [OF adhoc_signable thin_delivered thinImage(3) this] out show ?thesis by blast
qed

text \<open>
  C17. Ad-hoc signing succeeds whenever its inputs allow it: the image is unsigned or
  replacement is asked for, it is an executable, dylib or bundle with a LINKEDIT segment
  and, when it has no signature command yet, sixteen zero bytes after its load commands
  and before its content; the page size, code end and components exist, and directory
  and output stay within 32 bits.
\<close>

theorem signImageSource_succeeds:
  assumes "signable H opts" "delivers src xs" "image_wf (length xs) im"
    "im_sigCommand im < 0 \<or> so_Force opts" "im_filetype im \<in> {2, 6, 8}" "im_linkedit im \<ge> 0" "commandRoom im xs"
    "signPage opts im = Inr pg" "signCodeEnd im src = Inr codeEnd" "signComponents tools opts im = Inr (special, execFlags, comps)"
    "signHeader opts im = (header, vers, runtime)"
    "cdSize = hashOffset opts header special + (codeEnd + pg - 1) div pg * 32" "cdSize < 2 ^ 32"
    "codeEnd + signatureSize opts header cdSize comps < 2 ^ 32"
  shows "\<exists>out. signImageSource H tools opts im src = Inr out"
proof -
  let ?x = "\<lparr>di_opts = opts, di_image = im, di_page = pg, di_header = header, di_version = vers, di_runtime = runtime,
    di_special = special, di_exec = execFlags, di_data = specialData opts comps, di_code = []\<rparr>"
  have "signing_inputs tools opts im src ?x comps codeEnd (signatureSize opts header cdSize comps)"
    using assms(8-14) unfolding signing_inputs_def di_hashOff_def directory_input.simps by simp
  from signImageSource_total [OF assms(1-7) this] show ?thesis by blast
qed

theorem signImageSource_succeeds_witness:
  "\<exists>out. signImageSource sampleHash noTools adhocOptions thinImage (byteOutput thinData) = Inr out"
  using thinImage(2)
  by (intro signImageSource_succeeds [OF adhoc_signable thin_delivered thinImage(3) _ _ _ thin_room,
        where special = 2 and codeEnd = 128 and comps = adhocComponents and header = 48 and pg = 4096 and vers = 131328 and runtime = 0
          and execFlags = 1 and cdSize = 146])
    (simp_all add: signPage_def signCodeEnd_def signComponents_def signHeader_def
      hashOffset_def teamSize_def adhocOptions_def plainExecutable_def byteOutput_def adhocComponents_def length_thinData
      str_def FlagRuntime_def signatureSize_def legacySigningProfile_def superblob_def blob_def)

text \<open>
  C10. Ad-hoc signing of the bytes of a single-architecture Mach-O file: with options that name
  no signing identity (and no NUL in a team identifier, which only an identity sets), that
  prepare, and whose external payloads are within the range of an int64, whatever is returned is
  the parsed image's signed form, for the options with their requirements set validated and
  re-encoded.
\<close>

theorem signBytes_signs:
  assumes "signBytes H tools opts data dry = Inr out" "isDMG (dm_size (dmgLayout tools)) data = Inr False"
    "prepareSigningOptions tools opts = Inr opts'" "\<not> so_Identity opts" "hash_lib_ok H" "0 \<notin> set (so_teamID opts)"
    "int (length (so_InfoPlist opts)) \<le> MaxInt64" "int (length (so_Resources opts)) \<le> MaxInt64"
    "parseContainer data = Inr c" "\<not> co_fat c"
  shows "\<exists>im comps codeEnd sigSize d special execFlags.
    parseImage data = Inr im \<and> signComponents tools opts' im = Inr (special, execFlags, comps) \<and>
    length out = codeEnd + sigSize \<and> signed_image H opts' comps (commandBytes im data codeEnd sigSize) out codeEnd d"
  using assms(1-3) prepared_signable [OF assms(3-8)] assms(9,10) by (rule signBytes_thin_lemma)

lemma thin_prepares: "prepareSigningOptions noTools adhocOptions = Inr adhocOptions"
proof -
  have "prepareRequirements (so_Requirements adhocOptions) [] (Inl Panic) = Inr (so_Requirements adhocOptions)"
    by code_simp
  then show ?thesis
    by (simp add: prepareSigningOptions_def validateProfile_def adhocOptions_def str_def)
qed

lemma thin_not_dmg: "isDMG (dm_size (dmgLayout noTools)) thinData = Inr False"
  by code_simp

theorem signBytes_signs_witness:
  "\<exists>out comps codeEnd sigSize d. signBytes sampleHash noTools adhocOptions thinData False = Inr out \<and>
     signed_image sampleHash adhocOptions comps (commandBytes thinImage thinData codeEnd sigSize) out codeEnd d"
proof -
  from thin_parses obtain c where c: "parseContainer thinData = Inr c" "\<not> co_fat c" by blast
  from thin_slice [OF c] thinImage(1) obtain s where s: "co_slices c = [s]" "sl_offset s = 0" "sl_size s = length thinData"
      "sl_image s = thinImage" by auto
  from thin_signs obtain src ys where src: "signImageSource sampleHash noTools adhocOptions thinImage (byteOutput thinData) = Inr src"
    and ys: "delivers src ys" "length ys = 128 + signatureSize adhocOptions 48 146 adhocComponents" by blast
  from ys(2) have "length ys \<le> maxFileSize"
    by (simp add: signatureSize_def adhocOptions_def adhocComponents_def superblob_def blob_def legacySigningProfile_def maxFileSize_def)
  from materialize_content [OF ys(1) this] c src s thin_prepares thin_not_dmg
  have out: "signBytes sampleHash noTools adhocOptions thinData False = Inr ys"
    using mutate_thin [OF c(2) s(1-3)] by (simp add: signBytes_def length_thinData)
  have "\<not> so_Identity adhocOptions" "0 \<notin> set (so_teamID adhocOptions)" "int (length (so_InfoPlist adhocOptions)) \<le> MaxInt64"
      "int (length (so_Resources adhocOptions)) \<le> MaxInt64"
    by (simp_all add: adhocOptions_def MaxInt64_def)
  from signBytes_signs [OF out thin_not_dmg thin_prepares this(1) sampleHash_ok this(2-4) c] out thinImage(1)
  show ?thesis by auto
qed

end
