(* ===== verification/Verified_Signatures.thy ===== *)
theory Verified_Signatures
  imports Verification Signed_Images
begin

text \<open>
  What verification establishes: the declarative reading of an accepted directory, of an
  accepted input, and the composition with signing.
\<close>

section \<open>Pages\<close>

lemma digestContext_any: "int (length data) \<le> MaxInt64 \<Longrightarrow> digestContext H kind data = digest H kind data"
  using digestSource_content [OF byteOutput_delivers, of data H kind] by (simp add: digestContext_def)

text \<open>The page digests of an input held in memory, as VerifyBytes passes them.\<close>

definition memoryDigest :: "hash_lib \<Rightarrow> byte list \<Rightarrow> nat \<Rightarrow> nat \<Rightarrow> nat \<Rightarrow> byte list result" where
  "memoryDigest H data kind off len = rbind (slice_at data off len) (digestContext H kind)"

definition pageBytes :: "byte list \<Rightarrow> architecture \<Rightarrow> Directory \<Rightarrow> nat \<Rightarrow> byte list" where
  "pageBytes data a d i = slice data (ar_Offset a + i * pageSize d) (min (pageSize d) (CodeLimit d - i * pageSize d))"

definition pageDigest :: "Directory \<Rightarrow> nat \<Rightarrow> byte list" where
  "pageDigest d i = slice (Raw d) (HashOffset d + i * HashSize d) (HashSize d)"

definition page_bound :: "hash_lib \<Rightarrow> byte list \<Rightarrow> architecture \<Rightarrow> Directory \<Rightarrow> nat \<Rightarrow> bool" where
  "page_bound H data a d i \<longleftrightarrow> digest H (HashType d) (pageBytes data a d i) = Inr (pageDigest d i)"

lemma range_step:
  "(\<forall>j. i \<le> j \<and> j < i + Suc k \<longrightarrow> P j) \<longleftrightarrow> P i \<and> (\<forall>j. Suc i \<le> j \<and> j < Suc i + k \<longrightarrow> P j)" for i k :: nat
proof (intro iffI allI impI)
  fix j assume *: "P i \<and> (\<forall>j. Suc i \<le> j \<and> j < Suc i + k \<longrightarrow> P j)" "i \<le> j \<and> j < i + Suc k"
  then show "P j" by (cases "j = i") auto
qed auto

lemma verifyPages_iff:
  "verifyPages pd a d pg i k = Inr () \<longleftrightarrow> (\<forall>j. i \<le> j \<and> j < i + k \<longrightarrow> verifyPage pd a d pg j = Inr ())"
proof (induction k arbitrary: i)
  case (Suc k)
  show ?case unfolding range_step using Suc.IH [of "Suc i"] by (simp add: rbind_eq_Inr)
qed auto

lemma hashAt_ok: "off + HashSize d \<le> length (Raw d) \<Longrightarrow> hashAt d off = Inr (slice (Raw d) off (HashSize d))"
  by (simp add: hashAt_def rangeOK_iff)

lemma hashAt_page:
  assumes "directory_wf d" "i < CodeSlots d"
  shows "hashAt d (HashOffset d + i * HashSize d) = Inr (pageDigest d i)"
proof -
  have "(i + 1) * HashSize d \<le> CodeSlots d * HashSize d" using assms(2) by (intro mult_right_mono) simp_all
  with assms(1) show ?thesis by (simp add: hashAt_ok pageDigest_def directory_wf_def)
qed

lemma page_start_less:
  assumes "i < (limit + pg - 1) div pg" "0 < pg" shows "i * pg < (limit :: nat)"
proof -
  have "Suc i * pg \<le> limit + pg - 1"
    using assms by (metis Suc_leI div_times_less_eq_dividend le_trans mult_le_mono1)
  with assms(2) show ?thesis by simp
qed

lemma verifyPage_iff:
  assumes wf: "directory_wf d" and fits: "ar_Offset a + CodeLimit d \<le> length data" "int (length data) \<le> MaxInt64"
    and i: "i < CodeSlots d" "CodeSlots d = (CodeLimit d + pageSize d - 1) div pageSize d" "pageSize d \<noteq> 0"
  shows "verifyPage (memoryDigest H data) a d (pageSize d) i = Inr () \<longleftrightarrow> page_bound H data a d i"
    "safe (verifyPage (memoryDigest H data) a d (pageSize d) i)"
proof -
  let ?st = "ar_Offset a + i * pageSize d"
  have st: "i * pageSize d < CodeLimit d" using page_start_less i by simp
  have len: "min (?st + pageSize d) (ar_Offset a + CodeLimit d) - ?st = min (pageSize d) (CodeLimit d - i * pageSize d)"
    using st by linarith
  have "length (pageBytes data a d i) \<le> length data" by (simp add: pageBytes_def)
  then have "memoryDigest H data (HashType d) ?st (min (pageSize d) (CodeLimit d - i * pageSize d)) =
      digest H (HashType d) (pageBytes data a d i)"
    using fits st by (simp add: memoryDigest_def pageBytes_def digestContext_any)
  then show "verifyPage (memoryDigest H data) a d (pageSize d) i = Inr () \<longleftrightarrow> page_bound H data a d i"
    "safe (verifyPage (memoryDigest H data) a d (pageSize d) i)"
    using hashAt_page [OF wf i(1)] unfolding verifyPage_def Let_def len
    by (auto simp: page_bound_def verificationFailure_def guard_eq_Inr rbind_eq_Inr intro!: safe_rbind)
qed

section \<open>Slots\<close>

definition slotPayload :: "VerifyOptions \<Rightarrow> byte list \<Rightarrow> Signature \<Rightarrow> nat \<Rightarrow> byte list" where
  "slotPayload opts rep sig slot =
    (if slot = SlotInfo then vo_InfoPlist opts else if slot = SlotResources then vo_Resources opts
     else if slot = SlotRepSpecific \<and> rep \<noteq> [] then rep else find_blob (Blobs sig) slot)"

definition slot_bound :: "hash_lib \<Rightarrow> VerifyOptions \<Rightarrow> byte list \<Rightarrow> Signature \<Rightarrow> Directory \<Rightarrow> nat \<Rightarrow> bool" where
  "slot_bound H opts rep sig d slot \<longleftrightarrow>
     (vo_directoryOnly opts \<or> vo_IgnoreResources opts) \<and> slot = SlotResources \<or>
     (let want = slice (Raw d) (HashOffset d - slot * HashSize d) (HashSize d); p = slotPayload opts rep sig slot in
      if p = [] then want = replicate (HashSize d) 0 else digest H (HashType d) p = Inr want)"

definition payloads_fit :: "VerifyOptions \<Rightarrow> byte list \<Rightarrow> Signature \<Rightarrow> bool" where
  "payloads_fit opts rep sig \<longleftrightarrow> (\<forall>slot. int (length (slotPayload opts rep sig slot)) \<le> MaxInt64)"

lemma slotDigest_payload:
  assumes "int (length (slotPayload opts rep sig slot)) \<le> MaxInt64"
  shows "slotDigest H opts rep sig d slot =
    (let p = slotPayload opts rep sig slot in
     if p = [] then Inr ([], False) else rbind (digest H (HashType d) p) (\<lambda>h. Inr (h, True)))"
  using assms by (auto simp: slotDigest_def slotPayload_def componentDigest_def Let_def digestContext_any slot_defs)

lemma verifySlots_iff:
  "verifySlots H opts rep sig d slot k = Inr () \<longleftrightarrow>
   (\<forall>j. slot \<le> j \<and> j < slot + k \<longrightarrow> verifySlot H opts rep sig d j = Inr ())"
proof (induction k arbitrary: slot)
  case (Suc k)
  show ?case unfolding range_step using Suc.IH [of "Suc slot"] by (simp add: rbind_eq_Inr)
qed auto

lemma hashAt_slot:
  assumes wf: "directory_wf d" and slot: "slot \<le> SpecialSlots d" "1 \<le> slot"
  shows "hashAt d ((HashOffset d + 2 ^ 64 - slot * HashSize d) mod 2 ^ 64) =
      Inr (slice (Raw d) (HashOffset d - slot * HashSize d) (HashSize d))"
proof -
  have le: "slot * HashSize d \<le> HashOffset d" "HashOffset d \<le> length (Raw d)" "HashOffset d < 2 ^ 64"
    using wf mult_le_mono1 [OF slot(1), of "HashSize d"] unfolding directory_wf_def by (linarith, linarith, simp)
  have "HashSize d \<le> slot * HashSize d" using slot(2) by simp
  with le have "HashOffset d - slot * HashSize d + HashSize d \<le> length (Raw d)" by linarith
  then show ?thesis
  proof -
    have unwrap: "(h + m - k) mod m = h - k" if "k \<le> h" "h < m" for h k m :: nat
    proof -
      have eq: "h + m - k = (h - k) + m" using that(1) by simp
      have "h - k < m" using that(2) by (rule le_less_trans [OF diff_le_self])
      then show ?thesis unfolding eq mod_add_self2 by (rule mod_less)
    qed
    show ?thesis unfolding unwrap [OF le(1,3)] by (rule hashAt_ok) fact
  qed
qed

lemma verifySlot_iff:
  assumes wf: "directory_wf d" and slot: "slot \<le> SpecialSlots d" "1 \<le> slot" and fit: "payloads_fit opts rep sig"
  shows "verifySlot H opts rep sig d slot = Inr () \<longleftrightarrow> slot_bound H opts rep sig d slot"
    "safe (verifySlot H opts rep sig d slot)"
proof -
  note want = hashAt_slot [OF wf slot]
  have p: "int (length (slotPayload opts rep sig slot)) \<le> MaxInt64" using fit by (simp add: payloads_fit_def)
  show "verifySlot H opts rep sig d slot = Inr () \<longleftrightarrow> slot_bound H opts rep sig d slot"
    unfolding verifySlot_def want rbind_Inr slotDigest_payload [OF p] slot_bound_def Let_def
    by (auto simp: result_simps)
  show "safe (verifySlot H opts rep sig d slot)"
    unfolding verifySlot_def want rbind_Inr slotDigest_payload [OF p] Let_def
    by (auto simp: slotVerificationFailure_def result_simps intro!: safe_rbind)
qed

section \<open>Directories\<close>

text \<open>What an accepted directory states about the input.\<close>

definition directory_holds ::
  "hash_lib \<Rightarrow> VerifyOptions \<Rightarrow> byte list \<Rightarrow> byte list \<Rightarrow> architecture \<Rightarrow> Signature \<Rightarrow> byte list \<Rightarrow> Directory \<Rightarrow> bool" where
  "directory_holds H opts data rep a sig leaf d \<longleftrightarrow>
     (rep \<noteq> [] \<longrightarrow> SlotRepSpecific \<le> SpecialSlots d) \<and>
     CodeLimit d = ar_SignatureOffset a \<and> pageSize d \<noteq> 0 \<and> CodeSlots d = (CodeLimit d + pageSize d - 1) div pageSize d \<and>
     (vo_directoryOnly opts \<or> (\<forall>i < CodeSlots d. page_bound H data a d i)) \<and>
     (\<forall>slot. 1 \<le> slot \<and> slot \<le> SpecialSlots d \<longrightarrow> slot_bound H opts rep sig d slot) \<and>
     (leaf = [] \<longleftrightarrow> Flags d AND FlagAdhoc \<noteq> 0) \<and>
     (find_blob (Blobs sig) SlotRequirements = [] \<or> set_wf (find_blob (Blobs sig) SlotRequirements))"

lemma verifyDirectory_iff:
  assumes wf: "directory_wf d" and fits: "ar_Offset a + ar_SignatureOffset a \<le> length data" "int (length data) \<le> MaxInt64"
    and pay: "payloads_fit opts rep sig"
  shows "verifyDirectory H opts (memoryDigest H data) rep a sig leaf d = Inr () \<longleftrightarrow> directory_holds H opts data rep a sig leaf d"
proof (cases "CodeLimit d = ar_SignatureOffset a \<and> pageSize d \<noteq> 0 \<and> CodeSlots d = (CodeLimit d + pageSize d - 1) div pageSize d")
  case True
  then have lim: "ar_Offset a + CodeLimit d \<le> length data" using fits(1) by simp
  have pages: "verifyPages (memoryDigest H data) a d (pageSize d) 0 (CodeSlots d) = Inr () \<longleftrightarrow>
      (\<forall>i < CodeSlots d. page_bound H data a d i)"
    using verifyPage_iff(1) [OF wf lim fits(2)] True by (simp add: verifyPages_iff)
  have slots: "verifySlots H opts rep sig d 1 (SpecialSlots d) = Inr () \<longleftrightarrow>
      (\<forall>slot. 1 \<le> slot \<and> slot \<le> SpecialSlots d \<longrightarrow> slot_bound H opts rep sig d slot)"
    using verifySlot_iff(1) [OF wf _ _ pay] by (auto simp: verifySlots_iff less_Suc_eq_le)
  have any: "r = Inr ()" if "r = Inr u" for r :: "unit result" and u using that by simp
  show ?thesis
    using True pages slots
    by (auto simp: verifyDirectory_def directory_holds_def guard_eq_Inr rbind_eq_Inr validateRequirements_iff Let_def
        split: if_split_asm)
qed (auto simp: verifyDirectory_def directory_holds_def guard_eq_Inr)

lemma verifyDirectories_iff:
  "verifyDirectories H opts pd rep a sig leaf ds = Inr () \<longleftrightarrow>
   (\<forall>d \<in> set ds. verifyDirectory H opts pd rep a sig leaf d = Inr ())"
  by (induction ds) (auto simp: rbind_eq_Inr)

text \<open>No page or slot check panics.\<close>

lemma verifyPages_safe: "(\<And>j. i \<le> j \<Longrightarrow> j < i + k \<Longrightarrow> safe (verifyPage pd a d pg j)) \<Longrightarrow> safe (verifyPages pd a d pg i k)"
  by (induction k arbitrary: i) (auto intro!: safe_rbind)

lemma verifySlots_safe:
  "(\<And>j. slot \<le> j \<Longrightarrow> j < slot + k \<Longrightarrow> safe (verifySlot H opts rep sig d j)) \<Longrightarrow> safe (verifySlots H opts rep sig d slot k)"
  by (induction k arbitrary: slot) (auto intro!: safe_rbind)

lemma verifyDirectory_safe:
  assumes wf: "directory_wf d" and fits: "ar_Offset a + ar_SignatureOffset a \<le> length data" "int (length data) \<le> MaxInt64"
    and pay: "payloads_fit opts rep sig"
  shows "safe (verifyDirectory H opts (memoryDigest H data) rep a sig leaf d)"
proof -
  have "safe (verifyPages (memoryDigest H data) a d (pageSize d) 0 (CodeSlots d))"
    if "CodeLimit d = ar_SignatureOffset a" "pageSize d \<noteq> 0" "CodeSlots d = (CodeLimit d + pageSize d - 1) div pageSize d"
    using verifyPage_iff(2) [OF wf _ fits(2)] fits(1) that by (intro verifyPages_safe) simp
  moreover have "safe (verifySlots H opts rep sig d 1 (SpecialSlots d))"
    using verifySlot_iff(2) [OF wf _ _ pay] by (intro verifySlots_safe) simp
  ultimately show ?thesis
    unfolding verifyDirectory_def Let_def by (intro safe_if safe_rbind validateRequirements_safe) simp_all
qed

section \<open>The report's architectures\<close>

definition architecture_ok :: "hash_lib \<Rightarrow> byte list \<Rightarrow> architecture \<Rightarrow> bool" where
  "architecture_ok H data a \<longleftrightarrow> ar_chain a = [] \<and>
     (\<forall>sig. ar_Signature a = Some sig \<longrightarrow> ar_Offset a + ar_SignatureOffset a \<le> length data \<and>
        signature_wf H (slice data (ar_Offset a + ar_SignatureOffset a) (ar_SignatureSize a)) sig)"

lemma inspectSlice_ok:
  assumes "inspectSlice H (memoryRange data) s = Inr a" "image_wf (sl_size s) (sl_image s)" "sl_offset s + sl_size s \<le> length data"
  shows "architecture_ok H data a"
proof (cases "im_sigCommand (sl_image s) \<ge> 0")
  case True
  let ?off = "sl_offset s + im_sigOffset (sl_image s)" and ?n = "im_sigSize (sl_image s)"
  have fits: "?off + ?n \<le> length data" using assms(2,3) True by (auto simp: image_wf_def image_inv_def Let_def)
  from assms(1) True obtain sig where sig: "parseSignatureRange H ?n (subRange (memoryRange data) ?off) False = Inr sig"
    and a: "ar_Signature a = Some sig" "ar_Offset a = sl_offset s" "ar_SignatureOffset a = im_sigOffset (sl_image s)"
      "ar_SignatureSize a = ?n" "ar_chain a = []"
    by (auto simp: inspectSlice_def Let_def rbind_eq_Inr)
  have "range_source (subRange (memoryRange data) ?off) (slice data ?off ?n)"
    by (rule subRange_source [OF mem.range_source_axioms fits])
  moreover have "length (slice data ?off ?n) = ?n" using fits by simp
  ultimately have "signature_wf H (slice data ?off ?n) sig"
    using range_source.parseSignatureRange_wf [of _ "slice data ?off ?n" H False sig] sig by metis
  with a fits show ?thesis by (simp add: architecture_ok_def)
qed (use assms(1) in \<open>auto simp: inspectSlice_def Let_def architecture_ok_def\<close>)

lemma inspectSlices_ok:
  "inspectSlices H (memoryRange data) ss = Inr as \<Longrightarrow>
   \<forall>s \<in> set ss. image_wf (sl_size s) (sl_image s) \<and> sl_offset s + sl_size s \<le> length data \<Longrightarrow>
   \<forall>a \<in> set as. architecture_ok H data a"
  by (induction ss arbitrary: as) (auto simp: rbind_eq_Inr intro: inspectSlice_ok)

lemma inspectContainer_ok:
  assumes "parseContainer data = Inr c" "inspectContainer H c (memoryRange data) = Inr r"
  shows "rp_repSpecific r = [] \<and> (\<forall>a \<in> set (rp_Architectures r). architecture_ok H data a)"
proof -
  have "sl_offset s + sl_size s \<le> length data" if "s \<in> set (co_slices c)" for s
    using parseContainer_wf_lemma [OF assms(1)] that
    by (auto simp: container_wf_def slices_wf_def slice_ok_def split: if_split_asm)
  with parseContainer_wf_lemma [OF assms(1)] assms(2) show ?thesis
    by (auto simp: inspectContainer_def rbind_eq_Inr dest!: inspectSlices_ok)
qed

lemma signature_directories:
  assumes "signature_wf H content sig" "d \<in> set (Directories sig)" shows "directory_wf d"
proof -
  have "map Inr (Directories sig) = directoriesOf H (Blobs sig)" using assms(1) by (simp add: signature_wf_def)
  then have "Inr d \<in> set (directoriesOf H (Blobs sig))" using assms(2) by (metis image_eqI list.set_map)
  then show ?thesis by (auto simp: directoriesOf_def dest: parseDirectory_wf [OF sym])
qed

lemma find_blob_cases: "find_blob bs slot = [] \<or> (\<exists>b \<in> set bs. find_blob bs slot = Data b)"
  by (induction bs) auto

lemma signature_payloads:
  assumes "signature_wf H content sig" "int (length content) \<le> MaxInt64"
    "int (length (vo_InfoPlist opts)) \<le> MaxInt64" "int (length (vo_Resources opts)) \<le> MaxInt64"
  shows "payloads_fit opts [] sig"
proof -
  have "length (Data b) \<le> length content" if "b \<in> set (Blobs sig)" for b
  proof -
    from that obtain i where "i < length (Blobs sig)" "b = Blobs sig ! i" by (auto simp: in_set_conv_nth)
    with assms(1) have "blob_ok content (Length sig) (length (Blobs sig)) i b" "Length sig \<le> length content"
      by (auto simp: signature_wf_def)
    then show ?thesis by (auto simp: blob_ok_def)
  qed
  then have "length (find_blob (Blobs sig) slot) \<le> length content" for slot
    using find_blob_cases [of "Blobs sig" slot] by auto
  with assms(2-4) show ?thesis
    unfolding payloads_fit_def slotPayload_def by (smt (verit) of_nat_le_iff)
qed

section \<open>The loop over the architectures\<close>

definition selected :: "VerifyOptions \<Rightarrow> architecture \<Rightarrow> bool" where
  "selected opts a \<longleftrightarrow> vo_Architecture opts = [] \<or> vo_Architecture opts = ar_Name a"

lemma verifyLoop_ok:
  assumes "verifyLoop T opts pd is r arch found = (r', arch', found', None)" "distinct is" "set is \<subseteq> {..<length (rp_Architectures r)}"
  shows "(\<forall>i \<in> set is. selected opts (rp_Architectures r ! i) \<longrightarrow>
      (\<exists>path. verifyArchitecture T opts pd (rp_repSpecific r) (rp_Architectures r ! i) = Inr path)) \<and>
    (found' \<longrightarrow> found \<or> (\<exists>i \<in> set is. selected opts (rp_Architectures r ! i)))"
  using assms
proof (induction "is" arbitrary: r arch found)
  case (Cons i js)
  let ?a = "rp_Architectures r ! i"
  show ?case
  proof (cases "selected opts ?a")
    case False
    with Cons.prems(1) have "verifyLoop T opts pd js r arch found = (r', arch', found', None)"
      by (simp add: selected_def Let_def)
    from Cons.IH [OF this] Cons.prems(2,3) False show ?thesis by auto
  next
    case True
    with Cons.prems(1) obtain path where path: "verifyArchitecture T opts pd (rp_repSpecific r) ?a = Inr path"
      and rest: "verifyLoop T opts pd js (r\<lparr>rp_Architectures := (rp_Architectures r)[i := ?a\<lparr>ar_chain := path\<rparr>]\<rparr>) (ar_Name ?a) True =
        (r', arch', found', None)"
      by (auto simp: selected_def Let_def split: sum.split_asm)
    have same: "(rp_Architectures r)[i := x] ! j = rp_Architectures r ! j" if "j \<in> set js" for j x
      using that Cons.prems(2) by (metis distinct.simps(2) nth_list_update_neq)
    from Cons.IH [OF rest] Cons.prems(2,3) have "\<forall>j \<in> set js. selected opts (rp_Architectures r ! j) \<longrightarrow>
        (\<exists>path. verifyArchitecture T opts pd (rp_repSpecific r) (rp_Architectures r ! j) = Inr path)"
      by (auto simp: same)
    with path True show ?thesis by auto
  qed
qed simp

lemma preferArchitecture_less:
  "preferArchitecture as i sel = Some p \<Longrightarrow> (\<forall>s. sel = Some s \<longrightarrow> s < i + length as) \<Longrightarrow> p < i + length as"
proof (induction as arbitrary: i sel)
  case (Cons a as)
  from Cons.IH [of "Suc i" "if sel = None \<or> ar_Name a = str ''arm64'' then Some i else sel"] Cons.prems
  show ?case by (auto split: if_split_asm)
qed simp

lemma verificationArchitectures_order:
  "distinct (verificationArchitectures r) \<and> set (verificationArchitectures r) = {..<length (rp_Architectures r)}"
proof (cases "selectArchitecture r []")
  case (Some p)
  then have "p < length (rp_Architectures r)"
    using preferArchitecture_less [of "rp_Architectures r" 0 None p] by (simp add: selectArchitecture_def)
  with Some show ?thesis by (auto simp: verificationArchitectures_def Let_def)
qed (auto simp: verificationArchitectures_def Let_def)

text \<open>An accepted architecture: who signed it, and what each of its directories states.\<close>

definition architecture_holds :: "verify_tools \<Rightarrow> VerifyOptions \<Rightarrow> byte list \<Rightarrow> architecture \<Rightarrow> bool" where
  "architecture_holds T opts data a \<longleftrightarrow>
     (\<exists>sig leaf path. ar_Signature a = Some sig \<and> verifySigner T opts sig = Inr (leaf, path) \<and>
        (\<forall>d \<in> set (Directories sig). directory_holds (vt_hash T) opts data [] a sig leaf d))"

lemma verifyArchitecture_holds:
  assumes "architecture_ok (vt_hash T) data a" "int (length data) \<le> MaxInt64"
    "int (length (vo_InfoPlist opts)) \<le> MaxInt64" "int (length (vo_Resources opts)) \<le> MaxInt64"
  shows "(\<exists>path. verifyArchitecture T opts (memoryDigest (vt_hash T) data) [] a = Inr path) \<longleftrightarrow> architecture_holds T opts data a"
proof (cases "ar_Signature a")
  case (Some sig)
  have fits: "ar_Offset a + ar_SignatureOffset a \<le> length data"
    and sig: "signature_wf (vt_hash T) (slice data (ar_Offset a + ar_SignatureOffset a) (ar_SignatureSize a)) sig"
    using assms(1) Some by (simp_all add: architecture_ok_def)
  have "verifyDirectories (vt_hash T) opts (memoryDigest (vt_hash T) data) [] a sig leaf (Directories sig) = Inr () \<longleftrightarrow>
      (\<forall>d \<in> set (Directories sig). directory_holds (vt_hash T) opts data [] a sig leaf d)" for leaf
    using verifyDirectory_iff [OF signature_directories [OF sig] fits assms(2) signature_payloads [OF sig _ assms(3,4)]] assms(2)
    by (auto simp: verifyDirectories_iff)
  with Some show ?thesis by (auto simp: verifyArchitecture_def architecture_holds_def rbind_eq_Inr)
qed (simp add: verifyArchitecture_def architecture_holds_def)

lemma VerifyBytes_accepts:
  assumes ok: "VerifyBytes T opts data = (Some r, None)" and dmg: "isDMG (dm_size (vt_dmgLayout T)) data = Inr False"
    and fits: "int (length data) \<le> MaxInt64" "int (length (vo_InfoPlist opts)) \<le> MaxInt64" "int (length (vo_Resources opts)) \<le> MaxInt64"
  shows "\<exists>c r0. parseContainer data = Inr c \<and> inspectContainer (vt_hash T) c (memoryRange data) = Inr r0 \<and> rp_Valid r \<and>
    (\<exists>a \<in> set (rp_Architectures r0). selected opts a) \<and>
    (\<forall>a \<in> set (rp_Architectures r0). selected opts a \<longrightarrow> architecture_holds T opts data a) \<and>
    (\<not> vo_linkScope opts \<longrightarrow> verifyStrictLayout (dm_size (vt_dmgLayout T)) data (vo_Architecture opts) (vo_NoStrict opts) = Inr ()) \<and>
    finalChecks T opts r = Inr ()"
proof -
  let ?pd = "memoryDigest (vt_hash T) data" and ?strict = "verifyStrictLayout (dm_size (vt_dmgLayout T)) data"
  have pd: "(\<lambda>kind off len. rbind (slice_at data off len) (digestContext (vt_hash T) kind)) = ?pd"
    by (simp add: memoryDigest_def [abs_def])
  from ok have input: "verifyInput T opts False (InspectBytes T data) ?pd ?strict = (Some r, None)"
    by (simp add: VerifyBytes_def dmg pd)
  then obtain r0 where r0: "rbind (verifyOptionErrors opts False) (\<lambda>_. InspectBytes T data) = Inr r0"
    by (auto simp: verifyInput_def split: sum.split_asm)
  then obtain c where c: "parseContainer data = Inr c" "inspectContainer (vt_hash T) c (memoryRange data) = Inr r0"
    by (auto simp: rbind_eq_Inr InspectBytes_def dmg)
  note arch = inspectContainer_ok [OF c]
  let ?r = "r0\<lparr>rp_ResourcesIgnored := vo_IgnoreResources opts\<rparr>"
  obtain r1 name found failure where loop: "verifyLoop T opts ?pd (verificationArchitectures ?r) ?r [] False = (r1, name, found, failure)"
    using prod_cases4 by blast
  from input r0 arch loop have none: "failure = None" "found" "verifyPolicies T opts False ?strict = Inr ()"
      "finalChecks T opts (r1\<lparr>rp_Valid := True, rp_verifiedArchitecture := vo_Architecture opts\<rparr>) = Inr ()"
      "r = r1\<lparr>rp_Valid := True, rp_verifiedArchitecture := vo_Architecture opts\<rparr>"
    by (auto simp: verifyInput_def Let_def split: option.split_asm if_split_asm sum.split_asm)
  from verifyLoop_ok [OF loop [unfolded none(1)]] verificationArchitectures_order [of ?r] arch
  have each: "\<forall>i < length (rp_Architectures r0). selected opts (rp_Architectures r0 ! i) \<longrightarrow>
      (\<exists>path. verifyArchitecture T opts ?pd [] (rp_Architectures r0 ! i) = Inr path)"
    and some: "\<exists>i < length (rp_Architectures r0). selected opts (rp_Architectures r0 ! i)"
    using none(2) by auto
  have "architecture_holds T opts data a" if a: "a \<in> set (rp_Architectures r0)" "selected opts a" for a
  proof -
    have "\<exists>path. verifyArchitecture T opts ?pd [] a = Inr path" using each a by (auto simp: in_set_conv_nth)
    with verifyArchitecture_holds [OF _ fits] arch a(1) show ?thesis by blast
  qed
  moreover have "\<exists>a \<in> set (rp_Architectures r0). selected opts a" using some by auto
  moreover have "\<not> vo_linkScope opts \<longrightarrow> ?strict (vo_Architecture opts) (vo_NoStrict opts) = Inr ()"
    using none(3) by (auto simp: verifyPolicies_def rbind_eq_Inr)
  ultimately show ?thesis using c none(4,5) by (intro exI [of _ c] exI [of _ r0]) auto
qed

section \<open>Signing, then verifying\<close>

lemma chunks_nth:
  "0 < pg \<Longrightarrow> i < length (chunks pg xs) \<Longrightarrow> chunks pg xs ! i = slice xs (i * pg) (min pg (length xs - i * pg))"
proof (induction i arbitrary: xs)
  case 0
  then show ?case by (subst chunks.simps) (auto simp: slice_def min_def)
next
  case (Suc i)
  then have ne: "xs \<noteq> []" by auto
  with Suc.prems have ch: "chunks pg xs = take pg xs # chunks pg (drop pg xs)" by (subst chunks.simps) simp
  with Suc.prems Suc.IH [of "drop pg xs"] show ?case
    by (simp add: slice_def add.commute diff_diff_left)
qed

lemma slice_concat_uniform:
  "(\<And>x. length (f x) = n) \<Longrightarrow> i < length xs \<Longrightarrow> slice (concat (map f xs)) (i * n) n = f (xs ! i)"
proof (induction xs arbitrary: i)
  case (Cons x xs)
  then show ?case by (cases i) (simp_all add: slice_def)
qed simp

lemma adhoc_flag: "((f :: nat) OR FlagAdhoc) mod 2 ^ 32 AND FlagAdhoc \<noteq> 0"
proof -
  have "bit (((f OR 2) mod 2 ^ 32) AND 2) 1"
    unfolding take_bit_eq_mod [symmetric] by (simp add: bit_simps)
  then show ?thesis unfolding FlagAdhoc_def by (metis bit_0_eq bot_apply bot_bool_def)
qed

lemma find_signed_blob:
  assumes "distinct (0 # map Slot comps)"
  shows "b \<in> set comps \<Longrightarrow> find_blob (sort_key Slot (signedBlobs cd comps)) (Slot b) = Data b"
    "slot \<notin> Slot ` set comps \<Longrightarrow> slot \<noteq> 0 \<Longrightarrow> find_blob (sort_key Slot (signedBlobs cd comps)) slot = []"
proof -
  have "map Slot (signedBlobs cd comps) = 0 # map Slot comps" by (simp add: signedBlobs_def SlotDirectory_def comp_def)
  with assms have "distinct (map Slot (signedBlobs cd comps))" by simp
  then have dist: "distinct (map Slot (sort_key Slot (signedBlobs cd comps)))" unfolding distinct_map by simp
  {
    assume "b \<in> set comps"
    then have "withMagic b \<in> set (signedBlobs cd comps)" by (simp add: signedBlobs_def)
    then have "withMagic b \<in> set (sort_key Slot (signedBlobs cd comps))" by simp
    from find_blob_member [OF dist this] show "find_blob (sort_key Slot (signedBlobs cd comps)) (Slot b) = Data b" by simp
  next
    assume "slot \<notin> Slot ` set comps" "slot \<noteq> 0"
    then have "slot \<notin> Slot ` set (signedBlobs cd comps)" by (auto simp: signedBlobs_def SlotDirectory_def)
    then have "slot \<notin> Slot ` set (sort_key Slot (signedBlobs cd comps))" by simp
    then show "find_blob (sort_key Slot (signedBlobs cd comps)) slot = []" by (rule find_blob_absent)
  }
qed

text \<open>The slots of a signed image's directory, read back from its components.\<close>

lemma signed_payload:
  assumes comps: "signComponents tools opts im = Inr (special, execFlags, comps)" "signable H opts"
    and v: "vo_InfoPlist vopts = so_InfoPlist opts" "vo_Resources vopts = so_Resources opts"
    and slot: "1 \<le> slot" "slot < 0x1000"
    and sig: "Blobs sig = sort_key Slot (signedBlobs cd comps)"
  shows "(slotPayload vopts [] sig slot = [] \<and> slot \<notin> fst ` set (specialData opts comps)) \<or>
    (slotPayload vopts [] sig slot \<noteq> [] \<and> (slot, slotPayload vopts [] sig slot) \<in> set (specialData opts comps))"
proof -
  have req: "so_Requirements opts = [] \<or> 8 \<le> length (so_Requirements opts)" using assms(2) by (auto simp: signable_def)
  have c: "distinct (0 # map Slot comps)" "\<forall>b \<in> set comps. 8 \<le> length (Data b)"
    "\<forall>b \<in> set comps. Slot b \<noteq> SlotInfo \<and> Slot b \<noteq> SlotResources"
    using signComponents_ok(1,2) [OF comps(1) req] comps(1)
    by (auto simp: signComponents_def Let_def rbind_eq_Inr slot_defs split: if_split_asm)
  have special: "(s, x) \<in> set (specialData opts comps) \<longleftrightarrow> (\<exists>b \<in> set comps. Slot b = s \<and> Data b = x \<and> s < 0x1000) \<or>
      x \<noteq> [] \<and> (s = SlotInfo \<and> x = so_InfoPlist opts \<or> s = SlotResources \<and> x = so_Resources opts)" for s x
    by (auto simp: specialData_def)
  show ?thesis
  proof (cases "slot = SlotInfo \<or> slot = SlotResources")
    case True
    then show ?thesis using v c(3) special by (fastforce simp: slotPayload_def slot_defs)
  next
    case False
    have p: "slotPayload vopts [] sig slot = find_blob (sort_key Slot (signedBlobs cd comps)) slot"
      using False sig by (simp add: slotPayload_def)
    show ?thesis
    proof (cases "\<exists>b \<in> set comps. Slot b = slot")
      case True
      then obtain b where b: "b \<in> set comps" "Slot b = slot" by blast
      from find_signed_blob(1) [OF c(1) b(1)] b(2) p have "slotPayload vopts [] sig slot = Data b" by simp
      with b c(2) special slot(2) show ?thesis by fastforce
    next
      case none: False
      then have "slot \<notin> Slot ` set comps" by auto
      with find_signed_blob(2) [OF c(1)] slot(1) p none False special show ?thesis by fastforce
    qed
  qed
qed

text \<open>The options of a verification that supplies what the signer was given.\<close>

definition matching_options :: "SignOptions \<Rightarrow> VerifyOptions \<Rightarrow> bool" where
  "matching_options opts vopts \<longleftrightarrow> vo_InfoPlist vopts = so_InfoPlist opts \<and> vo_Resources vopts = so_Resources opts \<and>
     (so_Requirements opts = [] \<or> set_wf (so_Requirements opts))"

lemma empty_set_wf: "set_wf (superblob MagicRequirements [])"
proof -
  have "entries_ok []" by (simp add: entries_ok_def requirementSetBytes_def superblob_def)
  from written_set_wf [OF this] show ?thesis by (simp add: requirementSetBytes_def)
qed

lemma signed_requirements:
  fixes sig :: Signature
  assumes "signComponents tools opts im = Inr (special, execFlags, comps)" "signable H opts" "matching_options opts vopts"
    "Blobs sig = sort_key Slot (signedBlobs cd comps)"
  shows "set_wf (find_blob (Blobs sig) SlotRequirements)"
proof -
  let ?vopts = "undefined\<lparr>vo_InfoPlist := so_InfoPlist opts, vo_Resources := so_Resources opts\<rparr>"
  let ?data = "if so_Requirements opts = [] then superblob MagicRequirements [] else so_Requirements opts"
  have "\<lparr>Slot = SlotRequirements, Magic = 0, Data = ?data\<rparr> \<in> set comps"
    using assms(1) by (auto simp: signComponents_def Let_def rbind_eq_Inr split: if_split_asm)
  then have member: "(SlotRequirements, ?data) \<in> set (specialData opts comps)"
    by (force simp: specialData_def SlotRequirements_def)
  have distinct: "distinct (map fst (specialData opts comps))"
    using signComponents_ok(3) [OF assms(1)] assms(2) by (auto simp: signable_def)
  have "slotPayload ?vopts [] sig SlotRequirements = ?data"
  proof -
    have "vo_InfoPlist ?vopts = so_InfoPlist opts" "vo_Resources ?vopts = so_Resources opts"
      "1 \<le> SlotRequirements" "SlotRequirements < 0x1000"
      by (simp_all add: SlotRequirements_def)
    from signed_payload [OF assms(1,2) this assms(4)] member
    have "(SlotRequirements, slotPayload ?vopts [] sig SlotRequirements) \<in> set (specialData opts comps)" by force
    from eq_key_imp_eq_value [OF distinct this member] show ?thesis .
  qed
  then have "find_blob (Blobs sig) SlotRequirements = ?data" by (simp add: slotPayload_def slot_defs)
  then show ?thesis using empty_set_wf assms(3) by (auto simp: matching_options_def)
qed

lemma slice_take: "off + n \<le> k \<Longrightarrow> slice (take k xs) off n = slice xs off n"
  by (simp add: slice_def drop_take min_def)

text \<open>A directory with the page digests of the code binds every page.\<close>

lemma digests_bind_pages:
  assumes H: "hash_lib_ok H" and d: "HashType d = 2" "HashSize d = 32" "CodeLimit d = codeEnd" "codeEnd \<le> length ys" "0 < pageSize d"
    "CodeSlots d = (codeEnd + pageSize d - 1) div pageSize d"
    and digests: "slice (Raw d) (HashOffset d) (32 * CodeSlots d) = pageDigests H (pageSize d) (take codeEnd ys)"
    and a: "ar_Offset a = 0" and i: "i < CodeSlots d"
  shows "page_bound H ys a d i"
proof -
  let ?pg = "pageSize d" and ?code = "take codeEnd ys"
  have n: "length (chunks ?pg ?code) = CodeSlots d" using d by (simp add: length_chunks)
  have "pageDigest d i = slice (slice (Raw d) (HashOffset d) (32 * CodeSlots d)) (i * 32) 32"
    using i by (simp add: pageDigest_def d(2) slice_slice)
  also have "\<dots> = sha256 H (chunks ?pg ?code ! i)"
    unfolding digests pageDigests_def using i n H by (intro slice_concat_uniform) (simp_all add: hash_lib_ok_def)
  also have "chunks ?pg ?code ! i = pageBytes ys a d i"
  proof -
    have st: "i * ?pg < codeEnd" using i page_start_less [of i codeEnd ?pg] d(5,6) by simp
    have "chunks ?pg ?code ! i = slice ?code (i * ?pg) (min ?pg (length ?code - i * ?pg))"
      using i n d(5) by (intro chunks_nth) simp_all
    also have "length ?code = codeEnd" using d(4) by simp
    also have "slice ?code (i * ?pg) (min ?pg (codeEnd - i * ?pg)) = slice ys (i * ?pg) (min ?pg (codeEnd - i * ?pg))"
      using st by (intro slice_take) linarith
    finally show ?thesis by (simp add: pageBytes_def a d(3))
  qed
  finally show ?thesis by (simp add: page_bound_def d(1) digest_def)
qed

lemma signed_directory_holds:
  fixes sig :: Signature
  assumes img: "signed_image H opts comps ps ys codeEnd d" and comps: "signComponents tools opts im = Inr (special, execFlags, comps)"
    and ok: "signable H opts" and v: "matching_options opts vopts" and pages: "PageExponent d \<noteq> 0"
    and a: "ar_Offset a = 0" "ar_SignatureOffset a = codeEnd"
    and sig: "Blobs sig = sort_key Slot (signedBlobs (Raw d) comps)"
  shows "directory_holds H vopts ys [] a sig [] d"
proof -
  have H: "hash_lib_ok H" using ok by (simp add: signable_def)
  have d: "codeEnd \<le> length ys" "CodeLimit d = codeEnd" "HashType d = 2" "HashSize d = 32"
      "Flags d = (so_Flags opts OR FlagAdhoc) mod 2 ^ 32"
      "CodeSlots d = (codeEnd + 2 ^ PageExponent d - 1) div 2 ^ PageExponent d"
      "slice (Raw d) (HashOffset d) (32 * CodeSlots d) = pageDigests H (2 ^ PageExponent d) (take codeEnd ys)"
      "\<forall>(slot, data) \<in> set (specialData opts comps). slice (Raw d) (HashOffset d - slot * 32) 32 = sha256 H data"
      "\<forall>slot. 1 \<le> slot \<and> slot \<le> SpecialSlots d \<and> slot \<notin> fst ` set (specialData opts comps) \<longrightarrow>
         slice (Raw d) (HashOffset d - slot * 32) 32 = replicate 32 0" "SpecialSlots d \<le> 7"
    using img by (auto simp: signed_image_def Let_def)
  have psize: "pageSize d = 2 ^ PageExponent d" using pages by (simp add: pageSize_def)
  have page: "page_bound H ys a d i" if "i < CodeSlots d" for i
    using d(7) that by (intro digests_bind_pages [OF H d(3,4,2,1)]) (simp_all add: psize d(6) a)
  have slot: "slot_bound H vopts [] sig d slot" if s: "1 \<le> slot" "slot \<le> SpecialSlots d" for slot
  proof -
    have "slot < 0x1000" using s(2) d(10) by simp
    note p = signed_payload [OF comps ok _ _ s(1) this sig, of vopts]
    show ?thesis
    proof (cases "slotPayload vopts [] sig slot = []")
      case True
      with p v d(9) s show ?thesis by (auto simp: slot_bound_def Let_def d(4) matching_options_def)
    next
      case False
      with p v d(8) s show ?thesis by (auto simp: slot_bound_def Let_def d(3,4) digest_def matching_options_def)
    qed
  qed
  have "(so_Flags opts OR FlagAdhoc) mod 2 ^ 32 AND FlagAdhoc \<noteq> 0" by (rule adhoc_flag)
  then show ?thesis
    using page slot d(2,5,6) a(2) psize signed_requirements [OF comps ok v sig]
    by (simp add: directory_holds_def)
qed

text \<open>The signature that lies at the end of the code of a signed image.\<close>

lemma signed_image_signature:
  assumes "signed_image H opts comps ps ys codeEnd d"
  defines "sb \<equiv> superblob MagicSignature (signedBlobs (Raw d) comps)"
  shows "\<exists>sig. parseSignature H sb False = Inr sig \<and> slice ys codeEnd (Length sig) = sb \<and> Length sig = length sb \<and>
    Blobs sig = sort_key Slot (signedBlobs (Raw d) comps) \<and> Directories sig = [d]"
  using assms(1) unfolding signed_image_def Let_def sb_def by (auto simp: slice_overwrite_same)

lemma signed_directory_accepted:
  assumes "signed_image H opts comps ps ys codeEnd d" "signComponents tools opts im = Inr (special, execFlags, comps)"
    "signable H opts" "matching_options opts vopts" "PageExponent d \<noteq> 0"
    "parseSignature H (superblob MagicSignature (signedBlobs (Raw d) comps)) False = Inr sig"
    "ar_Offset a = 0" "ar_SignatureOffset a = codeEnd" "int (length ys) \<le> MaxInt64"
  shows "verifyDirectory H vopts (memoryDigest H ys) [] a sig [] d = Inr ()"
proof -
  let ?sb = "superblob MagicSignature (signedBlobs (Raw d) comps)"
  from assms(1,6) have sig: "Blobs sig = sort_key Slot (signedBlobs (Raw d) comps)" "Directories sig = [d]"
      and len: "codeEnd + length ?sb \<le> length ys"
    by (auto simp: signed_image_def Let_def)
  from assms(6) have wf: "signature_wf H ?sb sig"
    using mem.parseSignatureRange_wf [of H ?sb False sig] by (simp add: parseSignature_def)
  have fit: "payloads_fit vopts [] sig"
    using assms(3,4,9) len by (intro signature_payloads [OF wf]) (auto simp: matching_options_def signable_def)
  have "ar_Offset a + ar_SignatureOffset a \<le> length ys" using assms(7,8) len by simp
  note iff = verifyDirectory_iff [OF signature_directories [OF wf, of d] this assms(9) fit]
  from signed_directory_holds [OF assms(1-5,7,8) sig(1)] sig(2) iff show ?thesis by simp
qed

text \<open>An ad-hoc signature has no signer.\<close>

lemma signed_without_signer:
  fixes sig :: Signature
  assumes "signComponents tools opts im = Inr (special, execFlags, comps)" "signable H opts"
    "Blobs sig = sort_key Slot (signedBlobs cd comps)"
  shows "verifySigner T vopts sig = Inr ([], [])"
proof -
  have "so_Requirements opts = [] \<or> 8 \<le> length (so_Requirements opts)" using assms(2) by (auto simp: signable_def)
  note c = signComponents_ok(1) [OF assms(1) this]
  have "\<lparr>Slot = SlotCMS, Magic = 0, Data = blob MagicCMS []\<rparr> \<in> set comps"
    using assms(1) by (auto simp: signComponents_def Let_def rbind_eq_Inr split: if_split_asm)
  from find_signed_blob(1) [OF c this] assms(3) show ?thesis by (simp add: verifySigner_def blob_def)
qed

section \<open>Properties\<close>

text \<open>
  C12. Soundness of verification: when VerifyBytes accepts a Mach-O input, the input parses,
  the report is valid, at least one architecture was selected, and for every selected one
  the signature has a signer decision and every directory covers the code up to the
  signature, with all page digests, all special slots (present data or a zero digest), the
  ad-hoc flag exactly without a signer and well-formed requirements; the strict layout and
  the requested requirement checks hold too.
\<close>

theorem VerifyBytes_sound:
  assumes "VerifyBytes T opts data = (Some r, None)" "isDMG (dm_size (vt_dmgLayout T)) data = Inr False" "int (length data) \<le> MaxInt64"
    "int (length (vo_InfoPlist opts)) \<le> MaxInt64" "int (length (vo_Resources opts)) \<le> MaxInt64"
  shows "\<exists>c r0. parseContainer data = Inr c \<and> inspectContainer (vt_hash T) c (memoryRange data) = Inr r0 \<and> rp_Valid r \<and>
    (\<exists>a \<in> set (rp_Architectures r0). selected opts a) \<and>
    (\<forall>a \<in> set (rp_Architectures r0). selected opts a \<longrightarrow> architecture_holds T opts data a) \<and>
    (\<not> vo_linkScope opts \<longrightarrow> verifyStrictLayout (dm_size (vt_dmgLayout T)) data (vo_Architecture opts) (vo_NoStrict opts) = Inr ()) \<and>
    finalChecks T opts r = Inr ()"
  using assms by (rule VerifyBytes_accepts)

definition plainOptions :: VerifyOptions where
  "plainOptions = \<lparr>vo_IgnoreResources = False, vo_NoStrict = False, vo_StrictSymlinks = False, vo_StrictSideband = False,
     vo_AppleDouble = False, vo_AppleDoubleFiles = False, vo_Architecture = [], vo_InfoPlist = [], vo_Resources = [],
     vo_Requirement = [], vo_CheckDesignatedRequirement = False, vo_TrustedCertificates = [], vo_TrustedRoots = [],
     vo_TimestampRoots = [], vo_CurrentTime = None, vo_directoryOnly = False, vo_linkScope = True, vo_sidebandFile = False,
     vo_sidebandObject = False\<rparr>"

definition plainTools :: verify_tools where
  "plainTools = \<lparr>vt_hash = sampleHash, vt_crypto = \<lparr>verifyPKCS1v15 = \<lambda>_ _ _ _. False, verifyASN1 = \<lambda>_ _ _ _. False\<rparr>,
     vt_parse = \<lambda>_. Inl Panic, vt_verifyCMS = \<lambda>_ _. Inl Panic, vt_now = 0, vt_sidebandFirst = Inr [],
     vt_dmgLayout = udifLayout, vt_unicode = \<lparr>uni_letter = \<lambda>_. False, uni_digit = \<lambda>_. False\<rparr>\<rparr>"

text \<open>A header with a signature command, and a SuperBlob of one directory of one page.\<close>

definition tinyDirectory :: "byte list" where
  "tinyDirectory = put32 MagicDirectory @ put32 78 @ put32 0x20001 @ put32 2 @ put32 46 @ put32 44 @ put32 0 @ put32 1 @ put32 44 @
     [32, 2, 0, 12] @ replicate 4 0 @ str ''a'' @ [0] @ replicate 32 44"

definition tinySigned :: "byte list" where
  "tinySigned = [0xfe, 0xed, 0xfa, 0xce] @ replicate 8 0 @ put32 2 @ put32 1 @ put32 16 @ put32 0 @
     put32 0x1d @ put32 16 @ put32 44 @ put32 98 @
     put32 MagicSignature @ put32 98 @ put32 1 @ put32 0 @ put32 20 @ tinyDirectory"

theorem VerifyBytes_sound_witness:
  "\<exists>r c r0. VerifyBytes plainTools plainOptions tinySigned = (Some r, None) \<and> parseContainer tinySigned = Inr c \<and>
     inspectContainer sampleHash c (memoryRange tinySigned) = Inr r0 \<and>
     (\<forall>a \<in> set (rp_Architectures r0). architecture_holds plainTools plainOptions tinySigned a)"
proof -
  have "case VerifyBytes plainTools plainOptions tinySigned of (Some _, None) \<Rightarrow> True | _ \<Rightarrow> False" by code_simp
  then obtain r where r: "VerifyBytes plainTools plainOptions tinySigned = (Some r, None)"
    by (auto split: prod.split_asm option.split_asm)
  have "isDMG (dm_size (vt_dmgLayout plainTools)) tinySigned = Inr False" by code_simp
  moreover have "int (length tinySigned) \<le> MaxInt64" by code_simp
  moreover have "int (length (vo_InfoPlist plainOptions)) \<le> MaxInt64" "int (length (vo_Resources plainOptions)) \<le> MaxInt64"
    by (simp_all add: plainOptions_def MaxInt64_def)
  ultimately have "\<exists>c r0. parseContainer tinySigned = Inr c \<and> inspectContainer (vt_hash plainTools) c (memoryRange tinySigned) = Inr r0 \<and>
      (\<forall>a \<in> set (rp_Architectures r0). selected plainOptions a \<longrightarrow> architecture_holds plainTools plainOptions tinySigned a)"
    using VerifyBytes_sound [OF r] by blast
  with r show ?thesis by (simp add: selected_def plainOptions_def plainTools_def)
qed

text \<open>
  C13. What ad-hoc signing writes, verification accepts: when signing an image with a page size
  above one returns, the signature at the end of the code parses with one directory that covers
  the code, and verification of the architecture that lies at the start of the output with that
  signature accepts it without a signer: all pages, all special slots, the flags and the
  requirements hold. Verification has to be given the Info.plist and resources the signer was
  given, and requirements the signer was given have to be well-formed.
\<close>

theorem signed_directory_verifies:
  assumes "signable H opts" "delivers src xs" "image_wf (length xs) im" "signImageSource H tools opts im src = Inr out"
    "signPage opts im = Inr pg" "1 < pg" "matching_options opts vopts" "ar_Offset a = 0" "vt_hash T = H"
  shows "\<exists>ys codeEnd sig d. delivers out ys \<and> signCodeEnd im src = Inr codeEnd \<and>
    parseSignature H (slice ys codeEnd (Length sig)) False = Inr sig \<and> Directories sig = [d] \<and>
    Identifier d = so_Identifier opts \<and> CodeLimit d = codeEnd \<and>
    verifyArchitecture T vopts (memoryDigest H ys) [] (a\<lparr>ar_SignatureOffset := codeEnd, ar_Signature := Some sig\<rparr>) = Inr []"
proof -
  from signImageSource_signed [OF assms(1-4)] obtain comps codeEnd sigSize ys d special execFlags where
      y: "delivers out ys" "signCodeEnd im src = Inr codeEnd" "signComponents tools opts im = Inr (special, execFlags, comps)"
      "signPage opts im = Inr (2 ^ PageExponent d)"
      "signed_image H opts comps (commandBytes im xs codeEnd sigSize) ys codeEnd d" by blast
  from signed_image_signature [OF y(5)] obtain sig where
      sig: "parseSignature H (superblob MagicSignature (signedBlobs (Raw d) comps)) False = Inr sig"
      "slice ys codeEnd (Length sig) = superblob MagicSignature (signedBlobs (Raw d) comps)"
      "Blobs sig = sort_key Slot (signedBlobs (Raw d) comps)" "Directories sig = [d]" by blast
  have pe: "PageExponent d \<noteq> 0"
  proof
    assume "PageExponent d = 0"
    with y(4) assms(5,6) show False by simp
  qed
  have fits: "int (length ys) \<le> MaxInt64" using y(1) by (auto simp: delivers_def)
  let ?a = "a\<lparr>ar_SignatureOffset := codeEnd, ar_Signature := Some sig\<rparr>"
  have "verifyDirectory H vopts (memoryDigest H ys) [] ?a sig [] d = Inr ()"
    using signed_directory_accepted [OF y(5,3) assms(1,7) pe sig(1) _ _ fits, of ?a] assms(8) by simp
  then have "verifyArchitecture T vopts (memoryDigest H ys) [] ?a = Inr []"
    using signed_without_signer [OF y(3) assms(1) sig(3), of T vopts] sig(4) assms(9) by (simp add: verifyArchitecture_def)
  moreover have "Identifier d = so_Identifier opts" "CodeLimit d = codeEnd" using y(5) by (simp_all add: signed_image_def Let_def)
  moreover have "parseSignature H (slice ys codeEnd (Length sig)) False = Inr sig" unfolding sig(2) by (rule sig(1))
  ultimately show ?thesis using y(1,2) sig(4) by blast
qed

lemma thin_signed_image:
  "\<exists>ys comps codeEnd sigSize d special execFlags. signComponents noTools adhocOptions thinImage = Inr (special, execFlags, comps) \<and>
     length ys = 384 \<and> signPage adhocOptions thinImage = Inr (2 ^ PageExponent d) \<and>
     signed_image sampleHash adhocOptions comps (commandBytes thinImage thinData codeEnd sigSize) ys codeEnd d"
proof -
  from thin_signs obtain out zs where out: "signImageSource sampleHash noTools adhocOptions thinImage (byteOutput thinData) = Inr out"
    and zs: "delivers out zs" "length zs = 128 + signatureSize adhocOptions 48 146 adhocComponents" by blast
  from signImageSource_signed [OF adhoc_signable thin_delivered thinImage(3) out] obtain comps codeEnd sigSize ys d special execFlags where
      ys: "delivers out ys" "signComponents noTools adhocOptions thinImage = Inr (special, execFlags, comps)"
      "signPage adhocOptions thinImage = Inr (2 ^ PageExponent d)"
      "signed_image sampleHash adhocOptions comps (commandBytes thinImage thinData codeEnd sigSize) ys codeEnd d" by blast
  have "length ys = length zs" using delivers_range [OF ys(1)] delivers_range [OF zs(1)] by simp
  also have "\<dots> = 384"
    unfolding zs(2) by (simp add: signatureSize_def adhocOptions_def adhocComponents_def superblob_def blob_def legacySigningProfile_def)
  finally show ?thesis using ys by blast
qed

definition bareArchitecture :: "nat \<Rightarrow> architecture" where
  "bareArchitecture at = \<lparr>ar_VersionPlatform = 0, ar_VersionMin = 0, ar_VersionSDK = 0, ar_Name = [], ar_CPU = 0, ar_Subtype = 0,
     ar_Offset = 0, ar_Size = 0, ar_SignatureOffset = at, ar_SignatureSize = 0, ar_Signature = None, ar_chain = []\<rparr>"

theorem signed_directory_verifies_witness:
  "\<exists>out ys codeEnd sig. signImageSource sampleHash noTools adhocOptions thinImage (byteOutput thinData) = Inr out \<and> delivers out ys \<and>
     verifyArchitecture plainTools (plainOptions\<lparr>vo_InfoPlist := [1]\<rparr>) (memoryDigest sampleHash ys) []
       ((bareArchitecture 0)\<lparr>ar_SignatureOffset := codeEnd, ar_Signature := Some sig\<rparr>) = Inr []"
proof -
  from thin_signs obtain out where out: "signImageSource sampleHash noTools adhocOptions thinImage (byteOutput thinData) = Inr out" by blast
  have page: "signPage adhocOptions thinImage = Inr 4096"
    using thinImage(2) by (simp add: signPage_def adhocOptions_def plainExecutable_def)
  have "set_wf (so_Requirements adhocOptions)" using empty_set_wf by (simp add: adhocOptions_def)
  then have "matching_options adhocOptions (plainOptions\<lparr>vo_InfoPlist := [1]\<rparr>)"
    by (simp add: matching_options_def plainOptions_def adhocOptions_def)
  from signed_directory_verifies [OF adhoc_signable thin_delivered thinImage(3) out page _ this, of "bareArchitecture 0" plainTools] out
  show ?thesis by (auto simp: bareArchitecture_def plainTools_def)
qed

text \<open>
  C14. One directory binds one code: two inputs that both pass the same directory's checks,
  pages included, have the same bytes before the signature, or there is a page on which they
  differ although the digest of either is the one the directory records for that page.
\<close>

theorem same_directory_same_code:
  assumes wf: "directory_wf d" and full: "\<not> vo_directoryOnly opts"
    and a: "ar_Offset a + ar_SignatureOffset a \<le> length data" "int (length data) \<le> MaxInt64" "payloads_fit opts rep sig"
    and b: "ar_Offset b + ar_SignatureOffset b \<le> length other" "int (length other) \<le> MaxInt64" "payloads_fit opts rep sig"
    and acc: "verifyDirectory H opts (memoryDigest H data) rep a sig leaf d = Inr ()"
      "verifyDirectory H opts (memoryDigest H other) rep b sig leaf d = Inr ()"
  shows "slice data (ar_Offset a) (CodeLimit d) = slice other (ar_Offset b) (CodeLimit d) \<or>
    (\<exists>i < CodeSlots d. pageBytes data a d i \<noteq> pageBytes other b d i \<and>
       digest H (HashType d) (pageBytes data a d i) = Inr (pageDigest d i) \<and>
       digest H (HashType d) (pageBytes other b d i) = Inr (pageDigest d i))"
proof (rule ccontr)
  assume neg: "\<not> ?thesis"
  from acc have h: "directory_holds H opts data rep a sig leaf d" "directory_holds H opts other rep b sig leaf d"
    using verifyDirectory_iff [OF wf a] verifyDirectory_iff [OF wf b] by blast+
  then have lim: "CodeLimit d = ar_SignatureOffset a" "CodeLimit d = ar_SignatureOffset b" "pageSize d \<noteq> 0"
      "CodeSlots d = (CodeLimit d + pageSize d - 1) div pageSize d"
    by (simp_all add: directory_holds_def)
  have pages: "pageBytes data a d i = pageBytes other b d i" if "i < CodeSlots d" for i
    using h full that neg unfolding directory_holds_def page_bound_def by metis
  have len: "length (slice data (ar_Offset a) (CodeLimit d)) = CodeLimit d" "length (slice other (ar_Offset b) (CodeLimit d)) = CodeLimit d"
    using a(1) b(1) lim by simp_all
  have "slice data (ar_Offset a) (CodeLimit d) = slice other (ar_Offset b) (CodeLimit d)"
  proof (rule nth_equalityI)
    fix k assume "k < length (slice data (ar_Offset a) (CodeLimit d))"
    then have k: "k < CodeLimit d" using len by simp
    let ?i = "k div pageSize d" and ?j = "k mod pageSize d"
    have "Suc ?i = (k + pageSize d) div pageSize d" using lim(3) by (subst div_add_self2) simp_all
    also have "\<dots> \<le> (CodeLimit d + pageSize d - 1) div pageSize d" using k lim(3) by (intro div_le_mono) simp
    finally have i: "?i < CodeSlots d" unfolding lim(4) by simp
    have at: "?i * pageSize d + ?j = k" by simp
    have "?j < pageSize d" using lim(3) by simp
    then have j: "?j < min (pageSize d) (CodeLimit d - ?i * pageSize d)" using k at by linarith
    have "slice data (ar_Offset a) (CodeLimit d) ! k = pageBytes data a d ?i ! ?j"
      using j k a(1) lim at by (simp add: pageBytes_def slice_def add.assoc)
    also have "\<dots> = pageBytes other b d ?i ! ?j" by (simp add: pages [OF i])
    also have "\<dots> = slice other (ar_Offset b) (CodeLimit d) ! k"
      using j k b(1) lim at by (simp add: pageBytes_def slice_def add.assoc)
    finally show "slice data (ar_Offset a) (CodeLimit d) ! k = slice other (ar_Offset b) (CodeLimit d) ! k" .
  qed (use len in simp)
  with neg show False by blast
qed

definition noBlobs :: Signature where
  "noBlobs = \<lparr>Length = 0, Blobs = [], Directories = []\<rparr>"

theorem same_directory_same_code_witness:
  "\<exists>d. verifyDirectory sampleHash plainOptions (memoryDigest sampleHash tinySigned) [] (bareArchitecture 44) noBlobs [] d = Inr () \<and>
     (slice tinySigned 0 44 = slice (take 44 tinySigned @ [7]) 0 44 \<or>
      (\<exists>i < CodeSlots d. pageBytes tinySigned (bareArchitecture 44) d i \<noteq> pageBytes (take 44 tinySigned @ [7]) (bareArchitecture 44) d i))"
proof -
  let ?v = "\<lambda>data d. verifyDirectory sampleHash plainOptions (memoryDigest sampleHash data) [] (bareArchitecture 44) noBlobs [] d"
  have "case parseDirectory sampleHash tinyDirectory of
      Inr d \<Rightarrow> ?v tinySigned d = Inr () \<and> ?v (take 44 tinySigned @ [7]) d = Inr () \<and> HashType d = 2 \<and> CodeLimit d = 44
    | Inl _ \<Rightarrow> False" by code_simp
  then obtain d where d: "parseDirectory sampleHash tinyDirectory = Inr d" "?v tinySigned d = Inr ()"
      "?v (take 44 tinySigned @ [7]) d = Inr ()" "HashType d = 2" "CodeLimit d = 44"
    by (auto split: sum.split_asm)
  have fit: "payloads_fit plainOptions [] noBlobs"
    by (simp add: payloads_fit_def slotPayload_def plainOptions_def noBlobs_def MaxInt64_def)
  have len: "length tinySigned = 142" by (simp add: tinySigned_def tinyDirectory_def str_def)
  have wf: "directory_wf d" using parseDirectory_wf [OF d(1)] by blast
  have "\<not> vo_directoryOnly plainOptions" by (simp add: plainOptions_def)
  from same_directory_same_code [OF wf this _ _ fit _ _ fit d(2,3)] len d show ?thesis
    by (auto simp: bareArchitecture_def MaxInt64_def)
qed

text \<open>
  C16. A page size of one is signed but never verifies: the directory's page exponent 0 means
  one page for the whole code to verification, while signing wrote one digest per byte.
\<close>

theorem page_size_one_unverifiable:
  assumes "signable H opts" "delivers src xs" "image_wf (length xs) im" "so_PageSize opts = 1"
    "signImageSource H tools opts im src = Inr out"
  shows "\<exists>ys comps ps codeEnd d. delivers out ys \<and> signed_image H opts comps ps ys codeEnd d \<and>
    (\<forall>vopts pd rep a sig leaf. verifyDirectory H vopts pd rep a sig leaf d \<noteq> Inr ())"
proof -
  from signImageSource_signed [OF assms(1-3,5)] obtain comps codeEnd sigSize ys d special execFlags where
      y: "delivers out ys" "signCodeEnd im src = Inr codeEnd" "signPage opts im = Inr (2 ^ PageExponent d)"
      "signed_image H opts comps (commandBytes im xs codeEnd sigSize) ys codeEnd d" by blast
  have "PageExponent d = 0" using y(3) assms(4) by (cases "PageExponent d") (auto simp: signPage_def)
  moreover have "28 \<le> codeEnd"
    using signCodeEnd_ok(2) [OF y(2) assms(3,2)] assms(3) by (auto simp: commandsEnd_def image_wf_def Let_def)
  moreover have "CodeLimit d = codeEnd" "CodeSlots d = (codeEnd + 2 ^ PageExponent d - 1) div 2 ^ PageExponent d"
    using y(4) by (auto simp: signed_image_def Let_def)
  moreover have "(codeEnd + codeEnd - 1) div codeEnd = 1" using \<open>28 \<le> codeEnd\<close>
    by (intro div_nat_eqI) simp_all
  ultimately have "verifyDirectory H vopts pd rep a sig leaf d \<noteq> Inr ()" for vopts pd rep a sig leaf
    by (auto simp: verifyDirectory_def guard_eq_Inr pageSize_def)
  with y(1,4) show ?thesis by blast
qed

definition bytePages :: SignOptions where
  "bytePages = adhocOptions\<lparr>so_PageSize := 1\<rparr>"

theorem page_size_one_unverifiable_witness:
  "\<exists>out ys d. signImageSource sampleHash noTools bytePages thinImage (byteOutput thinData) = Inr out \<and> delivers out ys \<and>
     (\<forall>vopts pd rep a sig leaf. verifyDirectory sampleHash vopts pd rep a sig leaf d \<noteq> Inr ())"
proof -
  let ?x = "adhocInput\<lparr>di_opts := bytePages, di_page := 1, di_data := specialData bytePages adhocComponents\<rparr>"
  have ok: "signable sampleHash bytePages" using adhoc_signable by (simp add: signable_def bytePages_def)
  have "signing_inputs noTools bytePages thinImage (byteOutput thinData) ?x adhocComponents 128
     (signatureSize bytePages 48 4210 adhocComponents)"
    using thinImage(2)
    by (simp add: signing_inputs_def adhocInput_def bytePages_def signPage_def signCodeEnd_def signComponents_def signHeader_def di_hashOff_def
        hashOffset_def teamSize_def adhocOptions_def plainExecutable_def byteOutput_def adhocComponents_def length_thinData
        str_def FlagRuntime_def signatureSize_def legacySigningProfile_def superblob_def blob_def)
  from signImageSource_total [OF ok thin_delivered thinImage(3) _ _ _ thin_room this] thinImage(2)
  obtain out where out: "signImageSource sampleHash noTools bytePages thinImage (byteOutput thinData) = Inr out"
    by (auto simp: plainExecutable_def)
  have "so_PageSize bytePages = 1" by (simp add: bytePages_def)
  from page_size_one_unverifiable [OF ok thin_delivered thinImage(3) this out] out show ?thesis by blast
qed

text \<open>The sentinel errors of types.go and errors.Is to one of them.\<close>

datatype sentinel = IsFormat | IsUnsigned | IsInvalid | IsSigned | IsUnsupported | IsUntrusted | IsRequirement | IsDesignated

fun errorsIs :: "error \<Rightarrow> sentinel \<Rightarrow> bool" where
  "errorsIs (Malformed s) k = (k = IsFormat)"
| "errorsIs (Unsupported s) k = (k = IsUnsupported)"
| "errorsIs (Invalid s) k = (k = IsInvalid)"
| "errorsIs ErrUnsigned k = (k = IsUnsigned)"
| "errorsIs ErrSigned k = (k = IsSigned)"
| "errorsIs ErrUntrusted k = (k = IsUntrusted)"
| "errorsIs ErrRequirement k = (k = IsRequirement)"
| "errorsIs ErrDesignatedRequirement k = (k = IsRequirement \<or> k = IsDesignated)"
| "errorsIs (Wrapped s e) k = errorsIs e k"
| "errorsIs (Joined es) k = (\<exists>e \<in> set es. errorsIs e k)"
| "errorsIs (VerificationFailure diag arch omit cause) k = errorsIs cause k"
| "errorsIs _ k = False"

lemma verifySlot_error:
  assumes wf: "directory_wf d" and slot: "slot \<le> SpecialSlots d" "1 \<le> slot" and fit: "payloads_fit opts rep sig"
    and err: "verifySlot H opts rep sig d slot = Inl e"
  shows "\<exists>cause. e = slotVerificationFailure slot cause \<and>
    (if slotPayload opts rep sig slot = [] \<and> (slot = SlotInfo \<or> slot = SlotResources) then errorsIs cause IsUnsupported
     else errorsIs cause IsInvalid)"
proof -
  obtain want where want: "hashAt d ((HashOffset d + 2 ^ 64 - slot * HashSize d) mod 2 ^ 64) = Inr want"
    using hashAt_slot [OF wf slot] by blast
  have p: "int (length (slotPayload opts rep sig slot)) \<le> MaxInt64" using fit by (simp add: payloads_fit_def)
  obtain h where "digest H (HashType d) (slotPayload opts rep sig slot) = Inr h"
    using wf by (auto simp: directory_wf_def digest_def)
  with err show ?thesis
    unfolding verifySlot_def want rbind_Inr slotDigest_payload [OF p] Let_def
    by (auto split: if_split_asm)
qed

lemma verifySlots_error:
  "verifySlots H opts rep sig d slot k = Inl e \<Longrightarrow>
   \<exists>j. slot \<le> j \<and> j < slot + k \<and> verifySlot H opts rep sig d j = Inl e \<and>
     (\<forall>i. slot \<le> i \<and> i < j \<longrightarrow> verifySlot H opts rep sig d i = Inr ())"
proof (induction k arbitrary: slot)
  case (Suc k)
  show ?case
  proof (cases "verifySlot H opts rep sig d slot")
    case (Inl e')
    with Suc.prems show ?thesis by (intro exI [of _ slot]) auto
  next
    case (Inr u)
    with Suc.prems have "verifySlots H opts rep sig d (Suc slot) k = Inl e" by simp
    from Suc.IH [OF this] obtain j where j: "Suc slot \<le> j" "j < Suc slot + k" "verifySlot H opts rep sig d j = Inl e"
        "\<forall>i. Suc slot \<le> i \<and> i < j \<longrightarrow> verifySlot H opts rep sig d i = Inr ()" by blast
    have "verifySlot H opts rep sig d i = Inr ()" if "slot \<le> i" "i < j" for i
      using j(4) that Inr by (cases "i = slot") auto
    with j(1-3) show ?thesis by (intro exI [of _ j]) auto
  qed
qed simp

text \<open>
  C15. The first special slot that is not bound decides the error: it is a verification
  failure with that slot's diagnostic (codesign's texts for the Info.plist slot, the resource
  slot and any other), ErrUnsupported when external data is missing and ErrInvalid otherwise;
  naming a Mach-O architecture keeps the sentinel and the diagnostic and adds the name, except
  that a resource directory failure, which omits it, is left as it is.
\<close>

theorem verifySlots_first_failure:
  assumes wf: "directory_wf d" and fit: "payloads_fit opts rep sig" and err: "verifySlots H opts rep sig d 1 (SpecialSlots d) = Inl e"
    and name: "name \<noteq> str ''dmg''"
  shows "\<exists>slot. 1 \<le> slot \<and> slot \<le> SpecialSlots d \<and> \<not> slot_bound H opts rep sig d slot \<and>
    (\<forall>i. 1 \<le> i \<and> i < slot \<longrightarrow> slot_bound H opts rep sig d i) \<and>
    errorsIs e (if slotPayload opts rep sig slot = [] \<and> (slot = SlotInfo \<or> slot = SlotResources) then IsUnsupported else IsInvalid) \<and>
    (\<forall>k. errorsIs (verificationArchitecture e name) k = errorsIs e k) \<and>
    (let diag = (if slot = SlotInfo then ''invalid Info.plist (plist or signature have been modified)''
         else if slot = SlotResources then ''invalid resource directory (directory or signature have been modified)''
         else ''invalid signature (code or signature have been modified)'') in
     findVerification e = Some (diag, [], slot = SlotResources) \<and>
     (if slot = SlotResources then verificationArchitecture e name = e
      else findVerification (verificationArchitecture e name) = Some (diag, name, False)))"
proof -
  from verifySlots_error [OF err] obtain slot where slot: "1 \<le> slot" "slot \<le> SpecialSlots d"
      "verifySlot H opts rep sig d slot = Inl e" "\<forall>i. 1 \<le> i \<and> i < slot \<longrightarrow> verifySlot H opts rep sig d i = Inr ()"
    by (auto simp: less_Suc_eq_le)
  from verifySlot_error [OF wf slot(2,1) fit slot(3)] obtain cause where e: "e = slotVerificationFailure slot cause"
      "if slotPayload opts rep sig slot = [] \<and> (slot = SlotInfo \<or> slot = SlotResources) then errorsIs cause IsUnsupported
       else errorsIs cause IsInvalid" by blast
  have "\<not> slot_bound H opts rep sig d slot" using verifySlot_iff(1) [OF wf slot(2,1) fit, of H] slot(3) by simp
  moreover have "slot_bound H opts rep sig d i" if "1 \<le> i" "i < slot" for i
    using verifySlot_iff(1) [OF wf _ that(1) fit, of H] slot(2,4) that by auto
  moreover have "errorsIs e (if slotPayload opts rep sig slot = [] \<and> (slot = SlotInfo \<or> slot = SlotResources) then IsUnsupported else IsInvalid)"
    using e by (simp add: slotVerificationFailure_def)
  moreover have "errorsIs (verificationArchitecture e name) k = errorsIs e k" for k
    by (simp add: e(1) slotVerificationFailure_def verificationArchitecture_def)
  moreover have "let diag = (if slot = SlotInfo then ''invalid Info.plist (plist or signature have been modified)''
         else if slot = SlotResources then ''invalid resource directory (directory or signature have been modified)''
         else ''invalid signature (code or signature have been modified)'') in
     findVerification e = Some (diag, [], slot = SlotResources) \<and>
     (if slot = SlotResources then verificationArchitecture e name = e
      else findVerification (verificationArchitecture e name) = Some (diag, name, False))"
    using name by (simp add: e(1) slotVerificationFailure_def verificationArchitecture_def signatureDiagnostic_def slot_defs)
  ultimately show ?thesis using slot(1,2) unfolding Let_def by blast
qed

theorem verifySlots_first_failure_witness:
  "\<exists>d e. directory_wf d \<and> verifySlots sampleHash plainOptions [] noBlobs d 1 (SpecialSlots d) = Inl e \<and>
     errorsIs (verificationArchitecture e (str ''arm64'')) IsUnsupported"
proof -
  let ?raw = "put32 MagicDirectory @ put32 78 @ put32 0x20001 @ put32 2 @ put32 78 @ put32 44 @ put32 1 @ put32 0 @ put32 44 @
     [32, 2, 0, 12] @ replicate 4 0 @ str ''a'' @ [0] @ replicate 32 1"
  have "case parseDirectory sampleHash ?raw of
      Inr d \<Rightarrow> SpecialSlots d = 1 \<and> (case verifySlots sampleHash plainOptions [] noBlobs d 1 (SpecialSlots d) of Inl e \<Rightarrow> True | Inr _ \<Rightarrow> False)
    | Inl _ \<Rightarrow> False" by code_simp
  then obtain d e where d: "parseDirectory sampleHash ?raw = Inr d" "SpecialSlots d = 1"
      "verifySlots sampleHash plainOptions [] noBlobs d 1 (SpecialSlots d) = Inl e"
    by (auto split: sum.split_asm)
  have wf: "directory_wf d" using parseDirectory_wf [OF d(1)] by blast
  have fit: "payloads_fit plainOptions [] noBlobs"
    by (simp add: payloads_fit_def slotPayload_def plainOptions_def noBlobs_def MaxInt64_def)
  have "str ''arm64'' \<noteq> str ''dmg''" by (simp add: str_def)
  from verifySlots_first_failure [OF wf fit d(3) this] d(2)
  have "errorsIs (verificationArchitecture e (str ''arm64'')) IsUnsupported"
    by (auto simp: slotPayload_def plainOptions_def slot_defs le_Suc_eq split: if_split_asm)
  with wf d(3) show ?thesis by blast
qed

end
