(* ===== verification/Requirement_Tokens.thy ===== *)
theory Requirement_Tokens
  imports Requirement_Parser
begin

unbundle bit_operations_syntax

text \<open>
  How the scanner and the conversions of the parser read what the printer of
  requirement_text.go writes: words, numbers, hexadecimal and quoted strings, comments and
  object identifiers.
\<close>

section \<open>Reading plain ASCII\<close>

definition plain :: "byte list \<Rightarrow> bool" where
  "plain t \<longleftrightarrow> (\<forall>b \<in> set t. 0 < unat b \<and> unat b < 128)"

lemma plain_simps [simp]:
  "plain []" "plain (b # t) \<longleftrightarrow> 0 < unat b \<and> unat b < 128 \<and> plain t" "plain (s @ t) \<longleftrightarrow> plain s \<and> plain t"
  by (auto simp: plain_def)

definition clean :: "byte list \<Rightarrow> scanner" where
  "clean t = \<lparr>sc_rest = map (\<lambda>b. (unat b, [b])) t, sc_err = False\<rparr>"

lemma clean_sel [simp]: "sc_rest (clean t) = map (\<lambda>b. (unat b, [b])) t" "sc_err (clean t) = False"
  by (simp_all add: clean_def)

lemma adv_clean [simp]: "plain t \<Longrightarrow> adv (clean (b # t)) = clean t"
  by (cases t) (auto simp: adv_def clean_def badHead_def)

lemma adv_clean_nil [simp]: "adv (clean []) = clean []"
  by (simp add: adv_def clean_def badHead_def)

lemma advN_clean [simp]: "plain (s @ t) \<Longrightarrow> advN (length s) (clean (s @ t)) = clean t"
  by (induction s) auto

lemma sees_clean [simp]: "sees (clean (b # t)) c \<longleftrightarrow> unat b = c" "\<not> sees (clean []) c"
  by (simp_all add: sees_def)

lemma runes_plain: "plain t \<Longrightarrow> runes t = map (\<lambda>b. (unat b, [b])) t"
proof (induction t)
  case (Cons b t)
  then have "decodeRune (b # t) = (unat b, 1)" by (simp add: decodeRune_def Let_def)
  with Cons show ?case by (simp add: runes.simps [of "b # t"])
qed (simp add: runes.simps)

lemma startScanner_plain: "plain t \<Longrightarrow> startScanner t = clean t"
  by (cases t) (auto simp: startScanner_def runes_plain sees_def clean_def badHead_def Let_def)

lemma textBetween_clean [simp]: "textBetween (clean (s @ t)) (clean t) = s"
proof -
  have "map snd (map (\<lambda>b. (unat b, [b])) s) = map (\<lambda>b. [b]) s" for s :: "byte list" by simp
  moreover have "concat (map (\<lambda>b. [b]) s) = s" for s :: "byte list" by (induction s) auto
  ultimately show ?thesis by (simp add: textBetween_def comp_def)
qed

definition blank :: "byte \<Rightarrow> bool" where
  "blank b \<longleftrightarrow> unat b \<in> {9, 10, 13, 32}"

lemma skipSpace_clean: "list_all blank sp \<Longrightarrow> plain (sp @ t) \<Longrightarrow> skipSpace (clean (sp @ t)) = skipSpace (clean t)"
proof (induction sp)
  case (Cons b sp)
  then have "skipSpace (clean (b # sp @ t)) = skipSpace (clean (sp @ t))" by (simp add: skipSpace_def blank_def)
  with Cons show ?case by simp
qed simp

lemma skipSpace_id: "t = [] \<or> \<not> blank (hd t) \<Longrightarrow> skipSpace (clean t) = clean t"
  by (cases t) (auto simp: skipSpace_def blank_def)

section \<open>Tokens\<close>

definition identByte :: "byte \<Rightarrow> bool" where
  "identByte b \<longleftrightarrow> b = 95 \<or> alphanumeric b"

text \<open>What follows a token does not continue it.\<close>

definition stops :: "byte list \<Rightarrow> bool" where
  "stops t \<longleftrightarrow> t = [] \<or> \<not> identByte (hd t)"

lemma identRune_byte: "unat b < 128 \<Longrightarrow> identRune U False (unat b) = identByte b"
  by (auto simp: identRune_def identByte_def alphanumeric_def word_unat_eq_iff)

definition reads :: "unicode \<Rightarrow> byte list \<Rightarrow> token \<Rightarrow> byte list \<Rightarrow> byte list \<Rightarrow> bool" where
  "reads U x k w t \<longleftrightarrow> scanSkip U (clean x) = (k, w, clean t)"

text \<open>A token that is not a shell comment, after blanks.\<close>

lemma reads_token:
  assumes "list_all blank sp" "plain (sp @ w @ t)" "w \<noteq> []" "\<not> blank (hd w)" "k \<noteq> TChar 35"
    and k: "scanToken U (clean (w @ t)) = (k, w, clean t)"
  shows "reads U (sp @ w @ t) k w t"
proof -
  have "skipSpace (clean (sp @ w @ t)) = skipSpace (clean (w @ t))" by (rule skipSpace_clean) (use assms in simp_all)
  then have "scanToken U (clean (sp @ w @ t)) = scanToken U (clean (w @ t))" by (simp add: scanToken.simps)
  with assms show ?thesis by (simp add: reads_def scanSkip.simps [of U "clean (sp @ w @ t)"])
qed

lemma takeWhile_run: "\<forall>b \<in> set w. P b \<Longrightarrow> t = [] \<or> \<not> P (hd t) \<Longrightarrow> takeWhile P (w @ t) = w"
  by (cases t) (auto simp: takeWhile_append)

lemma scan_word:
  assumes "plain (w @ t)" "w = b # bs" "identByte b" "\<not> isDecimal (unat b)" "\<forall>c \<in> set bs. identByte c" "stops t"
  shows "scanToken U (clean (w @ t)) = (TIdent, w, clean t)"
proof -
  have id: "identRune U True (unat b)"
    using assms by (auto simp: identRune_def identByte_def alphanumeric_def)
  have sp: "skipSpace (clean (w @ t)) = clean (w @ t)"
    by (rule skipSpace_id) (use assms in \<open>auto simp: identByte_def alphanumeric_def blank_def asciiLetter_def isDecimal_def\<close>)
  have "takeWhile (\<lambda>r. identRune U False (fst r)) (map (\<lambda>b. (unat b, [b])) (bs @ t)) =
      map (\<lambda>b. (unat b, [b])) (takeWhile (\<lambda>c. identRune U False (unat c)) (bs @ t))"
    by (simp only: takeWhile_map comp_def fst_conv)
  also have "takeWhile (\<lambda>c. identRune U False (unat c)) (bs @ t) = bs"
    by (rule takeWhile_run) (use assms in \<open>auto simp: stops_def identRune_byte plain_def\<close>)
  finally have tw: "length (takeWhile (\<lambda>r. identRune U False (fst r)) (map (\<lambda>b. (unat b, [b])) (bs @ t))) = length bs" by simp
  have adv: "advN (Suc (length bs)) (clean (w @ t)) = clean t" using advN_clean [of w t] assms by simp
  show ?thesis
    by (subst scanToken.simps)
      (use id sp tw adv assms textBetween_clean [of w t] in \<open>simp add: tokenTo_def Let_def\<close>)
qed

lemma scan_char:
  assumes "plain (b # t)" "\<not> identByte b" "\<not> isDecimal (unat b)" "unat b \<noteq> 34" "unat b \<noteq> 47" "\<not> blank b"
  shows "scanToken U (clean ([b] @ t)) = (TChar (unat b), [b], clean t)"
proof -
  have id: "\<not> identRune U True (unat b)"
    using assms by (auto simp: identRune_def identByte_def alphanumeric_def word_unat_eq_iff)
  have sp: "skipSpace (clean (b # t)) = clean (b # t)" by (rule skipSpace_id) (use assms in simp)
  show ?thesis
    by (subst scanToken.simps)
      (use id sp assms textBetween_clean [of "[b]" t] in \<open>simp add: tokenTo_def Let_def\<close>)
qed

text \<open>A run of the digits of a decimal or hexadecimal number.\<close>

lemma runLength_map:
  assumes "\<forall>b \<in> set w. digitRune hex (unat b)" "t = [] \<or> \<not> digitRune hex (unat (hd t))"
  shows "runLength hex (map (\<lambda>b. (unat b, [b])) (w @ t)) = length w"
proof -
  have "takeWhile (\<lambda>c. digitRune hex (unat c)) (w @ t) = w" by (rule takeWhile_run) (use assms in auto)
  then show ?thesis unfolding runLength_def by (simp only: takeWhile_map comp_def fst_conv length_map)
qed

lemma stops_digit: "stops t \<Longrightarrow> t = [] \<or> \<not> digitRune hex (unat (hd t))"
  by (auto simp: stops_def digitRune_def identByte_def alphanumeric_def isHex_def lowerRune_def asciiLetter_def isDecimal_def
    word_unat_eq_iff split: if_splits; presburger)

lemma scan_number:
  assumes "plain (w @ t)" "w \<noteq> []" "isDecimal (unat (hd w))" "numberLength (map (\<lambda>b. (unat b, [b])) (w @ t)) = length w"
    "\<not> numberFails (map (\<lambda>b. (unat b, [b])) (w @ t))"
  shows "scanToken U (clean (w @ t)) = (TInt, w, clean t)"
proof -
  obtain b bs where w: "w = b # bs" using assms by (cases w) auto
  have id: "\<not> identRune U True (unat b)"
    using assms w by (auto simp: identRune_def isDecimal_def asciiLetter_def)
  have sp: "skipSpace (clean (w @ t)) = clean (w @ t)"
    by (rule skipSpace_id) (use assms w in \<open>auto simp: blank_def isDecimal_def\<close>)
  show ?thesis
    by (subst scanToken.simps)
      (use id sp assms w textBetween_clean [of w t] advN_clean [of w t] in \<open>simp add: tokenTo_def Let_def\<close>)
qed

lemma lowerRune_letter: "lowerRune c = 120 \<or> lowerRune c = 111 \<or> lowerRune c = 98 \<Longrightarrow> asciiLetter c"
  by (auto simp: lowerRune_def asciiLetter_def split: if_splits)

lemma scan_decimal:
  assumes "plain (w @ t)" "w \<noteq> []" "\<forall>b \<in> set w. isDecimal (unat b)" "w = [48] \<or> hd w \<noteq> 48" "stops t"
  shows "scanToken U (clean (w @ t)) = (TInt, w, clean t)"
proof -
  let ?rs = "map (\<lambda>b. (unat b, [b])) (w @ t)"
  have p: "numberPrefix ?rs = 0"
  proof (cases "w = [48]")
    case True
    then show ?thesis
      using assms(1,5) by (cases t) (auto simp: numberPrefix_def stops_def identByte_def alphanumeric_def lowerRune_letter)
  next
    case False
    with assms show ?thesis by (cases w) (auto simp: numberPrefix_def word_unat_eq_iff)
  qed
  have n: "runLength False ?rs = length w"
    by (rule runLength_map [OF _ stops_digit]) (use assms in \<open>auto simp: digitRune_def\<close>)
  have nl: "numberLength ?rs = length w" using p n by (simp add: numberLength_def Let_def)
  have d: "map fst (take (length w) ?rs) = map unat w" by (simp add: comp_def)
  have "\<not> numberFails ?rs"
    unfolding numberFails_def Let_def nl p d using assms(2,3) by (cases w) (auto simp: isDecimal_def)
  with assms nl show ?thesis by (intro scan_number) simp_all
qed

lemma isHex_digit: "isHex (unat (hexdigit n))" if "n < 16"
proof -
  have "n \<in> set [0..<16]" using that by simp
  then show ?thesis by (simp add: upt_rec hexdigit_def isHex_def isDecimal_def lowerRune_def) (elim disjE; simp)
qed

lemma hexEncode_hex: "b \<in> set (hexEncode v) \<Longrightarrow> isHex (unat b)"
  by (auto simp: hexEncode_def less_mult_imp_div_less unat_byte_less intro!: isHex_digit)

lemma isHex_bounds: "isHex c \<Longrightarrow> c < 128 \<Longrightarrow> 48 \<le> c \<and> c \<noteq> 95"
  by (auto simp: isHex_def isDecimal_def lowerRune_def split: if_splits)

lemma scan_hex:
  assumes "plain (h @ t)" "h \<noteq> []" "\<forall>b \<in> set h. isHex (unat b)" "stops t"
  shows "scanToken U (clean ((str ''0x'' @ h) @ t)) = (TInt, str ''0x'' @ h, clean t)"
proof -
  let ?w = "str ''0x'' @ h" and ?rs = "map (\<lambda>b. (unat b, [b])) (h @ t)"
  let ?all = "map (\<lambda>b. (unat b, [b])) (?w @ t)"
  have all: "?all = (48, [48]) # (120, [120]) # ?rs" by (simp add: str_def)
  have p: "numberPrefix ?all = 120" unfolding all by (simp add: numberPrefix_def lowerRune_def)
  have n: "runLength True ?rs = length h"
    by (rule runLength_map [OF _ stops_digit]) (use assms in \<open>auto simp: digitRune_def\<close>)
  have nl: "numberLength ?all = 2 + length h" using p n unfolding all by (simp add: numberLength_def Let_def)
  have d: "map fst (take (2 + length h) ?all) = 48 # 120 # map unat h" unfolding all by (simp add: comp_def)
  have under: "95 \<notin> set (map unat h)" using assms(1,3) isHex_bounds by (fastforce simp: plain_def)
  have "\<not> numberFails ?all"
    unfolding numberFails_def Let_def nl p d using assms(2) under by (cases h) auto
  then show ?thesis by (intro scan_number) (use assms nl in \<open>simp_all add: str_def isDecimal_def\<close>)
qed

subsection \<open>Quoted strings\<close>

text \<open>strings.NewReplacer on backslash and quote.\<close>

definition quoteByte :: "byte \<Rightarrow> byte list" where
  "quoteByte b = (if b = 92 \<or> b = 34 then [92, b] else [b])"

definition quoted :: "byte list \<Rightarrow> byte list" where
  "quoted s = [34] @ concat (map quoteByte s) @ [34]"

definition printable :: "byte list \<Rightarrow> bool" where
  "printable s \<longleftrightarrow> plain s \<and> 10 \<notin> set s"

lemma printable_Cons [simp]: "printable (b # s) \<longleftrightarrow> 0 < unat b \<and> unat b < 128 \<and> b \<noteq> 10 \<and> printable s"
  by (auto simp: printable_def)

lemma printable_Nil [simp]: "printable []" by (simp add: printable_def)

lemma escaped: "b = 92 \<or> b = 34 \<Longrightarrow> quoteByte b = [92, b]"
  and unescaped: "\<not> (b = 92 \<or> b = 34) \<Longrightarrow> quoteByte b = [b]"
  by (auto simp: quoteByte_def)

lemma plain_quoted: "printable s \<Longrightarrow> plain (concat (map quoteByte s))"
  by (induction s) (auto simp: quoteByte_def)

lemma scanString_quoted:
  "printable s \<Longrightarrow> plain t \<Longrightarrow> scanString (clean (concat (map quoteByte s) @ 34 # t)) = clean (34 # t)"
proof (induction s)
  case Nil
  then show ?case by (simp add: scanString.simps)
next
  case (Cons b s)
  let ?r = "concat (map quoteByte s) @ 34 # t"
  have pl: "plain ?r" using Cons.prems plain_quoted [of s] by simp
  show ?case
  proof (cases "b = 92 \<or> b = 34")
    case True
    then have "scanEscape (clean (92 # b # ?r)) = clean ?r"
      using Cons.prems pl by (auto simp: scanEscape_def headCode_def Let_def)
    moreover have "scanString (clean (92 # b # ?r)) = scanString (scanEscape (clean (92 # b # ?r)))"
      by (subst scanString.simps) simp
    ultimately show ?thesis using Cons escaped [OF True] by simp
  next
    case False
    then have "unat b \<noteq> 92" "unat b \<noteq> 34" "unat b \<noteq> 10" using Cons.prems by (auto simp: word_unat_eq_iff)
    then have "scanString (clean (b # ?r)) = scanString (adv (clean (b # ?r)))" by (subst scanString.simps) simp
    with unescaped [OF False] Cons pl show ?thesis by simp
  qed
qed

lemma unquote_quoted: "printable s \<Longrightarrow> unquote (quoted s) = Some s"
proof -
  have "printable s \<Longrightarrow> unquoteTail (concat (map quoteByte s) @ [34]) = Some s"
  proof (induction s)
    case (Cons b s)
    show ?case
    proof (cases "b = 92 \<or> b = 34")
      case True
      then show ?thesis using Cons escaped [OF True] by (auto simp: unquoteTail.simps [of "92 # _"] unescape_def)
    next
      case False
      then have "unat b \<noteq> 92" "unat b \<noteq> 34" "unat b \<noteq> 10" using Cons.prems by (auto simp: word_unat_eq_iff)
      with unescaped [OF False] Cons show ?thesis by (simp add: unquoteTail.simps [of "b # _"])
    qed
  qed (simp add: unquoteTail.simps)
  then show "printable s \<Longrightarrow> unquote (quoted s) = Some s" by (simp add: unquote_def quoted_def)
qed

lemma scan_quoted:
  assumes "printable s" "plain t"
  shows "scanToken U (clean (quoted s @ t)) = (TString, quoted s, clean t)"
proof -
  have id: "\<not> identRune U True 34" by (simp add: identRune_def asciiLetter_def)
  have sp: "skipSpace (clean (quoted s @ t)) = clean (quoted s @ t)"
    by (rule skipSpace_id) (simp add: quoted_def blank_def)
  have pl: "plain (concat (map quoteByte s) @ 34 # t)" using assms plain_quoted by simp
  have q: "quoted s @ t = 34 # concat (map quoteByte s) @ 34 # t" by (simp add: quoted_def)
  have "adv (scanString (adv (clean (quoted s @ t)))) = clean t"
    unfolding q adv_clean [OF pl] scanString_quoted [OF assms] using assms by simp
  then show ?thesis
    by (subst scanToken.simps)
      (use id sp textBetween_clean [of "quoted s" t] in \<open>simp add: tokenTo_def Let_def q isDecimal_def\<close>)
qed

lemma quoted_hex: "concat (map quoteByte (hexEncode v)) = hexEncode v"
proof -
  have "b \<in> set (hexEncode v) \<Longrightarrow> quoteByte b = [b]" for b
    using hexEncode_hex [of b v] by (auto simp: quoteByte_def isHex_def isDecimal_def lowerRune_def)
  then show ?thesis by (induction "hexEncode v") (auto cong: map_cong simp: concat_map_singleton [of "\<lambda>b. b"])
qed

section \<open>Numbers and object identifiers\<close>

lemma decimal_digits: "b \<in> set (decimal n) \<Longrightarrow> 48 \<le> unat b \<and> unat b \<le> 57"
proof (induction n rule: decimal.induct)
  case (1 n)
  have d: "unat (of_nat (48 + m) :: byte) = 48 + m" if "m < 10" for m using that by (subst unat_of_nat_small) simp_all
  show ?case using 1 d [of n] d [of "n mod 10"] by (auto simp: decimal.simps [of n] simp del: of_nat_add split: if_splits)
qed

lemma decimal_nonempty [simp]: "decimal n \<noteq> []" by (simp add: decimal.simps [of n])

lemma decimal_head: "decimal n = [48] \<or> hd (decimal n) \<noteq> 48"
proof (induction n rule: decimal.induct)
  case (1 n)
  show ?case
  proof (cases "n < 10")
    case True
    have "of_nat (48 + n) \<noteq> (48 :: byte)" if "n \<noteq> 0"
      using True that by (simp add: word_unat_eq_iff unat_of_nat_small del: of_nat_add)
    with True show ?thesis by (cases "n = 0") (simp_all add: decimal.simps [of n] decimal.simps [of 0])
  next
    case False
    have "decimal (n div 10) \<noteq> [48]"
    proof
      assume "decimal (n div 10) = [48]"
      then have n: "n div 10 < 10" by (metis decimal.simps append_is_Nil_conv decimal_nonempty last_snoc length_0_conv length_Cons length_append_singleton list.size(3) nat.inject)
      then have "of_nat (48 + n div 10) = (48 :: byte)" using \<open>decimal (n div 10) = [48]\<close> by (simp add: decimal.simps [of "n div 10"])
      then have "48 + n div 10 = 48" using n by (simp add: word_unat_eq_iff unat_of_nat_small del: of_nat_add)
      with False show False by simp
    qed
    with 1 False show ?thesis by (simp add: decimal.simps [of n])
  qed
qed

lemma digits_value_snoc:
  "ds \<noteq> [] \<Longrightarrow> digitsValue ds = Some v \<Longrightarrow> isDecimal (unat d) \<Longrightarrow> digitsValue (ds @ [d]) = Some (v * 10 + (unat d - 48))"
  by (auto simp: digitsValue_def split: if_splits)

lemma digitsValue_decimal [simp]: "digitsValue (decimal n) = Some n"
proof (induction n rule: decimal.induct)
  case (1 n)
  have d: "unat (of_nat (48 + m) :: byte) = 48 + m" if "m < 10" for m using that by (subst unat_of_nat_small) simp_all
  show ?case
  proof (cases "n < 10")
    case True
    then show ?thesis using d [of n] by (simp add: decimal.simps [of n] digitsValue_def isDecimal_def del: of_nat_add)
  next
    case False
    have "digitsValue (decimal (n div 10) @ [of_nat (48 + n mod 10)]) = Some (n div 10 * 10 + (48 + n mod 10 - 48))"
      using digits_value_snoc [of "decimal (n div 10)" "n div 10" "of_nat (48 + n mod 10)"] 1 False d [of "n mod 10"]
      by (simp add: isDecimal_def del: of_nat_add)
    with False show ?thesis by (simp add: decimal.simps [of n])
  qed
qed

lemma atoi_decimal: "n < 2 ^ 63 \<Longrightarrow> atoi (decimal n) = Some (int n)"
proof -
  assume n: "n < 2 ^ 63"
  obtain b r where d: "decimal n = b # r" by (cases "decimal n") auto
  then have "b \<noteq> 45" "b \<noteq> 43" using decimal_digits [of b n] by (auto simp: word_unat_eq_iff)
  with d n digitsValue_decimal [of n] show ?thesis by (simp add: atoi_def Let_def)
qed

lemma splitDots_arc: "46 \<notin> set w \<Longrightarrow> splitDots w = [w]"
  and splitDots_dot: "46 \<notin> set w \<Longrightarrow> splitDots (w @ 46 # r) = w # splitDots r"
  by (induction w) auto

lemma decimal_no_dot: "46 \<notin> set (decimal n)"
  using decimal_digits [of 46 n] by auto

lemma parseArcs_oidString:
  "oid \<noteq> [] \<Longrightarrow> \<forall>a \<in> set oid. a < 2 ^ 63 \<Longrightarrow> parseArcs (splitDots (oidString oid)) = Some (map int oid)"
proof (induction oid rule: oidString.induct)
  case (3 a b rest)
  then show ?case using splitDots_dot [OF decimal_no_dot [of a]] by (simp add: atoi_decimal str_def)
qed (simp_all add: splitDots_arc decimal_no_dot atoi_decimal)

text \<open>base128 accepts only what appendBase128Int writes.\<close>

lemma continued: "128 \<le> unat b \<Longrightarrow> of_nat (unat b mod 128) OR 0x80 = (b :: byte)"
proof (rule bit_word_eqI)
  fix n assume b: "128 \<le> unat b" "n < LENGTH(8)"
  have "(of_nat (unat b mod 128) :: byte) = take_bit 7 b"
    by (simp only: word_unat_eq_iff unsigned_take_bit_eq take_bit_eq_mod) (subst unat_of_nat_small, simp_all add: unat_mod_distrib)
  moreover have "b div 128 = 1" using b unat_byte_less [of b] by (simp add: word_unat_eq_iff unat_div_distrib)
  then have "bit b 7" by (simp add: bit_iff_odd)
  moreover have "bit (0x80 :: byte) n \<longleftrightarrow> n = 7" using bit_exp_iff [of 7 n, where ?'a = byte] b by simp
  ultimately show "bit (of_nat (unat b mod 128) OR (0x80 :: byte)) n = bit b n"
    using b by (auto simp: bit_or_iff bit_take_bit_iff)
qed

lemma base128_septets:
  "base128 s acc bs = Some (v, rest) \<Longrightarrow> 0 < s \<Longrightarrow> 0 < acc \<Longrightarrow> map (\<lambda>b. b OR 0x80) (septets acc) @ bs = septets v @ rest"
proof (induction bs arbitrary: s acc)
  case (Cons b bs)
  let ?v = "acc * 128 + unat b mod 128"
  have split: "septets ?v = map (\<lambda>b. b OR 0x80) (septets acc) @ [of_nat (unat b mod 128)]"
    using Cons.prems by (simp add: septets.simps [of ?v])
  show ?case
  proof (cases "unat b < 128")
    case True
    with Cons.prems have "v = ?v" "rest = bs" by (auto simp: Let_def split: if_splits)
    with split True show ?thesis by simp
  next
    case False
    with Cons.prems have "base128 (Suc s) ?v bs = Some (v, rest)" by (auto simp: Let_def split: if_splits)
    then have "map (\<lambda>b. b OR 0x80) (septets ?v) @ bs = septets v @ rest" using Cons by simp
    with split False continued [of b] show ?thesis by (simp add: comp_def or.assoc)
  qed
qed simp

lemma base128_first: "base128 0 0 bs = Some (v, rest) \<Longrightarrow> bs = septets v @ rest"
proof (cases bs)
  case (Cons b r)
  assume s: "base128 0 0 bs = Some (v, rest)"
  show ?thesis
  proof (cases "unat b < 128")
    case True
    with s Cons show ?thesis by (auto simp: Let_def septets.simps [of v] split: if_splits)
  next
    case False
    then have "unat b mod 128 \<noteq> 0" if "b \<noteq> 0x80" using that unat_byte_less [of b] by (auto simp: word_unat_eq_iff mod_if)
    with s Cons False base128_septets [of 1 "unat b mod 128" r v rest] continued [of b]
    show ?thesis by (auto simp: Let_def septets.simps [of "unat b mod 128"] split: if_splits)
  qed
qed simp

lemma base128_small: "base128 s acc bs = Some (v, rest) \<Longrightarrow> v < 2 ^ 31"
  by (induction bs arbitrary: s acc) (auto simp: Let_def split: if_splits)

lemma base128s_septets: "base128s bs = Some vs \<Longrightarrow> bs = concat (map septets vs) \<and> (\<forall>v \<in> set vs. v < 2 ^ 31)"
proof (induction bs arbitrary: vs rule: base128s.induct)
  case (2 b bs)
  from 2(2) obtain v rest us where f: "base128 0 0 (b # bs) = Some (v, rest)" "base128s rest = Some us" "vs = v # us"
    by (auto simp del: base128.simps split: option.splits)
  from 2(1) [OF f(1) refl f(2)] base128_first [OF f(1)] base128_small [OF f(1)] f(3) show ?case by simp
qed simp

lemma marshal_parse:
  assumes "parseOID bs = Some oid"
  shows "marshalOID (map int oid) = Some bs" "oid \<noteq> []" "\<forall>a \<in> set oid. a < 2 ^ 63"
proof -
  from assms obtain v vs where b: "base128s bs = Some (v # vs)" and o: "oid = (if v < 80 then v div 40 # v mod 40 # vs else 2 # (v - 80) # vs)"
    by (auto simp: parseOID_def split: option.splits list.splits)
  from base128s_septets [OF b] have f: "bs = septets v @ concat (map septets vs)" "v < 2 ^ 31" "\<forall>a \<in> set vs. a < 2 ^ 31" by auto
  have w: "wrap64 (int v) = int v" using f(2) by (simp add: wrap64_def)
  have a: "map arcBytes (map int vs) = map septets vs" by (simp add: arcBytes_def)
  have "int (v div 40) * 40 + int (v mod 40) = int v" by (simp add: zdiv_int zmod_int)
  moreover have "v div 40 \<le> 1" if "v < 80" using that by simp
  ultimately show "marshalOID (map int oid) = Some bs"
    using o f(1) w a [unfolded arcBytes_def] by (auto simp: marshalOID_def arcBytes_def comp_def)
  show "oid \<noteq> []" "\<forall>a \<in> set oid. a < 2 ^ 63" using o f by auto
qed

end
