(* ===== verification/Requirement_Text.thy ===== *)
theory Requirement_Text
  imports Requirement_Tokens
begin

text \<open>
  The printer of requirement_text.go and requirement_metadata.go, and the round trip: the
  canonical text of an expression parses to the expression with its chains of one operator
  grouped to the left, which evaluates alike.
\<close>

section \<open>The printer\<close>

definition unprintable :: "byte \<Rightarrow> bool" where
  "unprintable b \<longleftrightarrow> unat b < 32 \<and> unat b \<notin> {9, 10, 13, 11, 12} \<or> unat b > 126"

definition requirementString :: "gostring \<Rightarrow> gostring" where
  "requirementString s =
    (if simpleRequirementString s then take 255 s
     else if \<exists>b \<in> set s. unprintable b then str ''0x'' @ hexEncode s
     else [34] @ concat (map quoteByte s) @ [34])"

definition formatInt :: "int \<Rightarrow> gostring" where
  "formatInt z = (if z < 0 then str ''-'' else []) @ decimal (nat \<bar>z\<bar>)"

definition certText :: "int \<Rightarrow> gostring" where
  "certText slot =
    (if slot = -1 then str ''certificate root'' else if slot = 0 then str ''certificate leaf''
     else str ''certificate '' @ formatInt slot)"

text \<open>The error of the object identifier is dropped: it is then the empty one.\<close>

definition oidText :: "gostring \<Rightarrow> gostring" where
  "oidText f = (case decodeOID f of Inl _ \<Rightarrow> [] | Inr oid \<Rightarrow> oidString oid)"

definition parens :: "bool \<Rightarrow> gostring \<Rightarrow> gostring" where
  "parens c v = (if c then str ''('' @ v @ str '')'' else v)"

primrec text_of :: "req \<Rightarrow> nat \<Rightarrow> gostring" where
  "text_of ReqNever level = str ''never''"
| "text_of ReqAlways level = str ''always''"
| "text_of (ReqIdentifier v) level = str ''identifier '' @ requirementString v"
| "text_of (ReqCertificate slot v) level = certText slot @ str '' = H'' @ [34] @ hexEncode v @ [34]"
| "text_of (ReqAnd l r) level = parens (level < 1) (text_of l 1 @ str '' and '' @ text_of r 1)"
| "text_of (ReqOr l r) level = parens (level < 2) (text_of l 2 @ str '' or '' @ text_of r 2)"
| "text_of (ReqCDHash v) level = str ''cdhash H'' @ [34] @ hexEncode v @ [34]"
| "text_of (ReqNot l) level = str ''! '' @ text_of l 0"
| "text_of (ReqSubject slot f v) level = certText slot @ str ''['' @ f @ str ''] = '' @ requirementString v"
| "text_of (ReqExtension slot f) level = certText slot @ str ''[field.'' @ oidText f @ str ''] /* exists */''"
| "text_of ReqAnchor level = str ''anchor apple generic''"

section \<open>The parser on printed text\<close>

text \<open>The parser with its lookahead at the first token of \<open>t\<close>, after \<open>n\<close> atoms.\<close>

definition pstart :: "unicode \<Rightarrow> nat \<Rightarrow> byte list \<Rightarrow> parser" where
  "pstart U n t = nextP U \<lparr>ps_scan = clean t, ps_token = TEOF, ps_text = [], ps_nodes = n\<rparr>"

definition shows_token :: "token \<Rightarrow> byte list \<Rightarrow> byte list \<Rightarrow> nat \<Rightarrow> parser" where
  "shows_token k w t n = \<lparr>ps_scan = clean t, ps_token = k, ps_text = w, ps_nodes = n\<rparr>"

lemma shows_sel [simp]:
  "ps_scan (shows_token k w t n) = clean t" "ps_token (shows_token k w t n) = k"
  "ps_text (shows_token k w t n) = w" "ps_nodes (shows_token k w t n) = n"
  "ps_nodes_update f (shows_token k w t n) = shows_token k w t (f n)"
  by (simp_all add: shows_token_def)

lemma nextP_shows [simp]: "nextP U (shows_token k w t n) = pstart U n t"
  by (simp add: nextP_def pstart_def shows_token_def split: prod.split)

lemma pstart_token:
  assumes "scanToken U (clean (w @ t)) = (k, w, clean t)" "k \<noteq> TChar 35"
  shows "pstart U n (w @ t) = shows_token k w t n"
  using assms by (simp add: pstart_def nextP_def shows_token_def scanSkip.simps [of U "clean (w @ t)"])

lemma scanToken_blank: "blank b \<Longrightarrow> plain (b # t) \<Longrightarrow> scanToken U (clean (b # t)) = scanToken U (clean t)"
  using skipSpace_clean [of "[b]" t] by (simp add: scanToken.simps)

lemma pstart_blank: "blank b \<Longrightarrow> plain (b # t) \<Longrightarrow> pstart U n (b # t) = pstart U n t"
  by (simp add: pstart_def nextP_def scanToken_blank scanSkip.simps [of U "clean (b # t)"] scanSkip.simps [of U "clean t"])

lemma pstart_space [simp]: "plain t \<Longrightarrow> pstart U n (32 # t) = pstart U n t"
  by (rule pstart_blank) (simp_all add: blank_def)

lemma pstart_nil [simp]: "pstart U n [] = shows_token TEOF [] [] n"
  by (simp add: pstart_def nextP_def shows_token_def scanSkip.simps [of U "clean []"] scanToken.simps [of U "clean []"]
    skipSpace_def Let_def)

lemma blockComment_clean: "plain (c @ 42 # 47 # t) \<Longrightarrow> 42 \<notin> set c \<Longrightarrow> blockComment (clean (c @ 42 # 47 # t)) = clean t"
proof (induction c)
  case Nil
  then show ?case by (subst blockComment.simps) simp
next
  case (Cons b c)
  then have "unat b \<noteq> 42" by (auto simp: word_unat_eq_iff)
  with Cons show ?case by (subst blockComment.simps) simp
qed

lemma pstart_comment:
  assumes "plain (c @ t)" "42 \<notin> set c"
  shows "pstart U n (47 # 42 # c @ 42 # 47 # t) = pstart U n t"
proof -
  let ?r = "c @ 42 # 47 # t"
  have r: "plain ?r" using assms by simp
  have sp: "skipSpace (clean (47 # 42 # ?r)) = clean (47 # 42 # ?r)" by (rule skipSpace_id) (simp add: blank_def)
  have "scanToken U (clean (47 # 42 # ?r)) = scanToken U (blockComment (clean ?r))"
    by (subst scanToken.simps)
      (use sp adv_clean [of "42 # ?r" 47] adv_clean [of ?r 42] r in
        \<open>simp add: Let_def identRune_def asciiLetter_def isDecimal_def del: adv_clean\<close>)
  then have "scanToken U (clean (47 # 42 # ?r)) = scanToken U (clean t)" using blockComment_clean [OF r assms(2)] by simp
  then show ?thesis
    by (simp add: pstart_def nextP_def scanSkip.simps [of U "clean (_ # _)"] scanSkip.simps [of U "clean t"])
qed

lemma pstart_exists: "plain t \<Longrightarrow> pstart U n (str '' /* exists */'' @ t) = pstart U n t"
  using pstart_comment [of "str '' exists ''" t U n] by (simp add: str_def)

definition keyword :: "gostring \<Rightarrow> bool" where
  "keyword w \<longleftrightarrow> w \<noteq> [] \<and> asciiLetter (unat (hd w)) \<and> (\<forall>b \<in> set w. alphanumeric b)"

lemma alphanumeric_plain: "alphanumeric b \<Longrightarrow> 0 < unat b \<and> unat b < 128"
  by (auto simp: alphanumeric_def asciiLetter_def isDecimal_def)

lemma keyword_plain: "keyword w \<Longrightarrow> plain w"
  using alphanumeric_plain by (auto simp: keyword_def plain_def)

lemma pstart_keyword:
  assumes "keyword w" "stops t" "plain t"
  shows "pstart U n (w @ t) = shows_token TIdent w t n"
proof -
  obtain b bs where w: "w = b # bs" using assms by (cases w) (auto simp: keyword_def)
  show ?thesis
    by (rule pstart_token [OF scan_word [OF _ w]])
      (use assms w keyword_plain [OF assms(1)] in \<open>auto simp: keyword_def identByte_def isDecimal_def asciiLetter_def\<close>)
qed

lemma pstart_char:
  "b \<in> {33, 40, 41, 46, 61, 62, 91, 93} \<Longrightarrow> plain t \<Longrightarrow> pstart U n (b # t) = shows_token (TChar (unat b)) [b] t n"
  using pstart_token [OF scan_char [of b t U]]
  by (auto simp: identByte_def alphanumeric_def asciiLetter_def isDecimal_def blank_def)

lemma pstart_quoted: "printable s \<Longrightarrow> plain t \<Longrightarrow> pstart U n (quoted s @ t) = shows_token TString (quoted s) t n"
  by (rule pstart_token [OF scan_quoted]) simp_all

lemma plain_decimal [simp]: "plain (decimal a)"
  using decimal_digits by (fastforce simp: plain_def)

lemma pstart_decimal: "stops t \<Longrightarrow> plain t \<Longrightarrow> pstart U n (decimal a @ t) = shows_token TInt (decimal a) t n"
  by (rule pstart_token [OF scan_decimal]) (use decimal_digits decimal_head in \<open>auto simp: isDecimal_def\<close>)

lemma hexEncode_plain: "plain (hexEncode v)"
  unfolding plain_def
proof
  fix b assume "b \<in> set (hexEncode v)"
  then obtain n where "b = hexdigit n" "n < 16" by (auto simp: hexEncode_def less_mult_imp_div_less unat_byte_less)
  moreover from this have "n \<in> set [0..<16]" by simp
  ultimately show "0 < unat b \<and> unat b < 128" by (simp add: upt_rec hexdigit_def) (elim disjE; simp)
qed

lemma pstart_hex:
  "v \<noteq> [] \<Longrightarrow> stops t \<Longrightarrow> plain t \<Longrightarrow> pstart U n ((str ''0x'' @ hexEncode v) @ t) = shows_token TInt (str ''0x'' @ hexEncode v) t n"
  by (rule pstart_token [OF scan_hex])
    (use hexEncode_plain hexEncode_hex in \<open>auto simp: hexEncode_def neq_Nil_conv\<close>)

lemma hexDecode_hexEncode [simp]: "hexDecode (hexEncode v) = Some v"
proof (induction v)
  case (Cons b v)
  have u: "unhex (hexdigit n) = Some n" if "n < 16" for n
  proof -
    have "n \<in> set [0..<16]" using that by simp
    then show ?thesis by (simp add: upt_rec hexdigit_def unhex_def isDecimal_def Let_def) (elim disjE; simp)
  qed
  have "hexEncode (b # v) = hexdigit (unat b div 16) # hexdigit (unat b mod 16) # hexEncode v" by (simp add: hexEncode_def)
  then show ?case using Cons u [of "unat b div 16"] u [of "unat b mod 16"] unat_byte_less [of b]
    by (simp add: less_mult_imp_div_less div_mult_mod_eq)
qed (simp add: hexEncode_def)

section \<open>Operands\<close>

lemma stops_simps [simp]: "stops []" "stops (b # t) \<longleftrightarrow> \<not> identByte b"
  by (simp_all add: stops_def)

lemma identByte_punct [simp]:
  "\<not> identByte 32" "\<not> identByte 33" "\<not> identByte 34" "\<not> identByte 40" "\<not> identByte 41" "\<not> identByte 46"
  "\<not> identByte 61" "\<not> identByte 91" "\<not> identByte 93" "\<not> identByte 10" "\<not> identByte 47"
  by (simp_all add: identByte_def alphanumeric_def asciiLetter_def isDecimal_def)

text \<open>The words of the grammar are keywords, one by one.\<close>

lemmas letters = keyword_def str_def alphanumeric_def asciiLetter_def

lemma keyword_words [simp]:
  "keyword (str ''never'')" "keyword (str ''always'')" "keyword (str ''identifier'')" "keyword (str ''certificate'')"
  "keyword (str ''root'')" "keyword (str ''leaf'')" "keyword (str ''H'')" "keyword (str ''cdhash'')" "keyword (str ''and'')"
  "keyword (str ''or'')" "keyword (str ''field'')" "keyword (str ''subject'')" "keyword (str ''CN'')" "keyword (str ''OU'')"
  "keyword (str ''O'')" "keyword (str ''anchor'')" "keyword (str ''apple'')" "keyword (str ''generic'')"
  by (simp_all add: letters)

lemma plain_words [simp]:
  "plain (str ''never'')" "plain (str ''always'')" "plain (str ''identifier'')" "plain (str ''certificate'')"
  "plain (str ''root'')" "plain (str ''leaf'')" "plain (str ''H'')" "plain (str ''cdhash'')" "plain (str ''and'')"
  "plain (str ''or'')" "plain (str ''field'')" "plain (str ''subject'')" "plain (str ''CN'')" "plain (str ''OU'')"
  "plain (str ''O'')" "plain (str ''anchor'')" "plain (str ''apple'')" "plain (str ''generic'')"
  by (simp_all add: keyword_plain)

lemma printed_words:
  "str ''identifier '' = str ''identifier'' @ [32]" "str ''certificate root'' = str ''certificate'' @ [32] @ str ''root''"
  "str ''certificate leaf'' = str ''certificate'' @ [32] @ str ''leaf''" "str ''certificate '' = str ''certificate'' @ [32]"
  "str '' = H'' = [32, 61, 32] @ str ''H''" "str '' and '' = [32] @ str ''and'' @ [32]" "str '' or '' = [32] @ str ''or'' @ [32]"
  "str ''cdhash H'' = str ''cdhash'' @ [32] @ str ''H''" "str ''! '' = [33, 32]" "str ''['' = [91]" "str ''] = '' = [93, 32, 61, 32]"
  "str ''[field.'' = [91] @ str ''field'' @ [46]" "str ''] /* exists */'' = [93] @ str '' /* exists */''"
  "str ''anchor apple generic'' = str ''anchor'' @ [32] @ str ''apple'' @ [32] @ str ''generic''"
  "str ''('' = [40]" "str '')'' = [41]" "str ''.'' = [46]"
  by (simp_all add: str_def)

lemma plain_exists [simp]: "plain (str '' /* exists */'')" by (simp add: str_def)

text \<open>
  The strings whose printed form reads back: simple words the printer does not truncate,
  and quoted strings without a newline.
\<close>

definition string_ok :: "gostring \<Rightarrow> bool" where
  "string_ok v \<longleftrightarrow> (if simpleRequirementString v then length v \<le> 255 else (\<exists>b \<in> set v. unprintable b) \<or> 10 \<notin> set v)"

lemma printable_string: "string_ok v \<Longrightarrow> \<not> simpleRequirementString v \<Longrightarrow> \<not> (\<exists>b \<in> set v. unprintable b) \<Longrightarrow> printable v"
  by (fastforce simp: string_ok_def printable_def plain_def unprintable_def)

lemma simple_keyword: "simpleRequirementString v \<Longrightarrow> keyword v"
  by (cases v) (auto simp: simpleRequirementString_def keyword_def alphanumeric_def)

lemma plain_requirementString: "string_ok v \<Longrightarrow> plain (requirementString v)"
  using plain_quoted [OF printable_string] keyword_plain [OF simple_keyword] hexEncode_plain
  by (auto simp: requirementString_def string_ok_def str_def)

lemma stringValue_printed:
  assumes ok: "string_ok v" and t: "stops t" "plain t"
  shows "stringValue U (pstart U n (requirementString v @ t)) = Inr (v, pstart U n t)"
proof (cases "simpleRequirementString v")
  case True
  then show ?thesis using ok pstart_keyword [OF simple_keyword [OF True] t]
    by (simp add: requirementString_def string_ok_def stringValue_def)
next
  case simple: False
  show ?thesis
  proof (cases "\<exists>b \<in> set v. unprintable b")
    case True
    then have "v \<noteq> []" by auto
    with True simple show ?thesis using pstart_hex [OF _ t, of v U n]
      by (simp add: requirementString_def stringValue_def) (simp add: str_def)
  next
    case False
    note p = printable_string [OF ok simple False]
    from False simple have "requirementString v = quoted v" by (simp add: requirementString_def quoted_def)
    with p t show ?thesis by (simp add: stringValue_def pstart_quoted unquote_quoted)
  qed
qed

definition follow :: "unicode \<Rightarrow> byte list \<Rightarrow> bool" where
  "follow U t \<longleftrightarrow> plain t \<and> stops t \<and> (\<forall>n. endsField (pstart U n t))"

lemma follow_plain: "follow U t \<Longrightarrow> plain t" "follow U t \<Longrightarrow> stops t"
  by (simp_all add: follow_def)

lemma follow_Nil: "follow U []" by (simp add: follow_def endsField_def)

lemma follow_operators:
  "plain t \<Longrightarrow> follow U (str '' and '' @ t)" "plain t \<Longrightarrow> follow U (str '' or '' @ t)" "plain t \<Longrightarrow> follow U (str '')'' @ t)"
  by (simp_all add: follow_def printed_words pstart_keyword pstart_char endsField_def)

text \<open>The certificate index.\<close>

lemma plain_certText [simp]: "plain (certText slot)"
  by (simp add: certText_def formatInt_def printed_words) (simp add: str_def)

definition slotWord :: "int \<Rightarrow> gostring" where
  "slotWord slot = (if slot = -1 then str ''root'' else if slot = 0 then str ''leaf'' else decimal (nat slot))"

lemma plain_slotWord [simp]: "plain (slotWord slot)" by (simp add: slotWord_def)

lemma certText_slotWord: "slot_ok slot \<Longrightarrow> certText slot = str ''certificate'' @ 32 # slotWord slot"
  by (auto simp: certText_def formatInt_def slotWord_def slot_ok_def printed_words)

lemma slotWord_index: "slot_ok slot \<Longrightarrow> certificateIndex (slotWord slot) = Inr slot"
proof -
  assume s: "slot_ok slot"
  have d: "decimal i \<noteq> str ''leaf''" "decimal i \<noteq> str ''root''" for i
    using decimal_digits [of "hd (decimal i)" i] by (auto simp: str_def)
  show ?thesis
  proof (cases "slot = -1 \<or> slot = 0")
    case True
    then show ?thesis by (auto simp: slotWord_def certificateIndex_def) (simp_all add: str_def)
  next
    case False
    with s have "0 \<le> slot" "slot \<le> 31" unfolding slot_ok_def by presburger+
    with False d show ?thesis by (simp add: slotWord_def certificateIndex_def)
  qed
qed

text \<open>A word the parser takes for an index.\<close>

definition index_word :: "gostring \<Rightarrow> int \<Rightarrow> bool" where
  "index_word w slot \<longleftrightarrow> (w = str ''root'' \<or> w = str ''leaf'' \<or> (\<exists>i. w = decimal i)) \<and> certificateIndex w = Inr slot"

lemma index_word_slot: "index_word w slot \<Longrightarrow> slot_ok slot"
  by (auto simp: index_word_def certificateIndex_def slot_ok_def split: if_splits option.splits)

lemma plain_index_word: "index_word w slot \<Longrightarrow> plain w"
  by (auto simp: index_word_def)

lemma slotWord_word: "slot_ok slot \<Longrightarrow> index_word (slotWord slot) slot"
  by (auto simp: index_word_def slotWord_index) (auto simp: slotWord_def split: if_splits)

lemma pstart_index:
  "index_word w slot \<Longrightarrow> stops t \<Longrightarrow> plain t \<Longrightarrow> \<exists>k. pstart U n (w @ t) = shows_token k w t n"
  by (auto simp: index_word_def pstart_keyword pstart_decimal)

lemma fieldText_token: "w \<noteq> str '']'' \<Longrightarrow> k \<noteq> TEOF \<Longrightarrow> fieldText U acc (shows_token k w t n) = fieldText U (acc @ w) (pstart U n t)"
  by (subst fieldText.simps) simp

lemma fieldText_end: "ps_text p = str '']'' \<Longrightarrow> fieldText U acc p = (acc, p)"
  by (subst fieldText.simps) simp

lemma decimal_no_bracket: "decimal a \<noteq> str '']''"
  using decimal_digits [of "hd (decimal a)" a] by (auto simp: str_def)

lemma not_bracket [simp]: "[46] \<noteq> str '']''" "keyword w \<Longrightarrow> w \<noteq> str '']''"
  by (auto simp: letters)

lemma bracket: "str '']'' = [93]"
  by (simp add: str_def)

lemma fieldText_bracket [simp]: "fieldText U acc (shows_token k [93] t n) = (acc, shows_token k [93] t n)"
  by (rule fieldText_end) (simp add: str_def)

lemma fieldText_oid:
  "oid \<noteq> [] \<Longrightarrow> plain t \<Longrightarrow>
    fieldText U acc (pstart U n (oidString oid @ 93 # t)) = (acc @ oidString oid, shows_token (TChar 93) [93] t n)"
proof (induction oid arbitrary: acc rule: oidString.induct)
  case (2 a)
  then show ?case
    by (simp add: pstart_decimal fieldText_token decimal_no_bracket pstart_char)
next
  case (3 a b rest)
  have pl: "plain (oidString oid)" for oid by (induction oid rule: oidString.induct) (simp_all add: str_def)
  from 3 pl [of "b # rest"] show ?case
    by (simp add: printed_words pstart_decimal fieldText_token decimal_no_bracket pstart_char)
qed simp

lemma plain_oidString [simp]: "plain (oidString oid)"
  by (induction oid rule: oidString.induct) (simp_all add: str_def)

lemma pstart_eof: "ps_token (pstart U n t) = TEOF \<Longrightarrow> ps_text (pstart U n t) = []"
  using scanSkip_rest [of U "clean t"] by (auto simp: pstart_def nextP_def split: prod.splits)

lemma exists_kind: "ps_text q = str ''exists'' \<Longrightarrow> requirementKind q = None"
  by (simp add: requirementKind_def Let_def) (simp add: str_def digitsValue_def isDecimal_def)

lemma follow_not_exists:
  assumes "follow U t"
  shows "ps_text (pstart U n t) \<noteq> str ''exists''"
proof
  assume e: "ps_text (pstart U n t) = str ''exists''"
  from assms have "endsField (pstart U n t)" by (simp add: follow_def)
  then show False
    unfolding endsField_def
  proof (elim disjE)
    assume "ps_token (pstart U n t) = TEOF"
    from pstart_eof [OF this] e show False by (simp add: str_def)
  next
    assume "ps_text (pstart U n t) \<in> {str ''and'', str ''or'', str '')'', str '';''}"
    with e show False by (simp add: str_def)
  next
    assume "requirementKind (pstart U n t) \<noteq> None"
    with exists_kind [OF e] show False by simp
  qed
qed

lemma field_prefix:
  assumes "oid \<noteq> []" "plain t"
  shows "fieldText U [] (pstart U n (str ''field'' @ 46 # oidString oid @ 93 # t)) =
    (str ''field.'' @ oidString oid, shows_token (TChar 93) [93] t n)"
proof -
  have "str ''field'' @ [46] = str ''field.''" by (simp add: str_def)
  then show ?thesis
    using fieldText_oid [OF assms, of U "str ''field'' @ [46]" n] assms(2)
    by (simp add: pstart_keyword fieldText_token pstart_char)
qed

text \<open>An extension, with the printer's comment or with the word.\<close>

lemma field_oid:
  assumes oid: "parseOID f = Some oid" and t: "plain t"
  shows "certificateField U slot (shows_token k w (str ''field'' @ 46 # oidString oid @ 93 # t) n) =
    (let p = pstart U n t in
     if ps_text p = str ''exists'' then Inr (ReqExtension slot f, nextP U p)
     else if \<not> endsField p then Inl (Unsupported ''certificate extension match'') else Inr (ReqExtension slot f, p))"
proof -
  note m = marshal_parse [OF oid]
  have "take 6 (str ''field.'' @ x) = str ''field.''" "drop 6 (str ''field.'' @ x) = x" for x
    by (simp_all add: str_def)
  then show ?thesis
    using field_prefix [OF m(2) t] parseArcs_oidString [OF m(2,3)] m(1)
    by (simp add: certificateField_def Let_def bracket)
qed

lemma field_extension:
  assumes oid: "decodeOID f = Inr oid" and t: "follow U t"
  shows "certificateField U slot (shows_token k w (str ''field'' @ 46 # oidString oid @ str ''] /* exists */'' @ t) n) =
    Inr (ReqExtension slot f, pstart U n t)"
proof -
  from oid have p: "parseOID f = Some oid" by (simp add: decodeOID_def split: if_splits option.splits)
  have "plain (str '' /* exists */'' @ t)" using follow_plain [OF t] by simp
  from field_oid [OF p this] show ?thesis
    using follow_plain [OF t] follow_not_exists [OF t] t by (simp add: printed_words pstart_exists follow_def Let_def)
qed

lemma field_subject:
  assumes f: "f \<in> set subjectFields" and v: "stringValue U (pstart U n (x @ t)) = Inr (v, pstart U n t)" and pl: "plain (x @ t)"
  shows "certificateField U slot (shows_token k w (f @ str ''] = '' @ x @ t) n) = Inr (ReqSubject slot f v, pstart U n t)"
proof -
  from f obtain w where fw: "f = str ''subject'' @ 46 # w" and w: "keyword w"
    unfolding subjectFields_def by (auto simp: letters)
  have "fieldText U [] (pstart U n (str ''subject'' @ 46 # w @ 93 # 32 # 61 # 32 # x @ t)) =
      (f, shows_token (TChar 93) [93] (32 # 61 # 32 # x @ t) n)"
    using pl w keyword_plain [OF w]
    by (simp add: fw pstart_keyword fieldText_token pstart_char)
  moreover have "take 6 f \<noteq> str ''field.''" using f by (auto simp: subjectFields_def str_def)
  ultimately show ?thesis
    using f v pl by (simp add: certificateField_def Let_def printed_words fw pstart_char bracket) (simp add: str_def)
qed

section \<open>Atoms\<close>

lemma atom_step:
  assumes "k < 4096" "d < 128"
  shows "atom U d (shows_token q s t k) =
    (let p = pstart U (Suc k) t in
     if s = str ''anchor'' then anchorAtom U p
     else if s = str ''always'' \<or> s = str ''true'' then Inr (ReqAlways, p)
     else if s = str ''never'' \<or> s = str ''false'' then Inr (ReqNever, p)
     else if s = str ''!'' \<or> s = str ''not'' then rbind (atom U (d + 1) p) (\<lambda>(n, p). Inr (ReqNot n, p))
     else if s = str ''('' then
       rbind (expression U (atom U (d + 2)) (d + 1) p) (\<lambda>(n, p).
       if ps_text p \<noteq> str '')'' then Inl (Plain ''requirement: expected closing parenthesis'') else Inr (n, nextP U p))
     else if s = str ''identifier'' then rbind (stringValue U p) (\<lambda>(v, p). Inr (ReqIdentifier v, p))
     else if s = str ''cdhash'' then cdhashAtom U p
     else if s = str ''certificate'' then certificateAtom U p
     else Inl (Unsupported ''requirement predicate''))"
proof -
  have g: "\<not> k + 1 > 4096" "\<not> d + 1 > 128" using assms by simp_all
  show ?thesis unfolding atom.simps [of U d "shows_token q s t k"] shows_sel if_not_P [OF g(1)] if_not_P [OF g(2)] nextP_shows Let_def
    by (simp only: Suc_eq_plus1)
qed

lemma word_codes:
  "str ''never'' = [110, 101, 118, 101, 114]" "str ''always'' = [97, 108, 119, 97, 121, 115]"
  "str ''anchor'' = [97, 110, 99, 104, 111, 114]" "str ''true'' = [116, 114, 117, 101]" "str ''false'' = [102, 97, 108, 115, 101]"
  "str ''identifier'' = [105, 100, 101, 110, 116, 105, 102, 105, 101, 114]" "str ''cdhash'' = [99, 100, 104, 97, 115, 104]"
  "str ''certificate'' = [99, 101, 114, 116, 105, 102, 105, 99, 97, 116, 101]" "str ''!'' = [33]" "str ''('' = [40]"
  "str '')'' = [41]" "str ''not'' = [110, 111, 116]"
  by (simp_all add: str_def)

lemma atom_words:
  assumes "k < 4096" "d < 128"
  shows "atom U d (shows_token q (str ''never'') t k) = Inr (ReqNever, pstart U (Suc k) t)"
    "atom U d (shows_token q (str ''always'') t k) = Inr (ReqAlways, pstart U (Suc k) t)"
    "atom U d (shows_token q (str ''anchor'') t k) = anchorAtom U (pstart U (Suc k) t)"
    "atom U d (shows_token q (str ''identifier'') t k) =
      rbind (stringValue U (pstart U (Suc k) t)) (\<lambda>(v, p). Inr (ReqIdentifier v, p))"
    "atom U d (shows_token q (str ''cdhash'') t k) = cdhashAtom U (pstart U (Suc k) t)"
    "atom U d (shows_token q (str ''certificate'') t k) = certificateAtom U (pstart U (Suc k) t)"
    "atom U d (shows_token q [33] t k) = rbind (atom U (d + 1) (pstart U (Suc k) t)) (\<lambda>(n, p). Inr (ReqNot n, p))"
    "atom U d (shows_token q [40] t k) =
      rbind (expression U (atom U (d + 2)) (d + 1) (pstart U (Suc k) t)) (\<lambda>(n, p).
      if ps_text p \<noteq> [41] then Inl (Plain ''requirement: expected closing parenthesis'') else Inr (n, nextP U p))"
  by (simp_all add: atom_step [OF assms] word_codes Let_def)

lemma quoted_hex_text: "[34] @ hexEncode v @ [34] = quoted (hexEncode v)"
  by (simp add: quoted_def quoted_hex)

lemma printable_hex: "printable (hexEncode v)"
  using hexEncode_plain [of v] hexEncode_hex [of 10 v] by (auto simp: printable_def isHex_def isDecimal_def lowerRune_def)

lemma plain_quoted_hex [simp]: "plain (quoted (hexEncode v))"
  using plain_quoted [OF printable_hex [of v]] by (simp add: quoted_def)

lemma cdhashAtom_printed:
  assumes "length v = 20" "plain t"
  shows "cdhashAtom U (pstart U n (str ''H'' @ quoted (hexEncode v) @ t)) = Inr (ReqCDHash v, pstart U n t)"
proof -
  have "stops (quoted (hexEncode v) @ t)" by (simp add: quoted_def)
  with assms show ?thesis
    by (simp add: cdhashAtom_def pstart_keyword pstart_quoted printable_hex stringValue_def unquote_quoted Let_def)
qed

lemma certificateAtom_hash:
  assumes "length v = 20" "plain t" "index_word w slot"
  shows "certificateAtom U (pstart U n (w @ str '' = H'' @ quoted (hexEncode v) @ t)) = Inr (ReqCertificate slot v, pstart U n t)"
proof -
  let ?t = "str '' = H'' @ quoted (hexEncode v) @ t"
  have st: "stops (quoted (hexEncode v) @ t)" "stops ?t" "plain ?t" using assms(2) by (simp_all add: quoted_def printed_words hexEncode_plain quoted_hex)
  obtain k where p: "pstart U n (w @ ?t) = shows_token k w ?t n" using pstart_index [OF assms(3) st(2,3)] by blast
  have i: "certificateIndex w = Inr slot" using assms(3) by (simp add: index_word_def)
  show ?thesis
    unfolding certificateAtom_def p shows_sel i nextP_shows
    using assms(1,2) st(1) by (simp add: Let_def printed_words pstart_keyword pstart_char pstart_quoted printable_hex unquote_quoted) (simp add: str_def)
qed

lemma certificateAtom_field:
  assumes "plain t" "index_word w slot"
  shows "certificateAtom U (pstart U n (w @ 91 # t)) = certificateField U slot (shows_token (TChar 91) [91] t n)"
proof -
  obtain k where p: "pstart U n (w @ 91 # t) = shows_token k w (91 # t) n"
    using pstart_index [OF assms(2), of "91 # t" U n] assms(1) by auto
  have i: "certificateIndex w = Inr slot" using assms(2) by (simp add: index_word_def)
  show ?thesis
    unfolding certificateAtom_def p shows_sel i nextP_shows
    using assms(1) by (simp add: Let_def printed_words pstart_char)
qed

text \<open>Expressions whose text reads back.\<close>

primrec strings_ok :: "req \<Rightarrow> bool" where
  "strings_ok ReqNever = True"
| "strings_ok ReqAlways = True"
| "strings_ok (ReqIdentifier v) = string_ok v"
| "strings_ok (ReqCertificate slot v) = True"
| "strings_ok (ReqAnd l r) = (strings_ok l \<and> strings_ok r)"
| "strings_ok (ReqOr l r) = (strings_ok l \<and> strings_ok r)"
| "strings_ok (ReqCDHash v) = True"
| "strings_ok (ReqNot l) = strings_ok l"
| "strings_ok (ReqSubject slot f v) = string_ok v"
| "strings_ok (ReqExtension slot f) = True"
| "strings_ok ReqAnchor = True"

fun leaf :: "req \<Rightarrow> bool" where
  "leaf (ReqAnd l r) = False"
| "leaf (ReqOr l r) = False"
| "leaf (ReqNot l) = False"
| "leaf _ = True"

lemma plain_subjectField: "f \<in> set subjectFields \<Longrightarrow> plain f"
  by (auto simp: subjectFields_def str_def)

lemma atom_leaf:
  assumes "leaf n" and ok: "req_ok n" "strings_ok n" and t: "follow U t" and b: "k < 4096" "d < 128"
  shows "atom U d (pstart U k (text_of n l @ t)) = Inr (n, pstart U (Suc k) t)"
proof -
  note p = follow_plain [OF t]
  show ?thesis
  proof (cases n)
    case (ReqIdentifier v)
    then show ?thesis using p b ok plain_requirementString [of v] stringValue_printed [of v t U "Suc k"]
      by (simp add: printed_words pstart_keyword atom_words)
  next
    case (ReqCertificate slot v)
    then have v: "length v = 20" "slot_ok slot" using ok by simp_all
    let ?t = "str '' = H'' @ quoted (hexEncode v) @ t"
    have pl: "plain ?t" using p by (simp add: printed_words)
    have shown: "text_of n l @ t = str ''certificate'' @ 32 # slotWord slot @ ?t"
      using ReqCertificate v by (simp add: certText_slotWord flip: quoted_hex_text)
    show ?thesis unfolding shown unfolding ReqCertificate
      using p b pl certificateAtom_hash [OF v(1) p(1) slotWord_word [OF v(2)]] by (simp add: pstart_keyword atom_words)
  next
    case (ReqCDHash v)
    then have v: "length v = 20" using ok by simp
    have shown: "text_of n l @ t = str ''cdhash'' @ 32 # str ''H'' @ quoted (hexEncode v) @ t"
      using ReqCDHash by (simp add: printed_words flip: quoted_hex_text)
    show ?thesis unfolding shown unfolding ReqCDHash
      using p b cdhashAtom_printed [OF v p(1)] by (simp add: pstart_keyword atom_words)
  next
    case (ReqSubject slot f v)
    let ?t = "f @ str ''] = '' @ requirementString v @ t"
    from ReqSubject have f: "f \<in> set subjectFields" "string_ok v" "slot_ok slot" using ok by simp_all
    have pl: "plain ?t" using f p by (simp add: plain_subjectField plain_requirementString printed_words)
    have shown: "text_of n l @ t = str ''certificate'' @ 32 # slotWord slot @ 91 # ?t"
      using ReqSubject f(3) by (simp add: certText_slotWord printed_words)
    show ?thesis unfolding shown unfolding ReqSubject using p b pl certificateAtom_field [OF pl slotWord_word [OF f(3)]] field_subject [OF f(1) stringValue_printed [OF f(2) p(2,1)]] plain_requirementString [OF f(2)]
      by (simp add: pstart_keyword atom_words)
  next
    case (ReqExtension slot f)
    then obtain oid where oid: "decodeOID f = Inr oid" and s: "slot_ok slot" using ok by auto
    let ?t = "str ''field'' @ 46 # oidString oid @ str ''] /* exists */'' @ t"
    have pl: "plain ?t" using p by (simp add: printed_words)
    have shown: "text_of n l @ t = str ''certificate'' @ 32 # slotWord slot @ 91 # ?t"
      using ReqExtension s oid by (simp add: certText_slotWord oidText_def printed_words)
    show ?thesis unfolding shown unfolding ReqExtension using p b pl certificateAtom_field [OF pl slotWord_word [OF s]] field_extension [OF oid t]
      by (simp add: pstart_keyword atom_words)
  next
    case ReqAnchor
    have "anchorAtom U (pstart U (Suc k) (str ''apple'' @ 32 # str ''generic'' @ t)) = Inr (ReqAnchor, pstart U (Suc k) t)"
      using p by (simp add: anchorAtom_def pstart_keyword Let_def)
    then show ?thesis using p b ReqAnchor by (simp add: printed_words pstart_keyword atom_words)
  qed (use assms p in \<open>simp_all add: pstart_keyword atom_words\<close>)
qed

section \<open>Reading back an expression\<close>

text \<open>
  Chains of one operator are printed without parentheses and read back grouped to the left:
  \<open>graft\<close> puts an operand before the first one of a chain.
\<close>

fun graftAnd :: "req \<Rightarrow> req \<Rightarrow> req" where
  "graftAnd a (ReqAnd l r) = ReqAnd (graftAnd a l) r"
| "graftAnd a n = ReqAnd a n"

fun graftOr :: "req \<Rightarrow> req \<Rightarrow> req" where
  "graftOr a (ReqOr l r) = ReqOr (graftOr a l) r"
| "graftOr a n = ReqOr a n"

primrec canon :: "req \<Rightarrow> req" where
  "canon ReqNever = ReqNever"
| "canon ReqAlways = ReqAlways"
| "canon (ReqIdentifier v) = ReqIdentifier v"
| "canon (ReqCertificate slot v) = ReqCertificate slot v"
| "canon (ReqAnd l r) = graftAnd (canon l) (canon r)"
| "canon (ReqOr l r) = graftOr (canon l) (canon r)"
| "canon (ReqCDHash v) = ReqCDHash v"
| "canon (ReqNot l) = ReqNot (canon l)"
| "canon (ReqSubject slot f v) = ReqSubject slot f v"
| "canon (ReqExtension slot f) = ReqExtension slot f"
| "canon ReqAnchor = ReqAnchor"

text \<open>The atoms the parser counts on the text at a level, and the nesting below the level.\<close>

primrec atoms_of :: "req \<Rightarrow> nat \<Rightarrow> nat" where
  "atoms_of ReqNever level = 1"
| "atoms_of ReqAlways level = 1"
| "atoms_of (ReqIdentifier v) level = 1"
| "atoms_of (ReqCertificate slot v) level = 1"
| "atoms_of (ReqAnd l r) level = (if level < 1 then 1 else 0) + atoms_of l 1 + atoms_of r 1"
| "atoms_of (ReqOr l r) level = (if level < 2 then 1 else 0) + atoms_of l 2 + atoms_of r 2"
| "atoms_of (ReqCDHash v) level = 1"
| "atoms_of (ReqNot l) level = 1 + atoms_of l 0"
| "atoms_of (ReqSubject slot f v) level = 1"
| "atoms_of (ReqExtension slot f) level = 1"
| "atoms_of ReqAnchor level = 1"

primrec nesting :: "req \<Rightarrow> nat \<Rightarrow> nat" where
  "nesting ReqNever level = 1"
| "nesting ReqAlways level = 1"
| "nesting (ReqIdentifier v) level = 1"
| "nesting (ReqCertificate slot v) level = 1"
| "nesting (ReqAnd l r) level = (if level < 1 then 2 else 0) + max (nesting l 1) (nesting r 1)"
| "nesting (ReqOr l r) level = (if level < 2 then 2 else 0) + max (nesting l 2) (nesting r 2)"
| "nesting (ReqCDHash v) level = 1"
| "nesting (ReqNot l) level = 1 + nesting l 0"
| "nesting (ReqSubject slot f v) level = 1"
| "nesting (ReqExtension slot f) level = 1"
| "nesting ReqAnchor level = 1"

lemma leaf_parts: "leaf n \<Longrightarrow> canon n = n \<and> atoms_of n l = 1 \<and> nesting n l = 1"
  by (cases n) simp_all

lemma nesting_pos: "1 \<le> nesting n level" by (induction n arbitrary: level) (auto simp: le_max_iff_disj)

text \<open>Only the operators' own levels matter.\<close>

lemma level_irrelevant:
  "(\<forall>l r. n \<noteq> ReqAnd l r) \<Longrightarrow> (\<forall>l r. n \<noteq> ReqOr l r) \<Longrightarrow>
    text_of n a = text_of n b \<and> atoms_of n a = atoms_of n b \<and> nesting n a = nesting n b"
  by (cases n) simp_all

lemma plain_text_of: "req_ok n \<Longrightarrow> strings_ok n \<Longrightarrow> plain (text_of n level)"
proof (induction n arbitrary: level)
  case (ReqExtension slot f)
  then show ?case by (auto simp: oidText_def printed_words split: sum.split)
qed (auto simp: parens_def printed_words plain_requirementString hexEncode_plain plain_subjectField)

subsection \<open>The loops\<close>

lemma remaining_pstart: "remaining (pstart U n t) \<le> length t"
  using nextP_remaining [of U "\<lparr>ps_scan = clean t, ps_token = TEOF, ps_text = [], ps_nodes = n\<rparr>"] by (simp add: pstart_def)

lemma chainLoop_stop: "ps_text p \<noteq> kw \<Longrightarrow> chainLoop U kw node f n p = Inr (n, p)"
  by (subst chainLoop.simps) simp

text \<open>One operand: the operator's keyword, then what \<open>f\<close> reads.\<close>

lemma chainLoop_step:
  assumes kw: "keyword kw" "plain (32 # x @ t)"
    and f: "f (pstart U k (32 # x @ t)) = Inr (r, pstart U k' t)"
  shows "chainLoop U kw node f n (pstart U k (32 # kw @ 32 # x @ t)) = chainLoop U kw node f (node n r) (pstart U k' t)"
proof -
  have p: "pstart U k (32 # kw @ 32 # x @ t) = shows_token TIdent kw (32 # x @ t) k"
    using kw keyword_plain [OF kw(1)] by (simp add: pstart_keyword)
  have "remaining (pstart U k' t) < remaining (shows_token TIdent kw (32 # x @ t) k)"
    using remaining_pstart [of U k' t] by (simp add: remaining_def)
  with f show ?thesis unfolding p by (subst chainLoop.simps) simp
qed

text \<open>
  \<open>reads_atom\<close>: the text of \<open>n\<close> at level 0 is one atom. \<open>reads_chain\<close>: at the level of an
  operator it is a first operand with the loop's remaining rounds, and after the operator it
  is further rounds.
\<close>

definition fits :: "req \<Rightarrow> nat \<Rightarrow> nat \<Rightarrow> nat \<Rightarrow> bool" where
  "fits n level d k \<longleftrightarrow> req_ok n \<and> strings_ok n \<and> d + nesting n level \<le> 128 \<and> k + atoms_of n level \<le> 4096"

definition reads_atom :: "unicode \<Rightarrow> req \<Rightarrow> bool" where
  "reads_atom U n \<longleftrightarrow> (\<forall>d k t. follow U t \<longrightarrow> fits n 0 d k \<longrightarrow>
     atom U d (pstart U k (text_of n 0 @ t)) = Inr (canon n, pstart U (k + atoms_of n 0) t))"

definition reads_and :: "unicode \<Rightarrow> req \<Rightarrow> bool" where
  "reads_and U n \<longleftrightarrow> (\<forall>d k t. follow U t \<longrightarrow> fits n 1 d k \<longrightarrow>
     conjunction U (atom U d) (pstart U k (text_of n 1 @ t)) =
       chainLoop U (str ''and'') ReqAnd (atom U d) (canon n) (pstart U (k + atoms_of n 1) t) \<and>
     (\<forall>a. chainLoop U (str ''and'') ReqAnd (atom U d) a (pstart U k (str '' and '' @ text_of n 1 @ t)) =
       chainLoop U (str ''and'') ReqAnd (atom U d) (graftAnd a (canon n)) (pstart U (k + atoms_of n 1) t)))"

definition ends_and :: "unicode \<Rightarrow> byte list \<Rightarrow> bool" where
  "ends_and U t \<longleftrightarrow> follow U t \<and> (\<forall>n. ps_text (pstart U n t) \<noteq> str ''and'')"

definition reads_or :: "unicode \<Rightarrow> req \<Rightarrow> bool" where
  "reads_or U n \<longleftrightarrow> (\<forall>d k t. ends_and U t \<longrightarrow> fits n 2 d k \<longrightarrow>
     rbind (conjunction U (atom U d) (pstart U k (text_of n 2 @ t))) (\<lambda>(m, p). chainLoop U (str ''or'') ReqOr (conjunction U (atom U d)) m p) =
       chainLoop U (str ''or'') ReqOr (conjunction U (atom U d)) (canon n) (pstart U (k + atoms_of n 2) t) \<and>
     (\<forall>a. chainLoop U (str ''or'') ReqOr (conjunction U (atom U d)) a (pstart U k (str '' or '' @ text_of n 2 @ t)) =
       chainLoop U (str ''or'') ReqOr (conjunction U (atom U d)) (graftOr a (canon n)) (pstart U (k + atoms_of n 2) t)))"

lemma canon_and: "(\<forall>l r. n \<noteq> ReqAnd l r) \<Longrightarrow> graftAnd a (canon n) = ReqAnd a (canon n)"
proof (cases n)
  case (ReqOr l r)
  have "\<exists>x y. graftOr u v = ReqOr x y" for u v by (cases "(u, v)" rule: graftOr.cases) simp_all
  then obtain x y where "canon n = ReqOr x y" unfolding ReqOr canon.simps by blast
  then show ?thesis by simp
qed simp_all

lemma canon_or: "(\<forall>l r. n \<noteq> ReqOr l r) \<Longrightarrow> graftOr a (canon n) = ReqOr a (canon n)"
proof (cases n)
  case (ReqAnd l r)
  have "\<exists>x y. graftAnd u v = ReqAnd x y" for u v by (cases "(u, v)" rule: graftAnd.cases) simp_all
  then obtain x y where "canon n = ReqAnd x y" unfolding ReqAnd canon.simps by blast
  then show ?thesis by simp
qed simp_all

lemma graftAnd_assoc: "graftAnd a (graftAnd b c) = graftAnd (graftAnd a b) c"
  by (induction b c rule: graftAnd.induct) simp_all

lemma graftOr_assoc: "graftOr a (graftOr b c) = graftOr (graftOr a b) c"
  by (induction b c rule: graftOr.induct) simp_all


text \<open>The text of an operand that is not of the operator's own kind has its parentheses.\<close>

lemma and_operand:
  "(\<forall>l r. n \<noteq> ReqAnd l r) \<Longrightarrow> text_of n 1 = text_of n 0 \<and> atoms_of n 1 = atoms_of n 0 \<and> nesting n 1 = nesting n 0"
  by (cases n) simp_all

lemma or_operand:
  "(\<forall>l r. n \<noteq> ReqOr l r) \<Longrightarrow> text_of n 2 = text_of n 1 \<and> atoms_of n 2 = atoms_of n 1 \<and> nesting n 2 = nesting n 1"
  by (cases n) simp_all

lemma operator_text: "str '' and '' @ x = 32 # str ''and'' @ 32 # x" "str '' or '' @ x = 32 # str ''or'' @ 32 # x"
  by (simp_all add: str_def)

lemma reads_and_atom:
  assumes a: "reads_atom U n" and n: "\<forall>l r. n \<noteq> ReqAnd l r"
  shows "reads_and U n"
  unfolding reads_and_def
proof (intro allI impI)
  fix d k t assume t: "follow U t" and f: "fits n 1 d k"
  let ?x = "text_of n 0"
  note eq = and_operand [OF n]
  from f eq have f0: "fits n 0 d k" by (simp add: fits_def)
  with a t have r: "atom U d (pstart U k (?x @ t)) = Inr (canon n, pstart U (k + atoms_of n 0) t)" by (simp add: reads_atom_def)
  have pl: "plain (32 # ?x @ t)" using f plain_text_of follow_plain [OF t] by (simp add: fits_def)
  have r': "atom U d (pstart U k (32 # ?x @ t)) = Inr (canon n, pstart U (k + atoms_of n 0) t)" using r pl by simp
  show "conjunction U (atom U d) (pstart U k (text_of n 1 @ t)) =
       chainLoop U (str ''and'') ReqAnd (atom U d) (canon n) (pstart U (k + atoms_of n 1) t) \<and>
     (\<forall>a. chainLoop U (str ''and'') ReqAnd (atom U d) a (pstart U k (str '' and '' @ text_of n 1 @ t)) =
       chainLoop U (str ''and'') ReqAnd (atom U d) (graftAnd a (canon n)) (pstart U (k + atoms_of n 1) t))"
    using eq r chainLoop_step [where f = "atom U d", OF _ pl r'] by (simp add: conjunction_def operator_text canon_and [OF n])
qed

lemma reads_and_And:
  assumes l: "reads_and U l" and r: "reads_and U r"
  shows "reads_and U (ReqAnd l r)"
  unfolding reads_and_def
proof (intro allI impI)
  fix d k t assume t: "follow U t" and f: "fits (ReqAnd l r) 1 d k"
  from f have fl: "fits l 1 d k" and fr: "fits r 1 d (k + atoms_of l 1)" by (auto simp: fits_def max_def split: if_splits)
  have pl: "plain (text_of r 1 @ t)" using fr plain_text_of follow_plain [OF t] by (simp add: fits_def)
  note L = l [unfolded reads_and_def, rule_format, OF follow_operators(1) [OF pl] fl]
  note R = r [unfolded reads_and_def, rule_format, OF t fr, THEN conjunct2, rule_format]
  show "conjunction U (atom U d) (pstart U k (text_of (ReqAnd l r) 1 @ t)) =
       chainLoop U (str ''and'') ReqAnd (atom U d) (canon (ReqAnd l r)) (pstart U (k + atoms_of (ReqAnd l r) 1) t) \<and>
     (\<forall>a. chainLoop U (str ''and'') ReqAnd (atom U d) a (pstart U k (str '' and '' @ text_of (ReqAnd l r) 1 @ t)) =
       chainLoop U (str ''and'') ReqAnd (atom U d) (graftAnd a (canon (ReqAnd l r))) (pstart U (k + atoms_of (ReqAnd l r) 1) t))"
    using L R by (simp add: parens_def add.assoc graftAnd_assoc)
qed

lemma reads_or_and:
  assumes a: "reads_and U n" and n: "\<forall>l r. n \<noteq> ReqOr l r"
  shows "reads_or U n"
  unfolding reads_or_def
proof (intro allI impI)
  fix d k t assume t: "ends_and U t" and f: "fits n 2 d k"
  let ?x = "text_of n 1" and ?p = "pstart U (k + atoms_of n 1) t"
  note eq = or_operand [OF n]
  from f eq have f1: "fits n 1 d k" by (simp add: fits_def)
  from t have ft: "follow U t" "ps_text ?p \<noteq> str ''and''" by (simp_all add: ends_and_def)
  from a ft f1 have r: "conjunction U (atom U d) (pstart U k (?x @ t)) = Inr (canon n, ?p)"
    by (simp add: reads_and_def chainLoop_stop)
  have pl: "plain (32 # ?x @ t)" using f plain_text_of follow_plain [OF ft(1)] by (simp add: fits_def)
  have r': "conjunction U (atom U d) (pstart U k (32 # ?x @ t)) = Inr (canon n, ?p)" using r pl by simp
  show "rbind (conjunction U (atom U d) (pstart U k (text_of n 2 @ t))) (\<lambda>(m, p). chainLoop U (str ''or'') ReqOr (conjunction U (atom U d)) m p) =
       chainLoop U (str ''or'') ReqOr (conjunction U (atom U d)) (canon n) (pstart U (k + atoms_of n 2) t) \<and>
     (\<forall>a. chainLoop U (str ''or'') ReqOr (conjunction U (atom U d)) a (pstart U k (str '' or '' @ text_of n 2 @ t)) =
       chainLoop U (str ''or'') ReqOr (conjunction U (atom U d)) (graftOr a (canon n)) (pstart U (k + atoms_of n 2) t))"
    using eq r chainLoop_step [where f = "conjunction U (atom U d)", OF _ pl r'] by (simp add: operator_text canon_or [OF n])
qed

lemma reads_or_Or:
  assumes l: "reads_or U l" and r: "reads_or U r"
  shows "reads_or U (ReqOr l r)"
  unfolding reads_or_def
proof (intro allI impI)
  fix d k t assume t: "ends_and U t" and f: "fits (ReqOr l r) 2 d k"
  from f have fl: "fits l 2 d k" and fr: "fits r 2 d (k + atoms_of l 2)" by (auto simp: fits_def max_def split: if_splits)
  have pl: "plain (text_of r 2 @ t)" using fr plain_text_of t by (simp add: fits_def ends_and_def follow_def)
  have "str ''or'' \<noteq> str ''and''" by (simp add: str_def)
  then have e: "ends_and U (str '' or '' @ text_of r 2 @ t)"
    using follow_operators(2) [OF pl] pl by (simp add: ends_and_def operator_text pstart_keyword)
  note L = l [unfolded reads_or_def, rule_format, OF e fl]
  note R = r [unfolded reads_or_def, rule_format, OF t fr, THEN conjunct2, rule_format]
  show "rbind (conjunction U (atom U d) (pstart U k (text_of (ReqOr l r) 2 @ t))) (\<lambda>(m, p). chainLoop U (str ''or'') ReqOr (conjunction U (atom U d)) m p) =
       chainLoop U (str ''or'') ReqOr (conjunction U (atom U d)) (canon (ReqOr l r)) (pstart U (k + atoms_of (ReqOr l r) 2) t) \<and>
     (\<forall>a. chainLoop U (str ''or'') ReqOr (conjunction U (atom U d)) a (pstart U k (str '' or '' @ text_of (ReqOr l r) 2 @ t)) =
       chainLoop U (str ''or'') ReqOr (conjunction U (atom U d)) (graftOr a (canon (ReqOr l r))) (pstart U (k + atoms_of (ReqOr l r) 2) t))"
    using L R by (simp add: parens_def add.assoc graftOr_assoc)
qed

text \<open>An expression up to a token that is neither operator.\<close>

lemma expression_printed:
  assumes r: "reads_or U n" and t: "ends_and U t" and f: "fits n 2 d k" and e: "\<And>m. ps_text (pstart U m t) \<noteq> str ''or''" "e < 128"
  shows "expression U (atom U d) e (pstart U k (text_of n 2 @ t)) = Inr (canon n, pstart U (k + atoms_of n 2) t)"
  using r [unfolded reads_or_def, rule_format, OF t f, THEN conjunct1] e by (simp add: expression_def chainLoop_stop)

lemma reads_paren:
  assumes r: "reads_or U n" and n: "text_of n 0 = 40 # text_of n 2 @ [41]" "atoms_of n 0 = Suc (atoms_of n 2)" "nesting n 0 = 2 + nesting n 2"
  shows "reads_atom U n"
  unfolding reads_atom_def
proof (intro allI impI)
  fix d k t assume t: "follow U t" and f: "fits n 0 d k"
  from f n have f2: "fits n 2 (d + 2) (Suc k)" by (simp add: fits_def)
  with nesting_pos [of n 2] have b: "k < 4096" "d + 2 < 128" using f n(2,3) by (simp_all add: fits_def)
  have pt: "plain t" by (rule follow_plain [OF t])
  have words: "[41] \<noteq> str ''and''" "[41] \<noteq> str ''or''" by (simp_all add: str_def)
  have e: "ends_and U (41 # t)" using follow_operators(3) [OF pt] pt words by (simp add: ends_and_def printed_words pstart_char)
  have "plain (text_of n 2)" using f plain_text_of by (simp add: fits_def)
  then have p: "pstart U k (text_of n 0 @ t) = shows_token (TChar 40) [40] (text_of n 2 @ 41 # t) k" using n pt by (simp add: pstart_char)
  have "expression U (atom U (d + 2)) (d + 1) (pstart U (Suc k) (text_of n 2 @ 41 # t)) = Inr (canon n, pstart U (Suc k + atoms_of n 2) (41 # t))"
    by (rule expression_printed [OF r e f2]) (use pt words b in \<open>simp_all add: pstart_char\<close>)
  then show "atom U d (pstart U k (text_of n 0 @ t)) = Inr (canon n, pstart U (k + atoms_of n 0) t)"
    unfolding p using b pt n by (simp add: atom_words pstart_char)
qed

lemma leaf_reads: "leaf n \<Longrightarrow> reads_atom U n \<and> reads_and U n \<and> reads_or U n"
proof -
  assume l: "leaf n"
  then have n: "\<forall>l r. n \<noteq> ReqAnd l r" "\<forall>l r. n \<noteq> ReqOr l r" by auto
  have a: "reads_atom U n"
    unfolding reads_atom_def using atom_leaf [OF l] leaf_parts [OF l] by (auto simp: fits_def)
  show ?thesis using a reads_and_atom [OF a n(1)] reads_or_and [OF _ n(2)] by simp
qed

lemma printed_reads: "reads_atom U n \<and> reads_and U n \<and> reads_or U n"
proof (induction n)
  case (ReqAnd l r)
  then have "reads_and U (ReqAnd l r)" by (simp add: reads_and_And)
  then show ?case using reads_or_and reads_paren [of U "ReqAnd l r"] by (simp add: parens_def printed_words)
next
  case (ReqOr l r)
  then have o: "reads_or U (ReqOr l r)" by (simp add: reads_or_Or)
  then have "reads_atom U (ReqOr l r)" by (rule reads_paren) (simp_all add: parens_def printed_words)
  with o show ?case by (simp add: reads_and_atom)
next
  case (ReqNot l)
  have "reads_atom U (ReqNot l)"
    unfolding reads_atom_def
  proof (intro allI impI)
    fix d k t assume t: "follow U t" and f: "fits (ReqNot l) 0 d k"
    then have f': "fits l 0 (d + 1) (Suc k)" and b: "k < 4096" "d < 128" by (simp_all add: fits_def)
    have pl: "plain (text_of l 0 @ t)" using f' plain_text_of follow_plain [OF t] by (simp add: fits_def)
    then have "pstart U k (text_of (ReqNot l) 0 @ t) = shows_token (TChar 33) [33] (32 # text_of l 0 @ t) k"
      by (simp add: printed_words pstart_char)
    with ReqNot t f' b pl show "atom U d (pstart U k (text_of (ReqNot l) 0 @ t)) = Inr (canon (ReqNot l), pstart U (k + atoms_of (ReqNot l) 0) t)"
      by (simp add: atom_words reads_atom_def)
  qed
  then show ?case by (simp add: reads_and_atom reads_or_and)
qed (simp_all add: leaf_reads)

section \<open>Whole texts\<close>

lemma pstart_nodes: "(pstart U m t)\<lparr>ps_nodes := n\<rparr> = pstart U n t"
  by (simp add: pstart_def nextP_def split: prod.split)

lemma newRequirementParser_plain: "plain t \<Longrightarrow> length t \<le> 2 ^ 20 \<Longrightarrow> newRequirementParser U t = Inr (pstart U 0 t)"
  by (simp add: newRequirementParser_def startScanner_plain pstart_def)

text \<open>One expression of a source, up to a token that ends it.\<close>

lemma element_printed:
  assumes f: "fits n 2 1 0" and t: "ends_and U t" and e: "\<And>k. ps_text (pstart U k t) \<notin> {str ''or'', str '';''}"
    "\<And>k. \<not> sc_err (ps_scan (pstart U k t))"
  shows "element U (pstart U m (text_of n 2 @ t)) = Inr (canon n, pstart U (atoms_of n 2) t)"
proof -
  have "expression U (atom U 1) 0 (pstart U 0 (text_of n 2 @ t)) = Inr (canon n, pstart U (0 + atoms_of n 2) t)"
    by (rule expression_printed [OF _ t f]) (use printed_reads [of U n] e(1) in auto)
  moreover have "semicolons U (pstart U k t) = pstart U k t" for k using e(1) [of k] by (subst semicolons.simps) simp
  ultimately show ?thesis using e(2) by (simp add: element_def pstart_nodes)
qed

lemma text_level: "text_of n 3 = text_of n 2" "atoms_of n 3 = atoms_of n 2"
  by (cases n; simp add: parens_def)+

lemma parse_printed:
  assumes f: "fits n 2 1 0" and l: "length (text_of n 3) \<le> 2 ^ 20"
  shows "parseRequirement U (text_of n 3) = Inr (canon n)"
proof -
  have pl: "plain (text_of n 3)" using f plain_text_of by (simp add: fits_def)
  have e: "ends_and U []" using follow_Nil by (simp add: ends_and_def str_def)
  have "element U (pstart U 0 (text_of n 2 @ [])) = Inr (canon n, pstart U (atoms_of n 2) [])"
    by (rule element_printed [OF f e]) (simp_all add: str_def)
  then show ?thesis using newRequirementParser_plain [OF pl l] by (simp add: parseRequirement_def text_level)
qed

text \<open>Grouping changes neither the meaning nor the size.\<close>

lemma matches_graftAnd: "matches H (graftAnd a n) d \<longleftrightarrow> matches H a d \<and> matches H n d"
  by (induction a n rule: graftAnd.induct) auto

lemma matches_graftOr: "matches H (graftOr a n) d \<longleftrightarrow> matches H a d \<or> matches H n d"
  by (induction a n rule: graftOr.induct) auto

lemma matches_canon: "matches H (canon n) d = matches H n d"
  by (induction n) (simp_all add: matches_graftAnd matches_graftOr)

end
