(* ===== verification/Entitlement_DER.thy ===== *)
theory Entitlement_DER
  imports Requirement_Text "HOL-Library.List_Lexorder"
begin

text \<open>
  The DER form of entitlements: the writer of entitlements.go and the bounded reader of
  entitlement_metadata.go, with the part of encoding/asn1 they use.
\<close>

section \<open>Values\<close>

text \<open>
  What the property list decoder returns: a map is a list of its entries in any order. A real
  is its shortest decimal text; other types of the decoder are \<open>POther\<close>.
\<close>

datatype plist =
    PBool bool
  | PString gostring
  | PInt int
  | PUint nat
  | PReal gostring
  | PData "byte list"
  | POther
  | PArray "plist list"
  | PDict "(gostring \<times> plist) list"

text \<open>asn1.Marshal of an int64: the shortest two's complement.\<close>

function int64Bytes :: "int \<Rightarrow> byte list" where
  "int64Bytes i = (if -128 \<le> i \<and> i \<le> 127 then [of_int i] else int64Bytes (i div 256) @ [of_int i])"
  by pat_completeness auto
termination
  by (relation "measure (\<lambda>i. nat (if 0 \<le> i then i else - i - 1))") auto

declare int64Bytes.simps [simp del]

definition sortedKeys :: "(gostring \<times> 'a) list \<Rightarrow> (gostring \<times> 'a) list" where
  "sortedKeys es = sort_key fst es"

lemma size_sortedKeys: "size_list f (sortedKeys es) = size_list f es"
proof -
  have m: "mset (sortedKeys es) = mset es" by (simp add: sortedKeys_def)
  have "sum_list (map f (sortedKeys es)) = sum_list (map f es)"
    unfolding sum_mset_sum_list [symmetric] mset_map m ..
  then show ?thesis using mset_eq_length [OF m] by (simp add: size_list_conv_sum_list)
qed

lemma size_entries: "size_list (\<lambda>e. size (snd e)) es \<le> size_list (size_prod (\<lambda>x. 0) size) es"
  by (induction es) (auto simp: size_prod_simp)

text \<open>The pairs of a dictionary: sorted by key, each a sequence of key and value.\<close>

function entitlementDER :: "plist \<Rightarrow> nat \<Rightarrow> byte list result"
  and arrayDER :: "plist list \<Rightarrow> nat \<Rightarrow> byte list result"
  and dictDER :: "(gostring \<times> plist) list \<Rightarrow> nat \<Rightarrow> byte list result" where
  "entitlementDER v depth =
    (if depth > 128 then Inl (Malformed ''entitlement nesting limit'') else
     case v of
       PBool b \<Rightarrow> Inr [1, 1, if b then 255 else 0]
     | PString s \<Rightarrow> Inr (derWrap 12 s)
     | PInt i \<Rightarrow> Inr (derWrap 2 (int64Bytes i))
     | PUint n \<Rightarrow> if n > 2 ^ 63 - 1 then Inl (Plain ''entitlement integer exceeds signed 64-bit range'')
         else Inr (derWrap 2 (int64Bytes (int n)))
     | PArray vs \<Rightarrow> rbind (arrayDER vs depth) (\<lambda>data. Inr (derWrap 0x30 data))
     | PDict es \<Rightarrow> rbind (dictDER (sortedKeys es) depth) (\<lambda>data. Inr (derWrap 0xb0 data))
     | _ \<Rightarrow> Inl (Unsupported ''entitlement value type''))"
| "arrayDER [] depth = Inr []"
| "arrayDER (v # vs) depth = rbind (entitlementDER v (depth + 1)) (\<lambda>b. rbind (arrayDER vs depth) (\<lambda>data. Inr (b @ data)))"
| "dictDER [] depth = Inr []"
| "dictDER ((k, v) # es) depth =
    rbind (entitlementDER v (depth + 1)) (\<lambda>val. rbind (dictDER es depth) (\<lambda>data.
    Inr (derWrap 0x30 (derWrap 12 k @ val) @ data)))"
  by pat_completeness auto
termination
proof (relation "measure (\<lambda>x. case x of Inl (v, _) \<Rightarrow> 2 * size v | Inr (Inl (vs, _)) \<Rightarrow> 2 * size_list size vs + 1
      | Inr (Inr (es, _)) \<Rightarrow> 2 * size_list (\<lambda>e. size (snd e)) es + 1)", goal_cases)
qed (auto simp: size_sortedKeys less_Suc_eq_le size_entries)

declare entitlementDER.simps [simp del]

section \<open>Elements\<close>

text \<open>asn1.Unmarshal into a RawValue: the first identifier byte, the whole element, its contents.\<close>

record raw_value =
  rv_tag :: byte
  rv_full :: "byte list"
  rv_bytes :: "byte list"

fun longLength :: "nat \<Rightarrow> nat \<Rightarrow> byte list \<Rightarrow> (nat \<times> byte list) option" where
  "longLength 0 acc bs = Some (acc, bs)"
| "longLength (Suc k) acc [] = None"
| "longLength (Suc k) acc (b # bs) =
    (if acc \<ge> 2 ^ 23 then None else let v = acc * 256 + unat b in if v = 0 then None else longLength k v bs)"

definition elementLength :: "byte list \<Rightarrow> (nat \<times> byte list) option" where
  "elementLength bs =
    (case bs of [] \<Rightarrow> None | l # r \<Rightarrow>
     if unat l < 128 then Some (unat l, r) else if unat l = 128 then None
     else case longLength (unat l - 128) 0 r of None \<Rightarrow> None | Some (n, r') \<Rightarrow> if n < 128 then None else Some (n, r'))"

text \<open>The rest after the identifier; tag numbers from 31 on take more bytes.\<close>

definition elementTag :: "byte list \<Rightarrow> byte list option" where
  "elementTag bs =
    (case bs of [] \<Rightarrow> None | b # r \<Rightarrow>
     if unat b mod 32 \<noteq> 31 then Some r
     else case base128 0 0 r of None \<Rightarrow> None | Some (v, r') \<Rightarrow> if v < 31 then None else Some r')"

definition entitlementTLV :: "byte list \<Rightarrow> (raw_value \<times> byte list) result" where
  "entitlementTLV data =
    (case elementTag data of None \<Rightarrow> Inl (Malformed ''entitlement DER'') | Some r \<Rightarrow>
     case elementLength r of None \<Rightarrow> Inl (Malformed ''entitlement DER'') | Some (n, r') \<Rightarrow>
     if n > length r' then Inl (Malformed ''entitlement DER'') else
     Inr (\<lparr>rv_tag = hd data, rv_full = take (length data - length r' + n) data, rv_bytes = take n r'\<rparr>, drop n r'))"

lemma longLength_shorter: "longLength k acc bs = Some (n, r) \<Longrightarrow> length r + k = length bs"
  by (induction k acc bs rule: longLength.induct) (auto simp: Let_def split: if_splits)

lemma elementLength_shorter: "elementLength bs = Some (n, r) \<Longrightarrow> length r < length bs"
  by (auto simp: elementLength_def split: list.splits if_splits option.splits dest: longLength_shorter)

lemma elementTag_shorter: "elementTag bs = Some r \<Longrightarrow> bs \<noteq> [] \<and> length r < length bs"
  by (auto simp: elementTag_def split: list.splits if_splits option.splits dest!: base128_shorter simp del: base128.simps)

lemma entitlementTLV_shorter:
  assumes "entitlementTLV data = Inr (v, rest)"
  shows "length (rv_bytes v) + length rest < length data" "data \<noteq> []"
  using assms elementTag_shorter elementLength_shorter
  by (fastforce simp: entitlementTLV_def split: option.splits if_splits prod.splits)+

section \<open>The reader\<close>

datatype ent = Ent (e_tag: byte) (e_text: gostring) (e_children: "ent list")

definition maxBundlePlist :: nat where "maxBundlePlist = 8 * 2 ^ 20"
definition maxBundlePlistDepth :: nat where "maxBundlePlistDepth = 32"
definition maxBundlePlistValues :: nat where "maxBundlePlistValues = 100000"

text \<open>decodeDER into a bool or an int64, on the contents of an element.\<close>

definition derBool :: "byte list \<Rightarrow> bool result" where
  "derBool bs = (if bs = [0] then Inr False else if bs = [255] then Inr True else Inl (Malformed ''DER''))"

text \<open>The value of two's complement bytes.\<close>

definition signedValue :: "byte list \<Rightarrow> int" where
  "signedValue bs = (let v = int (be_nat bs) in if v < 2 ^ (8 * length bs - 1) then v else v - 2 ^ (8 * length bs))"

definition derInt64 :: "byte list \<Rightarrow> int result" where
  "derInt64 bs =
    (if bs = [] then Inl (Malformed ''DER'')
     else if length bs > 1 \<and> (bs ! 0 = 0 \<and> unat (bs ! 1) < 128 \<or> bs ! 0 = 255 \<and> unat (bs ! 1) \<ge> 128) then Inl (Malformed ''DER'')
     else if length bs > 8 then Inl (Malformed ''DER'')
     else Inr (signedValue bs))"

text \<open>utf8.Valid.\<close>

definition utf8Valid :: "byte list \<Rightarrow> bool" where
  "utf8Valid bs \<longleftrightarrow> (\<forall>(c, b) \<in> set (runes bs). \<not> (c = 0xFFFD \<and> length b = 1))"

type_synonym ent_reader = "byte list \<Rightarrow> nat \<Rightarrow> (ent \<times> byte list \<times> nat) result"

text \<open>
  The loops over the children; \<open>f\<close> reads one level deeper. A value takes at least a byte, so
  the last test of the array loop never fails.
\<close>

function arrayLoop :: "ent_reader \<Rightarrow> byte list \<Rightarrow> nat \<Rightarrow> ent list \<Rightarrow> (ent list \<times> nat) result" where
  "arrayLoop f children cnt acc =
    (if children = [] then Inr (acc, cnt) else
     rbind (f children cnt) (\<lambda>(child, remaining, cnt).
     if length remaining < length children then arrayLoop f remaining cnt (acc @ [child]) else Inl OutOfFuel))"
  by pat_completeness auto
termination
  by (relation "measure (\<lambda>(_, children, _, _). length children)") auto

function dictLoop :: "ent_reader \<Rightarrow> byte list \<Rightarrow> nat \<Rightarrow> gostring \<Rightarrow> ent list \<Rightarrow> (ent list \<times> nat) result" where
  "dictLoop f children cnt lastKey acc =
    (if children = [] then Inr (acc, cnt) else
     rbind (entitlementTLV children) (\<lambda>(pair, nxt).
     if rv_tag pair \<noteq> 0x30 then Inl (Malformed ''entitlement dictionary entry'') else
     rbind (f (rv_bytes pair) cnt) (\<lambda>(key, remaining, cnt).
     if e_tag key \<noteq> 12 \<or> acc \<noteq> [] \<and> e_text key \<le> lastKey then Inl (Malformed ''entitlement dictionary keys'') else
     rbind (f remaining cnt) (\<lambda>(child, rest, cnt).
     if rest \<noteq> [] then Inl (Malformed ''entitlement dictionary trailing value'') else
     dictLoop f nxt cnt (e_text key) (acc @ [key, child])))))"
  by pat_completeness auto
termination
  by (relation "measure (\<lambda>(_, children, _, _, _). length children)") (auto dest: entitlementTLV_shorter)

declare arrayLoop.simps [simp del] dictLoop.simps [simp del]

lemma arrayLoop_cong [fundef_cong]: "(\<And>d c. f d c = g d c) \<Longrightarrow> arrayLoop f children cnt acc = arrayLoop g children cnt acc"
  by (rule arg_cong [of f g "\<lambda>f. arrayLoop f children cnt acc"]) (intro ext)

lemma dictLoop_cong [fundef_cong]: "(\<And>d c. f d c = g d c) \<Longrightarrow> dictLoop f children cnt k acc = dictLoop g children cnt k acc"
  by (rule arg_cong [of f g "\<lambda>f. dictLoop f children cnt k acc"]) (intro ext)

text \<open>\<open>cnt\<close> is the shared counter; the depth limit ends the recursion.\<close>

function readEntitlementValue :: "byte list \<Rightarrow> nat \<Rightarrow> nat \<Rightarrow> (ent \<times> byte list \<times> nat) result" where
  "readEntitlementValue data depth cnt =
    (if depth > maxBundlePlistDepth \<or> cnt + 1 > maxBundlePlistValues then Inl (Malformed ''entitlement DER complexity limit'') else
     rbind (entitlementTLV data) (\<lambda>(v, rest).
     let tag = rv_tag v; read = (\<lambda>d c. readEntitlementValue d (depth + 1) c) in
     if tag = 1 then rbind (derBool (rv_bytes v)) (\<lambda>b. Inr (Ent tag (str (if b then ''true'' else ''false'')) [], rest, cnt + 1))
     else if tag = 2 then rbind (derInt64 (rv_bytes v)) (\<lambda>i. Inr (Ent tag (formatInt i) [], rest, cnt + 1))
     else if tag = 12 then
       (if \<not> utf8Valid (rv_bytes v) \<or> 0 \<in> set (rv_bytes v) then Inl (Malformed ''entitlement UTF-8 string'')
        else Inr (Ent tag (rv_bytes v) [], rest, cnt + 1))
     else if tag = 0x30 then rbind (arrayLoop read (rv_bytes v) (cnt + 1) []) (\<lambda>(cs, cnt). Inr (Ent tag [] cs, rest, cnt))
     else if tag = 0xb0 then rbind (dictLoop read (rv_bytes v) (cnt + 1) [] []) (\<lambda>(cs, cnt). Inr (Ent tag [] cs, rest, cnt))
     else Inl (Unsupported ''entitlement DER tag'')))"
  by pat_completeness auto
termination
  by (relation "measure (\<lambda>(_, depth, _). 33 - depth)") (auto simp: maxBundlePlistDepth_def)

declare readEntitlementValue.simps [simp del]

end
