(* ===== verification/Entitlement_Tree.thy ===== *)
theory Entitlement_Tree
  imports Entitlement_DER
begin

text \<open>
  What the reader of entitlement_metadata.go makes of the writer's DER: the tree of the value,
  with dictionaries sorted by key; and what it accepts of any input.
\<close>

section \<open>Reading what was written\<close>

lemma longLength_minBytes:
  "0 < n \<Longrightarrow> n < 2 ^ 31 \<Longrightarrow> longLength (length (minBytes n) + k) 0 (minBytes n @ bs) = longLength k n bs"
proof (induction n arbitrary: k bs rule: minBytes.induct)
  case (1 n)
  show ?case
  proof (cases "n < 256")
    case True
    then show ?thesis using 1(2) by (simp add: minBytes_pos unat_of_nat_small)
  next
    case False
    have "unat (of_nat n :: byte) = n mod 256" by (simp add: unat_of_nat_byte)
    moreover have "n div 256 < 2 ^ 23" using 1(3) by simp
    moreover have "n div 256 * 256 + n mod 256 = n" by simp
    ultimately have "longLength (Suc k) (n div 256) (of_nat n # bs) = longLength k n bs"
      using 1(2) by (simp add: Let_def)
    moreover have "longLength (length (minBytes (n div 256)) + Suc k) 0 (minBytes (n div 256) @ of_nat n # bs) =
        longLength (Suc k) (n div 256) (of_nat n # bs)"
      by (rule 1(1)) (use 1 False in simp_all)
    ultimately show ?thesis using 1(2) by (simp add: minBytes_pos [of n])
  qed
qed

lemma entitlementTLV_derWrap:
  assumes t: "unat tag mod 32 \<noteq> 31" and c: "length c < 2 ^ 31"
  shows "entitlementTLV (derWrap tag c @ rest) = Inr (\<lparr>rv_tag = tag, rv_full = derWrap tag c, rv_bytes = c\<rparr>, rest)"
proof (cases "length c < 128")
  case True
  have l: "elementLength (of_nat (length c) # c @ rest) = Some (length c, c @ rest)"
    using True by (simp add: elementLength_def unat_of_nat_small)
  show ?thesis using True t l by (simp add: entitlementTLV_def derWrap_def derHeader_def elementTag_def)
next
  case False
  let ?m = "minBytes (length c)"
  have "0 < length c" using False by linarith
  then have m: "length ?m \<le> 4" "0 < length ?m"
    using length_minBytes [of "length c" 4] minBytes_nonempty [of "length c"] c by simp_all
  have "longLength (length ?m) 0 (?m @ c @ rest) = Some (length c, c @ rest)"
    using longLength_minBytes [OF \<open>0 < length c\<close> c, of 0] by simp
  then have l: "elementLength (of_nat (128 + length ?m) # ?m @ c @ rest) = Some (length c, c @ rest)"
    using m False by (simp add: elementLength_def unat_of_nat_small del: of_nat_add)
  show ?thesis using False t l
    by (simp add: entitlementTLV_def derWrap_def derHeader_long elementTag_def del: of_nat_add)
qed

lemma int64Bytes_nonempty [simp]: "int64Bytes i \<noteq> []" by (simp add: int64Bytes.simps [of i])

lemma signedValue_snoc: "xs \<noteq> [] \<Longrightarrow> signedValue (xs @ [b]) = signedValue xs * 256 + int (unat b)"
proof -
  assume x: "xs \<noteq> []"
  then obtain k where k: "length xs = Suc k" by (cases xs) auto
  have key: "(V * 256 + B < P * 256) = (V < P)" if "0 \<le> B" "B < 256" for V B P :: int using that by linarith
  have e: "(2 :: int) ^ (8 * length (xs @ [b]) - 1) = 2 ^ (8 * length xs - 1) * 256" "(2 :: int) ^ (8 * length (xs @ [b])) = 2 ^ (8 * length xs) * 256"
    by (simp_all add: k power_add)
  have v: "int (be_nat (xs @ [b])) = int (be_nat xs) * 256 + int (unat b)" by (simp add: be_nat_snoc)
  have B: "0 \<le> int (unat b)" "int (unat b) < 256" using unat_byte_less [of b] by linarith+
  show ?thesis unfolding signedValue_def Let_def v e key [OF B] by simp
qed

lemma int64Bytes_step: "\<not> (-128 \<le> i \<and> i \<le> 127) \<Longrightarrow> int64Bytes i = int64Bytes (i div 256) @ [of_int i]"
  by (subst int64Bytes.simps) (simp only: if_False)

lemma int_be_nat: "int (be_nat xs) < 256 ^ length xs"
proof -
  have "int (be_nat xs) < int (256 ^ length xs)" by (simp only: of_nat_less_iff be_nat_less)
  then show ?thesis by simp
qed

lemma signedValue_int64Bytes: "signedValue (int64Bytes i) = i"
proof (induction i rule: int64Bytes.induct)
  case (1 i)
  have u: "int (unat (of_int i :: byte)) = i mod 256" by (simp add: unsigned_of_int take_bit_eq_mod)
  show ?case
  proof (cases "-128 \<le> i \<and> i \<le> 127")
    case True
    have "be_nat [of_int i :: byte] = unat (of_int i :: byte)" by (simp add: be_nat_def)
    then have "signedValue [of_int i] = (if i mod 256 < 128 then i mod 256 else i mod 256 - 256)"
      by (simp add: signedValue_def Let_def u [simplified])
    moreover have "(if i mod 256 < 128 then i mod 256 else i mod 256 - 256) = i" using True by presburger
    ultimately show ?thesis using True by (simp add: int64Bytes.simps [of i])
  next
    case False
    note int64Bytes_step [OF False]
    with 1 False u show ?thesis by (simp add: signedValue_snoc)
  qed
qed

text \<open>The writer's integers are minimal, as the decoder demands.\<close>

lemma signedValue_range:
  assumes "xs \<noteq> []" shows "- (2 ^ (8 * length xs - 1)) \<le> signedValue xs" "signedValue xs < 2 ^ (8 * length xs - 1)"
proof -
  obtain k where k: "length xs = Suc k" using assms by (cases xs) auto
  have b: "int (be_nat xs) < 2 ^ (8 * length xs)"
    using int_be_nat [of xs] by (simp add: power_mult)
  have e: "(2 :: int) ^ (8 * length xs) = 2 * 2 ^ (8 * length xs - 1)" by (simp add: k flip: power_Suc)
  show "- (2 ^ (8 * length xs - 1)) \<le> signedValue xs" "signedValue xs < 2 ^ (8 * length xs - 1)"
    using b unfolding signedValue_def Let_def e by (auto simp: not_less)
qed

lemma int64Bytes_minimal:
  "length (int64Bytes i) = Suc (Suc k) \<Longrightarrow> i < - (2 ^ (8 * k + 7)) \<or> 2 ^ (8 * k + 7) \<le> i"
proof (induction i arbitrary: k rule: int64Bytes.induct)
  case (1 i)
  have out: "\<not> (-128 \<le> i \<and> i \<le> 127)" using 1(2) by (auto simp: int64Bytes.simps [of i])
  from int64Bytes_step [OF this] have l: "length (int64Bytes (i div 256)) = Suc k" using 1(2) by simp
  show ?case
  proof (cases k)
    case 0
    with out show ?thesis by auto
  next
    case (Suc j)
    with 1(1) [OF out, of j] l have r: "i div 256 < - (2 ^ (8 * j + 7)) \<or> 2 ^ (8 * j + 7) \<le> i div 256" by simp
    have e: "(2 :: int) ^ (8 * k + 7) = 2 ^ (8 * j + 7) * 256" by (simp add: Suc power_add)
    have "i = i div 256 * 256 + i mod 256" "0 \<le> i mod 256" "i mod 256 < 256" by simp_all
    with r show ?thesis unfolding e by linarith
  qed
qed

lemma int64Bytes_length:
  assumes "- (2 ^ 63) \<le> i" "i < 2 ^ 63"
  shows "length (int64Bytes i) \<le> 8"
proof (rule ccontr)
  assume "\<not> length (int64Bytes i) \<le> 8"
  then obtain k where k: "length (int64Bytes i) = Suc (Suc k)" "7 \<le> k"
    by (intro that [of "length (int64Bytes i) - 2"]) simp_all
  have "(2 :: int) ^ 63 \<le> 2 ^ (8 * k + 7)" using k(2) by (intro power_increasing) simp_all
  with int64Bytes_minimal [OF k(1)] assms show False by linarith
qed

lemma signedValue_padded:
  assumes "xs = b0 # b1 # r" "b0 = 0 \<and> unat b1 < 128 \<or> b0 = 255 \<and> unat b1 \<ge> 128"
  shows "signedValue xs = signedValue (b1 # r)"
proof -
  let ?n = "length r"
  have b1: "unat b1 < 256" by (rule unat_byte_less)
  have r: "int (be_nat r) < 256 ^ ?n" by (rule int_be_nat)
  have p: "(2 :: int) ^ (8 * length (b1 # r) - 1) = 128 * 256 ^ ?n" "(2 :: int) ^ (8 * length (b1 # r)) = 256 * 256 ^ ?n"
    "(2 :: int) ^ (8 * length xs - 1) = 128 * 256 * 256 ^ ?n" "(2 :: int) ^ (8 * length xs) = 256 * 256 * 256 ^ ?n"
    by (simp_all add: assms(1) power_add power_mult)
  have v: "int (be_nat (b1 # r)) = int (unat b1) * 256 ^ ?n + int (be_nat r)"
    "int (be_nat xs) = int (unat b0) * 256 * 256 ^ ?n + int (unat b1) * 256 ^ ?n + int (be_nat r)"
    by (simp_all add: assms(1) be_nat_Cons)
  define M :: int where "M = 256 ^ ?n"
  define R :: int where "R = int (be_nat r)"
  define B :: int where "B = int (unat b1)"
  have M: "0 \<le> R" "R < M" "0 < M" using r by (simp_all add: M_def R_def)
  from assms(2) show ?thesis
  proof (elim disjE conjE)
    assume b0: "b0 = 0" "unat b1 < 128"
    then have "B \<le> 127" "0 \<le> B" unfolding B_def by linarith+
    then have "B * M \<le> 127 * M" "0 \<le> B * M" using M by (simp_all add: mult_right_mono)
    then have "B * M + R < 128 * M" "B * M + R < 128 * 256 * M" using M by linarith+
    then show ?thesis unfolding signedValue_def Let_def p v M_def [symmetric] R_def [symmetric] B_def [symmetric] using b0 M by simp
  next
    assume b0: "b0 = 255" "128 \<le> unat b1"
    then have "128 \<le> B" "B \<le> 255" unfolding B_def using b1 by linarith+
    then have "128 * M \<le> B * M" "B * M \<le> 255 * M" using M by (simp_all add: mult_right_mono)
    then have "\<not> B * M + R < 128 * M" "\<not> 255 * 256 * M + B * M + R < 128 * 256 * M" using M by linarith+
    then show ?thesis unfolding signedValue_def Let_def p v M_def [symmetric] R_def [symmetric] B_def [symmetric] using b0 M by simp
  qed
qed

lemma derInt64_int64Bytes:
  assumes "- (2 ^ 63) \<le> i" "i < 2 ^ 63"
  shows "derInt64 (int64Bytes i) = Inr i"
proof -
  let ?b = "int64Bytes i"
  have "\<not> (length ?b > 1 \<and> (?b ! 0 = 0 \<and> unat (?b ! 1) < 128 \<or> ?b ! 0 = 255 \<and> unat (?b ! 1) \<ge> 128))"
  proof
    assume a: "length ?b > 1 \<and> (?b ! 0 = 0 \<and> unat (?b ! 1) < 128 \<or> ?b ! 0 = 255 \<and> unat (?b ! 1) \<ge> 128)"
    then obtain b0 b1 r where b: "?b = b0 # b1 # r" by (cases ?b; cases "tl ?b") auto
    have "signedValue (b1 # r) = i" using signedValue_padded [OF b] a b signedValue_int64Bytes [of i] by auto
    moreover have "8 * length (b1 # r) - 1 = 8 * length r + 7" by simp
    ultimately have "- (2 ^ (8 * length r + 7)) \<le> i" "i < 2 ^ (8 * length r + 7)"
      using signedValue_range [of "b1 # r"] by (metis list.distinct(1))+
    with int64Bytes_minimal [of i "length r"] b show False by simp
  qed
  then show ?thesis using int64Bytes_length [OF assms] signedValue_int64Bytes [of i] by (simp add: derInt64_def)
qed

section \<open>The tree of a value\<close>

lemma set_sortedKeys [simp]: "set (sortedKeys es) = set es" by (simp add: sortedKeys_def)

lemma size_entry: "(k, v) \<in> set es \<Longrightarrow> size v < size_list (size_prod (\<lambda>x. 0) size) es"
  by (erule size_list_estimation) (simp add: size_prod_simp)

lemma size_element: "v \<in> set vs \<Longrightarrow> size v \<le> size_list size vs"
  by (induction vs) auto

function treeOf :: "plist \<Rightarrow> ent" where
  "treeOf (PBool b) = Ent 1 (str (if b then ''true'' else ''false'')) []"
| "treeOf (PString s) = Ent 12 s []"
| "treeOf (PInt i) = Ent 2 (formatInt i) []"
| "treeOf (PUint n) = Ent 2 (formatInt (int n)) []"
| "treeOf (PReal t) = Ent 0 [] []"
| "treeOf (PData d) = Ent 0 [] []"
| "treeOf POther = Ent 0 [] []"
| "treeOf (PArray vs) = Ent 0x30 [] (map treeOf vs)"
| "treeOf (PDict es) = Ent 0xb0 [] (concat (map (\<lambda>(k, v). [Ent 12 k [], treeOf v]) (sortedKeys es)))"
  by pat_completeness auto
termination
  by (relation "measure size") (auto simp: less_Suc_eq_le size_element dest: size_entry)

definition text_ok :: "byte list \<Rightarrow> bool" where
  "text_ok s \<longleftrightarrow> utf8Valid s \<and> 0 \<notin> set s"

text \<open>The values with a DER form that reads back.\<close>

fun entitlement_ok :: "plist \<Rightarrow> bool" where
  "entitlement_ok (PBool b) = True"
| "entitlement_ok (PString s) = text_ok s"
| "entitlement_ok (PInt i) = (- (2 ^ 63) \<le> i \<and> i < 2 ^ 63)"
| "entitlement_ok (PUint n) = True"
| "entitlement_ok (PArray vs) = (\<forall>v \<in> set vs. entitlement_ok v)"
| "entitlement_ok (PDict es) = (distinct (map fst es) \<and> (\<forall>(k, v) \<in> set es. text_ok k \<and> entitlement_ok v))"
| "entitlement_ok _ = False"

primrec nodes :: "ent \<Rightarrow> nat" where
  "nodes (Ent t x cs) = Suc (sum_list (map nodes cs))"

primrec ent_height :: "ent \<Rightarrow> nat" where
  "ent_height (Ent t x cs) = foldr max (map (\<lambda>c. Suc (ent_height c)) cs) 0"

lemma ent_height_child: "c \<in> set cs \<Longrightarrow> Suc (ent_height c) \<le> foldr max (map (\<lambda>c. Suc (ent_height c)) cs) 0"
  by (induction cs) auto

lemma read_leaf:
  assumes "depth \<le> 32" "cnt < 100000" "length c < 2 ^ 31"
  shows "derBool c = Inr b \<Longrightarrow> readEntitlementValue (derWrap 1 c @ rest) depth cnt = Inr (Ent 1 (str (if b then ''true'' else ''false'')) [], rest, Suc cnt)"
    and "derInt64 c = Inr i \<Longrightarrow> readEntitlementValue (derWrap 2 c @ rest) depth cnt = Inr (Ent 2 (formatInt i) [], rest, Suc cnt)"
    and "text_ok c \<Longrightarrow> readEntitlementValue (derWrap 12 c @ rest) depth cnt = Inr (Ent 12 c [], rest, Suc cnt)"
  using assms by (subst readEntitlementValue.simps;
      simp add: maxBundlePlistDepth_def maxBundlePlistValues_def entitlementTLV_derWrap Let_def text_ok_def)+

lemma read_node:
  assumes "depth \<le> 32" "cnt < 100000" "length c < 2 ^ 31"
  shows "arrayLoop (\<lambda>d c. readEntitlementValue d (depth + 1) c) c (cnt + 1) [] = Inr (cs, n) \<Longrightarrow>
      readEntitlementValue (derWrap 0x30 c @ rest) depth cnt = Inr (Ent 0x30 [] cs, rest, n)"
    and "dictLoop (\<lambda>d c. readEntitlementValue d (depth + 1) c) c (cnt + 1) [] [] = Inr (cs, n) \<Longrightarrow>
      readEntitlementValue (derWrap 0xb0 c @ rest) depth cnt = Inr (Ent 0xb0 [] cs, rest, n)"
  using assms by (subst readEntitlementValue.simps;
      simp add: maxBundlePlistDepth_def maxBundlePlistValues_def entitlementTLV_derWrap Let_def)+

lemma readEntitlementValue_shorter:
  assumes "readEntitlementValue data depth cnt = Inr (e, rest, cnt')"
  shows "length rest < length data"
proof -
  from assms have "\<exists>v. entitlementTLV data = Inr (v, rest)"
    by (subst (asm) readEntitlementValue.simps) (auto simp: result_simps Let_def split: if_splits)
  then show ?thesis using entitlementTLV_shorter(1) by fastforce
qed

lemma derWrap_length: "length c < length (derWrap t c)"
  by (simp add: derWrap_def derHeader_def Let_def)

lemma derBool_flag: "derBool [if b then 255 else 0] = Inr b" by (simp add: derBool_def)

abbreviation childReader :: "nat \<Rightarrow> ent_reader" where
  "childReader depth \<equiv> \<lambda>d c. readEntitlementValue d (depth + 1) c"

lemma nodes_pos: "0 < nodes e" by (cases e) simp

lemma entitlementDER_shallow:
  assumes "\<not> depth > 128"
  shows "entitlementDER (PBool b) depth = Inr [1, 1, if b then 255 else 0]"
    "entitlementDER (PString s) depth = Inr (derWrap 12 s)"
    "entitlementDER (PInt i) depth = Inr (derWrap 2 (int64Bytes i))"
    "entitlementDER (PUint n) depth = (if n > 2 ^ 63 - 1 then Inl (Plain ''entitlement integer exceeds signed 64-bit range'')
       else Inr (derWrap 2 (int64Bytes (int n))))"
    "entitlementDER (PArray vs) depth = rbind (arrayDER vs depth) (\<lambda>data. Inr (derWrap 0x30 data))"
    "entitlementDER (PDict es) depth = rbind (dictDER (sortedKeys es) depth) (\<lambda>data. Inr (derWrap 0xb0 data))"
  using assms by (subst entitlementDER.simps, simp)+

lemma entitlement_roundtrip:
  shows "entitlementDER v depth = Inr b \<Longrightarrow> entitlement_ok v \<Longrightarrow> length b < 2 ^ 31 \<Longrightarrow>
      rd + ent_height (treeOf v) \<le> 32 \<Longrightarrow> cnt + nodes (treeOf v) \<le> 100000 \<Longrightarrow>
      readEntitlementValue (b @ rest) rd cnt = Inr (treeOf v, rest, cnt + nodes (treeOf v))"
    and "arrayDER vs depth = Inr b \<Longrightarrow> \<forall>v \<in> set vs. entitlement_ok v \<Longrightarrow> length b < 2 ^ 31 \<Longrightarrow>
      \<forall>v \<in> set vs. rd + Suc (ent_height (treeOf v)) \<le> 32 \<Longrightarrow> cnt + sum_list (map (nodes \<circ> treeOf) vs) \<le> 100000 \<Longrightarrow>
      arrayLoop (childReader rd) b cnt acc = Inr (acc @ map treeOf vs, cnt + sum_list (map (nodes \<circ> treeOf) vs))"
    and "dictDER es depth = Inr b \<Longrightarrow> \<forall>(k, v) \<in> set es. text_ok k \<and> entitlement_ok v \<Longrightarrow> length b < 2 ^ 31 \<Longrightarrow>
      sorted (map fst es) \<Longrightarrow> distinct (map fst es) \<Longrightarrow> (acc = [] \<or> (\<forall>k \<in> fst ` set es. lastKey < k)) \<Longrightarrow>
      \<forall>(k, v) \<in> set es. rd + Suc (ent_height (treeOf v)) \<le> 32 \<Longrightarrow> cnt + sum_list (map (\<lambda>(k, v). Suc (nodes (treeOf v))) es) \<le> 100000 \<Longrightarrow>
      dictLoop (childReader rd) b cnt lastKey acc =
        Inr (acc @ concat (map (\<lambda>(k, v). [Ent 12 k [], treeOf v]) es), cnt + sum_list (map (\<lambda>(k, v). Suc (nodes (treeOf v))) es))"
proof (induction v depth and vs depth and es depth arbitrary: b rest rd cnt and b rd cnt acc and b rd cnt acc lastKey
    rule: entitlementDER_arrayDER_dictDER.induct)
  case (1 v depth)
  have d: "\<not> depth > 128" using 1(3) by (auto simp: entitlementDER.simps [of v])
  have rd: "rd \<le> 32" "cnt < 100000" using 1(6,7) nodes_pos [of "treeOf v"] by linarith+
  show ?case
  proof (cases v)
    case (PBool x)
    then have b: "b = derWrap 1 [if x then 255 else 0]" using 1(3) by (simp add: entitlementDER_shallow [OF d] derWrap_def derHeader_def)
    show ?thesis unfolding b PBool using read_leaf(1) [OF rd _ derBool_flag [of x]] by simp
  next
    case (PString s)
    then have b: "b = derWrap 12 s" using 1(3) by (simp add: entitlementDER_shallow [OF d])
    have "length s < 2 ^ 31" using 1(5) derWrap_length [of s 12] unfolding b by linarith
    then show ?thesis unfolding b PString using read_leaf(3) [OF rd] 1(4) PString by simp
  next
    case (PInt i)
    then have b: "b = derWrap 2 (int64Bytes i)" using 1(3) by (simp add: entitlementDER_shallow [OF d])
    have "length (int64Bytes i) < 2 ^ 31" using 1(5) derWrap_length [of "int64Bytes i" 2] unfolding b by linarith
    then show ?thesis unfolding b PInt using read_leaf(2) [OF rd] 1(4) PInt derInt64_int64Bytes [of i] by simp
  next
    case (PUint n)
    then have b: "b = derWrap 2 (int64Bytes (int n))" "n \<le> 2 ^ 63 - 1" using 1(3) by (auto simp: entitlementDER_shallow [OF d] split: if_splits)
    have "length (int64Bytes (int n)) < 2 ^ 31" using 1(5) derWrap_length [of "int64Bytes (int n)" 2] unfolding b(1) by linarith
    then show ?thesis unfolding b(1) PUint using read_leaf(2) [OF rd] b(2) derInt64_int64Bytes [of "int n"] by simp
  next
    case (PArray vs)
    then obtain data where data: "arrayDER vs depth = Inr data" "b = derWrap 0x30 data"
      using 1(3) by (auto simp: entitlementDER_shallow [OF d] result_simps)
    have l: "length data < 2 ^ 31" using 1(5) derWrap_length [of data "0x30"] unfolding data(2) by linarith
    have h: "\<forall>v \<in> set vs. rd + Suc (ent_height (treeOf v)) \<le> 32"
    proof
      fix x assume "x \<in> set vs"
      then show "rd + Suc (ent_height (treeOf x)) \<le> 32" using 1(6) PArray ent_height_child [of "treeOf x" "map treeOf vs"] by simp
    qed
    have "arrayLoop (childReader rd) data (cnt + 1) [] = Inr ([] @ map treeOf vs, cnt + 1 + sum_list (map (nodes \<circ> treeOf) vs))"
      by (rule 1(1) [OF d PArray data(1) _ l h]) (use 1(4,7) PArray in \<open>simp_all add: comp_def\<close>)
    then show ?thesis unfolding data(2) PArray using read_node(1) [OF rd l] by (simp add: comp_def)
  next
    case (PDict es)
    then obtain data where data: "dictDER (sortedKeys es) depth = Inr data" "b = derWrap 0xb0 data"
      using 1(3) by (auto simp: entitlementDER_shallow [OF d] result_simps)
    have l: "length data < 2 ^ 31" using 1(5) derWrap_length [of data "0xb0"] unfolding data(2) by linarith
    let ?s = "sortedKeys es"
    have srt: "sorted (map fst ?s)" by (simp add: sortedKeys_def)
    have dst: "distinct (map fst ?s)"
      using 1(4) PDict by (simp add: sortedKeys_def distinct_map) 
    have h: "\<forall>(k, v) \<in> set ?s. rd + Suc (ent_height (treeOf v)) \<le> 32"
    proof clarify
      fix k x assume "(k, x) \<in> set ?s"
      then have "treeOf x \<in> set (concat (map (\<lambda>(k, v). [Ent 12 k [], treeOf v]) ?s))" by force
      from ent_height_child [OF this] show "rd + Suc (ent_height (treeOf x)) \<le> 32" using 1(6) PDict by simp
    qed
    have n: "sum_list (map nodes (concat (map (\<lambda>(k, v). [Ent 12 k [], treeOf v]) xs))) = sum_list (map (\<lambda>(k, v). Suc (nodes (treeOf v))) xs)" for xs :: "(gostring \<times> plist) list"
      by (induction xs) auto
    have "dictLoop (childReader rd) data (cnt + 1) [] [] =
        Inr ([] @ concat (map (\<lambda>(k, v). [Ent 12 k [], treeOf v]) ?s), cnt + 1 + sum_list (map (\<lambda>(k, v). Suc (nodes (treeOf v))) ?s))"
      by (rule 1(2) [OF d PDict data(1) _ l srt dst _ h]) (use 1(4,7) PDict n [of ?s] in \<open>auto\<close>)
    then show ?thesis unfolding data(2) PDict using read_node(2) [OF rd l] n [of ?s] by simp
  qed (use 1 in simp_all)
next
  case (2 depth)
  then show ?case by (simp add: arrayLoop.simps)
next
  case (3 v vs depth)
  from 3(3) obtain x y where x: "entitlementDER v (depth + 1) = Inr x" and y: "arrayDER vs depth = Inr y" and b: "b = x @ y"
    by (auto simp: result_simps)
  have X: "readEntitlementValue (x @ y) (rd + 1) cnt = Inr (treeOf v, y, cnt + nodes (treeOf v))"
    by (rule 3(1) [OF x]) (use 3(4-7) b in simp_all)
  have Y: "arrayLoop (childReader rd) y (cnt + nodes (treeOf v)) (acc @ [treeOf v]) =
      Inr ((acc @ [treeOf v]) @ map treeOf vs, cnt + nodes (treeOf v) + sum_list (map (nodes \<circ> treeOf) vs))"
    by (rule 3(2) [OF x y]) (use 3(4-7) b in simp_all)
  have "length y < length (x @ y)" by (rule readEntitlementValue_shorter [OF X])
  with X Y show ?case unfolding b by (subst arrayLoop.simps) (simp add: add.assoc)
next
  case (4 depth)
  then show ?case by (simp add: dictLoop.simps)
next
  case (5 k v es depth)
  from 5(3) obtain x y where x: "entitlementDER v (depth + 1) = Inr x" and y: "dictDER es depth = Inr y"
    and b: "b = derWrap 0x30 (derWrap 12 k @ x) @ y"
    by (auto simp: result_simps)
  let ?c = "derWrap 12 k @ x"
  from 5(4) have k: "text_ok k" and v: "entitlement_ok v" by auto
  have l: "length ?c < 2 ^ 31" "length k < 2 ^ 31" "length x < 2 ^ 31" "length y < 2 ^ 31"
    using 5(5) derWrap_length [of ?c "0x30"] derWrap_length [of k 12] unfolding b by simp_all
  have h: "rd + 1 + ent_height (treeOf v) \<le> 32" using 5(9) by auto
  have n: "Suc (cnt + nodes (treeOf v)) + sum_list (map (\<lambda>(k, v). Suc (nodes (treeOf v))) es) \<le> 100000" using 5(10) by simp
  have K: "readEntitlementValue ?c (rd + 1) cnt = Inr (Ent 12 k [], x, Suc cnt)"
    by (rule read_leaf(3) [OF _ _ l(2) k]) (use h n in simp_all)
  have X: "readEntitlementValue (x @ []) (rd + 1) (Suc cnt) = Inr (treeOf v, [], Suc cnt + nodes (treeOf v))"
    by (rule 5(1) [OF x v l(3) h]) (use n in simp)
  have Y: "dictLoop (childReader rd) y (Suc cnt + nodes (treeOf v)) k (acc @ [Ent 12 k [], treeOf v]) =
      Inr ((acc @ [Ent 12 k [], treeOf v]) @ concat (map (\<lambda>(k, v). [Ent 12 k [], treeOf v]) es),
        Suc cnt + nodes (treeOf v) + sum_list (map (\<lambda>(k, v). Suc (nodes (treeOf v))) es))"
    by (rule 5(2) [OF x y _ l(4)]) (use 5(4,6,7,9) n in \<open>auto simp: less_le\<close>)
  have key: "\<not> (acc \<noteq> [] \<and> k \<le> lastKey)" using 5(8) by (auto simp: not_le)
  have "b \<noteq> []" unfolding b using derWrap_length [of ?c "0x30"] by (cases "derWrap 0x30 ?c") auto
  moreover have "entitlementTLV b = Inr (\<lparr>rv_tag = 0x30, rv_full = derWrap 0x30 ?c, rv_bytes = ?c\<rparr>, y)"
    unfolding b by (rule entitlementTLV_derWrap [OF _ l(1)]) simp
  ultimately show ?case using K X Y key by (subst dictLoop.simps) (simp add: add.assoc)
qed

end
