(* ===== verification/Entitlement_Bounds.thy ===== *)
theory Entitlement_Bounds
  imports Entitlement_Tree
begin

section \<open>What the reader accepts\<close>

text \<open>A dictionary's children: string keys in strictly increasing order, each with its value.\<close>

fun pairs_ok :: "ent list \<Rightarrow> bool" where
  "pairs_ok [] = True"
| "pairs_ok [k] = False"
| "pairs_ok (k # v # r) = (e_tag k = 12 \<and> pairs_ok r \<and> (r \<noteq> [] \<longrightarrow> e_text k < e_text (hd r)))"

primrec ent_wf :: "ent \<Rightarrow> bool" where
  "ent_wf (Ent t x cs) = ((if t = 0xb0 then pairs_ok cs else if t = 0x30 then True else t \<in> {1, 2, 12} \<and> cs = []) \<and>
     list_all ent_wf cs)"

lemma pairs_ok_snoc:
  "pairs_ok cs \<Longrightarrow> e_tag k = 12 \<Longrightarrow> (cs \<noteq> [] \<longrightarrow> e_text (cs ! (length cs - 2)) < e_text k) \<Longrightarrow> pairs_ok (cs @ [k, v])"
  by (induction cs rule: pairs_ok.induct) (auto simp: neq_Nil_conv nth_Cons' split: if_splits)

lemma pairs_ok_even: "pairs_ok cs \<Longrightarrow> even (length cs)"
  by (induction cs rule: pairs_ok.induct) auto

text \<open>What a reader at a depth guarantees: \<open>rest\<close> is shorter, and the counter counts the nodes.\<close>

definition read_result :: "nat \<Rightarrow> byte list \<Rightarrow> nat \<Rightarrow> ent \<times> byte list \<times> nat \<Rightarrow> bool" where
  "read_result depth data cnt r \<longleftrightarrow> (case r of (e, rest, n) \<Rightarrow>
     ent_wf e \<and> depth + ent_height e \<le> 32 \<and> n = cnt + nodes e \<and> n \<le> 100000 \<and> length rest < length data)"

definition reader_ok :: "nat \<Rightarrow> ent_reader \<Rightarrow> bool" where
  "reader_ok depth f \<longleftrightarrow> (\<forall>data cnt. outcome (read_result depth data cnt) (f data cnt))"

definition loop_result :: "nat \<Rightarrow> nat \<Rightarrow> ent list \<Rightarrow> ent list \<times> nat \<Rightarrow> bool" where
  "loop_result depth cnt acc r \<longleftrightarrow> (case r of (cs, n) \<Rightarrow>
     list_all ent_wf cs \<and> (\<forall>c \<in> set cs. depth + ent_height c \<le> 32) \<and> n + sum_list (map nodes acc) = cnt + sum_list (map nodes cs) \<and> n \<le> 100000)"

lemma arrayLoop_outcome:
  assumes f: "reader_ok depth f"
  shows "list_all ent_wf acc \<Longrightarrow> \<forall>c \<in> set acc. depth + ent_height c \<le> 32 \<Longrightarrow> cnt \<le> 100000 \<Longrightarrow>
    outcome (loop_result depth cnt acc) (arrayLoop f children cnt acc)"
proof (induction "length children" arbitrary: children cnt acc rule: less_induct)
  case less
  show ?case
  proof (cases "children = []")
    case True
    with less.prems show ?thesis by (subst arrayLoop.simps) (simp add: loop_result_def)
  next
    case False
    have "outcome (loop_result depth cnt acc) (rbind (f children cnt) (\<lambda>(child, left, cnt).
        if length left < length children then arrayLoop f left cnt (acc @ [child]) else Inl OutOfFuel))"
    proof (rule outcome_rbind)
      show "outcome (read_result depth children cnt) (f children cnt)" using f by (simp add: reader_ok_def)
      fix v assume v: "read_result depth children cnt v"
      obtain child rest n where r: "v = (child, rest, n)" by (cases v)
      from v r have lt: "length rest < length children" by (simp add: read_result_def)
      have "outcome (loop_result depth n (acc @ [child])) (arrayLoop f rest n (acc @ [child]))"
        by (rule less.hyps [OF lt]) (use v r less.prems in \<open>auto simp: read_result_def\<close>)
      then have "outcome (loop_result depth cnt acc) (arrayLoop f rest n (acc @ [child]))"
        by (rule outcome_mono) (use v r in \<open>auto simp: loop_result_def read_result_def\<close>)
      then show "outcome (loop_result depth cnt acc) (case v of (child, left, cnt) \<Rightarrow>
          if length left < length children then arrayLoop f left cnt (acc @ [child]) else Inl OutOfFuel)"
        using r lt by simp
    qed
    with False show ?thesis by (subst arrayLoop.simps) simp
  qed
qed

lemma entitlementTLV_outcome: "outcome (\<lambda>(v, rest). length (rv_bytes v) + length rest < length data) (entitlementTLV data)"
proof (cases "entitlementTLV data")
  case (Inl e)
  then have "e = Malformed ''entitlement DER''" by (auto simp: entitlementTLV_def split: option.splits if_splits prod.splits)
  then show ?thesis by (simp add: Inl)
next
  case (Inr r)
  then show ?thesis using entitlementTLV_shorter(1) [of data "fst r" "snd r"] by (cases r) simp
qed

lemma dictLoop_outcome:
  assumes f: "reader_ok depth f"
  shows "list_all ent_wf acc \<Longrightarrow> \<forall>c \<in> set acc. depth + ent_height c \<le> 32 \<Longrightarrow> cnt \<le> 100000 \<Longrightarrow> pairs_ok acc \<Longrightarrow>
    (acc \<noteq> [] \<longrightarrow> e_text (acc ! (length acc - 2)) = lastKey) \<Longrightarrow>
    outcome (\<lambda>r. loop_result depth cnt acc r \<and> pairs_ok (fst r)) (dictLoop f children cnt lastKey acc)"
proof (induction "length children" arbitrary: children cnt acc lastKey rule: less_induct)
  case less
  let ?Q = "\<lambda>r. loop_result depth cnt acc r \<and> pairs_ok (fst r)"
  show ?case
  proof (cases "children = []")
    case True
    with less.prems show ?thesis by (subst dictLoop.simps) (simp add: loop_result_def)
  next
    case False
    have step: "outcome ?Q (rbind (f (rv_bytes pair) cnt) (\<lambda>(key, left, cnt).
       if e_tag key \<noteq> 12 \<or> acc \<noteq> [] \<and> e_text key \<le> lastKey then Inl (Malformed ''entitlement dictionary keys'') else
       rbind (f left cnt) (\<lambda>(child, rest, cnt).
       if rest \<noteq> [] then Inl (Malformed ''entitlement dictionary trailing value'') else
       dictLoop f nxt cnt (e_text key) (acc @ [key, child]))))" if nxt: "length nxt < length children" for pair nxt
    proof (rule outcome_rbind)
      show "outcome (read_result depth (rv_bytes pair) cnt) (f (rv_bytes pair) cnt)" using f by (simp add: reader_ok_def)
      fix v assume v: "read_result depth (rv_bytes pair) cnt v"
      obtain key left n where k: "v = (key, left, n)" by (cases v)
      have go: "outcome ?Q (rbind (f left n) (\<lambda>(child, rest, cnt).
          if rest \<noteq> [] then Inl (Malformed ''entitlement dictionary trailing value'') else
          dictLoop f nxt cnt (e_text key) (acc @ [key, child])))"
        if ok: "\<not> (e_tag key \<noteq> 12 \<or> acc \<noteq> [] \<and> e_text key \<le> lastKey)"
      proof (rule outcome_rbind)
        show "outcome (read_result depth left n) (f left n)" using f by (simp add: reader_ok_def)
        fix w assume w: "read_result depth left n w"
        obtain child rest m where c: "w = (child, rest, m)" by (cases w)
        have p: "pairs_ok (acc @ [key, child])"
          by (rule pairs_ok_snoc) (use less.prems ok in auto)
        have "outcome (\<lambda>r. loop_result depth m (acc @ [key, child]) r \<and> pairs_ok (fst r)) (dictLoop f nxt m (e_text key) (acc @ [key, child]))"
          by (rule less.hyps [OF nxt _ _ _ p]) (use v k w c less.prems in \<open>auto simp: read_result_def nth_append\<close>)
        then have "outcome ?Q (dictLoop f nxt m (e_text key) (acc @ [key, child]))"
          by (rule outcome_mono) (use v k w c in \<open>auto simp: loop_result_def read_result_def\<close>)
        then show "outcome ?Q (case w of (child, rest, cnt) \<Rightarrow>
            if rest \<noteq> [] then Inl (Malformed ''entitlement dictionary trailing value'') else dictLoop f nxt cnt (e_text key) (acc @ [key, child]))"
          using c by simp
      qed
      then show "outcome ?Q (case v of (key, left, cnt) \<Rightarrow>
         if e_tag key \<noteq> 12 \<or> acc \<noteq> [] \<and> e_text key \<le> lastKey then Inl (Malformed ''entitlement dictionary keys'') else
         rbind (f left cnt) (\<lambda>(child, rest, cnt).
         if rest \<noteq> [] then Inl (Malformed ''entitlement dictionary trailing value'') else
         dictLoop f nxt cnt (e_text key) (acc @ [key, child])))"
        using k by simp
    qed
    have "outcome ?Q (rbind (entitlementTLV children) (\<lambda>(pair, nxt).
     if rv_tag pair \<noteq> 0x30 then Inl (Malformed ''entitlement dictionary entry'') else
     rbind (f (rv_bytes pair) cnt) (\<lambda>(key, left, cnt).
     if e_tag key \<noteq> 12 \<or> acc \<noteq> [] \<and> e_text key \<le> lastKey then Inl (Malformed ''entitlement dictionary keys'') else
     rbind (f left cnt) (\<lambda>(child, rest, cnt).
     if rest \<noteq> [] then Inl (Malformed ''entitlement dictionary trailing value'') else
     dictLoop f nxt cnt (e_text key) (acc @ [key, child])))))"
    proof (rule outcome_rbind [OF entitlementTLV_outcome])
      fix w :: "raw_value \<times> byte list" assume w: "case w of (v, rest) \<Rightarrow> length (rv_bytes v) + length rest < length children"
      obtain pair nxt where c: "w = (pair, nxt)" by (cases w)
      from w c have "length nxt < length children" by simp
      from step [OF this, of pair] c show "outcome ?Q (case w of (pair, nxt) \<Rightarrow>
         if rv_tag pair \<noteq> 0x30 then Inl (Malformed ''entitlement dictionary entry'') else
         rbind (f (rv_bytes pair) cnt) (\<lambda>(key, left, cnt).
         if e_tag key \<noteq> 12 \<or> acc \<noteq> [] \<and> e_text key \<le> lastKey then Inl (Malformed ''entitlement dictionary keys'') else
         rbind (f left cnt) (\<lambda>(child, rest, cnt).
         if rest \<noteq> [] then Inl (Malformed ''entitlement dictionary trailing value'') else
         dictLoop f nxt cnt (e_text key) (acc @ [key, child]))))" by simp
    qed
    with False show ?thesis by (subst dictLoop.simps) simp
  qed
qed

lemma height_bound: "(\<forall>c \<in> set cs. Suc depth + ent_height c \<le> 32) \<Longrightarrow> depth \<le> 32 \<Longrightarrow> depth + foldr max (map (\<lambda>c. Suc (ent_height c)) cs) 0 \<le> 32"
  by (induction cs) auto

lemma readEntitlementValue_ok: "reader_ok depth (\<lambda>d c. readEntitlementValue d depth c)"
proof (induction "33 - depth" arbitrary: depth rule: less_induct)
  case less
  show ?case
    unfolding reader_ok_def
  proof (intro allI)
    fix data cnt
    show "outcome (read_result depth data cnt) (readEntitlementValue data depth cnt)"
    proof (cases "depth > maxBundlePlistDepth \<or> cnt + 1 > maxBundlePlistValues")
      case True
      then show ?thesis by (subst readEntitlementValue.simps) simp
    next
      case False
      then have b: "depth \<le> 32" "cnt + 1 \<le> 100000" by (simp_all add: maxBundlePlistDepth_def maxBundlePlistValues_def)
      then have c: "reader_ok (Suc depth) (\<lambda>d. readEntitlementValue d (Suc depth))" by (intro less) simp
      have A: "outcome (loop_result (Suc depth) (Suc cnt) []) (arrayLoop (\<lambda>d. readEntitlementValue d (Suc depth)) bs (Suc cnt) [])" for bs
        by (rule arrayLoop_outcome [OF c]) (use b in simp_all)
      have D: "outcome (\<lambda>r. loop_result (Suc depth) (Suc cnt) [] r \<and> pairs_ok (fst r)) (dictLoop (\<lambda>d. readEntitlementValue d (Suc depth)) bs (Suc cnt) [] [])" for bs
        by (rule dictLoop_outcome [OF c]) (use b in simp_all)
      have leaf: "read_result depth data cnt (Ent t x [], rest, Suc cnt)" if "t \<in> {1, 2, 12}" "length rest < length data" for t x rest
        using that b by (auto simp: read_result_def)
      have node: "read_result depth data cnt (Ent t [] cs, rest, n)"
        if "loop_result (Suc depth) (Suc cnt) [] (cs, n)" "t = 0x30 \<or> t = 0xb0 \<and> pairs_ok cs" "length rest < length data" for t cs n rest
        using that b height_bound [of cs depth] by (auto simp: read_result_def loop_result_def)
      have "outcome (read_result depth data cnt) (rbind (entitlementTLV data) (\<lambda>(v, rest).
         let tag = rv_tag v; read = (\<lambda>d c. readEntitlementValue d (depth + 1) c) in
         if tag = 1 then rbind (derBool (rv_bytes v)) (\<lambda>b. Inr (Ent tag (str (if b then ''true'' else ''false'')) [], rest, cnt + 1))
         else if tag = 2 then rbind (derInt64 (rv_bytes v)) (\<lambda>i. Inr (Ent tag (formatInt i) [], rest, cnt + 1))
         else if tag = 12 then
           (if \<not> utf8Valid (rv_bytes v) \<or> 0 \<in> set (rv_bytes v) then Inl (Malformed ''entitlement UTF-8 string'')
            else Inr (Ent tag (rv_bytes v) [], rest, cnt + 1))
         else if tag = 0x30 then rbind (arrayLoop read (rv_bytes v) (cnt + 1) []) (\<lambda>(cs, cnt). Inr (Ent tag [] cs, rest, cnt))
         else if tag = 0xb0 then rbind (dictLoop read (rv_bytes v) (cnt + 1) [] []) (\<lambda>(cs, cnt). Inr (Ent tag [] cs, rest, cnt))
         else Inl (Unsupported ''entitlement DER tag'')))"
      proof (rule outcome_rbind [OF entitlementTLV_outcome], clarify)
        fix v :: raw_value and rest :: "byte list" assume "length (rv_bytes v) + length rest < length data"
        then have r: "length rest < length data" by simp
        have B: "outcome (\<lambda>_. True) (derBool bs)" "outcome (\<lambda>_. True) (derInt64 bs)" for bs
          by (simp_all add: derBool_def derInt64_def)
        note parts = outcome_rbind [OF B(1)] outcome_rbind [OF B(2)] outcome_rbind [OF A] outcome_rbind [OF D]
        show "outcome (read_result depth data cnt) (let tag = rv_tag v; read = (\<lambda>d c. readEntitlementValue d (depth + 1) c) in
         if tag = 1 then rbind (derBool (rv_bytes v)) (\<lambda>b. Inr (Ent tag (str (if b then ''true'' else ''false'')) [], rest, cnt + 1))
         else if tag = 2 then rbind (derInt64 (rv_bytes v)) (\<lambda>i. Inr (Ent tag (formatInt i) [], rest, cnt + 1))
         else if tag = 12 then
           (if \<not> utf8Valid (rv_bytes v) \<or> 0 \<in> set (rv_bytes v) then Inl (Malformed ''entitlement UTF-8 string'')
            else Inr (Ent tag (rv_bytes v) [], rest, cnt + 1))
         else if tag = 0x30 then rbind (arrayLoop read (rv_bytes v) (cnt + 1) []) (\<lambda>(cs, cnt). Inr (Ent tag [] cs, rest, cnt))
         else if tag = 0xb0 then rbind (dictLoop read (rv_bytes v) (cnt + 1) [] []) (\<lambda>(cs, cnt). Inr (Ent tag [] cs, rest, cnt))
         else Inl (Unsupported ''entitlement DER tag''))"
          unfolding Let_def using r
          by (auto intro!: parts leaf node split: prod.split)
      qed
      with False show ?thesis by (subst readEntitlementValue.simps) simp
    qed
  qed
qed

end
