(* ===== verification/Entitlement_Report.thy ===== *)
theory Entitlement_Report
  imports Entitlement_Bounds
begin

text \<open>
  entitlement_metadata.go's display forms and the encoder of entitlements.go. The property list
  decoder, which is a third-party package, is the parameter \<open>decode\<close>.
\<close>

section \<open>Display forms\<close>

text \<open>A replacer of single bytes.\<close>

definition escapeBy :: "(byte \<times> gostring) list \<Rightarrow> gostring \<Rightarrow> gostring" where
  "escapeBy table s = concat (map (\<lambda>c. case map_of table c of None \<Rightarrow> [c] | Some r \<Rightarrow> r) s)"

definition plistEscape :: "gostring \<Rightarrow> gostring" where
  "plistEscape = escapeBy [(38, str ''&amp;''), (60, str ''&lt;''), (62, str ''&gt;'')]"

definition entitlementDisplayEscape :: "gostring \<Rightarrow> gostring" where
  "entitlementDisplayEscape = escapeBy [(38, str ''&amp;''), (60, str ''&lt;''), (62, str ''&gt;''),
     (34, str ''&quot;''), (39, str ''&apos;'')]"

definition tabs :: "nat \<Rightarrow> gostring" where
  "tabs depth = replicate depth 9"

type_synonym display = "gostring \<times> gostring \<times> bool"

text \<open>
  What one call of write appends to the two builders, and its result. A dictionary's children
  are taken in pairs: an odd one would index past the end.
\<close>

definition leafDisplay :: "byte \<Rightarrow> gostring \<Rightarrow> nat \<Rightarrow> display" where
  "leafDisplay t x depth =
    (let label = (if t = 1 then str ''Bool'' else if t = 2 then str ''Int'' else str ''String'');
         tag = (if t = 2 then str ''integer'' else str ''string'') in
     (if t = 1 then str ''<'' @ x @ str ''/>''
      else str ''<'' @ tag @ str ''>'' @ entitlementDisplayEscape x @ str ''</'' @ tag @ str ''>'',
      tabs depth @ str ''['' @ label @ str ''] '' @ x @ [10], True))"

fun writeEnt :: "ent \<Rightarrow> nat \<Rightarrow> display result"
  and writePairs :: "ent list \<Rightarrow> nat \<Rightarrow> display result"
  and writeItems :: "ent list \<Rightarrow> byte \<Rightarrow> nat \<Rightarrow> display result" where
  "writeEnt (Ent t x cs) depth =
    (if t \<in> {1, 2, 12} then Inr (leafDisplay t x depth)
     else if t = 0xb0 then rbind (writePairs cs depth) (\<lambda>(xml, txt, valid).
       Inr (str ''<dict>'' @ xml @ str ''</dict>'', tabs depth @ str ''[Dict]'' @ [10] @ txt, valid))
     else if t = 0x30 then rbind (writeItems cs 0 depth) (\<lambda>(xml, txt, valid).
       Inr (str ''<array>'' @ xml @ str ''</array>'', tabs depth @ str ''[Array]'' @ [10] @ txt, valid))
     else Inr ([], [], True))"
| "writePairs [] depth = Inr ([], [], True)"
| "writePairs [k] depth = Inl Panic"
| "writePairs (k # v # cs) depth =
    rbind (writeEnt v (depth + 2)) (\<lambda>(xml, txt, valid). rbind (writePairs cs depth) (\<lambda>(xmls, txts, valids).
    Inr (str ''<key>'' @ entitlementDisplayEscape (e_text k) @ str ''</key>'' @ xml @ xmls,
      tabs depth @ 9 # str ''[Key] '' @ e_text k @ [10] @ tabs depth @ 9 # str ''[Value]'' @ [10] @ txt @ txts, valid \<and> valids)))"
| "writeItems [] primitive depth = Inr ([], [], True)"
| "writeItems (c # cs) primitive depth =
    (let mixed = (e_tag c < 0x30 \<and> primitive \<noteq> 0 \<and> primitive \<noteq> e_tag c) in
     rbind (writeEnt c (depth + 1)) (\<lambda>(xml, txt, valid).
     rbind (writeItems cs (if e_tag c < 0x30 then e_tag c else primitive) depth) (\<lambda>(xmls, txts, valids).
     Inr (xml @ xmls, txt @ txts, \<not> mixed \<and> valid \<and> valids))))"

record EntitlementMetadata =
  ent_XML :: gostring
  ent_Text :: gostring
  ent_TextValid :: bool

definition plistHeader :: gostring where
  "plistHeader = str ''<?xml version=\"1.0\" encoding=\"UTF-8\"?><!DOCTYPE plist PUBLIC \"-//Apple//DTD PLIST 1.0//EN\" '' @
     str ''\"https://www.apple.com/DTDs/PropertyList-1.0.dtd\"><plist version=\"1.0\">''"

definition entitlementDisplay :: "ent \<Rightarrow> EntitlementMetadata result" where
  "entitlementDisplay v =
    rbind (writeEnt v 0) (\<lambda>(xml, txt, valid).
    Inr \<lparr>ent_XML = plistHeader @ xml @ str ''</plist>'' @ [10], ent_Text = (if valid then txt else []), ent_TextValid = valid\<rparr>)"

text \<open>The envelope: one application-class constructed element with a version and the root.\<close>

definition decodeEntitlementMetadata :: "byte list \<Rightarrow> EntitlementMetadata result" where
  "decodeEntitlementMetadata data =
    (if length data > maxBundlePlist then Inl (Malformed ''entitlement DER size limit'') else
     rbind (entitlementTLV data) (\<lambda>(outer, rest).
     if rest \<noteq> [] \<or> rv_tag outer \<noteq> 0x70 then Inl (Malformed ''entitlement DER envelope'') else
     rbind (entitlementTLV (rv_bytes outer)) (\<lambda>(version, rest).
     if rv_full version \<noteq> [2, 1, 1] then Inl (Unsupported ''entitlement DER version'') else
     rbind (readEntitlementValue rest 0 0) (\<lambda>(value, rest, _).
     if rest \<noteq> [] \<or> e_tag value \<noteq> 0xb0 then Inl (Malformed ''entitlement DER root dictionary'')
     else entitlementDisplay value))))"

section \<open>The encoder\<close>

text \<open>base64.StdEncoding.\<close>

definition base64Digit :: "nat \<Rightarrow> byte" where
  "base64Digit n = str ''ABCDEFGHIJKLMNOPQRSTUVWXYZabcdefghijklmnopqrstuvwxyz0123456789+/'' ! n"

fun base64Encode :: "byte list \<Rightarrow> gostring" where
  "base64Encode (a # b # c # bs) =
    (let v = (unat a * 256 + unat b) * 256 + unat c in
     map base64Digit [v div 262144, v div 4096 mod 64, v div 64 mod 64, v mod 64] @ base64Encode bs)"
| "base64Encode [a, b] =
    (let v = (unat a * 256 + unat b) * 256 in map base64Digit [v div 262144, v div 4096 mod 64, v div 64 mod 64] @ [61])"
| "base64Encode [a] = (let v = unat a * 65536 in map base64Digit [v div 262144, v div 4096 mod 64] @ [61, 61])"
| "base64Encode [] = []"

definition resourceDataXML :: "byte list \<Rightarrow> gostring \<Rightarrow> gostring" where
  "resourceDataXML data indent =
    indent @ str ''<data>'' @ [10] @ indent @ base64Encode data @ [10] @ indent @ str ''</data>'' @ [10]"

definition xmlElement :: "gostring \<Rightarrow> string \<Rightarrow> gostring \<Rightarrow> gostring" where
  "xmlElement indent tag value = indent @ str ''<'' @ str tag @ str ''>'' @ plistEscape value @ str ''</'' @ str tag @ str ''>'' @ [10]"

text \<open>The text of a value; a type without a case of its own writes nothing.\<close>

function entitlementXML :: "plist \<Rightarrow> nat \<Rightarrow> gostring" where
  "entitlementXML v depth =
    (let indent = tabs depth in
     case v of
       PString s \<Rightarrow> xmlElement indent ''string'' s
     | PData d \<Rightarrow> resourceDataXML d indent
     | PReal t \<Rightarrow> xmlElement indent ''real'' t
     | PInt i \<Rightarrow> xmlElement indent ''integer'' (formatInt i)
     | PUint n \<Rightarrow> xmlElement indent ''integer'' (decimal n)
     | PBool b \<Rightarrow> indent @ (if b then str ''<true/>'' else str ''<false/>'') @ [10]
     | PArray vs \<Rightarrow>
         if vs = [] then indent @ str ''<array/>'' @ [10]
         else indent @ str ''<array>'' @ [10] @ concat (map (\<lambda>v. entitlementXML v (depth + 1)) vs) @ indent @ str ''</array>'' @ [10]
     | PDict es \<Rightarrow>
         if es = [] then indent @ str ''<dict/>'' @ [10]
         else indent @ str ''<dict>'' @ [10] @
           concat (map (\<lambda>(k, v). indent @ 9 # str ''<key>'' @ plistEscape k @ str ''</key>'' @ [10] @ entitlementXML v (depth + 1))
             (sortedKeys es)) @ indent @ str ''</dict>'' @ [10]
     | POther \<Rightarrow> [])"
  by pat_completeness auto
termination
  by (relation "measure (\<lambda>(v, _). size v)") (auto simp: less_Suc_eq_le size_element dest: size_entry)

declare entitlementXML.simps [simp del]

text \<open>
  \<open>decode\<close> returns the map, \<open>None\<close> for a nil map. The DER payload is the versioned envelope.
\<close>

definition xmlProlog :: gostring where
  "xmlProlog = str ''<?xml version=\"1.0\" encoding=\"UTF-8\"?>'' @ [10] @
     str ''<!DOCTYPE plist PUBLIC \"-//Apple//DTD PLIST 1.0//EN\" \"http://www.apple.com/DTDs/PropertyList-1.0.dtd\">'' @ [10] @
     str ''<plist version=\"1.0\">'' @ [10]"

type_synonym plist_decoder = "byte list \<Rightarrow> (gostring \<times> plist) list option result"

definition envelope :: "byte list \<Rightarrow> byte list" where
  "envelope encoded = derWrap 0x70 ([2, 1, 1] @ encoded)"

definition EncodeEntitlements :: "plist_decoder \<Rightarrow> byte list \<Rightarrow> (gostring \<times> byte list) result" where
  "EncodeEntitlements decode input =
    (if length input > 16 * 2 ^ 20 then Inl (Malformed ''entitlements size limit'') else
     rbind (decode input) (\<lambda>values.
     case values of None \<Rightarrow> Inl (Malformed ''entitlements must be a dictionary'') | Some es \<Rightarrow>
     rbind (entitlementDER (PDict es) 0) (\<lambda>encoded.
     Inr (if take 6 input = str ''bplist'' then xmlProlog @ entitlementXML (PDict es) 0 @ str ''</plist>'' @ [10] else input,
       envelope encoded))))"

text \<open>Only a boolean true sets a flag; a failed decoding sets none.\<close>

definition execFlagTable :: "(gostring \<times> nat) list" where
  "execFlagTable = [(str ''get-task-allow'', 0x10), (str ''run-unsigned-code'', 0x10),
     (str ''com.apple.private.cs.debugger'', 0x20), (str ''dynamic-codesigning'', 0x40),
     (str ''com.apple.private.skip-library-validation'', 0x80), (str ''com.apple.private.amfi.can-load-cdhash'', 0x100),
     (str ''com.apple.private.amfi.can-execute-cdhash'', 0x200)]"

definition entitlementExecFlags :: "plist_decoder \<Rightarrow> byte list \<Rightarrow> nat" where
  "entitlementExecFlags decode xml =
    (let values = (case decode xml of Inr (Some es) \<Rightarrow> es | _ \<Rightarrow> []) in
     foldr (\<lambda>(key, bit) flags. if map_of values key = Some (PBool True) then or flags bit else flags) execFlagTable 0)"

end
