(* ===== verification/Entitlement_Results.thy ===== *)
theory Entitlement_Results
  imports Entitlement_Report
begin

text \<open>
  What entitlement extraction shows: the display of what the encoder wrote is the compact form
  of the values it was given, and no input makes the decoder or the writer index past a list.
\<close>

section \<open>The writer on accepted trees\<close>

lemma writeEnt_leaf [simp]: "t \<in> {1, 2, 12} \<Longrightarrow> writeEnt (Ent t x cs) depth = Inr (leafDisplay t x depth)"
  by simp

lemma write_total:
  shows "ent_wf e \<Longrightarrow> \<exists>d. writeEnt e depth = Inr d"
    and "list_all ent_wf cs \<Longrightarrow> pairs_ok cs \<Longrightarrow> \<exists>d. writePairs cs depth = Inr d"
    and "list_all ent_wf cs \<Longrightarrow> \<exists>d. writeItems cs p depth = Inr d"
proof (induction e depth and cs depth and cs p depth rule: writeEnt_writePairs_writeItems.induct)
  case (1 t x cs depth)
  consider "t \<in> {1, 2, 12}" | "t = 0xb0" | "t = 0x30" using 1(3) by (auto split: if_splits)
  then show ?case
  proof cases
    case 2
    then obtain d where "writePairs cs depth = Inr d" using 1(1) 1(3) by auto
    with 2 show ?thesis by (cases d) simp
  next
    case 3
    then obtain d where "writeItems cs 0 depth = Inr d" using 1(2) 1(3) by auto
    with 3 show ?thesis by (cases d) simp
  qed (cases "leafDisplay t x depth", simp)
next
  case (4 k v cs depth)
  then obtain a b c where x: "writeEnt v (depth + 2) = Inr (a, b, c)" by auto
  moreover from 4(2) [OF x refl refl] 4(3-) obtain y where "writePairs cs depth = Inr y" by auto
  ultimately show ?case by (cases y) simp
next
  case (6 c cs p depth)
  then obtain a b d where x: "writeEnt c (depth + 1) = Inr (a, b, d)" by auto
  moreover from 6(2) [OF refl x refl refl] 6(3-) obtain y where "writeItems cs (if e_tag c < 0x30 then e_tag c else p) depth = Inr y"
    by auto
  ultimately show ?case by (cases y) (simp add: Let_def)
qed (simp_all add: ex_bool_eq)

section \<open>The compact form\<close>

text \<open>The text the display of a value should have, on the values themselves.\<close>

function compactXML :: "plist \<Rightarrow> gostring" where
  "compactXML (PBool b) = str (if b then ''<true/>'' else ''<false/>'')"
| "compactXML (PString s) = str ''<string>'' @ entitlementDisplayEscape s @ str ''</string>''"
| "compactXML (PInt i) = str ''<integer>'' @ formatInt i @ str ''</integer>''"
| "compactXML (PUint n) = str ''<integer>'' @ decimal n @ str ''</integer>''"
| "compactXML (PArray vs) = str ''<array>'' @ concat (map compactXML vs) @ str ''</array>''"
| "compactXML (PDict es) = str ''<dict>'' @
     concat (map (\<lambda>(k, v). str ''<key>'' @ entitlementDisplayEscape k @ str ''</key>'' @ compactXML v) (sortedKeys es)) @ str ''</dict>''"
| "compactXML (PReal t) = []"
| "compactXML (PData d) = []"
| "compactXML POther = []"
  by pat_completeness auto
termination
  by (relation "measure size") (auto simp: less_Suc_eq_le size_element dest: size_entry)

text \<open>No array mixes primitive types.\<close>

definition primitives :: "plist list \<Rightarrow> byte list" where
  "primitives vs = filter (\<lambda>t. t < 0x30) (map (\<lambda>v. e_tag (treeOf v)) vs)"

function uniform :: "plist \<Rightarrow> bool" where
  "uniform (PArray vs) = (length (remdups (primitives vs)) \<le> 1 \<and> (\<forall>v \<in> set vs. uniform v))"
| "uniform (PDict es) = (\<forall>(k, v) \<in> set es. uniform v)"
| "uniform (PBool b) = True"
| "uniform (PString s) = True"
| "uniform (PInt i) = True"
| "uniform (PUint n) = True"
| "uniform (PReal t) = True"
| "uniform (PData d) = True"
| "uniform POther = True"
  by pat_completeness auto
termination
  by (relation "measure size") (auto simp: less_Suc_eq_le size_element dest: size_entry)

fun sameKind :: "byte \<Rightarrow> byte list \<Rightarrow> bool" where
  "sameKind p [] = True"
| "sameKind p (t # ts) = (if t < 0x30 then (p = 0 \<or> p = t) \<and> sameKind t ts else sameKind p ts)"

lemma sameKind_filter: "sameKind p ts = sameKind p (filter (\<lambda>t. t < 0x30) ts)"
  by (induction ts arbitrary: p) auto

lemma sameKind_from: "p \<noteq> 0 \<Longrightarrow> 0 \<notin> set ts \<Longrightarrow> \<forall>t \<in> set ts. t < 0x30 \<Longrightarrow> sameKind p ts \<longleftrightarrow> set ts \<subseteq> {p}"
  by (induction ts arbitrary: p) auto

lemma sameKind_remdups:
  assumes "0 \<notin> set ts"
  shows "sameKind 0 ts \<longleftrightarrow> length (remdups (filter (\<lambda>t. t < 0x30) ts)) \<le> 1"
proof -
  let ?f = "filter (\<lambda>t. t < (0x30 :: byte)) ts"
  have "sameKind 0 ?f \<longleftrightarrow> card (set ?f) \<le> 1"
  proof (cases ?f)
    case (Cons t r)
    have z: "t \<noteq> 0" "0 \<notin> set r" "\<forall>t \<in> set r. t < 0x30" "t < 0x30"
      using assms arg_cong [OF Cons, of set] by auto
    have "card (insert t (set r)) \<le> 1 \<longleftrightarrow> set r \<subseteq> {t}"
    proof
      assume "card (insert t (set r)) \<le> 1"
      then have "card (insert t (set r)) \<le> card {t}" by simp
      then have "{t} = insert t (set r)" by (intro card_seteq) auto
      then show "set r \<subseteq> {t}" by blast
    next
      assume "set r \<subseteq> {t}"
      then have "insert t (set r) = {t}" by blast
      then have "card (insert t (set r)) = card {t}" by (rule arg_cong)
      then show "card (insert t (set r)) \<le> 1" by (simp only: card.empty card_insert_if) simp
    qed
    then show ?thesis unfolding Cons using z sameKind_from [of t r] by simp
  qed simp
  then show ?thesis by (simp add: sameKind_filter [of 0 ts] length_remdups_card_conv)
qed

lemma escapeBy_id: "\<forall>c \<in> set s. map_of table c = None \<Longrightarrow> escapeBy table s = s"
  by (induction s) (simp_all add: escapeBy_def)

lemma escape_decimal: "entitlementDisplayEscape (decimal n) = decimal n"
  unfolding entitlementDisplayEscape_def by (rule escapeBy_id) (auto dest!: decimal_digits)

lemma escape_integer: "entitlementDisplayEscape (formatInt i) = formatInt i"
  using escape_decimal by (auto simp: formatInt_def entitlementDisplayEscape_def escapeBy_def str_def)

lemma formatInt_nat: "formatInt (int n) = decimal n"
  by (simp add: formatInt_def)

lemma tag_nonzero: "entitlement_ok v \<Longrightarrow> e_tag (treeOf v) \<noteq> 0"
  by (cases v) simp_all

lemma writeItems_compact:
  assumes "\<And>v. v \<in> set vs \<Longrightarrow> \<exists>txt. writeEnt (treeOf v) (depth + 1) = Inr (compactXML v, txt, uniform v)"
  shows "\<exists>txt. writeItems (map treeOf vs) p depth =
    Inr (concat (map compactXML vs), txt, sameKind p (map (\<lambda>v. e_tag (treeOf v)) vs) \<and> (\<forall>v \<in> set vs. uniform v))"
  using assms
proof (induction vs arbitrary: p)
  case (Cons v vs)
  let ?q = "if e_tag (treeOf v) < 0x30 then e_tag (treeOf v) else p"
  obtain t where t: "writeEnt (treeOf v) (depth + 1) = Inr (compactXML v, t, uniform v)" using Cons.prems by auto
  obtain r where r: "writeItems (map treeOf vs) ?q depth =
      Inr (concat (map compactXML vs), r, sameKind ?q (map (\<lambda>v. e_tag (treeOf v)) vs) \<and> (\<forall>v \<in> set vs. uniform v))"
    using Cons.IH [of ?q] Cons.prems by auto
  from t r show ?case by (auto simp: Let_def)
qed simp

lemma writePairs_compact:
  assumes "\<forall>(k, v) \<in> set es. \<exists>txt. writeEnt (treeOf v) (depth + 2) = Inr (compactXML v, txt, uniform v)"
  shows "\<exists>txt. writePairs (concat (map (\<lambda>(k, v). [Ent 12 k [], treeOf v]) es)) depth =
    Inr (concat (map (\<lambda>(k, v). str ''<key>'' @ entitlementDisplayEscape k @ str ''</key>'' @ compactXML v) es), txt,
      \<forall>(k, v) \<in> set es. uniform v)"
  using assms
proof (induction es)
  case (Cons e es)
  obtain k v where e: "e = (k, v)" by (cases e)
  obtain t where t: "writeEnt (treeOf v) (depth + 2) = Inr (compactXML v, t, uniform v)" using Cons.prems e by auto
  from Cons obtain r where "writePairs (concat (map (\<lambda>(k, v). [Ent 12 k [], treeOf v]) es)) depth =
    Inr (concat (map (\<lambda>(k, v). str ''<key>'' @ entitlementDisplayEscape k @ str ''</key>'' @ compactXML v) es), r,
      \<forall>(k, v) \<in> set es. uniform v)" by auto
  then show ?case unfolding e using t by simp
qed simp

lemma writeEnt_compact: "entitlement_ok v \<Longrightarrow> \<exists>txt. writeEnt (treeOf v) depth = Inr (compactXML v, txt, uniform v)"
proof (induction v arbitrary: depth rule: treeOf.induct)
  case (8 vs)
  have z: "0 \<notin> set (map (\<lambda>v. e_tag (treeOf v)) vs)"
  proof
    assume "0 \<in> set (map (\<lambda>v. e_tag (treeOf v)) vs)"
    then obtain v where "v \<in> set vs" "e_tag (treeOf v) = 0" by auto
    then show False using 8(2) tag_nonzero [of v] by simp
  qed
  have "\<exists>txt. writeEnt (treeOf v) (depth + 1) = Inr (compactXML v, txt, uniform v)" if "v \<in> set vs" for v
    using 8 that by simp
  from writeItems_compact [OF this, of vs] obtain out where "writeItems (map treeOf vs) 0 depth =
    Inr (concat (map compactXML vs), out, sameKind 0 (map (\<lambda>v. e_tag (treeOf v)) vs) \<and> (\<forall>v \<in> set vs. uniform v))" by blast
  then show ?case using sameKind_remdups [OF z] by (simp add: primitives_def)
next
  case (9 es)
  have "\<forall>(k, v) \<in> set (sortedKeys es). \<exists>txt. writeEnt (treeOf v) (depth + 2) = Inr (compactXML v, txt, uniform v)"
    using 9 by fastforce
  from writePairs_compact [OF this] show ?case by auto
qed (auto simp: leafDisplay_def str_def escape_integer formatInt_nat escape_decimal)

section \<open>Properties\<close>

text \<open>
  C32. Whatever bytes an entitlement blob holds, the DER reader fails with an error of the
  format or returns a well formed tree at most 32 levels deep whose nodes the counter counts, at
  most 100000, and leaves a shorter rest; and the display is produced without indexing past a
  dictionary's children, with no text for an array that mixes primitive types.\<close>

theorem entitlement_reader_bounds:
  "outcome (read_result 0 data 0) (readEntitlementValue data 0 0) \<and>
   outcome (\<lambda>m. ent_TextValid m \<or> ent_Text m = []) (decodeEntitlementMetadata data)"
proof
  have read: "outcome (read_result 0 d 0) (readEntitlementValue d 0 0)" for d
    using readEntitlementValue_ok [of 0] by (simp add: reader_ok_def)
  then show "outcome (read_result 0 data 0) (readEntitlementValue data 0 0)" .
  have display: "outcome (\<lambda>m. ent_TextValid m \<or> ent_Text m = []) (entitlementDisplay e)" if e: "ent_wf e" for e
  proof -
    obtain a b c where "writeEnt e 0 = Inr (a, b, c)" using write_total(1) [OF e, of 0] by auto
    then show ?thesis by (simp add: entitlementDisplay_def)
  qed
  show "outcome (\<lambda>m. ent_TextValid m \<or> ent_Text m = []) (decodeEntitlementMetadata data)"
    unfolding decodeEntitlementMetadata_def
    by (auto intro!: outcome_rbind [OF entitlementTLV_outcome] outcome_rbind [OF read] display simp: read_result_def)
qed

text \<open>Encoding entitlements and extracting them again: when the values have a DER form the
  reader takes (UTF-8 without NUL, at most 32 levels, 100000 values and 8 MiB), the extracted XML
  is the compact form of exactly those values with sorted keys, and a text form is given exactly
  when no array mixes primitive types.\<close>

lemma encoded_reads_back:
  assumes enc: "EncodeEntitlements decode input = Inr (xml, der)" and dec: "decode input = Inr (Some es)"
    and ok: "entitlement_ok (PDict es)" and len: "length der \<le> maxBundlePlist"
    and depth: "ent_height (treeOf (PDict es)) \<le> 32" and number: "nodes (treeOf (PDict es)) \<le> 100000"
  shows "\<exists>m. decodeEntitlementMetadata der = Inr m \<and>
    ent_XML m = plistHeader @ compactXML (PDict es) @ str ''</plist>'' @ [10] \<and> (ent_TextValid m \<longleftrightarrow> uniform (PDict es))"
proof -
  from enc dec obtain b where b: "entitlementDER (PDict es) 0 = Inr b" and der: "der = envelope b"
    by (auto simp: EncodeEntitlements_def result_simps split: if_splits)
  have l: "length ([2, 1, 1] @ b) < 2 ^ 31" "length b < 2 ^ 31"
    using len derWrap_length [of "[2, 1, 1] @ b" "0x70"] by (simp_all add: der envelope_def maxBundlePlist_def)
  have outer: "entitlementTLV der = Inr (\<lparr>rv_tag = 0x70, rv_full = der, rv_bytes = [2, 1, 1] @ b\<rparr>, [])"
    using entitlementTLV_derWrap [OF _ l(1), of "0x70" "[]"] by (simp add: der envelope_def)
  have version: "entitlementTLV ([2, 1, 1] @ b) = Inr (\<lparr>rv_tag = 2, rv_full = [2, 1, 1], rv_bytes = [1]\<rparr>, b)"
    using entitlementTLV_derWrap [of 2 "[1]" b] by (simp add: derWrap_def derHeader_def)
  have "readEntitlementValue (b @ []) 0 0 = Inr (treeOf (PDict es), [], 0 + nodes (treeOf (PDict es)))"
    by (rule entitlement_roundtrip(1) [OF b ok l(2)]) (use depth number in simp_all)
  moreover obtain out where "writeEnt (treeOf (PDict es)) 0 = Inr (compactXML (PDict es), out, uniform (PDict es))"
    using writeEnt_compact [OF ok] by blast
  ultimately show ?thesis
    using len outer version by (simp add: decodeEntitlementMetadata_def entitlementDisplay_def del: treeOf.simps compactXML.simps uniform.simps writeEnt.simps) simp
qed

definition sampleEntitlements :: "(gostring \<times> plist) list" where
  "sampleEntitlements = [(str ''a'', PArray [PInt 5, PInt 6])]"

lemma sample_encoded:
  "EncodeEntitlements (\<lambda>_. Inr (Some sampleEntitlements)) [] =
    Inr ([], [0x70, 18, 2, 1, 1, 0xb0, 13, 0x30, 11, 12, 1, 97, 0x30, 6, 2, 1, 5, 2, 1, 6])"
  by (simp add: sampleEntitlements_def EncodeEntitlements_def entitlementDER_shallow sortedKeys_def derWrap_def derHeader_def
      int64Bytes.simps envelope_def str_def)

lemma sample_values:
  "entitlement_ok (PDict sampleEntitlements)" "uniform (PDict sampleEntitlements)"
  "ent_height (treeOf (PDict sampleEntitlements)) = 2" "nodes (treeOf (PDict sampleEntitlements)) = 5"
  by (simp_all add: sampleEntitlements_def sortedKeys_def text_ok_def utf8Valid_def primitives_def str_def runes_plain plain_def)

end
