(* ===== verification/Requirement_Set_Text.thy ===== *)
theory Requirement_Set_Text
  imports Requirement_Text
begin

text \<open>
  Requirement sets as text: requirementSetText and RequirementText of
  requirement_metadata.go, and the round trip through CompileRequirements.
\<close>

section \<open>The text of a set\<close>

definition kindNames :: "gostring list" where
  "kindNames = map str [''invalid'', ''host'', ''guest'', ''designated'', ''library'', ''plugin'']"

definition kindText :: "nat \<Rightarrow> gostring" where
  "kindText kind = (if kind < length kindNames then kindNames ! kind else str ''/*unknown type*/ '' @ formatInt (int32_of kind))"

text \<open>The error of the decoder is dropped: a nil node would panic.\<close>

fun setLines :: "(nat \<times> byte list) list \<Rightarrow> gostring result" where
  "setLines [] = Inr []"
| "setLines ((kind, data) # es) =
    (case decodeRequirement data of Inl _ \<Rightarrow> Inl Panic | Inr n \<Rightarrow>
     rbind (setLines es) (\<lambda>rest. Inr (kindText kind @ str '' => '' @ text_of n 3 @ [10] @ rest)))"

text \<open>The text, and whether the set has a designated requirement; \<open>None\<close> is nil.\<close>

definition requirementSetText :: "byte list option \<Rightarrow> (gostring \<times> bool) result" where
  "requirementSetText d =
    (case d of None \<Rightarrow> Inr ([], False) | Some data \<Rightarrow>
     if length data > 2 ^ 20 then Inl (Unsupported ''requirements set exceeds 1 MiB'') else
     if length data \<ge> 12 \<and> be32 data 8 > 64 then Inl (Unsupported ''requirements set exceeds 64 entries'') else
     rbind (validateRequirements data) (\<lambda>_.
     rbind (requirementEntries data) (\<lambda>entries.
     rbind (setLines entries) (\<lambda>out. Inr (out, \<exists>e \<in> set entries. fst e = 3)))))"

lemma setLines_decoded:
  "(\<And>k d. (k, d) \<in> set es \<Longrightarrow> \<exists>n. decodeRequirement d = Inr n) \<Longrightarrow> \<exists>out. setLines es = Inr out"
proof (induction es)
  case (Cons e es)
  obtain k d where e: "e = (k, d)" by (cases e)
  obtain n where "decodeRequirement d = Inr n" using Cons.prems [of k d] e by auto
  moreover obtain out where "setLines es = Inr out" using Cons by (metis list.set_intros(2))
  ultimately show ?case using e by simp
qed simp

section \<open>Reading a set back\<close>

definition setText :: "(nat \<times> req) list \<Rightarrow> gostring" where
  "setText es = concat (map (\<lambda>(k, n). kindText k @ str '' => '' @ text_of n 3 @ [10]) es)"

definition compiled :: "(nat \<times> req) list \<Rightarrow> (nat \<times> byte list) list" where
  "compiled es = map (\<lambda>(k, n). (k, compileNode n)) es"

lemma setLines_compiled: "\<forall>(k, n) \<in> set es. req_fits n \<Longrightarrow> setLines (compiled es) = Inr (setText es)"
  by (induction es) (auto simp: compiled_def setText_def decode_compile)

text \<open>The kinds whose printed name the parser reads: not 0, nor those printed with a sign.\<close>

definition kind_ok :: "nat \<Rightarrow> bool" where
  "kind_ok k \<longleftrightarrow> 1 \<le> k \<and> k < 2 ^ 31"

definition kindWord :: "nat \<Rightarrow> gostring" where
  "kindWord k = (if k < 6 then kindNames ! k else decimal k)"

lemma kind_cases: "1 \<le> k \<Longrightarrow> k < 6 \<Longrightarrow> k = 1 \<or> k = 2 \<or> k = 3 \<or> k = 4 \<or> k = (5 :: nat)" by auto

lemma kindWord_keyword: "1 \<le> k \<Longrightarrow> k < 6 \<Longrightarrow> keyword (kindWord k) \<and> ps_text p = kindWord k \<longrightarrow> requirementKind p = Some k"
  using kind_cases [of k] by (auto simp: kindWord_def kindNames_def requirementKind_def letters)

lemma kind_keyword: "1 \<le> k \<Longrightarrow> k < 6 \<Longrightarrow> keyword (kindWord k)"
  using kind_cases [of k] by (auto simp: kindWord_def kindNames_def letters)

lemma decimal_not_name: "decimal k \<noteq> str ''host''" "decimal k \<noteq> str ''guest''" "decimal k \<noteq> str ''designated''"
  "decimal k \<noteq> str ''library''" "decimal k \<noteq> str ''plugin''" "decimal k \<noteq> str ''and''" "decimal k \<noteq> str ''or''"
  "decimal k \<noteq> str '';''"
  using decimal_digits [of "hd (decimal k)" k] by (auto simp: str_def)

lemma plain_kindText [simp]: "kind_ok k \<Longrightarrow> plain (kindText k)"
  using kind_cases [of k] by (auto simp: kindText_def kindNames_def kind_ok_def formatInt_def str_def)

lemma pstart_kind:
  assumes "kind_ok k" "stops t" "plain t"
  shows "\<exists>q. pstart U m (kindText k @ t) = shows_token q (kindWord k) t m \<and> q \<noteq> TEOF \<and>
    requirementKind (shows_token q (kindWord k) t m) = Some k"
proof (cases "k < 6")
  case True
  then have "kindText k = kindWord k" by (simp add: kindText_def kindWord_def kindNames_def)
  then show ?thesis using assms True kind_keyword [of k] kindWord_keyword [of k] by (auto simp: pstart_keyword kind_ok_def)
next
  case False
  then have "kindText k @ t = 47 # 42 # str ''unknown type'' @ 42 # 47 # 32 # decimal k @ t"
    using assms(1) by (simp add: kindText_def kindNames_def kind_ok_def formatInt_def int32_of_def str_def)
  moreover have "plain (str ''unknown type'' @ 32 # decimal k @ t)" "42 \<notin> set (str ''unknown type'')"
    using assms(3) by (simp_all add: str_def)
  ultimately have "pstart U m (kindText k @ t) = shows_token TInt (decimal k) t m"
    using assms pstart_comment [of "str ''unknown type''" "32 # decimal k @ t" U m] by (simp add: pstart_decimal)
  then show ?thesis using False assms(1) by (simp add: kindWord_def requirementKind_def decimal_not_name kind_ok_def)
qed

lemma kindWord_operators: "kind_ok k \<Longrightarrow> kindWord k \<notin> {str ''and'', str ''or'', str '';''}"
  using kind_cases [of k] decimal_not_name [of k] by (auto simp: kindWord_def kindNames_def kind_ok_def str_def)

text \<open>The entries of a set whose text reads back.\<close>

definition entry_reads :: "nat \<times> req \<Rightarrow> bool" where
  "entry_reads e \<longleftrightarrow> kind_ok (fst e) \<and> fits (snd e) 2 1 0"

lemma setText_simps [simp]:
  "setText [] = []" "setText ((k, n) # es) = kindText k @ str '' => '' @ text_of n 3 @ 10 # setText es"
  by (simp_all add: setText_def)

lemma plain_setText: "\<forall>e \<in> set es. entry_reads e \<Longrightarrow> plain (setText es)"
  by (induction es) (auto simp: entry_reads_def fits_def plain_text_of str_def)

lemma arrow: "str '' => '' @ x = 32 # 61 # 62 # 32 # x" by (simp add: str_def)

lemma pstart_newline [simp]: "plain t \<Longrightarrow> pstart U n (10 # t) = pstart U n t"
  by (rule pstart_blank) (simp_all add: blank_def)

text \<open>What stands after an entry ends it.\<close>

lemma after_entry:
  assumes "\<forall>e \<in> set es. entry_reads e"
  shows "ends_and U (10 # setText es)" "ps_text (pstart U k (10 # setText es)) \<notin> {str ''or'', str '';''}"
    "\<not> sc_err (ps_scan (pstart U k (10 # setText es)))"
proof -
  have pl: "plain (setText es)" by (rule plain_setText [OF assms])
  have "ps_text (pstart U m (setText es)) \<notin> {str ''and'', str ''or'', str '';''} \<and> endsField (pstart U m (setText es)) \<and>
      \<not> sc_err (ps_scan (pstart U m (setText es)))" for m
  proof (cases es)
    case Nil
    then show ?thesis by (simp add: endsField_def) (simp add: str_def)
  next
    case (Cons e es')
    obtain kd n where e: "e = (kd, n)" by (cases e)
    let ?t = "str '' => '' @ text_of n 3 @ 10 # setText es'"
    have kd: "kind_ok kd" using assms Cons e by (simp add: entry_reads_def)
    have "plain ?t" using pl Cons e by simp
    moreover have "stops ?t" by (simp add: arrow)
    ultimately obtain q where "pstart U m (kindText kd @ ?t) = shows_token q (kindWord kd) ?t m"
        "requirementKind (shows_token q (kindWord kd) ?t m) = Some kd"
      using pstart_kind [OF kd] by blast
    then show ?thesis using Cons e kindWord_operators [OF kd] by (simp add: endsField_def)
  qed
  with pl show "ends_and U (10 # setText es)" "ps_text (pstart U k (10 # setText es)) \<notin> {str ''or'', str '';''}"
    "\<not> sc_err (ps_scan (pstart U k (10 # setText es)))"
    by (simp_all add: ends_and_def follow_def)
qed

lemma nextP_clean: "ps_scan p = clean t \<Longrightarrow> nextP U p = pstart U (ps_nodes p) t"
  by (cases p) (simp add: nextP_def pstart_def split: prod.split)

lemma entryLoop_text:
  "\<forall>e \<in> set es. entry_reads e \<Longrightarrow> i + length es \<le> 64 \<Longrightarrow> distinct (map fst acc @ map fst es) \<Longrightarrow>
    entryLoop U i acc (pstart U m (setText es)) = Inr (acc @ compiled (map (apsnd canon) es))"
proof (induction es arbitrary: i acc m)
  case Nil
  then show ?case by (simp add: entryLoop.simps compiled_def)
next
  case (Cons e es)
  obtain k n where e: "e = (k, n)" by (cases e)
  from Cons.prems(1) e have k: "kind_ok k" and n: "fits n 2 1 0" and es: "\<forall>e \<in> set es. entry_reads e"
    by (simp_all add: entry_reads_def)
  let ?rest = "10 # setText es"
  let ?t = "str '' => '' @ text_of n 3 @ ?rest"
  have pl: "plain (text_of n 2 @ ?rest)" using n es plain_setText plain_text_of by (simp add: fits_def)
  then have t: "plain ?t" "stops ?t" by (simp_all add: arrow text_level)
  from pstart_kind [OF k t(2,1)] obtain q where q: "pstart U m (kindText k @ ?t) = shows_token q (kindWord k) ?t m" "q \<noteq> TEOF"
    "requirementKind (shows_token q (kindWord k) ?t m) = Some k" by blast
  have eq: "pstart U m ?t = shows_token (TChar 61) [61] (62 # 32 # text_of n 2 @ ?rest) m"
    using pl by (simp add: arrow text_level pstart_char)
  let ?p = "shows_token (TChar 61) [61] (62 # 32 # text_of n 2 @ ?rest) m"
  have go: "nextP U (?p\<lparr>ps_scan := clean (32 # text_of n 2 @ ?rest)\<rparr>) = pstart U m (text_of n 2 @ ?rest)"
    using pl by (subst nextP_clean [of _ "32 # text_of n 2 @ ?rest"]) (simp_all add: shows_token_def)
  have el: "element U (pstart U m (text_of n 2 @ ?rest)) = Inr (canon n, pstart U (atoms_of n 2) ?rest)"
    by (rule element_printed [OF n after_entry(1) [OF es]]) (use after_entry(2,3) [OF es] in blast)+
  have up: "AList.update k (compileNode (canon n)) acc = acc @ [(k, compileNode (canon n))]"
  proof -
    have "k \<notin> fst ` set acc" using Cons.prems(3) e by auto
    then show ?thesis by (induction acc) auto
  qed
  have "i < 64" "str ''='' = [61]" using Cons.prems(2) by (simp_all add: str_def)
  then have "entryLoop U i acc (pstart U m (setText (e # es))) =
      entryLoop U (i + 1) (AList.update k (compileNode (canon n)) acc) (pstart U (atoms_of n 2) ?rest)"
    using q pl unfolding e setText_simps
    by (subst entryLoop.simps) (simp add: eq go el Let_def)
  also have "\<dots> = Inr ((acc @ [(k, compileNode (canon n))]) @ compiled (map (apsnd canon) es))"
    unfolding up using Cons.prems es plain_setText [OF es] by (subst pstart_newline; (intro Cons.IH)?) (simp_all add: e)
  finally show ?case by (simp add: e compiled_def)
qed

lemma compile_setText:
  assumes es: "\<forall>e \<in> set es. entry_reads e" and b: "es \<noteq> []" "length es \<le> 64" "distinct (map fst es)" "length (setText es) \<le> 2 ^ 20"
  shows "CompileRequirements U (setText es) = Inr (requirementSetBytes (compiled (map (apsnd canon) es)))"
proof -
  obtain k n es' where e: "es = (k, n) # es'" using b(1) by (cases es) auto
  let ?t = "str '' => '' @ text_of n 3 @ 10 # setText es'"
  have pl: "plain (setText es)" by (rule plain_setText [OF es])
  then have t: "plain ?t" "stops ?t" using e by (simp_all add: arrow)
  have "kind_ok k" using es e by (simp add: entry_reads_def)
  from pstart_kind [OF this t(2,1)] obtain q where "pstart U 0 (kindText k @ ?t) = shows_token q (kindWord k) ?t 0"
    "requirementKind (shows_token q (kindWord k) ?t 0) = Some k" by blast
  then have "requirementKind (pstart U 0 (setText es)) = Some k" by (simp add: e)
  moreover have "entryLoop U 0 [] (pstart U 0 (setText es)) = Inr ([] @ compiled (map (apsnd canon) es))"
    by (rule entryLoop_text) (use es b in simp_all)
  ultimately show ?thesis using newRequirementParser_plain [OF pl b(4)] by (simp add: CompileRequirements_def)
qed

end
