(* ===== verification/Requirement_Results.thy ===== *)
theory Requirement_Results
  imports Requirement_Set_Text
begin

text \<open>
  What the requirement parser returns on any source: no panic, no loop without progress, and
  only expressions of the grammar's shape, within the limit on atoms.
\<close>

section \<open>The shape of a parsed expression\<close>

primrec parsed :: "req \<Rightarrow> bool" where
  "parsed ReqNever = True"
| "parsed ReqAlways = True"
| "parsed (ReqIdentifier v) = True"
| "parsed (ReqCertificate slot v) = (slot_ok slot \<and> length v = 20)"
| "parsed (ReqAnd l r) = (parsed l \<and> parsed r)"
| "parsed (ReqOr l r) = (parsed l \<and> parsed r)"
| "parsed (ReqCDHash v) = (length v = 20)"
| "parsed (ReqNot l) = parsed l"
| "parsed (ReqSubject slot f v) = (slot_ok slot \<and> f \<in> set subjectFields)"
| "parsed (ReqExtension slot f) = (slot_ok slot \<and> (\<exists>oid. (\<forall>a \<in> set oid. 0 \<le> a) \<and> marshalOID oid = Some f))"
| "parsed ReqAnchor = True"

text \<open>The nodes the parser counts: leaves and negations.\<close>

primrec tally :: "req \<Rightarrow> nat" where
  "tally ReqNever = 1"
| "tally ReqAlways = 1"
| "tally (ReqIdentifier v) = 1"
| "tally (ReqCertificate slot v) = 1"
| "tally (ReqAnd l r) = tally l + tally r"
| "tally (ReqOr l r) = tally l + tally r"
| "tally (ReqCDHash v) = 1"
| "tally (ReqNot l) = 1 + tally l"
| "tally (ReqSubject slot f v) = 1"
| "tally (ReqExtension slot f) = 1"
| "tally ReqAnchor = 1"

section \<open>Progress\<close>

text \<open>At the end of the source there is neither token text nor anything left to scan.\<close>

definition eof_ok :: "parser \<Rightarrow> bool" where
  "eof_ok p \<longleftrightarrow> (ps_token p = TEOF \<longrightarrow> ps_text p = [] \<and> sc_rest (ps_scan p) = [])"

text \<open>\<open>p'\<close> is a state at or after \<open>p\<close>, with no atom between them.\<close>

definition later :: "parser \<Rightarrow> parser \<Rightarrow> bool" where
  "later p p' \<longleftrightarrow> eof_ok p' \<and> remaining p' \<le> remaining p \<and> ps_nodes p' = ps_nodes p"

lemma nextP_eof_ok: "eof_ok (nextP U p)"
  using scanSkip_rest [of U "ps_scan p"] by (auto simp: eof_ok_def nextP_def split: prod.splits)

lemma nextP_later: "eof_ok p \<Longrightarrow> later p (nextP U p)"
proof -
  assume e: "eof_ok p"
  have "remaining (nextP U p) \<le> remaining p"
  proof (cases "ps_token p = TEOF")
    case True
    with e nextP_remaining [of U p] show ?thesis by (simp add: eof_ok_def)
  next
    case False
    from nextP_less [OF this, of U] show ?thesis by simp
  qed
  moreover have "ps_nodes (nextP U p) = ps_nodes p" by (simp add: nextP_def split: prod.split)
  ultimately show ?thesis using nextP_eof_ok by (simp add: later_def)
qed

lemma later_eof: "later p p' \<Longrightarrow> eof_ok p'" by (simp add: later_def)

lemma later_trans: "later p p' \<Longrightarrow> later p' p'' \<Longrightarrow> later p p''" by (simp add: later_def)

lemma later_next: "later p p' \<Longrightarrow> later p (nextP U p')"
  using later_trans nextP_later later_eof by blast

lemma later_refl: "eof_ok p \<Longrightarrow> later p p" by (simp add: later_def)

section \<open>Operands\<close>

lemma stringValue_outcome: "later q p \<Longrightarrow> outcome (\<lambda>(v, p'). later q p') (stringValue U p)"
  by (auto simp: stringValue_def Let_def later_next outcome_Plain split: option.split)

lemma fieldText_later: "later q p \<Longrightarrow> later q (snd (fieldText U acc p))"
proof (induction U acc p rule: fieldText.induct)
  case (1 U acc p)
  then show ?case by (subst fieldText.simps) (simp add: later_next)
qed

lemma parseArcs_nonneg: "parseArcs ps = Some oid \<Longrightarrow> \<forall>a \<in> set oid. 0 \<le> a"
  by (induction ps arbitrary: oid) (auto split: option.splits if_splits)

lemma certificateField_outcome:
  assumes "later q p" "slot_ok slot"
  shows "outcome (\<lambda>(n, p'). later q p' \<and> parsed n \<and> tally n = Suc 0) (certificateField U slot p)"
proof -
  obtain field p1 where f: "fieldText U [] (nextP U p) = (field, p1)" by (cases "fieldText U [] (nextP U p)")
  have "later q (snd (fieldText U [] (nextP U p)))" by (intro fieldText_later later_next assms)
  with f have l: "later q (nextP U p1)" by (simp add: later_next)
  have "outcome (\<lambda>(n, p'). later q p' \<and> parsed n \<and> tally n = Suc 0)
      (rbind (stringValue U (nextP U (nextP U p1))) (\<lambda>(v, p). Inr (ReqSubject slot field v, p)))" if "field \<in> set subjectFields"
    by (rule outcome_rbind [OF stringValue_outcome [OF later_next [OF l]]]) (use that assms in auto)
  then show ?thesis
    using assms(2) l later_next [OF l]
    by (auto simp: certificateField_def f Let_def split: option.split dest: parseArcs_nonneg)
qed

lemma certificateIndex_outcome: "outcome slot_ok (certificateIndex s)"
  by (auto simp: certificateIndex_def slot_ok_def split: option.split)

lemma certificateAtom_outcome:
  assumes l: "later q p"
  shows "outcome (\<lambda>(n, p'). later q p' \<and> parsed n \<and> tally n = Suc 0) (certificateAtom U p)"
  unfolding certificateAtom_def
  by (rule outcome_rbind [OF certificateIndex_outcome])
    (use l in \<open>auto simp: Let_def later_next outcome_Plain certificateField_outcome split: option.split\<close>)

lemma cdhashAtom_outcome:
  assumes l: "later q p"
  shows "outcome (\<lambda>(n, p'). later q p' \<and> parsed n \<and> tally n = Suc 0) (cdhashAtom U p)"
proof -
  have "outcome (\<lambda>(n, p'). later q p' \<and> parsed n \<and> tally n = Suc 0)
      (rbind (stringValue U (nextP U p)) (\<lambda>(value, p).
       case hexDecode value of None \<Rightarrow> Inl (Plain ''requirement: CDHash must contain 40 hexadecimal digits'') | Some h \<Rightarrow>
       if length h \<noteq> 20 then Inl (Plain ''requirement: CDHash must contain 40 hexadecimal digits'') else Inr (ReqCDHash h, p)))"
    by (rule outcome_rbind [OF stringValue_outcome [OF later_next [OF l]]]) (auto simp: outcome_Plain split: option.split)
  then show ?thesis by (simp add: cdhashAtom_def Let_def outcome_Plain)
qed

lemma anchorAtom_outcome: "later q p \<Longrightarrow> outcome (\<lambda>(n, p'). later q p' \<and> parsed n \<and> tally n = Suc 0) (anchorAtom U p)"
  by (simp add: anchorAtom_def Let_def later_next)

section \<open>Expressions\<close>

text \<open>What an operand parser guarantees of its result and of the atoms it counts.\<close>

definition grown :: "parser \<Rightarrow> req \<times> parser \<Rightarrow> bool" where
  "grown p r \<longleftrightarrow> (case r of (n, p') \<Rightarrow> eof_ok p' \<and> remaining p' \<le> remaining p \<and> parsed n \<and>
     ps_nodes p + tally n \<le> ps_nodes p' \<and> ps_nodes p' \<le> 4096)"

definition operand :: "(parser \<Rightarrow> (req \<times> parser) result) \<Rightarrow> bool" where
  "operand f \<longleftrightarrow> (\<forall>p. eof_ok p \<longrightarrow> outcome (grown p) (f p))"

lemma chainLoop_outcome:
  assumes f: "operand f" and kw: "kw \<noteq> []" and node: "\<And>l r. parsed (node l r) = (parsed l \<and> parsed r)" "\<And>l r. tally (node l r) = tally l + tally r"
  shows "grown p0 (n, p) \<Longrightarrow> outcome (grown p0) (chainLoop U kw node f n p)"
proof (induction "remaining p" arbitrary: n p rule: less_induct)
  case less
  show ?case
  proof (cases "ps_text p = kw")
    case False
    then show ?thesis using less.prems by (subst chainLoop.simps) simp
  next
    case True
    have e: "eof_ok p" using less.prems by (simp add: grown_def)
    then have "ps_token p \<noteq> TEOF" using True kw by (auto simp: eof_ok_def)
    from nextP_less [OF this, of U] have r: "remaining (nextP U p) < remaining p" .
    have l: "later p (nextP U p)" by (rule nextP_later [OF e])
    have "outcome (grown (nextP U p)) (f (nextP U p))" using f l by (simp add: operand_def later_eof)
    then have "outcome (grown p0) (rbind (f (nextP U p)) (\<lambda>(m, p').
        if remaining p' < remaining p then chainLoop U kw node f (node n m) p' else Inl OutOfFuel))"
    proof (rule outcome_rbind)
      fix v assume v: "grown (nextP U p) v"
      obtain m p' where m: "v = (m, p')" by (cases v)
      from v m r have lt: "remaining p' < remaining p" by (simp add: grown_def)
      have "grown p0 (node n m, p')" using v m less.prems l by (simp add: grown_def later_def node)
      from less.hyps [OF lt this] lt m show "outcome (grown p0) (case v of (m, p') \<Rightarrow>
          if remaining p' < remaining p then chainLoop U kw node f (node n m) p' else Inl OutOfFuel)" by simp
    qed
    then show ?thesis using True by (subst chainLoop.simps) simp
  qed
qed

lemma conjunction_operand: "operand f \<Longrightarrow> operand (conjunction U f)"
  unfolding operand_def [of "conjunction U f"] conjunction_def
proof (intro allI impI)
  fix p assume f: "operand f" and p: "eof_ok p"
  then have "outcome (grown p) (f p)" by (simp add: operand_def)
  then show "outcome (grown p) (rbind (f p) (\<lambda>(n, p). chainLoop U (str ''and'') ReqAnd f n p))"
    by (rule outcome_rbind) (use chainLoop_outcome [OF f, of "str ''and''" ReqAnd p] in \<open>auto simp: str_def\<close>)
qed

lemma expression_operand: "(depth + 1 \<le> 128 \<Longrightarrow> operand f) \<Longrightarrow> operand (expression U f depth)"
proof (cases "depth + 1 > 128")
  case True
  then show ?thesis by (simp add: operand_def expression_def)
next
  case False
  assume "depth + 1 \<le> 128 \<Longrightarrow> operand f"
  with False have c: "operand (conjunction U f)" by (simp add: conjunction_operand)
  show ?thesis
    unfolding operand_def expression_def
  proof (intro allI impI)
    fix p assume p: "eof_ok p"
    with c have "outcome (grown p) (conjunction U f p)" by (simp add: operand_def)
    then have "outcome (grown p) (rbind (conjunction U f p) (\<lambda>(n, p). chainLoop U (str ''or'') ReqOr (conjunction U f) n p))"
      by (rule outcome_rbind) (use chainLoop_outcome [OF c, of "str ''or''" ReqOr p] in \<open>auto simp: str_def\<close>)
    with False show "outcome (grown p) (if depth + 1 > 128 then Inl (Malformed ''requirement nesting limit'')
        else rbind (conjunction U f p) (\<lambda>(n, p). chainLoop U (str ''or'') ReqOr (conjunction U f) n p))" by simp
  qed
qed

text \<open>The operators that an atom begins with count it, and its operand is deeper.\<close>

lemma atom_prefix:
  assumes f: "operand f" and l: "eof_ok p1" "remaining p1 \<le> remaining p" "ps_nodes p1 = ps_nodes p + 1"
    and k: "\<And>n p'. grown p1 (n, p') \<Longrightarrow> outcome (grown p) (k (n, p'))"
  shows "outcome (grown p) (rbind (f p1) k)"
proof (rule outcome_rbind)
  show "outcome (grown p1) (f p1)" using f l by (simp add: operand_def)
  fix v assume "grown p1 v"
  then show "outcome (grown p) (k v)" using k by (cases v) simp
qed

lemma remaining_nodes [simp]: "remaining (p\<lparr>ps_nodes := k\<rparr>) = remaining p"
  by (cases "ps_token p = TEOF") (simp_all add: remaining_def)

lemma atom_operand: "operand (atom U depth)"
proof (induction "129 - depth" arbitrary: depth rule: less_induct)
  case less
  show ?case
    unfolding operand_def
  proof (intro allI impI)
    fix p assume p: "eof_ok p"
    let ?p = "nextP U (p\<lparr>ps_nodes := ps_nodes p + 1\<rparr>)"
    show "outcome (grown p) (atom U depth p)"
    proof (cases "ps_nodes p + 1 > 4096 \<or> depth + 1 > 128")
      case True
      then show ?thesis by (subst atom.simps) auto
    next
      case False
      have "eof_ok (p\<lparr>ps_nodes := ps_nodes p + 1\<rparr>)" using p by (simp add: eof_ok_def)
      from nextP_later [OF this, of U] have l: "eof_ok ?p" "remaining ?p \<le> remaining p" "ps_nodes ?p = ps_nodes p + 1"
        by (simp_all add: later_def)
      have leaf: "outcome (grown p) r" if "outcome (\<lambda>(n, p'). later ?p p' \<and> parsed n \<and> tally n = Suc 0) r" for r
        by (rule outcome_mono [OF that]) (use l False in \<open>auto simp: grown_def later_def\<close>)
      have here: "outcome (grown p) (Inr (n, ?p))" if "parsed n" "tally n = Suc 0" for n
        using that l False by (simp add: grown_def)
      have word: "outcome (grown p) (rbind (stringValue U ?p) (\<lambda>(v, p). Inr (ReqIdentifier v, p)))"
        by (rule leaf, rule outcome_rbind [OF stringValue_outcome [OF later_refl [OF l(1)]]]) auto
      have neg: "outcome (grown p) (rbind (atom U (depth + 1) ?p) (\<lambda>(n, p). Inr (ReqNot n, p)))"
        by (rule atom_prefix [OF less l]) (use False l in \<open>auto simp: grown_def\<close>)
      have "operand (expression U (atom U (depth + 2)) (depth + 1))"
        by (rule expression_operand) (use less [of "depth + 2"] False in simp)
      then have paren: "outcome (grown p) (rbind (expression U (atom U (depth + 2)) (depth + 1) ?p) (\<lambda>(n, p).
          if ps_text p \<noteq> str '')'' then Inl (Plain ''requirement: expected closing parenthesis'') else Inr (n, nextP U p)))"
      proof (rule atom_prefix [OF _ l])
        fix n p' assume g: "grown ?p (n, p')"
        then have "later p' (nextP U p')" by (simp add: grown_def nextP_later)
        with g l have "grown p (n, nextP U p')" by (simp add: grown_def later_def)
        then show "outcome (grown p) (case (n, p') of (n, p) \<Rightarrow>
          if ps_text p \<noteq> str '')'' then Inl (Plain ''requirement: expected closing parenthesis'') else Inr (n, nextP U p))"
          by (simp add: outcome_Plain)
      qed
      note atoms = leaf [OF anchorAtom_outcome [OF later_refl [OF l(1)]]] leaf [OF cdhashAtom_outcome [OF later_refl [OF l(1)]]]
        leaf [OF certificateAtom_outcome [OF later_refl [OF l(1)]]] here [of ReqAlways] here [of ReqNever] word neg paren
      from False have g: "\<not> ps_nodes p + 1 > 4096" "\<not> depth + 1 > 128" by simp_all
      show ?thesis
        unfolding atom.simps [of U depth p] if_not_P [OF g(1)] if_not_P [OF g(2)] Let_def
        using atoms by (simp only: split: if_split) simp
    qed
  qed
qed

section \<open>Whole sources\<close>

lemma semicolons_later: "later q p \<Longrightarrow> later q (semicolons U p)"
proof (induction U p rule: semicolons.induct)
  case (1 U p)
  then show ?case by (subst semicolons.simps) (simp add: later_next)
qed

definition element_result :: "req \<times> parser \<Rightarrow> bool" where
  "element_result r \<longleftrightarrow> (case r of (n, p) \<Rightarrow> parsed n \<and> tally n \<le> 4096 \<and> eof_ok p)"

lemma element_outcome: "eof_ok p \<Longrightarrow> outcome element_result (element U p)"
  unfolding element_def
proof (rule outcome_rbind)
  assume "eof_ok p"
  then show "outcome (grown (p\<lparr>ps_nodes := 0\<rparr>)) (expression U (atom U 1) 0 (p\<lparr>ps_nodes := 0\<rparr>))"
    using expression_operand [OF atom_operand, where depth = 0 and U = U] by (simp add: operand_def eof_ok_def)
  fix v assume v: "grown (p\<lparr>ps_nodes := 0\<rparr>) v"
  obtain n p' where n: "v = (n, p')" by (cases v)
  with v have "later p' (semicolons U p')" by (intro semicolons_later later_refl) (simp add: grown_def)
  with v n show "outcome element_result (case v of (n, p) \<Rightarrow> let p = semicolons U p in
      if sc_err (ps_scan p) then Inl (Plain ''requirement'') else Inr (n, p))"
    by (simp add: Let_def outcome_Plain element_result_def grown_def later_def)
qed

lemma newRequirementParser_outcome: "outcome eof_ok (newRequirementParser U src)"
by (simp add: newRequirementParser_def nextP_eof_ok)

lemma parseRequirement_outcome: "outcome (\<lambda>n. parsed n \<and> tally n \<le> 4096) (parseRequirement U src)"
  unfolding parseRequirement_def
  by (rule outcome_rbind [OF newRequirementParser_outcome], rule outcome_rbind [OF element_outcome])
    (auto simp: element_result_def outcome_Plain)

lemma entryLoop_outcome: "eof_ok p \<Longrightarrow> outcome (\<lambda>_. True) (entryLoop U n entries p)"
proof (induction "64 - n" arbitrary: n entries p rule: less_induct)
  case less
  show ?case
  proof (cases "ps_token p = TEOF \<or> n \<ge> 64 \<or> requirementKind p = None")
    case True
    then show ?thesis by (subst entryLoop.simps) auto
  next
    case False
    then obtain kind where kind: "requirementKind p = Some kind" "ps_token p \<noteq> TEOF" "\<not> n \<ge> 64" by auto
    let ?p = "nextP U p"
    have "outcome (\<lambda>_. True) (rbind (element U (nextP U (?p\<lparr>ps_scan := adv (ps_scan ?p)\<rparr>))) (\<lambda>(r, p).
        entryLoop U (n + 1) (AList.update kind (compileNode r) entries) p))"
      by (rule outcome_rbind [OF element_outcome [OF nextP_eof_ok]]) (use less.hyps kind in \<open>auto simp: element_result_def\<close>)
    with kind show ?thesis by (subst entryLoop.simps) (simp add: Let_def)
  qed
qed

lemma CompileRequirement_outcome: "outcome (\<lambda>_. True) (CompileRequirement U src)"
  unfolding CompileRequirement_def by (rule outcome_rbind [OF parseRequirement_outcome]) simp

lemma CompileRequirements_outcome: "outcome (\<lambda>_. True) (CompileRequirements U src)"
  unfolding CompileRequirements_def
proof (rule outcome_rbind [OF newRequirementParser_outcome])
  fix p assume p: "eof_ok p"
  have "outcome (\<lambda>_. True) (rbind (CompileRequirement U src) (\<lambda>req. Inr (requirementSetBytes [(3, req)])))"
    by (rule outcome_rbind [OF CompileRequirement_outcome]) simp
  moreover have "outcome (\<lambda>_. True) (rbind (entryLoop U 0 [] p) (\<lambda>entries. Inr (requirementSetBytes entries)))"
    by (rule outcome_rbind [OF entryLoop_outcome [OF p]]) simp
  ultimately show "outcome (\<lambda>_. True) (if requirementKind p = None then rbind (CompileRequirement U src) (\<lambda>req. Inr (requirementSetBytes [(3, req)]))
      else rbind (entryLoop U 0 [] p) (\<lambda>entries. Inr (requirementSetBytes entries)))" by simp
qed

section \<open>Long chains\<close>

text \<open>\<open>always and always and \<dots>\<close>, grouped to the left as the parser does.\<close>

primrec leftChain :: "nat \<Rightarrow> req" where
  "leftChain 0 = ReqAlways"
| "leftChain (Suc m) = ReqAnd (leftChain m) ReqAlways"

lemma leftChain_parts:
  "canon (leftChain m) = leftChain m" "req_ok (leftChain m)" "strings_ok (leftChain m)" "nesting (leftChain m) (Suc l) = 1"
  "atoms_of (leftChain m) (Suc l) = Suc m" "length (wordsOf (leftChain m)) = 8 * m + 4"
  "length (text_of (leftChain m) (Suc l)) = 11 * m + 6"
  by (induction m arbitrary: l) (simp_all add: parens_def str_def)

lemma readReq_chain:
  "depth + m > 128 \<Longrightarrow> pos = length pre \<Longrightarrow>
    readReq (pre @ wordsOf (leftChain m) @ post) depth (pos, nodes) = Inl (Malformed ''requirement expression limit'')"
proof (induction m arbitrary: depth pre pos post nodes)
  case 0
  then show ?case by (subst readReq.simps) simp
next
  case (Suc m)
  show ?case
  proof (cases "depth > 128 \<or> nodes + 1 > 4096")
    case True
    then show ?thesis by (subst readReq.simps) simp
  next
    case False
    let ?data = "pre @ wordsOf (leftChain (Suc m)) @ post"
    have "readReq ((pre @ put32 6) @ wordsOf (leftChain m) @ (put32 1 @ post)) (depth + 1) (pos + 4, nodes + 1) =
        Inl (Malformed ''requirement expression limit'')"
      by (rule Suc.IH) (use Suc.prems in simp_all)
    then have r: "readReq ?data (depth + 1) (pos + 4, nodes + 1) = Inl (Malformed ''requirement expression limit'')" by simp
    have "rd32 ?data pos = Inr 6" using rd32_at [of pos pre 6] Suc.prems by simp
    then show ?thesis using False r Suc.prems by (subst readReq.simps) simp
  qed
qed

lemma chain_rejected:
  assumes "129 \<le> m" "m \<le> 4095"
  shows "decodeRequirement (compileNode (leftChain m)) = Inl (Malformed ''requirement expression limit'')"
proof -
  let ?h = "put32 MagicRequirement @ put32 (12 + length (wordsOf (leftChain m))) @ put32 1"
  have "readReq (?h @ wordsOf (leftChain m) @ []) 0 (12, 0) = Inl (Malformed ''requirement expression limit'')"
    by (rule readReq_chain) (use assms in simp_all)
  then have "readReq (compileNode (leftChain m)) 0 (12, 0) = Inl (Malformed ''requirement expression limit'')"
    by (simp add: compileNode_words blob_def)
  then show ?thesis
    using compileNode_header [of "leftChain m"] assms by (simp add: decodeRequirement_def leftChain_parts)
qed

lemma chain_compiles:
  assumes "m \<le> 4095"
  shows "CompileRequirement U (text_of (leftChain m) 3) = Inr (compileNode (leftChain m))"
proof -
  have "fits (leftChain m) 2 1 0" using assms leftChain_parts(2,3) [of m] leftChain_parts(4,5) [of m 1] by (simp add: fits_def numeral_2_eq_2)
  moreover have "length (text_of (leftChain m) 3) = 11 * m + 6" using leftChain_parts(7) [of m 2] by simp
  then have "length (text_of (leftChain m) 3) \<le> 2 ^ 20" using assms by simp
  ultimately show ?thesis by (simp add: CompileRequirement_def parse_printed leftChain_parts)
qed

section \<open>A set through its text\<close>

lemma compiled_ok:
  assumes es: "\<forall>(k, n) \<in> set es. kind_ok k \<and> req_fits n" and d: "sorted (map fst es)" "distinct (map fst es)"
    and l: "length (requirementSetBytes (compiled es)) < 2 ^ 32"
  shows "entries_ok (compiled es)" "sort_key fst (compiled es) = compiled es"
proof -
  have m: "map fst (compiled es) = map fst es" by (simp add: compiled_def case_prod_unfold comp_def)
  show "entries_ok (compiled es)"
    unfolding entries_ok_def m using es d l by (auto simp: compiled_def kind_ok_def decode_compile)
  show "sort_key fst (compiled es) = compiled es" by (rule sort_key_id_if_sorted) (simp add: m d)
qed

lemma extract_and_recompile:
  assumes es: "\<forall>(k, n) \<in> set es. kind_ok k \<and> req_fits n \<and> fits n 2 1 0"
    and b: "es \<noteq> []" "length es \<le> 64" "sorted (map fst es)" "distinct (map fst es)"
      "length (requirementSetBytes (compiled es)) \<le> 2 ^ 20" "length (setText es) \<le> 2 ^ 20"
  shows "requirementSetText (Some (requirementSetBytes (compiled es))) = Inr (setText es, 3 \<in> fst ` set es) \<and>
    CompileRequirements U (setText es) = Inr (requirementSetBytes (compiled (map (apsnd canon) es)))"
proof -
  let ?b = "requirementSetBytes (compiled es)"
  have ok: "entries_ok (compiled es)" "sort_key fst (compiled es) = compiled es"
    by (rule compiled_ok; use es b in fastforce)+
  have n: "be32 ?b 8 = length es"
    using written_count [OF ok(1)] by (simp add: blobsOf_def compiled_def)
  have k: "(\<exists>e \<in> set (compiled es). fst e = 3) \<longleftrightarrow> 3 \<in> fst ` set es" by (force simp: compiled_def)
  have "requirementSetText (Some ?b) = Inr (setText es, 3 \<in> fst ` set es)"
    unfolding requirementSetText_def option.case
    using b(2,5) es n k setLines_compiled [of es] written_entries [OF ok(1)] written_set_wf [OF ok(1)]
    by (auto simp: validateRequirements_iff [symmetric] ok(2) split: prod.splits)
  moreover have reads: "\<forall>e \<in> set es. entry_reads e" using es by (auto simp: entry_reads_def)
  ultimately show ?thesis using compile_setText [OF reads b(1,2,4,6), of U] by simp
qed

section \<open>Properties\<close>

text \<open>
  C28. The parser ends on every source without a panic and without a loop that stops
  advancing, and whatever expression it returns has the grammar's shape: certificate indices
  from -1 to 31, 20-byte hashes, known subject fields, object identifiers that were
  marshalled, and at most 4096 leaves and negations.
\<close>

theorem parseRequirement_typed: "outcome (\<lambda>n. parsed n \<and> tally n \<le> 4096) (parseRequirement U src)"
  by (rule parseRequirement_outcome)

text \<open>
  C27. Printing an expression and parsing the text returns the expression with its chains of
  one operator grouped to the left, which evaluates alike on every directory; provided that
  its strings can be printed, and the text has at most 4096 atoms, nesting 127 and 1 MiB.
\<close>

theorem parse_text:
  assumes "fits n 2 1 0" "length (text_of n 3) \<le> 2 ^ 20"
  shows "parseRequirement U (text_of n 3) = Inr (canon n) \<and> (\<forall>H d. matches H (canon n) d = matches H n d)"
  using parse_printed [OF assms] by (simp add: matches_canon)

definition sampleText :: req where
  "sampleText = ReqOr (ReqAnd (ReqIdentifier (str ''a.b'')) (ReqAnd ReqAnchor (ReqSubject (-1) (str ''subject.OU'') (str ''TEAM''))))
     (ReqNot (ReqOr (ReqCertificate 2 (replicate 20 0)) ReqNever))"

lemma sampleText_fits: "fits sampleText 2 1 0" "length (text_of sampleText 3) \<le> 2 ^ 20"
  by (simp_all add: sampleText_def fits_def slot_ok_def subjectFields_def string_ok_def simpleRequirementString_def str_def
    alphanumeric_def asciiLetter_def isDecimal_def unprintable_def requirementKeywords_def
    parens_def certText_def formatInt_def decimal.simps requirementString_def hexEncode_def hexdigit_def quoteByte_def length_concat sum_list_replicate)

theorem parse_text_witness:
  "parseRequirement \<lparr>uni_letter = \<lambda>_. False, uni_digit = \<lambda>_. False\<rparr> (text_of sampleText 3) = Inr (canon sampleText) \<and>
    canon sampleText \<noteq> sampleText"
  using parse_text [OF sampleText_fits] by (simp add: sampleText_def)

text \<open>
  C26. Extracting a requirement set as text and compiling the text gives the set back with every
  chain of one operator grouped to the left, which evaluates alike on every directory; the bytes
  are the same when the set's chains were grouped so. It holds for sets of 1 to 64 entries with
  distinct kinds in ascending order, from 1 to 2^31 - 1 (kinds the printer names as the
  compiler reads them), of which set and text are at most 1 MiB, and whose expressions decode
  (at most 128 levels and 4096 nodes, hashes of 20 bytes, known subject fields, decodable object
  identifiers), have at most 127 nested parentheses and negations and 4096 atoms in their text,
  and strings that print without loss: alphanumeric ones of at most 255 bytes, which the printer
  would truncate, and quoted ones without a line break.
\<close>

theorem extract_recompile:
  assumes "\<forall>(k, n) \<in> set es. kind_ok k \<and> req_fits n \<and> fits n 2 1 0"
    and "es \<noteq> []" "length es \<le> 64" "sorted (map fst es)" "distinct (map fst es)"
      "length (requirementSetBytes (compiled es)) \<le> 2 ^ 20" "length (setText es) \<le> 2 ^ 20"
  shows "requirementSetText (Some (requirementSetBytes (compiled es))) = Inr (setText es, 3 \<in> fst ` set es) \<and>
    CompileRequirements U (setText es) = Inr (requirementSetBytes (compiled (map (apsnd canon) es))) \<and>
    (\<forall>(k, n) \<in> set es. \<forall>H d. matches H (canon n) d = matches H n d) \<and>
    ((\<forall>(k, n) \<in> set es. canon n = n) \<longrightarrow> CompileRequirements U (setText es) = Inr (requirementSetBytes (compiled es)))"
proof -
  have "map (apsnd canon) es = es" if "\<forall>(k, n) \<in> set es. canon n = n" using that by (induction es) auto
  with extract_and_recompile [OF assms] show ?thesis by (simp add: matches_canon case_prod_beta)
qed

definition sampleSet :: "(nat \<times> req) list" where
  "sampleSet = [(1, ReqAlways), (3, ReqAnd (ReqNot ReqNever) (ReqAnd ReqAnchor ReqAlways)), (7, ReqIdentifier [])]"

theorem extract_recompile_witness:
  "CompileRequirements \<lparr>uni_letter = \<lambda>_. False, uni_digit = \<lambda>_. False\<rparr> (setText sampleSet) =
    Inr (requirementSetBytes (compiled (map (apsnd canon) sampleSet))) \<and> map (apsnd canon) sampleSet \<noteq> sampleSet"
proof -
  have "\<forall>(k, n) \<in> set sampleSet. kind_ok k \<and> req_fits n \<and> fits n 2 1 0"
    by (simp add: sampleSet_def kind_ok_def req_fits_def fits_def string_ok_def simpleRequirementString_def
      dataWords_def padded_def)
  moreover have "length (requirementSetBytes (compiled sampleSet)) \<le> 2 ^ 20"
    by (simp add: sampleSet_def compiled_def requirementSetBytes_def superblob_def Let_def dataWords_def padded_def)
  moreover have "length (setText sampleSet) \<le> 2 ^ 20"
    by (simp add: sampleSet_def str_def kindText_def kindNames_def parens_def formatInt_def int32_of_def decimal.simps
      requirementString_def simpleRequirementString_def)
  ultimately have "CompileRequirements \<lparr>uni_letter = \<lambda>_. False, uni_digit = \<lambda>_. False\<rparr> (setText sampleSet) =
      Inr (requirementSetBytes (compiled (map (apsnd canon) sampleSet)))"
    using extract_recompile [of sampleSet] by (simp add: sampleSet_def)
  then show ?thesis by (simp add: sampleSet_def)
qed

text \<open>
  C29. The parser's loops build chains of any length within the limit on atoms, but the
  decoder counts their depth: the chain of \<open>m + 1\<close> operands compiles for every \<open>m\<close> up to
  4095, and for \<open>m\<close> from 129 on the compiled requirement is rejected by the decoder.
\<close>

theorem long_chain_undecodable:
  assumes "129 \<le> m" "m \<le> 4095"
  shows "CompileRequirement U (text_of (leftChain m) 3) = Inr (compileNode (leftChain m)) \<and>
    decodeRequirement (compileNode (leftChain m)) = Inl (Malformed ''requirement expression limit'')"
  using chain_compiles [OF assms(2)] chain_rejected [OF assms] by simp

theorem long_chain_undecodable_witness:
  "decodeRequirement (compileNode (leftChain 200)) = Inl (Malformed ''requirement expression limit'')"
  using long_chain_undecodable [of 200] by simp

end
