(* ===== verification/Default_Requirement.thy ===== *)
theory Default_Requirement
  imports Requirement_Results
begin

text \<open>
  The default designated requirement of certificate_sign.go, which is built as source text and
  compiled, and the preparation of a signing identity. The requirement that is synthesised for
  an identifier and a chain is satisfied by a directory with that identifier and chain.
\<close>

section \<open>Quoting\<close>

text \<open>strconv.Quote; \<open>P\<close> is unicode.IsPrint above Latin-1.\<close>

definition isPrint :: "(nat \<Rightarrow> bool) \<Rightarrow> nat \<Rightarrow> bool" where
  "isPrint P r \<longleftrightarrow> (if r \<le> 0xFF then 0x20 \<le> r \<and> r < 0x7F \<or> 0xA1 \<le> r \<and> r \<noteq> 0xAD else P r)"

fun hexDigits :: "nat \<Rightarrow> nat \<Rightarrow> byte list" where
  "hexDigits 0 r = []"
| "hexDigits (Suc w) r = hexDigits w (r div 16) @ [hexdigit (r mod 16)]"

definition quoteRune :: "(nat \<Rightarrow> bool) \<Rightarrow> rune \<Rightarrow> byte list" where
  "quoteRune P rb =
    (case rb of (r, bs) \<Rightarrow>
     if r = 0xFFFD \<and> length bs = 1 then [92, 120] @ hexEncode bs
     else if r = 34 \<or> r = 92 then [92, of_nat r]
     else if isPrint P r then encodeRune r
     else if r = 7 then [92, 97] else if r = 8 then [92, 98] else if r = 12 then [92, 102]
     else if r = 10 then [92, 110] else if r = 13 then [92, 114] else if r = 9 then [92, 116] else if r = 11 then [92, 118]
     else if r < 32 \<or> r = 0x7F then [92, 120] @ hexDigits 2 r
     else if r < 0x10000 then [92, 117] @ hexDigits 4 r else [92, 85] @ hexDigits 8 r)"

definition Quote :: "(nat \<Rightarrow> bool) \<Rightarrow> byte list \<Rightarrow> byte list" where
  "Quote P s = [34] @ concat (map (quoteRune P) (runes s)) @ [34]"

definition ascii_text :: "byte list \<Rightarrow> bool" where
  "ascii_text s \<longleftrightarrow> (\<forall>b \<in> set s. 32 \<le> unat b \<and> unat b \<le> 126)"

lemma Quote_ascii: "ascii_text s \<Longrightarrow> Quote P s = quoted s"
proof -
  assume a: "ascii_text s"
  then have "plain s" by (fastforce simp: ascii_text_def plain_def)
  moreover have "quoteRune P (unat b, [b]) = quoteByte b" if "32 \<le> unat b" "unat b \<le> 126" for b
    using that by (auto simp: quoteRune_def quoteByte_def isPrint_def encodeRune_def word_unat_eq_iff)
  with a have "map (\<lambda>b. quoteRune P (unat b, [b])) s = map quoteByte s" by (simp add: ascii_text_def)
  then have "concat (map (\<lambda>b. quoteRune P (unat b, [b])) s) = concat (map quoteByte s)" by (rule arg_cong)
  ultimately show ?thesis by (simp add: Quote_def quoted_def runes_plain comp_def)
qed

lemma ascii_printable: "ascii_text s \<Longrightarrow> printable s"
  by (fastforce simp: ascii_text_def printable_def plain_def)

section \<open>The default requirement\<close>

text \<open>The index of the last certificate from the leaf on with the leaf's organization.\<close>

fun organizationSlot :: "gostring \<Rightarrow> certificate list \<Rightarrow> nat \<Rightarrow> nat \<Rightarrow> nat result" where
  "organizationSlot org [] i slot = Inr slot"
| "organizationSlot org (c # cs) i slot =
    rbind (subjectAttribute c (str ''2.5.4.10'')) (\<lambda>nxt.
    if nxt \<noteq> org then Inr slot else organizationSlot org cs (Suc i) i)"

definition appleCertificateRequirement ::
  "(nat \<Rightarrow> bool) \<Rightarrow> unicode \<Rightarrow> gostring \<Rightarrow> certificate list \<Rightarrow> byte list result" where
  "appleCertificateRequirement P U ident path =
    rbind
     (if length path = 3 \<and> extension (path ! 1) (str ''1.2.840.113635.100.6.2.1'') \<noteq> None then
        rbind (subjectAttribute (path ! 0) (str ''2.5.4.3'')) (\<lambda>cn.
        Inr (str ''anchor apple generic'' @ str '' and (certificate leaf[subject.CN] = '' @ Quote P cn @
          str '' and certificate 1[field.1.2.840.113635.100.6.2.1] exists)''))
      else if length path = 3 \<and> extension (path ! 1) (str ''1.2.840.113635.100.6.2.6'') \<noteq> None then
        rbind (subjectAttribute (path ! 0) (str ''2.5.4.11'')) (\<lambda>team.
        Inr (str ''anchor apple generic'' @ str '' and (certificate 1[field.1.2.840.113635.100.6.2.6] exists and (certificate leaf[field.1.2.840.113635.100.6.1.13] exists and certificate leaf[subject.OU] = '' @
          Quote P team @ str ''))''))
      else Inl (Unsupported ''Apple proper designated requirement synthesis''))
     (\<lambda>expr. CompileRequirements U (str ''identifier '' @ Quote P ident @ str '' and ('' @ expr @ str '')''))"

definition defaultCertificateRequirement ::
  "hash_lib \<Rightarrow> (nat \<Rightarrow> bool) \<Rightarrow> unicode \<Rightarrow> gostring \<Rightarrow> certificate list \<Rightarrow> byte list result" where
  "defaultCertificateRequirement H P U ident path =
    (if appleAnchor H path then appleCertificateRequirement P U ident path else
     if path = [] then Inl Panic else
     rbind (subjectAttribute (path ! 0) (str ''2.5.4.10'')) (\<lambda>org.
     rbind (if org \<noteq> [] then organizationSlot org (tl path) 1 0 else Inr 0) (\<lambda>slot.
     let label = (if org \<noteq> [] \<and> slot = length path - 1 then str ''root'' else decimal slot);
         h = sha1 H (raw (path ! slot)) in
     CompileRequirements U (str ''identifier '' @ Quote P ident @ str '' and certificate '' @ label @
       str '' = H'' @ [34] @ hexEncode h @ [34]))))"

text \<open>
  prepareIdentity: the chain must be the identity's certificates in order; it yields the team
  identifier and the requirements of the options. \<open>at\<close> is the signing time.
\<close>

fun identityChain :: "certificate list \<Rightarrow> byte list list \<Rightarrow> int \<Rightarrow> nat \<Rightarrow> unit result" where
  "identityChain [] certs at i = Inr ()"
| "identityChain (c # cs) certs at i =
    (if i \<ge> length certs then Inl Panic else
     if raw c \<noteq> certs ! i then Inl (Malformed ''identity certificates must be leaf first'') else
     rbind (certificatePolicy c at (i > 0) (i - 1)) (\<lambda>_. identityChain cs certs at (Suc i)))"

definition prepareCertificates ::
  "(byte list \<Rightarrow> certificate result) \<Rightarrow> crypto_lib \<Rightarrow> hash_lib \<Rightarrow> (nat \<Rightarrow> bool) \<Rightarrow> unicode \<Rightarrow> byte list list \<Rightarrow> int \<Rightarrow>
     gostring \<Rightarrow> byte list \<Rightarrow> gostring \<Rightarrow> (gostring \<times> byte list) result" where
  "prepareCertificates parse C H P U certs at ident reqs team =
    (if certs = [] then Inl Panic else
     rbind (linkedCertificates parse C (certs ! 0) certs) (\<lambda>path.
     if length path \<noteq> length certs then Inl (Malformed ''identity certificates are not one linked chain'') else
     rbind (identityChain path certs at 0) (\<lambda>_.
     rbind (if appleDeveloper H path then
              rbind (subjectAttribute (path ! 0) (str ''2.5.4.11'')) (\<lambda>t.
              if t = [] \<or> 0 \<in> set t then Inl (Malformed ''certificate Team ID is missing or contains NUL'') else Inr t)
            else Inr team) (\<lambda>team.
     rbind (prepareRequirements reqs path (defaultCertificateRequirement H P U ident path)) (\<lambda>reqs. Inr (team, reqs))))))"

section \<open>Texts of two atoms\<close>

text \<open>A text that the parser reads as one atom, with its atoms and nesting.\<close>

definition atom_text :: "unicode \<Rightarrow> byte list \<Rightarrow> req \<Rightarrow> nat \<Rightarrow> nat \<Rightarrow> bool" where
  "atom_text U x n c h \<longleftrightarrow> plain x \<and> (\<forall>d k t. follow U t \<longrightarrow> d + h \<le> 128 \<longrightarrow> k + c \<le> 4096 \<longrightarrow>
     atom U d (pstart U k (x @ t)) = Inr (n, pstart U (k + c) t))"

lemma pair_expression:
  assumes x: "atom_text U x n c h" and y: "atom_text U y m c' h'"
    and t: "ends_and U t" "\<And>k. ps_text (pstart U k t) \<noteq> str ''or''"
    and b: "d + h \<le> 128" "d + h' \<le> 128" "k + c + c' \<le> 4096" "e < 128"
  shows "expression U (atom U d) e (pstart U k (x @ str '' and '' @ y @ t)) = Inr (ReqAnd n m, pstart U (k + c + c') t)"
proof -
  have ft: "follow U t" "plain t" and nt: "\<And>k. ps_text (pstart U k t) \<noteq> str ''and''" using t(1) by (simp_all add: ends_and_def follow_def)
  have yt: "plain (y @ t)" using y ft(2) by (simp add: atom_text_def)
  have X: "atom U d (pstart U k (x @ str '' and '' @ y @ t)) = Inr (n, pstart U (k + c) (str '' and '' @ y @ t))"
    using x follow_operators(1) [OF yt] b by (simp add: atom_text_def)
  have Y: "atom U d (pstart U (k + c) (32 # y @ t)) = Inr (m, pstart U (k + c + c') t)"
    using y ft(1) b yt by (simp add: atom_text_def)
  have "plain (32 # y @ t)" using yt by simp
  from chainLoop_step [where f = "atom U d", OF _ this Y]
  have "chainLoop U (str ''and'') ReqAnd (atom U d) n (pstart U (k + c) (str '' and '' @ y @ t)) =
      chainLoop U (str ''and'') ReqAnd (atom U d) (ReqAnd n m) (pstart U (k + c + c') t)"
    by (simp add: operator_text)
  with X nt have "conjunction U (atom U d) (pstart U k (x @ str '' and '' @ y @ t)) = Inr (ReqAnd n m, pstart U (k + c + c') t)"
    by (simp add: conjunction_def chainLoop_stop)
  with b(4) t(2) show ?thesis by (simp add: expression_def chainLoop_stop)
qed

lemma paren_text:
  assumes x: "atom_text U x n c h" and y: "atom_text U y m c' h'"
  shows "atom_text U (str ''('' @ x @ str '' and '' @ y @ str '')'') (ReqAnd n m) (1 + c + c') (3 + max h h')"
  unfolding atom_text_def
proof (intro conjI allI impI)
  have pl: "plain x" "plain y" using x y by (simp_all add: atom_text_def)
  then show "plain (str ''('' @ x @ str '' and '' @ y @ str '')'')" by (simp add: printed_words)
  fix d k :: nat and t assume t: "follow U t" and b: "d + (3 + max h h') \<le> 128" "k + (1 + c + c') \<le> 4096"
  let ?in = "x @ str '' and '' @ y @ 41 # t"
  have pt: "plain t" by (rule follow_plain [OF t])
  have words: "[41] \<noteq> str ''and''" "[41] \<noteq> str ''or''" by (simp_all add: str_def)
  have e: "ends_and U (41 # t)" using follow_operators(3) [OF pt] pt words by (simp add: ends_and_def printed_words pstart_char)
  have "pstart U k (40 # ?in) = shows_token (TChar 40) [40] ?in k" by (subst pstart_char) (use pl pt in \<open>simp_all add: printed_words\<close>)
  moreover have "expression U (atom U (d + 2)) (d + 1) (pstart U (Suc k) ?in) = Inr (ReqAnd n m, pstart U (Suc k + c + c') (41 # t))"
    by (rule pair_expression [OF x y e]) (use b pt words in \<open>simp_all add: pstart_char\<close>)
  ultimately show "atom U d (pstart U k ((str ''('' @ x @ str '' and '' @ y @ str '')'') @ t)) = Inr (ReqAnd n m, pstart U (k + (1 + c + c')) t)"
    using b pt by (simp add: printed_words atom_words pstart_char add.assoc)
qed

lemma leaf_text: "leaf n \<Longrightarrow> req_ok n \<Longrightarrow> strings_ok n \<Longrightarrow> atom_text U (text_of n 0) n 1 1"
  by (simp add: atom_text_def atom_leaf plain_text_of)

lemma identifier_text: "printable s \<Longrightarrow> atom_text U (str ''identifier '' @ quoted s) (ReqIdentifier s) 1 1"
proof -
  assume s: "printable s"
  have "plain (quoted s)" using plain_quoted [OF s] by (simp add: quoted_def)
  moreover have "stringValue U (pstart U n (quoted s @ t)) = Inr (s, pstart U n t)" if "plain t" for n t
    using that s by (simp add: stringValue_def pstart_quoted unquote_quoted)
  ultimately show ?thesis
    by (simp add: atom_text_def printed_words pstart_keyword atom_words follow_plain)
qed

lemma hash_text:
  assumes "length v = 20" "index_word w slot"
  shows "atom_text U (str ''certificate '' @ w @ str '' = H'' @ quoted (hexEncode v)) (ReqCertificate slot v) 1 1"
  unfolding atom_text_def
proof (intro conjI allI impI)
  have pl: "plain w" by (rule plain_index_word [OF assms(2)])
  then show "plain (str ''certificate '' @ w @ str '' = H'' @ quoted (hexEncode v))" by (simp add: printed_words)
  fix d k :: nat and t assume t: "follow U t" and b: "d + 1 \<le> 128" "k + 1 \<le> 4096"
  let ?t = "w @ str '' = H'' @ quoted (hexEncode v) @ t"
  have p: "plain ?t" using pl follow_plain [OF t] by (simp add: printed_words)
  have shown: "(str ''certificate '' @ w @ str '' = H'' @ quoted (hexEncode v)) @ t = str ''certificate'' @ 32 # ?t" by (simp add: printed_words)
  show "atom U d (pstart U k ((str ''certificate '' @ w @ str '' = H'' @ quoted (hexEncode v)) @ t)) = Inr (ReqCertificate slot v, pstart U (k + 1) t)"
    unfolding shown using p b follow_plain [OF t] certificateAtom_hash [OF assms(1) _ assms(2)]
    by (simp add: pstart_keyword atom_words)
qed

text \<open>A bracketed field: what \<open>certificateField\<close> reads after the bracket.\<close>

lemma field_atom_text:
  assumes w: "index_word w slot" and x: "plain x"
    and r: "\<And>k t n. follow U t \<Longrightarrow> certificateField U slot (shows_token (TChar 91) [91] (x @ t) n) = Inr (r, pstart U n t)"
  shows "atom_text U (str ''certificate '' @ w @ str ''['' @ x) r 1 1"
  unfolding atom_text_def
proof (intro conjI allI impI)
  have pl: "plain w" by (rule plain_index_word [OF w])
  then show "plain (str ''certificate '' @ w @ str ''['' @ x)" using x by (simp add: printed_words)
  fix d k :: nat and t assume t: "follow U t" and b: "d + 1 \<le> 128" "k + 1 \<le> 4096"
  have p: "plain (x @ t)" "plain (w @ 91 # x @ t)" using pl x follow_plain [OF t] by simp_all
  have shown: "(str ''certificate '' @ w @ str ''['' @ x) @ t = str ''certificate'' @ 32 # w @ 91 # x @ t" by (simp add: printed_words)
  show "atom U d (pstart U k ((str ''certificate '' @ w @ str ''['' @ x) @ t)) = Inr (r, pstart U (k + 1) t)"
    unfolding shown using p b r [OF t] certificateAtom_field [OF p(1) w]
    by (simp add: pstart_keyword atom_words)
qed

lemma subject_text:
  assumes "index_word w slot" "f \<in> set subjectFields" "printable v"
  shows "atom_text U (str ''certificate '' @ w @ str ''['' @ f @ str ''] = '' @ quoted v) (ReqSubject slot f v) 1 1"
proof (rule field_atom_text [OF assms(1)])
  have q: "plain (quoted v)" using plain_quoted [OF assms(3)] by (simp add: quoted_def)
  then show "plain (f @ str ''] = '' @ quoted v)" using plain_subjectField [OF assms(2)] by (simp add: printed_words)
  fix t n assume t: "follow U t"
  have "stringValue U (pstart U n (quoted v @ t)) = Inr (v, pstart U n t)"
    using follow_plain [OF t] assms(3) by (simp add: stringValue_def pstart_quoted unquote_quoted)
  from field_subject [OF assms(2) this] show "certificateField U slot (shows_token (TChar 91) [91] ((f @ str ''] = '' @ quoted v) @ t) n) = Inr (ReqSubject slot f v, pstart U n t)"
    using q follow_plain [OF t] by simp
qed

lemma exists_text:
  assumes "index_word w slot" "parseOID f = Some oid"
  shows "atom_text U (str ''certificate '' @ w @ str ''['' @ str ''field.'' @ oidString oid @ str ''] exists'') (ReqExtension slot f) 1 1"
proof (rule field_atom_text [OF assms(1)])
  have e: "str ''field.'' @ oidString oid @ str ''] exists'' = str ''field'' @ 46 # oidString oid @ 93 # 32 # str ''exists''"
    by (simp add: str_def)
  have x: "plain (str ''exists'')" "keyword (str ''exists'')" by (simp_all add: letters)
  then show "plain (str ''field.'' @ oidString oid @ str ''] exists'')" unfolding e by simp
  fix t n assume t: "follow U t"
  have "plain (32 # str ''exists'' @ t)" using x follow_plain [OF t] by simp
  from field_oid [OF assms(2) this] x follow_plain [OF t]
  show "certificateField U slot (shows_token (TChar 91) [91] ((str ''field.'' @ oidString oid @ str ''] exists'') @ t) n) = Inr (ReqExtension slot f, pstart U n t)"
    unfolding e by (simp add: pstart_keyword Let_def)
qed

section \<open>What the default requirement compiles to\<close>

lemma compile_pair:
  assumes i: "printable ident" and y: "atom_text U y m c h"
    and b: "h \<le> 126" "c \<le> 4000" "length (str ''identifier '' @ quoted ident @ str '' and '' @ y) \<le> 2 ^ 20"
  shows "CompileRequirements U (str ''identifier '' @ quoted ident @ str '' and '' @ y) =
    Inr (requirementSetBytes [(3, compileNode (ReqAnd (ReqIdentifier ident) m))])"
proof -
  let ?x = "str ''identifier '' @ quoted ident"
  let ?s = "?x @ str '' and '' @ y @ []"
  have x: "atom_text U ?x (ReqIdentifier ident) 1 1" by (rule identifier_text [OF i])
  have pl: "plain ?s" using x y by (simp add: atom_text_def printed_words)
  have e: "ends_and U []" using follow_Nil by (simp add: ends_and_def str_def)
  have "expression U (atom U 1) 0 (pstart U 0 ?s) = Inr (ReqAnd (ReqIdentifier ident) m, pstart U (0 + 1 + c) [])"
    by (rule pair_expression [OF x y e]) (use b in \<open>simp_all add: str_def\<close>)
  moreover have "semicolons U (shows_token TEOF [] [] k) = shows_token TEOF [] [] k" for k by (subst semicolons.simps) simp
  ultimately have el: "element U (pstart U 0 ?s) = Inr (ReqAnd (ReqIdentifier ident) m, shows_token TEOF [] [] (1 + c))"
    by (simp add: element_def pstart_nodes)
  have len: "length ?s \<le> 2 ^ 20" using b(3) by simp
  have parse: "parseRequirement U ?s = Inr (ReqAnd (ReqIdentifier ident) m)"
    using el unfolding parseRequirement_def newRequirementParser_plain [OF pl len] by simp
  have "?s = str ''identifier'' @ 32 # quoted ident @ str '' and '' @ y" by (simp add: str_def)
  moreover have "plain (32 # quoted ident @ str '' and '' @ y)" using pl by simp
  ultimately have "pstart U 0 ?s = shows_token TIdent (str ''identifier'') (32 # quoted ident @ str '' and '' @ y) 0"
    by (simp add: pstart_keyword)
  then have "requirementKind (pstart U 0 ?s) = None" by (simp add: requirementKind_def) (simp add: str_def)
  then have "CompileRequirements U ?s = Inr (requirementSetBytes [(3, compileNode (ReqAnd (ReqIdentifier ident) m))])"
    using parse unfolding CompileRequirements_def newRequirementParser_plain [OF pl len] by (simp add: CompileRequirement_def)
  then show ?thesis by simp
qed

text \<open>A set of one designated requirement is checked by evaluating it.\<close>

lemma check_single:
  assumes "req_fits n" "length (compileNode n) + 20 < 2 ^ 32"
  shows "checkDesignatedRequirement H (requirementSetBytes [(3, compileNode n)]) d =
    (if matches H n d then Inr () else Inl ErrDesignatedRequirement)"
proof -
  have ok: "entries_ok [(3, compileNode n)]"
    using assms decode_compile decode_compile_header [OF assms(1)] by (auto simp: entries_ok_def)
  have "requirementSetBytes [(3, compileNode n)] \<noteq> []"
    using decode_compile_header [OF assms(1)] by auto
  then show ?thesis
    using written_entries [OF ok] written_set_wf [OF ok] decode_compile [OF assms(1)]
    by (simp add: checkDesignatedRequirement_def validateRequirements_iff [symmetric] EvaluateRequirementBytes_def)
qed

section \<open>The default requirement holds\<close>

lemma root_word: "index_word (str ''root'') (-1)" by (simp add: index_word_def certificateIndex_def) (simp add: str_def)

lemma leaf_word: "index_word (str ''leaf'') 0" by (simp add: index_word_def certificateIndex_def)

lemma decimal_word: "i \<le> 31 \<Longrightarrow> index_word (decimal i) (int i)"
proof -
  have "decimal i \<noteq> str ''leaf''" "decimal i \<noteq> str ''root''"
    using decimal_digits [of "hd (decimal i)" i] by (auto simp: str_def)
  then show "i \<le> 31 \<Longrightarrow> index_word (decimal i) (int i)" by (auto simp: index_word_def certificateIndex_def)
qed

text \<open>The object identifiers of Apple's markers.\<close>

definition appleField :: "byte list \<Rightarrow> byte list" where
  "appleField suffix = [42, 134, 72, 134, 247, 99, 100, 6] @ suffix"

lemma appleField_oids:
  "parseOID (appleField [2, 1]) = Some [1, 2, 840, 113635, 100, 6, 2, 1]"
  "parseOID (appleField [2, 6]) = Some [1, 2, 840, 113635, 100, 6, 2, 6]"
  "parseOID (appleField [1, 13]) = Some [1, 2, 840, 113635, 100, 6, 1, 13]"
  by (simp_all add: appleField_def parseOID_def)

lemma apple_oid_text:
  "oidString [1, 2, 840, 113635, 100, 6, 2, 1] = str ''1.2.840.113635.100.6.2.1''"
  "oidString [1, 2, 840, 113635, 100, 6, 2, 6] = str ''1.2.840.113635.100.6.2.6''"
  "oidString [1, 2, 840, 113635, 100, 6, 1, 13] = str ''1.2.840.113635.100.6.1.13''"
  by (simp_all add: decimal.simps str_def)

lemma organizationSlot_ok:
  "\<forall>c \<in> set cs. \<exists>v. subjectAttribute c (str ''2.5.4.10'') = Inr v \<Longrightarrow> slot < i \<Longrightarrow>
    \<exists>r. organizationSlot org cs i slot = Inr r \<and> r < i + length cs"
proof (induction cs arbitrary: i slot)
  case (Cons c cs)
  then obtain v where v: "subjectAttribute c (str ''2.5.4.10'') = Inr v" by auto
  obtain r where "organizationSlot org cs (Suc i) i = Inr r" "r < Suc i + length cs" using Cons.IH [of i "Suc i"] Cons.prems by auto
  with v Cons.prems(2) show ?case by auto
qed simp

lemma appleField_decodes: "parseOID (appleField f) = Some oid \<Longrightarrow> length f = 2 \<Longrightarrow> decodeOID (appleField f) = Inr oid"
  by (simp add: decodeOID_def appleField_def derWrap_def derHeader_def)

lemma matches_extension:
  assumes "chainAt (chain d) slot = Some c" "parseOID (appleField f) = Some oid" "length f = 2" "oidString oid = s" "extension c s \<noteq> None"
  shows "matches H (ReqExtension slot (appleField f)) d"
  using assms appleField_decodes [OF assms(2,3)] by (simp del: oidString.simps)

text \<open>
  What the synthesis needs: for Apple's chains the markers it names, and a printable name in
  the leaf; for other chains certificates whose organizations decode.
\<close>

definition short_text :: "gostring \<Rightarrow> bool" where
  "short_text v \<longleftrightarrow> v \<noteq> [] \<and> ascii_text v \<and> length v \<le> 2 ^ 16"

definition synthesizable :: "hash_lib \<Rightarrow> certificate list \<Rightarrow> bool" where
  "synthesizable H path \<longleftrightarrow>
    (if appleAnchor H path then
       length path = 3 \<and>
       (if extension (path ! 1) (str ''1.2.840.113635.100.6.2.1'') \<noteq> None
        then \<exists>cn. subjectAttribute (path ! 0) (str ''2.5.4.3'') = Inr cn \<and> short_text cn
        else extension (path ! 1) (str ''1.2.840.113635.100.6.2.6'') \<noteq> None \<and>
          extension (path ! 0) (str ''1.2.840.113635.100.6.1.13'') \<noteq> None \<and>
          (\<exists>team. subjectAttribute (path ! 0) (str ''2.5.4.11'') = Inr team \<and> short_text team))
     else path \<noteq> [] \<and> length path \<le> 32 \<and>
       (\<forall>c \<in> set path. raw c \<noteq> [] \<and> (\<exists>v. subjectAttribute c (str ''2.5.4.10'') = Inr v)))"

lemma quoteByte_length: "length (concat (map quoteByte s)) \<le> 2 * length s"
  by (induction s) (auto simp: quoteByte_def)

lemma quoted_length: "length (quoted s) \<le> 2 * length s + 2"
  using quoteByte_length [of s] by (simp add: quoted_def)

text \<open>The compiled text, and a directory it matches.\<close>

lemma default_shape:
  assumes H: "hash_lib_ok H" and i: "ascii_text ident" "length ident \<le> 2 ^ 16" and path: "synthesizable H path"
  shows "\<exists>m. defaultCertificateRequirement H P U ident path =
      Inr (requirementSetBytes [(3, compileNode (ReqAnd (ReqIdentifier ident) m))]) \<and>
    req_fits (ReqAnd (ReqIdentifier ident) m) \<and> length (compileNode (ReqAnd (ReqIdentifier ident) m)) + 20 \<le> 2 ^ 20 \<and>
    (\<forall>d. chain d = path \<longrightarrow> matches H m d)"
proof (cases "appleAnchor H path")
  case False
  from path False have p: "path \<noteq> []" "length path \<le> 32" "\<And>c. c \<in> set path \<Longrightarrow> raw c \<noteq> []"
    and attr: "\<forall>c \<in> set path. \<exists>v. subjectAttribute c (str ''2.5.4.10'') = Inr v" by (simp_all add: synthesizable_def)
  from attr p(1) obtain org where org: "subjectAttribute (path ! 0) (str ''2.5.4.10'') = Inr org" by (meson hd_in_set hd_conv_nth nth_mem length_greater_0_conv)
  have "\<exists>r. (if org \<noteq> [] then organizationSlot org (tl path) 1 0 else Inr 0) = Inr r \<and> r < length path"
    using organizationSlot_ok [of "tl path" 0 1 org] attr p(1) by (cases path) auto
  then obtain r where r: "(if org \<noteq> [] then organizationSlot org (tl path) 1 0 else Inr 0) = Inr r" "r < length path" by blast
  define label where "label = (if org \<noteq> [] \<and> r = length path - 1 then str ''root'' else decimal r)"
  define slot :: int where "slot = (if org \<noteq> [] \<and> r = length path - 1 then -1 else int r)"
  define v where "v = sha1 H (raw (path ! r))"
  define m where "m = ReqCertificate slot v"
  have w: "index_word label slot" using r(2) p(2) root_word decimal_word [of r] by (simp add: label_def slot_def)
  have v: "length v = 20" using H by (simp add: v_def hash_lib_ok_def)
  have ll: "length label \<le> 4"
    using r(2) p(2) by (simp add: label_def decimal.simps [of r] decimal.simps [of "r div 10"] decimal.simps [of 0] str_def)
  let ?y = "str ''certificate '' @ label @ str '' = H'' @ quoted (hexEncode v)"
  have y: "atom_text U ?y m 1 1" unfolding m_def by (rule hash_text [OF v w])
  have hl: "length (hexEncode v) = 40" using v by (simp add: hexEncode_def length_concat comp_def sum_list_triv)
  have yl: "length ?y \<le> 200" using ll quoted_length [of "hexEncode v"] hl by (simp add: str_def)
  have len: "length (str ''identifier '' @ quoted ident @ str '' and '' @ ?y) \<le> 2 ^ 20"
    using quoted_length [of ident] i(2) yl by (simp add: str_def)
  have "CompileRequirements U (str ''identifier '' @ quoted ident @ str '' and '' @ ?y) =
      Inr (requirementSetBytes [(3, compileNode (ReqAnd (ReqIdentifier ident) m))])"
    by (rule compile_pair [OF ascii_printable [OF i(1)] y _ _ len]) (simp_all add: m_def)
  moreover have "defaultCertificateRequirement H P U ident path = CompileRequirements U (str ''identifier '' @ quoted ident @ str '' and '' @ ?y)"
    unfolding defaultCertificateRequirement_def if_not_P [OF False] if_not_P [OF p(1)] org rbind_Inr r(1) Quote_ascii [OF i(1)]
    by (simp add: Let_def label_def v_def quoted_hex_text [symmetric] str_def)
  moreover have "matches H m d" if "chain d = path" for d
  proof -
    have "chainAt path slot = Some (path ! r)" using r(2) p(1) by (auto simp: chainAt_def slot_def Let_def nat_diff_distrib)
    with that p(1,3) r(2) show ?thesis by (simp add: m_def v_def certificateFor_def)
  qed
  ultimately show ?thesis
    using v w index_word_slot i(2) by (intro exI [of _ m]) (auto simp: m_def req_fits_def dataWords_def padded_def)
next
  case True
  then have a: "appleAnchor H path" "length path = 3" using path by (simp_all add: synthesizable_def)
  have fits: "short_text v \<Longrightarrow> length v \<le> 2 ^ 16" for v by (simp add: short_text_def)
  have anchor: "atom_text U (str ''anchor apple generic'') ReqAnchor 1 1" using leaf_text [of ReqAnchor U] by simp
  have one: "index_word (str ''1'') 1" using decimal_word [of 1] by (simp add: decimal.simps str_def)
  have at: "chainAt path 0 = Some (path ! 0)" "chainAt path 1 = Some (path ! 1)" using a(2) by (simp_all add: chainAt_def)
  have cases: "\<exists>m. defaultCertificateRequirement H P U ident path =
      Inr (requirementSetBytes [(3, compileNode (ReqAnd (ReqIdentifier ident) m))]) \<and>
    req_fits (ReqAnd (ReqIdentifier ident) m) \<and> length (compileNode (ReqAnd (ReqIdentifier ident) m)) + 20 \<le> 2 ^ 20 \<and>
    (\<forall>d. chain d = path \<longrightarrow> matches H m d)"
    if y: "atom_text U y m c h" "h \<le> 126" "c \<le> 4000" "length y \<le> 2 ^ 18"
      and eq: "defaultCertificateRequirement H P U ident path = CompileRequirements U (str ''identifier '' @ quoted ident @ str '' and '' @ y)"
      and m: "req_ok m" "depth_of m \<le> 3" "nodes_of m \<le> 7" "length (wordsOf m) \<le> 2 ^ 17" "\<And>d. chain d = path \<Longrightarrow> matches H m d" for y m c h
  proof (intro exI [of _ m] conjI allI impI)
    have len: "length (str ''identifier '' @ quoted ident @ str '' and '' @ y) \<le> 2 ^ 20"
      using quoted_length [of ident] i(2) y(4) by (simp add: str_def)
    show "defaultCertificateRequirement H P U ident path = Inr (requirementSetBytes [(3, compileNode (ReqAnd (ReqIdentifier ident) m))])"
      unfolding eq by (rule compile_pair [OF ascii_printable [OF i(1)] y(1-3) len])
    show "req_fits (ReqAnd (ReqIdentifier ident) m)" "length (compileNode (ReqAnd (ReqIdentifier ident) m)) + 20 \<le> 2 ^ 20"
      using m(1-4) i(2) by (auto simp: req_fits_def dataWords_def padded_def)
  qed (use m(5) in simp)
  show ?thesis
  proof (cases "extension (path ! 1) (str ''1.2.840.113635.100.6.2.1'') \<noteq> None")
    case True
    with path a obtain cn where cn: "subjectAttribute (path ! 0) (str ''2.5.4.3'') = Inr cn" "short_text cn"
      by (auto simp: synthesizable_def)
    let ?X = "str ''certificate '' @ str ''leaf'' @ str ''['' @ str ''subject.CN'' @ str ''] = '' @ quoted cn"
    let ?Y = "str ''certificate '' @ str ''1'' @ str ''['' @ str ''field.'' @ oidString [1, 2, 840, 113635, 100, 6, 2, 1] @ str ''] exists''"
    let ?y = "str ''('' @ str ''anchor apple generic'' @ str '' and '' @ (str ''('' @ ?X @ str '' and '' @ ?Y @ str '')'') @ str '')''"
    let ?m = "ReqAnd ReqAnchor (ReqAnd (ReqSubject 0 (str ''subject.CN'') cn) (ReqExtension 1 (appleField [2, 1])))"
    have c: "ascii_text cn" "cn \<noteq> []" using cn(2) by (simp_all add: short_text_def)
    have X: "atom_text U ?X (ReqSubject 0 (str ''subject.CN'') cn) 1 1"
      by (rule subject_text [OF leaf_word _ ascii_printable [OF c(1)]]) (simp add: subjectFields_def)
    have Y: "atom_text U ?Y (ReqExtension 1 (appleField [2, 1])) 1 1" by (rule exists_text [OF one appleField_oids(1)])
    have y: "atom_text U ?y ?m (1 + 1 + (1 + 1 + 1)) (3 + max 1 (3 + max 1 1))" by (rule paren_text [OF anchor paren_text [OF X Y]])
    have "quoted cn = Quote P cn" "quoted ident = Quote P ident" using Quote_ascii c i(1) by simp_all
    then have eq: "defaultCertificateRequirement H P U ident path = CompileRequirements U (str ''identifier '' @ quoted ident @ str '' and '' @ ?y)"
      using a True cn(1) unfolding defaultCertificateRequirement_def appleCertificateRequirement_def apple_oid_text
      by (simp add: str_def)
    show ?thesis
    proof (rule cases [OF y _ _ _ eq])
      show "length ?y \<le> 2 ^ 18" using quoted_length [of cn] fits [OF cn(2)] unfolding apple_oid_text by (simp add: str_def)
      show "req_ok ?m" using appleField_decodes [OF appleField_oids(1)] by (simp add: slot_ok_def subjectFields_def)
      show "length (wordsOf ?m) \<le> 2 ^ 17" using fits [OF cn(2)] by (simp add: dataWords_def padded_def appleField_def str_def)
      fix d :: verified assume d: "chain d = path"
      have "fieldOID (str ''subject.CN'') = str ''2.5.4.3''" by (simp add: fieldOID_def)
      moreover have "matches H (ReqExtension 1 (appleField [2, 1])) d"
        by (rule matches_extension [OF _ appleField_oids(1) _ apple_oid_text(1) True]) (simp_all add: d at)
      ultimately show "matches H ?m d" using d at cn(1) c(2) a by simp
    qed simp_all
  next
    case False
    with path a obtain team where e: "extension (path ! 1) (str ''1.2.840.113635.100.6.2.6'') \<noteq> None"
      "extension (path ! 0) (str ''1.2.840.113635.100.6.1.13'') \<noteq> None"
      and team: "subjectAttribute (path ! 0) (str ''2.5.4.11'') = Inr team" "short_text team"
      by (auto simp: synthesizable_def)
    let ?X = "str ''certificate '' @ str ''1'' @ str ''['' @ str ''field.'' @ oidString [1, 2, 840, 113635, 100, 6, 2, 6] @ str ''] exists''"
    let ?Y = "str ''certificate '' @ str ''leaf'' @ str ''['' @ str ''field.'' @ oidString [1, 2, 840, 113635, 100, 6, 1, 13] @ str ''] exists''"
    let ?Z = "str ''certificate '' @ str ''leaf'' @ str ''['' @ str ''subject.OU'' @ str ''] = '' @ quoted team"
    let ?y = "str ''('' @ str ''anchor apple generic'' @ str '' and '' @ (str ''('' @ ?X @ str '' and '' @ (str ''('' @ ?Y @ str '' and '' @ ?Z @ str '')'') @ str '')'') @ str '')''"
    let ?m = "ReqAnd ReqAnchor (ReqAnd (ReqExtension 1 (appleField [2, 6])) (ReqAnd (ReqExtension 0 (appleField [1, 13])) (ReqSubject 0 (str ''subject.OU'') team)))"
    have c: "ascii_text team" "team \<noteq> []" using team(2) by (simp_all add: short_text_def)
    have X: "atom_text U ?X (ReqExtension 1 (appleField [2, 6])) 1 1" by (rule exists_text [OF one appleField_oids(2)])
    have Y: "atom_text U ?Y (ReqExtension 0 (appleField [1, 13])) 1 1" by (rule exists_text [OF leaf_word appleField_oids(3)])
    have Z: "atom_text U ?Z (ReqSubject 0 (str ''subject.OU'') team) 1 1"
      by (rule subject_text [OF leaf_word _ ascii_printable [OF c(1)]]) (simp add: subjectFields_def)
    note y = paren_text [OF anchor paren_text [OF X paren_text [OF Y Z]]]
    have "quoted team = Quote P team" "quoted ident = Quote P ident" using Quote_ascii c i(1) by simp_all
    then have eq: "defaultCertificateRequirement H P U ident path = CompileRequirements U (str ''identifier '' @ quoted ident @ str '' and '' @ ?y)"
      using a False e(1) team(1) unfolding defaultCertificateRequirement_def appleCertificateRequirement_def apple_oid_text
      by (simp add: str_def)
    show ?thesis
    proof (rule cases [OF y _ _ _ eq])
      show "length ?y \<le> 2 ^ 18" using quoted_length [of team] fits [OF team(2)] unfolding apple_oid_text by (simp add: str_def)
      show "req_ok ?m" using appleField_decodes [OF appleField_oids(2)] appleField_decodes [OF appleField_oids(3)] by (simp add: slot_ok_def subjectFields_def)
      show "length (wordsOf ?m) \<le> 2 ^ 17" using fits [OF team(2)] by (simp add: dataWords_def padded_def appleField_def str_def)
      fix d :: verified assume d: "chain d = path"
      have "fieldOID (str ''subject.OU'') = str ''2.5.4.11''" by (simp add: fieldOID_def) (simp add: str_def)
      moreover have "matches H (ReqExtension 1 (appleField [2, 6])) d"
        by (rule matches_extension [OF _ appleField_oids(2) _ apple_oid_text(2) e(1)]) (simp_all add: d at)
      moreover have "matches H (ReqExtension 0 (appleField [1, 13])) d"
        by (rule matches_extension [OF _ appleField_oids(3) _ apple_oid_text(3) e(2)]) (simp_all add: d at)
      ultimately show "matches H ?m d" using d at team(1) c(2) a by simp
    qed simp_all
  qed
qed

text \<open>The signer's own set: what \<open>prepareRequirements\<close> makes of it.\<close>

lemma prepare_generated:
  assumes "path \<noteq> []" "req_fits n" "length (compileNode n) + 20 \<le> 2 ^ 20"
  shows "prepareRequirements [] path (Inr (requirementSetBytes [(3, compileNode n)])) = Inr (requirementSetBytes [(3, compileNode n)])"
proof -
  have l: "length (compileNode n) + 20 < 2 ^ 32" using assms(3) by simp
  note g = generated_entry [OF l]
  show ?thesis using assms(1,3) g by (simp add: prepareRequirements_def Let_def)
qed

section \<open>Property\<close>

text \<open>
  C30. A signature satisfies the designated requirement that is generated for it: for a
  printable identifier and a chain the synthesis covers, the signer's set is made without
  error, and the designated requirement check passes on every directory with that identifier
  and chain.
\<close>

theorem default_requirement_holds:
  assumes "hash_lib_ok H" "ascii_text ident" "length ident \<le> 2 ^ 16" "synthesizable H path"
    "Identifier d = ident" "chain d = path"
  shows "\<exists>merged. prepareRequirements [] path (defaultCertificateRequirement H P U ident path) = Inr merged \<and>
    checkDesignatedRequirement H merged d = Inr ()"
proof -
  obtain m where m: "defaultCertificateRequirement H P U ident path = Inr (requirementSetBytes [(3, compileNode (ReqAnd (ReqIdentifier ident) m))])"
    "req_fits (ReqAnd (ReqIdentifier ident) m)" "length (compileNode (ReqAnd (ReqIdentifier ident) m)) + 20 \<le> 2 ^ 20"
    "matches H m d"
    using default_shape [OF assms(1-4), of P U] assms(6) by blast
  have "path \<noteq> []" using assms(4) by (auto simp: synthesizable_def split: if_splits)
  moreover have "length (compileNode (ReqAnd (ReqIdentifier ident) m)) + 20 < 2 ^ 32" using m(3) by simp
  ultimately show ?thesis
    using m(1,4) assms(5) prepare_generated [OF _ m(2,3)] check_single [OF m(2)] by simp
qed

definition sampleSigner :: certificate where
  "sampleSigner = (sampleCert [1] [2] [1] [])\<lparr>attributes := Inr [[(str ''2.5.4.10'', Inr [65])]]\<rparr>"

theorem default_requirement_holds_witness:
  "\<exists>merged. prepareRequirements [] [sampleSigner] (defaultCertificateRequirement sampleHash (\<lambda>_. False)
      \<lparr>uni_letter = \<lambda>_. False, uni_digit = \<lambda>_. False\<rparr> [97, 46, 98] [sampleSigner]) = Inr merged \<and>
    checkDesignatedRequirement sampleHash merged (sampleVerified\<lparr>Identifier := [97, 46, 98], chain := [sampleSigner]\<rparr>) = Inr ()"
proof (rule default_requirement_holds [OF sampleHash_ok])
  show "synthesizable sampleHash [sampleSigner]"
    by (simp add: synthesizable_def sampleSigner_def sampleCert_def subjectAttribute_def appleAnchor_def appleRoots_def
      sampleHash_def hexEncode_def hexdigit_def str_def) (simp add: numeral_eq_Suc)
qed (simp_all add: ascii_text_def)

end
