(* ===== verification/Signature_Index.thy ===== *)
theory Signature_Index
  imports Signature_Output
begin

unbundle bit_operations_syntax

text \<open>
  signature_index.go: the Patricia index over 32-bit keys whose nodes lie in working sections
  of geometrically growing size. First the operations as the code has them, on the bytes of
  the sections, then the abstract trees they represent, and the refinement: find, insert and
  overlaps are lookup, update and interval intersection on a finite map.
\<close>

section \<open>Nodes and their places\<close>

record indexNode =
  nd_key :: nat
  nd_value :: nat
  nd_bit :: nat
  nd_left :: nat
  nd_right :: nat

text \<open>The sections in their memory form; an extent that is not allocated is empty.\<close>

record signatureIndex =
  ix_extents :: "byte list list"
  ix_count :: nat
  ix_root :: nat

definition indexNodeSize :: nat where "indexNodeSize = 20"
definition indexFirstExtent :: nat where "indexFirstExtent = 128"

definition emptyIndex :: signatureIndex where
  "emptyIndex = \<lparr>ix_extents = replicate 32 [], ix_count = 0, ix_root = 0\<rparr>"

text \<open>bits.Len.\<close>

fun bitLen :: "nat \<Rightarrow> nat" where
  "bitLen n = (if n = 0 then 0 else Suc (bitLen (n div 2)))"

declare bitLen.simps [simp del]

definition indexPosition :: "nat \<Rightarrow> nat \<times> nat" where
  "indexPosition i =
    (let row = i - 1; extent = bitLen (row div indexFirstExtent + 1) - 1; base = indexFirstExtent * (2 ^ extent - 1) in
     (extent, (row - base) * indexNodeSize))"

text \<open>A short read joins ErrUnexpectedEOF with the read's own error.\<close>

definition indexGet :: "signatureIndex \<Rightarrow> nat \<Rightarrow> indexNode result" where
  "indexGet x i =
    (case indexPosition i of (extent, at) \<Rightarrow>
     if extent \<ge> length (ix_extents x) then Inl Panic else
     let b = ix_extents x ! extent in
     case sectionReadAt (rangeBufferReadAt b) 0 (int (length b)) (int at) indexNodeSize of (got, e) \<Rightarrow>
     if length got \<noteq> indexNodeSize then Inl (Joined (IoUnexpectedEOF # (case e of None \<Rightarrow> [] | Some e \<Rightarrow> [e]))) else
     case e of Some e' \<Rightarrow> if e' \<noteq> IoEOF then Inl e' else
       Inr \<lparr>nd_key = be32 got 0, nd_value = be32 got 4, nd_bit = be32 got 8, nd_left = be32 got 12, nd_right = be32 got 16\<rparr>
     | None \<Rightarrow>
       Inr \<lparr>nd_key = be32 got 0, nd_value = be32 got 4, nd_bit = be32 got 8, nd_left = be32 got 12, nd_right = be32 got 16\<rparr>)"

definition nodeBytes :: "indexNode \<Rightarrow> byte list" where
  "nodeBytes n = put32 (nd_key n) @ put32 (nd_value n) @ put32 (nd_bit n) @ put32 (nd_left n) @ put32 (nd_right n)"

definition indexPut :: "signatureIndex \<Rightarrow> nat \<Rightarrow> indexNode \<Rightarrow> signatureIndex result" where
  "indexPut x i n =
    (case indexPosition i of (extent, at) \<Rightarrow>
     if extent \<ge> length (ix_extents x) then Inl Panic else
     let b = ix_extents x ! extent in
     case sectionWriteAt rangeBufferWriteAt 0 (int (length b)) b (nodeBytes n) (int at) of (b', written, e) \<Rightarrow>
     if written \<noteq> indexNodeSize then Inl (Joined (IoShortWrite # (case e of None \<Rightarrow> [] | Some e \<Rightarrow> [e]))) else
     case e of Some e \<Rightarrow> Inl e | None \<Rightarrow> Inr (x\<lparr>ix_extents := (ix_extents x)[extent := b']\<rparr>))"

text \<open>newWorkingSection gives a zero-filled section or \<open>refuse\<close>s the size with an error.\<close>

definition indexAppend :: "(nat \<Rightarrow> error option) \<Rightarrow> signatureIndex \<Rightarrow> indexNode \<Rightarrow> (signatureIndex \<times> nat) result" where
  "indexAppend refuse x n =
    (let i = (ix_count x + 1) mod 2 ^ 32 in
     if i = 0 then Inl (Malformed ''signature index node overflow'') else
     case indexPosition i of (extent, _) \<Rightarrow>
     if extent \<ge> length (ix_extents x) then Inl Panic else
     let sz = indexFirstExtent * 2 ^ extent * indexNodeSize in
     rbind (if ix_extents x ! extent \<noteq> [] then Inr x else
            case refuse sz of Some e \<Rightarrow> Inl e
            | None \<Rightarrow> Inr (x\<lparr>ix_extents := (ix_extents x)[extent := replicate sz 0]\<rparr>)) (\<lambda>x.
     rbind (indexPut x i n) (\<lambda>x. Inr (x\<lparr>ix_count := i\<rparr>, i))))"

definition indexRight :: "nat \<Rightarrow> nat \<Rightarrow> bool" where
  "indexRight key b = bit key (31 - b)"

section \<open>Operations\<close>

text \<open>
  The loops follow links until a leaf; \<open>fuel\<close> bounds them, and 33 is enough for every index
  the operations build.
\<close>

definition indexFuel :: nat where "indexFuel = 33"

definition unboundedWalk :: error where "unboundedWalk = Plain ''unbounded index walk''"

fun leafFrom :: "nat \<Rightarrow> signatureIndex \<Rightarrow> nat \<Rightarrow> nat \<Rightarrow> indexNode option result" where
  "leafFrom 0 x key i = (if i = 0 then Inr None else Inl unboundedWalk)"
| "leafFrom (Suc fuel) x key i =
    (if i = 0 then Inr None else
     rbind (indexGet x i) (\<lambda>n. if nd_bit n = 32 then Inr (Some n) else
     leafFrom fuel x key (if indexRight key (nd_bit n) then nd_right n else nd_left n)))"

definition indexFind :: "signatureIndex \<Rightarrow> nat \<Rightarrow> nat option result" where
  "indexFind x key =
    rbind (leafFrom indexFuel x key (ix_root x)) (\<lambda>l.
    Inr (case l of None \<Rightarrow> None | Some n \<Rightarrow> if nd_key n = key then Some (nd_value n) else None))"

text \<open>The second loop of insert: the node to branch at, with its parent.\<close>

fun descend :: "nat \<Rightarrow> signatureIndex \<Rightarrow> nat \<Rightarrow> nat \<Rightarrow> (nat \<times> indexNode) option \<Rightarrow> nat
    \<Rightarrow> ((nat \<times> indexNode) option \<times> nat) result" where
  "descend 0 x key differing parent at = Inl unboundedWalk"
| "descend (Suc fuel) x key differing parent at =
    rbind (indexGet x at) (\<lambda>n.
    if nd_bit n \<ge> differing then Inr (parent, at) else
    descend fuel x key differing (Some (at, n)) (if indexRight key (nd_bit n) then nd_right n else nd_left n))"

text \<open>insert from the second loop on: the branch above the node found, and the link to it.\<close>

definition branchNode :: "nat \<Rightarrow> nat \<Rightarrow> nat \<Rightarrow> nat \<Rightarrow> indexNode" where
  "branchNode key d leaf at =
    (if indexRight key d
     then \<lparr>nd_key = key, nd_value = 0, nd_bit = d, nd_left = at, nd_right = leaf\<rparr>
     else \<lparr>nd_key = key, nd_value = 0, nd_bit = d, nd_left = leaf, nd_right = at\<rparr>)"

definition linkNode :: "nat \<Rightarrow> indexNode \<Rightarrow> nat \<Rightarrow> indexNode" where
  "linkNode key n branch = (if indexRight key (nd_bit n) then n\<lparr>nd_right := branch\<rparr> else n\<lparr>nd_left := branch\<rparr>)"

definition insertBranch :: "(nat \<Rightarrow> error option) \<Rightarrow> signatureIndex \<Rightarrow> nat \<Rightarrow> nat \<Rightarrow> nat \<Rightarrow> (signatureIndex \<times> bool) result" where
  "insertBranch refuse x key d newLeaf =
    rbind (descend indexFuel x key d None (ix_root x)) (\<lambda>(parent, at).
    rbind (indexAppend refuse x (branchNode key d newLeaf at)) (\<lambda>(x, branchID).
    case parent of None \<Rightarrow> Inr (x\<lparr>ix_root := branchID\<rparr>, False)
    | Some (p, n) \<Rightarrow> rbind (indexPut x p (linkNode key n branchID)) (\<lambda>x. Inr (x, False))))"

definition indexInsert :: "(nat \<Rightarrow> error option) \<Rightarrow> signatureIndex \<Rightarrow> nat \<Rightarrow> nat \<Rightarrow> (signatureIndex \<times> bool) result" where
  "indexInsert refuse x key val =
    rbind (leafFrom indexFuel x key (ix_root x)) (\<lambda>l.
    if (case l of None \<Rightarrow> False | Some n \<Rightarrow> nd_key n = key) then Inr (x, True) else
    rbind (indexAppend refuse x \<lparr>nd_key = key, nd_value = val, nd_bit = 32, nd_left = 0, nd_right = 0\<rparr>) (\<lambda>(x, newLeaf).
    case l of None \<Rightarrow> Inr (x\<lparr>ix_root := newLeaf\<rparr>, False)
    | Some n \<Rightarrow> insertBranch refuse x key (32 - bitLen (key XOR nd_key n)) newLeaf))"

fun extreme :: "nat \<Rightarrow> signatureIndex \<Rightarrow> nat \<Rightarrow> bool \<Rightarrow> indexNode option result" where
  "extreme 0 x i right = (if i = 0 then Inr None else Inl unboundedWalk)"
| "extreme (Suc fuel) x i right =
    (if i = 0 then Inr None else
     rbind (indexGet x i) (\<lambda>n. if nd_bit n = 32 then Inr (Some n) else
     extreme fuel x (if right then nd_right n else nd_left n) right))"

text \<open>The walk of overlaps: \<open>None\<close> when the start is a key, else the two neighbours.\<close>

fun overlapWalk :: "nat \<Rightarrow> signatureIndex \<Rightarrow> nat \<Rightarrow> nat \<Rightarrow> nat \<Rightarrow> nat \<Rightarrow> (nat \<times> nat) option result" where
  "overlapWalk 0 x key at lower upper = (if at = 0 then Inr (Some (lower, upper)) else Inl unboundedWalk)"
| "overlapWalk (Suc fuel) x key at lower upper =
    (if at = 0 then Inr (Some (lower, upper)) else
     rbind (indexGet x at) (\<lambda>n.
     if nd_bit n = 32 then
       (if nd_key n = key then Inr None
        else if nd_key n < key then Inr (Some (at, upper)) else Inr (Some (lower, at)))
     else
     let s = key div 2 ^ (32 - nd_bit n); k = nd_key n div 2 ^ (32 - nd_bit n) in
     if s < k then Inr (Some (lower, at)) else
     if s > k then Inr (Some (at, upper)) else
     if indexRight key (nd_bit n) then overlapWalk fuel x key (nd_right n) (nd_left n) upper
     else overlapWalk fuel x key (nd_left n) lower (nd_right n)))"

definition indexOverlaps :: "signatureIndex \<Rightarrow> nat \<Rightarrow> nat \<Rightarrow> bool result" where
  "indexOverlaps x key fin =
    rbind (overlapWalk indexFuel x key (ix_root x) 0 0) (\<lambda>w.
    case w of None \<Rightarrow> Inr True
    | Some (lower, upper) \<Rightarrow>
      rbind (extreme indexFuel x lower True) (\<lambda>before.
      if (case before of None \<Rightarrow> False | Some n \<Rightarrow> nd_value n > key) then Inr True else
      rbind (extreme indexFuel x upper False) (\<lambda>after.
      Inr (case after of None \<Rightarrow> False | Some n \<Rightarrow> nd_key n < fin))))"

section \<open>The store\<close>

lemma bitLen_bounds: "0 < n \<Longrightarrow> 0 < bitLen n \<and> 2 ^ (bitLen n - 1) \<le> n \<and> n < 2 ^ bitLen n"
proof (induction n rule: bitLen.induct)
  case (1 n)
  show ?case
  proof (cases "n div 2 = 0")
    case True
    with 1 have "n = 1" by auto
    then show ?thesis by (simp add: bitLen.simps)
  next
    case False
    with 1 have ih: "0 < bitLen (n div 2)" "2 ^ (bitLen (n div 2) - 1) \<le> n div 2" "n div 2 < 2 ^ bitLen (n div 2)" by auto
    have len: "bitLen n = Suc (bitLen (n div 2))" using 1(2) by (subst bitLen.simps) simp
    obtain m where m: "bitLen (n div 2) = Suc m" using ih(1) by (cases "bitLen (n div 2)") auto
    then show ?thesis using ih len by (simp add: m) linarith
  qed
qed

text \<open>Row \<open>i - 1\<close> lies in its extent, at a multiple of the node size.\<close>

definition extentRows :: "nat \<Rightarrow> nat" where
  "extentRows e = indexFirstExtent * 2 ^ e"

lemma indexPosition_row:
  assumes "1 \<le> i" "i < 2 ^ 32"
  obtains e k where "indexPosition i = (e, k * 20)" "k < extentRows e" "i - 1 = indexFirstExtent * (2 ^ e - 1) + k" "e < 32"
proof -
  let ?row = "i - 1" let ?q = "?row div indexFirstExtent + 1" let ?e = "bitLen ?q - 1"
  have b: "0 < bitLen ?q" "2 ^ ?e \<le> ?q" "?q < 2 ^ bitLen ?q" using bitLen_bounds [of ?q] by auto
  then have e: "bitLen ?q = Suc ?e" by simp
  have base: "indexFirstExtent * (2 ^ ?e - 1) \<le> ?row"
  proof -
    have "2 ^ ?e - 1 \<le> ?row div indexFirstExtent" using b(2) by simp
    then have "indexFirstExtent * (2 ^ ?e - 1) \<le> indexFirstExtent * (?row div indexFirstExtent)" by (rule mult_le_mono2)
    also have "\<dots> \<le> ?row" by simp
    finally show ?thesis .
  qed
  have "?row div indexFirstExtent + 1 < 2 ^ Suc ?e" using b(3) by (subst e [symmetric])
  then have "?row div indexFirstExtent + 1 < 2 * 2 ^ ?e" by simp
  then have "?row div indexFirstExtent < 2 ^ ?e - 1 + 2 ^ ?e" by (simp add: less_diff_conv)
  then have "?row < (2 ^ ?e - 1 + 2 ^ ?e) * indexFirstExtent"
    by (simp add: div_less_iff_less_mult indexFirstExtent_def)
  then have "?row - indexFirstExtent * (2 ^ ?e - 1) < (2 ^ ?e - 1 + 2 ^ ?e) * indexFirstExtent - indexFirstExtent * (2 ^ ?e - 1)"
    by (rule diff_less_mono [OF _ base])
  also have "\<dots> = extentRows ?e"
    unfolding add_mult_distrib mult.commute [of indexFirstExtent "2 ^ ?e - 1"] diff_add_inverse by (simp add: extentRows_def)
  finally have k: "?row - indexFirstExtent * (2 ^ ?e - 1) < extentRows ?e" .
  have "?e < 32"
  proof (rule ccontr)
    assume "\<not> ?e < 32"
    then have "(2 :: nat) ^ 32 \<le> 2 ^ ?e" by (intro power_increasing) simp_all
    with b(2) have "2 ^ 32 \<le> ?row div indexFirstExtent + 1" by (rule order_trans [rotated])
    then show False using assms by (simp add: indexFirstExtent_def)
  qed
  moreover have "indexPosition i = (?e, (?row - indexFirstExtent * (2 ^ ?e - 1)) * 20)"
    by (simp only: indexPosition_def Let_def indexNodeSize_def)
  ultimately show thesis by (rule that [OF _ k le_add_diff_inverse [OF base, symmetric], rotated])
qed

text \<open>Different ids have different places.\<close>

lemma indexPosition_inject:
  assumes "1 \<le> i" "i < 2 ^ 32" "1 \<le> j" "j < 2 ^ 32" "indexPosition i = indexPosition j" shows "i = j"
proof -
  obtain e k where i: "indexPosition i = (e, k * 20)" "i - 1 = indexFirstExtent * (2 ^ e - 1) + k"
    using indexPosition_row [OF assms(1,2)] by metis
  obtain e' k' where j: "indexPosition j = (e', k' * 20)" "j - 1 = indexFirstExtent * (2 ^ e' - 1) + k'"
    using indexPosition_row [OF assms(3,4)] by metis
  have "e' = e" "k' = k" using assms(5) i(1) j(1) by auto
  with i(2) j(2) have "i - 1 = j - 1" by simp
  then show ?thesis using assms(1,3) by simp
qed

definition store_ok :: "signatureIndex \<Rightarrow> bool" where
  "store_ok x \<longleftrightarrow> length (ix_extents x) = 32 \<and>
     (\<forall>e < 32. ix_extents x ! e = [] \<or> length (ix_extents x ! e) = extentRows e * 20)"

definition held :: "signatureIndex \<Rightarrow> nat \<Rightarrow> bool" where
  "held x i \<longleftrightarrow> 1 \<le> i \<and> i < 2 ^ 32 \<and> ix_extents x ! fst (indexPosition i) \<noteq> []"

definition node_fits :: "indexNode \<Rightarrow> bool" where
  "node_fits n \<longleftrightarrow> nd_key n < 2 ^ 32 \<and> nd_value n < 2 ^ 32 \<and> nd_bit n < 2 ^ 32 \<and> nd_left n < 2 ^ 32 \<and> nd_right n < 2 ^ 32"

lemma node_roundtrip:
  assumes "node_fits n"
  shows "\<lparr>nd_key = be32 (nodeBytes n) 0, nd_value = be32 (nodeBytes n) 4, nd_bit = be32 (nodeBytes n) 8,
    nd_left = be32 (nodeBytes n) 12, nd_right = be32 (nodeBytes n) 16\<rparr> = n"
  using assms by (cases n) (simp add: node_fits_def nodeBytes_def byte_simps be32_put32 [of _ "[]", simplified])

lemma length_nodeBytes [simp]: "length (nodeBytes n) = 20"
  by (simp add: nodeBytes_def)

definition nodeAt :: "byte list \<Rightarrow> nat \<Rightarrow> indexNode" where
  "nodeAt b at = (let got = slice b at 20 in
     \<lparr>nd_key = be32 got 0, nd_value = be32 got 4, nd_bit = be32 got 8, nd_left = be32 got 12, nd_right = be32 got 16\<rparr>)"

lemma indexGet_at:
  assumes "indexPosition i = (e, at)" "e < length (ix_extents x)" "at + 20 \<le> length (ix_extents x ! e)"
  shows "indexGet x i = Inr (nodeAt (ix_extents x ! e) at)"
proof -
  let ?b = "ix_extents x ! e"
  have "content_reader (sectionReadAt (rangeBufferReadAt ?b) (int 0) (int (length ?b))) (slice ?b 0 (length ?b))"
    by (rule section_reader [OF range_buffer.content_reader_axioms]) simp
  from content_reader.read_at [OF this, of at 20] assms(3)
  have "fst (sectionReadAt (rangeBufferReadAt ?b) 0 (int (length ?b)) (int at) 20) = slice ?b at 20"
    "snd (sectionReadAt (rangeBufferReadAt ?b) 0 (int (length ?b)) (int at) 20) \<in> {None, Some IoEOF}"
    by (simp_all add: slice_def)
  then obtain e' where r: "sectionReadAt (rangeBufferReadAt ?b) 0 (int (length ?b)) (int at) 20 = (slice ?b at 20, e')"
      "e' = None \<or> e' = Some IoEOF"
    by (metis insert_iff prod.collapse singletonD)
  have "length (slice ?b at 20) = 20" using assms(3) by simp
  with r assms show ?thesis by (auto simp: indexGet_def Let_def indexNodeSize_def nodeAt_def)
qed

lemma held_at:
  assumes "store_ok x" "held x i"
  obtains e at where "indexPosition i = (e, at)" "e < 32" "at + 20 \<le> length (ix_extents x ! e)" "20 dvd at"
    "length (ix_extents x) = 32"
proof -
  from assms(2) have i: "1 \<le> i" "i < 2 ^ 32" by (simp_all add: held_def)
  obtain e k where p: "indexPosition i = (e, k * 20)" "k < extentRows e" "e < 32" using indexPosition_row [OF i] by metis
  have "k * 20 + 20 \<le> extentRows e * 20" using p(2) by (simp add: Suc_leI [of k, THEN mult_le_mono1, of 20, simplified])
  with assms p show thesis by (intro that [of e "k * 20"]) (auto simp: store_ok_def held_def)
qed

text \<open>A put node is what a get of its id returns; other ids are unaffected.\<close>

lemma indexPut_get:
  assumes ok: "store_ok x" and i: "held x i" and n: "node_fits n"
  obtains x' where "indexPut x i n = Inr x'" "store_ok x'" "\<And>j. held x' j = held x j"
    "\<And>j. held x j \<Longrightarrow> indexGet x' j = (if j = i then Inr n else indexGet x j)"
    "ix_count x' = ix_count x" "ix_root x' = ix_root x"
proof -
  obtain e at where p: "indexPosition i = (e, at)" "e < 32" "at + 20 \<le> length (ix_extents x ! e)" "20 dvd at" "length (ix_extents x) = 32"
    by (rule held_at [OF ok i])
  let ?b = "ix_extents x ! e" and ?b' = "overwrite at (nodeBytes n) (ix_extents x ! e)"
  let ?x = "x\<lparr>ix_extents := (ix_extents x)[e := ?b']\<rparr>"
  have len: "length ?b' = length ?b" using p(3) by simp
  have put: "indexPut x i n = Inr ?x"
    using p section_overwrites.overwrites [of at "nodeBytes n" "length ?b" ?b]
    by (simp add: indexPut_def indexNodeSize_def Let_def)
  have ext: "ix_extents ?x ! k = (if k = e then ?b' else ix_extents x ! k)" if "k < 32" for k
    using that p(5) by simp
  have ne: "?b' = [] \<longleftrightarrow> ?b = []" using len by (metis length_0_conv)
  have ok': "store_ok ?x"
    unfolding store_ok_def
  proof (intro conjI allI impI)
    show "length (ix_extents ?x) = 32" using p(5) by simp
    fix k :: nat assume k: "k < 32"
    have "ix_extents x ! k = [] \<or> length (ix_extents x ! k) = extentRows k * 20" using ok k by (simp add: store_ok_def)
    then show "ix_extents ?x ! k = [] \<or> length (ix_extents ?x ! k) = extentRows k * 20"
      unfolding ext [OF k] using len ne by (cases "k = e") simp_all
  qed
  have held': "held ?x j = held x j" for j
  proof (cases "1 \<le> j \<and> j < 2 ^ 32")
    case True
    then have "fst (indexPosition j) < 32" using indexPosition_row [of j] by (metis fst_conv)
    then show ?thesis unfolding held_def using ne by (simp only: ext split: if_splits) auto
  qed (auto simp: held_def)
  have "indexGet ?x j = (if j = i then Inr n else indexGet x j)" if j: "held x j" for j
  proof -
    obtain e' at' where q: "indexPosition j = (e', at')" "e' < 32" "at' + 20 \<le> length (ix_extents x ! e')" "20 dvd at'"
      using held_at [OF ok j] by metis
    have "at' + 20 \<le> length (ix_extents ?x ! e')" unfolding ext [OF q(2)] using q(3) len by (cases "e' = e") auto
    then have get: "indexGet ?x j = Inr (nodeAt (ix_extents ?x ! e') at')" "indexGet x j = Inr (nodeAt (ix_extents x ! e') at')"
      using q p(5) by (simp_all add: indexGet_at)
    note get = get(1) [unfolded ext [OF q(2)]] get(2)
    show ?thesis
    proof (cases "e' = e")
      case True
      show ?thesis
      proof (cases "j = i")
        case same: True
        with p q have "at' = at" by simp
        then have "nodeAt ?b' at' = n"
          using p n by (simp add: nodeAt_def Let_def slice_overwrite_same [of at "nodeBytes n", simplified] node_roundtrip)
        with get same True show ?thesis by simp
      next
        case other: False
        then have "at' \<noteq> at" using indexPosition_inject [of i j] i j p q True by (auto simp: held_def)
        then have "at' + 20 \<le> at \<or> at + 20 \<le> at'" using p(4) q(4) by (auto elim!: dvdE)
        then have "slice ?b' at' 20 = slice ?b at' 20"
          using p(3) slice_overwrite_before [of at' 20 at "nodeBytes n" ?b] slice_overwrite_after [of at "nodeBytes n" at' ?b 20]
            by auto
        with get other True show ?thesis by (simp add: nodeAt_def)
      qed
    next
      case False
      with get p(1) q(1) show ?thesis by auto
    qed
  qed
  with put ok' held' show thesis by (intro that [of ?x]) simp_all
qed

text \<open>The ids given out so far.\<close>

definition valid :: "signatureIndex \<Rightarrow> nat \<Rightarrow> bool" where
  "valid x i \<longleftrightarrow> 1 \<le> i \<and> i \<le> ix_count x"

definition index_store :: "signatureIndex \<Rightarrow> bool" where
  "index_store x \<longleftrightarrow> store_ok x \<and> ix_count x < 2 ^ 32 \<and> (\<forall>i. valid x i \<longrightarrow> held x i)"

lemma indexPut_valid:
  assumes "index_store x" "valid x i" "node_fits n"
  obtains x' where "indexPut x i n = Inr x'" "index_store x'" "ix_count x' = ix_count x" "ix_root x' = ix_root x"
    "indexGet x' i = Inr n" "\<And>j. valid x j \<Longrightarrow> j \<noteq> i \<Longrightarrow> indexGet x' j = indexGet x j"
proof -
  from assms have h: "store_ok x" "held x i" by (auto simp: index_store_def)
  obtain x' where x': "indexPut x i n = Inr x'" "store_ok x'" "\<And>j. held x' j = held x j"
    "\<And>j. held x j \<Longrightarrow> indexGet x' j = (if j = i then Inr n else indexGet x j)"
    "ix_count x' = ix_count x" "ix_root x' = ix_root x"
    by (rule indexPut_get [OF h assms(3)]) (rule that; assumption)
  from assms(1) x' have "index_store x'" by (simp add: index_store_def valid_def)
  with assms(1) x' h(2) show thesis by (intro that [of x']) (auto simp: index_store_def)
qed

text \<open>A new node is refused for want of ids or room, or stored under the next id.\<close>

definition refused :: "(nat \<Rightarrow> error option) \<Rightarrow> nat \<Rightarrow> error \<Rightarrow> bool" where
  "refused refuse n e \<longleftrightarrow> n \<ge> 2 ^ 32 \<and> e = Malformed ''signature index node overflow'' \<or> (\<exists>sz. refuse sz = Some e)"

lemma fresh_extent:
  assumes "index_store x" "e < 32" "ix_extents x ! e = []"
  defines "y \<equiv> x\<lparr>ix_extents := (ix_extents x)[e := replicate (extentRows e * 20) 0]\<rparr>"
  shows "index_store y" "ix_extents y ! e \<noteq> []" "\<And>j. valid x j \<Longrightarrow> indexGet y j = indexGet x j" "ix_count y = ix_count x" "ix_root y = ix_root x"
proof -
  let ?z = "replicate (extentRows e * 20) 0 :: byte list"
  have ok: "store_ok x" and len: "length (ix_extents x) = 32" using assms(1) by (simp_all add: index_store_def store_ok_def)
  have z: "?z \<noteq> []" by (simp add: extentRows_def indexFirstExtent_def)
  have ext: "ix_extents y ! k = (if k = e then ?z else ix_extents x ! k)" if "k < 32" for k
    using that len by (simp add: y_def)
  have pos: "fst (indexPosition j) < 32" if "valid x j" for j
    using that assms(1) indexPosition_row [of j] unfolding valid_def index_store_def by (metis fst_conv order_le_less_trans)
  show ne: "ix_extents y ! e \<noteq> []" unfolding ext [OF assms(2)] using z by simp
  show sizes: "ix_count y = ix_count x" "ix_root y = ix_root x" by (simp_all add: y_def)
  have "store_ok y"
    unfolding store_ok_def
  proof (intro conjI allI impI)
    show "length (ix_extents y) = 32" using len by (simp add: y_def)
    fix k :: nat assume k: "k < 32"
    show "ix_extents y ! k = [] \<or> length (ix_extents y ! k) = extentRows k * 20"
      unfolding ext [OF k] using ok k by (simp add: store_ok_def)
  qed
  moreover have "held y j" if "valid x j" for j
  proof -
    have "held x j" using assms(1) that by (simp add: index_store_def)
    then show ?thesis unfolding held_def ext [OF pos [OF that]] using z by simp
  qed
  ultimately show "index_store y" using assms(1) sizes by (simp add: index_store_def valid_def)
  fix j assume j: "valid x j"
  have "held x j" using assms(1) j by (simp add: index_store_def)
  then obtain f at where p: "indexPosition j = (f, at)" "f < 32" "at + 20 \<le> length (ix_extents x ! f)"
    using held_at [OF ok] by metis
  have "f \<noteq> e" using \<open>held x j\<close> p(1) assms(3) by (auto simp: held_def)
  then have "ix_extents y ! f = ix_extents x ! f" unfolding ext [OF p(2)] by simp
  with p len show "indexGet y j = indexGet x j"
    using indexGet_at [of j f at y] indexGet_at [of j f at x] by (simp add: y_def)
qed

lemma indexAppend_cases:
  assumes x: "index_store x" and n: "node_fits n"
  obtains e where "indexAppend refuse x n = Inl e" "refused refuse (ix_count x + 1) e"
  | x' where "indexAppend refuse x n = Inr (x', ix_count x + 1)" "index_store x'" "ix_count x' = ix_count x + 1" "ix_root x' = ix_root x"
    "indexGet x' (ix_count x + 1) = Inr n" "\<And>j. valid x j \<Longrightarrow> indexGet x' j = indexGet x j"
proof (cases "ix_count x + 1 < 2 ^ 32")
  case False
  with x have "ix_count x + 1 = 2 ^ 32" by (simp add: index_store_def)
  then have "indexAppend refuse x n = Inl (Malformed ''signature index node overflow'')"
    by (simp add: indexAppend_def)
  then show thesis using False by (intro that(1)) (auto simp: refused_def)
next
  case True
  note stored_at = that(2)
  let ?i = "ix_count x + 1"
  have mod: "?i mod 2 ^ 32 = ?i" using True by (rule mod_less)
  obtain e k where p: "indexPosition ?i = (e, k * 20)" "e < 32" using indexPosition_row [of ?i] True by (metis le_add2)
  have len: "length (ix_extents x) = 32" using x by (simp add: index_store_def store_ok_def)
  have sz: "indexFirstExtent * 2 ^ e * indexNodeSize = extentRows e * 20" by (simp add: extentRows_def indexNodeSize_def)
  have stored: thesis
    if y: "index_store y" "ix_count y = ix_count x" "ix_root y = ix_root x" "ix_extents y ! e \<noteq> []"
      "\<And>j. valid x j \<Longrightarrow> indexGet y j = indexGet x j"
      and run: "indexAppend refuse x n = rbind (indexPut y ?i n) (\<lambda>x. Inr (x\<lparr>ix_count := ?i\<rparr>, ?i))" for y
  proof -
    have "store_ok y" "held y ?i" using y True p by (simp_all add: index_store_def held_def)
    then obtain z where z: "indexPut y ?i n = Inr z" "store_ok z" "\<And>j. held z j = held y j"
      "\<And>j. held y j \<Longrightarrow> indexGet z j = (if j = ?i then Inr n else indexGet y j)" "ix_root z = ix_root y"
      using indexPut_get [OF _ _ n] by metis
    let ?z = "z\<lparr>ix_count := ?i\<rparr>"
    have "ix_extents ?z = ix_extents z" by simp
    then have get: "indexGet ?z j = indexGet z j" for j unfolding indexGet_def by (simp only:)
    have heldz: "held ?z j = held z j" for j by (simp add: held_def)
    have "held ?z j" if "valid ?z j" for j
      using that y(1,2) z(3) \<open>held y ?i\<close> unfolding heldz index_store_def valid_def by (cases "j = ?i") auto
    then have "index_store ?z" using True z(2) by (simp add: index_store_def store_ok_def)
    moreover have "indexGet ?z j = indexGet x j" if "valid x j" for j
      unfolding get using that y z(4) [of j] by (auto simp: index_store_def valid_def)
    moreover have "indexGet ?z ?i = Inr n" unfolding get using z(4) \<open>held y ?i\<close> by simp
    ultimately show thesis using z run y(3) by (intro stored_at [of ?z]) simp_all
  qed
  show thesis
  proof (cases "ix_extents x ! e = []")
    case False
    have "indexAppend refuse x n = rbind (indexPut x ?i n) (\<lambda>x. Inr (x\<lparr>ix_count := ?i\<rparr>, ?i))"
      unfolding indexAppend_def Let_def mod p using False p(2) len by simp
    then show thesis using x False by (intro stored [of x]) simp_all
  next
    case free: True
    show thesis
    proof (cases "refuse (extentRows e * 20)")
      case (Some err)
      then have "indexAppend refuse x n = Inl err"
        unfolding indexAppend_def Let_def mod p using free p(2) len by (simp add: sz)
      then show thesis using Some by (intro that(1)) (auto simp: refused_def)
    next
      case None
      then have "indexAppend refuse x n =
          rbind (indexPut (x\<lparr>ix_extents := (ix_extents x)[e := replicate (extentRows e * 20) 0]\<rparr>) ?i n)
            (\<lambda>x. Inr (x\<lparr>ix_count := ?i\<rparr>, ?i))"
        unfolding indexAppend_def Let_def mod p using free p(2) len by (simp add: sz)
      with fresh_extent [OF x p(2) free] show thesis by (intro stored) simp_all
    qed
  qed
qed

end
