(* ===== verification/Index_Map.thy ===== *)
theory Index_Map
  imports Signature_Index
begin

unbundle bit_operations_syntax

text \<open>
  The signature index as a finite map: the Patricia trees its nodes represent, and find, insert
  and overlaps as lookup, update and interval intersection.
\<close>

section \<open>Keys\<close>

text \<open>The first \<open>b\<close> of 32 bits agree.\<close>

definition agree :: "nat \<Rightarrow> nat \<Rightarrow> nat \<Rightarrow> bool" where
  "agree b k k' \<longleftrightarrow> k div 2 ^ (32 - b) = k' div 2 ^ (32 - b)"

lemma agree_refl [simp]: "agree b k k" by (simp add: agree_def)
lemma agree_sym: "agree b k k' \<Longrightarrow> agree b k' k" by (simp add: agree_def)
lemma agree_trans: "agree b k k' \<Longrightarrow> agree b k' k'' \<Longrightarrow> agree b k k''" by (simp add: agree_def)

lemma agree_le:
  assumes "agree b k k'" "a \<le> b" "b \<le> 32" shows "agree a k k'"
proof -
  have split: "x div 2 ^ (32 - a) = x div 2 ^ (32 - b) div 2 ^ (b - a)" for x :: nat
  proof -
    have "2 ^ (32 - b) * 2 ^ (b - a) = (2 :: nat) ^ (32 - a)" using assms(2,3) by (simp flip: power_add)
    then show ?thesis by (simp add: div_mult2_eq [symmetric])
  qed
  show ?thesis using assms(1) unfolding agree_def split by simp
qed

lemma agree_Suc: "b < 32 \<Longrightarrow> agree (Suc b) k k' \<longleftrightarrow> agree b k k' \<and> indexRight k b = indexRight k' b"
proof -
  assume b: "b < 32"
  have e: "32 - b = Suc (31 - b)" "32 - Suc b = 31 - b" using b by simp_all
  have d: "x div 2 ^ (32 - b) = x div 2 ^ (31 - b) div 2" for x :: nat
    unfolding e by (simp add: div_mult2_eq [symmetric] mult.commute)
  have r: "indexRight x b = odd (x div 2 ^ (31 - b))" for x by (simp add: indexRight_def bit_iff_odd)
  have "(m = n) = (m div 2 = n div 2 \<and> odd m = odd n)" for m n :: nat by presburger
  then show ?thesis unfolding agree_def d r e(2) by blast
qed

lemma agree_order:
  assumes "agree b k k'" "b < 32" "\<not> indexRight k b" "indexRight k' b" shows "k < k'"
proof -
  let ?p = "2 ^ (31 - b) :: nat"
  have e: "32 - b = Suc (31 - b)" using assms(2) by simp
  have "k div ?p div 2 = k' div ?p div 2" using assms(1) unfolding agree_def e by (simp add: div_mult2_eq [symmetric] mult.commute)
  moreover have "even (k div ?p)" "odd (k' div ?p)" using assms(3,4) by (simp_all add: indexRight_def bit_iff_odd)
  moreover have "m div 2 = n div 2 \<Longrightarrow> even m \<Longrightarrow> odd n \<Longrightarrow> m < n" for m n :: nat by presburger
  ultimately have "k div ?p < k' div ?p" by blast
  then show ?thesis by (meson div_le_mono leD leI)
qed

lemma agree_less: "k div 2 ^ (32 - b) < k' div 2 ^ (32 - b) \<Longrightarrow> k < (k' :: nat)"
  by (meson div_le_mono leD leI)

lemma xor_zero: "k XOR k' = 0 \<Longrightarrow> k = (k' :: nat)"
  by (rule bit_eqI) (metis bit_0_eq bit_xor_iff bot_apply bot_bool_def)

text \<open>bits.LeadingZeros32 of the exclusive or is the first differing bit.\<close>

lemma differing:
  assumes "k < 2 ^ 32" "k' < 2 ^ 32" "k \<noteq> k'"
  defines "d \<equiv> 32 - bitLen (k XOR k')"
  shows "d < 32" "agree d k k'" "indexRight k d \<noteq> indexRight k' d"
proof -
  let ?x = "k XOR k'" let ?n = "bitLen ?x"
  have x: "0 < ?x" using assms(3) xor_zero by blast
  have "?x div 2 ^ 32 = k div 2 ^ 32 XOR k' div 2 ^ 32" by (simp only: drop_bit_eq_div [symmetric] drop_bit_xor)
  also have "\<dots> = 0" using assms(1,2) by simp
  finally have lt: "?x < 2 ^ 32" by (simp add: div_eq_0_iff)
  note b = bitLen_bounds [OF x]
  have n: "0 < ?n" "?n \<le> 32"
  proof -
    show "0 < ?n" using b by simp
    have "(2 :: nat) ^ (?n - 1) < 2 ^ 32" using b lt by (meson order_le_less_trans)
    then have "?n - 1 < 32" by (simp only: power_strict_increasing_iff one_less_numeral_iff semiring_norm)
    then show "?n \<le> 32" by simp
  qed
  show "d < 32" using n by (simp add: d_def)
  have dn: "32 - d = ?n" "31 - d = ?n - 1" using n by (auto simp: d_def)
  have "?x div 2 ^ ?n = 0" using b by simp
  then have "k div 2 ^ ?n XOR k' div 2 ^ ?n = 0" by (simp flip: drop_bit_eq_div add: drop_bit_xor)
  then show "agree d k k'" unfolding agree_def dn by (rule xor_zero)
  have "bit ?x (?n - 1)"
  proof -
    have "?x div 2 ^ (?n - 1) = 1"
    proof (rule div_nat_eqI)
      show "2 ^ (?n - 1) * 1 \<le> ?x" using b by simp
      have "2 ^ (?n - 1) * Suc 1 = (2 :: nat) ^ ?n" using n(1) by (cases ?n) simp_all
      then show "?x < 2 ^ (?n - 1) * Suc 1" using b by simp
    qed
    then show ?thesis by (simp add: bit_iff_odd)
  qed
  then show "indexRight k d \<noteq> indexRight k' d" unfolding indexRight_def dn by (simp add: bit_xor_iff)
qed

section \<open>Patricia trees\<close>

text \<open>A node with its id: a leaf with key and value, or a branch with a key below it and its bit.\<close>

datatype ptree = Tip (rootId: nat) (pkey: nat) nat | Bin (rootId: nat) (pkey: nat) nat ptree ptree

fun bitOf :: "ptree \<Rightarrow> nat" where
  "bitOf (Tip i k v) = 32"
| "bitOf (Bin i k b l r) = b"

fun entries :: "ptree \<Rightarrow> (nat \<times> nat) list" where
  "entries (Tip i k v) = [(k, v)]"
| "entries (Bin i k b l r) = entries l @ entries r"

fun ids :: "ptree \<Rightarrow> nat set" where
  "ids (Tip i k v) = {i}"
| "ids (Bin i k b l r) = insert i (ids l \<union> ids r)"

fun distinct_ids :: "ptree \<Rightarrow> bool" where
  "distinct_ids (Tip i k v) = True"
| "distinct_ids (Bin i k b l r) = (i \<notin> ids l \<and> i \<notin> ids r \<and> ids l \<inter> ids r = {} \<and> distinct_ids l \<and> distinct_ids r)"

fun height :: "ptree \<Rightarrow> nat" where
  "height (Tip i k v) = 1"
| "height (Bin i k b l r) = Suc (max (height l) (height r))"

abbreviation keys :: "ptree \<Rightarrow> nat set" where "keys t \<equiv> fst ` set (entries t)"

text \<open>Bits grow on the way down; below a branch the keys share its prefix and split at its bit.\<close>

fun pok :: "ptree \<Rightarrow> bool" where
  "pok (Tip i k v) = (k < 2 ^ 32 \<and> v < 2 ^ 32)"
| "pok (Bin i k b l r) = (b < 32 \<and> k < 2 ^ 32 \<and> b < bitOf l \<and> b < bitOf r \<and> pok l \<and> pok r \<and>
     (\<forall>k' \<in> keys l. agree b k k' \<and> \<not> indexRight k' b) \<and> (\<forall>k' \<in> keys r. agree b k k' \<and> indexRight k' b))"

fun node_of :: "ptree \<Rightarrow> indexNode" where
  "node_of (Tip i k v) = \<lparr>nd_key = k, nd_value = v, nd_bit = 32, nd_left = 0, nd_right = 0\<rparr>"
| "node_of (Bin i k b l r) = \<lparr>nd_key = k, nd_value = 0, nd_bit = b, nd_left = rootId l, nd_right = rootId r\<rparr>"

text \<open>The tree's nodes lie in the store.\<close>

fun rep :: "signatureIndex \<Rightarrow> ptree \<Rightarrow> bool" where
  "rep x (Tip i k v) = (valid x i \<and> indexGet x i = Inr (node_of (Tip i k v)))"
| "rep x (Bin i k b l r) = (valid x i \<and> indexGet x i = Inr (node_of (Bin i k b l r)) \<and> rep x l \<and> rep x r)"

lemma rep_root: "rep x t \<Longrightarrow> valid x (rootId t) \<and> indexGet x (rootId t) = Inr (node_of t)"
  by (cases t) auto

lemma root_in_ids [simp]: "rootId t \<in> ids t" by (cases t) auto

lemma rep_ids: "rep x t \<Longrightarrow> i \<in> ids t \<Longrightarrow> valid x i"
  by (induction t) auto

lemma root_pos: "rep x t \<Longrightarrow> rootId t \<noteq> 0"
  using rep_root by (fastforce simp: valid_def)

lemma node_of_bit [simp]: "nd_bit (node_of t) = bitOf t" "nd_key (node_of t) = pkey t" by (cases t; simp)+

text \<open>A store that keeps the tree's nodes keeps the tree.\<close>

lemma rep_frame: "rep x t \<Longrightarrow> (\<And>i. i \<in> ids t \<Longrightarrow> valid x' i \<and> indexGet x' i = indexGet x i) \<Longrightarrow> rep x' t"
  by (induction t) auto

lemma entries_nonempty [simp]: "entries t \<noteq> []" by (induction t) auto

lemma height_bit: "pok t \<Longrightarrow> height t + bitOf t \<le> 33"
  by (induction t) auto

lemma height_fuel: "pok t \<Longrightarrow> height t \<le> indexFuel"
  using height_bit [of t] by (simp add: indexFuel_def)

lemma entries_bounds: "pok t \<Longrightarrow> (k, v) \<in> set (entries t) \<Longrightarrow> k < 2 ^ 32 \<and> v < 2 ^ 32"
  by (induction t) auto

text \<open>All keys of a tree agree on the bits before the root's.\<close>

lemma keys_agree: "pok t \<Longrightarrow> k \<in> keys t \<Longrightarrow> k' \<in> keys t \<Longrightarrow> agree (bitOf t) k k'"
proof (cases t)
  case (Bin i b0 b l r)
  assume "pok t" "k \<in> keys t" "k' \<in> keys t"
  with Bin have "agree b b0 k" "agree b b0 k'" by auto
  with Bin show ?thesis by (auto intro: agree_trans agree_sym)
qed auto

lemma left_before_right:
  assumes "pok (Bin i k b l r)" "k1 \<in> keys l" "k2 \<in> keys r" shows "k1 < k2"
proof (rule agree_order)
  have "agree b k k1" "agree b k k2" using assms by auto
  then show "agree b k1 k2" by (blast intro: agree_trans agree_sym)
  show "b < 32" "\<not> indexRight k1 b" "indexRight k2 b" using assms by auto
qed

lemma entries_sorted: "pok t \<Longrightarrow> sorted_wrt (<) (map fst (entries t))"
proof (induction t)
  case (Bin i k b l r)
  then show ?case using left_before_right [OF Bin.prems] by (force simp: sorted_wrt_append)
qed simp

lemma entries_distinct: "pok t \<Longrightarrow> distinct (map fst (entries t))"
  using entries_sorted strict_sorted_iff by blast

section \<open>Lookup\<close>

text \<open>The leaf the key's bits lead to.\<close>

fun tleaf :: "nat \<Rightarrow> ptree \<Rightarrow> nat \<times> nat" where
  "tleaf key (Tip i k v) = (k, v)"
| "tleaf key (Bin i k b l r) = tleaf key (if indexRight key b then r else l)"

fun leafTip :: "nat \<Rightarrow> ptree \<Rightarrow> ptree" where
  "leafTip key (Tip i k v) = Tip i k v"
| "leafTip key (Bin i k b l r) = leafTip key (if indexRight key b then r else l)"

lemma tleaf_entry: "tleaf key t \<in> set (entries t)"
  by (induction t) auto

lemma leafTip_node: "node_of (leafTip key t) = \<lparr>nd_key = fst (tleaf key t), nd_value = snd (tleaf key t), nd_bit = 32, nd_left = 0, nd_right = 0\<rparr>"
  by (induction t) auto

lemma leafFrom_tree:
  "rep x t \<Longrightarrow> pok t \<Longrightarrow> height t \<le> fuel \<Longrightarrow> leafFrom fuel x key (rootId t) = Inr (Some (node_of (leafTip key t)))"
proof (induction t arbitrary: fuel)
  case (Tip i k v)
  then obtain f where "fuel = Suc f" by (cases fuel) auto
  with Tip show ?case by (auto simp: valid_def)
next
  case (Bin i k b l r)
  then obtain f where f: "fuel = Suc f" by (cases fuel) auto
  with Bin have "leafFrom f x key (rootId l) = Inr (Some (node_of (leafTip key l)))"
    "leafFrom f x key (rootId r) = Inr (Some (node_of (leafTip key r)))" by auto
  with Bin.prems f show ?case by (auto simp: valid_def)
qed

lemma tleaf_found: "pok t \<Longrightarrow> k \<in> keys t \<Longrightarrow> fst (tleaf k t) = k"
  by (induction t) auto

lemma tleaf_lookup:
  assumes "pok t"
  shows "map_of (entries t) key = (if fst (tleaf key t) = key then Some (snd (tleaf key t)) else None)"
proof (cases "fst (tleaf key t) = key")
  case True
  then have "(key, snd (tleaf key t)) \<in> set (entries t)" using tleaf_entry [of key t] by (metis prod.collapse)
  then show ?thesis using True entries_distinct [OF assms] by simp
next
  case False
  then have "key \<notin> keys t" using tleaf_found [OF assms] by blast
  then show ?thesis using False by (simp add: map_of_eq_None_iff)
qed

text \<open>The index represents the map \<open>m\<close>.\<close>

definition index_abs :: "signatureIndex \<Rightarrow> (nat \<rightharpoonup> nat) \<Rightarrow> bool" where
  "index_abs x m \<longleftrightarrow> index_store x \<and>
     (ix_root x = 0 \<and> m = Map.empty \<or>
      (\<exists>t. ix_root x = rootId t \<and> rep x t \<and> pok t \<and> distinct_ids t \<and> m = map_of (entries t)))"

lemma indexFind_map:
  assumes "index_abs x m" shows "indexFind x key = Inr (m key)"
  using assms unfolding index_abs_def
proof (elim conjE disjE exE)
  assume "ix_root x = 0" "m = Map.empty"
  then show ?thesis by (simp add: indexFind_def indexFuel_def numeral_eq_Suc)
next
  fix t assume t: "ix_root x = rootId t" "rep x t" "pok t" "m = map_of (entries t)"
  show ?thesis
    using leafFrom_tree [OF t(2,3) height_fuel [OF t(3)]] tleaf_lookup [OF t(3), of key]
    by (simp add: indexFind_def t(1,4) leafTip_node)
qed

lemma emptyIndex_abs: "index_abs emptyIndex Map.empty"
  by (simp add: index_abs_def emptyIndex_def index_store_def store_ok_def valid_def)

section \<open>Insertion\<close>

text \<open>The new branch above \<open>t\<close>, and the tree with it at its place.\<close>

definition branchTree :: "nat \<Rightarrow> nat \<Rightarrow> nat \<Rightarrow> nat \<Rightarrow> nat \<Rightarrow> ptree \<Rightarrow> ptree" where
  "branchTree key v d leaf branch t =
    (if indexRight key d then Bin branch key d t (Tip leaf key v) else Bin branch key d (Tip leaf key v) t)"

fun graft :: "nat \<Rightarrow> nat \<Rightarrow> nat \<Rightarrow> nat \<Rightarrow> nat \<Rightarrow> ptree \<Rightarrow> ptree" where
  "graft key v d leaf branch (Tip i k w) = branchTree key v d leaf branch (Tip i k w)"
| "graft key v d leaf branch (Bin i k b l r) =
    (if b \<ge> d then branchTree key v d leaf branch (Bin i k b l r)
     else if indexRight key b then Bin i k b l (graft key v d leaf branch r)
     else Bin i k b (graft key v d leaf branch l) r)"

lemma graft_stop: "bitOf t \<ge> d \<Longrightarrow> d \<le> 32 \<Longrightarrow> graft key v d leaf branch t = branchTree key v d leaf branch t"
  by (cases t) auto

lemma rootId_branchTree [simp]: "rootId (branchTree key v d leaf branch t) = branch"
  by (simp add: branchTree_def)

lemma rootId_graft: "bitOf t < d \<Longrightarrow> d \<le> 32 \<Longrightarrow> rootId (graft key v d leaf branch t) = rootId t"
  by (cases t) auto

lemma branchTree_rep:
  assumes "rep x t" "rep x (Tip leaf key v)" "valid x branch" "indexGet x branch = Inr (branchNode key d leaf (rootId t))"
  shows "rep x (branchTree key v d leaf branch t)"
  using assms by (auto simp: branchTree_def branchNode_def)

text \<open>
  What an update of the store after the descent has to do: the parent's link is changed, the
  other nodes are kept, and the new leaf and branch are there.
\<close>

definition grafted :: "signatureIndex \<Rightarrow> signatureIndex \<Rightarrow> nat set \<Rightarrow> (nat \<times> indexNode) option \<Rightarrow> nat \<Rightarrow> nat \<Rightarrow> nat \<Rightarrow> nat \<Rightarrow> nat \<Rightarrow> nat \<Rightarrow> bool" where
  "grafted x x' is parent key v d leaf branch at \<longleftrightarrow>
    (\<forall>i \<in> is. valid x' i) \<and> (\<forall>i \<in> is. parent = None \<or> i \<noteq> fst (the parent) \<longrightarrow> indexGet x' i = indexGet x i) \<and>
    (case parent of None \<Rightarrow> True | Some (p, n) \<Rightarrow> indexGet x' p = Inr (linkNode key n branch)) \<and>
    rep x' (Tip leaf key v) \<and> valid x' branch \<and> indexGet x' branch = Inr (branchNode key d leaf at)"

lemma grafted_mono: "grafted x x' is parent key v d leaf branch at \<Longrightarrow> js \<subseteq> is \<Longrightarrow> grafted x x' js parent key v d leaf branch at"
  unfolding grafted_def by blast

text \<open>The descent stops at the root, or finds the parent of the new branch.\<close>

lemma descend_graft:
  assumes "rep x t" "distinct_ids t" "height t \<le> fuel" "d \<le> 32"
  shows "\<exists>parent' at. descend fuel x key d parent (rootId t) = Inr (parent', at) \<and> at \<in> ids t \<and>
    (if bitOf t \<ge> d then parent' = parent \<and> at = rootId t
     else \<exists>p n. parent' = Some (p, n) \<and> p \<in> ids t \<and> indexGet x p = Inr n \<and>
       (\<forall>x'. grafted x x' (ids t) (Some (p, n)) key v d leaf branch at \<longrightarrow> rep x' (graft key v d leaf branch t)))"
  using assms
proof (induction t arbitrary: fuel parent)
  case (Tip i k w)
  then obtain f where "fuel = Suc f" by (cases fuel) auto
  with Tip show ?case by auto
next
  case (Bin i k b l r)
  then obtain f where f: "fuel = Suc f" by (cases fuel) auto
  show ?case
  proof (cases "b \<ge> d")
    case True
    with Bin.prems f show ?thesis by auto
  next
    case False
    let ?n = "node_of (Bin i k b l r)"
    define c where "c = (if indexRight key b then r else l)"
    have get: "indexGet x i = Inr ?n" "valid x i" and lr: "rep x l" "rep x r" using Bin.prems(1) by auto
    have c: "rep x c" "distinct_ids c" "height c \<le> f" "i \<notin> ids c" "ids c \<subseteq> ids (Bin i k b l r)"
      using Bin.prems f by (auto simp: c_def)
    have step: "descend fuel x key d parent (rootId (Bin i k b l r)) = descend f x key d (Some (i, ?n)) (rootId c)"
      using get(1) False f by (simp add: c_def)
    have ih: "\<exists>parent' at. descend f x key d (Some (i, ?n)) (rootId c) = Inr (parent', at) \<and> at \<in> ids c \<and>
      (if bitOf c \<ge> d then parent' = Some (i, ?n) \<and> at = rootId c
       else \<exists>p n. parent' = Some (p, n) \<and> p \<in> ids c \<and> indexGet x p = Inr n \<and>
         (\<forall>x'. grafted x x' (ids c) (Some (p, n)) key v d leaf branch at \<longrightarrow> rep x' (graft key v d leaf branch c)))"
    proof (cases "indexRight key b")
      case True
      then have "c = r" by (simp add: c_def)
      then show ?thesis using Bin.IH(2) [OF lr(2)] c(2,3) Bin.prems(4) by presburger
    next
      case False
      then have "c = l" by (simp add: c_def)
      then show ?thesis using Bin.IH(1) [OF lr(1)] c(2,3) Bin.prems(4) by presburger
    qed
    then obtain parent' at where run: "descend f x key d (Some (i, ?n)) (rootId c) = Inr (parent', at)" "at \<in> ids c"
      and alt: "if bitOf c \<ge> d then parent' = Some (i, ?n) \<and> at = rootId c
       else \<exists>p n. parent' = Some (p, n) \<and> p \<in> ids c \<and> indexGet x p = Inr n \<and>
         (\<forall>x'. grafted x x' (ids c) (Some (p, n)) key v d leaf branch at \<longrightarrow> rep x' (graft key v d leaf branch c))" by blast
    show ?thesis
    proof (cases "bitOf c \<ge> d")
      case stop: True
      then have pa: "parent' = Some (i, ?n)" "at = rootId c" using alt by auto
      have "rep x' (graft key v d leaf branch (Bin i k b l r))"
        if g: "grafted x x' (ids (Bin i k b l r)) (Some (i, ?n)) key v d leaf branch at" for x'
      proof -
        have fr: "rep x' u" if "rep x u" "ids u \<subseteq> ids l \<union> ids r" for u
        proof (rule rep_frame [OF that(1)])
          fix j assume "j \<in> ids u"
          then have "j \<in> ids (Bin i k b l r)" "j \<noteq> i" using that(2) Bin.prems(2) by auto
          then show "valid x' j \<and> indexGet x' j = indexGet x j" using g by (simp add: grafted_def)
        qed
        have link: "indexGet x' i = Inr (linkNode key ?n branch)" "valid x' i" using g by (auto simp: grafted_def)
        have "rep x' (branchTree key v d leaf branch c)"
          using g fr [OF c(1)] pa(2) unfolding grafted_def by (intro branchTree_rep) (simp_all add: c_def)
        then have "rep x' (graft key v d leaf branch c)" using stop Bin.prems(4) by (simp add: graft_stop)
        moreover have "rootId (graft key v d leaf branch c) = branch" using stop Bin.prems(4) by (simp add: graft_stop)
        ultimately show ?thesis using False link fr [OF lr(1)] fr [OF lr(2)]
          by (auto simp: c_def linkNode_def split: if_splits)
      qed
      note rep' = this
      have "descend fuel x key d parent (rootId (Bin i k b l r)) = Inr (Some (i, ?n), rootId c)" using run(1) pa step by simp
      moreover have "\<not> bitOf (Bin i k b l r) \<ge> d" "i \<in> ids (Bin i k b l r)" using False by simp_all
      moreover have "rootId c \<in> ids (Bin i k b l r)" using c(5) root_in_ids by (rule subsetD)
      ultimately show ?thesis using get(1) rep' pa(2) by (metis (no_types, lifting))
    next
      case down: False
      then obtain p n where pn: "parent' = Some (p, n)" "p \<in> ids c" "indexGet x p = Inr n"
        and sub: "\<And>x'. grafted x x' (ids c) (Some (p, n)) key v d leaf branch at \<Longrightarrow> rep x' (graft key v d leaf branch c)"
        using alt by auto
      have "rep x' (graft key v d leaf branch (Bin i k b l r))"
        if g: "grafted x x' (ids (Bin i k b l r)) (Some (p, n)) key v d leaf branch at" for x'
      proof -
        have cg: "rep x' (graft key v d leaf branch c)" using sub grafted_mono [OF g c(5)] by blast
        have "i \<noteq> p" using c(4) pn(2) by blast
        then have i: "valid x' i" "indexGet x' i = Inr ?n" using g get by (auto simp: grafted_def)
        have rid: "rootId (graft key v d leaf branch c) = rootId c" using down Bin.prems(4) by (simp add: rootId_graft)
        show ?thesis
        proof (cases "indexRight key b")
          case True
          then have "p \<notin> ids l" using pn(2) Bin.prems(2) by (auto simp: c_def)
          then have "rep x' l" using g by (intro rep_frame [OF lr(1)]) (auto simp: grafted_def)
          then show ?thesis using True False cg i rid by (simp add: c_def)
        next
          case left: False
          then have "p \<notin> ids r" using pn(2) Bin.prems(2) by (auto simp: c_def)
          then have "rep x' r" using g by (intro rep_frame [OF lr(2)]) (auto simp: grafted_def)
          then show ?thesis using left False cg i rid by (simp add: c_def)
        qed
      qed
      note rep' = this
      have "descend fuel x key d parent (rootId (Bin i k b l r)) = Inr (Some (p, n), at)" using run(1) pn(1) step by simp
      moreover have "\<not> bitOf (Bin i k b l r) \<ge> d" "p \<in> ids (Bin i k b l r)" "at \<in> ids (Bin i k b l r)"
        using False pn(2) run(2) c(5) by auto
      ultimately show ?thesis using pn(3) rep' by (metis (no_types, lifting))
    qed
  qed
qed

lemma graft_entries: "set (entries (graft key v d leaf branch t)) = insert (key, v) (set (entries t))"
  by (induction t) (auto simp: branchTree_def)

lemma graft_ids: "ids (graft key v d leaf branch t) = insert leaf (insert branch (ids t))"
  by (induction t) (auto simp: branchTree_def)

lemma graft_distinct:
  "distinct_ids t \<Longrightarrow> leaf \<notin> ids t \<Longrightarrow> branch \<notin> ids t \<Longrightarrow> leaf \<noteq> branch \<Longrightarrow> distinct_ids (graft key v d leaf branch t)"
  by (induction t) (auto simp: branchTree_def graft_ids)

lemma branchTree_pok:
  assumes "pok t" "d < bitOf t" "key < 2 ^ 32" "v < 2 ^ 32"
    and "\<And>k'. k' \<in> keys t \<Longrightarrow> agree d key k' \<and> indexRight k' d \<noteq> indexRight key d"
  shows "pok (branchTree key v d leaf branch t)"
proof -
  have "bitOf t \<le> 32" using assms(1) by (cases t) auto
  with assms show ?thesis by (cases "indexRight key d") (simp_all add: branchTree_def)
qed

lemma graft_pok:
  assumes "pok t" "d < 32" "key < 2 ^ 32" "v < 2 ^ 32" "agree d key (fst (tleaf key t))"
    "indexRight key d \<noteq> indexRight (fst (tleaf key t)) d"
  shows "pok (graft key v d leaf branch t) \<and> bitOf (graft key v d leaf branch t) = min d (bitOf t)"
  using assms
proof (induction t)
  case (Tip i k w)
  then show ?case by (auto simp: branchTree_def)
next
  case (Bin i k b l r)
  let ?t = "Bin i k b l r" and ?k0 = "fst (tleaf key (Bin i k b l r))"
  have k0: "?k0 \<in> keys ?t" by (rule imageI [OF tleaf_entry])
  have child: "?k0 \<in> keys (if indexRight key b then r else l)"
    using imageI [OF tleaf_entry, of fst key "if indexRight key b then r else l"] by simp
  have dir: "indexRight ?k0 b = indexRight key b" "agree b k ?k0"
    using child Bin.prems(1) by (auto split: if_splits)
  show ?case
  proof (cases "b \<ge> d")
    case True
    with dir(1) Bin.prems(6) have "d < b" by (cases "d = b") auto
    have all: "agree d key k' \<and> indexRight k' d \<noteq> indexRight key d" if "k' \<in> keys ?t" for k'
    proof -
      have "agree b ?k0 k'" "Suc d \<le> b" "b \<le> 32" using keys_agree [OF Bin.prems(1) k0 that] \<open>d < b\<close> Bin.prems(1) by simp_all
      then have "agree (Suc d) ?k0 k'" by (rule agree_le)
      then have "agree d ?k0 k'" "indexRight ?k0 d = indexRight k' d" using agree_Suc Bin.prems(2) by blast+
      with Bin.prems(5,6) show ?thesis using agree_trans by blast
    qed
    have "graft key v d leaf branch ?t = branchTree key v d leaf branch ?t" using True by simp
    moreover have "pok (branchTree key v d leaf branch ?t)"
      by (rule branchTree_pok [OF Bin.prems(1) _ Bin.prems(3,4)]) (simp_all add: \<open>d < b\<close> all del: entries.simps)
    moreover have "bitOf (branchTree key v d leaf branch ?t) = d" by (simp add: branchTree_def)
    ultimately show ?thesis using True by simp
  next
    case False
    have key: "agree b k key"
      using dir(2) agree_le [OF Bin.prems(5), of b] False Bin.prems(2) by (meson agree_sym agree_trans less_imp_le not_le)
    show ?thesis
    proof (cases "indexRight key b")
      case True
      with Bin.IH(2) Bin.prems have ih: "pok (graft key v d leaf branch r)" "bitOf (graft key v d leaf branch r) = min d (bitOf r)" by auto
      show ?thesis using Bin.prems(1) True False ih key by (auto simp: graft_entries)
    next
      case left: False
      with Bin.IH(1) Bin.prems have ih: "pok (graft key v d leaf branch l)" "bitOf (graft key v d leaf branch l) = min d (bitOf l)" by auto
      show ?thesis using Bin.prems(1) left False ih key by (auto simp: graft_entries)
    qed
  qed
qed

lemma map_of_insert:
  assumes "distinct (map fst xs)" "distinct (map fst ys)" "set ys = insert (k, v) (set xs)"
  shows "map_of ys = (map_of xs)(k \<mapsto> v)"
proof
  fix j
  have mem: "map_of ys j = Some w \<longleftrightarrow> (j, w) \<in> insert (k, v) (set xs)" for w using assms(2,3) by simp
  show "map_of ys j = ((map_of xs)(k \<mapsto> v)) j"
  proof (cases "j = k")
    case True
    then show ?thesis using mem [of v] by simp
  next
    case False
    then have "map_of ys j = Some w \<longleftrightarrow> map_of xs j = Some w" for w using mem [of w] assms(1) by simp
    then have "map_of ys j = map_of xs j" by (metis option.exhaust)
    then show ?thesis using False by simp
  qed
qed

lemma graft_map:
  assumes "pok t" "pok (graft key v d leaf branch t)"
  shows "map_of (entries (graft key v d leaf branch t)) = (map_of (entries t))(key \<mapsto> v)"
  using assms by (intro map_of_insert entries_distinct graft_entries)

lemma rep_fits:
  assumes "rep x t" "pok t" "index_store x" "p \<in> ids t" "indexGet x p = Inr n" shows "node_fits n"
  using assms
proof (induction t)
  case (Bin i k b l r)
  then have "valid x (rootId l)" "valid x (rootId r)" using rep_root by auto
  then have "rootId l < 2 ^ 32" "rootId r < 2 ^ 32" using Bin.prems(3) by (auto simp: valid_def index_store_def)
  with Bin show ?case by (auto simp: node_fits_def)
qed (auto simp: node_fits_def)

lemma indexGet_root [simp]: "indexGet (x\<lparr>ix_root := r\<rparr>) i = indexGet x i"
proof -
  have "ix_extents (x\<lparr>ix_root := r\<rparr>) = ix_extents x" by simp
  then show ?thesis unfolding indexGet_def by (simp only:)
qed

lemma valid_root [simp]: "valid (x\<lparr>ix_root := r\<rparr>) i = valid x i"
  and index_store_root [simp]: "index_store (x\<lparr>ix_root := r\<rparr>) = index_store x"
  by (simp_all add: valid_def index_store_def store_ok_def held_def)

lemma rep_update_root [simp]: "rep (x\<lparr>ix_root := r\<rparr>) t = rep x t"
  by (induction t) auto

text \<open>The store after a new leaf, with the old nodes kept.\<close>

definition extends :: "signatureIndex \<Rightarrow> signatureIndex \<Rightarrow> bool" where
  "extends x y \<longleftrightarrow> index_store y \<and> ix_count y = ix_count x + 1 \<and> ix_root y = ix_root x \<and>
     (\<forall>j. valid x j \<longrightarrow> valid y j \<and> indexGet y j = indexGet x j)"

lemma indexAppend_extends:
  assumes "index_store x" "node_fits n"
  obtains e where "indexAppend refuse x n = Inl e" "refused refuse (ix_count x + 1) e"
  | y where "indexAppend refuse x n = Inr (y, ix_count x + 1)" "extends x y" "valid y (ix_count x + 1)"
    "indexGet y (ix_count x + 1) = Inr n"
proof (rule indexAppend_cases [OF assms, of refuse])
  fix e assume "indexAppend refuse x n = Inl e" "refused refuse (ix_count x + 1) e"
  then show thesis by (rule that(1))
next
  fix y assume y: "indexAppend refuse x n = Inr (y, ix_count x + 1)" "index_store y" "ix_count y = ix_count x + 1"
    "ix_root y = ix_root x" "indexGet y (ix_count x + 1) = Inr n" "\<And>j. valid x j \<Longrightarrow> indexGet y j = indexGet x j"
  then have "extends x y" "valid y (ix_count x + 1)" by (auto simp: extends_def valid_def)
  with y show thesis by (intro that(2))
qed

lemma extends_rep: assumes "extends x y" "rep x t" shows "rep y t"
  by (rule rep_frame [OF assms(2)]) (use assms(1) rep_ids [OF assms(2)] in \<open>simp add: extends_def\<close>)

lemma node_fits_leaf: "key < 2 ^ 32 \<Longrightarrow> v < 2 ^ 32 \<Longrightarrow> node_fits \<lparr>nd_key = key, nd_value = v, nd_bit = 32, nd_left = 0, nd_right = 0\<rparr>"
  by (simp add: node_fits_def)

text \<open>The branch and the link to it, once the leaf is stored.\<close>

lemma insertBranch_cases:
  assumes y: "index_store y" "rep y t" "pok t" "distinct_ids t" "rep y (Tip leaf key v)" "leaf \<notin> ids t" "leaf = ix_count y"
    and d: "d < 32" "key < 2 ^ 32" and root: "ix_root y = rootId t"
  shows "(\<exists>e. insertBranch refuse y key d leaf = Inl e \<and> refused refuse (ix_count y + 1) e) \<or>
    (\<exists>x'. insertBranch refuse y key d leaf = Inr (x', False) \<and> index_store x' \<and> rep x' (graft key v d leaf (leaf + 1) t) \<and>
       ix_root x' = rootId (graft key v d leaf (leaf + 1) t) \<and> ix_count x' = ix_count y + 1)"
proof -
  obtain parent at where desc: "descend indexFuel y key d None (rootId t) = Inr (parent, at)" "at \<in> ids t"
    and alt: "if bitOf t \<ge> d then parent = None \<and> at = rootId t
     else \<exists>p n. parent = Some (p, n) \<and> p \<in> ids t \<and> indexGet y p = Inr n \<and>
       (\<forall>x'. grafted y x' (ids t) (Some (p, n)) key v d leaf (leaf + 1) at \<longrightarrow> rep x' (graft key v d leaf (leaf + 1) t))"
    using descend_graft [OF y(2,4) height_fuel [OF y(3)], of d key None v leaf "leaf + 1"] d(1) by auto
  have leaf: "leaf < 2 ^ 32" using y(1,7) by (simp add: index_store_def)
  have "at < 2 ^ 32" using rep_ids [OF y(2) desc(2)] y(1) by (simp add: valid_def index_store_def)
  then have fits: "node_fits (branchNode key d leaf at)" using leaf d by (simp add: branchNode_def node_fits_def)
  show ?thesis
  proof (rule indexAppend_extends [OF y(1) fits, of refuse])
    fix e assume "indexAppend refuse y (branchNode key d leaf at) = Inl e" "refused refuse (ix_count y + 1) e"
    then show ?thesis by (simp add: insertBranch_def root desc(1))
  next
    fix z assume z: "indexAppend refuse y (branchNode key d leaf at) = Inr (z, ix_count y + 1)" "extends y z"
      "valid z (ix_count y + 1)" "indexGet z (ix_count y + 1) = Inr (branchNode key d leaf at)"
    have zt: "index_store z" "rep z t" "rep z (Tip leaf key v)" "valid z (leaf + 1)" "indexGet z (leaf + 1) = Inr (branchNode key d leaf at)"
      "ix_count z = ix_count y + 1"
      using z y extends_rep [OF z(2)] by (simp_all add: extends_def)
    have keep: "valid z i \<and> indexGet z i = indexGet y i" if "i \<in> ids t" for i
      using z(2) rep_ids [OF y(2) that] by (simp add: extends_def)
    show ?thesis
    proof (cases "bitOf t \<ge> d")
      case True
      then have pa: "parent = None" "at = rootId t" using alt by auto
      have "graft key v d leaf (leaf + 1) t = branchTree key v d leaf (leaf + 1) t" using True d(1) by (simp add: graft_stop)
      moreover have "rep z (branchTree key v d leaf (leaf + 1) t)" using zt pa(2) by (intro branchTree_rep) auto
      ultimately show ?thesis using z(1) zt(1,6) y(7) desc(1) pa(1) by (simp add: insertBranch_def root)
    next
      case False
      then obtain p n where pn: "parent = Some (p, n)" "p \<in> ids t" "indexGet y p = Inr n"
        and sub: "\<And>x'. grafted y x' (ids t) (Some (p, n)) key v d leaf (leaf + 1) at \<Longrightarrow> rep x' (graft key v d leaf (leaf + 1) t)"
        using alt by auto
      have "node_fits n" by (rule rep_fits [OF y(2,3,1) pn(2,3)])
      moreover have "leaf + 1 < 2 ^ 32" using zt(1,4) by (simp add: valid_def index_store_def)
      ultimately have "node_fits (linkNode key n (leaf + 1))" by (simp add: node_fits_def linkNode_def)
      with zt(1) keep [OF pn(2)] obtain w where w: "indexPut z p (linkNode key n (leaf + 1)) = Inr w" "index_store w"
        "ix_count w = ix_count z" "ix_root w = ix_root z" "indexGet w p = Inr (linkNode key n (leaf + 1))"
        "\<And>j. valid z j \<Longrightarrow> j \<noteq> p \<Longrightarrow> indexGet w j = indexGet z j" using indexPut_valid by metis
      have valid: "valid w j = valid z j" for j using w(3) by (simp add: valid_def)
      have "p \<noteq> leaf" "p \<noteq> leaf + 1" using pn(2) y(6,7) rep_ids [OF y(2) pn(2)] by (auto simp: valid_def)
      then have "grafted y w (ids t) (Some (p, n)) key v d leaf (leaf + 1) at"
        using keep zt w valid by (simp add: grafted_def)
      moreover have "rootId (graft key v d leaf (leaf + 1) t) = ix_root w"
        using False d(1) w(4) z(2) root by (simp add: rootId_graft extends_def)
      ultimately show ?thesis using sub w(1,2,3) z(1) zt(6) y(7) desc(1) pn(1) by (simp add: insertBranch_def root)
    qed
  qed
qed

lemma indexInsert_cases:
  assumes abs: "index_abs x m" and key: "key < 2 ^ 32" "v < 2 ^ 32"
  shows "m key \<noteq> None \<and> indexInsert refuse x key v = Inr (x, True) \<or>
    m key = None \<and> (\<exists>e n. n \<le> ix_count x + 2 \<and> indexInsert refuse x key v = Inl e \<and> refused refuse n e) \<or>
    m key = None \<and> (\<exists>x'. indexInsert refuse x key v = Inr (x', False) \<and> index_abs x' (m(key \<mapsto> v)) \<and> ix_count x' \<le> ix_count x + 2)"
proof -
  let ?leaf = "\<lparr>nd_key = key, nd_value = v, nd_bit = 32, nd_left = 0, nd_right = 0\<rparr>"
  let ?i = "ix_count x + 1"
  have st: "index_store x" using abs by (simp add: index_abs_def)
  note app = indexAppend_extends [OF st node_fits_leaf [OF key], of refuse]
  consider (empty) "ix_root x = 0" "m = Map.empty"
    | (tree) t where "ix_root x = rootId t" "rep x t" "pok t" "distinct_ids t" "m = map_of (entries t)"
    using abs by (auto simp: index_abs_def)
  then show ?thesis
  proof cases
    case empty
    then have leaf: "leafFrom indexFuel x key (ix_root x) = Inr None" by (simp add: indexFuel_def numeral_eq_Suc)
    show ?thesis
    proof (rule app)
      fix e assume "indexAppend refuse x ?leaf = Inl e" "refused refuse ?i e"
      then show ?thesis using leaf empty by (intro disjI2 disjI1) (auto simp: indexInsert_def intro!: exI [of _ ?i])
    next
      fix y assume y: "indexAppend refuse x ?leaf = Inr (y, ?i)" "extends x y" "valid y ?i" "indexGet y ?i = Inr ?leaf"
      let ?t = "Tip ?i key v"
      have "index_abs (y\<lparr>ix_root := ?i\<rparr>) (m(key \<mapsto> v))"
        unfolding index_abs_def using y key empty by (intro conjI disjI2 exI [of _ ?t]) (simp_all add: extends_def)
      with leaf y(1,2) empty show ?thesis by (simp add: indexInsert_def extends_def)
    qed
  next
    case tree
    let ?k0 = "fst (tleaf key t)"
    have leaf: "leafFrom indexFuel x key (ix_root x) = Inr (Some (node_of (leafTip key t)))"
      using leafFrom_tree [OF tree(2,3) height_fuel [OF tree(3)]] by (simp add: tree(1))
    have look: "m key = (if ?k0 = key then Some (snd (tleaf key t)) else None)"
      unfolding tree(5) by (rule tleaf_lookup [OF tree(3)])
    show ?thesis
    proof (cases "?k0 = key")
      case True
      with leaf look show ?thesis by (simp add: indexInsert_def leafTip_node)
    next
      case False
      let ?d = "32 - bitLen (key XOR ?k0)"
      have k0: "?k0 < 2 ^ 32" using entries_bounds [OF tree(3)] tleaf_entry [of key t] by (metis prod.collapse)
      note d = differing [OF key(1) k0 False [symmetric]]
      have run: "indexInsert refuse x key v = rbind (indexAppend refuse x ?leaf) (\<lambda>(x, i). insertBranch refuse x key ?d i)"
        using leaf False by (simp add: indexInsert_def leafTip_node)
      show ?thesis
      proof (rule app)
        fix e assume "indexAppend refuse x ?leaf = Inl e" "refused refuse ?i e"
        then show ?thesis using run False look by (intro disjI2 disjI1) (auto intro!: exI [of _ ?i])
      next
        fix y assume y: "indexAppend refuse x ?leaf = Inr (y, ?i)" "extends x y" "valid y ?i" "indexGet y ?i = Inr ?leaf"
        have fresh: "?i \<notin> ids t" "?i + 1 \<notin> ids t" using rep_ids [OF tree(2), of ?i] rep_ids [OF tree(2), of "?i + 1"] by (auto simp: valid_def)
        let ?g = "graft key v ?d ?i (?i + 1) t"
        have g: "pok ?g" "distinct_ids ?g" "map_of (entries ?g) = m(key \<mapsto> v)"
          using graft_pok [OF tree(3) d(1) key d(2,3)] graft_distinct [OF tree(4) fresh] graft_map [OF tree(3)] tree(5) by simp_all
        have "(\<exists>e. insertBranch refuse y key ?d ?i = Inl e \<and> refused refuse (ix_count y + 1) e) \<or>
          (\<exists>x'. insertBranch refuse y key ?d ?i = Inr (x', False) \<and> index_store x' \<and> rep x' ?g \<and> ix_root x' = rootId ?g \<and> ix_count x' = ix_count y + 1)"
          using y tree fresh d(1) key extends_rep [OF y(2) tree(2)] by (intro insertBranch_cases) (simp_all add: extends_def)
        then show ?thesis
        proof (elim disjE exE conjE)
          fix e assume "insertBranch refuse y key ?d ?i = Inl e" "refused refuse (ix_count y + 1) e"
          moreover have "ix_count y + 1 \<le> ix_count x + 2" using y(2) by (simp add: extends_def)
          ultimately show ?thesis using run y(1) False look by (intro disjI2 disjI1) auto
        next
          fix x' assume x': "insertBranch refuse y key ?d ?i = Inr (x', False)" "index_store x'" "rep x' ?g" "ix_root x' = rootId ?g" "ix_count x' = ix_count y + 1"
          have "index_abs x' (m(key \<mapsto> v))"
            unfolding index_abs_def using x' g by (intro conjI disjI2 exI [of _ ?g]) simp_all
          with run y(1,2) x'(1,5) False look show ?thesis by (simp add: extends_def)
        qed
      qed
    qed
  qed
qed

section \<open>Neighbours and overlaps\<close>

definition entryOf :: "indexNode \<Rightarrow> nat \<times> nat" where
  "entryOf n = (nd_key n, nd_value n)"

lemma extreme_tree:
  "rep x t \<Longrightarrow> pok t \<Longrightarrow> height t \<le> fuel \<Longrightarrow>
   \<exists>n. extreme fuel x (rootId t) right = Inr (Some n) \<and> entryOf n = (if right then last (entries t) else hd (entries t))"
proof (induction t arbitrary: fuel)
  case (Tip i k v)
  then obtain f where "fuel = Suc f" by (cases fuel) auto
  with Tip show ?case by (auto simp: valid_def entryOf_def)
next
  case (Bin i k b l r)
  then obtain f where f: "fuel = Suc f" by (cases fuel) auto
  have step: "extreme fuel x (rootId (Bin i k b l r)) right = extreme f x (if right then rootId r else rootId l) right"
    using Bin.prems f by (auto simp: valid_def)
  show ?case unfolding step using Bin f by (cases right) auto
qed

text \<open>An optional subtree and its id; no subtree has id zero.\<close>

definition oid :: "ptree option \<Rightarrow> nat" where
  "oid o' = (case o' of None \<Rightarrow> 0 | Some t \<Rightarrow> rootId t)"

definition sub_ok :: "signatureIndex \<Rightarrow> ptree option \<Rightarrow> bool" where
  "sub_ok x o' \<longleftrightarrow> (case o' of None \<Rightarrow> True | Some t \<Rightarrow> rep x t \<and> pok t)"

text \<open>The last entry before a key and the first after it, kept by subtrees.\<close>

definition below :: "ptree option \<Rightarrow> (nat \<times> nat) list \<Rightarrow> ptree option \<Rightarrow> bool" where
  "below lo es lo' \<longleftrightarrow> (if es = [] then lo' = lo else \<exists>t. lo' = Some t \<and> last (entries t) = last es)"

definition above :: "ptree option \<Rightarrow> (nat \<times> nat) list \<Rightarrow> ptree option \<Rightarrow> bool" where
  "above up es up' \<longleftrightarrow> (if es = [] then up' = up else \<exists>t. up' = Some t \<and> hd (entries t) = hd es)"

definition split_at :: "nat \<Rightarrow> (nat \<times> nat) list \<Rightarrow> (nat \<times> nat) list \<Rightarrow> (nat \<times> nat) list \<Rightarrow> bool" where
  "split_at key es B A \<longleftrightarrow> es = B @ A \<and> (\<forall>e \<in> set B. fst e < key) \<and> (\<forall>e \<in> set A. key < fst e)"

definition walk_spec :: "signatureIndex \<Rightarrow> nat \<Rightarrow> (nat \<times> nat) list \<Rightarrow> ptree option \<Rightarrow> ptree option \<Rightarrow> (nat \<times> nat) option \<Rightarrow> bool" where
  "walk_spec x key es lo up w \<longleftrightarrow>
    (case w of None \<Rightarrow> key \<in> fst ` set es
     | Some (l, u) \<Rightarrow> \<exists>lo' up' B A. split_at key es B A \<and> l = oid lo' \<and> u = oid up' \<and> sub_ok x lo' \<and> sub_ok x up' \<and>
         below lo B lo' \<and> above up A up')"

lemma walk_all_above:
  "\<forall>e \<in> set (entries t). key < fst e \<Longrightarrow> rep x t \<Longrightarrow> pok t \<Longrightarrow> sub_ok x lo \<Longrightarrow>
   walk_spec x key (entries t) lo up (Some (oid lo, rootId t))"
  unfolding walk_spec_def split_at_def
  by (simp, intro exI [of _ lo] exI [of _ "Some t"] exI [of _ "[]"] exI [of _ "entries t"])
    (simp add: oid_def sub_ok_def below_def above_def)

lemma walk_all_below:
  "\<forall>e \<in> set (entries t). fst e < key \<Longrightarrow> rep x t \<Longrightarrow> pok t \<Longrightarrow> sub_ok x up \<Longrightarrow>
   walk_spec x key (entries t) lo up (Some (rootId t, oid up))"
  unfolding walk_spec_def split_at_def
  by (simp, intro exI [of _ "Some t"] exI [of _ up] exI [of _ "entries t"] exI [of _ "[]"])
    (simp add: oid_def sub_ok_def below_def above_def)

lemma walk_right:
  assumes "walk_spec x key (entries r) (Some l) up w" "\<forall>e \<in> set (entries l). fst e < key"
  shows "walk_spec x key (entries l @ entries r) lo up w"
proof (cases w)
  case None
  with assms(1) show ?thesis by (auto simp: walk_spec_def)
next
  case (Some p)
  obtain l' u' where p: "p = (l', u')" by (cases p)
  obtain lo' up' B A where w: "split_at key (entries r) B A" "l' = oid lo'" "u' = oid up'" "sub_ok x lo'" "sub_ok x up'"
      "below (Some l) B lo'" "above up A up'"
    using assms(1) unfolding Some p walk_spec_def by auto
  have "split_at key (entries l @ entries r) (entries l @ B) A" using w(1) assms(2) by (auto simp: split_at_def)
  moreover have "below lo (entries l @ B) lo'" using w(6) by (auto simp: below_def split: if_splits)
  ultimately show ?thesis using w unfolding Some p walk_spec_def by auto
qed

lemma walk_left:
  assumes "walk_spec x key (entries l) lo (Some r) w" "\<forall>e \<in> set (entries r). key < fst e"
  shows "walk_spec x key (entries l @ entries r) lo up w"
proof (cases w)
  case None
  with assms(1) show ?thesis by (auto simp: walk_spec_def)
next
  case (Some p)
  obtain l' u' where p: "p = (l', u')" by (cases p)
  obtain lo' up' B A where w: "split_at key (entries l) B A" "l' = oid lo'" "u' = oid up'" "sub_ok x lo'" "sub_ok x up'"
      "below lo B lo'" "above (Some r) A up'"
    using assms(1) unfolding Some p walk_spec_def by auto
  have "split_at key (entries l @ entries r) B (A @ entries r)" using w(1) assms(2) by (auto simp: split_at_def)
  moreover have "above up (A @ entries r) up'" using w(7) by (auto simp: above_def split: if_splits)
  ultimately show ?thesis using w unfolding Some p walk_spec_def by auto
qed

lemma overlapWalk_tree:
  assumes "rep x t" "pok t" "height t \<le> fuel" "sub_ok x lo" "sub_ok x up"
  shows "\<exists>w. overlapWalk fuel x key (rootId t) (oid lo) (oid up) = Inr w \<and> walk_spec x key (entries t) lo up w"
  using assms
proof (induction t arbitrary: fuel lo up)
  case (Tip i k v)
  then obtain f where f: "fuel = Suc f" by (cases fuel) auto
  let ?t = "Tip i k v"
  have step: "overlapWalk fuel x key (rootId ?t) (oid lo) (oid up) =
      Inr (if k = key then None else if k < key then Some (rootId ?t, oid up) else Some (oid lo, rootId ?t))"
    using Tip.prems f by (auto simp: valid_def)
  consider "k = key" | "k < key" | "key < k" by linarith
  then show ?case
  proof cases
    case 1
    then show ?thesis using step by (simp add: walk_spec_def)
  next
    case 2
    then show ?thesis using step walk_all_below [OF _ Tip.prems(1,2,5), of key] by simp
  next
    case 3
    then show ?thesis using step walk_all_above [OF _ Tip.prems(1,2,4), of key] by simp
  qed
next
  case (Bin i k b l r)
  then obtain f where f: "fuel = Suc f" by (cases fuel) auto
  let ?t = "Bin i k b l r" let ?s = "key div 2 ^ (32 - b)" and ?k = "k div 2 ^ (32 - b)"
  have get: "indexGet x i = Inr (node_of ?t)" "i \<noteq> 0" "b < 32" using Bin.prems by (auto simp: valid_def)
  have pre: "fst e div 2 ^ (32 - b) = ?k" if "e \<in> set (entries ?t)" for e
    using Bin.prems(2) that by (auto simp: agree_def)
  consider "?s < ?k" | "?k < ?s" | (same) "?s = ?k" by linarith
  then show ?case
  proof cases
    case 1
    then have "\<forall>e \<in> set (entries ?t). key < fst e" using pre by (intro ballI agree_less [of key b]) metis
    with 1 get f show ?thesis using walk_all_above [OF _ Bin.prems(1,2,4), of key] by auto
  next
    case 2
    then have "\<forall>e \<in> set (entries ?t). fst e < key" using pre by (intro ballI agree_less [of _ b key]) metis
    with 2 get f show ?thesis using walk_all_below [OF _ Bin.prems(1,2,5), of key] by auto
  next
    case same
    have sides: "e \<in> set (entries l) \<Longrightarrow> agree b (fst e) key \<and> \<not> indexRight (fst e) b"
      "e \<in> set (entries r) \<Longrightarrow> agree b key (fst e) \<and> indexRight (fst e) b" for e
      using Bin.prems(2) same by (auto simp: agree_def)
    show ?thesis
    proof (cases "indexRight key b")
      case True
      have run: "overlapWalk fuel x key (rootId ?t) (oid lo) (oid up) = overlapWalk f x key (rootId r) (oid (Some l)) (oid up)"
        using get f same True by (simp add: oid_def)
      have "\<forall>e \<in> set (entries l). fst e < key" using sides(1) True get(3) agree_order by blast
      then show ?thesis using Bin.IH(2) [of f "Some l" up] Bin.prems f walk_right unfolding run by (force simp: sub_ok_def)
    next
      case False
      have run: "overlapWalk fuel x key (rootId ?t) (oid lo) (oid up) = overlapWalk f x key (rootId l) (oid lo) (oid (Some r))"
        using get f same False by (simp add: oid_def)
      have "\<forall>e \<in> set (entries r). key < fst e" using sides(2) False get(3) agree_order by blast
      then show ?thesis using Bin.IH(1) [of f lo "Some r"] Bin.prems f walk_left unfolding run by (force simp: sub_ok_def)
    qed
  qed
qed

text \<open>Intervals by their starts, no two sharing a point, and a new one meeting them.\<close>

definition disjoint_map :: "(nat \<rightharpoonup> nat) \<Rightarrow> bool" where
  "disjoint_map m \<longleftrightarrow> (\<forall>k v. m k = Some v \<longrightarrow> k < v) \<and>
     (\<forall>k v k' v'. m k = Some v \<longrightarrow> m k' = Some v' \<longrightarrow> k < k' \<longrightarrow> v \<le> k')"

definition meets :: "(nat \<rightharpoonup> nat) \<Rightarrow> nat \<Rightarrow> nat \<Rightarrow> bool" where
  "meets m key fin \<longleftrightarrow> (\<exists>k v. m k = Some v \<and> k < fin \<and> key < v)"

lemma disjoint_map_insert:
  assumes "disjoint_map m" "key < fin" "\<not> meets m key fin" shows "disjoint_map (m(key \<mapsto> fin))"
  unfolding disjoint_map_def
proof (intro conjI allI impI)
  fix k v assume "(m(key \<mapsto> fin)) k = Some v"
  then show "k < v" using assms(1,2) by (auto simp: disjoint_map_def split: if_splits)
next
  fix k v k' v'
  assume k: "(m(key \<mapsto> fin)) k = Some v" and k': "(m(key \<mapsto> fin)) k' = Some v'" and "k < k'"
  have apart: "\<not> (j < fin \<and> key < w)" if "m j = Some w" for j w using assms(3) that unfolding meets_def by blast
  consider (new) "k = key" "v = fin" "m k' = Some v'" | (old) "k' = key" "m k = Some v" | (both) "m k = Some v" "m k' = Some v'"
  proof (cases "k = key")
    case True
    then show ?thesis using k k' \<open>k < k'\<close> by (intro that(1)) simp_all
  next
    case False
    then show ?thesis using k k' by (cases "k' = key") (auto intro: that(2,3))
  qed
  then show "v \<le> k'"
  proof cases
    case new
    then have "k' < v'" using assms(1) by (simp add: disjoint_map_def)
    then show ?thesis using apart [OF new(3)] new \<open>k < k'\<close> by simp
  next
    case old
    then show ?thesis using apart [OF old(2)] \<open>k < k'\<close> assms(2) by simp
  next
    case both
    then show ?thesis using assms(1) \<open>k < k'\<close> unfolding disjoint_map_def by blast
  qed
qed

lemma meets_split:
  assumes es: "sorted_wrt (<) (map fst es)" "distinct (map fst es)" and split: "split_at key es B A"
    and disj: "disjoint_map (map_of es)" and "key < fin"
  shows "meets (map_of es) key fin \<longleftrightarrow> B \<noteq> [] \<and> key < snd (last B) \<or> A \<noteq> [] \<and> fst (hd A) < fin"
proof -
  have eq: "es = B @ A" and B: "\<And>e. e \<in> set B \<Longrightarrow> fst e < key" and A: "\<And>e. e \<in> set A \<Longrightarrow> key < fst e"
    using split by (auto simp: split_at_def)
  have mem: "map_of es k = Some v \<longleftrightarrow> (k, v) \<in> set B \<or> (k, v) \<in> set A" for k v
    using map_of_eq_Some_iff [OF es(2), of k v] by (simp add: eq del: map_of_append)
  have lastB: "(fst (last B), snd (last B)) \<in> set B" if "B \<noteq> []" using that by simp
  have hdA: "(fst (hd A), snd (hd A)) \<in> set A" if "A \<noteq> []" using that by simp
  have before: "v \<le> snd (last B)" if kv: "(k, v) \<in> set B" for k v
  proof -
    have ne: "B \<noteq> []" using kv by auto
    then obtain B' where b: "B = B' @ [last B]" by (metis append_butlast_last_id)
    show ?thesis
    proof (cases "(k, v) \<in> set B'")
      case True
      have "sorted_wrt (<) (map fst (B' @ [last B]))" using es(1) b unfolding eq by (simp add: sorted_wrt_append)
      then have "k < fst (last B)" using True by (force simp: sorted_wrt_append)
      moreover have "map_of es k = Some v" "map_of es (fst (last B)) = Some (snd (last B))" using mem kv lastB [OF ne] by auto
      ultimately show ?thesis using disj unfolding disjoint_map_def by (meson le_trans less_imp_le)
    next
      case False
      then show ?thesis using kv b by (metis Un_iff append_is_Nil_conv empty_iff empty_set in_set_conv_decomp order_refl set_append set_ConsD snd_conv)
    qed
  qed
  have after: "fst (hd A) \<le> k" if "(k, v) \<in> set A" for k v
    using that es(1) unfolding eq by (cases A) (auto simp: sorted_wrt_append intro: less_imp_le)
  have len: "k < v" if "map_of es k = Some v" for k v using disj that by (auto simp: disjoint_map_def)
  show ?thesis
  proof
    assume "meets (map_of es) key fin"
    then obtain k v where "map_of es k = Some v" "k < fin" "key < v" by (auto simp: meets_def)
    then show "B \<noteq> [] \<and> key < snd (last B) \<or> A \<noteq> [] \<and> fst (hd A) < fin"
      using mem [of k v] before [of k v] after [of k v] by (cases "(k, v) \<in> set B") auto
  next
    assume "B \<noteq> [] \<and> key < snd (last B) \<or> A \<noteq> [] \<and> fst (hd A) < fin"
    then show "meets (map_of es) key fin"
    proof (elim disjE conjE)
      assume "B \<noteq> []" "key < snd (last B)"
      then have "map_of es (fst (last B)) = Some (snd (last B))" "fst (last B) < fin"
        using mem lastB B [of "last B"] \<open>key < fin\<close> by simp_all
      then show ?thesis using \<open>key < snd (last B)\<close> unfolding meets_def by blast
    next
      assume "A \<noteq> []" "fst (hd A) < fin"
      then have "map_of es (fst (hd A)) = Some (snd (hd A))" using mem hdA by simp
      moreover from len [OF this] have "key < snd (hd A)" using A [of "hd A"] \<open>A \<noteq> []\<close> by simp
      ultimately show ?thesis using \<open>fst (hd A) < fin\<close> unfolding meets_def by blast
    qed
  qed
qed

lemma extreme_sub:
  assumes "sub_ok x o'"
  shows "\<exists>n. extreme indexFuel x (oid o') right = Inr n \<and>
    map_option entryOf n = map_option (\<lambda>t. if right then last (entries t) else hd (entries t)) o'"
proof (cases o')
  case None
  then show ?thesis by (simp add: oid_def indexFuel_def numeral_eq_Suc)
next
  case (Some t)
  with assms extreme_tree [of x t indexFuel right] height_fuel [of t] show ?thesis by (auto simp: oid_def sub_ok_def)
qed

lemma indexOverlaps_map:
  assumes abs: "index_abs x m" and disj: "disjoint_map m" and "key < fin"
  shows "indexOverlaps x key fin = Inr (meets m key fin)"
  using abs unfolding index_abs_def
proof (elim conjE disjE exE)
  assume "ix_root x = 0" "m = Map.empty"
  then show ?thesis by (simp add: indexOverlaps_def indexFuel_def numeral_eq_Suc meets_def)
next
  fix t assume t: "ix_root x = rootId t" "rep x t" "pok t" "m = map_of (entries t)"
  obtain w where w: "overlapWalk indexFuel x key (ix_root x) 0 0 = Inr w" "walk_spec x key (entries t) None None w"
    using overlapWalk_tree [OF t(2,3) height_fuel [OF t(3)], of None None key] by (auto simp: t(1) oid_def sub_ok_def)
  show ?thesis
  proof (cases w)
    case None
    then have "key \<in> keys t" using w(2) by (simp add: walk_spec_def)
    then obtain v where "m key = Some v" unfolding t(4) by (metis map_of_eq_None_iff not_None_eq)
    then have "meets m key fin" using disj \<open>key < fin\<close> unfolding meets_def disjoint_map_def by blast
    then show ?thesis using w(1) None by (simp add: indexOverlaps_def)
  next
    case (Some p)
    obtain l u where p: "p = (l, u)" by (cases p)
    obtain lo up B A where s: "split_at key (entries t) B A" "l = oid lo" "u = oid up" "sub_ok x lo" "sub_ok x up"
      "below None B lo" "above None A up" using w(2) unfolding Some p walk_spec_def by auto
    obtain n where n: "extreme indexFuel x l True = Inr n" "map_option entryOf n = map_option (\<lambda>t. last (entries t)) lo"
      using extreme_sub [OF s(4), of True] s(2) by auto
    obtain n' where n': "extreme indexFuel x u False = Inr n'" "map_option entryOf n' = map_option (\<lambda>t. hd (entries t)) up"
      using extreme_sub [OF s(5), of False] s(3) by auto
    have "(case n of None \<Rightarrow> False | Some n \<Rightarrow> nd_value n > key) \<longleftrightarrow> B \<noteq> [] \<and> key < snd (last B)"
      using n(2) s(6) by (cases n) (auto simp: below_def entryOf_def prod_eq_iff split: if_splits)
    moreover have "(case n' of None \<Rightarrow> False | Some n \<Rightarrow> nd_key n < fin) \<longleftrightarrow> A \<noteq> [] \<and> fst (hd A) < fin"
      using n'(2) s(7) by (cases n') (auto simp: above_def entryOf_def prod_eq_iff split: if_splits)
    ultimately have "indexOverlaps x key fin = Inr (B \<noteq> [] \<and> key < snd (last B) \<or> A \<noteq> [] \<and> fst (hd A) < fin)"
      using w(1) Some p n(1) n'(1) by (simp add: indexOverlaps_def)
    also have "\<dots> = Inr (meets m key fin)"
      using meets_split [OF entries_sorted [OF t(3)] entries_distinct [OF t(3)] s(1) _ \<open>key < fin\<close>] disj t(4) by simp
    finally show ?thesis .
  qed
qed

section \<open>The interface\<close>

text \<open>
  What the signature view uses: a bounded map from keys to values, and overlap queries on maps of
  disjoint intervals. \<open>used\<close> measures the room an index has taken.
\<close>

locale map_index =
  fixes represents_map :: "'s \<Rightarrow> (nat \<rightharpoonup> nat) \<Rightarrow> bool" and used :: "'s \<Rightarrow> nat"
    and find :: "'s \<Rightarrow> nat \<Rightarrow> nat option result" and insert :: "'s \<Rightarrow> nat \<Rightarrow> nat \<Rightarrow> ('s \<times> bool) result"
  assumes find_value: "represents_map x m \<Longrightarrow> find x k = Inr (m k)"
    and insert_old: "represents_map x m \<Longrightarrow> m k \<noteq> None \<Longrightarrow> k < 2 ^ 32 \<Longrightarrow> v < 2 ^ 32 \<Longrightarrow> insert x k v = Inr (x, True)"
    and insert_new: "represents_map x m \<Longrightarrow> m k = None \<Longrightarrow> k < 2 ^ 32 \<Longrightarrow> v < 2 ^ 32 \<Longrightarrow> used x + 2 < 2 ^ 32 \<Longrightarrow>
      \<exists>x'. insert x k v = Inr (x', False) \<and> represents_map x' (m(k \<mapsto> v)) \<and> used x' \<le> used x + 2"

locale interval_index = map_index represents_map used find insert
  for represents_map :: "'s \<Rightarrow> (nat \<rightharpoonup> nat) \<Rightarrow> bool" and used find insert +
  fixes overlaps :: "'s \<Rightarrow> nat \<Rightarrow> nat \<Rightarrow> bool result"
  assumes overlaps_meets: "represents_map x m \<Longrightarrow> disjoint_map m \<Longrightarrow> k < fin \<Longrightarrow> overlaps x k fin = Inr (meets m k fin)"
begin

text \<open>An interval that meets none is inserted and the map stays disjoint.\<close>

lemma note_interval:
  assumes x: "represents_map x m" "disjoint_map m" and iv: "k < fin" "fin < 2 ^ 32" and room: "used x + 2 < 2 ^ 32" and free: "\<not> meets m k fin"
  shows "\<exists>x'. insert x k fin = Inr (x', False) \<and> represents_map x' (m(k \<mapsto> fin)) \<and> disjoint_map (m(k \<mapsto> fin)) \<and> used x' \<le> used x + 2"
proof -
  have "m k = None"
  proof (rule ccontr)
    assume "m k \<noteq> None"
    then obtain v where "m k = Some v" by auto
    then have "meets m k fin" using x(2) iv(1) unfolding meets_def disjoint_map_def by blast
    with free show False ..
  qed
  from insert_new [OF x(1) this _ iv(2) room] disjoint_map_insert [OF x(2) iv(1) free] iv show ?thesis by auto
qed

end

interpretation sig: interval_index index_abs ix_count indexFind "indexInsert (\<lambda>_. None)" indexOverlaps
proof unfold_locales
  fix x m and k v :: nat
  assume x: "index_abs x m" and k: "k < 2 ^ 32" "v < 2 ^ 32"
  note c = indexInsert_cases [OF x k, of "\<lambda>_. None"]
  show "indexInsert (\<lambda>_. None) x k v = Inr (x, True)" if "m k \<noteq> None" using c that by auto
  assume "m k = None" "ix_count x + 2 < 2 ^ 32"
  then show "\<exists>x'. indexInsert (\<lambda>_. None) x k v = Inr (x', False) \<and> index_abs x' (m(k \<mapsto> v)) \<and> ix_count x' \<le> ix_count x + 2"
    using c unfolding refused_def by auto
qed (simp_all add: indexFind_map indexOverlaps_map)

section \<open>The property\<close>

lemma indexInsert_map:
  assumes "index_abs x m" "key < 2 ^ 32" "val < 2 ^ 32"
  shows "case indexInsert refuse x key val of
      Inl e \<Rightarrow> m key = None \<and> (\<exists>n \<le> ix_count x + 2. refused refuse n e)
    | Inr (x', dup) \<Rightarrow> (dup \<longleftrightarrow> m key \<noteq> None) \<and> index_abs x' (if dup then m else m(key \<mapsto> val))"
  using indexInsert_cases [OF assms, of refuse] assms(1) by auto

text \<open>
  C23. Refinement: the Patricia nodes in working sections implement a finite map from 32-bit keys.
  The empty index is the empty map. find is lookup. insert reports whether the key was present and
  then changes nothing, or binds it to the value; it fails only for want of node ids, at 2 ^ 32 nodes,
  or with the error the working storage refuses a section with, and never panics or loops. When the
  map holds disjoint intervals, overlaps decides whether a nonempty interval meets one of them.
\<close>

theorem signature_index_refines_map:
  assumes "index_abs x m" "key < 2 ^ 32" "val < 2 ^ 32"
  shows "index_abs emptyIndex Map.empty \<and> indexFind x key = Inr (m key) \<and>
    (case indexInsert refuse x key val of
      Inl e \<Rightarrow> m key = None \<and> (\<exists>n \<le> ix_count x + 2. refused refuse n e)
    | Inr (x', dup) \<Rightarrow> (dup \<longleftrightarrow> m key \<noteq> None) \<and> index_abs x' (if dup then m else m(key \<mapsto> val))) \<and>
    (disjoint_map m \<and> key < val \<longrightarrow> indexOverlaps x key val = Inr (meets m key val))"
  using emptyIndex_abs indexFind_map [OF assms(1)] indexInsert_map [OF assms] indexOverlaps_map [OF assms(1)] by auto

theorem signature_index_refines_map_witness:
  "\<exists>x. indexInsert (\<lambda>_. None) emptyIndex 100 120 = Inr (x, False) \<and> indexFind x 100 = Inr (Some 120) \<and>
     indexFind x 110 = Inr None \<and> indexOverlaps x 110 130 = Inr True \<and> indexOverlaps x 120 130 = Inr False"
proof -
  obtain x where x: "indexInsert (\<lambda>_. None) emptyIndex 100 120 = Inr (x, False)" "index_abs x [100 \<mapsto> 120]"
    using sig.insert_new [OF emptyIndex_abs, of 100 120] by (auto simp: emptyIndex_def)
  have "disjoint_map [100 \<mapsto> 120]" by (auto simp: disjoint_map_def split: if_splits)
  moreover have "meets [100 \<mapsto> 120] 110 130" "\<not> meets [100 \<mapsto> 120] 120 130" by (auto simp: meets_def split: if_splits)
  ultimately show ?thesis
    using x signature_index_refines_map [OF x(2), of 100 120] signature_index_refines_map [OF x(2), of 110 130]
      signature_index_refines_map [OF x(2), of 120 130] by auto
qed

end
