(* ===== verification/Signature_View.thy ===== *)
theory Signature_View
  imports Index_Map Signature_Props
begin

text \<open>
  signature_view.go: the parser of untrusted signatures that keeps ranges instead of bytes. Slots
  and intervals are indexed in working storage, component bytes are scanned once for their
  digest, and names are located and read later.
\<close>

section \<open>Data\<close>

record viewString =
  vs_offset :: nat
  vs_length :: nat

text \<open>The names and the raw bytes of the metadata are empty.\<close>

record directoryView =
  dv_slot :: nat
  dv_metadata :: Directory
  dv_source :: outputSource
  dv_identifier :: viewString
  dv_team :: viewString

text \<open>The array of six directories with its count is a list.\<close>

record signatureView =
  sv_source :: outputSource
  sv_length :: nat
  sv_count :: nat
  sv_slots :: signatureIndex
  sv_directories :: "directoryView list"

section \<open>Scanning a component\<close>

text \<open>copy into an array of 108 bytes from \<open>at\<close>.\<close>

definition copyPrefix :: "byte list \<Rightarrow> nat \<Rightarrow> byte list \<Rightarrow> byte list" where
  "copyPrefix prefix at p =
    (if at < length prefix then overwrite at (take (length prefix - at) p) prefix else prefix)"

text \<open>The hash chosen on the first chunk: the directory's hash type, when it is known.\<close>

definition startHash :: "bool \<Rightarrow> byte list \<Rightarrow> nat option" where
  "startHash directory p =
    (if directory \<and> length p \<ge> 44 \<and> unat (p ! 37) \<in> {1, 2, 3, 4} then Some (unat (p ! 37)) else None)"

text \<open>
  The loop. The running hash is its kind with the bytes written; an empty buffer would not
  advance, and the reservation for a nonempty component is not empty.
\<close>

function scanLoop ::
  "outputSource \<Rightarrow> nat \<Rightarrow> bool \<Rightarrow> nat \<Rightarrow> byte list \<Rightarrow> (nat \<times> byte list) option
     \<Rightarrow> (byte list \<times> (nat \<times> byte list) option) result" where
  "scanLoop src buf directory at prefix h =
    (if int at \<ge> srcSize src then Inr (prefix, h) else
     if buf = 0 then Inl OutOfFuel else
     case reader src of None \<Rightarrow> Inl Panic | Some r \<Rightarrow>
     let want = min buf (nat (srcSize src - int at)) in
     case r (offset src + int at) want of (p, e) \<Rightarrow>
     if length p \<noteq> want then Inl (errJoin IoUnexpectedEOF e) else
     if e \<noteq> None \<and> e \<noteq> Some IoEOF then Inl (errJoin (the e) None) else
     let prefix = copyPrefix prefix at p;
         h = (if at = 0 then map_option (\<lambda>kind. (kind, [])) (startHash directory p) else h);
         h = map_option (\<lambda>(kind, fed). (kind, fed @ p)) h in
     scanLoop src buf directory (at + want) prefix h)"
  by pat_completeness auto
termination
  by (relation "measure (\<lambda>(src, _, _, at, _). nat (srcSize src - int at))") auto

declare scanLoop.simps [simp del]

definition hashSum :: "hash_lib \<Rightarrow> nat \<Rightarrow> byte list \<Rightarrow> byte list" where
  "hashSum H kind fed =
    (if kind = 1 then sha1 H fed else if kind = 2 then sha256 H fed
     else if kind = 3 then take 20 (sha256 H fed) else sha384 H fed)"

definition scanSignatureComponent ::
  "hash_lib \<Rightarrow> outputSource \<Rightarrow> byte list \<Rightarrow> bool \<Rightarrow> (byte list \<times> byte list) result" where
  "scanSignatureComponent H src header directory =
    (if srcSize src < 0 then Inl (Malformed ''negative transfer buffer size'') else
     rbind (scanLoop src (transferBuffer (srcSize src)) directory 0 (replicate 108 0) None)
       (\<lambda>(prefix, h).
     if take 8 prefix \<noteq> header then Inl (Malformed ''signature component changed while reading'') else
     Inr (prefix, case h of None \<Rightarrow> [] | Some (kind, fed) \<Rightarrow> hashSum H kind fed)))"

section \<open>Scanning for a name\<close>

function findZero :: "outputSource \<Rightarrow> nat \<Rightarrow> nat \<Rightarrow> nat \<Rightarrow> viewString result" where
  "findZero src buf first at =
    (if int at \<ge> srcSize src then Inl (Malformed ''unterminated string'') else
     if buf = 0 then Inl OutOfFuel else
     case reader src of None \<Rightarrow> Inl Panic | Some r \<Rightarrow>
     let want = min buf (nat (srcSize src - int at)) in
     case r (offset src + int at) want of (p, e) \<Rightarrow>
     if length p \<noteq> want then Inl (errJoin IoUnexpectedEOF e) else
     if e \<noteq> None \<and> e \<noteq> Some IoEOF then Inl (errJoin (the e) None) else
     if 0 \<in> set p then Inr \<lparr>vs_offset = first, vs_length = at - first + length (takeWhile (\<lambda>b. b \<noteq> 0) p)\<rparr> else
     findZero src buf first (at + want))"
  by pat_completeness auto
termination
  by (relation "measure (\<lambda>(src, _, _, at). nat (srcSize src - int at))") auto

declare findZero.simps [simp del]

definition scanViewString :: "outputSource \<Rightarrow> nat \<Rightarrow> viewString result" where
  "scanViewString src at =
    (if at \<ge> nat (srcSize src) then Inl (Malformed ''string offset'') else
     findZero src (transferBuffer (srcSize src - int at)) at at)"

section \<open>Directories\<close>

text \<open>
  The fields are read from the prefix array, the hash bounds from the component's size. The
  optional fields are zero before their version.
\<close>

definition from_version :: "nat \<Rightarrow> nat \<Rightarrow> nat \<Rightarrow> nat" where
  "from_version version v field = (if version \<ge> v then field else 0)"

definition parseDirectoryView :: "outputSource \<Rightarrow> byte list \<Rightarrow> byte list \<Rightarrow> directoryView result" where
  "parseDirectoryView src raw h =
    (let sz = nat (srcSize src); version = be32 raw 8; hashSize = unat (raw ! 36); pageExp = unat (raw ! 39);
         header = directoryHeader version; teamOff = from_version version 0x20200 (be32 raw 48);
         limit64 = from_version version 0x20300 (be64 raw 56) in
     if sz < 44 \<or> be32 raw 0 \<noteq> MagicDirectory then Inl (Malformed ''CodeDirectory header'') else
     if version < 0x20001 \<or> version > 0x20600 then Inl (Unsupported ''CodeDirectory version'') else
     if sz < header then Inl (Malformed ''truncated versioned CodeDirectory'') else
     if h = [] then Inl (Unsupported ''hash type'') else
     if hashSize \<noteq> length h \<or> pageExp > 31 then Inl (Malformed ''hash size or page exponent'') else
     if from_version version 0x20100 (be32 raw 44) \<noteq> 0 then Inl (Unsupported ''scatter CodeDirectory'') else
     if be32 raw 20 < header then Inl (Malformed ''identifier overlaps header'') else
     rbind (scanViewString src (be32 raw 20)) (\<lambda>ident.
     rbind (if teamOff \<noteq> 0 then scanViewString src teamOff else Inr \<lparr>vs_offset = 0, vs_length = 0\<rparr>) (\<lambda>team.
     if be32 raw 16 < header + be32 raw 24 * hashSize \<or> \<not> rangeOK (be32 raw 16) (be32 raw 28 * hashSize) sz
     then Inl (Malformed ''CodeDirectory hash bounds'') else
     Inr \<lparr>dv_slot = 0, dv_metadata =
            \<lparr>Version = version, Flags = be32 raw 12, Identifier = [], TeamID = [],
             HashType = unat (raw ! 37), HashSize = hashSize, PageExponent = pageExp, Platform = unat (raw ! 38),
             CodeLimit = (if limit64 \<noteq> 0 then limit64 else be32 raw 32), CodeSlots = be32 raw 28,
             SpecialSlots = be32 raw 24, HashOffset = be32 raw 16,
             ExecBase = from_version version 0x20400 (be64 raw 64), ExecLimit = from_version version 0x20400 (be64 raw 72),
             ExecFlags = from_version version 0x20400 (be64 raw 80), Runtime = from_version version 0x20500 (be32 raw 88),
             CDHash = hexEncode (take 20 h), FullHash = hexEncode h, Raw = []\<rparr>,
          dv_source = src, dv_identifier = ident, dv_team = team\<rparr>)))"

section \<open>The parser\<close>

text \<open>The locals of the loop; \<open>vw_intervals\<close> is consulted until the first overlap.\<close>

record view_state =
  vw_slots :: signatureIndex
  vw_intervals :: signatureIndex
  vw_overlap :: bool
  vw_directories :: "directoryView list"

definition subSource :: "outputSource \<Rightarrow> nat \<Rightarrow> nat \<Rightarrow> outputSource" where
  "subSource src off n = \<lparr>reader = reader src, offset = offset src + int off, srcSize = int n\<rparr>"

text \<open>The overlap bookkeeping of one component.\<close>

definition noteInterval :: "(nat \<Rightarrow> error option) \<Rightarrow> nat \<Rightarrow> nat \<Rightarrow> view_state \<Rightarrow> view_state result" where
  "noteInterval refuse off fin st =
    (if vw_overlap st then Inr st else
     rbind (indexOverlaps (vw_intervals st) off fin) (\<lambda>overlap.
     if overlap then Inr (st\<lparr>vw_overlap := True\<rparr>) else
     rbind (indexInsert refuse (vw_intervals st) off fin) (\<lambda>(x, _). Inr (st\<lparr>vw_intervals := x\<rparr>))))"

definition addDirectory :: "hash_lib \<Rightarrow> outputSource \<Rightarrow> byte list \<Rightarrow> byte list \<Rightarrow> nat \<Rightarrow> view_state \<Rightarrow> view_state result" where
  "addDirectory H component prefix h slot st =
    (if \<not> isDirectorySlot slot then Inr st else
     rbind (parseDirectoryView component prefix h) (\<lambda>d.
     if length (vw_directories st) \<ge> 6 then Inl Panic else
     Inr (st\<lparr>vw_directories := vw_directories st @ [d\<lparr>dv_slot := slot\<rparr>]\<rparr>)))"

definition view_entry ::
  "hash_lib \<Rightarrow> (nat \<Rightarrow> error option) \<Rightarrow> outputSource \<Rightarrow> nat \<Rightarrow> nat \<Rightarrow> nat \<Rightarrow> view_state \<Rightarrow> view_state result" where
  "view_entry H refuse src len cnt i st =
    rbind (codeRead src (12 + i * 8) 8) (\<lambda>entry.
    let slot = be32 entry 0; off = be32 entry 4 in
    rbind (indexInsert refuse (vw_slots st) slot i) (\<lambda>(slots, duplicate).
    if duplicate then Inl (Malformed ''duplicate signature slot'') else
    if off < 12 + cnt * 8 \<or> \<not> rangeOK off 8 len then Inl (Malformed ''blob header bounds'') else
    rbind (codeRead src off 8) (\<lambda>blobHeader.
    let n = be32 blobHeader 4; component = subSource src off n in
    if n < 8 \<or> \<not> rangeOK off n len then Inl (Malformed ''blob length'') else
    rbind (scanSignatureComponent H component blobHeader (isDirectorySlot slot)) (\<lambda>(prefix, h).
    if expectedMagic slot \<noteq> 0 \<and> expectedMagic slot \<noteq> be32 blobHeader 0 then Inl (Malformed ''magic for signature slot'') else
    rbind (addDirectory H component prefix h slot (st\<lparr>vw_slots := slots\<rparr>)) (noteInterval refuse off ((off + n) mod 2 ^ 32))))))"

fun view_entries ::
  "hash_lib \<Rightarrow> (nat \<Rightarrow> error option) \<Rightarrow> outputSource \<Rightarrow> nat \<Rightarrow> nat \<Rightarrow> nat \<Rightarrow> nat \<Rightarrow> view_state \<Rightarrow> view_state result" where
  "view_entries H refuse src len cnt i 0 st = Inr st"
| "view_entries H refuse src len cnt i (Suc k) st =
     rbind (view_entry H refuse src len cnt i st) (view_entries H refuse src len cnt (Suc i) k)"

text \<open>\<open>storage\<close>: the context carries a working storage.\<close>

definition parseSignatureView ::
  "hash_lib \<Rightarrow> (nat \<Rightarrow> error option) \<Rightarrow> bool \<Rightarrow> outputSource \<Rightarrow> bool \<Rightarrow> signatureView result" where
  "parseSignatureView H refuse storage src allowUnsigned =
    (if \<not> storage then Inl (Malformed ''signature view requires working storage'') else
     if srcSize src < 12 then Inl (Malformed ''signature SuperBlob'') else
     rbind (codeRead src 0 12) (\<lambda>header.
     if be32 header 0 \<noteq> MagicSignature then Inl (Malformed ''signature SuperBlob'') else
     let len = be32 header 4; cnt = be32 header 8 in
     if len < 12 \<or> len > nat (srcSize src) \<or> cnt * 8 > len - 12 then Inl (Malformed ''signature index bounds'') else
     rbind (view_entries H refuse src len cnt 0 cnt
              \<lparr>vw_slots = emptyIndex, vw_intervals = emptyIndex, vw_overlap = False, vw_directories = []\<rparr>) (\<lambda>st.
     if vw_overlap st then Inl (Malformed ''overlapping signature blobs'') else
     rbind (indexFind (vw_slots st) 0) (\<lambda>primary.
     if primary = None \<and> (\<not> allowUnsigned \<or> vw_directories st \<noteq> [])
     then Inl (Malformed ''missing primary CodeDirectory'') else
     Inr \<lparr>sv_source = src, sv_length = len, sv_count = cnt, sv_slots = vw_slots st, sv_directories = vw_directories st\<rparr>))))"

text \<open>A component by its slot, reread and checked again.\<close>

definition viewComponent :: "signatureView \<Rightarrow> nat \<Rightarrow> outputSource option result" where
  "viewComponent v slot =
    rbind (indexFind (sv_slots v) slot) (\<lambda>found.
    case found of None \<Rightarrow> Inr None | Some i \<Rightarrow>
    rbind (codeRead (sv_source v) (12 + i * 8) 8) (\<lambda>entry.
    let off = be32 entry 4 in
    if be32 entry 0 \<noteq> slot \<or> \<not> rangeOK off 8 (sv_length v)
    then Inl (Malformed ''signature index changed while reading'') else
    rbind (codeRead (sv_source v) off 8) (\<lambda>header.
    let len = be32 header 4 in
    if len < 8 \<or> \<not> rangeOK off len (sv_length v) then Inl (Malformed ''signature component changed while reading'') else
    Inr (Some (subSource (sv_source v) off len)))))"

definition reportDirectory :: "directoryView \<Rightarrow> Directory result" where
  "reportDirectory d =
    rbind (codeRead (dv_source d) (vs_offset (dv_identifier d)) (vs_length (dv_identifier d))) (\<lambda>ident.
    rbind (codeRead (dv_source d) (vs_offset (dv_team d)) (vs_length (dv_team d))) (\<lambda>team.
    Inr ((dv_metadata d)\<lparr>Identifier := ident, TeamID := team\<rparr>)))"

fun reportDirectories :: "directoryView list \<Rightarrow> Directory list result" where
  "reportDirectories [] = Inr []"
| "reportDirectories (d # ds) = rbind (reportDirectory d) (\<lambda>r. rbind (reportDirectories ds) (\<lambda>rs. Inr (r # rs)))"

definition viewReport :: "signatureView \<Rightarrow> Signature result" where
  "viewReport v = rbind (reportDirectories (sv_directories v)) (\<lambda>ds.
    Inr \<lparr>Length = sv_length v, Blobs = [], Directories = ds\<rparr>)"

end
