(* ===== verification/View_Equiv.thy ===== *)
theory View_Equiv
  imports Signature_View
begin

text \<open>
  The range-based view of a signature agrees with the owned parser of blob.go: the scans find what
  the owned parser computes, one entry at a time, and the indexed overlap test is the sorted one.
\<close>

section \<open>Scans\<close>

definition prefixOf :: "byte list \<Rightarrow> byte list" where
  "prefixOf xs = take 108 (xs @ replicate 108 0)"

lemma length_prefixOf [simp]: "length (prefixOf xs) = 108"
  by (simp add: prefixOf_def)

lemma nth_prefixOf: "i < 108 \<Longrightarrow> prefixOf xs ! i = (if i < length xs then xs ! i else 0)"
  by (simp add: prefixOf_def nth_append)

lemma copyPrefix_prefixOf:
  assumes "at + length p \<le> length xs" "p = slice xs at (length p)"
  shows "copyPrefix (prefixOf (take at xs)) at p = prefixOf (take (at + length p) xs)"
proof (cases "at < 108")
  case True
  show ?thesis
  proof (rule nth_equalityI)
    show "length (copyPrefix (prefixOf (take at xs)) at p) = length (prefixOf (take (at + length p) xs))"
      using True by (simp add: copyPrefix_def)
    fix i assume "i < length (copyPrefix (prefixOf (take at xs)) at p)"
    then have i: "i < 108" using True by (simp add: copyPrefix_def)
    have pn: "p ! j = xs ! (at + j)" if "j < length p" for j
      using assms nth_slice [of j "length p" at xs] that by simp
    show "copyPrefix (prefixOf (take at xs)) at p ! i = prefixOf (take (at + length p) xs) ! i"
      using True i assms(1) by (auto simp: copyPrefix_def overwrite_def nth_append nth_prefixOf pn min_def)
  qed
next
  case False
  then show ?thesis by (intro nth_equalityI) (auto simp: copyPrefix_def nth_prefixOf)
qed

lemma scanLoop_content:
  assumes src: "delivers src xs" and buf: "0 < buf"
  shows "at \<le> length xs \<Longrightarrow> 0 < at \<Longrightarrow>
    scanLoop src buf directory at (prefixOf (take at xs)) (map_option (\<lambda>k. (k, take at xs)) ho) =
    Inr (prefixOf xs, map_option (\<lambda>k. (k, xs)) ho)"
proof (induction "length xs - at" arbitrary: at rule: less_induct)
  case less
  have size: "srcSize src = int (length xs)" using delivers_range [OF src] by blast
  show ?case
  proof (cases "at = length xs")
    case True
    then show ?thesis by (subst scanLoop.simps) (simp add: size)
  next
    case False
    define want where "want = min buf (length xs - at)"
    have want: "0 < want" "at + want \<le> length xs" using False less.prems buf by (auto simp: want_def)
    obtain r e where r: "reader src = Some r" "r (offset src + int at) want = (slice xs at want, e)" "e \<in> {None, Some IoEOF}"
      using delivers_read [OF src want(2,1)] .
    have w: "min buf (nat (int (length xs) - int at)) = want" using less.prems by (simp add: want_def nat_diff_distrib)
    have len: "length (slice xs at want) = want" using want by simp
    have app: "take at xs @ slice xs at want = take (at + want) xs" by (simp add: slice_def take_add)
    have "scanLoop src buf directory at (prefixOf (take at xs)) (map_option (\<lambda>k. (k, take at xs)) ho) =
      scanLoop src buf directory (at + want) (prefixOf (take (at + want) xs)) (map_option (\<lambda>k. (k, take (at + want) xs)) ho)"
      using r want len False less.prems buf copyPrefix_prefixOf [of at "slice xs at want" xs]
      by (subst scanLoop.simps) (auto simp: w Let_def size app option.map_comp comp_def)
    also have "\<dots> = Inr (prefixOf xs, map_option (\<lambda>k. (k, xs)) ho)" using less.hyps [of "at + want"] want by simp
    finally show ?thesis .
  qed
qed

lemma scanSignatureComponent_content:
  assumes src: "delivers src xs" and len: "8 \<le> length xs"
  shows "scanSignatureComponent H src header directory =
    (if take 8 xs \<noteq> header then Inl (Malformed ''signature component changed while reading'')
     else Inr (prefixOf xs, case startHash directory xs of None \<Rightarrow> [] | Some kind \<Rightarrow> hashSum H kind xs))"
proof -
  have size: "srcSize src = int (length xs)" using delivers_range [OF src] by blast
  define want where "want = min (length xs) transferBufferSize"
  have want: "0 < want" "0 + want \<le> length xs" using len by (auto simp: want_def transferBufferSize_def)
  have buf: "transferBuffer (srcSize src) = want" by (simp add: transferBuffer_def size want_def min_def)
  obtain r e where r: "reader src = Some r" "r (offset src + int 0) want = (slice xs 0 want, e)" "e \<in> {None, Some IoEOF}"
    using delivers_read [OF src want(2,1)] .
  have first: "slice xs 0 want = take want xs" "length (take want xs) = want" using want by (simp_all add: slice_def)
  have start: "startHash directory (take want xs) = startHash directory xs"
    using want by (auto simp: startHash_def want_def transferBufferSize_def min_def)
  have zero: "replicate 108 0 = prefixOf (take 0 xs)" by (simp add: prefixOf_def)
  have w: "min want (length xs) = want" using want by simp
  have "scanLoop src want directory 0 (replicate 108 0) None =
      scanLoop src want directory want (prefixOf (take want xs)) (map_option (\<lambda>k. (k, take want xs)) (startHash directory xs))"
    using r want first copyPrefix_prefixOf [of 0 "take want xs" xs]
    by (subst scanLoop.simps) (auto simp: w Let_def size zero start option.map_comp comp_def)
  also have "\<dots> = Inr (prefixOf xs, map_option (\<lambda>k. (k, xs)) (startHash directory xs))"
    using scanLoop_content [OF src want(1)] want by simp
  finally have loop: "scanLoop src want directory 0 (replicate 108 0) None =
      Inr (prefixOf xs, map_option (\<lambda>k. (k, xs)) (startHash directory xs))" .
  have "take 8 (prefixOf xs) = take 8 xs" using len by (simp add: prefixOf_def min_def)
  then show ?thesis unfolding scanSignatureComponent_def buf loop
    by (cases "startHash directory xs") (simp_all add: size)
qed

lemma startHash_digest:
  "44 \<le> length xs \<Longrightarrow> digest H (unat (xs ! 37)) xs =
   (case startHash True xs of None \<Rightarrow> Inl (Unsupported ''hash type'') | Some kind \<Rightarrow> Inr (hashSum H kind xs))"
  by (auto simp: digest_def startHash_def hashSum_def)

lemma findZero_content:
  assumes src: "delivers src xs" and buf: "0 < buf"
  shows "first \<le> at \<Longrightarrow> at \<le> length xs \<Longrightarrow> 0 \<notin> set (slice xs first (at - first)) \<Longrightarrow>
    findZero src buf first at =
    (if 0 \<notin> set (drop first xs) then Inl (Malformed ''unterminated string'')
     else Inr \<lparr>vs_offset = first, vs_length = length (takeWhile (\<lambda>b. b \<noteq> 0) (drop first xs))\<rparr>)"
proof (induction "length xs - at" arbitrary: at rule: less_induct)
  case less
  have size: "srcSize src = int (length xs)" using delivers_range [OF src] by blast
  have split: "drop first xs = slice xs first (at - first) @ drop at xs"
    using less.prems(1) by (simp add: slice_def) (metis append_take_drop_id drop_drop le_add_diff_inverse2)
  show ?case
  proof (cases "at = length xs")
    case True
    then show ?thesis using less.prems split by (subst findZero.simps) (simp add: size)
  next
    case False
    define want where "want = min buf (length xs - at)"
    have want: "0 < want" "at + want \<le> length xs" using False less.prems buf by (auto simp: want_def)
    obtain r e where r: "reader src = Some r" "r (offset src + int at) want = (slice xs at want, e)" "e \<in> {None, Some IoEOF}"
      using delivers_read [OF src want(2,1)] .
    have w: "min buf (nat (int (length xs) - int at)) = want" using less.prems by (simp add: want_def nat_diff_distrib)
    have len: "length (slice xs at want) = want" using want by simp
    have parts: "drop at xs = slice xs at want @ drop (at + want) xs"
      by (simp add: slice_def) (metis append_take_drop_id drop_drop add.commute)
    show ?thesis
    proof (cases "0 \<in> set (slice xs at want)")
      case True
      have "findZero src buf first at = Inr \<lparr>vs_offset = first, vs_length = at - first + length (takeWhile (\<lambda>b. b \<noteq> 0) (slice xs at want))\<rparr>"
        using r want len False less.prems buf True by (subst findZero.simps) (auto simp: w Let_def size)
      moreover have "takeWhile (\<lambda>b. b \<noteq> 0) (drop first xs) =
          slice xs first (at - first) @ takeWhile (\<lambda>b. b \<noteq> 0) (slice xs at want)"
        unfolding split parts using less.prems(3) True by (metis (mono_tags, lifting) takeWhile_append1 takeWhile_append2)
      moreover have "0 \<in> set (drop first xs)" unfolding split parts using True by simp
      ultimately show ?thesis using less.prems by simp
    next
      case none: False
      have "findZero src buf first at = findZero src buf first (at + want)"
        using r want len False less.prems buf none by (subst findZero.simps) (auto simp: w Let_def size)
      moreover have "slice xs first (at + want - first) = slice xs first (at - first) @ slice xs at want"
        using slice_split [of xs first "at - first" want] less.prems(1) by simp
      ultimately show ?thesis using less.hyps [of "at + want"] less.prems want none by simp
    qed
  qed
qed

lemma scanViewString_content:
  assumes src: "delivers src xs"
  shows "scanViewString src at = rbind (cstring xs at) (\<lambda>s. Inr \<lparr>vs_offset = at, vs_length = length s\<rparr>)"
proof (cases "at \<ge> length xs")
  case True
  then show ?thesis using delivers_range [OF src] by (simp add: scanViewString_def cstring_def)
next
  case False
  then have "0 < transferBuffer (srcSize src - int at)"
    using delivers_range [OF src] by (simp add: transferBuffer_def transferBufferSize_def)
  from findZero_content [OF src this, of at at] show ?thesis
    using False delivers_range [OF src] by (simp add: scanViewString_def cstring_def)
qed

section \<open>Directories\<close>

text \<open>
  The stored view of a directory is read back as the owned parser's directory, less its bytes,
  which its source delivers.
\<close>

definition represents :: "directoryView \<Rightarrow> Directory \<Rightarrow> bool" where
  "represents v d \<longleftrightarrow> reportDirectory v = Inr (d\<lparr>Raw := []\<rparr>) \<and> delivers (dv_source v) (Raw d)"

lemma slice_prefixOf: "k + n \<le> length xs \<Longrightarrow> k + n \<le> 108 \<Longrightarrow> slice (prefixOf xs) k n = slice xs k n"
  by (intro nth_equalityI) (simp_all add: nth_slice nth_prefixOf)

lemma prefix_fields:
  assumes "k + 4 \<le> length xs" "k + 4 \<le> 108" shows "be32 (prefixOf xs) k = be32 xs k"
  using slice_prefixOf [OF assms] by (simp add: be32_def)

lemma prefix_fields64:
  assumes "k + 8 \<le> length xs" "k + 8 \<le> 108" shows "be64 (prefixOf xs) k = be64 xs k"
  using slice_prefixOf [OF assms] by (simp add: be64_def)

lemma prefix_versioned:
  assumes "directoryHeader v \<le> length xs"
  shows "from_version v 0x20100 (be32 (prefixOf xs) 44) = (if v \<ge> 0x20100 then be32 xs 44 else 0)"
    "from_version v 0x20200 (be32 (prefixOf xs) 48) = (if v \<ge> 0x20200 then be32 xs 48 else 0)"
    "from_version v 0x20300 (be64 (prefixOf xs) 56) = (if v \<ge> 0x20300 then be64 xs 56 else 0)"
    "from_version v 0x20400 (be64 (prefixOf xs) 64) = (if v \<ge> 0x20400 then be64 xs 64 else 0)"
    "from_version v 0x20400 (be64 (prefixOf xs) 72) = (if v \<ge> 0x20400 then be64 xs 72 else 0)"
    "from_version v 0x20400 (be64 (prefixOf xs) 80) = (if v \<ge> 0x20400 then be64 xs 80 else 0)"
    "from_version v 0x20500 (be32 (prefixOf xs) 88) = (if v \<ge> 0x20500 then be32 xs 88 else 0)"
  using assms directoryHeader_bounds [of v] by (auto simp: from_version_def prefix_fields prefix_fields64)

lemma reportDirectory_names:
  assumes src: "delivers src xs" and small: "length xs \<le> maxFileSize"
    and ident: "cstring xs i = Inr ident" and team: "(if t \<noteq> 0 then cstring xs t else Inr []) = Inr team"
  shows "reportDirectory \<lparr>dv_slot = k, dv_metadata = d, dv_source = src, dv_identifier = \<lparr>vs_offset = i, vs_length = length ident\<rparr>,
      dv_team = (if t \<noteq> 0 then \<lparr>vs_offset = t, vs_length = length team\<rparr> else \<lparr>vs_offset = 0, vs_length = 0\<rparr>)\<rparr> =
    Inr (d\<lparr>Identifier := ident, TeamID := team\<rparr>)"
proof -
  have named: "codeRead src at (length s) = Inr s" if "cstring xs at = Inr s" for at s
    using cstring_Inr [OF that] small codeRead_content [OF src, of at "length s"] by simp
  have "codeRead src 0 0 = Inr []" using codeRead_content [OF src, of 0 0] by simp
  then show ?thesis using named [OF ident] named [of t team] team by (cases "t = 0") (auto simp: reportDirectory_def)
qed

definition componentSum :: "hash_lib \<Rightarrow> bool \<Rightarrow> byte list \<Rightarrow> byte list" where
  "componentSum H directory xs = (case startHash directory xs of None \<Rightarrow> [] | Some kind \<Rightarrow> hashSum H kind xs)"

lemma componentSum_digest:
  assumes "hash_lib_ok H" "44 \<le> length xs"
  shows "digest H (unat (xs ! 37)) xs = (if componentSum H True xs = [] then Inl (Unsupported ''hash type'') else Inr (componentSum H True xs))"
proof (cases "startHash True xs")
  case None
  then show ?thesis using startHash_digest [OF assms(2)] by (simp add: componentSum_def)
next
  case (Some kind)
  have "length (hashSum H kind xs) \<in> {20, 32, 48}" using assms(1) by (auto simp: hashSum_def hash_lib_ok_def)
  then have "hashSum H kind xs \<noteq> []" by auto
  then show ?thesis using Some startHash_digest [OF assms(2), of H] by (simp add: componentSum_def)
qed

lemma parseDirectoryView_content:
  assumes H: "hash_lib_ok H" and src: "delivers src xs" and small: "length xs \<le> maxFileSize"
  shows "case parseDirectory H xs of
      Inl e \<Rightarrow> parseDirectoryView src (prefixOf xs) (componentSum H True xs) = Inl e
    | Inr d \<Rightarrow> \<exists>v. parseDirectoryView src (prefixOf xs) (componentSum H True xs) = Inr v \<and> represents v d"
proof (cases "length xs < 44")
  case True
  have size: "nat (srcSize src) = length xs" using delivers_range [OF src] by simp
  show ?thesis using True by (simp add: parseDirectoryView_def parseDirectory_def size)
next
  case False
  have size: "nat (srcSize src) = length xs" using delivers_range [OF src] by simp
  have pf: "be32 (prefixOf xs) 0 = be32 xs 0" "be32 (prefixOf xs) 8 = be32 xs 8" "be32 (prefixOf xs) 12 = be32 xs 12"
    "be32 (prefixOf xs) 16 = be32 xs 16" "be32 (prefixOf xs) 20 = be32 xs 20" "be32 (prefixOf xs) 24 = be32 xs 24"
    "be32 (prefixOf xs) 28 = be32 xs 28" "be32 (prefixOf xs) 32 = be32 xs 32"
    "prefixOf xs ! 36 = xs ! 36" "prefixOf xs ! 37 = xs ! 37" "prefixOf xs ! 38 = xs ! 38" "prefixOf xs ! 39 = xs ! 39"
    using False by (simp_all add: prefix_fields nth_prefixOf)
  let ?v = "be32 xs 8"
  show ?thesis
  proof (cases "be32 xs 0 \<noteq> MagicDirectory \<or> ?v < 0x20001 \<or> ?v > 0x20600 \<or> length xs < directoryHeader ?v")
    case True
    then show ?thesis using False
      unfolding parseDirectory_def parseDirectoryView_def Let_def directory_fields [OF False] rbind_Inr pf size
      by (cases "be32 xs 0 = MagicDirectory") auto
  next
    case ok: False
    then have hdr: "directoryHeader ?v \<le> length xs" by simp
    have dg: "digest H (unat (xs ! 37)) xs = (if componentSum H True xs = [] then Inl (Unsupported ''hash type'') else Inr (componentSum H True xs))"
      using componentSum_digest [OF H] False by simp
    let ?S = "componentSum H True xs" and ?i = "be32 xs 20" and ?h = "directoryHeader ?v"
    let ?t = "if ?v \<ge> 0x20200 then be32 xs 48 else 0"
    note both = parseDirectory_def parseDirectoryView_def Let_def directory_fields [OF False] directory_reads [OF hdr]
        prefix_versioned [OF hdr] rbind_Inr pf size dg scanViewString_content [OF src]
    have guards: "(length xs < 44) = False" "(be32 xs 0 \<noteq> MagicDirectory) = False" "(?v < 0x20001 \<or> 0x20600 < ?v) = False"
      "(length xs < ?h) = False" using ok False by auto
    show ?thesis
    proof (cases "?S = [] \<or> unat (xs ! 36) \<noteq> length ?S \<or> unat (xs ! 39) > 31 \<or> (if ?v \<ge> 0x20100 then be32 xs 44 else 0) \<noteq> 0 \<or> ?i < ?h")
      case True
      have inl: "rbind (Inl e) k = Inl e" for e :: error and k :: "byte list \<Rightarrow> Directory result" by (simp add: rbind_def)
      consider "?S = []" | (sizes) "?S \<noteq> []" "unat (xs ! 36) \<noteq> length ?S \<or> 31 < unat (xs ! 39)"
        | (scatter) "?S \<noteq> []" "\<not> (unat (xs ! 36) \<noteq> length ?S \<or> 31 < unat (xs ! 39))" "(if ?v \<ge> 0x20100 then be32 xs 44 else 0) \<noteq> 0"
        | (ident) "?S \<noteq> []" "\<not> (unat (xs ! 36) \<noteq> length ?S \<or> 31 < unat (xs ! 39))" "\<not> (if ?v \<ge> 0x20100 then be32 xs 44 else 0) \<noteq> 0" "?i < ?h"
        using True by argo
      then show ?thesis
      proof cases
        case 1
        then show ?thesis unfolding both guards if_False simp_thms if_P [OF 1] inl sum.case by simp
      next
        case sizes
        then show ?thesis unfolding both guards if_False simp_thms if_not_P [OF sizes(1)] if_P [OF sizes(2)] rbind_Inr sum.case by simp
      next
        case scatter
        then show ?thesis unfolding both guards if_False simp_thms if_not_P [OF scatter(1)] if_not_P [OF scatter(2)] if_P [OF scatter(3)]
            rbind_Inr sum.case by simp
      next
        case ident
        then show ?thesis unfolding both guards if_False simp_thms if_not_P [OF ident(1)] if_not_P [OF ident(2)] if_not_P [OF ident(3)]
            if_P [OF ident(4)] rbind_Inr sum.case by simp
      qed
    next
      case pass: False
      have pass': "(?S = []) = False" "(unat (xs ! 36) \<noteq> length ?S \<or> 31 < unat (xs ! 39)) = False"
        "((if ?v \<ge> 0x20100 then be32 xs 44 else 0) \<noteq> 0) = False" "(?i < ?h) = False" using pass by auto
      note run = both guards pass' if_False simp_thms
      show ?thesis
      proof (cases "cstring xs ?i")
        case (Inl e)
        then show ?thesis unfolding run by (simp add: rbind_def)
      next
        case ident: (Inr ident)
        show ?thesis
        proof (cases "if ?t \<noteq> 0 then cstring xs ?t else Inr []")
          case (Inl e)
          then have t: "?t \<noteq> 0" "cstring xs ?t = Inl e" by (auto split: if_splits)
          show ?thesis unfolding run ident if_P [OF t(1)] t(2) by (simp add: rbind_def)
        next
          case team: (Inr team)
          have team': "(if ?t \<noteq> 0 then rbind (cstring xs ?t) (\<lambda>s. Inr \<lparr>vs_offset = ?t, vs_length = length s\<rparr>) else Inr \<lparr>vs_offset = 0, vs_length = 0\<rparr>) =
              Inr (if ?t \<noteq> 0 then \<lparr>vs_offset = ?t, vs_length = length team\<rparr> else \<lparr>vs_offset = 0, vs_length = 0\<rparr>)"
            using team by (cases "?t = 0") auto
          show ?thesis
          proof (cases "be32 xs 16 < ?h + be32 xs 24 * unat (xs ! 36) \<or> \<not> rangeOK (be32 xs 16) (be32 xs 28 * unat (xs ! 36)) (length xs)")
            case True
            then show ?thesis unfolding run ident team team' by simp
          next
            case good: False
            show ?thesis unfolding run ident team team' if_not_P [OF good] sum.case represents_def
              by (intro exI conjI, rule refl, subst reportDirectory_names [OF src small ident team]) (simp_all add: src)
          qed
        qed
      qed
    qed
  qed
qed

section \<open>The loop\<close>

text \<open>The slots of the first \<open>i\<close> entries with their positions.\<close>

fun slotMap :: "byte list \<Rightarrow> nat \<Rightarrow> (nat \<rightharpoonup> nat)" where
  "slotMap xs 0 = Map.empty"
| "slotMap xs (Suc i) = (slotMap xs i)(be32 xs (12 + i * 8) \<mapsto> i)"

lemma slotMap_Some: "slotMap xs i slot = Some j \<Longrightarrow> j < i \<and> be32 xs (12 + j * 8) = slot"
  by (induction i) (auto split: if_splits)

lemma disjointSpans_snoc: "disjointSpans (ss @ [s]) \<longleftrightarrow> disjointSpans ss \<and> (\<forall>a \<in> set ss. disjointSpan a s)"
  by (auto simp: disjointSpans_def sorted_wrt_append)

lemma meets_spans:
  assumes "\<And>k v. (k, v) \<in> set ss \<longleftrightarrow> m k = Some v"
  shows "meets m k fin \<longleftrightarrow> \<not> (\<forall>a \<in> set ss. disjointSpan a (k, fin))"
proof -
  have "meets m k fin \<longleftrightarrow> (\<exists>a \<in> set ss. fst a < fin \<and> k < snd a)"
    unfolding meets_def assms [symmetric] by force
  then show ?thesis by (auto simp: disjointSpan_def not_le)
qed

text \<open>The view's state beside the owned parser's.\<close>

definition interval_rel :: "(nat \<times> nat) list \<Rightarrow> nat \<Rightarrow> bool \<Rightarrow> signatureIndex \<Rightarrow> bool" where
  "interval_rel ss i overlap x \<longleftrightarrow> (\<forall>s \<in> set ss. fst s < snd s) \<and>
     (if overlap then \<not> disjointSpans ss
      else disjointSpans ss \<and> (\<exists>m. index_abs x m \<and> disjoint_map m \<and> (\<forall>k v. (k, v) \<in> set ss \<longleftrightarrow> m k = Some v)) \<and> ix_count x \<le> 2 * i)"

text \<open>A view is of the component at its slot; the slots are the directory slots seen.\<close>

definition view_of :: "Blob list \<Rightarrow> directoryView \<Rightarrow> Directory \<Rightarrow> bool" where
  "view_of bs v d \<longleftrightarrow> represents v d \<and> (\<exists>b \<in> set bs. Slot b = dv_slot v \<and> Data b = Raw d)"

definition directories_rel :: "Blob list \<Rightarrow> nat list \<Rightarrow> Directory list \<Rightarrow> directoryView list \<Rightarrow> bool" where
  "directories_rel bs sn ds vs \<longleftrightarrow> list_all2 (view_of bs) vs ds \<and> distinct (map dv_slot vs) \<and>
     dv_slot ` set vs = {slot \<in> set sn. isDirectorySlot slot}"

definition view_rel :: "byte list \<Rightarrow> nat \<Rightarrow> sig_state \<Rightarrow> view_state \<Rightarrow> bool" where
  "view_rel xs i st vs \<longleftrightarrow> index_abs (vw_slots vs) (slotMap xs i) \<and> ix_count (vw_slots vs) \<le> 2 * i \<and>
     set (seen st) = dom (slotMap xs i) \<and> interval_rel (spans st) i (vw_overlap vs) (vw_intervals vs) \<and>
     directories_rel (blobs st) (seen st) (dirs st) (vw_directories vs)"

lemma interval_rel_note:
  assumes rel: "interval_rel ss i overlap x" and iv: "k < fin" "fin < 2 ^ 32" and i: "2 * i + 2 < 2 ^ 32"
    and st: "vw_overlap st = overlap" "vw_intervals st = x"
  shows "\<exists>overlap' x'. noteInterval (\<lambda>_. None) k fin st = Inr (st\<lparr>vw_overlap := overlap', vw_intervals := x'\<rparr>) \<and>
    interval_rel (ss @ [(k, fin)]) (Suc i) overlap' x'"
proof (cases overlap)
  case True
  then have "noteInterval (\<lambda>_. None) k fin st = Inr st" using st by (simp add: noteInterval_def)
  moreover have "interval_rel (ss @ [(k, fin)]) (Suc i) True x" using rel True iv by (auto simp: interval_rel_def disjointSpans_snoc)
  ultimately show ?thesis using st True by (intro exI [of _ True] exI [of _ x]) simp
next
  case False
  then obtain m where m: "index_abs x m" "disjoint_map m" "\<And>k v. (k, v) \<in> set ss \<longleftrightarrow> m k = Some v" "ix_count x \<le> 2 * i"
    and ss: "\<forall>s \<in> set ss. fst s < snd s" "disjointSpans ss"
    using rel by (auto simp: interval_rel_def)
  have ov: "indexOverlaps x k fin = Inr (meets m k fin)" by (rule sig.overlaps_meets [OF m(1,2) iv(1)])
  have meet: "meets m k fin \<longleftrightarrow> \<not> (\<forall>a \<in> set ss. disjointSpan a (k, fin))"
    by (rule meets_spans [OF m(3)])
  show ?thesis
  proof (cases "meets m k fin")
    case True
    have "noteInterval (\<lambda>_. None) k fin st = Inr (st\<lparr>vw_overlap := True\<rparr>)" using st ov False True by (simp add: noteInterval_def)
    moreover have "interval_rel (ss @ [(k, fin)]) (Suc i) True x"
      using meet True ss iv by (auto simp: interval_rel_def disjointSpans_snoc)
    ultimately show ?thesis using st by (intro exI [of _ True] exI [of _ x]) simp
  next
    case free: False
    obtain x' where x': "indexInsert (\<lambda>_. None) x k fin = Inr (x', False)" "index_abs x' (m(k \<mapsto> fin))" "disjoint_map (m(k \<mapsto> fin))"
        "ix_count x' \<le> ix_count x + 2"
      using sig.note_interval [OF m(1,2) iv _ free] m(4) i by auto
    have fresh: "(k, v) \<notin> set ss" for v
    proof
      assume "(k, v) \<in> set ss"
      then have "meets m k fin" using m(3) ss(1) iv(1) unfolding meets_def by (metis fst_conv snd_conv)
      with free show False ..
    qed
    have "noteInterval (\<lambda>_. None) k fin st = Inr (st\<lparr>vw_intervals := x'\<rparr>)" using st ov False free x'(1) by (simp add: noteInterval_def)
    moreover have "interval_rel (ss @ [(k, fin)]) (Suc i) False x'"
      unfolding interval_rel_def if_False
    proof (intro conjI)
      show "\<forall>s \<in> set (ss @ [(k, fin)]). fst s < snd s" using ss(1) iv(1) by auto
      show "disjointSpans (ss @ [(k, fin)])" using ss(2) meet free by (simp add: disjointSpans_snoc)
      show "\<exists>m. index_abs x' m \<and> disjoint_map m \<and> (\<forall>j v. (j, v) \<in> set (ss @ [(k, fin)]) \<longleftrightarrow> m j = Some v)"
        using x'(2,3) m(3) fresh by (intro exI [of _ "m(k \<mapsto> fin)"]) auto
      show "ix_count x' \<le> 2 * Suc i" using x'(4) m(4) by simp
    qed
    ultimately show ?thesis using st False by (intro exI [of _ False] exI [of _ x']) simp
  qed
qed

text \<open>At most six directories: their slots are distinct directory slots.\<close>

lemma directories_room:
  assumes "directories_rel bs sn ds vs" "isDirectorySlot slot" "slot \<notin> set sn"
  shows "length vs < 6"
proof -
  have d: "distinct (map dv_slot vs)" "\<forall>v \<in> set vs. dv_slot v \<in> set sn \<and> isDirectorySlot (dv_slot v)"
    using assms(1) by (auto simp: directories_rel_def)
  have all: "{s. isDirectorySlot s} = {0, 0x1000, 0x1001, 0x1002, 0x1003, 0x1004}"
    by (auto simp: isDirectorySlot_def)
  have "insert slot (set (map dv_slot vs)) \<subseteq> {s. isDirectorySlot s}" using d(2) assms(2) by auto
  then have "card (insert slot (set (map dv_slot vs))) \<le> card {0 :: nat, 0x1000, 0x1001, 0x1002, 0x1003, 0x1004}"
    unfolding all by (intro card_mono) auto
  moreover have "slot \<notin> set (map dv_slot vs)" using d(2) assms(3) by auto
  moreover have "card (set (map dv_slot vs)) = length vs" using distinct_card [OF d(1)] by simp
  ultimately show ?thesis by simp
qed

lemma addDirectory_rel:
  assumes H: "hash_lib_ok H" and src: "delivers component data" "length data \<le> maxFileSize"
    and rel: "directories_rel bs sn (dirs st) (vw_directories vs)" and new: "slot \<notin> set sn"
  shows "case (if isDirectorySlot slot then rbind (parseDirectory H data) (\<lambda>d. Inr (dirs st @ [d])) else Inr (dirs st)) of
      Inl e \<Rightarrow> addDirectory H component (prefixOf data) (componentSum H (isDirectorySlot slot) data) slot vs = Inl e
    | Inr ds \<Rightarrow> \<exists>vds. addDirectory H component (prefixOf data) (componentSum H (isDirectorySlot slot) data) slot vs =
        Inr (vs\<lparr>vw_directories := vds\<rparr>) \<and> directories_rel (bs @ [\<lparr>Slot = slot, Magic = m, Data = data\<rparr>]) (slot # sn) ds vds"
proof -
  let ?bs = "bs @ [\<lparr>Slot = slot, Magic = m, Data = data\<rparr>]"
  have more: "view_of bs v d \<Longrightarrow> view_of ?bs v d" for v d by (auto simp: view_of_def)
  show ?thesis
proof (cases "isDirectorySlot slot")
  case False
  have "directories_rel ?bs (slot # sn) (dirs st) (vw_directories vs)"
    using rel False more by (auto simp: directories_rel_def elim!: list_all2_mono)
  with False show ?thesis by (auto simp: addDirectory_def intro!: exI [of _ "vw_directories vs"])
next
  case True
  note view = parseDirectoryView_content [OF H src]
  show ?thesis
  proof (cases "parseDirectory H data")
    case (Inl e)
    with view True show ?thesis by (simp add: addDirectory_def rbind_def)
  next
    case (Inr d)
    with view obtain v where v: "parseDirectoryView component (prefixOf data) (componentSum H True data) = Inr v" "represents v d" by auto
    let ?v = "v\<lparr>dv_slot := slot\<rparr>"
    have "view_of ?bs ?v d"
      using v(2) parseDirectory_wf [OF Inr] by (auto simp: represents_def reportDirectory_def view_of_def)
    moreover have "slot \<notin> dv_slot ` set (vw_directories vs)" using rel new by (auto simp: directories_rel_def)
    moreover have "list_all2 (view_of ?bs) (vw_directories vs) (dirs st)"
      using rel more by (auto simp: directories_rel_def elim!: list_all2_mono)
    ultimately have "directories_rel ?bs (slot # sn) (dirs st @ [d]) (vw_directories vs @ [?v])"
      using rel True by (auto simp: directories_rel_def intro!: list_all2_appendI)
    moreover have "addDirectory H component (prefixOf data) (componentSum H True data) slot vs =
        Inr (vs\<lparr>vw_directories := vw_directories vs @ [?v]\<rparr>)"
      using v(1) True directories_room [OF rel True new] by (simp add: addDirectory_def)
    ultimately show ?thesis using Inr True by auto
  qed
qed
qed

text \<open>One entry: the same error, or related states.\<close>

lemma view_entry_rel:
  assumes H: "hash_lib_ok H" and src: "delivers src xs" "length xs \<le> maxFileSize"
    and bounds: "i < cnt" "12 + cnt * 8 \<le> len" "len \<le> length xs" and rel: "view_rel xs i st vs"
  shows "case sig_entry H (memoryRange xs) len cnt i st of
      Inl e \<Rightarrow> view_entry H (\<lambda>_. None) src len cnt i vs = Inl e
    | Inr st' \<Rightarrow> \<exists>vs'. view_entry H (\<lambda>_. None) src len cnt i vs = Inr vs' \<and> view_rel xs (Suc i) st' vs'"
proof -
  let ?slot = "be32 xs (12 + i * 8)" and ?off = "be32 xs (16 + i * 8)"
  let ?entry = "slice xs (12 + i * 8) 8" and ?hdr = "slice xs ?off 8"
  have small: "length xs \<le> 2 ^ 30" using src(2) by (simp add: maxFileSize_def)
  have entry: "memoryRange xs (12 + i * 8) 8 = Inr ?entry" "codeRead src (12 + i * 8) 8 = Inr ?entry"
    using bounds src(2) codeRead_content [OF src(1), of "12 + i * 8" 8] by (simp_all add: memoryRange_def maxFileSize_def)
  have fields: "rd32 ?entry 0 = Inr ?slot" "rd32 ?entry 4 = Inr ?off" "be32 ?entry 0 = ?slot" "be32 ?entry 4 = ?off"
    using bounds by (simp_all add: be32_slice)
  have room: "2 * i + 2 < 2 ^ 32" using bounds small by simp
  have wrap: "(12 + cnt * 8) mod 2 ^ 32 = 12 + cnt * 8" using bounds small by simp
  have slots: "index_abs (vw_slots vs) (slotMap xs i)" "ix_count (vw_slots vs) \<le> 2 * i" "set (seen st) = dom (slotMap xs i)"
    using rel by (auto simp: view_rel_def)
  have lt: "?slot < 2 ^ 32" "i < 2 ^ 32" using be32_less bounds small by (auto simp: be32_less)
  note run = sig_entry_def view_entry_def Let_def entry fields rbind_Inr
  show ?thesis
  proof (cases "?slot \<in> set (seen st)")
    case True
    then have "slotMap xs i ?slot \<noteq> None" using slots(3) by auto
    then have "indexInsert (\<lambda>_. None) (vw_slots vs) ?slot i = Inr (vw_slots vs, True)" by (rule sig.insert_old [OF slots(1) _ lt])
    with True show ?thesis unfolding run by simp
  next
    case False
    then have "slotMap xs i ?slot = None" using slots(3) by auto
    then obtain x' where x': "indexInsert (\<lambda>_. None) (vw_slots vs) ?slot i = Inr (x', False)"
        "index_abs x' (slotMap xs (Suc i))" "ix_count x' \<le> 2 * Suc i"
      using sig.insert_new [OF slots(1) _ lt] slots(2) room by fastforce
    show ?thesis
    proof (cases "?off < 12 + cnt * 8 \<or> \<not> rangeOK ?off 8 len")
      case True
      then show ?thesis using False x'(1) unfolding run wrap by simp
    next
      case hdr: False
      let ?n = "be32 xs (?off + 4)"
      have off: "?off + 8 \<le> length xs" using hdr bounds by (simp add: rangeOK_iff)
      have header: "memoryRange xs ?off 8 = Inr ?hdr" "codeRead src ?off 8 = Inr ?hdr" "rd32 ?hdr 0 = Inr (be32 xs ?off)"
        "rd32 ?hdr 4 = Inr ?n" "be32 ?hdr 4 = ?n" "be32 ?hdr 0 = be32 xs ?off"
        using off src(2) codeRead_content [OF src(1) off] by (simp_all add: memoryRange_def maxFileSize_def be32_slice)
      show ?thesis
      proof (cases "?n < 8 \<or> \<not> rangeOK ?off ?n len")
        case True
        then show ?thesis using False x'(1) hdr unfolding run wrap header by simp
      next
        case blob: False
        let ?data = "slice xs ?off ?n" and ?comp = "subSource src ?off ?n"
        have n: "8 \<le> ?n" "?off + ?n \<le> length xs" using blob bounds by (auto simp: rangeOK_iff)
        have data: "memoryRange xs ?off ?n = Inr ?data" "slice_at ?data 0 8 = Inr ?hdr"
          using n by (simp_all add: memoryRange_def slice_slice)
        have comp: "delivers ?comp ?data" unfolding subSource_def by (rule delivers_sub [OF src(1) n(2)])
        have len8: "8 \<le> length ?data" "length ?data \<le> maxFileSize" using n src(2) by simp_all
        have "take 8 ?data = ?hdr" using n by (simp add: slice_def min_def)
        then have scan: "scanSignatureComponent H ?comp ?hdr directory = Inr (prefixOf ?data, componentSum H directory ?data)" for directory
          using scanSignatureComponent_content [OF comp len8(1), of H ?hdr directory] by (simp add: componentSum_def)
        have fin: "(?off + ?n) mod 2 ^ 32 = ?off + ?n" "?off < ?off + ?n" "?off + ?n < 2 ^ 32" using n small by simp_all
        note run = run wrap header data scan
        show ?thesis
        proof (cases "expectedMagic ?slot \<noteq> 0 \<and> be32 xs ?off \<noteq> expectedMagic ?slot")
          case True
          then have "expectedMagic ?slot \<noteq> be32 xs ?off" by auto
          with True show ?thesis using False x'(1) hdr blob unfolding run by simp
        next
          case magic: False
          let ?vs = "vs\<lparr>vw_slots := x'\<rparr>" and ?sn = "?slot # seen st"
          have old: "directories_rel (blobs st) (seen st) (dirs st) (vw_directories ?vs)" "interval_rel (spans st) i (vw_overlap vs) (vw_intervals vs)"
            using rel by (simp_all add: view_rel_def)
          note add = addDirectory_rel [OF H comp len8(2) old(1) False, of "be32 xs ?off"]
          let ?ds = "if isDirectorySlot ?slot then rbind (parseDirectory H ?data) (\<lambda>d. Inr (dirs st @ [d])) else Inr (dirs st)"
          let ?st = "\<lambda>ds. st\<lparr>seen := ?sn, spans := spans st @ [(?off, ?off + ?n)], blobs := blobs st @ [\<lparr>Slot = ?slot, Magic = be32 xs ?off, Data = ?data\<rparr>], dirs := ds\<rparr>"
          have owned: "sig_entry H (memoryRange xs) len cnt i st = rbind ?ds (\<lambda>ds. Inr (?st ds))"
            using False hdr blob magic fin(1) unfolding run by (auto simp: rbind_def split: sum.splits)
          have magic': "\<not> (expectedMagic ?slot \<noteq> 0 \<and> expectedMagic ?slot \<noteq> be32 xs ?off)" using magic by auto
          have "view_entry H (\<lambda>_. None) src len cnt i vs =
              rbind (addDirectory H ?comp (prefixOf ?data) (componentSum H (isDirectorySlot ?slot) ?data) ?slot ?vs)
                (noteInterval (\<lambda>_. None) ?off (?off + ?n))"
            using False hdr blob x'(1) unfolding run fin(1) if_not_P [OF magic'] by simp
          note view = this
          show ?thesis
          proof (cases ?ds)
            case (Inl e)
            then show ?thesis using add unfolding owned view by (simp add: rbind_def)
          next
            case (Inr ds)
            then obtain vds where vds: "addDirectory H ?comp (prefixOf ?data) (componentSum H (isDirectorySlot ?slot) ?data) ?slot ?vs =
                Inr (?vs\<lparr>vw_directories := vds\<rparr>)" "directories_rel (blobs (?st ds)) ?sn ds vds" using add by auto
            let ?vs' = "?vs\<lparr>vw_directories := vds\<rparr>"
            obtain overlap' iv' where note': "noteInterval (\<lambda>_. None) ?off (?off + ?n) ?vs' = Inr (?vs'\<lparr>vw_overlap := overlap', vw_intervals := iv'\<rparr>)"
              "interval_rel (spans st @ [(?off, ?off + ?n)]) (Suc i) overlap' iv'"
              using interval_rel_note [OF old(2) fin(2,3) room, of ?vs'] by auto
            have "view_rel xs (Suc i) (?st ds) (?vs'\<lparr>vw_overlap := overlap', vw_intervals := iv'\<rparr>)"
              using x' slots(3) note'(2) vds(2) by (auto simp: view_rel_def)
            then show ?thesis using Inr vds(1) note'(1) unfolding owned view by auto
          qed
        qed
      qed
    qed
  qed
qed

lemma view_entries_rel:
  assumes H: "hash_lib_ok H" and src: "delivers src xs" "length xs \<le> maxFileSize"
    and bounds: "12 + cnt * 8 \<le> len" "len \<le> length xs"
  shows "i + k \<le> cnt \<Longrightarrow> view_rel xs i st vs \<Longrightarrow> case sig_entries H (memoryRange xs) len cnt i k st of
      Inl e \<Rightarrow> view_entries H (\<lambda>_. None) src len cnt i k vs = Inl e
    | Inr st' \<Rightarrow> \<exists>vs'. view_entries H (\<lambda>_. None) src len cnt i k vs = Inr vs' \<and> view_rel xs (i + k) st' vs'"
proof (induction k arbitrary: i st vs)
  case (Suc k)
  from Suc.prems(1) have i: "i < cnt" "Suc i + k \<le> cnt" by simp_all
  note one = view_entry_rel [OF H src i(1) bounds Suc.prems(2)]
  show ?case
  proof (cases "sig_entry H (memoryRange xs) len cnt i st")
    case (Inl e)
    with one show ?thesis by (simp add: rbind_def)
  next
    case (Inr st')
    with one obtain vs' where vs': "view_entry H (\<lambda>_. None) src len cnt i vs = Inr vs'" "view_rel xs (Suc i) st' vs'" by auto
    from Suc.IH [OF i(2) vs'(2)] show ?thesis by (simp add: Inr vs'(1) split: sum.splits)
  qed
qed simp

lemma view_rel_start:
  "view_rel xs 0 \<lparr>seen = [], spans = [], blobs = [], dirs = []\<rparr>
    \<lparr>vw_slots = emptyIndex, vw_intervals = emptyIndex, vw_overlap = False, vw_directories = []\<rparr>"
  using emptyIndex_abs
  by (auto simp: view_rel_def interval_rel_def directories_rel_def disjointSpans_def emptyIndex_def disjoint_map_def
      intro!: exI [of _ Map.empty])

section \<open>The view is the owned signature\<close>

text \<open>
  The view's component of a slot is the owned signature's; its report has the same directories,
  each read from the component at its slot.
\<close>

definition views :: "signatureView \<Rightarrow> Signature \<Rightarrow> bool" where
  "views v sig \<longleftrightarrow> viewReport v = Inr \<lparr>Length = Length sig, Blobs = [], Directories = map (\<lambda>d. d\<lparr>Raw := []\<rparr>) (Directories sig)\<rparr> \<and>
     (\<forall>b \<in> set (Blobs sig). \<exists>src. viewComponent v (Slot b) = Inr (Some src) \<and> delivers src (Data b)) \<and>
     (\<forall>slot. slot \<notin> Slot ` set (Blobs sig) \<longrightarrow> viewComponent v slot = Inr None) \<and>
     list_all2 (\<lambda>dv d. reportDirectory dv = Inr (d\<lparr>Raw := []\<rparr>) \<and> delivers (dv_source dv) (Raw d) \<and>
       find_blob (Blobs sig) (dv_slot dv) = Raw d) (sv_directories v) (Directories sig) \<and>
     dv_slot ` set (sv_directories v) = {slot \<in> Slot ` set (Blobs sig). isDirectorySlot slot}"

lemma reportDirectories_rel:
  "list_all2 (view_of bs) vs ds \<Longrightarrow> reportDirectories vs = Inr (map (\<lambda>d. d\<lparr>Raw := []\<rparr>) ds)"
  by (induction vs ds rule: list_all2_induct) (simp_all add: represents_def view_of_def)

lemma slotMap_dom: "dom (slotMap xs i) = (\<lambda>j. be32 xs (12 + j * 8)) ` {..<i}"
  by (induction i) (auto simp: lessThan_Suc set_eq_iff domIff)

lemma viewComponent_Some:
  assumes src: "delivers (sv_source v) xs" "length xs \<le> maxFileSize" and len: "sv_length v \<le> length xs"
    and find: "indexFind (sv_slots v) slot = Inr (Some j)" "12 + Suc j * 8 \<le> sv_length v" "be32 xs (12 + j * 8) = slot"
    and comp: "off = be32 xs (16 + j * 8)" "n = be32 xs (off + 4)" "8 \<le> n" "off + n \<le> sv_length v"
  shows "viewComponent v slot = Inr (Some (subSource (sv_source v) off n))"
proof -
  have "codeRead (sv_source v) (12 + j * 8) 8 = Inr (slice xs (12 + j * 8) 8)" "codeRead (sv_source v) off 8 = Inr (slice xs off 8)"
    using codeRead_content [OF src(1), of "12 + j * 8" 8] codeRead_content [OF src(1), of off 8] find(2) len comp src(2)
    by (simp_all add: maxFileSize_def)
  moreover have "be32 (slice xs (12 + j * 8) 8) 0 = slot" "be32 (slice xs (12 + j * 8) 8) 4 = off" "be32 (slice xs off 8) 4 = n"
    using find(3) comp(1,2) by (simp_all add: be32_slice)
  ultimately show ?thesis using find(1) comp(3,4) by (simp add: viewComponent_def rangeOK_iff)
qed

lemma signature_view:
  assumes H: "hash_lib_ok H" and src: "delivers src xs" "length xs \<le> maxFileSize"
  shows "case parseSignature H xs allow of
      Inl e \<Rightarrow> parseSignatureView H (\<lambda>_. None) True src allow = Inl e
    | Inr sig \<Rightarrow> \<exists>v. parseSignatureView H (\<lambda>_. None) True src allow = Inr v \<and> views v sig"
proof (cases "length xs < 12")
  case True
  then show ?thesis using delivers_range [OF src(1)] by (simp add: parseSignature_def parseSignatureRange_def parseSignatureView_def)
next
  case False
  have size: "srcSize src = int (length xs)" using delivers_range [OF src(1)] by simp
  have header: "memoryRange xs 0 12 = Inr (slice xs 0 12)" "codeRead src 0 12 = Inr (slice xs 0 12)"
    "rd32 (slice xs 0 12) 0 = Inr (be32 xs 0)" "rd32 (slice xs 0 12) 4 = Inr (be32 xs 4)" "rd32 (slice xs 0 12) 8 = Inr (be32 xs 8)"
    "be32 (slice xs 0 12) 0 = be32 xs 0" "be32 (slice xs 0 12) 4 = be32 xs 4" "be32 (slice xs 0 12) 8 = be32 xs 8"
    using False src(2) codeRead_content [OF src(1), of 0 12] by (simp_all add: memoryRange_def maxFileSize_def be32_slice)
  let ?len = "be32 xs 4" and ?cnt = "be32 xs 8"
  have g: "(length xs < 12) = False" "(srcSize src < 12) = False" "(\<not> True) = False" using False size by auto
  note run = parseSignature_def parseSignatureRange_def parseSignatureView_def Let_def header rbind_Inr g if_False
  show ?thesis
  proof (cases "be32 xs 0 \<noteq> MagicSignature \<or> ?len < 12 \<or> ?len > length xs \<or> ?cnt * 8 > ?len - 12")
    case True
    then show ?thesis unfolding run by (auto simp: size)
  next
    case ok: False
    then have g': "(be32 xs 0 \<noteq> MagicSignature) = False" "(?len < 12 \<or> length xs < ?len \<or> ?len - 12 < ?cnt * 8) = False"
        "(?len < 12 \<or> nat (srcSize src) < ?len \<or> ?len - 12 < ?cnt * 8) = False" using size by auto
    have bounds: "12 + ?cnt * 8 \<le> ?len" "?len \<le> length xs" using ok by auto
    note run = run g' if_False
    let ?st0 = "\<lparr>seen = [], spans = [], blobs = [], dirs = []\<rparr> :: sig_state"
    let ?vs0 = "\<lparr>vw_slots = emptyIndex, vw_intervals = emptyIndex, vw_overlap = False, vw_directories = []\<rparr>"
    note loop = view_entries_rel [OF H src bounds _ view_rel_start, of ?cnt, simplified]
    show ?thesis
    proof (cases "sig_entries H (memoryRange xs) ?len ?cnt 0 ?cnt ?st0")
      case (Inl e)
      then show ?thesis using loop unfolding run by (simp add: rbind_def)
    next
      case (Inr st)
      then obtain vs where vs: "view_entries H (\<lambda>_. None) src ?len ?cnt 0 ?cnt ?vs0 = Inr vs" "view_rel xs ?cnt st vs"
        using loop by auto
      have sp: "\<forall>s \<in> set (spans st). fst s < snd s" "vw_overlap vs \<longleftrightarrow> \<not> disjointSpans (spans st)"
        using vs(2) by (auto simp: view_rel_def interval_rel_def split: if_splits)
      have ov: "adjacentOverlap (sort_key fst (spans st)) = vw_overlap vs" using adjacentOverlap_iff [OF sp(1)] sp(2) by simp
      have slots: "index_abs (vw_slots vs) (slotMap xs ?cnt)" "set (seen st) = dom (slotMap xs ?cnt)" using vs(2) by (auto simp: view_rel_def)
      have find: "indexFind (vw_slots vs) s = Inr (slotMap xs ?cnt s)" for s by (rule sig.find_value [OF slots(1)])
      have dirs: "list_all2 (view_of (blobs st)) (vw_directories vs) (dirs st)" and
        dslots: "dv_slot ` set (vw_directories vs) = {slot \<in> set (seen st). isDirectorySlot slot}" using vs(2) by (simp_all add: view_rel_def directories_rel_def)
      have none: "(vw_directories vs = []) = (dirs st = [])" using list_all2_lengthD [OF dirs] by auto
      have prim: "(slotMap xs ?cnt 0 = None) = (0 \<notin> set (seen st))" using slots(2) by auto
      let ?v = "\<lparr>sv_source = src, sv_length = ?len, sv_count = ?cnt, sv_slots = vw_slots vs, sv_directories = vw_directories vs\<rparr>"
      let ?sig = "\<lparr>Length = ?len, Blobs = blobs st, Directories = dirs st\<rparr>"
      show ?thesis
      proof (cases "vw_overlap vs \<or> slotMap xs ?cnt 0 = None \<and> (\<not> allow \<or> vw_directories vs \<noteq> [])")
        case True
        then show ?thesis unfolding run Inr vs(1) rbind_Inr ov find none prim by auto
      next
        case good: False
        then have owned: "parseSignature H xs allow = Inr ?sig" and view: "parseSignatureView H (\<lambda>_. None) True src allow = Inr ?v"
          unfolding run Inr vs(1) rbind_Inr ov find none prim by auto
        have wf: "signature_wf H xs ?sig" using mem.parseSignatureRange_wf [of H xs allow ?sig] owned by (simp add: parseSignature_def)
        have blob: "blob_ok xs ?len ?cnt j (blobs st ! j)" if "j < ?cnt" for j using wf that by (auto simp: signature_wf_def)
        have count: "length (blobs st) = ?cnt" and dist: "distinct (map Slot (blobs st))" using wf by (auto simp: signature_wf_def)
        have slotAt: "Slot (blobs st ! j) = be32 xs (12 + j * 8)" if "j < ?cnt" for j
          using blob [OF that] by (simp add: blob_ok_def entrySlot_def mult.commute)
        have "viewReport ?v = Inr \<lparr>Length = ?len, Blobs = [], Directories = map (\<lambda>d. d\<lparr>Raw := []\<rparr>) (dirs st)\<rparr>"
          using reportDirectories_rel [OF dirs] by (simp add: viewReport_def)
        moreover have "\<exists>s. viewComponent ?v (Slot b) = Inr (Some s) \<and> delivers s (Data b)" if b: "b \<in> set (blobs st)" for b
        proof -
          obtain j where j: "j < ?cnt" "b = blobs st ! j" using b count by (metis in_set_conv_nth)
          have "Slot b \<in> dom (slotMap xs ?cnt)" unfolding slotMap_dom using j slotAt by auto
          then obtain k where k: "slotMap xs ?cnt (Slot b) = Some k" by auto
          have "k < ?cnt" "be32 xs (12 + k * 8) = Slot b" using slotMap_Some [OF k] by auto
          then have "k = j" using j dist count slotAt by (metis (no_types, lifting) length_map nth_eq_iff_index_eq nth_map)
          let ?off = "entryOff xs j" and ?n = "length (Data b)"
          have ok: "8 \<le> ?n" "?off + ?n \<le> ?len" "Data b = slice xs ?off ?n" "be32 (Data b) 4 = ?n"
            using blob [OF j(1)] j(2) by (auto simp: blob_ok_def)
          have "be32 xs (?off + 4) = ?n" using ok(1,4) by (subst (asm) ok(3)) (simp add: be32_slice)
          then have "viewComponent ?v (Slot b) = Inr (Some (subSource src ?off ?n))"
            using ok bounds src j k find slotAt \<open>k = j\<close>
            by (intro viewComponent_Some [of _ xs, where j = j and v = ?v, simplified]) (simp_all add: entryOff_def mult.commute)
          moreover have "delivers (subSource src ?off ?n) (Data b)"
            using delivers_sub [OF src(1), of ?off ?n] ok bounds by (simp add: subSource_def)
          ultimately show ?thesis by auto
        qed
        moreover have "viewComponent ?v s = Inr None" if "s \<notin> Slot ` set (blobs st)" for s
        proof -
          have "s \<notin> dom (slotMap xs ?cnt)"
          proof
            assume "s \<in> dom (slotMap xs ?cnt)"
            then obtain j where "j < ?cnt" "s = Slot (blobs st ! j)" unfolding slotMap_dom using slotAt by auto
            with that count show False by auto
          qed
          then show ?thesis using find [of s] by (simp add: viewComponent_def domIff)
        qed
        moreover have "list_all2 (\<lambda>dv d. reportDirectory dv = Inr (d\<lparr>Raw := []\<rparr>) \<and> delivers (dv_source dv) (Raw d) \<and>
            find_blob (blobs st) (dv_slot dv) = Raw d) (vw_directories vs) (dirs st)"
          using dirs by (rule list_all2_mono) (auto simp: view_of_def represents_def dest: find_blob_member [OF dist])
        moreover have "set (seen st) = Slot ` set (blobs st)"
        proof -
          have "set (blobs st) = (\<lambda>j. blobs st ! j) ` {..<?cnt}" unfolding count [symmetric] by (auto simp: set_conv_nth)
          then show ?thesis unfolding slots(2) slotMap_dom image_comp using slotAt by (auto simp: image_iff)
        qed
        ultimately show ?thesis unfolding owned using dslots by (auto simp: view views_def)
      qed
    qed
  qed
qed

text \<open>
  C21. Equivalence: on a source of at most the metadata limit, with working storage that refuses no
  section, the signature view rejects exactly the inputs the owned parser rejects, with the same
  error, and otherwise represents the same signature: its report has the same length and
  directories (without their bytes, which the component at each directory's slot delivers), every slot's component is a source that delivers the owned
  component, and other slots are absent.
\<close>

theorem parseSignatureView_equiv:
  assumes "hash_lib_ok H" "delivers src xs" "length xs \<le> maxFileSize"
  shows "case parseSignature H xs allow of
      Inl e \<Rightarrow> parseSignatureView H (\<lambda>_. None) True src allow = Inl e
    | Inr sig \<Rightarrow> \<exists>v. parseSignatureView H (\<lambda>_. None) True src allow = Inr v \<and> views v sig"
  by (rule signature_view [OF assms])

theorem parseSignatureView_equiv_witness:
  "\<exists>v sig. parseSignatureView sampleHash (\<lambda>_. None) True (byteOutput sampleSignature) False = Inr v \<and>
     parseSignature sampleHash sampleSignature False = Inr sig \<and> views v sig \<and>
     viewComponent v 7 = Inr None"
proof -
  from sample_parse obtain sig where sig: "parseSignature sampleHash sampleSignature False = Inr sig" ..
  have len: "length sampleSignature = 86" by (simp add: sampleSignature_def sampleBlobs_def superblob_def sampleDirectory_def)
  have src: "delivers (byteOutput sampleSignature) sampleSignature" "length sampleSignature \<le> maxFileSize"
    using byteOutput_delivers [of sampleSignature] by (simp_all add: len MaxInt64_def maxFileSize_def)
  obtain v where v: "parseSignatureView sampleHash (\<lambda>_. None) True (byteOutput sampleSignature) False = Inr v" "views v sig"
    using parseSignatureView_equiv [OF sampleHash_ok src, of False] sig by auto
  have wf: "signature_wf sampleHash sampleSignature sig"
    using sig mem.parseSignatureRange_wf [of sampleHash sampleSignature False sig] by (simp add: parseSignature_def)
  have "be32 sampleSignature 8 = 2" "be32 sampleSignature 12 = 0" "be32 sampleSignature 20 = 2"
    by (simp_all add: sampleSignature_def sampleBlobs_def superblob_def sampleDirectory_def parse_eval)
  then have "length (Blobs sig) = 2" "Slot (Blobs sig ! 0) = 0" "Slot (Blobs sig ! 1) = 2"
    using wf by (auto simp: signature_wf_def blob_ok_def entrySlot_def)
  then have "7 \<notin> Slot ` set (Blobs sig)" by (auto simp: in_set_conv_nth less_2_cases_iff)
  then show ?thesis using v sig by (auto simp: views_def)
qed

end
