(* ===== verification/Signature_Report.thy ===== *)
theory Signature_Report
  imports Entitlement_Results Default_Requirement View_Equiv Verified_Signatures
begin

text \<open>
  The descriptive readers of a signature, owned or borrowed: report_view.go, the special slot and
  requirement part of requirement_metadata.go and InspectEntitlements of entitlement_metadata.go.
\<close>

section \<open>Owned and borrowed signatures\<close>

text \<open>
  A \<open>*Signature\<close>: with its components, or with a nonnil view. A borrowed one also carries the
  report of its view, whose directories keep their views in order.
\<close>

datatype reported = Owned Signature | Held signatureView Signature

type_synonym reported_directory = "Directory \<times> directoryView option"

fun reportedDirectories :: "reported \<Rightarrow> reported_directory list" where
  "reportedDirectories (Owned sig) = map (\<lambda>d. (d, None)) (Directories sig)"
| "reportedDirectories (Held v sig) = zip (Directories sig) (map Some (sv_directories v))"

text \<open>Size and hashAt of a directory.\<close>

definition directorySize :: "reported_directory \<Rightarrow> int" where
  "directorySize d = (case snd d of Some v \<Rightarrow> srcSize (dv_source v) | None \<Rightarrow> int (length (Raw (fst d))))"

definition reportedHash :: "reported_directory \<Rightarrow> nat \<Rightarrow> byte list result" where
  "reportedHash d off =
    (case snd d of Some v \<Rightarrow> codeRead (dv_source v) off (HashSize (fst d)) | None \<Rightarrow> hashAt (fst d) off)"

text \<open>A component's bytes; \<open>None\<close> is nil.\<close>

fun ReadBlob :: "reported \<Rightarrow> nat \<Rightarrow> byte list option result" where
  "ReadBlob (Held v sig) slot =
    rbind (viewComponent v slot) (\<lambda>found.
    case found of None \<Rightarrow> Inr None | Some src \<Rightarrow>
    rbind (codeRead src 0 (nat (srcSize src))) (\<lambda>data. Inr (Some data)))"
| "ReadBlob (Owned sig) slot = (let data = find_blob (Blobs sig) slot in Inr (if data = [] then None else Some data))"

fun BlobSize :: "reported \<Rightarrow> nat \<Rightarrow> int result" where
  "BlobSize (Held v sig) slot = rbind (viewComponent v slot) (\<lambda>found. Inr (case found of None \<Rightarrow> 0 | Some src \<Rightarrow> srcSize src))"
| "BlobSize (Owned sig) slot = Inr (int (length (find_blob (Blobs sig) slot)))"

text \<open>BlobReader: the section a component is read from.\<close>

fun BlobReader :: "reported \<Rightarrow> nat \<Rightarrow> outputSource option result" where
  "BlobReader (Held v sig) slot = viewComponent v slot"
| "BlobReader (Owned sig) slot = (let data = find_blob (Blobs sig) slot in Inr (if data = [] then None else Some (byteOutput data)))"

definition componentBytes :: "reported \<Rightarrow> nat \<Rightarrow> byte list option result" where
  "componentBytes s slot =
    (case s of Held v sig \<Rightarrow> ReadBlob s slot
     | Owned sig \<Rightarrow> let data = find_blob (Blobs sig) slot in Inr (if data = [] then None else Some data))"

fun reportedDigest :: "hash_lib \<Rightarrow> reported \<Rightarrow> nat \<Rightarrow> nat \<Rightarrow> (byte list \<times> bool) result" where
  "reportedDigest H (Held v sig) slot kind =
    rbind (viewComponent v slot) (\<lambda>found.
    case found of None \<Rightarrow> Inr ([], False) | Some src \<Rightarrow>
    rbind (sourceDigest H src kind 0 (nat (srcSize src))) (\<lambda>h. Inr (h, True)))"
| "reportedDigest H (Owned sig) slot kind = componentDigest H sig slot kind"

section \<open>The primary directory and its special slots\<close>

definition primaryDirectory :: "hash_lib \<Rightarrow> reported \<Rightarrow> reported_directory result" where
  "primaryDirectory H s =
    (case s of
       Held v sig \<Rightarrow>
         (case find (\<lambda>d. case snd d of Some dv \<Rightarrow> dv_slot dv = SlotDirectory | None \<Rightarrow> False) (reportedDirectories s) of
            None \<Rightarrow> Inl (Malformed ''missing primary CodeDirectory'') | Some d \<Rightarrow> Inr d)
     | Owned sig \<Rightarrow> rbind (parseDirectory H (find_blob (Blobs sig) SlotDirectory)) (\<lambda>d. Inr (d, None)))"

definition requirementDirectory :: "hash_lib \<Rightarrow> reported option \<Rightarrow> reported_directory result" where
  "requirementDirectory H s =
    (case s of None \<Rightarrow> Inl ErrUnsigned | Some s \<Rightarrow>
     if length (reportedDirectories s) > 1 then Inl (Unsupported ''requirement extraction with alternate CodeDirectories'')
     else primaryDirectory H s)"

text \<open>The stored hash of a special slot, nil when it is absent or zero; the offset is a uint32.\<close>

definition specialSlotHash :: "reported_directory \<Rightarrow> nat \<Rightarrow> byte list option result" where
  "specialSlotHash d slot =
    (if slot = 0 \<or> slot > SpecialSlots (fst d) then Inr None else
     rbind (reportedHash d (nat ((int (HashOffset (fst d)) - int (slot * HashSize (fst d))) mod 2 ^ 32))) (\<lambda>hash.
     Inr (if hash = replicate (length hash) 0 then None else Some hash)))"

section \<open>Entitlements\<close>

text \<open>
  \<open>decode\<close> is decodeBundlePlist. The result is nil when there are no entitlements, and empty for
  DER that is bound but malformed.
\<close>

definition emptyMetadata :: EntitlementMetadata where
  "emptyMetadata = \<lparr>ent_XML = [], ent_Text = [], ent_TextValid = False\<rparr>"

definition entitlementPayload :: "(byte list \<Rightarrow> (gostring \<times> plist) list result) \<Rightarrow> nat \<Rightarrow> byte list \<Rightarrow> byte list result" where
  "entitlementPayload decode slot payload =
    (if slot \<noteq> SlotEntitlements then Inr payload else
     rbind (decode payload) (\<lambda>values. rbind (entitlementDER (PDict values) 0) (\<lambda>encoded. Inr (envelope encoded))))"

definition inspectComponent ::
  "hash_lib \<Rightarrow> (byte list \<Rightarrow> (gostring \<times> plist) list result) \<Rightarrow> reported \<Rightarrow> nat \<Rightarrow> nat \<Rightarrow> byte list
     \<Rightarrow> EntitlementMetadata option result" where
  "inspectComponent H decode s slot magic data =
    (if length (reportedDirectories s) > 1 then Inl (Unsupported ''entitlement extraction with alternate CodeDirectories'') else
     rbind (primaryDirectory H s) (\<lambda>directory.
     if length data < 8 \<or> length data - 8 > maxBundlePlist \<or> be32 data 0 \<noteq> magic \<or> be32 data 4 \<noteq> length data
     then Inl (Malformed ''entitlements blob'') else
     rbind (specialSlotHash directory slot) (\<lambda>stored.
     rbind (specialSlotHash directory SlotDEREntitlements) (\<lambda>derHash.
     if stored = None \<or> slot = SlotEntitlements \<and> derHash \<noteq> None
     then Inl (Invalid ''entitlements component/hash presence'') else
     let actual = (case digest H (HashType (fst directory)) data of Inr h \<Rightarrow> h | Inl _ \<Rightarrow> []) in
     if stored \<noteq> Some actual then Inl (Invalid ''entitlements slot hash'') else
     rbind (entitlementPayload decode slot (drop 8 data)) (\<lambda>payload.
     case decodeEntitlementMetadata payload of
       Inr m \<Rightarrow> Inr (Some m)
     | Inl e \<Rightarrow> if slot = SlotDEREntitlements \<and> errorsIs e IsFormat then Inr (Some emptyMetadata) else Inl e)))))"

definition InspectEntitlements ::
  "hash_lib \<Rightarrow> (byte list \<Rightarrow> (gostring \<times> plist) list result) \<Rightarrow> reported option \<Rightarrow> EntitlementMetadata option result" where
  "InspectEntitlements H decode sig =
    (case sig of None \<Rightarrow> Inl ErrUnsigned | Some s \<Rightarrow>
     rbind (componentBytes s SlotDEREntitlements) (\<lambda>der.
     case der of Some data \<Rightarrow> inspectComponent H decode s SlotDEREntitlements MagicDEREntitlements data | None \<Rightarrow>
     rbind (componentBytes s SlotEntitlements) (\<lambda>xml.
     case xml of Some data \<Rightarrow> inspectComponent H decode s SlotEntitlements MagicEntitlements data | None \<Rightarrow> Inr None)))"

section \<open>Requirement text\<close>

text \<open>
  RequirementText. The architectures of the report are their signatures and \<open>i\<close> is the selected
  one. The libraries of the certificate branch are a record; \<open>dl_inspect\<close> is the certificates of
  InspectCertificateMetadata, nil without a CMS.
\<close>

record display_lib =
  dl_hash :: hash_lib
  dl_parse :: "byte list \<Rightarrow> certificate result"
  dl_crypto :: crypto_lib
  dl_print :: "nat \<Rightarrow> bool"
  dl_unicode :: unicode
  dl_inspect :: "reported \<Rightarrow> byte list list option result"

definition generatedRequirement :: "display_lib \<Rightarrow> reported \<Rightarrow> Directory \<Rightarrow> byte list result" where
  "generatedRequirement L s directory =
    rbind (dl_inspect L s) (\<lambda>metadata.
    case metadata of
      None \<Rightarrow> Inl (Unsupported ''designated requirement synthesis without a bound certificate chain'')
    | Some certs \<Rightarrow>
      if certs = [] then Inl Panic else
      rbind (linkedCertificates (dl_parse L) (dl_crypto L) (certs ! 0) certs) (\<lambda>path.
      defaultCertificateRequirement (dl_hash L) (dl_print L) (dl_unicode L) (Identifier directory) path))"

fun joinOr :: "gostring list \<Rightarrow> gostring" where
  "joinOr [] = []"
| "joinOr [h] = h"
| "joinOr (h # hs) = h @ str '' or '' @ joinOr hs"

definition boundRequirements :: "hash_lib \<Rightarrow> reported \<Rightarrow> reported_directory \<Rightarrow> byte list option result" where
  "boundRequirements H s directory =
    rbind (componentBytes s SlotRequirements) (\<lambda>data.
    rbind (specialSlotHash directory SlotRequirements) (\<lambda>stored.
    case stored of None \<Rightarrow> Inr None | Some want \<Rightarrow>
    let actual = (case digest H (HashType (fst directory)) (case data of None \<Rightarrow> [] | Some d \<Rightarrow> d) of Inr h \<Rightarrow> h | Inl _ \<Rightarrow> []) in
    if data = None \<or> actual \<noteq> want then Inl (Invalid ''requirements component hash'') else Inr data))"

text \<open>The signature at \<open>i\<close> is not nil after requirementDirectory.\<close>

definition quotedHash :: "Directory \<Rightarrow> gostring" where
  "quotedHash d = str ''cdhash H'' @ [34] @ CDHash d @ [34]"

fun otherHashes :: "hash_lib \<Rightarrow> reported option list \<Rightarrow> gostring list result" where
  "otherHashes H [] = Inr []"
| "otherHashes H (s # ss) =
    rbind (requirementDirectory H s) (\<lambda>d. rbind (otherHashes H ss) (\<lambda>hs. Inr (quotedHash (fst d) # hs)))"

definition requirementText :: "display_lib \<Rightarrow> bool \<Rightarrow> nat \<Rightarrow> reported option list \<Rightarrow> gostring result" where
  "requirementText L explicit i as =
    rbind (requirementDirectory (dl_hash L) (as ! i)) (\<lambda>directory.
    rbind (boundRequirements (dl_hash L) (the (as ! i)) directory) (\<lambda>data.
    rbind (requirementSetText data) (\<lambda>(out, designated).
    if designated then Inr out else
    if Flags (fst directory) AND FlagAdhoc \<noteq> 0 then
      rbind (otherHashes (dl_hash L) (if explicit then [] else take i as @ drop (Suc i) as)) (\<lambda>hashes.
      Inr (out @ str ''# designated => '' @ joinOr (quotedHash (fst directory) # hashes) @ [10]))
    else
      rbind (generatedRequirement L (the (as ! i)) (fst directory)) (\<lambda>generated.
      rbind (requirementSetText (Some generated)) (\<lambda>(implicit, _). Inr (out @ str ''# '' @ implicit))))))"

text \<open>On a report that owns its signatures.\<close>

definition RequirementText :: "display_lib \<Rightarrow> report \<Rightarrow> gostring \<Rightarrow> gostring result" where
  "RequirementText L r name =
    rbind (SelectArchitecture r name) (\<lambda>i.
    requirementText L (name \<noteq> []) i (map (\<lambda>a. map_option Owned (ar_Signature a)) (rp_Architectures r)))"

end
