(* ===== verification/Report_Equiv.thy ===== *)
theory Report_Equiv
  imports Signature_Report
begin

text \<open>
  A borrowed signature answers every descriptive question as the owned one: its components, the
  special slot hashes, the entitlements and the bound requirements.
\<close>

section \<open>Special slots\<close>

lemma specialSlot_start:
  assumes wf: "directory_wf d" and slot: "0 < slot" "slot \<le> SpecialSlots d"
  shows "nat ((int (HashOffset d) - int (slot * HashSize d)) mod 2 ^ 32) = HashOffset d - slot * HashSize d"
    "HashOffset d - slot * HashSize d + HashSize d \<le> length (Raw d)"
proof -
  have "slot * HashSize d \<le> SpecialSlots d * HashSize d" using slot by simp
  moreover have "HashSize d \<le> slot * HashSize d" using slot(1) by simp
  moreover have b: "directoryHeader (Version d) + SpecialSlots d * HashSize d \<le> HashOffset d"
      "HashOffset d + CodeSlots d * HashSize d \<le> length (Raw d)" "HashOffset d < 2 ^ 32"
    using wf by (auto simp: directory_wf_def)
  ultimately have le: "slot * HashSize d \<le> HashOffset d" "HashSize d \<le> slot * HashSize d" by linarith+
  from le(1) have diff: "int (HashOffset d) - int (slot * HashSize d) = int (HashOffset d - slot * HashSize d)"
    by (rule of_nat_diff [symmetric])
  have "HashOffset d - slot * HashSize d < 2 ^ 32" using b(3) by linarith
  then show "nat ((int (HashOffset d) - int (slot * HashSize d)) mod 2 ^ 32) = HashOffset d - slot * HashSize d"
    unfolding diff by (metis mod_less nat_int of_nat_mod of_nat_numeral of_nat_power)
  show "HashOffset d - slot * HashSize d + HashSize d \<le> length (Raw d)" using le b(2) by linarith
qed

text \<open>A held directory: the fields of the owned one, whose bytes its view delivers.\<close>

definition holds_directory :: "Directory \<Rightarrow> directoryView \<Rightarrow> bool" where
  "holds_directory d dv \<longleftrightarrow> directory_wf d \<and> delivers (dv_source dv) (Raw d) \<and> length (Raw d) \<le> maxFileSize"

lemma hash_size_limit: "directory_wf d \<Longrightarrow> HashSize d \<le> maxFileSize"
  by (simp add: directory_wf_def maxFileSize_def)

lemma specialSlotHash_held:
  assumes "holds_directory d dv"
  shows "specialSlotHash (d\<lparr>Raw := []\<rparr>, Some dv) slot = specialSlotHash (d, None) slot"
proof (cases "slot = 0 \<or> slot > SpecialSlots d")
  case False
  then have slot: "0 < slot" "slot \<le> SpecialSlots d" by auto
  have wf: "directory_wf d" and src: "delivers (dv_source dv) (Raw d)" using assms by (simp_all add: holds_directory_def)
  let ?off = "nat ((int (HashOffset d) - int (slot * HashSize d)) mod 2 ^ 32)"
  have off: "?off + HashSize d \<le> length (Raw d)" using specialSlot_start [OF wf slot] by simp
  have "codeRead (dv_source dv) ?off (HashSize d) = Inr (slice (Raw d) ?off (HashSize d))"
    by (rule codeRead_content [OF src off hash_size_limit [OF wf]])
  moreover have "hashAt d ?off = Inr (slice (Raw d) ?off (HashSize d))"
    using off by (simp add: hashAt_def rangeOK_iff slice_at_def)
  ultimately show ?thesis unfolding specialSlotHash_def reportedHash_def by simp
qed (simp add: specialSlotHash_def)

section \<open>Components and the primary directory\<close>

text \<open>The borrowed report of a view that represents an owned signature.\<close>

definition borrowed :: "Signature \<Rightarrow> Signature" where
  "borrowed sig = \<lparr>Length = Length sig, Blobs = [], Directories = map (\<lambda>d. d\<lparr>Raw := []\<rparr>) (Directories sig)\<rparr>"

lemma viewReport_borrowed: "views v sig \<Longrightarrow> viewReport v = Inr (borrowed sig)"
  by (simp add: views_def borrowed_def)

lemma wf_blob:
  assumes "signature_wf H xs sig" "b \<in> set (Blobs sig)"
  shows "8 \<le> length (Data b)" "length (Data b) \<le> length xs"
proof -
  obtain j where "j < length (Blobs sig)" "b = Blobs sig ! j" using assms(2) by (auto simp: in_set_conv_nth)
  then have "blob_ok xs (Length sig) (length (Blobs sig)) j b" "Length sig \<le> length xs"
    using assms(1) by (auto simp: signature_wf_def)
  then show "8 \<le> length (Data b)" "length (Data b) \<le> length xs" by (auto simp: blob_ok_def)
qed

lemma component_views:
  assumes wf: "signature_wf H xs sig" "length xs \<le> maxFileSize" and v: "views v sig"
  shows "ReadBlob (Held v r) slot = ReadBlob (Owned sig) slot" "BlobSize (Held v r) slot = BlobSize (Owned sig) slot"
proof -
  have dist: "distinct (map Slot (Blobs sig))" using wf by (simp add: signature_wf_def)
  show "ReadBlob (Held v r) slot = ReadBlob (Owned sig) slot" "BlobSize (Held v r) slot = BlobSize (Owned sig) slot"
  proof (atomize (full), cases "slot \<in> Slot ` set (Blobs sig)")
    case True
    then obtain b where b: "b \<in> set (Blobs sig)" "slot = Slot b" by auto
    then obtain src where src: "viewComponent v slot = Inr (Some src)" "delivers src (Data b)" using v by (auto simp: views_def)
    have size: "srcSize src = int (length (Data b))" using delivers_range [OF src(2)] by simp
    have "codeRead src 0 (length (Data b)) = Inr (Data b)"
      using codeRead_content [OF src(2), of 0 "length (Data b)"] wf_blob [OF wf(1) b(1)] wf(2) by (simp add: slice_def)
    then show "ReadBlob (Held v r) slot = ReadBlob (Owned sig) slot \<and> BlobSize (Held v r) slot = BlobSize (Owned sig) slot"
      using src(1) size find_blob_member [OF dist b(1)] wf_blob(1) [OF wf(1) b(1)] b(2) by (auto simp: Let_def)
  next
    case False
    then have "viewComponent v slot = Inr None" using v by (auto simp: views_def)
    then show "ReadBlob (Held v r) slot = ReadBlob (Owned sig) slot \<and> BlobSize (Held v r) slot = BlobSize (Owned sig) slot"
      using find_blob_absent [OF False] by (simp add: Let_def)
  qed
qed

lemma componentBytes_read: "componentBytes s slot = ReadBlob s slot"
  by (cases s) (simp_all add: componentBytes_def)

lemma wf_directory:
  assumes wf: "signature_wf H xs sig" and d: "d \<in> set (Directories sig)"
  shows "parseDirectory H (Raw d) = Inr d" "\<exists>b \<in> set (Blobs sig). Raw d = Data b"
proof -
  have "Inr d \<in> set (directoriesOf H (Blobs sig))" using wf d by (simp add: signature_wf_def)
  then obtain b where b: "b \<in> set (Blobs sig)" "parseDirectory H (Data b) = Inr d" by (auto simp: directoriesOf_def)
  have "Raw d = Data b" using parseDirectory_wf [OF b(2)] by simp
  with b show "parseDirectory H (Raw d) = Inr d" "\<exists>b \<in> set (Blobs sig). Raw d = Data b" by auto
qed

lemma reportedDirectories_borrowed:
  "reportedDirectories (Held v (borrowed sig)) = zip (map (\<lambda>d. d\<lparr>Raw := []\<rparr>) (Directories sig)) (map Some (sv_directories v))"
  by (simp add: borrowed_def)

lemma primary_views:
  assumes wf: "signature_wf H xs sig" "length xs \<le> maxFileSize" and v: "views v sig" and primary: "0 \<in> Slot ` set (Blobs sig)"
  shows "\<exists>d dv. primaryDirectory H (Owned sig) = Inr (d, None) \<and>
    primaryDirectory H (Held v (borrowed sig)) = Inr (d\<lparr>Raw := []\<rparr>, Some dv) \<and> holds_directory d dv"
proof -
  let ?P = "\<lambda>d :: reported_directory. case snd d of Some dv \<Rightarrow> dv_slot dv = SlotDirectory | None \<Rightarrow> False"
  let ?ds = "reportedDirectories (Held v (borrowed sig))"
  have all: "list_all2 (\<lambda>dv d. reportDirectory dv = Inr (d\<lparr>Raw := []\<rparr>) \<and> delivers (dv_source dv) (Raw d) \<and>
       find_blob (Blobs sig) (dv_slot dv) = Raw d) (sv_directories v) (Directories sig)"
    and slots: "dv_slot ` set (sv_directories v) = {slot \<in> Slot ` set (Blobs sig). isDirectorySlot slot}"
    using v by (auto simp: views_def)
  have len: "length (sv_directories v) = length (Directories sig)" by (rule list_all2_lengthD [OF all])
  have nth: "?ds ! i = ((Directories sig ! i)\<lparr>Raw := []\<rparr>, Some (sv_directories v ! i))" if "i < length (Directories sig)" for i
    unfolding reportedDirectories_borrowed using that len by simp
  have "0 \<in> dv_slot ` set (sv_directories v)" unfolding slots using primary by (simp add: isDirectorySlot_def)
  then obtain j where "j < length (sv_directories v)" "dv_slot (sv_directories v ! j) = 0" by (auto simp: in_set_conv_nth)
  then have j: "j < length ?ds" "?P (?ds ! j)"
    using nth [of j] len by (simp_all add: SlotDirectory_def borrowed_def)
  then have "?ds ! j \<in> set ?ds" by (intro nth_mem)
  with j(2) have "find ?P ?ds \<noteq> None" unfolding find_None_iff by blast
  then obtain e where e: "find ?P ?ds = Some e" by blast
  then obtain i where i: "i < length ?ds" "?P (?ds ! i)" "e = ?ds ! i" by (auto simp: find_Some_iff)
  have i': "i < length (Directories sig)" "i < length (sv_directories v)" using i(1) len by (simp_all add: reportedDirectories_borrowed)
  let ?d = "Directories sig ! i" and ?dv = "sv_directories v ! i"
  have slot: "dv_slot ?dv = SlotDirectory" using i(2) nth [OF i'(1)] by simp
  have d: "delivers (dv_source ?dv) (Raw ?d)" "find_blob (Blobs sig) SlotDirectory = Raw ?d"
    using list_all2_nthD [OF all i'(2)] slot by auto
  have parse: "parseDirectory H (Raw ?d) = Inr ?d" using wf_directory(1) [OF wf(1)] i'(1) by simp
  have "directory_wf ?d" using parseDirectory_wf [OF parse] by simp
  moreover have "length (Raw ?d) \<le> maxFileSize"
    using wf_directory(2) [OF wf(1), of ?d] i'(1) wf_blob(2) [OF wf(1)] wf(2) by fastforce
  ultimately have "holds_directory ?d ?dv" using d(1) by (simp add: holds_directory_def)
  moreover have "primaryDirectory H (Owned sig) = Inr (?d, None)" by (simp add: primaryDirectory_def d(2) parse)
  moreover have "primaryDirectory H (Held v (borrowed sig)) = Inr (?d\<lparr>Raw := []\<rparr>, Some ?dv)"
    unfolding primaryDirectory_def reported.case e using i(3) nth [OF i'(1)] by simp
  ultimately show ?thesis by blast
qed

lemma primary_parsed:
  assumes "parseSignature H xs False = Inr sig"
  shows "0 \<in> Slot ` set (Blobs sig)"
  using assms mem.parseSignatureRange_wf [of H xs False sig] by (simp add: parseSignature_def)

section \<open>Entitlements and requirements\<close>

lemma held_entitlements:
  assumes wf: "signature_wf H xs sig" "length xs \<le> maxFileSize" and v: "views v sig" and primary: "0 \<in> Slot ` set (Blobs sig)"
  shows "InspectEntitlements H decode (Some (Held v (borrowed sig))) = InspectEntitlements H decode (Some (Owned sig))"
proof -
  obtain d dv where d: "primaryDirectory H (Owned sig) = Inr (d, None)" "holds_directory d dv"
      "primaryDirectory H (Held v (borrowed sig)) = Inr (d\<lparr>Raw := []\<rparr>, Some dv)"
    using primary_views [OF assms] by blast
  have len: "length (reportedDirectories (Held v (borrowed sig))) = length (reportedDirectories (Owned sig))"
    using v by (auto simp: borrowed_def views_def dest!: list_all2_lengthD)
  have kind: "HashType (d\<lparr>Raw := []\<rparr>) = HashType d" by simp
  have "inspectComponent H decode (Held v (borrowed sig)) slot magic data = inspectComponent H decode (Owned sig) slot magic data"
    for slot magic data
    unfolding inspectComponent_def len d(1,3) rbind_Inr specialSlotHash_held [OF d(2)] Let_def fst_conv kind ..
  then have "inspectComponent H decode (Held v (borrowed sig)) = inspectComponent H decode (Owned sig)" by (intro ext)
  then show ?thesis
    unfolding InspectEntitlements_def option.case componentBytes_read component_views(1) [OF wf v] by simp
qed

lemma held_requirements:
  assumes wf: "signature_wf H xs sig" "length xs \<le> maxFileSize" and v: "views v sig" and primary: "0 \<in> Slot ` set (Blobs sig)"
  shows "rbind (requirementDirectory H (Some (Held v (borrowed sig)))) (boundRequirements H (Held v (borrowed sig))) =
    rbind (requirementDirectory H (Some (Owned sig))) (boundRequirements H (Owned sig))"
proof -
  obtain d dv where d: "primaryDirectory H (Owned sig) = Inr (d, None)" "holds_directory d dv"
      "primaryDirectory H (Held v (borrowed sig)) = Inr (d\<lparr>Raw := []\<rparr>, Some dv)"
    using primary_views [OF assms] by blast
  have len: "length (reportedDirectories (Held v (borrowed sig))) = length (reportedDirectories (Owned sig))"
    using v by (auto simp: borrowed_def views_def dest!: list_all2_lengthD)
  have "boundRequirements H (Held v (borrowed sig)) (d\<lparr>Raw := []\<rparr>, Some dv) = boundRequirements H (Owned sig) (d, None)"
    unfolding boundRequirements_def componentBytes_read component_views(1) [OF wf v] specialSlotHash_held [OF d(2)] by simp
  then show ?thesis unfolding requirementDirectory_def option.case len d(1,3) by simp
qed

text \<open>
  C22. A signature parsed to bytes and the same signature parsed to a borrowed view answer alike:
  every component and its size, the extracted entitlements and their errors, and the bound
  requirement set with its errors.\<close>

theorem borrowed_report_agrees:
  assumes H: "hash_lib_ok H" and src: "delivers src xs" "length xs \<le> maxFileSize"
    and sig: "parseSignature H xs False = Inr sig"
  shows "\<exists>v r. parseSignatureView H (\<lambda>_. None) True src False = Inr v \<and> viewReport v = Inr r \<and>
    ReadBlob (Held v r) = ReadBlob (Owned sig) \<and> BlobSize (Held v r) = BlobSize (Owned sig) \<and>
    InspectEntitlements H decode (Some (Held v r)) = InspectEntitlements H decode (Some (Owned sig)) \<and>
    rbind (requirementDirectory H (Some (Held v r))) (boundRequirements H (Held v r)) =
      rbind (requirementDirectory H (Some (Owned sig))) (boundRequirements H (Owned sig))"
proof -
  obtain v where v: "parseSignatureView H (\<lambda>_. None) True src False = Inr v" "views v sig"
    using signature_view [OF H src, of False] sig by auto
  have wf: "signature_wf H xs sig" using mem.parseSignatureRange_wf [of H xs False sig] sig by (simp add: parseSignature_def)
  have primary: "0 \<in> Slot ` set (Blobs sig)" by (rule primary_parsed [OF sig])
  have "ReadBlob (Held v (borrowed sig)) = ReadBlob (Owned sig)" "BlobSize (Held v (borrowed sig)) = BlobSize (Owned sig)"
    using component_views [OF wf src(2) v(2)] by (intro ext; simp only:)+
  with held_entitlements [OF wf src(2) v(2) primary] held_requirements [OF wf src(2) v(2) primary] v(1) viewReport_borrowed [OF v(2)]
  show ?thesis by (intro exI [of _ v] exI [of _ "borrowed sig"]) simp
qed

theorem borrowed_report_agrees_witness:
  "\<exists>v r sig. parseSignature sampleHash sampleSignature False = Inr sig \<and>
    parseSignatureView sampleHash (\<lambda>_. None) True (byteOutput sampleSignature) False = Inr v \<and>
    ReadBlob (Held v r) 0 = ReadBlob (Owned sig) 0"
proof -
  from sample_parse obtain sig where sig: "parseSignature sampleHash sampleSignature False = Inr sig" ..
  have len: "length sampleSignature = 86" by (simp add: sampleSignature_def sampleBlobs_def superblob_def sampleDirectory_def)
  have src: "delivers (byteOutput sampleSignature) sampleSignature" "length sampleSignature \<le> maxFileSize"
    using byteOutput_delivers [of sampleSignature] by (simp_all add: len MaxInt64_def maxFileSize_def)
  obtain v r where "parseSignatureView sampleHash (\<lambda>_. None) True (byteOutput sampleSignature) False = Inr v"
    "ReadBlob (Held v r) = ReadBlob (Owned sig)" using borrowed_report_agrees [OF sampleHash_ok src sig] by metis
  with sig show ?thesis by metis
qed

end
