(* ===== verification/Signed_Entitlements.thy ===== *)
theory Signed_Entitlements
  imports Report_Equiv
begin

text \<open>
  Entitlements end to end: what the signer embeds is what the inspector extracts, and the borrowed
  report extracts the same.
\<close>

section \<open>The embedded DER component\<close>

lemma signComponents_entitlements:
  assumes "signComponents tools opts im = Inr (special, execFlags, comps)" "so_Entitlements opts \<noteq> []"
    "im_filetype im = 2 \<or> so_ForceLibraryEntitlements opts" "encodeEntitlements tools (so_Entitlements opts) = Inr (xml, der)"
  shows "\<lparr>Slot = SlotDEREntitlements, Magic = 0, Data = blob MagicDEREntitlements der\<rparr> \<in> set comps"
  using assms by (auto simp: signComponents_def Let_def)

lemma specialSlotHash_owned:
  assumes wf: "directory_wf d" and slot: "0 < slot" "slot \<le> SpecialSlots d"
  shows "specialSlotHash (d, None) slot =
    (let h = slice (Raw d) (HashOffset d - slot * HashSize d) (HashSize d) in Inr (if h = replicate (HashSize d) 0 then None else Some h))"
proof -
  have "nat ((int (HashOffset d) - int (slot * HashSize d)) mod 2 ^ 32) = HashOffset d - slot * HashSize d"
    "HashOffset d - slot * HashSize d + HashSize d \<le> length (Raw d)"
    using specialSlot_start [OF assms] by simp_all
  then show ?thesis using slot by (simp add: specialSlotHash_def reportedHash_def hashAt_ok Let_def)
qed

lemma signed_der_component:
  assumes img: "signed_image H opts comps ps ys codeEnd d" and comps: "signComponents tools opts im = Inr (special, execFlags, comps)"
    and ok: "signable H opts" and mem: "\<lparr>Slot = SlotDEREntitlements, Magic = 0, Data = data\<rparr> \<in> set comps"
    and sig: "parseSignature H (superblob MagicSignature (signedBlobs (Raw d) comps)) False = Inr sig"
  shows "find_blob (Blobs sig) SlotDEREntitlements = data" "primaryDirectory H (Owned sig) = Inr (d, None)"
    "Directories sig = [d]" "sha256 H data \<noteq> replicate 32 0 \<Longrightarrow> specialSlotHash (d, None) SlotDEREntitlements = Inr (Some (sha256 H data))"
proof -
  let ?bs = "signedBlobs (Raw d) comps" and ?sb = "superblob MagicSignature (signedBlobs (Raw d) comps)"
  have sig': "Blobs sig = sort_key Slot ?bs" "Directories sig = [d]" "HashSize d = 32"
    using img sig by (auto simp: signed_image_def Let_def)
  have blobs: "set (Blobs sig) = set ?bs" by (simp add: sig'(1))
  show "Directories sig = [d]" by (rule sig'(2))
  have wf: "signature_wf H ?sb sig" using mem.parseSignatureRange_wf [of H ?sb False sig] sig by (simp add: parseSignature_def)
  have dist: "distinct (map Slot (Blobs sig))" using wf by (simp add: signature_wf_def)
  have "withMagic \<lparr>Slot = SlotDEREntitlements, Magic = 0, Data = data\<rparr> \<in> set (Blobs sig)"
    using mem unfolding blobs by (auto simp: signedBlobs_def)
  from find_blob_member [OF dist this] show "find_blob (Blobs sig) SlotDEREntitlements = data" by simp
  have "\<lparr>Slot = SlotDirectory, Magic = MagicDirectory, Data = Raw d\<rparr> \<in> set (Blobs sig)"
    unfolding blobs by (simp add: signedBlobs_def)
  from find_blob_member [OF dist this] have "find_blob (Blobs sig) SlotDirectory = Raw d" by simp
  moreover have parse: "parseDirectory H (Raw d) = Inr d" using wf_directory(1) [OF wf, of d] sig'(2) by simp
  ultimately show "primaryDirectory H (Owned sig) = Inr (d, None)" by (simp add: primaryDirectory_def)
  have dwf: "directory_wf d" using parseDirectory_wf [OF parse] by simp
  have "(SlotDEREntitlements, data) \<in> set (specialData opts comps)"
    using mem by (force simp: specialData_def SlotDEREntitlements_def)
  then have "slice (Raw d) (HashOffset d - SlotDEREntitlements * 32) 32 = sha256 H data" "SlotDEREntitlements \<le> SpecialSlots d"
    using img by (auto simp: signed_image_def Let_def)
  then show "sha256 H data \<noteq> replicate 32 0 \<Longrightarrow> specialSlotHash (d, None) SlotDEREntitlements = Inr (Some (sha256 H data))"
    using specialSlotHash_owned [OF dwf, of SlotDEREntitlements] sig'(3) by (simp add: SlotDEREntitlements_def Let_def)
qed

lemma inspect_signed_der:
  assumes img: "signed_image H opts comps ps ys codeEnd d" and comps: "signComponents tools opts im = Inr (special, execFlags, comps)"
    and ok: "signable H opts" and mem: "\<lparr>Slot = SlotDEREntitlements, Magic = 0, Data = blob MagicDEREntitlements der\<rparr> \<in> set comps"
    and sig: "parseSignature H (superblob MagicSignature (signedBlobs (Raw d) comps)) False = Inr sig"
    and len: "length der \<le> maxBundlePlist" and hash: "sha256 H (blob MagicDEREntitlements der) \<noteq> replicate 32 0"
    and m: "decodeEntitlementMetadata der = Inr m"
  shows "InspectEntitlements H decodeXML (Some (Owned sig)) = Inr (Some m)"
proof -
  let ?data = "blob MagicDEREntitlements der"
  note f = signed_der_component [OF img comps ok mem sig]
  have data: "be32 ?data 0 = MagicDEREntitlements" "be32 ?data 4 = length ?data" "length ?data = 8 + length der" "drop 8 ?data = der"
    using len by (simp_all add: blob_def MagicDEREntitlements_def maxBundlePlist_def byte_simps)
  have "HashType d = 2" using img by (simp add: signed_image_def Let_def)
  then have dig: "digest H (HashType d) ?data = Inr (sha256 H ?data)" by (simp add: digest_def)
  have slots: "SlotDEREntitlements \<noteq> SlotEntitlements" by (simp add: slot_defs)
  have "inspectComponent H decodeXML (Owned sig) SlotDEREntitlements MagicDEREntitlements ?data = Inr (Some m)"
    using len m f(3) slots by (simp add: inspectComponent_def f(2) f(4) [OF hash] data dig entitlementPayload_def)
  moreover have "?data \<noteq> []" using data(3) by auto
  ultimately show ?thesis by (simp add: InspectEntitlements_def componentBytes_def f(1) Let_def)
qed

lemma inspect_signed_entitlements:
  assumes img: "signed_image H opts comps ps ys codeEnd d" and comps: "signComponents tools opts im = Inr (special, execFlags, comps)"
    and ok: "signable H opts" and kind: "im_filetype im = 2 \<or> so_ForceLibraryEntitlements opts"
    and tools: "encodeEntitlements tools = EncodeEntitlements decode" and given: "so_Entitlements opts \<noteq> []"
      "decode (so_Entitlements opts) = Inr (Some es)" "entitlement_ok (PDict es)"
      "ent_height (treeOf (PDict es)) \<le> 32" "nodes (treeOf (PDict es)) \<le> 100000"
    and enc: "EncodeEntitlements decode (so_Entitlements opts) = Inr (xml, der)" "length der \<le> maxBundlePlist"
      "sha256 H (blob MagicDEREntitlements der) \<noteq> replicate 32 0"
    and sig: "parseSignature H (superblob MagicSignature (signedBlobs (Raw d) comps)) False = Inr sig"
  shows "\<exists>m. ent_XML m = plistHeader @ compactXML (PDict es) @ str ''</plist>'' @ [10] \<and>
    (ent_TextValid m \<longleftrightarrow> uniform (PDict es)) \<and> InspectEntitlements H decodeXML (Some (Owned sig)) = Inr (Some m) \<and>
    (\<forall>src. delivers src (superblob MagicSignature (signedBlobs (Raw d) comps)) \<and>
        length (superblob MagicSignature (signedBlobs (Raw d) comps)) \<le> maxFileSize \<longrightarrow>
      (\<exists>v. parseSignatureView H (\<lambda>_. None) True src False = Inr v \<and>
         InspectEntitlements H decodeXML (Some (Held v (borrowed sig))) = Inr (Some m)))"
proof -
  let ?sb = "superblob MagicSignature (signedBlobs (Raw d) comps)"
  have mem: "\<lparr>Slot = SlotDEREntitlements, Magic = 0, Data = blob MagicDEREntitlements der\<rparr> \<in> set comps"
    by (rule signComponents_entitlements [OF comps given(1) kind]) (simp add: tools enc(1))
  obtain m where m: "decodeEntitlementMetadata der = Inr m"
      "ent_XML m = plistHeader @ compactXML (PDict es) @ str ''</plist>'' @ [10]" "ent_TextValid m \<longleftrightarrow> uniform (PDict es)"
    using encoded_reads_back [OF enc(1) given(2,3) enc(2) given(4,5)] by blast
  have own: "InspectEntitlements H decodeXML (Some (Owned sig)) = Inr (Some m)"
    by (rule inspect_signed_der [OF img comps ok mem sig enc(2,3) m(1)])
  have H: "hash_lib_ok H" using ok by (simp add: signable_def)
  have wf: "signature_wf H ?sb sig" using mem.parseSignatureRange_wf [of H ?sb False sig] sig by (simp add: parseSignature_def)
  have "Blobs sig = sort_key Slot (signedBlobs (Raw d) comps)" using img sig by (auto simp: signed_image_def Let_def)
  then have "set (Blobs sig) = set (signedBlobs (Raw d) comps)" by simp
  then have prim: "0 \<in> Slot ` set (Blobs sig)" by (simp add: signedBlobs_def SlotDirectory_def)
  have "\<exists>v. parseSignatureView H (\<lambda>_. None) True src False = Inr v \<and>
      InspectEntitlements H decodeXML (Some (Held v (borrowed sig))) = Inr (Some m)"
    if src: "delivers src ?sb" "length ?sb \<le> maxFileSize" for src
  proof -
    obtain v where v: "parseSignatureView H (\<lambda>_. None) True src False = Inr v" "views v sig"
      using signature_view [OF H src, of False] sig by auto
    from held_entitlements [OF wf src(2) v(2) prim] own v(1) show ?thesis by auto
  qed
  with m(2,3) own show ?thesis by blast
qed

text \<open>The sample executable signed with the sample entitlements.\<close>

definition entitledOptions :: SignOptions where
  "entitledOptions = adhocOptions\<lparr>so_Entitlements := [1]\<rparr>"

definition sampleDecoder :: plist_decoder where
  "sampleDecoder = (\<lambda>_. Inr (Some sampleEntitlements))"

definition entitledTools :: sign_tools where
  "entitledTools = noTools\<lparr>encodeEntitlements := EncodeEntitlements sampleDecoder, entitlementFlags := entitlementExecFlags sampleDecoder\<rparr>"

definition sampleDER :: "byte list" where
  "sampleDER = [0x70, 18, 2, 1, 1, 0xb0, 13, 0x30, 11, 12, 1, 97, 0x30, 6, 2, 1, 5, 2, 1, 6]"

definition entitledComponents :: "Blob list" where
  "entitledComponents = adhocComponents @ [\<lparr>Slot = SlotEntitlements, Magic = 0, Data = blob MagicEntitlements [1]\<rparr>,
     \<lparr>Slot = SlotDEREntitlements, Magic = 0, Data = blob MagicDEREntitlements sampleDER\<rparr>]"

definition entitledInput :: directory_input where
  "entitledInput = \<lparr>di_opts = entitledOptions, di_image = thinImage, di_page = 4096, di_header = 48, di_version = 0x20100,
     di_runtime = 0, di_special = 7, di_exec = 1, di_data = specialData entitledOptions entitledComponents, di_code = []\<rparr>"

lemma entitled_encoding: "EncodeEntitlements sampleDecoder [1] = Inr ([1], sampleDER)"
  using sample_encoded by (auto simp: EncodeEntitlements_def sampleDecoder_def sampleDER_def str_def result_simps split: if_splits)

lemma entitled_signable: "signable sampleHash entitledOptions"
  using adhoc_signable by (simp add: signable_def entitledOptions_def)

lemma sample_flags: "entitlementExecFlags sampleDecoder xml = 0"
  by (simp add: entitlementExecFlags_def sampleDecoder_def sampleEntitlements_def execFlagTable_def str_def)

lemma entitled_components: "signComponents entitledTools entitledOptions thinImage = Inr (7, 1, entitledComponents)"
  using thinImage(2) entitled_encoding
  by (simp add: signComponents_def entitledOptions_def entitledTools_def plainExecutable_def entitledComponents_def adhocComponents_def
      sample_flags adhocOptions_def superblob_def)

lemma entitled_inputs:
  "signing_inputs entitledTools entitledOptions thinImage (byteOutput thinData) entitledInput entitledComponents 128
     (signatureSize entitledOptions 48 306 entitledComponents)"
  using thinImage(2) entitled_components
  by (simp add: signing_inputs_def entitledInput_def signPage_def signCodeEnd_def signHeader_def di_hashOff_def
      hashOffset_def teamSize_def entitledOptions_def adhocOptions_def plainExecutable_def byteOutput_def entitledComponents_def
      adhocComponents_def length_thinData sampleDER_def
      str_def FlagRuntime_def signatureSize_def legacySigningProfile_def superblob_def blob_def)

text \<open>
  C31. Signing with entitlements and inspecting the result: when ad-hoc signing returns an image,
  the signature at the end of its code is inspected to the compact form of exactly the values
  decoded from the property list that was given, with a text form exactly when no array mixes
  primitive types, whether the report owns its components or borrows them from a source of a
  signature of at most the maximal file size. It holds for an executable, or when
  entitlements are forced; for entitlements that decode to a dictionary within the reader's limits
  (height 32 and 100000 nodes, a DER form of at most the maximal bundle property list) made of
  booleans, 64-bit integers, strings in UTF-8 without NUL, arrays and dictionaries with distinct
  such keys (\<open>entitlement_ok\<close>); and when the SHA-256 digest of the component is not all zero, which would
  read as an absent component.
\<close>

theorem signed_entitlements_extract:
  assumes ok: "signable H opts" and base: "delivers base xs" "image_wf (length xs) im"
    and run: "signImageSource H tools opts im base = Inr out" and kind: "im_filetype im = 2 \<or> so_ForceLibraryEntitlements opts"
    and tools: "encodeEntitlements tools = EncodeEntitlements decode" and given: "so_Entitlements opts \<noteq> []"
      "decode (so_Entitlements opts) = Inr (Some es)" "entitlement_ok (PDict es)"
      "ent_height (treeOf (PDict es)) \<le> 32" "nodes (treeOf (PDict es)) \<le> 100000"
    and enc: "EncodeEntitlements decode (so_Entitlements opts) = Inr (xml, der)" "length der \<le> maxBundlePlist"
      "sha256 H (blob MagicDEREntitlements der) \<noteq> replicate 32 0"
  shows "\<exists>ys codeEnd sig m. delivers out ys \<and> signCodeEnd im base = Inr codeEnd \<and>
    parseSignature H (slice ys codeEnd (Length sig)) False = Inr sig \<and>
    ent_XML m = plistHeader @ compactXML (PDict es) @ str ''</plist>'' @ [10] \<and> (ent_TextValid m \<longleftrightarrow> uniform (PDict es)) \<and>
    InspectEntitlements H decodeXML (Some (Owned sig)) = Inr (Some m) \<and>
    (\<forall>src. delivers src (slice ys codeEnd (Length sig)) \<and> Length sig \<le> maxFileSize \<longrightarrow>
       (\<exists>v. parseSignatureView H (\<lambda>_. None) True src False = Inr v \<and>
          InspectEntitlements H decodeXML (Some (Held v (borrowed sig))) = Inr (Some m)))"
proof -
  from signImageSource_signed [OF ok base run] obtain comps codeEnd sigSize ys d special execFlags where
      y: "delivers out ys" "signCodeEnd im base = Inr codeEnd" "signComponents tools opts im = Inr (special, execFlags, comps)"
      "signed_image H opts comps (commandBytes im xs codeEnd sigSize) ys codeEnd d" by blast
  let ?sb = "superblob MagicSignature (signedBlobs (Raw d) comps)"
  from signed_image_signature [OF y(4)] obtain sig where sig: "parseSignature H ?sb False = Inr sig"
      "slice ys codeEnd (Length sig) = ?sb" "Length sig = length ?sb" by blast
  from sig(1) have parse: "parseSignature H (slice ys codeEnd (Length sig)) False = Inr sig" unfolding sig(2) .
  have len: "length (slice ys codeEnd (Length sig)) = Length sig" unfolding sig(2) using sig(3) by simp
  from inspect_signed_entitlements [OF y(4,3) ok kind tools given enc sig(1), of decodeXML] y(1,2) parse
  show ?thesis unfolding sig(2) [symmetric] len by blast
qed

theorem signed_entitlements_extract_witness:
  "\<exists>out ys m sig. signImageSource sampleHash entitledTools entitledOptions thinImage (byteOutput thinData) = Inr out \<and> delivers out ys \<and>
    ent_XML m = plistHeader @ compactXML (PDict sampleEntitlements) @ str ''</plist>'' @ [10] \<and>
    InspectEntitlements sampleHash (\<lambda>_. Inl Panic) (Some (Owned sig)) = Inr (Some m)"
proof -
  have "\<exists>out ys. signImageSource sampleHash entitledTools entitledOptions thinImage (byteOutput thinData) = Inr out \<and>
      delivers out ys \<and> length ys = 128 + signatureSize entitledOptions 48 306 entitledComponents"
    using thinImage(2)
    by (intro signImageSource_total [OF entitled_signable thin_delivered thinImage(3) _ _ _ thin_room entitled_inputs])
      (simp_all add: plainExecutable_def)
  then obtain out where out: "signImageSource sampleHash entitledTools entitledOptions thinImage (byteOutput thinData) = Inr out" by blast
  have kind: "im_filetype thinImage = 2 \<or> so_ForceLibraryEntitlements entitledOptions" using thinImage(2) by (simp add: plainExecutable_def)
  have given: "encodeEntitlements entitledTools = EncodeEntitlements sampleDecoder" "so_Entitlements entitledOptions \<noteq> []"
    "sampleDecoder (so_Entitlements entitledOptions) = Inr (Some sampleEntitlements)"
    "EncodeEntitlements sampleDecoder (so_Entitlements entitledOptions) = Inr ([1], sampleDER)"
    using entitled_encoding by (simp_all add: entitledTools_def entitledOptions_def sampleDecoder_def)
  have bounds: "ent_height (treeOf (PDict sampleEntitlements)) \<le> 32" "nodes (treeOf (PDict sampleEntitlements)) \<le> 100000"
    unfolding sample_values by simp_all
  have der: "sha256 sampleHash (blob MagicDEREntitlements sampleDER) \<noteq> replicate 32 0" "length sampleDER \<le> maxBundlePlist"
    by (simp_all add: sampleHash_def blob_def sampleDER_def maxBundlePlist_def)
  from signed_entitlements_extract [OF entitled_signable thin_delivered thinImage(3) out kind given(1-3) sample_values(1) bounds
      given(4) der(2,1), of "\<lambda>_. Inl Panic"] out
  show ?thesis by blast
qed

end
