(* ===== verification/Signed_Disk_Images.thy ===== *)
theory Signed_Disk_Images
  imports Verified_Signatures
begin

unbundle bit_operations_syntax

text \<open>
  Signed disk images (dmg.go): what the signer appends to the content, that the image parses as
  signed, and that the directory passes verification against the image and its own trailer.
\<close>

section \<open>The directory\<close>

definition dmg_layout_of ::
  "hash_lib \<Rightarrow> SignOptions \<Rightarrow> nat \<Rightarrow> nat \<Rightarrow> nat \<Rightarrow> nat \<Rightarrow> (nat \<times> byte list) list \<Rightarrow> nat \<Rightarrow> byte list \<Rightarrow> directory_layout" where
  "dmg_layout_of H opts header vers special execFlags ds pg cs =
    (let n = length (chunks pg cs) in
     \<lparr>cl_ident = so_Identifier opts, cl_team = so_teamID opts,
      cl_writes = dmgWrites opts header vers special execFlags n (length cs) (hashOffset opts header special + n * 32),
      cl_header = header, cl_special = special, cl_data = ds, cl_pages = pageDigests H pg cs\<rparr>)"

definition dmgExponent :: "SignOptions \<Rightarrow> nat" where
  "dmgExponent opts = (if so_PageSize opts = 0 then 0 else trailingZeros (so_PageSize opts))"

lemma dmgPages_ok:
  assumes pages: "dmgPages opts len = Inr (pg, n)" and len: "0 < len" "length cs = len"
  shows "0 < pg" "n = length (chunks pg cs)" "n = (len + pg - 1) div pg" "n < 2 ^ 32" "dmgExponent opts \<le> 30"
    "pg = (if so_PageSize opts = 0 then len else 2 ^ dmgExponent opts)" "so_PageSize opts = 0 \<longleftrightarrow> dmgExponent opts = 0"
proof -
  let ?p = "so_PageSize opts"
  have g: "?p \<noteq> 0 \<Longrightarrow> 2 \<le> ?p \<and> ?p AND (?p - 1) = 0 \<and> ?p \<le> maxFileSize" and pg: "pg = (if ?p > 0 then ?p else len)"
    and n: "n = (if ?p > 0 then (len - 1) div ?p + 1 else 1)" "n < 2 ^ 32"
    using pages by (auto simp: dmgPages_def Let_def guard_eq_Inr not_less split: if_splits)
  have e: "?p \<noteq> 0 \<Longrightarrow> ?p = 2 ^ dmgExponent opts" using g and_pred_zero [of ?p] by (simp add: dmgExponent_def)
  show pos: "0 < pg" using pg len by simp
  show ceil: "n = (len + pg - 1) div pg"
  proof (cases "?p = 0")
    case True
    then have "n = 1" "pg = len" using n pg by simp_all
    moreover have "(len + len - 1) div len = 1" using len(1) by (intro div_nat_eqI) simp_all
    ultimately show ?thesis by simp
  next
    case False
    then have "n = (len - 1) div pg + 1" using n pg by simp
    also have "\<dots> = (len - 1 + pg) div pg" using pos by (simp add: div_add_self2)
    also have "len - 1 + pg = len + pg - 1" using len(1) by simp
    finally show ?thesis .
  qed
  show "n = length (chunks pg cs)" using ceil pos len(2) by (simp add: length_chunks)
  show "n < 2 ^ 32" by (rule n(2))
  show "pg = (if ?p = 0 then len else 2 ^ dmgExponent opts)" using pg e by auto
  show "dmgExponent opts \<le> 30" "?p = 0 \<longleftrightarrow> dmgExponent opts = 0"
  proof -
    have *: "dmgExponent opts \<le> 30 \<and> dmgExponent opts \<noteq> 0" if "?p \<noteq> 0"
    proof
      have "(2 :: nat) ^ dmgExponent opts \<le> 2 ^ 30" using g e that by (simp add: maxFileSize_def)
      then show "dmgExponent opts \<le> 30" by (rule power_le_imp_le_exp [rotated]) simp
      have "2 \<le> (2 :: nat) ^ dmgExponent opts" using g [OF that] e [OF that] by simp
      then show "dmgExponent opts \<noteq> 0" by (cases "dmgExponent opts") simp_all
    qed
    have "?p = 0 \<Longrightarrow> dmgExponent opts = 0" by (simp add: dmgExponent_def)
    with * show "dmgExponent opts \<le> 30" "?p = 0 \<longleftrightarrow> dmgExponent opts = 0" by fastforce+
  qed
qed

lemma dmgHeader_ok:
  assumes "dmgHeader opts len = (header, vers)"
  shows "headerVersion header vers" "so_teamID opts \<noteq> [] \<Longrightarrow> 52 \<le> header" "2 ^ 32 \<le> len \<Longrightarrow> 64 \<le> header"
  using assms by (auto simp: dmgHeader_def headerVersion_def Let_def split: if_split_asm)

lemma dmg_layout_of_ok:
  fixes execFlags :: nat
  assumes H: "hash_lib_ok H" and pages: "dmgPages opts (length cs) = Inr (pg, n)" and header: "dmgHeader opts (length cs) = (header, vers)"
    and cs: "0 < length cs" "length cs < 2 ^ 64" and ds: "specials_ok special ds" and names: "0 \<notin> set (so_Identifier opts)" "0 \<notin> set (so_teamID opts)"
    and sz: "hashOffset opts header special + n * 32 < 2 ^ 32"
  defines "l \<equiv> dmg_layout_of H opts header vers special execFlags ds pg cs"
  shows "layout_ok H l" "cl_hashOff l = hashOffset opts header special" "cl_size l = hashOffset opts header special + n * 32"
    "layout_fields l vers (if so_Identity opts then so_Flags opts else so_Flags opts OR FlagAdhoc) n (length cs) (dmgExponent opts)"
proof -
  note p = dmgPages_ok [OF pages cs(1) refl] and h = dmgHeader_ok [OF header]
  let ?ws = "dmgWrites opts header vers special execFlags n (length cs) (hashOffset opts header special + n * 32)"
  have sel: "cl_ident l = so_Identifier opts" "cl_team l = so_teamID opts" "cl_writes l = ?ws" "cl_header l = header"
      "cl_special l = special" "cl_data l = ds" "cl_pages l = pageDigests H pg cs"
    by (simp_all add: l_def dmg_layout_of_def Let_def flip: p(2))
  have hh: "48 \<le> header" "teamSize opts > 0 \<Longrightarrow> 52 \<le> header" "\<not> length cs < 2 ^ 32 \<Longrightarrow> 64 \<le> header" "so_teamID opts = [] \<longleftrightarrow> teamSize opts = 0"
    using headerVersion_facts(4) [OF h(1)] h(2,3) by (auto simp: teamSize_def split: if_splits)
  have ws: "\<forall>(off, q) \<in> set ?ws. off + length q \<le> header" "sorted_wrt disjointPatch ?ws"
      "\<forall>(off, q) \<in> set ?ws. off + length q \<le> 44 \<or> 48 \<le> off \<and> off + length q \<le> 52 \<and> 0 < teamSize opts \<or>
        56 \<le> off \<and> off + length q \<le> 64 \<and> \<not> length cs < 2 ^ 32 \<or> 64 \<le> off"
      "so_PageSize opts = 0 \<longrightarrow> (\<forall>(off, q) \<in> set ?ws. off + length q \<le> 39 \<or> 40 \<le> off)"
    using hh by (auto simp: dmgWrites_def Let_def disjointPatch_def)
  show "layout_ok H l" using H ds names ws(1,2) by (simp add: layout_ok_def sel)
  show off: "cl_hashOff l = hashOffset opts header special"
    by (simp add: cl_hashOff_def cl_names_def sel hashOffset_def teamSize_def)
  have tail: "length (pageDigests H pg cs) = n * 32" using length_pageDigests [OF H, of pg cs] p(2) by simp
  then show size: "cl_size l = hashOffset opts header special + n * 32" by (simp add: cl_size_def off sel)
  have free: "untouched ?ws 44 4" "teamSize opts = 0 \<Longrightarrow> untouched ?ws 48 4" "length cs < 2 ^ 32 \<Longrightarrow> untouched ?ws 56 8"
      "so_PageSize opts = 0 \<Longrightarrow> untouched ?ws 39 1"
    unfolding untouched_def using ws(3,4) by fastforce+
  have exponent: "(39, [of_nat (dmgExponent opts)]) \<in> set ?ws \<or> dmgExponent opts = 0 \<and> untouched ?ws 39 1"
    using free(4) by (cases "so_PageSize opts = 0") (simp_all add: dmgExponent_def dmgWrites_def Let_def)
  have limit: "if length cs < 2 ^ 32 then 64 \<le> header \<longrightarrow> untouched ?ws 56 8
      else 64 \<le> header \<and> length cs < 2 ^ 64 \<and> (56, put64 (length cs)) \<in> set ?ws"
    using free(3) hh(3) cs(2) by (auto simp: dmgWrites_def Let_def)
  have team: "if so_teamID opts = [] then 52 \<le> header \<longrightarrow> untouched ?ws 48 4
      else 52 \<le> header \<and> (48, put32 (header + length (so_Identifier opts) + 1)) \<in> set ?ws"
    using free(2) hh(2,4) by (auto simp: dmgWrites_def Let_def)
  have fields: "(0, put32 MagicDirectory) \<in> set ?ws" "(4, put32 (hashOffset opts header special + n * 32)) \<in> set ?ws"
      "(8, put32 vers) \<in> set ?ws" "(12, put32 (if so_Identity opts then so_Flags opts else so_Flags opts OR FlagAdhoc)) \<in> set ?ws"
      "(16, put32 (hashOffset opts header special)) \<in> set ?ws" "(20, put32 header) \<in> set ?ws" "(24, put32 special) \<in> set ?ws"
      "(28, put32 n) \<in> set ?ws" "(32, put32 (min (length cs) (2 ^ 32 - 1))) \<in> set ?ws" "(36, [32]) \<in> set ?ws" "(37, [2]) \<in> set ?ws"
    by (simp_all add: dmgWrites_def Let_def)
  have "dmgExponent opts \<le> 31" using p(5) by simp
  then show "layout_fields l vers (if so_Identity opts then so_Flags opts else so_Flags opts OR FlagAdhoc) n (length cs) (dmgExponent opts)"
    unfolding layout_fields_def sel off size tail using h(1) sz fields exponent free(1) team limit by blast
qed

text \<open>What the page digest callback promises over the content.\<close>

definition digests_content :: "hash_lib \<Rightarrow> (nat \<Rightarrow> nat \<Rightarrow> byte list result) \<Rightarrow> byte list \<Rightarrow> bool" where
  "digests_content H pd cs \<longleftrightarrow> (\<forall>off n. off + n \<le> length cs \<longrightarrow> pd off n = Inr (sha256 H (slice cs off n)))"

lemma writePages_content:
  assumes H: "hash_lib_ok H" and pg: "0 < pg" and pd: "digests_content H pd cs"
  shows "k = length (chunks pg (drop (i * pg) cs)) \<Longrightarrow> hashOff + i * 32 + k * 32 \<le> length s \<Longrightarrow>
    writePages pd pg (length cs) hashOff i k s = Inr (overwrite (hashOff + i * 32) (pageDigests H pg (drop (i * pg) cs)) s)"
proof (induction k arbitrary: i s)
  case 0
  then have "chunks pg (drop (i * pg) cs) = []" by simp
  then show ?case by (simp add: pageDigests_def)
next
  case (Suc k)
  let ?c = "drop (i * pg) cs" and ?n = "min pg (length cs - i * pg)"
  let ?h = "sha256 H (slice cs (i * pg) ?n)"
  have ne: "?c \<noteq> []" using Suc.prems(1) by (auto simp: chunks.simps)
  then have st: "i * pg < length cs" by simp
  have ch: "chunks pg ?c = slice cs (i * pg) ?n # chunks pg (drop (Suc i * pg) cs)"
  proof -
    have "take pg ?c = slice cs (i * pg) ?n" by (simp add: slice_def min_def)
    then show ?thesis using ne pg by (subst chunks.simps) (simp add: add.commute)
  qed
  have len: "length ?h = 32" using H by (simp add: hash_lib_ok_def)
  have digest: "pd (i * pg) ?n = Inr ?h" using pd st unfolding digests_content_def by simp
  have fit: "hashOff + i * 32 + 32 \<le> length s" using Suc.prems(2) by simp
  have at: "int hashOff + int i * 32 = int (hashOff + i * 32)" by simp
  have put: "sectionWriteAt rangeBufferWriteAt 0 (int (length s)) s ?h (int hashOff + int i * 32) =
      (overwrite (hashOff + i * 32) ?h s, 32, None)"
    unfolding at using section_overwrites.overwrites [of "hashOff + i * 32" ?h "length s" s] fit len by simp
  have "writePages pd pg (length cs) hashOff (Suc i) k (overwrite (hashOff + i * 32) ?h s) =
      Inr (overwrite (hashOff + Suc i * 32) (pageDigests H pg (drop (Suc i * pg) cs)) (overwrite (hashOff + i * 32) ?h s))"
    using Suc.prems ch len fit by (intro Suc.IH) simp_all
  also have "overwrite (hashOff + Suc i * 32) (pageDigests H pg (drop (Suc i * pg) cs)) (overwrite (hashOff + i * 32) ?h s) =
      overwrite (hashOff + i * 32) (?h @ pageDigests H pg (drop (Suc i * pg) cs)) s"
  proof -
    have "hashOff + i * 32 + length ?h + length (pageDigests H pg (drop (Suc i * pg) cs)) \<le> length s"
      using Suc.prems ch len length_pageDigests [OF H, of pg "drop (Suc i * pg) cs"] by simp
    moreover have "hashOff + Suc i * 32 = hashOff + i * 32 + length ?h" using len by simp
    ultimately show ?thesis using overwrite_append by metis
  qed
  also have "?h @ pageDigests H pg (drop (Suc i * pg) cs) = pageDigests H pg ?c" by (simp only: pageDigests_def ch list.map concat.simps)
  finally show ?case by (simp add: digest put)
qed

lemma dmgDirectory_content:
  fixes execFlags :: nat
  assumes H: "hash_lib_ok H" and pages: "dmgPages opts (length cs) = Inr (pg, n)" and header: "dmgHeader opts (length cs) = (header, vers)"
    and cs: "0 < length cs" "length cs < 2 ^ 64" and ds: "specials_ok special ds" and names: "0 \<notin> set (so_Identifier opts)" "0 \<notin> set (so_teamID opts)"
    and sz: "hashOffset opts header special + n * 32 < 2 ^ 32" and pd: "digests_content H pd cs"
  shows "dmgDirectory H opts pg n (length cs) (dmgWrites opts header vers special execFlags n (length cs) (hashOffset opts header special + n * 32))
      header (hashOffset opts header special) (hashOffset opts header special + n * 32) ds pd =
    Inr (cl_bytes H (dmg_layout_of H opts header vers special execFlags ds pg cs))"
proof -
  let ?l = "dmg_layout_of H opts header vers special execFlags ds pg cs"
  note p = dmgPages_ok [OF pages cs(1) refl]
  note l = dmg_layout_of_ok [OF H pages header cs ds names sz, of execFlags]
  have sel: "cl_ident ?l = so_Identifier opts" "cl_team ?l = so_teamID opts" "cl_header ?l = header" "cl_data ?l = ds" "cl_pages ?l = pageDigests H pg cs"
      "cl_writes ?l = dmgWrites opts header vers special execFlags n (length cs) (hashOffset opts header special + n * 32)"
    by (simp_all add: dmg_layout_of_def Let_def flip: p(2))
  have small: "int (hashOffset opts header special + n * 32) \<le> MaxInt64" using sz by (simp add: MaxInt64_def)
  note filled = layout_filled [OF l(1), unfolded l(2,3) sel, OF small]
  let ?s = "writes_over (digestWrites H (hashOffset opts header special) ds) (cl_base ?l)"
  have "writePages pd pg (length cs) (hashOffset opts header special) 0 n ?s =
      Inr (overwrite (hashOffset opts header special + 0 * 32) (pageDigests H pg (drop (0 * pg) cs)) ?s)"
    using p(2) filled(4) by (intro writePages_content [OF H p(1) pd]) simp_all
  then show ?thesis using filled by (simp add: dmgDirectory_def)
qed

section \<open>The components\<close>

definition emptyCMS :: Blob where
  "emptyCMS = \<lparr>Slot = SlotCMS, Magic = 0, Data = blob MagicCMS []\<rparr>"

lemma dmgComponents_cases:
  assumes "dmgComponents tools opts = Inr (special, execFlags, bl)"
  defines "r \<equiv> \<lparr>Slot = SlotRequirements, Magic = 0,
    Data = if so_Requirements opts = [] then superblob MagicRequirements [] else so_Requirements opts\<rparr>"
  shows "special = 6 \<and> bl = [r] \<or> (\<exists>xml der. special = 7 \<and> bl = [r, \<lparr>Slot = SlotEntitlements, Magic = 0, Data = blob MagicEntitlements xml\<rparr>,
      \<lparr>Slot = SlotDEREntitlements, Magic = 0, Data = blob MagicDEREntitlements der\<rparr>])"
  using assms by (auto simp: dmgComponents_def Let_def rbind_eq_Inr split: if_split_asm)

definition dmgSpecials :: "Blob list \<Rightarrow> byte list \<Rightarrow> (nat \<times> byte list) list" where
  "dmgSpecials bl trailer = map (\<lambda>b. (Slot b, Data b)) bl @ [(SlotRepSpecific, trailer)]"

lemma dmgComponents_ok:
  assumes "dmgComponents tools opts = Inr (special, execFlags, bl)" and ok: "signable H opts"
  shows "distinct (0 # map Slot (bl @ [emptyCMS]))" "\<forall>b \<in> set (bl @ [emptyCMS]). 8 \<le> length (Data b) \<and> \<not> isDirectorySlot (Slot b)"
    "distinct (map fst (dmgSpecials bl trailer))" "\<forall>(slot, data) \<in> set (dmgSpecials bl trailer). 1 \<le> slot \<and> slot \<le> special"
    "6 \<le> special" "special \<le> 7"
    "superblobLength (bl @ [emptyCMS]) < 2 ^ 32 \<Longrightarrow> \<forall>b \<in> set (bl @ [emptyCMS]). component_ok (withMagic b)"
proof -
  have "8 \<le> length (blob magic payload)" "8 \<le> length (superblob magic bs)" for magic payload bs
    by (simp_all add: blob_def superblob_def Let_def)
  moreover have "so_Requirements opts = [] \<or> 8 \<le> length (so_Requirements opts)" using ok by (auto simp: signable_def)
  ultimately show "distinct (0 # map Slot (bl @ [emptyCMS]))"
    "\<forall>b \<in> set (bl @ [emptyCMS]). 8 \<le> length (Data b) \<and> \<not> isDirectorySlot (Slot b)"
    "distinct (map fst (dmgSpecials bl trailer))" "\<forall>(slot, data) \<in> set (dmgSpecials bl trailer). 1 \<le> slot \<and> slot \<le> special"
    "6 \<le> special" "special \<le> 7"
    using dmgComponents_cases [OF assms(1)] by (auto simp: slot_defs emptyCMS_def dmgSpecials_def isDirectorySlot_def)
  assume small: "superblobLength (bl @ [emptyCMS]) < 2 ^ 32"
  have len: "8 + length payload < 2 ^ 32" if "\<lparr>Slot = s, Magic = k, Data = blob magic payload\<rparr> \<in> set (bl @ [emptyCMS])" for s k magic payload
    using component_length [OF that] small by (simp add: blob_def)
  have payload: "component_ok (withMagic \<lparr>Slot = s, Magic = 0, Data = blob magic payload\<rparr>)"
    if "\<lparr>Slot = s, Magic = 0, Data = blob magic payload\<rparr> \<in> set (bl @ [emptyCMS])" "expectedMagic s = magic" "s < 2 ^ 32" "magic < 2 ^ 32"
    for s magic payload
    using len [OF that(1)] that(2-4) by (rule component_blob)
  have magics: "expectedMagic SlotCMS = MagicCMS" "expectedMagic SlotEntitlements = MagicEntitlements"
      "expectedMagic SlotDEREntitlements = MagicDEREntitlements" "SlotCMS < 2 ^ 32" "SlotEntitlements < 2 ^ 32" "SlotDEREntitlements < 2 ^ 32"
      "MagicCMS < 2 ^ 32" "MagicEntitlements < 2 ^ 32" "MagicDEREntitlements < 2 ^ 32"
    by (simp_all add: expectedMagic_def slot_defs MagicCMS_def MagicEntitlements_def MagicDEREntitlements_def)
  have "component_ok (withMagic b)" if b: "b \<in> set (bl @ [emptyCMS])" for b
  proof -
    consider "b = \<lparr>Slot = SlotRequirements, Magic = 0,
          Data = if so_Requirements opts = [] then superblob MagicRequirements [] else so_Requirements opts\<rparr>"
      | p where "b = \<lparr>Slot = SlotCMS, Magic = 0, Data = blob MagicCMS p\<rparr>"
      | p where "b = \<lparr>Slot = SlotEntitlements, Magic = 0, Data = blob MagicEntitlements p\<rparr>"
      | p where "b = \<lparr>Slot = SlotDEREntitlements, Magic = 0, Data = blob MagicDEREntitlements p\<rparr>"
      using dmgComponents_cases [OF assms(1)] b by (auto simp: emptyCMS_def)
    then show ?thesis
    proof cases
      case 1
      then show ?thesis using component_requirements [OF ok] by simp
    next
      case 2
      from b show ?thesis unfolding 2 by (rule payload [OF _ magics(1,4,7)])
    next
      case 3
      from b show ?thesis unfolding 3 by (rule payload [OF _ magics(2,5,8)])
    next
      case 4
      from b show ?thesis unfolding 4 by (rule payload [OF _ magics(3,6,9)])
    qed
  qed
  then show "\<forall>b \<in> set (bl @ [emptyCMS]). component_ok (withMagic b)" by blast
qed

text \<open>A SuperBlob that is written is within the 32-bit range.\<close>

lemma outputSections_length:
  "outputSections prev len ss p idx = Inr (len', p', idx') \<Longrightarrow> \<forall>s \<in> set ss. 0 \<le> srcSize (secData s) \<Longrightarrow> len < 2 ^ 32 \<Longrightarrow>
   len' < 2 ^ 32 \<and> len' = len + sum_list (map (\<lambda>s. nat (srcSize (secData s))) ss)"
proof (induction prev len ss p idx arbitrary: p' rule: outputSections.induct)
  case (2 prev len s ss p idx)
  from "2.prems"(1) obtain q where q: "srcSize (secData s) \<le> 2 ^ 32 - 1 - int len" "append_plan p (secData s) = Inr q"
      "outputSections (Some (secSlot s)) (len + nat (srcSize (secData s))) ss q (idx @ put32 (secSlot s) @ put32 len) = Inr (len', p', idx')"
      "\<not> (srcSize (secData s) < 8 \<or> srcSize (secData s) > 2 ^ 32 - 1 - int len)" "prev \<noteq> Some (secSlot s)"
    by (auto simp: guard_eq_Inr rbind_eq_Inr)
  have "int (len + nat (srcSize (secData s))) < int (2 ^ 32)" using q(1,4) by simp
  then have "len + nat (srcSize (secData s)) < 2 ^ 32" by (rule of_nat_less_imp_less)
  with "2.IH" [OF q(4,5,2,3)] "2.prems"(2) show ?case by simp
qed simp

lemma superblobOutput_small:
  assumes "superblobOutput magic ss = Inr out" "\<forall>s \<in> set ss. 0 \<le> srcSize (secData s)"
  shows "12 + 8 * length ss + sum_list (map (\<lambda>s. nat (srcSize (secData s))) ss) < 2 ^ 32"
proof -
  let ?ss = "sort_key secSlot ss"
  from assms(1) obtain p len p' idx where n: "length ss \<le> (2 ^ 32 - 1 - 12) div 8"
      and o: "outputSections None (12 + 8 * length ss) ?ss p [] = Inr (len, p', idx)"
    by (auto simp: superblobOutput_def Let_def guard_eq_Inr rbind_eq_Inr)
  have "12 + 8 * length ss < 2 ^ 32" using n by simp
  from outputSections_length [OF o _ this] assms(2) show ?thesis by (simp add: sum_list_sort_key)
qed

section \<open>What is appended\<close>

text \<open>A directory over the content \<open>cs\<close>, the components \<open>bl\<close> and the trailer.\<close>

definition signed_disk :: "hash_lib \<Rightarrow> SignOptions \<Rightarrow> Blob list \<Rightarrow> byte list \<Rightarrow> byte list \<Rightarrow> Directory \<Rightarrow> bool" where
  "signed_disk H opts bl trailer cs d \<longleftrightarrow>
     components_ok (signedBlobs (Raw d) (bl @ [emptyCMS])) \<and> parseDirectory H (Raw d) = Inr d \<and>
     Identifier d = so_Identifier opts \<and> TeamID d = so_teamID opts \<and> CodeLimit d = length cs \<and> HashType d = 2 \<and> HashSize d = 32 \<and>
     Flags d = (so_Flags opts OR FlagAdhoc) mod 2 ^ 32 \<and> 0 < pageSize d \<and>
     CodeSlots d = (length cs + pageSize d - 1) div pageSize d \<and> 6 \<le> SpecialSlots d \<and> SpecialSlots d \<le> 7 \<and>
     slice (Raw d) (HashOffset d) (32 * CodeSlots d) = pageDigests H (pageSize d) cs \<and>
     (\<forall>(slot, data) \<in> set (dmgSpecials bl trailer). slice (Raw d) (HashOffset d - slot * 32) 32 = sha256 H data) \<and>
     (\<forall>slot. 1 \<le> slot \<and> slot \<le> SpecialSlots d \<and> slot \<notin> fst ` set (dmgSpecials bl trailer) \<longrightarrow>
        slice (Raw d) (HashOffset d - slot * 32) 32 = replicate 32 0)"

lemma dmg_directory_signed:
  fixes execFlags :: nat
  assumes ok: "signable H opts" and pages: "dmgPages opts (length cs) = Inr (pg, n)" and header: "dmgHeader opts (length cs) = (header, vers)"
    and comps: "dmgComponents tools opts = Inr (special, execFlags, bl)"
    and cs: "0 < length cs" "length cs < 2 ^ 64" and sz: "hashOffset opts header special + n * 32 < 2 ^ 32"
    and fit: "specials_ok special (dmgSpecials bl trailer)"
    and len: "superblobLength (\<lparr>Slot = 0, Magic = 0, Data = replicate (hashOffset opts header special + n * 32) 0\<rparr> # bl @ [emptyCMS]) < 2 ^ 32"
  shows "\<exists>d. Raw d = cl_bytes H (dmg_layout_of H opts header vers special execFlags (dmgSpecials bl trailer) pg cs) \<and>
    signed_disk H opts bl trailer cs d"
proof -
  let ?l = "dmg_layout_of H opts header vers special execFlags (dmgSpecials bl trailer) pg cs"
  have H: "hash_lib_ok H" "0 \<notin> set (so_Identifier opts)" "0 \<notin> set (so_teamID opts)" and noid: "\<not> so_Identity opts"
    using ok by (simp_all add: signable_def)
  note p = dmgPages_ok [OF pages cs(1) refl] and c = dmgComponents_ok [OF comps ok]
  note l = dmg_layout_of_ok [OF H(1) pages header cs fit H(2,3) sz, of execFlags]
  have sel: "cl_ident ?l = so_Identifier opts" "cl_team ?l = so_teamID opts" "cl_special ?l = special"
      "cl_data ?l = dmgSpecials bl trailer" "cl_pages ?l = pageDigests H pg cs"
    by (simp_all add: dmg_layout_of_def Let_def)
  from layout_parses [OF l(1,4), unfolded sel l(2)] obtain d where d: "parseDirectory H (cl_bytes H ?l) = Inr d" "Identifier d = so_Identifier opts"
      "TeamID d = so_teamID opts" "HashType d = 2" "HashSize d = 32" "PageExponent d = dmgExponent opts" "CodeLimit d = length cs"
      "CodeSlots d = n" "SpecialSlots d = special" "HashOffset d = hashOffset opts header special"
      "Flags d = (if so_Identity opts then so_Flags opts else so_Flags opts OR FlagAdhoc) mod 2 ^ 32" "Raw d = cl_bytes H ?l"
    by blast
  have psize: "pageSize d = pg" using p(6,7) by (simp add: pageSize_def d(6,7))
  have bytes: "length (Raw d) = hashOffset opts header special + n * 32" using length_cl_bytes [OF l(1)] l(3) d(12) by simp
  have small: "superblobLength (bl @ [emptyCMS]) < 2 ^ 32" using len by (simp add: superblobLength_def)
  have "components_ok (signedBlobs (Raw d) (bl @ [emptyCMS]))"
    using layout_component [OF l(1,4)] c(1) c(7) [OF small] len bytes
    unfolding d(12) [symmetric] components_ok_def signedBlobs_length superblobLength_def
    by (simp add: signedBlobs_def SlotDirectory_def list_all_iff comp_def)
  moreover have "slice (Raw d) (hashOffset opts header special) (32 * n) = pageDigests H pg cs"
    using cl_page_digests [OF l(1)] length_pageDigests [OF H(1), of pg cs] p(2) unfolding sel l(2) d(12) by simp
  moreover have "\<forall>(slot, data) \<in> set (dmgSpecials bl trailer). slice (Raw d) (hashOffset opts header special - slot * 32) 32 = sha256 H data"
    using cl_special_digest [OF l(1), unfolded sel l(2)] unfolding d(12) by blast
  moreover have "\<forall>slot. 1 \<le> slot \<and> slot \<le> special \<and> slot \<notin> fst ` set (dmgSpecials bl trailer) \<longrightarrow>
        slice (Raw d) (hashOffset opts header special - slot * 32) 32 = replicate 32 0"
    using cl_special_zero [OF l(1), unfolded sel l(2)] unfolding d(12) by blast
  moreover have "Raw d = cl_bytes H ?l" by (rule d(12))
  ultimately show ?thesis
    using d(1-5,7-11) noid p(1,3) c(5,6) unfolding signed_disk_def by (intro exI [of _ d]) (simp add: psize d)
qed

lemma dmgSpecials_fit:
  assumes comps: "dmgComponents tools opts = Inr (special, execFlags, bl)" and ok: "signable H opts"
    and small: "superblobLength (b # bl @ [emptyCMS]) < 2 ^ 32" and t: "length trailer \<le> 2 ^ 16"
  shows "specials_ok special (dmgSpecials bl trailer)"
proof -
  have "int (length (Data c)) \<le> MaxInt64" if "c \<in> set bl" for c
    using component_length [of c "b # bl @ [emptyCMS]"] that small by (simp add: MaxInt64_def)
  moreover have "int (length trailer) \<le> MaxInt64" using t by (simp add: MaxInt64_def)
  ultimately have "int (length data) \<le> MaxInt64" if "(slot, data) \<in> set (dmgSpecials bl trailer)" for slot data
    using that by (auto simp: dmgSpecials_def)
  then show ?thesis using dmgComponents_ok(3,4) [OF comps ok, of trailer] by (fastforce simp: specials_ok_def)
qed

lemma signDMGTailSource_content:
  assumes ok: "signable H opts" and L: "dmg_layout_ok (dmgLayout tools)"
    and m: "dg_footer m = signedFooter (dm_decode (dmgLayout tools) b) (length cs) 0" "length b = dm_size (dmgLayout tools)"
    and cs: "8 \<le> length cs" "length cs < 2 ^ 62" and pd: "digests_content H pd cs"
    and run: "signDMGTailSource H tools m opts False pd = Inr out"
  shows "\<exists>d bl special execFlags. dmgComponents tools opts = Inr (special, execFlags, bl) \<and>
    signed_disk H opts bl (dmgTrailer (dmgLayout tools) m) cs d \<and>
    (let sb = superblob MagicSignature (signedBlobs (Raw d) (bl @ [emptyCMS])) in
     delivers out (sb @ dm_encode (dmgLayout tools) (signedFooter (dg_footer m) (length cs) (length sb))))"
proof -
  let ?L = "dmgLayout tools" and ?t = "dmgTrailer (dmgLayout tools) m"
  have noid: "\<not> so_Identity opts" and H: "hash_lib_ok H" "0 \<notin> set (so_Identifier opts)" "0 \<notin> set (so_teamID opts)"
    using ok by (simp_all add: signable_def)
  have len: "ft_CodeSignatureOffset (dg_footer m) = length cs" using m(1) by simp
  obtain header vers where header: "dmgHeader opts (length cs) = (header, vers)" by (cases "dmgHeader opts (length cs)")
  from run obtain pg n special execFlags bl where pages: "dmgPages opts (length cs) = Inr (pg, n)"
      and comps: "dmgComponents tools opts = Inr (special, execFlags, bl)"
    by (auto simp: signDMGTailSource_def Let_def len guard_eq_Inr rbind_eq_Inr)
  let ?hashOff = "hashOffset opts header special" and ?ws = "dmgWrites opts header vers special execFlags n (length cs) (hashOffset opts header special + n * 32)"
  let ?secs = "\<lambda>cd. \<lparr>secSlot = SlotDirectory, secData = sectionOutput cd\<rparr> #
      map (\<lambda>b. \<lparr>secSlot = Slot b, secData = byteOutput (Data b)\<rparr>) (bl @ [emptyCMS])"
  from run obtain cd sig plan1 plan2 where sz: "?hashOff + n * 32 \<le> 2 ^ 32 - 1"
      and cd: "dmgDirectory H opts pg n (length cs) ?ws header ?hashOff (?hashOff + n * 32) (dmgSpecials bl ?t) pd = Inr cd"
      and sig: "superblobOutput MagicSignature (?secs cd) = Inr sig"
      and plan: "append_plan emptyPlan sig = Inr plan1"
        "append_plan plan1 (byteOutput (dm_encode ?L (signedFooter (dg_footer m) (length cs) (nat (srcSize sig))))) = Inr plan2"
        "out = planOutput plan2"
    unfolding signDMGTailSource_def Let_def len
    by (auto simp: guard_eq_Inr rbind_eq_Inr pages comps header noid dmgSpecials_def emptyCMS_def not_less)
  have "12 + 8 * length (?secs cd) + sum_list (map (\<lambda>s. nat (srcSize (secData s))) (?secs cd)) < 2 ^ 32"
    by (rule superblobOutput_small [OF sig]) (auto simp: byteOutput_def sectionOutput_def)
  then have small: "superblobLength (\<lparr>Slot = 0, Magic = 0, Data = cd\<rparr> # bl @ [emptyCMS]) < 2 ^ 32"
    by (simp add: superblobLength_def byteOutput_def sectionOutput_def comp_def)
  have trailer: "?t = dm_encode ?L (signedFooter (dm_decode ?L b) (length cs) 0)" "length ?t = dm_size ?L" "dm_size ?L \<le> 2 ^ 16"
    using L m(2) cs(2) by (simp_all add: dmgTrailer_def m(1) dmg_layout_ok_def)
  have fit: "specials_ok special (dmgSpecials bl ?t)" using trailer(2,3) by (intro dmgSpecials_fit [OF comps ok small]) simp
  have pos: "0 < length cs" "length cs < 2 ^ 64" "?hashOff + n * 32 < 2 ^ 32" using cs sz by auto
  have cd': "cd = cl_bytes H (dmg_layout_of H opts header vers special execFlags (dmgSpecials bl ?t) pg cs)"
    using dmgDirectory_content [OF H(1) pages header pos(1,2) fit H(2,3) pos(3) pd, of execFlags] cd by simp
  have cdlen: "length cd = ?hashOff + n * 32"
    using dmg_layout_of_ok(1,3) [OF H(1) pages header pos(1,2) fit H(2,3) pos(3), of execFlags] length_cl_bytes unfolding cd' by fastforce
  from dmg_directory_signed [OF ok pages header comps pos fit] small cdlen
  obtain d where d: "Raw d = cd" "signed_disk H opts bl ?t cs d" by (auto simp: superblobLength_def cd')
  let ?sb = "superblob MagicSignature (signedBlobs (Raw d) (bl @ [emptyCMS]))"
  have "components_ok (signedBlobs cd (bl @ [emptyCMS]))" using d by (simp add: signed_disk_def)
  from finishSignature_content [OF noid this, of tools] sig noid have sb: "delivers sig ?sb" by (simp add: finishSignature_def d(1))
  have size: "nat (srcSize sig) = length ?sb" using delivers_range [OF sb] by simp
  let ?e = "dm_encode ?L (signedFooter (dg_footer m) (length cs) (length ?sb))"
  have "length ?sb < 2 ^ 32" using d(2) by (simp add: signed_disk_def components_ok_def superblob_layout superblobLength_sort)
  then have elen: "length ?e = dm_size ?L" using L m(2) cs(2) by (simp add: m(1) dmg_layout_ok_def)
  then have e: "delivers (byteOutput ?e) ?e" using trailer(3) by (intro byteOutput_delivers) (simp add: MaxInt64_def)
  have one: "plan_content plan1 ?sb"
    using append_plan_content [OF emptyPlan_content _ _ plan(1)] delivers_range [OF sb] sb by simp
  have "plan_content plan2 (?sb @ ?e)"
    using append_plan_content [OF one _ _ plan(2)] e size by (simp add: byteOutput_def)
  then have "delivers out (?sb @ ?e)" unfolding plan(3) by (rule plan_delivers)
  with comps d(2) show ?thesis unfolding Let_def by blast
qed

section \<open>The signed image parses\<close>

lemma dmg_layout_signed:
  assumes "dmg_layout_ok L" "length b = dm_size L" "off < 2 ^ 64" "len < 2 ^ 64"
  shows "length (dm_encode L (signedFooter (dm_decode L b) off len)) = dm_size L"
    "take 4 (dm_encode L (signedFooter (dm_decode L b) off len)) = take 4 b"
    "dm_decode L (dm_encode L (signedFooter (dm_decode L b) off len)) = signedFooter (dm_decode L b) off len"
  using assms unfolding dmg_layout_ok_def by blast+

lemma isDMG_iff:
  assumes "footer \<le> length data" "4 \<le> footer"
  shows "isDMG footer data = Inr True \<longleftrightarrow> be32 data 0 \<notin> {0xfeedface, 0xcefaedfe, 0xfeedfacf, 0xcffaedfe, 0xcafebabe, 0xbebafeca, 0xcafebabf, 0xbfbafeca} \<and>
    take 4 (drop (length data - footer) data) = str ''koly''"
  using assms by (auto simp: isDMG_def slice_def result_simps)

lemma dmgRegions_signed [simp]: "dmgRegions (signedFooter h off len) = dmgRegions h"
  and signedFooter_fields: "ft_Version (signedFooter h off len) = ft_Version h" "ft_HeaderSize (signedFooter h off len) = ft_HeaderSize h"
    "ft_Flags (signedFooter h off len) = ft_Flags h" "ft_SegmentNumber (signedFooter h off len) = ft_SegmentNumber h"
    "ft_SegmentCount (signedFooter h off len) = ft_SegmentCount h" "ft_PlistLength (signedFooter h off len) = ft_PlistLength h"
    "ft_RunningDataForkOffset (signedFooter h off len) = ft_RunningDataForkOffset h"
  by (simp_all add: dmgRegions_def signedFooter_def)

lemma signed_disk_parses:
  assumes parse: "parseDMG H L data = Inr m" and L: "dmg_layout_ok L" and d: "signed_disk H opts bl trailer (dg_content m) d"
    and b: "b = drop (length data - dm_size L) data"
  defines "sb \<equiv> superblob MagicSignature (signedBlobs (Raw d) (bl @ [emptyCMS]))"
  defines "out \<equiv> dg_content m @ sb @ dm_encode L (signedFooter (dg_footer m) (length (dg_content m)) (length sb))"
  assumes comps: "\<forall>b \<in> set (bl @ [emptyCMS]). \<not> isDirectorySlot (Slot b)" and fits: "length out \<le> maxFileSize"
  shows "parseDMG H L out = Inr (m\<lparr>dg_signature := Some \<lparr>Length = length sb, Blobs = sort_key Slot (signedBlobs (Raw d) (bl @ [emptyCMS])),
    Directories = [d]\<rparr>, dg_signed := True, dg_priorFlags := Flags d\<rparr>)"
proof -
  let ?sig = "\<lparr>Length = length sb, Blobs = sort_key Slot (signedBlobs (Raw d) (bl @ [emptyCMS])), Directories = [d]\<rparr>"
  let ?h = "dm_decode L b" and ?e = "dm_encode L (signedFooter (dg_footer m) (length (dg_content m)) (length sb))"
  note inv = parseDMG_inv [OF parse, folded b]
  from inv(5) obtain off where off: "8 \<le> off" "off \<le> length data - dm_size L" "dg_footer m = signedFooter ?h off 0"
      "dg_content m = take off data" "checkRegions off [] (dmgRegions ?h) = Inr ()" by blast
  have clen: "length (dg_content m) = off" using off(2,4) by simp
  have blen: "length b = dm_size L" using inv(1) b by simp
  have sblen: "length sb = superblobLength (signedBlobs (Raw d) (bl @ [emptyCMS]))" "length sb < 2 ^ 32" "12 \<le> length sb"
  proof -
    have fit: "superblobLength (signedBlobs (Raw d) (bl @ [emptyCMS])) < 2 ^ 32" using d by (simp add: signed_disk_def components_ok_def)
    show len: "length sb = superblobLength (signedBlobs (Raw d) (bl @ [emptyCMS]))"
      unfolding sb_def by (simp only: superblob_layout length_sb_layout superblobLength_sort)
    show "length sb < 2 ^ 32" unfolding len by (rule fit)
    show "12 \<le> length sb" unfolding len by (simp add: superblobLength_def)
  qed
  have off64: "off < 2 ^ 64" using off(2) inv(1,2) by (simp add: maxFileSize_def)
  have sb64: "length sb < 2 ^ 64" using sblen(2) by simp
  have foot: "?e = dm_encode L (signedFooter ?h off (length sb))" by (simp add: clen off(3))
  have law: "length ?e = dm_size L" "take 4 ?e = take 4 b" "dm_decode L ?e = signedFooter ?h off (length sb)"
    unfolding foot by (rule dmg_layout_signed [OF L blen off64 sb64])+
  note elen = law(1) [unfolded clen]
  have total: "length out = off + length sb + dm_size L" by (simp add: out_def clen elen)
  have tail: "drop (length out - dm_size L) out = ?e" by (simp add: out_def clen elen)
  have size4: "4 \<le> dm_size L" using L by (simp add: dmg_layout_ok_def)
  have dmg: "isDMG (dm_size L) out = Inr True"
  proof -
    have "be32 out 0 = be32 data 0" using off(1,2) clen by (simp add: out_def be32_def slice_def off(4))
    moreover have "take 4 (drop (length out - dm_size L) out) = take 4 (drop (length data - dm_size L) data)" using law(2) tail b by simp
    ultimately show ?thesis using inv(1,3) size4 total by (simp add: isDMG_iff)
  qed
  have "slice out off (length sb) = sb" by (simp add: out_def slice_def clen)
  moreover have "range_source (subRange (memoryRange out) off) (slice out off (length sb))"
    using total by (intro subRange_source [OF mem.range_source_axioms]) simp
  ultimately have read: "range_source (subRange (memoryRange out) off) (superblob MagicSignature (signedBlobs (Raw d) (bl @ [emptyCMS])))"
    by (simp add: sb_def)
  have sig: "parseSignatureRange H (length sb) (subRange (memoryRange out) off) True = Inr ?sig"
    using signedBlobs_parse_range [OF read _ comps] d unfolding sblen(1) by (simp add: signed_disk_def)
  let ?parse = "\<lambda>off n. rbind (parseSignatureRange H n (subRange (memoryRange out) off) True) (\<lambda>sig. Inr (signatureState sig, sig))"
  have found: "dmgSignature (signedFooter ?h off (length sb)) (length out - dm_size L) ?parse = Inr (off, Some (signatureState ?sig, ?sig))"
    using off(1) sblen(3) sig total by (auto simp: dmgSignature_def Let_def rangeOK_iff signatureState_def)
  have "parseDMGStructure L (length out) ?e ?parse =
      Inr (\<lparr>dg_footer = dg_footer m, dg_content = [], dg_signature = None, dg_signed = True, dg_priorFlags = Flags d\<rparr>, Some ?sig)"
  proof -
    have "\<not> length out < dm_size L + 8" using total off(1) by simp
    then show ?thesis
      unfolding parseDMGStructure_def law(3) Let_def
      using inv(4) off(3,5) found by (simp add: signedFooter_fields signatureState_def)
  qed
  then have range: "parseDMGRange H L (length out) ?e (memoryRange out) =
      Inr \<lparr>dg_footer = dg_footer m, dg_content = [], dg_signature = Some ?sig, dg_signed = True, dg_priorFlags = Flags d\<rparr>"
    by (simp add: parseDMGRange_def)
  have big: "\<not> (length out < dm_size L + 8 \<or> length out > maxFileSize)" using total off(1) fits by simp
  have "slice_at out 0 off = Inr (dg_content m)" using total by (simp add: slice_def out_def clen)
  then show ?thesis
    unfolding parseDMG_def if_not_P [OF big] dmg tail range rbind_Inr by (simp add: off(3))
qed

section \<open>The signed image verifies\<close>

text \<open>The slots of the directory, read back from the components and the trailer.\<close>

lemma disk_payload:
  fixes sig :: Signature
  assumes comps: "dmgComponents tools opts = Inr (special, execFlags, bl)" "signable H opts"
    and v: "vo_InfoPlist vopts = []" "vo_Resources vopts = []" and t: "trailer \<noteq> []"
    and slot: "1 \<le> slot" "slot \<le> 7" and sig: "Blobs sig = sort_key Slot (signedBlobs cd (bl @ [emptyCMS]))"
  shows "(slotPayload vopts trailer sig slot = [] \<and> slot \<notin> fst ` set (dmgSpecials bl trailer)) \<or>
    (slotPayload vopts trailer sig slot \<noteq> [] \<and> (slot, slotPayload vopts trailer sig slot) \<in> set (dmgSpecials bl trailer))"
proof -
  note c = dmgComponents_ok [OF comps]
  have slots: "Slot ` set bl \<subseteq> {SlotRequirements, SlotEntitlements, SlotDEREntitlements}" using dmgComponents_cases [OF comps(1)] by auto
  consider "slot = SlotInfo \<or> slot = SlotResources" | "slot = SlotRepSpecific"
    | "slot \<noteq> SlotInfo" "slot \<noteq> SlotResources" "slot \<noteq> SlotRepSpecific" by blast
  then show ?thesis
  proof cases
    case 1
    then show ?thesis using v slots by (auto simp: slotPayload_def dmgSpecials_def slot_defs)
  next
    case 2
    then show ?thesis using t by (simp add: slotPayload_def dmgSpecials_def slot_defs)
  next
    case 3
    then have p: "slotPayload vopts trailer sig slot = find_blob (sort_key Slot (signedBlobs cd (bl @ [emptyCMS]))) slot"
      using sig by (simp add: slotPayload_def)
    show ?thesis
    proof (cases "\<exists>b \<in> set bl. Slot b = slot")
      case True
      then obtain b where b: "b \<in> set bl" "Slot b = slot" by blast
      then have "slotPayload vopts trailer sig slot = Data b" unfolding p using find_signed_blob(1) [OF c(1), of b] by simp
      with b c(2) show ?thesis by (force simp: dmgSpecials_def)
    next
      case False
      then have none: "slot \<notin> Slot ` set (bl @ [emptyCMS])" using slot(2) by (auto simp: emptyCMS_def SlotCMS_def)
      then have "slotPayload vopts trailer sig slot = []" unfolding p using find_signed_blob(2) [OF c(1) none] slot(1) by simp
      with none 3(3) show ?thesis by (auto simp: dmgSpecials_def)
    qed
  qed
qed

lemma disk_components:
  fixes sig :: Signature
  assumes comps: "dmgComponents tools opts = Inr (special, execFlags, bl)" "signable H opts"
    and reqs: "so_Requirements opts = [] \<or> set_wf (so_Requirements opts)" and sig: "Blobs sig = sort_key Slot (signedBlobs cd (bl @ [emptyCMS]))"
  shows "set_wf (find_blob (Blobs sig) SlotRequirements)" "length (find_blob (Blobs sig) SlotCMS) = 8"
proof -
  let ?r = "\<lparr>Slot = SlotRequirements, Magic = 0,
    Data = if so_Requirements opts = [] then superblob MagicRequirements [] else so_Requirements opts\<rparr>"
  have "?r \<in> set (bl @ [emptyCMS])" "emptyCMS \<in> set (bl @ [emptyCMS])" using dmgComponents_cases [OF comps(1)] by auto
  from this [THEN find_signed_blob(1) [OF dmgComponents_ok(1) [OF comps], of _ cd]] reqs empty_set_wf sig
  show "set_wf (find_blob (Blobs sig) SlotRequirements)" "length (find_blob (Blobs sig) SlotCMS) = 8"
    by (auto simp: emptyCMS_def blob_def)
qed

lemma signed_disk_holds:
  fixes sig :: Signature
  assumes img: "signed_disk H opts bl trailer cs d" and comps: "dmgComponents tools opts = Inr (special, execFlags, bl)" "signable H opts"
    and v: "vo_InfoPlist vopts = []" "vo_Resources vopts = []" and reqs: "so_Requirements opts = [] \<or> set_wf (so_Requirements opts)"
    and t: "trailer \<noteq> []" and a: "ar_Offset a = 0" "ar_SignatureOffset a = length cs"
    and sig: "Blobs sig = sort_key Slot (signedBlobs (Raw d) (bl @ [emptyCMS]))"
  shows "directory_holds H vopts (cs @ rest) trailer a sig [] d"
proof -
  have H: "hash_lib_ok H" using comps(2) by (simp add: signable_def)
  have d: "CodeLimit d = length cs" "HashType d = 2" "HashSize d = 32" "Flags d = (so_Flags opts OR FlagAdhoc) mod 2 ^ 32" "0 < pageSize d"
      "CodeSlots d = (length cs + pageSize d - 1) div pageSize d" "6 \<le> SpecialSlots d" "SpecialSlots d \<le> 7"
      "slice (Raw d) (HashOffset d) (32 * CodeSlots d) = pageDigests H (pageSize d) cs"
      "\<forall>(slot, data) \<in> set (dmgSpecials bl trailer). slice (Raw d) (HashOffset d - slot * 32) 32 = sha256 H data"
      "\<forall>slot. 1 \<le> slot \<and> slot \<le> SpecialSlots d \<and> slot \<notin> fst ` set (dmgSpecials bl trailer) \<longrightarrow>
        slice (Raw d) (HashOffset d - slot * 32) 32 = replicate 32 0"
    using img unfolding signed_disk_def by blast+
  have page: "page_bound H (cs @ rest) a d i" if "i < CodeSlots d" for i
    using d(5,6,9) that by (intro digests_bind_pages [OF H d(2,3,1)]) (simp_all add: a)
  have slot: "slot_bound H vopts trailer sig d slot" if s: "1 \<le> slot" "slot \<le> SpecialSlots d" for slot
  proof -
    from s d(8) have "slot \<le> 7" by simp
    from disk_payload [OF comps v t s(1) this sig] d(10,11) s show ?thesis
      by (auto simp: slot_bound_def Let_def d(2,3) digest_def)
  qed
  have "(so_Flags opts OR FlagAdhoc) mod 2 ^ 32 AND FlagAdhoc \<noteq> 0" by (rule adhoc_flag)
  then show ?thesis
    using page slot d(1,4-7) a(2) disk_components(1) [OF comps reqs sig]
    by (simp add: directory_holds_def SlotRepSpecific_def)
qed

text \<open>The options a disk image accepts, without requirement checks beside the signature's own.\<close>

definition disk_options :: "VerifyOptions \<Rightarrow> bool" where
  "disk_options vopts \<longleftrightarrow> vo_InfoPlist vopts = [] \<and> vo_Resources vopts = [] \<and> vo_Architecture vopts \<in> {[], str ''dmg''} \<and>
     vo_Requirement vopts = [] \<and> \<not> vo_CheckDesignatedRequirement vopts \<and> verifyOptionErrors vopts True = Inr ()"

lemma disk_payloads_fit:
  fixes sig :: Signature
  assumes "vo_InfoPlist vopts = []" "vo_Resources vopts = []" "int (length trailer) \<le> MaxInt64"
    "Blobs sig = sort_key Slot bs" "superblobLength bs < 2 ^ 32"
  shows "payloads_fit vopts trailer sig"
proof -
  have "int (length (find_blob (Blobs sig) slot)) \<le> MaxInt64" for slot
    using find_blob_cases [of "Blobs sig" slot]
  proof
    assume "\<exists>b \<in> set (Blobs sig). find_blob (Blobs sig) slot = Data b"
    then obtain b where "b \<in> set bs" "find_blob (Blobs sig) slot = Data b" by (auto simp: assms(4))
    with component_length [of b bs] assms(5) show ?thesis by (simp add: MaxInt64_def)
  qed (simp add: MaxInt64_def)
  with assms(1-3) show ?thesis by (simp add: payloads_fit_def slotPayload_def MaxInt64_def)
qed

lemma parseDMG_content:
  assumes m: "parseDMG H L data = Inr m"
  defines "b \<equiv> drop (length data - dm_size L) data"
  shows "dg_footer m = signedFooter (dm_decode L b) (length (dg_content m)) 0" "length b = dm_size L"
    "8 \<le> length (dg_content m)" "length (dg_content m) < 2 ^ 62"
    "digests_content H (\<lambda>off n. rbind (slice_at (dg_content m) off n) (digestContext H 2)) (dg_content m)"
proof -
  note inv = parseDMG_inv [OF m, folded b_def]
  from inv(5) obtain off where off: "8 \<le> off" "off \<le> length data - dm_size L" "dg_footer m = signedFooter (dm_decode L b) off 0"
      "dg_content m = take off data" by blast
  have clen: "length (dg_content m) = off" using off(2,4) by simp
  show "dg_footer m = signedFooter (dm_decode L b) (length (dg_content m)) 0" by (simp only: clen off(3))
  show "length b = dm_size L" using inv(1) by (simp add: b_def)
  show cs: "8 \<le> length (dg_content m)" "length (dg_content m) < 2 ^ 62"
    using clen off(1,2) inv(2) by (simp_all add: maxFileSize_def)
  show "digests_content H (\<lambda>off n. rbind (slice_at (dg_content m) off n) (digestContext H 2)) (dg_content m)"
    unfolding digests_content_def
  proof (intro allI impI)
    fix at n assume fits: "at + n \<le> length (dg_content m)"
    then have "int (length (slice (dg_content m) at n)) \<le> MaxInt64" using cs(2) by (simp add: MaxInt64_def)
    with fits show "rbind (slice_at (dg_content m) at n) (digestContext H 2) = Inr (sha256 H (slice (dg_content m) at n))"
      by (simp add: digestContext_content)
  qed
qed

text \<open>What the signer of an image in memory returns.\<close>

lemma signDMG_content:
  assumes run: "signDMG H tools data opts False = Inr out" and ok: "signable H opts" and L: "dmg_layout_ok (dmgLayout tools)"
  shows "\<exists>m d bl special execFlags. parseDMG H (dmgLayout tools) data = Inr m \<and> dmgComponents tools opts = Inr (special, execFlags, bl) \<and>
    signed_disk H opts bl (dmgTrailer (dmgLayout tools) m) (dg_content m) d \<and> length out \<le> maxFileSize \<and>
    (let sb = superblob MagicSignature (signedBlobs (Raw d) (bl @ [emptyCMS])) in
     out = dg_content m @ sb @ dm_encode (dmgLayout tools) (signedFooter (dg_footer m) (length (dg_content m)) (length sb)))"
proof -
  let ?L = "dmgLayout tools"
  let ?pd = "\<lambda>m off n. rbind (slice_at (dg_content m) off n) (digestContext H 2)"
  from run obtain m src tail where m: "parseDMG H ?L data = Inr m"
      and src: "signDMGTailSource H tools m opts False (?pd m) = Inr src" "materializeOutput src = Inr tail"
      and room: "\<not> int (length (dg_content m)) > int maxFileSize - int (length tail)" and out: "out = dg_content m @ tail"
    by (auto simp: signDMG_def signDMGTail_def guard_eq_Inr rbind_eq_Inr)
  note c = parseDMG_content [OF m]
  from signDMGTailSource_content [OF ok L c src(1)] obtain d bl special execFlags where
      d: "dmgComponents tools opts = Inr (special, execFlags, bl)" "signed_disk H opts bl (dmgTrailer ?L m) (dg_content m) d"
      "let sb = superblob MagicSignature (signedBlobs (Raw d) (bl @ [emptyCMS])) in
       delivers src (sb @ dm_encode ?L (signedFooter (dg_footer m) (length (dg_content m)) (length sb)))" by auto
  let ?sb = "superblob MagicSignature (signedBlobs (Raw d) (bl @ [emptyCMS]))"
  let ?tail = "?sb @ dm_encode ?L (signedFooter (dg_footer m) (length (dg_content m)) (length ?sb))"
  have del: "delivers src ?tail" using d(3) by (simp only: Let_def)
  have "srcSize src = int (length ?tail)" using delivers_range [OF del] by blast
  with src(2) have "length ?tail \<le> maxFileSize" by (auto simp: materializeOutput_def guard_eq_Inr)
  with materialize_content [OF del] src(2) have tail: "tail = ?tail" by simp
  have "length out \<le> maxFileSize" using room out by simp
  with m d(1,2) out tail show ?thesis unfolding Let_def by blast
qed

text \<open>Signing succeeds whenever the parameters are in range and the SuperBlob fits 32 bits.\<close>

lemma signDMGTailSource_total:
  assumes ok: "signable H opts" "so_InfoPlist opts = []" "so_Resources opts = []" and L: "dmg_layout_ok (dmgLayout tools)"
    and unsigned: "dg_signature m = None \<and> \<not> dg_signed m \<or> so_Force opts"
    and m: "dg_footer m = signedFooter (dm_decode (dmgLayout tools) b) (length cs) 0" "length b = dm_size (dmgLayout tools)"
    and cs: "8 \<le> length cs" "length cs < 2 ^ 62" and pd: "digests_content H pd cs"
    and pages: "dmgPages opts (length cs) = Inr (pg, n)" and comps: "dmgComponents tools opts = Inr (special, execFlags, bl)"
    and header: "dmgHeader opts (length cs) = (header, vers)" and sz: "hashOffset opts header special + n * 32 < 2 ^ 32"
    and small: "superblobLength (\<lparr>Slot = 0, Magic = 0, Data = replicate (hashOffset opts header special + n * 32) 0\<rparr> # bl @ [emptyCMS]) < 2 ^ 32"
  shows "\<exists>out tail. signDMGTailSource H tools m opts False pd = Inr out \<and> delivers out tail \<and>
    length tail = superblobLength (\<lparr>Slot = 0, Magic = 0, Data = replicate (hashOffset opts header special + n * 32) 0\<rparr> # bl @ [emptyCMS]) +
      dm_size (dmgLayout tools)"
proof -
  let ?L = "dmgLayout tools" and ?t = "dmgTrailer (dmgLayout tools) m" and ?hashOff = "hashOffset opts header special"
  let ?ws = "dmgWrites opts header vers special execFlags n (length cs) (?hashOff + n * 32)"
  have noid: "\<not> so_Identity opts" and H: "hash_lib_ok H" "0 \<notin> set (so_Identifier opts)" "0 \<notin> set (so_teamID opts)"
    using ok(1) by (simp_all add: signable_def)
  have len: "ft_CodeSignatureOffset (dg_footer m) = length cs" using m(1) by simp
  have size: "dm_size ?L \<le> 2 ^ 16" using L by (simp add: dmg_layout_ok_def)
  have cs64: "length cs < 2 ^ 64" using cs(2) by simp
  have footer: "length (dm_encode ?L (signedFooter (dg_footer m) (length cs) k)) = dm_size ?L" if "k < 2 ^ 64" for k
    using dmg_layout_signed(1) [OF L m(2) cs64 that] by (simp add: m(1))
  have "length ?t = dm_size ?L" using footer [of 0] by (simp add: dmgTrailer_def m(1))
  then have fit: "specials_ok special (dmgSpecials bl ?t)" using size by (intro dmgSpecials_fit [OF comps ok(1) small]) simp
  have pos: "0 < length cs" using cs(1) by linarith
  from dmg_directory_signed [OF ok(1) pages header comps pos cs64 sz fit small] obtain d where
      d: "Raw d = cl_bytes H (dmg_layout_of H opts header vers special execFlags (dmgSpecials bl ?t) pg cs)" "signed_disk H opts bl ?t cs d"
    by blast
  have cd: "dmgDirectory H opts pg n (length cs) ?ws header ?hashOff (?hashOff + n * 32) (dmgSpecials bl ?t) pd = Inr (Raw d)"
    unfolding d(1) by (rule dmgDirectory_content [OF H(1) pages header pos cs64 fit H(2,3) sz pd])
  have cdlen: "length (Raw d) = ?hashOff + n * 32"
    using dmg_layout_of_ok(1,3) [OF H(1) pages header pos cs64 fit H(2,3) sz, of execFlags] length_cl_bytes unfolding d(1) by fastforce
  let ?sb = "superblob MagicSignature (signedBlobs (Raw d) (bl @ [emptyCMS]))"
  have cok: "components_ok (signedBlobs (Raw d) (bl @ [emptyCMS]))" using d(2) by (simp add: signed_disk_def)
  from finishSignature_content [OF noid cok, of tools] noid obtain sig where
      sig: "superblobOutput MagicSignature (\<lparr>secSlot = SlotDirectory, secData = sectionOutput (Raw d)\<rparr> #
        map (\<lambda>b. \<lparr>secSlot = Slot b, secData = byteOutput (Data b)\<rparr>) (bl @ [emptyCMS])) = Inr sig" "delivers sig ?sb"
    by (auto simp: finishSignature_def)
  have sblen: "length ?sb = superblobLength (\<lparr>Slot = 0, Magic = 0, Data = replicate (?hashOff + n * 32) 0\<rparr> # bl @ [emptyCMS])"
    by (simp only: superblob_layout length_sb_layout superblobLength_sort) (simp add: superblobLength_def signedBlobs_def cdlen comp_def)
  have room: "int (length ?sb) + int (dm_size ?L) \<le> MaxInt64" using small size unfolding sblen by (simp add: MaxInt64_def)
  have nsig: "nat (srcSize sig) = length ?sb" using delivers_range [OF sig(2)] by simp
  let ?e = "dm_encode ?L (signedFooter (dg_footer m) (length cs) (length ?sb))"
  have elen: "length ?e = dm_size ?L" using small unfolding sblen by (intro footer) simp
  have e: "delivers (byteOutput ?e) ?e" using size by (intro byteOutput_delivers) (simp add: MaxInt64_def elen)
  from append_plan_ok [OF emptyPlan_content sig(2)] room obtain p1 where p1: "append_plan emptyPlan sig = Inr p1" by auto
  from append_plan_content [OF emptyPlan_content _ sig(2) p1] delivers_range [OF sig(2)] have c1: "plan_content p1 ?sb" by simp
  from append_plan_ok [OF c1 e] room elen obtain p2 where p2: "append_plan p1 (byteOutput ?e) = Inr p2" by auto
  from append_plan_content [OF c1 _ e p2] have c2: "plan_content p2 (?sb @ ?e)" by (simp add: byteOutput_def)
  have "signDMGTailSource H tools m opts False pd = Inr (planOutput p2)"
    using ok(2,3) unsigned noid sz cd sig(1) p1 p2
    unfolding signDMGTailSource_def len
    by (auto simp: pages comps header dmgSpecials_def emptyCMS_def nsig Let_def)
  then show ?thesis using plan_delivers [OF c2] sblen elen by fastforce
qed

lemma signDMG_total:
  assumes ok: "signable H opts" "so_InfoPlist opts = []" "so_Resources opts = []" and L: "dmg_layout_ok (dmgLayout tools)"
    and m: "parseDMG H (dmgLayout tools) data = Inr m" and unsigned: "dg_signature m = None \<and> \<not> dg_signed m \<or> so_Force opts"
    and pages: "dmgPages opts (length (dg_content m)) = Inr (pg, n)" and comps: "dmgComponents tools opts = Inr (special, execFlags, bl)"
    and header: "dmgHeader opts (length (dg_content m)) = (header, vers)"
    and room: "length (dg_content m) + superblobLength (\<lparr>Slot = 0, Magic = 0,
      Data = replicate (hashOffset opts header special + n * 32) 0\<rparr> # bl @ [emptyCMS]) + dm_size (dmgLayout tools) \<le> maxFileSize"
  shows "\<exists>out. signDMG H tools data opts False = Inr out"
proof -
  let ?pd = "\<lambda>off n. rbind (slice_at (dg_content m) off n) (digestContext H 2)"
  note c = parseDMG_content [OF m]
  have small: "superblobLength (\<lparr>Slot = 0, Magic = 0, Data = replicate (hashOffset opts header special + n * 32) 0\<rparr> # bl @ [emptyCMS]) < 2 ^ 32"
    using room by (simp add: maxFileSize_def)
  then have sz: "hashOffset opts header special + n * 32 < 2 ^ 32" by (simp add: superblobLength_def)
  from signDMGTailSource_total [OF ok L unsigned c(1) c(2) c(3,4) c(5) pages comps header sz small] obtain src tail where
      src: "signDMGTailSource H tools m opts False ?pd = Inr src" "delivers src tail"
      "length tail = superblobLength (\<lparr>Slot = 0, Magic = 0, Data = replicate (hashOffset opts header special + n * 32) 0\<rparr> # bl @ [emptyCMS]) +
        dm_size (dmgLayout tools)" by blast
  have "materializeOutput src = Inr tail" using room src(3) by (intro materialize_content [OF src(2)]) simp
  then show ?thesis using ok(2,3) m src(1) room src(3) by (simp add: signDMG_def signDMGTail_def)
qed

text \<open>Verification of an image of one accepted directory without a signer.\<close>

lemma VerifyBytes_disk:
  assumes dmg: "isDMG (dm_size (vt_dmgLayout T)) out = Inr True" and parse: "parseDMG (vt_hash T) (vt_dmgLayout T) out = Inr m"
    and sig: "dg_signature m = Some sig" "Directories sig = [d]" "length (find_blob (Blobs sig) SlotCMS) \<le> 8" and v: "disk_options vopts"
    and accepted: "\<And>a. ar_Offset a = 0 \<Longrightarrow> ar_SignatureOffset a = ft_CodeSignatureOffset (dg_footer m) \<Longrightarrow>
      verifyDirectory (vt_hash T) vopts (memoryDigest (vt_hash T) out) (dmgTrailer (vt_dmgLayout T) m) a sig [] d = Inr ()"
  shows "VerifyBytes T vopts out =
    (Some ((inspectDMGImage (vt_dmgLayout T) m (length out))\<lparr>rp_ResourcesIgnored := vo_IgnoreResources vopts, rp_Valid := True,
       rp_verifiedArchitecture := vo_Architecture vopts\<rparr>), None)"
proof -
  let ?r = "(inspectDMGImage (vt_dmgLayout T) m (length out))\<lparr>rp_ResourcesIgnored := vo_IgnoreResources vopts\<rparr>"
  let ?pd = "memoryDigest (vt_hash T) out"
  have inspect: "InspectBytes T out = Inr (inspectDMGImage (vt_dmgLayout T) m (length out))"
    by (simp add: InspectBytes_def dmg inspectDMG_def parse)
  obtain a where archs: "rp_Architectures ?r = [a]" "ar_Signature a = Some sig" "ar_Offset a = 0" "ar_chain a = []" "ar_Name a = str ''dmg''"
      "ar_SignatureOffset a = ft_CodeSignatureOffset (dg_footer m)" "rp_repSpecific ?r = dmgTrailer (vt_dmgLayout T) m"
    using sig(1) by (auto simp: inspectDMGImage_def)
  have signer: "verifySigner T vopts sig = Inr ([], [])" using sig(3) by (simp add: verifySigner_def)
  have "verifyArchitecture T vopts ?pd (rp_repSpecific ?r) a = Inr []"
    unfolding verifyArchitecture_def archs(2,7) using accepted [OF archs(3,6)] signer sig(2) by simp
  moreover have "verificationArchitectures ?r = [0]"
    unfolding verificationArchitectures_def selectArchitecture_def archs(1) by (simp add: Let_def)
  moreover have "a\<lparr>ar_chain := []\<rparr> = a" using archs(4) by simp
  moreover have "?r\<lparr>rp_Architectures := [a]\<rparr> = ?r" using archs(1) by simp
  ultimately have loop: "verifyLoop T vopts ?pd (verificationArchitectures ?r) ?r [] False = (?r, str ''dmg'', True, None)"
    using archs(1,5) v by (auto simp: disk_options_def Let_def)
  have policies: "verifyPolicies T vopts True (verifyStrictLayout (dm_size (vt_dmgLayout T)) out) = Inr ()"
    by (simp add: verifyPolicies_def verifyStrictLayout_def dmg)
  have "VerifyBytes T vopts out =
      verifyInput T vopts True (Inr (inspectDMGImage (vt_dmgLayout T) m (length out))) ?pd (verifyStrictLayout (dm_size (vt_dmgLayout T)) out)"
    by (simp add: VerifyBytes_def dmg inspect memoryDigest_def [abs_def])
  also have "\<dots> = (Some (?r\<lparr>rp_Valid := True, rp_verifiedArchitecture := vo_Architecture vopts\<rparr>), None)"
    using v policies unfolding verifyInput_def by (simp add: loop disk_options_def finalChecks_def Let_def)
  finally show ?thesis .
qed

section \<open>Property\<close>

text \<open>Eight bytes of content and a trailer; its resource plist lies in the content.\<close>

definition tinyDisk :: "byte list" where
  "tinyDisk = replicate 8 7 @ str ''koly'' @ put32 4 @ put32 512 @ put32 1 @ replicate 40 0 @ put32 1 @ put32 1 @
     replicate 160 0 @ put64 1 @ replicate 280 0"

definition diskOptions :: SignOptions where
  "diskOptions = adhocOptions\<lparr>so_InfoPlist := []\<rparr>"

lemma tinyDisk_parses:
  "\<exists>m. parseDMG sampleHash udifLayout tinyDisk = Inr m \<and> dg_content m = take 8 tinyDisk \<and> length (dg_content m) = 8 \<and>
     dg_signature m = None \<and> \<not> dg_signed m"
proof -
  have "case parseDMG sampleHash udifLayout tinyDisk of
      Inr m \<Rightarrow> dg_content m = take 8 tinyDisk \<and> length (dg_content m) = 8 \<and> dg_signature m = None \<and> \<not> dg_signed m | Inl _ \<Rightarrow> False"
    by code_simp
  then show ?thesis by (auto split: sum.split_asm)
qed

lemma tinyDisk_signs: "\<exists>out. signDMG sampleHash noTools tinyDisk diskOptions False = Inr out"
proof -
  from tinyDisk_parses obtain m where m: "parseDMG sampleHash (dmgLayout noTools) tinyDisk = Inr m" "length (dg_content m) = 8"
      "dg_signature m = None \<and> \<not> dg_signed m" by (auto simp: noTools_def)
  let ?r = "\<lparr>Slot = SlotRequirements, Magic = 0, Data = superblob MagicRequirements []\<rparr>"
  have opts: "signable sampleHash diskOptions" "so_InfoPlist diskOptions = []" "so_Resources diskOptions = []"
    using adhoc_signable by (simp_all add: signable_def diskOptions_def adhocOptions_def)
  have L: "dmg_layout_ok (dmgLayout noTools)" by (simp add: noTools_def udifLayout_ok)
  have pages: "dmgPages diskOptions (length (dg_content m)) = Inr (8, 1)"
    and comps: "dmgComponents noTools diskOptions = Inr (6, 0, [?r])" and header: "dmgHeader diskOptions (length (dg_content m)) = (48, 0x20100)"
    using m(2) by (simp_all add: dmgPages_def dmgComponents_def dmgHeader_def diskOptions_def adhocOptions_def superblob_def)
  have unsigned: "dg_signature m = None \<and> \<not> dg_signed m \<or> so_Force diskOptions" using m(3) by blast
  show ?thesis
    by (rule signDMG_total [OF opts L m(1) unsigned pages comps header])
      (simp add: m(2) superblobLength_def hashOffset_def teamSize_def diskOptions_def adhocOptions_def emptyCMS_def blob_def superblob_def
        noTools_def udifLayout_def maxFileSize_def str_def)
qed

text \<open>
  C11. A disk image that is signed ad hoc verifies: when signDMG, without a signing identity and
  not as a dry run, returns an image, it has the content and the trailer (the signature fields
  apart) of the one it was given, it parses with one directory that covers the whole content
  under the requested identifier, and VerifyBytes accepts it as a valid disk image, the trailer
  bound by the directory. Supplied requirements have to be well-formed, the trailer's layout
  has to read back what it writes, and verification is given neither external payloads nor
  requirements to check nor the name of another architecture, in a combination of options it
  accepts for disk images.
\<close>

theorem signed_disk_image_verifies:
  assumes "signDMG H tools data opts False = Inr out" "signable H opts" "dmg_layout_ok (dmgLayout tools)"
    "so_Requirements opts = [] \<or> set_wf (so_Requirements opts)"
    "disk_options vopts" "vt_hash T = H" "vt_dmgLayout T = dmgLayout tools"
  shows "\<exists>m m' sig d r. parseDMG H (dmgLayout tools) data = Inr m \<and> parseDMG H (dmgLayout tools) out = Inr m' \<and>
    dg_content m' = dg_content m \<and> dg_footer m' = dg_footer m \<and> take (length (dg_content m)) out = dg_content m \<and>
    dg_signature m' = Some sig \<and> Directories sig = [d] \<and> Identifier d = so_Identifier opts \<and> TeamID d = so_teamID opts \<and>
    CodeLimit d = length (dg_content m) \<and> VerifyBytes T vopts out = (Some r, None) \<and> rp_Valid r"
proof -
  let ?L = "dmgLayout tools"
  from signDMG_content [OF assms(1-3)] obtain m d bl special execFlags where m: "parseDMG H ?L data = Inr m"
      and comps: "dmgComponents tools opts = Inr (special, execFlags, bl)" and d: "signed_disk H opts bl (dmgTrailer ?L m) (dg_content m) d"
      and len: "length out \<le> maxFileSize"
      and out: "let sb = superblob MagicSignature (signedBlobs (Raw d) (bl @ [emptyCMS])) in
        out = dg_content m @ sb @ dm_encode ?L (signedFooter (dg_footer m) (length (dg_content m)) (length sb))"
    by blast
  let ?sb = "superblob MagicSignature (signedBlobs (Raw d) (bl @ [emptyCMS]))"
  let ?sig = "\<lparr>Length = length ?sb, Blobs = sort_key Slot (signedBlobs (Raw d) (bl @ [emptyCMS])), Directories = [d]\<rparr>"
  let ?m = "m\<lparr>dg_signature := Some ?sig, dg_signed := True, dg_priorFlags := Flags d\<rparr>"
  let ?rest = "?sb @ dm_encode ?L (signedFooter (dg_footer m) (length (dg_content m)) (length ?sb))"
  have out: "out = dg_content m @ ?rest" using out by (simp only: Let_def)
  have nodir: "\<forall>b \<in> set (bl @ [emptyCMS]). \<not> isDirectorySlot (Slot b)" using dmgComponents_ok(2) [OF comps assms(2)] by blast
  have parse: "parseDMG H ?L out = Inr ?m"
    using signed_disk_parses [OF m assms(3) d refl nodir] len unfolding out by blast
  note inv = parseDMG_inv [OF m] and inv' = parseDMG_inv [OF parse]
  from inv(5) obtain off where off: "off \<le> length data - dm_size ?L"
      "dg_footer m = signedFooter (dm_decode ?L (drop (length data - dm_size ?L) data)) off 0" "dg_content m = take off data" by blast
  have clen: "ft_CodeSignatureOffset (dg_footer m) = length (dg_content m)" using off by simp
  have trailer: "length (dmgTrailer ?L m) = dm_size ?L"
  proof -
    have "off < 2 ^ 64" using off(1) inv(2) by (simp add: maxFileSize_def)
    then show ?thesis using inv(1) by (simp add: dmgTrailer_def off(2) dmg_layout_signed(1) [OF assms(3)])
  qed
  have size: "4 \<le> dm_size ?L" "dm_size ?L \<le> 2 ^ 16" using assms(3) by (simp_all add: dmg_layout_ok_def)
  have v: "vo_InfoPlist vopts = []" "vo_Resources vopts = []" using assms(5) by (simp_all add: disk_options_def)
  have ok: "components_ok (signedBlobs (Raw d) (bl @ [emptyCMS]))" "parseDirectory H (Raw d) = Inr d"
      "Identifier d = so_Identifier opts" "TeamID d = so_teamID opts" "CodeLimit d = length (dg_content m)"
    using d by (simp_all add: signed_disk_def)
  have wf: "directory_wf d" using parseDirectory_wf [OF ok(2)] by blast
  have fit: "payloads_fit vopts (dmgTrailer ?L m) ?sig"
  proof (rule disk_payloads_fit [OF v])
    show "int (length (dmgTrailer ?L m)) \<le> MaxInt64" using trailer size(2) by (simp add: MaxInt64_def)
    show "superblobLength (signedBlobs (Raw d) (bl @ [emptyCMS])) < 2 ^ 32" using ok(1) by (simp add: components_ok_def)
  qed simp
  have max: "int (length out) \<le> MaxInt64" using len by (simp add: MaxInt64_def maxFileSize_def)
  have accepted: "verifyDirectory H vopts (memoryDigest H out) (dmgTrailer ?L m) a ?sig [] d = Inr ()"
    if a: "ar_Offset a = 0" "ar_SignatureOffset a = ft_CodeSignatureOffset (dg_footer m)" for a
  proof -
    have at: "ar_SignatureOffset a = length (dg_content m)" using a(2) clen by simp
    have "dmgTrailer ?L m \<noteq> []" using trailer size(1) by auto
    from signed_disk_holds [OF d comps assms(2) v assms(4) this a(1) at, of ?sig ?rest]
    have "directory_holds H vopts out (dmgTrailer ?L m) a ?sig [] d" by (simp add: out)
    moreover have "ar_Offset a + ar_SignatureOffset a \<le> length out" using a(1) at out by simp
    ultimately show ?thesis using verifyDirectory_iff [OF wf _ max fit] by blast
  qed
  have trailers: "dmgTrailer ?L ?m = dmgTrailer ?L m" "ft_CodeSignatureOffset (dg_footer ?m) = ft_CodeSignatureOffset (dg_footer m)"
    by (simp_all add: dmgTrailer_def)
  have cms: "length (find_blob (Blobs ?sig) SlotCMS) \<le> 8"
    using disk_components(2) [OF comps assms(2,4), of ?sig "Raw d"] by simp
  have "VerifyBytes T vopts out = (Some ((inspectDMGImage ?L ?m (length out))\<lparr>rp_ResourcesIgnored := vo_IgnoreResources vopts, rp_Valid := True,
       rp_verifiedArchitecture := vo_Architecture vopts\<rparr>), None)"
    using VerifyBytes_disk [of T out ?m ?sig d vopts] inv'(3) parse cms assms(5) accepted unfolding assms(6,7) trailers by simp
  then show ?thesis
    using m parse ok(3-5) by (intro exI [of _ m] exI [of _ ?m] exI [of _ ?sig] exI [of _ d]) (simp add: out)
qed

theorem signed_disk_image_verifies_witness:
  "\<exists>out r. signDMG sampleHash noTools tinyDisk diskOptions False = Inr out \<and> take 8 out = take 8 tinyDisk \<and>
     VerifyBytes plainTools plainOptions out = (Some r, None) \<and> rp_Valid r"
proof -
  from tinyDisk_signs obtain out where out: "signDMG sampleHash noTools tinyDisk diskOptions False = Inr out" by blast
  have "signable sampleHash diskOptions" using adhoc_signable by (simp add: signable_def diskOptions_def)
  moreover have "dmg_layout_ok (dmgLayout noTools)" by (simp add: noTools_def udifLayout_ok)
  moreover have "set_wf (so_Requirements diskOptions)" using empty_set_wf by (simp add: diskOptions_def adhocOptions_def)
  moreover have "disk_options plainOptions"
    by (simp add: disk_options_def plainOptions_def verifyOptionErrors_def sidebandOptions_def)
  moreover have "vt_hash plainTools = sampleHash" "vt_dmgLayout plainTools = dmgLayout noTools"
    by (simp_all add: plainTools_def noTools_def)
  ultimately obtain m r where r: "parseDMG sampleHash (dmgLayout noTools) tinyDisk = Inr m" "take (length (dg_content m)) out = dg_content m"
      "VerifyBytes plainTools plainOptions out = (Some r, None)" "rp_Valid r"
    using signed_disk_image_verifies [OF out] by blast
  with tinyDisk_parses have "take 8 out = take 8 tinyDisk" by (auto simp: noTools_def)
  with out r(3,4) show ?thesis by blast
qed

end
