(* ===== verification/Binary_Plist.thy ===== *)
theory Binary_Plist
  imports Default_Requirement
begin

text \<open>
  pkg/plist/binary.go: the bounded decoder of binary property lists, object graphs whose expanded
  size, depth and string bytes are limited, with the errors of pkg/plist/plist.go.
\<close>

section \<open>Errors and limits\<close>

definition MaxSize :: nat where "MaxSize = 8 * 2 ^ 20"
definition MaxDepth :: nat where "MaxDepth = 32"
definition MaxValues :: nat where "MaxValues = 100000"

text \<open>A LimitError wraps an error of the format.\<close>

definition plistLimit :: "string \<Rightarrow> error" where
  "plistLimit reason = Wrapped reason (Malformed ''bundle plist limit'')"

definition plistRestriction :: "bool \<Rightarrow> string \<Rightarrow> error" where
  "plistRestriction native reason = (if native then Unsupported reason else Malformed reason)"

lemma outcome_errors [simp]: "outcome Q (Inl (plistLimit s))" "outcome Q (Inl (plistRestriction native s))"
  by (simp_all add: plistLimit_def plistRestriction_def outcome_def OutOfFuel_def)

section \<open>Values and scalars\<close>

text \<open>
  What the decoder returns. A real is its IEEE bits with their width, a date the bits of its
  seconds since 2001, a UID its bytes.
\<close>

datatype bvalue =
    BBool bool
  | BInt int
  | BUint nat
  | BReal nat nat
  | BDate nat
  | BData "byte list"
  | BString gostring
  | BArray "bvalue list"
  | BDict "(gostring \<times> bvalue) list"

definition plistUint :: "byte list \<Rightarrow> nat" where
  "plistUint b = be_nat b mod 2 ^ 64"

definition int64_of :: "nat \<Rightarrow> int" where
  "int64_of v = (if v < 2 ^ 63 then int v else int v - 2 ^ 64)"

text \<open>The exponent test: not a number, infinite, or at least \<open>2 ^ 62\<close> in magnitude.\<close>

definition dateOutside :: "nat \<Rightarrow> bool" where
  "dateOutside bits \<longleftrightarrow> bits div 2 ^ 52 mod 2 ^ 11 \<ge> 1023 + 62"

definition isSurrogate :: "nat \<Rightarrow> bool" where
  "isSurrogate u \<longleftrightarrow> 0xd800 \<le> u \<and> u < 0xe000"

fun surrogatesPaired :: "nat list \<Rightarrow> bool" where
  "surrogatesPaired [] = True"
| "surrogatesPaired [u] = (\<not> isSurrogate u)"
| "surrogatesPaired (u # w # us) =
    (if isSurrogate u then u < 0xdc00 \<and> 0xdc00 \<le> w \<and> w \<le> 0xdfff \<and> surrogatesPaired us else surrogatesPaired (w # us))"

text \<open>utf16.Decode, then the string of its runes.\<close>

fun utf16Decode :: "nat list \<Rightarrow> nat list" where
  "utf16Decode [] = []"
| "utf16Decode [u] = [if isSurrogate u then 0xFFFD else u]"
| "utf16Decode (u # w # us) =
    (if \<not> isSurrogate u then u # utf16Decode (w # us)
     else if u < 0xdc00 \<and> 0xdc00 \<le> w \<and> w < 0xe000 then ((u - 0xd800) * 1024 + (w - 0xdc00) + 0x10000) # utf16Decode us
     else 0xFFFD # utf16Decode (w # us))"

definition utf16String :: "nat list \<Rightarrow> gostring" where
  "utf16String u = concat (map encodeRune (utf16Decode u))"

section \<open>Objects\<close>

text \<open>The fixed fields of the decoder, and the counters of what was expanded.\<close>

record binaryPlist =
  bp_data :: "byte list"
  bp_offsets :: "nat list"
  bp_refSize :: nat
  bp_native :: bool

record expanded =
  ex_values :: nat
  ex_bytes :: nat

definition bpSpan :: "binaryPlist \<Rightarrow> nat \<Rightarrow> nat \<Rightarrow> byte list result" where
  "bpSpan p off n =
    (if off > length (bp_data p) \<or> n > length (bp_data p) - off then Inl (Malformed ''truncated binary bundle plist object'')
     else Inr (slice (bp_data p) off n))"

text \<open>The element count of an object and where its contents start.\<close>

definition bpLength :: "binaryPlist \<Rightarrow> nat \<Rightarrow> nat \<Rightarrow> (nat \<times> nat) result" where
  "bpLength p off tag =
    (if tag mod 16 \<noteq> 15 then Inr (tag mod 16, off) else
     rbind (bpSpan p off 1) (\<lambda>b. rbind (rd8 b 0) (\<lambda>marker.
     if marker div 16 \<noteq> 1 then Inl (Malformed ''binary bundle plist length integer'') else
     if marker mod 16 > 3 then Inl (plistRestriction (bp_native p) ''binary bundle plist length integer width'') else
     let sz = 2 ^ (marker mod 16) in
     rbind (bpSpan p (off + 1) sz) (\<lambda>b. Inr (plistUint b, off + 1 + sz)))))"

definition bpInteger :: "binaryPlist \<Rightarrow> nat \<Rightarrow> nat \<Rightarrow> bvalue result" where
  "bpInteger p off sz =
    (if sz > 16 then Inl (Malformed ''binary bundle plist integer size'') else
     rbind (bpSpan p off sz) (\<lambda>b.
     let v = plistUint b; hi = plistUint (take 8 b) in
     if sz = 16 \<and> hi = 0 then Inr (BUint v)
     else if sz = 16 \<and> (hi \<noteq> 2 ^ 64 - 1 \<or> v < 2 ^ 63) then Inl (Unsupported ''bundle plist integer exceeds 64 bits'')
     else if sz \<ge> 8 then Inr (BInt (int64_of v)) else Inr (BUint v)))"

definition bpReal :: "binaryPlist \<Rightarrow> nat \<Rightarrow> nat \<Rightarrow> nat \<Rightarrow> bvalue result" where
  "bpReal p off tag sz =
    (let kind = tag div 16 in
     if kind = 2 \<and> sz \<noteq> 4 \<and> sz \<noteq> 8 \<or> kind = 3 \<and> tag \<noteq> 0x33 then Inl (Malformed ''binary bundle plist real/date size'') else
     rbind (bpSpan p off sz) (\<lambda>b.
     if kind = 2 then Inr (BReal sz (plistUint b)) else
     if dateOutside (plistUint b) then Inl (plistRestriction (bp_native p) ''binary bundle plist date range'')
     else Inr (BDate (plistUint b))))"

definition bpUID :: "binaryPlist \<Rightarrow> nat \<Rightarrow> nat \<Rightarrow> bvalue result" where
  "bpUID p off tag =
    rbind (bpSpan p off (tag mod 16 + 1)) (\<lambda>b.
    if plistUint b > 2 ^ 32 - 1 then Inl (Malformed ''binary bundle plist UID range'') else Inr (BData b))"

text \<open>Data and strings of \<open>n\<close> units from \<open>start\<close>.\<close>

definition unitsOf :: "byte list \<Rightarrow> nat \<Rightarrow> nat list" where
  "unitsOf b n = map (\<lambda>i. be_nat (slice b (i * 2) 2)) [0..<n]"

definition bpText :: "binaryPlist \<Rightarrow> nat \<Rightarrow> nat \<Rightarrow> nat \<Rightarrow> expanded \<Rightarrow> (bvalue \<times> expanded) result" where
  "bpText p kind n start st =
    (let width = (if kind = 6 then 2 else 1); cost = (if kind = 6 then 3 else 1) in
     if n > (MaxSize - ex_bytes st) div cost then Inl (plistLimit ''expanded byte'') else
     let st = st\<lparr>ex_bytes := ex_bytes st + n * cost\<rparr> in
     rbind (bpSpan p start (n * width)) (\<lambda>b.
     if kind = 4 then Inr (BData b, st)
     else if kind = 5 then
       (if \<exists>c \<in> set b. unat c > 127 then Inl (Malformed ''binary bundle plist ASCII string'') else Inr (BString b, st))
     else if \<not> surrogatesPaired (unitsOf b n) then Inl (plistRestriction (bp_native p) ''binary bundle plist UTF-16 string'')
     else Inr (BString (utf16String (unitsOf b n)), st)))"

section \<open>Collections\<close>

type_synonym object_reader = "nat \<Rightarrow> expanded \<Rightarrow> (bvalue \<times> expanded) result"

text \<open>The references of a collection; \<open>get\<close> reads an object one level deeper.\<close>

definition refsOf :: "byte list \<Rightarrow> nat \<Rightarrow> nat \<Rightarrow> nat list" where
  "refsOf b refSize cnt = map (\<lambda>i. plistUint (slice b (i * refSize) refSize)) [0..<cnt]"

fun readObjects :: "object_reader \<Rightarrow> nat list \<Rightarrow> expanded \<Rightarrow> (bvalue list \<times> expanded) result" where
  "readObjects get [] st = Inr ([], st)"
| "readObjects get (r # rs) st =
    rbind (get r st) (\<lambda>(v, st). rbind (readObjects get rs st) (\<lambda>(vs, st). Inr (v # vs, st)))"

text \<open>Keys and values alternate; native decoding keeps the first of duplicate keys.\<close>

fun readEntries ::
  "object_reader \<Rightarrow> bool \<Rightarrow> (nat \<times> nat) list \<Rightarrow> (gostring \<times> bvalue) list \<Rightarrow> expanded
     \<Rightarrow> ((gostring \<times> bvalue) list \<times> expanded) result" where
  "readEntries get native [] m st = Inr (m, st)"
| "readEntries get native ((k, r) # rs) m st =
    rbind (get k st) (\<lambda>(key, st).
    case key of
      BString s \<Rightarrow>
        if s \<in> fst ` set m \<and> \<not> native then Inl (Malformed ''duplicate bundle plist key'') else
        rbind (get r st) (\<lambda>(v, st). readEntries get native rs (if s \<in> fst ` set m then m else m @ [(s, v)]) st)
    | _ \<Rightarrow> Inl (plistRestriction native ''binary bundle plist dictionary key is not a string''))"

definition bpCollection ::
  "binaryPlist \<Rightarrow> object_reader \<Rightarrow> nat \<Rightarrow> nat \<Rightarrow> nat \<Rightarrow> expanded \<Rightarrow> (bvalue \<times> expanded) result" where
  "bpCollection p get kind start n st =
    (if kind = 13 \<and> n > MaxValues div 2 then Inl (plistLimit ''dictionary size'') else
     let cnt = (if kind = 13 then n * 2 else n) in
     if cnt > MaxValues - ex_values st then Inl (plistLimit ''expanded value'') else
     let st = st\<lparr>ex_values := ex_values st + cnt\<rparr> in
     rbind (bpSpan p start (cnt * bp_refSize p)) (\<lambda>b.
     let refs = refsOf b (bp_refSize p) cnt in
     if kind = 10 then rbind (readObjects get refs st) (\<lambda>(vs, st). Inr (BArray vs, st))
     else rbind (readEntries get (bp_native p) (zip (take n refs) (drop n refs)) [] st) (\<lambda>(m, st). Inr (BDict m, st))))"

text \<open>
  Congruence: only the reader's results matter, so the depth bounds the recursion.
\<close>

lemma bpCollection_cong [fundef_cong]:
  "(\<And>r st. get r st = get' r st) \<Longrightarrow> bpCollection p get kind start n st = bpCollection p get' kind start n st"
  by (rule arg_cong [of get get' "\<lambda>g. bpCollection p g kind start n st"]) (intro ext)

text \<open>\<open>active\<close> are the offsets of the objects being read.\<close>

function bpObject :: "binaryPlist \<Rightarrow> nat list \<Rightarrow> nat \<Rightarrow> nat \<Rightarrow> expanded \<Rightarrow> (bvalue \<times> expanded) result" where
  "bpObject p active depth r st =
    (if depth > MaxDepth then Inl (plistLimit ''depth'') else
     if r \<ge> length (bp_offsets p) then Inl (Malformed ''binary bundle plist reference or depth'') else
     let off = bp_offsets p ! r in
     if off \<in> set active then Inl (Malformed ''cyclic binary bundle plist'') else
     if off \<ge> length (bp_data p) then Inl Panic else
     let tag = unat (bp_data p ! off); kind = tag div 16; sz = 2 ^ (tag mod 16) in
     if kind = 8 \<and> bp_native p then rbind (bpUID p (off + 1) tag) (\<lambda>v. Inr (v, st))
     else if kind = 0 \<and> (tag = 8 \<or> tag = 9) then Inr (BBool (tag = 9), st)
     else if kind = 1 then rbind (bpInteger p (off + 1) sz) (\<lambda>v. Inr (v, st))
     else if kind = 2 \<or> kind = 3 then rbind (bpReal p (off + 1) tag sz) (\<lambda>v. Inr (v, st))
     else if kind \<in> {4, 5, 6, 10, 13} then
       rbind (bpLength p (off + 1) tag) (\<lambda>(n, start).
       if kind = 10 \<or> kind = 13 then bpCollection p (\<lambda>r st. bpObject p (off # active) (depth + 1) r st) kind start n st
       else bpText p kind n start st)
     else Inl (Unsupported ''binary bundle plist object type''))"
  by pat_completeness auto
termination
  by (relation "measure (\<lambda>(_, _, depth, _, _). Suc MaxDepth - depth)") auto

declare bpObject.simps [simp del]

section \<open>The decoder\<close>

text \<open>The offset table: an offset into the header is another error than one past the table.\<close>

fun checkOffsets :: "bool \<Rightarrow> nat \<Rightarrow> nat \<Rightarrow> nat \<Rightarrow> nat list \<Rightarrow> unit result" where
  "checkOffsets native rootRef table i [] = Inr ()"
| "checkOffsets native rootRef table i (off # offs) =
    (if off < 8 \<and> i \<noteq> rootRef then Inl (plistRestriction native ''binary bundle plist unused header reference'') else
     if off < 8 \<or> off \<ge> table then Inl (Malformed ''binary bundle plist object offset'') else
     checkOffsets native rootRef table (Suc i) offs)"

text \<open>The decoder's fixed fields and the index of the root, from the trailer and the offset table.\<close>

definition plistTable :: "byte list \<Rightarrow> bool \<Rightarrow> (binaryPlist \<times> nat) result" where
  "plistTable data native =
    (if length data < 42 \<or> length data > MaxSize \<or> take 7 data \<noteq> str ''bplist0''
     then Inl (Malformed ''binary bundle plist header or size'') else
     let t = drop (length data - 32) data; fin = length data - 32 in
     rbind (rd8 t 6) (\<lambda>width. rbind (rd8 t 7) (\<lambda>refs.
     rbind (rd64 t 8) (\<lambda>n. rbind (rd64 t 16) (\<lambda>rootRef. rbind (rd64 t 24) (\<lambda>table.
     if n > MaxValues then Inl (plistLimit ''object count'') else
     if width > 8 \<or> refs > 8 then Inl (plistRestriction native ''binary bundle plist address width'') else
     if width < 1 \<or> refs < 1 \<or> n = 0 \<or> rootRef \<ge> n \<or> table < 9 \<or> table \<ge> fin \<or> n > (fin - table) div width \<or> n * width \<noteq> fin - table
     then Inl (Malformed ''binary bundle plist trailer'') else
     if refs < 8 \<and> n \<ge> 2 ^ (8 * refs) \<or> width < 8 \<and> table \<ge> 2 ^ (8 * width)
     then Inl (Malformed ''binary bundle plist address width'') else
     let offsets = map (\<lambda>i. plistUint (slice data (table + i * width) width)) [0..<n] in
     rbind (checkOffsets native rootRef table 0 offsets) (\<lambda>_.
     Inr (\<lparr>bp_data = take table data, bp_offsets = offsets, bp_refSize = refs, bp_native = native\<rparr>, rootRef))))))))"

definition decodeBinary :: "byte list \<Rightarrow> bool \<Rightarrow> bvalue result" where
  "decodeBinary data native =
    rbind (plistTable data native) (\<lambda>(p, rootRef).
    rbind (bpObject p [] 1 rootRef \<lparr>ex_values = 1, ex_bytes = 0\<rparr>) (\<lambda>(v, _). Inr v))"

definition decodeBinaryDictionary :: "byte list \<Rightarrow> (gostring \<times> bvalue) list result" where
  "decodeBinaryDictionary data =
    rbind (decodeBinary data False) (\<lambda>v.
    case v of BDict m \<Rightarrow> Inr m | _ \<Rightarrow> Inl (Malformed ''bundle plist must be a dictionary''))"

end
