(* ===== verification/Binary_Bounds.thy ===== *)
theory Binary_Bounds
  imports Binary_Plist
begin

text \<open>
  The binary property list decoder on untrusted input: it never panics, and what it expands stays
  within its limits.
\<close>

section \<open>Measures of a value\<close>

primrec vnodes :: "bvalue \<Rightarrow> nat" where
  "vnodes (BBool b) = 1"
| "vnodes (BInt i) = 1"
| "vnodes (BUint n) = 1"
| "vnodes (BReal s n) = 1"
| "vnodes (BDate n) = 1"
| "vnodes (BData b) = 1"
| "vnodes (BString s) = 1"
| "vnodes (BArray vs) = Suc (sum_list (map vnodes vs))"
| "vnodes (BDict m) = Suc (sum_list (map (\<lambda>e. Suc (snd e)) (map (map_prod (\<lambda>k. k) vnodes) m)))"

text \<open>Bytes of strings, keys and data.\<close>

primrec vbytes :: "bvalue \<Rightarrow> nat" where
  "vbytes (BBool b) = 0"
| "vbytes (BInt i) = 0"
| "vbytes (BUint n) = 0"
| "vbytes (BReal s n) = 0"
| "vbytes (BDate n) = 0"
| "vbytes (BData b) = length b"
| "vbytes (BString s) = length s"
| "vbytes (BArray vs) = sum_list (map vbytes vs)"
| "vbytes (BDict m) = sum_list (map (\<lambda>e. length (fst e) + snd e) (map (map_prod (\<lambda>k. k) vbytes) m))"

primrec vdepth :: "bvalue \<Rightarrow> nat" where
  "vdepth (BBool b) = 0"
| "vdepth (BInt i) = 0"
| "vdepth (BUint n) = 0"
| "vdepth (BReal s n) = 0"
| "vdepth (BDate n) = 0"
| "vdepth (BData b) = 0"
| "vdepth (BString s) = 0"
| "vdepth (BArray vs) = foldr max (map Suc (map vdepth vs)) 0"
| "vdepth (BDict m) = foldr max (map (\<lambda>e. Suc (snd e)) (map (map_prod (\<lambda>k. k) vdepth) m)) 0"

lemma vnodes_pos: "0 < vnodes v"
  by (cases v) auto

lemma foldr_max_le: "foldr max xs 0 \<le> n \<longleftrightarrow> (\<forall>x \<in> set xs. x \<le> (n :: nat))"
  by (induction xs) auto

section \<open>Scalars\<close>

lemma bpSpan_outcome: "outcome (\<lambda>b. length b = n) (bpSpan p off n)"
  by (simp add: bpSpan_def)

lemma bpLength_outcome: "outcome (\<lambda>_. True) (bpLength p off tag)"
proof -
  have "outcome (\<lambda>_. True) (rbind (bpSpan p off 1) (\<lambda>b. rbind (rd8 b 0) (\<lambda>marker.
     if marker div 16 \<noteq> 1 then Inl (Malformed ''binary bundle plist length integer'') else
     if marker mod 16 > 3 then Inl (plistRestriction (bp_native p) ''binary bundle plist length integer width'') else
     let sz = 2 ^ (marker mod 16) in
     rbind (bpSpan p (off + 1) sz) (\<lambda>b. Inr (plistUint b, off + 1 + sz)))))"
    by (rule outcome_rbind [OF bpSpan_outcome]) (auto simp: Let_def intro!: outcome_rbind [OF bpSpan_outcome])
  then show ?thesis by (simp add: bpLength_def)
qed

text \<open>A leaf: no children, and bytes only of a string within the count or of a UID.\<close>

definition leaf_value :: "nat \<Rightarrow> bvalue \<Rightarrow> bool" where
  "leaf_value n v \<longleftrightarrow> vnodes v = 1 \<and> vdepth v = 0 \<and> vbytes v \<le> n"

lemma scalar_outcome:
  "outcome (leaf_value 16) (bpInteger p off sz)" "outcome (leaf_value 16) (bpReal p off tag sz)" "outcome (leaf_value 16) (bpUID p off tag)"
  unfolding bpInteger_def bpReal_def bpUID_def Let_def
  by (auto intro!: outcome_rbind [OF bpSpan_outcome] simp: leaf_value_def)

lemma length_encodeRune: "length (encodeRune c) \<le> 4" "c < 0x10000 \<Longrightarrow> length (encodeRune c) \<le> 3"
  by (simp_all add: encodeRune_def)

lemma length_utf16String: "\<forall>u \<in> set us. u < 0x10000 \<Longrightarrow> length (utf16String us) \<le> 3 * length us"
proof (induction us rule: utf16Decode.induct)
  case (2 u)
  then show ?case using length_encodeRune(2) [of u] length_encodeRune(2) [of "0xFFFD"] by (simp add: utf16String_def)
next
  case (3 u w us)
  have two: "length (encodeRune ((u - 0xd800) * 1024 + (w - 0xdc00) + 0x10000)) \<le> 4" by (rule length_encodeRune(1))
  consider "\<not> isSurrogate u" | "isSurrogate u" "u < 0xdc00 \<and> 0xdc00 \<le> w \<and> w < 0xe000" | "isSurrogate u" "\<not> (u < 0xdc00 \<and> 0xdc00 \<le> w \<and> w < 0xe000)"
    by blast
  then show ?case
  proof cases
    case 1
    then show ?thesis using 3(1) 3(4) length_encodeRune(2) [of u] by (simp add: utf16String_def)
  next
    case 2
    then show ?thesis using 3(2) 3(4) two by (simp add: utf16String_def)
  next
    case c: 3
    have "utf16Decode (u # w # us) = 0xFFFD # utf16Decode (w # us)"
      by (simp only: utf16Decode.simps c(1) if_not_P [OF c(2)] not_True_eq_False if_False)
    moreover have "length (utf16String (w # us)) \<le> 3 * length (w # us)" by (rule 3(3)) (use c 3(4) in auto)
    ultimately show ?thesis using length_encodeRune(2) [of "0xFFFD"] by (simp add: utf16String_def)
  qed
qed (simp add: utf16String_def)

lemma unitsOf_less: "u \<in> set (unitsOf b n) \<Longrightarrow> u < 0x10000"
proof -
  assume "u \<in> set (unitsOf b n)"
  then obtain i where "u = be_nat (slice b (i * 2) 2)" by (auto simp: unitsOf_def)
  then have "u < 256 ^ length (slice b (i * 2) 2)" using be_nat_less [of "slice b (i * 2) 2"] by simp
  also have "\<dots> \<le> 256 ^ 2" by (intro power_increasing) (simp_all add: slice_def)
  finally show ?thesis by simp
qed

text \<open>What reading one object from counters \<open>st\<close> guarantees, at a depth.\<close>

definition object_result :: "nat \<Rightarrow> expanded \<Rightarrow> bvalue \<times> expanded \<Rightarrow> bool" where
  "object_result depth st r \<longleftrightarrow> (case r of (v, st') \<Rightarrow>
     ex_values st + vnodes v \<le> Suc (ex_values st') \<and> ex_values st' \<le> MaxValues \<and>
     ex_bytes st + vbytes v \<le> ex_bytes st' + 16 * vnodes v \<and> ex_bytes st \<le> ex_bytes st' \<and> ex_bytes st' \<le> MaxSize \<and>
     depth + vdepth v \<le> MaxDepth)"

definition within :: "expanded \<Rightarrow> bool" where
  "within st \<longleftrightarrow> ex_values st \<le> MaxValues \<and> ex_bytes st \<le> MaxSize"

definition get_ok :: "nat \<Rightarrow> object_reader \<Rightarrow> bool" where
  "get_ok depth get \<longleftrightarrow> (\<forall>r st. within st \<longrightarrow> outcome (object_result depth st) (get r st))"

lemma leaf_result: "leaf_value 16 v \<Longrightarrow> within st \<Longrightarrow> depth \<le> MaxDepth \<Longrightarrow> object_result depth st (v, st)"
  by (simp add: leaf_value_def object_result_def within_def)

text \<open>Text of \<open>n\<close> units of at most \<open>cost\<close> bytes, charged before it is read.\<close>

lemma text_result:
  assumes st: "within st" and depth: "depth \<le> MaxDepth" and cost: "\<not> n > (MaxSize - ex_bytes st) div cost"
    and v: "leaf_value (n * cost) v"
  shows "object_result depth st (v, st\<lparr>ex_bytes := ex_bytes st + n * cost\<rparr>)"
proof -
  have "n * cost \<le> (MaxSize - ex_bytes st) div cost * cost" using cost by (intro mult_right_mono) simp_all
  also have "\<dots> \<le> MaxSize - ex_bytes st" by (rule div_times_less_eq_dividend)
  finally have "n * cost \<le> MaxSize - ex_bytes st" .
  moreover have "ex_bytes st \<le> MaxSize" using st by (simp add: within_def)
  ultimately have "ex_bytes st + n * cost \<le> MaxSize" by linarith
  then show ?thesis using v st depth by (auto simp: leaf_value_def object_result_def within_def)
qed

lemma bpText_outcome:
  assumes st: "within st" and depth: "depth \<le> MaxDepth" and kind: "kind \<in> {4, 5, 6}"
  shows "outcome (object_result depth st) (bpText p kind n start st)"
proof -
  have wide: "leaf_value (n * 3) (BString (utf16String (unitsOf b n)))" for b
    using length_utf16String [of "unitsOf b n"] unitsOf_less [of _ b n] by (auto simp: leaf_value_def unitsOf_def)
  note result = text_result [OF st depth]
  consider "kind = 4" | "kind = 5" | "kind = 6" using kind by auto
  then show ?thesis
  proof cases
    case 1
    have "n \<le> MaxSize - ex_bytes st \<Longrightarrow> outcome (object_result depth st) (rbind (bpSpan p start n) (\<lambda>b. Inr (BData b, st\<lparr>ex_bytes := ex_bytes st + n\<rparr>)))"
      using result [where cost = 1 and n = n and v = "BData b" for b] by (intro outcome_rbind [OF bpSpan_outcome]) (simp add: leaf_value_def)
    with 1 show ?thesis by (simp add: bpText_def Let_def not_less)
  next
    case 2
    have "n \<le> MaxSize - ex_bytes st \<Longrightarrow> outcome (object_result depth st) (rbind (bpSpan p start n) (\<lambda>b.
        if \<exists>c \<in> set b. unat c > 127 then Inl (Malformed ''binary bundle plist ASCII string'') else Inr (BString b, st\<lparr>ex_bytes := ex_bytes st + n\<rparr>)))"
      using result [where cost = 1 and n = n and v = "BString b" for b] by (intro outcome_rbind [OF bpSpan_outcome]) (simp add: leaf_value_def)
    with 2 show ?thesis by (simp add: bpText_def Let_def not_less)
  next
    case 3
    have "n \<le> (MaxSize - ex_bytes st) div 3 \<Longrightarrow> outcome (object_result depth st) (rbind (bpSpan p start (n * 2)) (\<lambda>b.
        if \<not> surrogatesPaired (unitsOf b n) then Inl (plistRestriction (bp_native p) ''binary bundle plist UTF-16 string'')
        else Inr (BString (utf16String (unitsOf b n)), st\<lparr>ex_bytes := ex_bytes st + n * 3\<rparr>)))"
      using result [OF _ wide] by (intro outcome_rbind [OF bpSpan_outcome]) (simp add: not_less)
    with 3 show ?thesis by (simp add: bpText_def Let_def not_less)
  qed
qed

section \<open>Collections\<close>

text \<open>\<open>readObjects\<close> expands each reference by at least one value that the count already holds.\<close>

definition list_result :: "nat \<Rightarrow> nat \<Rightarrow> expanded \<Rightarrow> bvalue list \<times> expanded \<Rightarrow> bool" where
  "list_result depth cnt st r \<longleftrightarrow> (case r of (vs, st') \<Rightarrow>
     ex_values st + sum_list (map vnodes vs) \<le> ex_values st' + cnt \<and>
     ex_bytes st + sum_list (map vbytes vs) \<le> ex_bytes st' + 16 * sum_list (map vnodes vs) \<and> ex_bytes st \<le> ex_bytes st' \<and>
     within st' \<and> (\<forall>v \<in> set vs. depth + vdepth v \<le> MaxDepth))"

lemma object_result_within: "object_result depth st (v, st') \<Longrightarrow> within st'"
  by (simp add: object_result_def within_def)

lemma readObjects_outcome:
  assumes get: "get_ok depth get"
  shows "within st \<Longrightarrow> outcome (list_result depth (length rs) st) (readObjects get rs st)"
proof (induction rs arbitrary: st)
  case (Cons r rs)
  have "outcome (list_result depth (length (r # rs)) st)
      (rbind (get r st) (\<lambda>(v, st). rbind (readObjects get rs st) (\<lambda>(vs, st). Inr (v # vs, st))))"
  proof (rule outcome_rbind)
    show "outcome (object_result depth st) (get r st)" using get Cons.prems unfolding get_ok_def by blast
    fix x assume x: "object_result depth st x"
    obtain v s where v: "x = (v, s)" by (cases x)
    have "outcome (list_result depth (length rs) s) (readObjects get rs s)" using Cons.IH x v by (simp add: object_result_within)
    then have "outcome (list_result depth (length (r # rs)) st) (rbind (readObjects get rs s) (\<lambda>(vs, st). Inr (v # vs, st)))"
      by (rule outcome_rbind) (use x v in \<open>auto simp: list_result_def object_result_def within_def\<close>)
    then show "outcome (list_result depth (length (r # rs)) st)
        (case x of (v, st) \<Rightarrow> rbind (readObjects get rs st) (\<lambda>(vs, st). Inr (v # vs, st)))" by (simp add: v)
  qed
  then show ?case by simp
qed (simp add: list_result_def within_def)

text \<open>The entries gathered so far are \<open>m\<close>; a dropped duplicate only loosens the bounds.\<close>

definition enodes :: "(gostring \<times> bvalue) list \<Rightarrow> nat" where
  "enodes m = sum_list (map (\<lambda>e. Suc (vnodes (snd e))) m)"

definition ebytes :: "(gostring \<times> bvalue) list \<Rightarrow> nat" where
  "ebytes m = sum_list (map (\<lambda>e. length (fst e) + vbytes (snd e)) m)"

definition entries_result :: "nat \<Rightarrow> nat \<Rightarrow> expanded \<Rightarrow> (gostring \<times> bvalue) list \<Rightarrow> (gostring \<times> bvalue) list \<times> expanded \<Rightarrow> bool" where
  "entries_result depth cnt st m r \<longleftrightarrow> (case r of (m', st') \<Rightarrow>
     ex_values st + enodes m' \<le> ex_values st' + cnt + enodes m \<and>
     ex_bytes st + ebytes m' + 16 * enodes m \<le> ex_bytes st' + 16 * enodes m' + ebytes m \<and> ex_bytes st \<le> ex_bytes st' \<and>
     within st' \<and> distinct (map fst m') \<and> (\<forall>e \<in> set m'. depth + vdepth (snd e) \<le> MaxDepth))"

lemma enodes_snoc [simp]: "enodes [] = 0" "enodes (m @ [(k, v)]) = enodes m + Suc (vnodes v)"
  and ebytes_snoc [simp]: "ebytes [] = 0" "ebytes (m @ [(k, v)]) = ebytes m + length k + vbytes v"
  by (simp_all add: enodes_def ebytes_def)

lemma readEntries_outcome:
  assumes get: "get_ok depth get"
  shows "within st \<Longrightarrow> distinct (map fst m) \<Longrightarrow> \<forall>e \<in> set m. depth + vdepth (snd e) \<le> MaxDepth \<Longrightarrow>
    outcome (entries_result depth (2 * length rs) st m) (readEntries get native rs m st)"
proof (induction rs arbitrary: st m)
  case (Cons p rs)
  obtain k r where p: "p = (k, r)" by (cases p)
  let ?Q = "entries_result depth (2 * length (p # rs)) st m"
  have read: "outcome (object_result depth s) (get i s)" if "within s" for i s using get that unfolding get_ok_def by blast
  have "outcome ?Q (rbind (get k st) (\<lambda>(key, st).
    case key of
      BString s \<Rightarrow>
        if s \<in> fst ` set m \<and> \<not> native then Inl (Malformed ''duplicate bundle plist key'') else
        rbind (get r st) (\<lambda>(v, st). readEntries get native rs (if s \<in> fst ` set m then m else m @ [(s, v)]) st)
    | _ \<Rightarrow> Inl (plistRestriction native ''binary bundle plist dictionary key is not a string'')))"
  proof (rule outcome_rbind [OF read [OF Cons.prems(1)]])
    fix x assume x: "object_result depth st x"
    obtain key s1 where k1: "x = (key, s1)" by (cases x)
    have w1: "within s1" using x k1 by (simp add: object_result_within)
    have step: "outcome ?Q (rbind (get r s1) (\<lambda>(v, st). readEntries get native rs (if s \<in> fst ` set m then m else m @ [(s, v)]) st))"
      if key: "key = BString s" for s
    proof (rule outcome_rbind [OF read [OF w1]])
      fix y assume y: "object_result depth s1 y"
      obtain v s2 where v: "y = (v, s2)" by (cases y)
      let ?m = "if s \<in> fst ` set m then m else m @ [(s, v)]"
      have w2: "within s2" using y v by (simp add: object_result_within)
      have m: "distinct (map fst ?m)" "\<forall>e \<in> set ?m. depth + vdepth (snd e) \<le> MaxDepth"
        using Cons.prems(2,3) y v by (auto simp: object_result_def)
      have "outcome (entries_result depth (2 * length rs) s2 ?m) (readEntries get native rs ?m s2)"
        by (rule Cons.IH [OF w2 m])
      then have "outcome ?Q (readEntries get native rs ?m s2)"
        by (rule outcome_mono) (use x k1 key y v in \<open>auto simp: entries_result_def object_result_def split: if_splits\<close>)
      then show "outcome ?Q (case y of (v, st) \<Rightarrow> readEntries get native rs (if s \<in> fst ` set m then m else m @ [(s, v)]) st)"
        by (simp add: v)
    qed
    then show "outcome ?Q (case x of (key, st) \<Rightarrow> case key of
      BString s \<Rightarrow>
        if s \<in> fst ` set m \<and> \<not> native then Inl (Malformed ''duplicate bundle plist key'') else
        rbind (get r st) (\<lambda>(v, st). readEntries get native rs (if s \<in> fst ` set m then m else m @ [(s, v)]) st)
    | _ \<Rightarrow> Inl (plistRestriction native ''binary bundle plist dictionary key is not a string''))"
      using k1 by (cases key) simp_all
  qed
  then show ?case by (simp add: p)
qed (simp add: entries_result_def)

lemma dict_measures:
  "vnodes (BDict m) = Suc (enodes m)" "vbytes (BDict m) = ebytes m"
  "vdepth (BDict m) \<le> d \<longleftrightarrow> (\<forall>e \<in> set m. Suc (vdepth (snd e)) \<le> d)"
  by (simp_all add: enodes_def ebytes_def comp_def foldr_max_le)

lemma array_depth: "vdepth (BArray vs) \<le> d \<longleftrightarrow> (\<forall>v \<in> set vs. Suc (vdepth v) \<le> d)"
  by (simp add: foldr_max_le)

lemma array_result:
  assumes "list_result (Suc depth) cnt (st\<lparr>ex_values := ex_values st + cnt\<rparr>) (vs, s)" "depth \<le> MaxDepth"
  shows "object_result depth st (BArray vs, s)"
proof -
  have "vdepth (BArray vs) \<le> MaxDepth - depth" using assms unfolding array_depth by (fastforce simp: list_result_def)
  then show ?thesis using assms by (auto simp: list_result_def object_result_def within_def)
qed

lemma dict_result:
  assumes "entries_result (Suc depth) cnt (st\<lparr>ex_values := ex_values st + cnt\<rparr>) [] (m, s)" "depth \<le> MaxDepth"
  shows "object_result depth st (BDict m, s)"
proof -
  have "vdepth (BDict m) \<le> MaxDepth - depth" using assms unfolding dict_measures by (fastforce simp: entries_result_def)
  then show ?thesis using assms unfolding object_result_def split_conv dict_measures(1,2)
    by (auto simp: entries_result_def within_def simp del: vdepth.simps)
qed

lemma bpCollection_outcome:
  assumes get: "get_ok (Suc depth) get" and st: "within st" and depth: "depth \<le> MaxDepth" and kind: "kind = 10 \<or> kind = 13"
  shows "outcome (object_result depth st) (bpCollection p get kind start n st)"
proof -
  let ?cnt = "if kind = 13 then n * 2 else n"
  let ?st = "st\<lparr>ex_values := ex_values st + ?cnt\<rparr>"
  show ?thesis
  proof (cases "?cnt > MaxValues - ex_values st")
    case False
    then have w: "within ?st" using st by (auto simp: within_def)
    have body: "outcome (object_result depth st) (let refs = refsOf b (bp_refSize p) ?cnt in
       if kind = 10 then rbind (readObjects get refs ?st) (\<lambda>(vs, st). Inr (BArray vs, st))
       else rbind (readEntries get (bp_native p) (zip (take n refs) (drop n refs)) [] ?st) (\<lambda>(m, st). Inr (BDict m, st)))" for b
    proof (cases "kind = 10")
      case True
      have l: "length (refsOf b (bp_refSize p) ?cnt) = ?cnt" by (simp add: refsOf_def)
      have "outcome (list_result (Suc depth) ?cnt ?st) (readObjects get (refsOf b (bp_refSize p) ?cnt) ?st)"
        using readObjects_outcome [OF get w, of "refsOf b (bp_refSize p) ?cnt"] unfolding l .
      then have "outcome (object_result depth st)
          (rbind (readObjects get (refsOf b (bp_refSize p) ?cnt) ?st) (\<lambda>(vs, st). Inr (BArray vs, st)))"
        by (rule outcome_rbind) (clarify, simp only: split_conv outcome_Inr, erule array_result [OF _ depth])
      then show ?thesis using True by (simp only: Let_def if_True refl)
    next
      case False
      let ?es = "zip (take n (refsOf b (bp_refSize p) ?cnt)) (drop n (refsOf b (bp_refSize p) ?cnt))"
      have "2 * length ?es = ?cnt" using False kind by (simp add: refsOf_def)
      then have "outcome (entries_result (Suc depth) ?cnt ?st []) (readEntries get (bp_native p) ?es [] ?st)"
        using readEntries_outcome [OF get w, of "[]" ?es "bp_native p"] by simp
      then have "outcome (object_result depth st)
          (rbind (readEntries get (bp_native p) ?es [] ?st) (\<lambda>(m, st). Inr (BDict m, st)))"
        by (rule outcome_rbind) (clarify, simp only: split_conv outcome_Inr, erule dict_result [OF _ depth])
      then show ?thesis using False by (simp only: Let_def if_False)
    qed
    have "outcome (object_result depth st) (rbind (bpSpan p start (?cnt * bp_refSize p)) (\<lambda>b. let refs = refsOf b (bp_refSize p) ?cnt in
       if kind = 10 then rbind (readObjects get refs ?st) (\<lambda>(vs, st). Inr (BArray vs, st))
       else rbind (readEntries get (bp_native p) (zip (take n refs) (drop n refs)) [] ?st) (\<lambda>(m, st). Inr (BDict m, st))))"
      by (rule outcome_rbind [OF bpSpan_outcome body])
    with False show ?thesis unfolding bpCollection_def Let_def by simp
  qed (simp add: bpCollection_def Let_def)
qed

section \<open>Objects and documents\<close>

definition offsets_ok :: "binaryPlist \<Rightarrow> bool" where
  "offsets_ok p \<longleftrightarrow> (\<forall>off \<in> set (bp_offsets p). off < length (bp_data p))"

lemma bpObject_ok:
  assumes p: "offsets_ok p"
  shows "get_ok depth (bpObject p active depth)"
proof (induction "Suc MaxDepth - depth" arbitrary: depth active rule: less_induct)
  case less
  show ?case
    unfolding get_ok_def
  proof (intro allI impI)
    fix r st assume st: "within st"
    show "outcome (object_result depth st) (bpObject p active depth r st)"
    proof (cases "depth > MaxDepth \<or> r \<ge> length (bp_offsets p) \<or> bp_offsets p ! r \<in> set active")
      case True
      then show ?thesis by (subst bpObject.simps) (auto simp: Let_def)
    next
      case False
      then have depth: "depth \<le> MaxDepth" and g: "\<not> depth > MaxDepth" "\<not> r \<ge> length (bp_offsets p)" "bp_offsets p ! r \<notin> set active"
        by auto
      let ?off = "bp_offsets p ! r"
      have "?off \<in> set (bp_offsets p)" using g(2) by (simp add: not_le)
      then have off: "\<not> ?off \<ge> length (bp_data p)" using p by (auto simp: offsets_ok_def)
      let ?tag = "unat (bp_data p ! ?off)"
      have get: "get_ok (Suc depth) (bpObject p (?off # active) (Suc depth))" using depth by (intro less) simp
      have leaf: "outcome (leaf_value 16) v \<Longrightarrow> outcome (object_result depth st) (rbind v (\<lambda>v. Inr (v, st)))" for v
        by (erule outcome_rbind) (simp add: leaf_result st depth)
      have bool: "object_result depth st (BBool b, st)" for b using leaf_result [OF _ st depth, of "BBool b"] by (simp add: leaf_value_def)
      have many: "outcome (object_result depth st) (rbind (bpLength p (?off + 1) ?tag) (\<lambda>(n, start).
          if ?tag div 16 = 10 \<or> ?tag div 16 = 13
          then bpCollection p (\<lambda>r st. bpObject p (?off # active) (depth + 1) r st) (?tag div 16) start n st
          else bpText p (?tag div 16) n start st))" if "?tag div 16 \<in> {4, 5, 6, 10, 13}"
        using that bpCollection_outcome [OF get st depth] bpText_outcome [OF st depth]
        by (intro outcome_rbind [OF bpLength_outcome]) (auto split: prod.split)
      show ?thesis
        unfolding bpObject.simps [of p active depth r st] Let_def if_not_P [OF g(1)] if_not_P [OF g(2)] if_not_P [OF g(3)] if_not_P [OF off]
        using leaf [OF scalar_outcome(1)] leaf [OF scalar_outcome(2)] leaf [OF scalar_outcome(3)] bool many
        by (auto split: if_splits)
    qed
  qed
qed

lemma checkOffsets_ok: "outcome (\<lambda>_. \<forall>off \<in> set offs. off < table) (checkOffsets native rootRef table i offs)"
  by (induction native rootRef table i offs rule: checkOffsets.induct) simp_all

lemma outcome_refuse: "outcome Q (Inl e) \<Longrightarrow> (\<not> c \<Longrightarrow> outcome Q r) \<Longrightarrow> outcome Q (if c then Inl e else r)"
  by simp

lemma plistTable_outcome: "outcome (\<lambda>(p, r). offsets_ok p) (plistTable data native)"
proof (cases "length data < 42 \<or> length data > MaxSize \<or> take 7 data \<noteq> str ''bplist0''")
  case False
  let ?t = "drop (length data - 32) data"
  have t: "length ?t = 32" using False by simp
  have rd: "rd8 ?t 6 = Inr (unat (?t ! 6))" "rd8 ?t 7 = Inr (unat (?t ! 7))" "rd64 ?t 8 = Inr (be64 ?t 8)"
    "rd64 ?t 16 = Inr (be64 ?t 16)" "rd64 ?t 24 = Inr (be64 ?t 24)"
    by (simp_all only: rd8_def rd64_def t) simp_all
  have table: "offsets_ok \<lparr>bp_data = take table data, bp_offsets = offs, bp_refSize = refs, bp_native = native\<rparr>"
    if "\<forall>off \<in> set offs. off < table" "table \<le> length data" for table offs refs
    using that by (auto simp: offsets_ok_def)
  show ?thesis
    unfolding plistTable_def if_not_P [OF False] Let_def rd rbind_Inr
    by ((rule outcome_refuse, simp)+, rule outcome_rbind [OF checkOffsets_ok], simp only: outcome_Inr split_conv, erule table, linarith)
qed (simp add: plistTable_def)

text \<open>
  C34. Decoding an untrusted binary property list returns an error of the format or a value within
  the limits, whatever the input: it never panics or loops, the value has at most \<open>MaxValues\<close> objects
  and keys and fewer than \<open>MaxDepth\<close> levels, and its strings and data add up to at most \<open>MaxSize\<close> bytes
  besides its UIDs, of at most 16 bytes each.
\<close>

theorem decodeBinary_bounds:
  "outcome (\<lambda>v. vnodes v \<le> MaxValues \<and> vdepth v < MaxDepth \<and> vbytes v \<le> MaxSize + 16 * vnodes v) (decodeBinary data native)"
proof -
  have "outcome (\<lambda>v. vnodes v \<le> MaxValues \<and> vdepth v < MaxDepth \<and> vbytes v \<le> MaxSize + 16 * vnodes v)
      (case x of (p, r) \<Rightarrow> rbind (bpObject p [] 1 r \<lparr>ex_values = 1, ex_bytes = 0\<rparr>) (\<lambda>(v, _). Inr v))"
    if "case x of (p, r) \<Rightarrow> offsets_ok p" for x
  proof -
    obtain p r where x: "x = (p, r)" by (cases x)
    have "within \<lparr>ex_values = 1, ex_bytes = 0\<rparr>" by (simp add: within_def MaxValues_def)
    then have "outcome (object_result 1 \<lparr>ex_values = 1, ex_bytes = 0\<rparr>) (bpObject p [] 1 r \<lparr>ex_values = 1, ex_bytes = 0\<rparr>)"
      using bpObject_ok [of p 1 "[]"] that x unfolding get_ok_def by blast
    then have "outcome (\<lambda>v. vnodes v \<le> MaxValues \<and> vdepth v < MaxDepth \<and> vbytes v \<le> MaxSize + 16 * vnodes v)
        (rbind (bpObject p [] 1 r \<lparr>ex_values = 1, ex_bytes = 0\<rparr>) (\<lambda>(v, _). Inr v))"
      by (rule outcome_rbind) (auto simp: object_result_def)
    then show ?thesis by (simp add: x)
  qed
  then show ?thesis unfolding decodeBinary_def by (rule outcome_rbind [OF plistTable_outcome])
qed

end
