(* ===== verification/Binary_Graph.thy ===== *)
theory Binary_Graph
  imports Binary_Bounds
begin

text \<open>
  What a binary property list denotes: a relation on its object graph that knows neither budgets
  nor the set of active objects, and the decoder as its decision procedure within the limits.
\<close>

section \<open>Leaves\<close>

text \<open>The objects that refer to no other, with the bytes they are charged for.\<close>

definition textValue :: "binaryPlist \<Rightarrow> nat \<Rightarrow> nat \<Rightarrow> nat \<Rightarrow> bvalue result" where
  "textValue p kind n start =
    rbind (bpSpan p start (n * (if kind = 6 then 2 else 1))) (\<lambda>b.
    if kind = 4 then Inr (BData b)
    else if kind = 5 then (if \<exists>c \<in> set b. unat c > 127 then Inl (Malformed ''binary bundle plist ASCII string'') else Inr (BString b))
    else if \<not> surrogatesPaired (unitsOf b n) then Inl (plistRestriction (bp_native p) ''binary bundle plist UTF-16 string'')
    else Inr (BString (utf16String (unitsOf b n))))"

definition objectTag :: "binaryPlist \<Rightarrow> nat \<Rightarrow> nat" where
  "objectTag p off = unat (bp_data p ! off)"

definition leafObject :: "binaryPlist \<Rightarrow> nat \<Rightarrow> (bvalue \<times> nat) result" where
  "leafObject p off =
    (let tag = objectTag p off; kind = tag div 16; sz = 2 ^ (tag mod 16) in
     if kind = 8 \<and> bp_native p then rbind (bpUID p (off + 1) tag) (\<lambda>v. Inr (v, 0))
     else if kind = 0 \<and> (tag = 8 \<or> tag = 9) then Inr (BBool (tag = 9), 0)
     else if kind = 1 then rbind (bpInteger p (off + 1) sz) (\<lambda>v. Inr (v, 0))
     else if kind = 2 \<or> kind = 3 then rbind (bpReal p (off + 1) tag sz) (\<lambda>v. Inr (v, 0))
     else if kind \<in> {4, 5, 6} then
       rbind (bpLength p (off + 1) tag) (\<lambda>(n, start).
       rbind (textValue p kind n start) (\<lambda>v. Inr (v, n * (if kind = 6 then 3 else 1))))
     else Inl (Unsupported ''bundle plist object type''))"

text \<open>The references of a collection object.\<close>

definition collectionRefs :: "binaryPlist \<Rightarrow> nat \<Rightarrow> nat list result" where
  "collectionRefs p off =
    rbind (bpLength p (off + 1) (objectTag p off)) (\<lambda>(n, start).
    let cnt = (if objectTag p off div 16 = 13 then n * 2 else n) in
    rbind (bpSpan p start (cnt * bp_refSize p)) (\<lambda>b. Inr (refsOf b (bp_refSize p) cnt)))"

section \<open>The relation\<close>

text \<open>
  The object at an offset denotes a value, from \<open>c\<close> references, \<open>b\<close> charged bytes and \<open>h\<close>
  levels below it.
\<close>

inductive denotes :: "binaryPlist \<Rightarrow> nat \<Rightarrow> bvalue \<Rightarrow> nat \<Rightarrow> nat \<Rightarrow> nat \<Rightarrow> bool"
  and denotes_list :: "binaryPlist \<Rightarrow> nat list \<Rightarrow> bvalue list \<Rightarrow> nat \<Rightarrow> nat \<Rightarrow> nat \<Rightarrow> bool"
  and denotes_entries :: "binaryPlist \<Rightarrow> (nat \<times> nat) list \<Rightarrow> (gostring \<times> bvalue) list \<Rightarrow> (gostring \<times> bvalue) list \<Rightarrow> nat \<Rightarrow> nat \<Rightarrow> nat \<Rightarrow> bool"
  for p :: binaryPlist where
  leaf: "off < length (bp_data p) \<Longrightarrow> objectTag p off div 16 \<notin> {10, 13} \<Longrightarrow> leafObject p off = Inr (v, b) \<Longrightarrow> denotes p off v 0 b 0"
| array: "off < length (bp_data p) \<Longrightarrow> objectTag p off div 16 = 10 \<Longrightarrow> collectionRefs p off = Inr refs \<Longrightarrow>
    denotes_list p refs vs c b h \<Longrightarrow> denotes p off (BArray vs) (length refs + c) b h"
| dict: "off < length (bp_data p) \<Longrightarrow> objectTag p off div 16 = 13 \<Longrightarrow> collectionRefs p off = Inr refs \<Longrightarrow> n = length refs div 2 \<Longrightarrow>
    denotes_entries p (zip (take n refs) (drop n refs)) [] m c b h \<Longrightarrow> denotes p off (BDict m) (length refs + c) b h"
| Nil: "denotes_list p [] [] 0 0 0"
| Cons: "r < length (bp_offsets p) \<Longrightarrow> denotes p (bp_offsets p ! r) v c b h \<Longrightarrow> denotes_list p rs vs c' b' h' \<Longrightarrow>
    denotes_list p (r # rs) (v # vs) (c + c') (b + b') (max (Suc h) h')"
| Nil_entry: "denotes_entries p [] m m 0 0 0"
| Cons_entry: "k < length (bp_offsets p) \<Longrightarrow> denotes p (bp_offsets p ! k) (BString s) c b h \<Longrightarrow> s \<notin> fst ` set m \<or> bp_native p \<Longrightarrow>
    r < length (bp_offsets p) \<Longrightarrow> denotes p (bp_offsets p ! r) v c' b' h' \<Longrightarrow>
    denotes_entries p rs (if s \<in> fst ` set m then m else m @ [(s, v)]) m' c'' b'' h'' \<Longrightarrow>
    denotes_entries p ((k, r) # rs) m m' (c + c' + c'') (b + b' + b'') (max (Suc h) (max (Suc h') h''))"

inductive_cases denotesE: "denotes p off v c b h"
inductive_simps denotes_list_simps: "denotes_list p [] vs c b h" "denotes_list p (r # rs) vs c b h"
inductive_simps denotes_entries_simps: "denotes_entries p [] m m' c b h" "denotes_entries p ((k, r) # rs) m m' c b h"

text \<open>An object denotes at most one value, at one cost and height.\<close>

lemma denotes_unique:
  shows "denotes p off v c b h \<Longrightarrow> denotes p off v' c' b' h' \<Longrightarrow> v' = v \<and> c' = c \<and> b' = b \<and> h' = h"
    and "denotes_list p rs vs c b h \<Longrightarrow> denotes_list p rs vs' c' b' h' \<Longrightarrow> vs' = vs \<and> c' = c \<and> b' = b \<and> h' = h"
    and "denotes_entries p es m m1 c b h \<Longrightarrow> denotes_entries p es m m1' c' b' h' \<Longrightarrow> m1' = m1 \<and> c' = c \<and> b' = b \<and> h' = h"
proof (induction arbitrary: v' c' b' h' and vs' c' b' h' and m1' c' b' h' rule: denotes_denotes_list_denotes_entries.inducts)
  case (leaf off v b)
  from leaf(4) show ?case by (cases rule: denotes.cases) (use leaf(1-3) in auto)
next
  case (array off refs vs c b h)
  from array(6) show ?case by (cases rule: denotes.cases) (use array(1-3) array(5) in auto)
next
  case (dict off refs n m c b h)
  from dict(7) show ?case
  proof (cases rule: denotes.cases)
    case d: (dict refs' n' m' ca)
    have "refs' = refs" using d(5) dict(3) by simp
    then have "m' = m \<and> ca = c \<and> b' = b \<and> h' = h" using d(6,7) \<open>n = length refs div 2\<close> by (intro dict.IH) simp
    with d \<open>refs' = refs\<close> show ?thesis by simp
  qed (use dict(2) in auto)
next
  case Nil
  then show ?case by (simp add: denotes_list_simps)
next
  case (Cons r v c b h rs vs c2 b2 h2)
  from Cons(6) obtain v1 vs1 c1 b1 h1 c3 b3 h3 where one: "denotes p (bp_offsets p ! r) v1 c1 b1 h1" "denotes_list p rs vs1 c3 b3 h3"
    and eq: "vs' = v1 # vs1" "c' = c1 + c3" "b' = b1 + b3" "h' = max (Suc h1) h3"
    by (auto simp: denotes_list_simps)
  show ?case using Cons(3) [OF one(1)] Cons(5) [OF one(2)] eq by simp
next
  case (Nil_entry m)
  then show ?case by (simp add: denotes_entries_simps)
next
  case (Cons_entry k s c b h m r v c2 b2 h2 rs m3 c3 b3 h3)
  from Cons_entry.prems obtain s1 v1 ca ba ha cb bb hb cc bc hc where one: "denotes p (bp_offsets p ! k) (BString s1) ca ba ha"
      "denotes p (bp_offsets p ! r) v1 cb bb hb" "denotes_entries p rs (if s1 \<in> fst ` set m then m else m @ [(s1, v1)]) m1' cc bc hc"
    and eq: "c' = ca + cb + cc" "b' = ba + bb + bc" "h' = max (Suc ha) (max (Suc hb) hc)"
    unfolding denotes_entries_simps by blast
  have k: "s1 = s \<and> ca = c \<and> ba = b \<and> ha = h" using Cons_entry(3) [OF one(1)] by simp
  have v: "v1 = v \<and> cb = c2 \<and> bb = b2 \<and> hb = h2" using Cons_entry(7) [OF one(2)] .
  have "m1' = m3 \<and> cc = c3 \<and> bc = b3 \<and> hc = h3" by (rule Cons_entry(9)) (use one(3) k v in metis)
  with k v eq show ?case by simp
qed

section \<open>Objects, one level\<close>

definition spent :: "expanded \<Rightarrow> nat \<Rightarrow> nat \<Rightarrow> expanded" where
  "spent st c b = \<lparr>ex_values = ex_values st + c, ex_bytes = ex_bytes st + b\<rparr>"

lemma spent_spent [simp]: "spent (spent st c b) c' b' = spent st (c + c') (b + b')"
  and spent_0 [simp]: "spent st 0 0 = st"
  by (simp_all add: spent_def)

lemma within_spent: "within (spent st c b) \<longleftrightarrow> ex_values st + c \<le> MaxValues \<and> ex_bytes st + b \<le> MaxSize"
  by (simp add: within_def spent_def)

lemma spent_within: "within (spent st c b) \<Longrightarrow> within st"
  by (simp add: within_def spent_def)

text \<open>What reading a reference amounts to when its object may be entered.\<close>

definition enter :: "binaryPlist \<Rightarrow> nat list \<Rightarrow> nat \<Rightarrow> nat \<Rightarrow> bool" where
  "enter p active depth r \<longleftrightarrow> depth \<le> MaxDepth \<and> r < length (bp_offsets p) \<and> bp_offsets p ! r \<notin> set active \<and>
     bp_offsets p ! r < length (bp_data p)"

lemma bpObject_enter:
  assumes "bpObject p active depth r st = Inr x"
  shows "enter p active depth r"
  using assms by (subst (asm) bpObject.simps) (auto simp: enter_def Let_def result_simps)

lemma bpText_charged:
  assumes st: "within st" and kind: "kind \<in> {4, 5, 6}"
  shows "bpText p kind n start st = Inr (v, st') \<longleftrightarrow>
    textValue p kind n start = Inr v \<and> st' = spent st 0 (n * (if kind = 6 then 3 else 1)) \<and> within st'"
proof -
  let ?cost = "if kind = 6 then 3 else 1 :: nat"
  let ?st = "st\<lparr>ex_bytes := ex_bytes st + n * ?cost\<rparr>"
  have eq: "?st = spent st 0 (n * ?cost)" by (simp add: spent_def)
  have charge: "\<not> n > (MaxSize - ex_bytes st) div ?cost \<longleftrightarrow> within (spent st 0 (n * ?cost))"
    using st unfolding not_less by (subst less_eq_div_iff_mult_less_eq) (auto simp: within_def spent_def)
  have "bpText p kind n start st =
      (if n > (MaxSize - ex_bytes st) div ?cost then Inl (plistLimit ''expanded byte'')
       else rbind (textValue p kind n start) (\<lambda>v. Inr (v, ?st)))"
    unfolding bpText_def textValue_def Let_def rbind_def by (auto split: sum.split)
  then show ?thesis using charge unfolding eq by (auto simp: result_simps)
qed

lemma object_leaf:
  assumes e: "enter p active depth r" and kind: "objectTag p (bp_offsets p ! r) div 16 \<notin> {10, 13}" and st: "within st"
  shows "bpObject p active depth r st = Inr (v, st') \<longleftrightarrow>
    (\<exists>b. leafObject p (bp_offsets p ! r) = Inr (v, b) \<and> st' = spent st 0 b \<and> within st')"
proof -
  let ?off = "bp_offsets p ! r"
  have g: "\<not> depth > MaxDepth" "\<not> r \<ge> length (bp_offsets p)" "?off \<notin> set active" "\<not> ?off \<ge> length (bp_data p)"
    using e by (auto simp: enter_def)
  show ?thesis
    unfolding bpObject.simps [of p active depth r st] Let_def if_not_P [OF g(1)] if_not_P [OF g(2)] if_not_P [OF g(3)] if_not_P [OF g(4)]
      leafObject_def objectTag_def
    using kind st bpText_charged [OF st]
    by (auto simp: result_simps objectTag_def)
qed

text \<open>The references are charged before they are read.\<close>

definition readChildren :: "object_reader \<Rightarrow> bool \<Rightarrow> nat \<Rightarrow> nat list \<Rightarrow> expanded \<Rightarrow> (bvalue \<times> expanded) result" where
  "readChildren get native kind refs st =
    (let n = length refs div 2 in
     if kind = 10 then rbind (readObjects get refs st) (\<lambda>(vs, st). Inr (BArray vs, st))
     else rbind (readEntries get native (zip (take n refs) (drop n refs)) [] st) (\<lambda>(m, st). Inr (BDict m, st)))"

lemma collection_charged:
  assumes st: "within st" and kind: "kind = 10 \<or> kind = 13"
  shows "bpCollection p get kind start n st = Inr x \<longleftrightarrow>
    (let cnt = (if kind = 13 then n * 2 else n) in \<exists>b. bpSpan p start (cnt * bp_refSize p) = Inr b \<and>
      within (spent st cnt 0) \<and> readChildren get (bp_native p) kind (refsOf b (bp_refSize p) cnt) (spent st cnt 0) = Inr x)"
proof -
  have st_eq: "st\<lparr>ex_values := ex_values st + cnt\<rparr> = spent st cnt 0" for cnt by (simp add: spent_def)
  have charge: "\<not> cnt > MaxValues - ex_values st \<longleftrightarrow> within (spent st cnt 0)" for cnt using st by (auto simp: within_def spent_def)
  have half: "\<not> n > MaxValues div 2" if "within (spent st (n * 2) 0)" using that unfolding within_spent by arith
  have len: "length (refsOf b s cnt) = cnt" for b s cnt by (simp add: refsOf_def)
  show ?thesis
    using kind
  proof
    assume k: "kind = 10"
    show ?thesis unfolding bpCollection_def k Let_def st_eq readChildren_def by (simp add: guard_eq_Inr charge rbind_eq_Inr) blast
  next
    assume k: "kind = 13"
    show ?thesis unfolding bpCollection_def k Let_def st_eq readChildren_def len using half
      by (simp add: guard_eq_Inr charge rbind_eq_Inr) blast
  qed
qed

lemma object_collection:
  assumes e: "enter p active depth r" and kind: "objectTag p (bp_offsets p ! r) div 16 \<in> {10, 13}" and st: "within st"
  shows "bpObject p active depth r st = Inr x \<longleftrightarrow>
    (\<exists>refs. collectionRefs p (bp_offsets p ! r) = Inr refs \<and> within (spent st (length refs) 0) \<and>
      readChildren (bpObject p (bp_offsets p ! r # active) (Suc depth)) (bp_native p) (objectTag p (bp_offsets p ! r) div 16)
        refs (spent st (length refs) 0) = Inr x)"
proof -
  let ?off = "bp_offsets p ! r" and ?kind = "objectTag p (bp_offsets p ! r) div 16"
  let ?get = "bpObject p (bp_offsets p ! r # active) (Suc depth)"
  have g: "\<not> depth > MaxDepth" "\<not> r \<ge> length (bp_offsets p)" "?off \<notin> set active" "\<not> ?off \<ge> length (bp_data p)"
    using e by (auto simp: enter_def)
  have len: "length (refsOf b s cnt) = cnt" for b s cnt by (simp add: refsOf_def)
  have k: "?kind = 10 \<or> ?kind = 13" using kind by blast
  have "bpObject p active depth r st =
      rbind (bpLength p (?off + 1) (objectTag p ?off)) (\<lambda>(n, start). bpCollection p ?get ?kind start n st)"
    unfolding bpObject.simps [of p active depth r st] Let_def if_not_P [OF g(1)] if_not_P [OF g(2)] if_not_P [OF g(3)] if_not_P [OF g(4)]
    using k by (auto simp: objectTag_def)
  then have "bpObject p active depth r st = Inr x \<longleftrightarrow>
      (\<exists>n start. bpLength p (?off + 1) (objectTag p ?off) = Inr (n, start) \<and> bpCollection p ?get ?kind start n st = Inr x)"
    by (auto simp: rbind_eq_Inr)
  then show ?thesis
    unfolding collection_charged [OF st k] collectionRefs_def Let_def
    by (auto simp: rbind_eq_Inr len split del: if_split)
qed

section \<open>Soundness\<close>

definition sound_reader :: "binaryPlist \<Rightarrow> nat \<Rightarrow> object_reader \<Rightarrow> bool" where
  "sound_reader p depth get \<longleftrightarrow> (\<forall>r st v st'. within st \<longrightarrow> get r st = Inr (v, st') \<longrightarrow>
     (\<exists>c b h. r < length (bp_offsets p) \<and> denotes p (bp_offsets p ! r) v c b h \<and> st' = spent st c b \<and> within st' \<and> depth + h \<le> MaxDepth))"

lemma readObjects_denotes:
  assumes get: "sound_reader p (Suc depth) get" and depth: "depth \<le> MaxDepth"
  shows "within st \<Longrightarrow> readObjects get rs st = Inr (vs, st') \<Longrightarrow>
    \<exists>c b h. denotes_list p rs vs c b h \<and> st' = spent st c b \<and> within st' \<and> depth + h \<le> MaxDepth"
proof (induction rs arbitrary: st vs)
  case Nil
  then show ?case using depth denotes_denotes_list_denotes_entries.Nil [of p] by fastforce
next
  case (Cons r rs)
  from Cons.prems(2) obtain v s1 vs1 where read: "get r st = Inr (v, s1)" "readObjects get rs s1 = Inr (vs1, st')" "vs = v # vs1"
    by (auto simp: rbind_eq_Inr)
  from get read(1) Cons.prems(1) obtain c b h where one: "r < length (bp_offsets p)" "denotes p (bp_offsets p ! r) v c b h"
      "s1 = spent st c b" "within s1" "Suc depth + h \<le> MaxDepth" unfolding sound_reader_def by blast
  from Cons.IH [OF one(4) read(2)] obtain c' b' h' where two: "denotes_list p rs vs1 c' b' h'" "st' = spent s1 c' b'" "within st'"
    "depth + h' \<le> MaxDepth" by blast
  have "denotes_list p (r # rs) vs (c + c') (b + b') (max (Suc h) h')"
    unfolding read(3) by (rule denotes_denotes_list_denotes_entries.Cons [OF one(1,2) two(1)])
  moreover have "st' = spent st (c + c') (b + b')" using one two by simp
  moreover have "depth + max (Suc h) h' \<le> MaxDepth" using one two by simp
  ultimately show ?case using two(3) by blast
qed

lemma readEntries_denotes:
  assumes get: "sound_reader p (Suc depth) get" and depth: "depth \<le> MaxDepth"
  shows "within st \<Longrightarrow> readEntries get (bp_native p) rs m st = Inr (m', st') \<Longrightarrow>
    \<exists>c b h. denotes_entries p rs m m' c b h \<and> st' = spent st c b \<and> within st' \<and> depth + h \<le> MaxDepth"
proof (induction rs arbitrary: st m)
  case Nil
  then show ?case using depth denotes_denotes_list_denotes_entries.Nil_entry [of p m] by fastforce
next
  case (Cons e rs)
  obtain k r where e: "e = (k, r)" by (cases e)
  from Cons.prems(2) e obtain key s1 where key: "get k st = Inr (key, s1)" by (auto simp: rbind_eq_Inr)
  from Cons.prems(2) e key obtain s v s2 where read: "get k st = Inr (BString s, s1)" "s \<notin> fst ` set m \<or> bp_native p"
      "get r s1 = Inr (v, s2)" "readEntries get (bp_native p) rs (if s \<in> fst ` set m then m else m @ [(s, v)]) s2 = Inr (m', st')"
    by (cases key) (auto simp: rbind_eq_Inr guard_eq_Inr)
  from get read(1) Cons.prems(1) obtain c b h where one: "k < length (bp_offsets p)" "denotes p (bp_offsets p ! k) (BString s) c b h"
      "s1 = spent st c b" "within s1" "Suc depth + h \<le> MaxDepth" unfolding sound_reader_def by blast
  from get read(3) one(4) obtain c' b' h' where two: "r < length (bp_offsets p)" "denotes p (bp_offsets p ! r) v c' b' h'"
      "s2 = spent s1 c' b'" "within s2" "Suc depth + h' \<le> MaxDepth" unfolding sound_reader_def by blast
  from Cons.IH [OF two(4) read(4)] obtain c'' b'' h'' where rest:
    "denotes_entries p rs (if s \<in> fst ` set m then m else m @ [(s, v)]) m' c'' b'' h''" "st' = spent s2 c'' b''" "within st'"
    "depth + h'' \<le> MaxDepth" by blast
  have "denotes_entries p (e # rs) m m' (c + c' + c'') (b + b' + b'') (max (Suc h) (max (Suc h') h''))"
    unfolding e by (rule denotes_denotes_list_denotes_entries.Cons_entry [OF one(1,2) read(2) two(1,2) rest(1)])
  moreover have "st' = spent st (c + c' + c'') (b + b' + b'')" using one two rest by (simp add: add.assoc)
  moreover have "depth + max (Suc h) (max (Suc h') h'') \<le> MaxDepth" using one two rest by simp
  ultimately show ?case using rest(3) by blast
qed

lemma readChildren_denotes:
  assumes get: "sound_reader p (Suc depth) get" and depth: "depth \<le> MaxDepth" and st: "within (spent st (length refs) 0)"
    and off: "off < length (bp_data p)" "collectionRefs p off = Inr refs" and kind: "objectTag p off div 16 \<in> {10, 13}"
    and run: "readChildren get (bp_native p) (objectTag p off div 16) refs (spent st (length refs) 0) = Inr (v, st')"
  shows "\<exists>c b h. denotes p off v c b h \<and> st' = spent st c b \<and> within st' \<and> depth + h \<le> MaxDepth"
proof (cases "objectTag p off div 16 = 10")
  case True
  then obtain vs where vs: "readObjects get refs (spent st (length refs) 0) = Inr (vs, st')" "v = BArray vs"
    using run by (auto simp: readChildren_def rbind_eq_Inr)
  from readObjects_denotes [OF get depth st vs(1)] obtain c b h where
    list: "denotes_list p refs vs c b h" "st' = spent (spent st (length refs) 0) c b" "within st'" "depth + h \<le> MaxDepth" by blast
  have "denotes p off v (length refs + c) b h"
    unfolding vs(2) by (rule denotes_denotes_list_denotes_entries.array [OF off(1) True off(2) list(1)])
  with list show ?thesis by fastforce
next
  case False
  let ?n = "length refs div 2"
  obtain m where m: "readEntries get (bp_native p) (zip (take ?n refs) (drop ?n refs)) [] (spent st (length refs) 0) = Inr (m, st')" "v = BDict m"
    using run False by (auto simp: readChildren_def rbind_eq_Inr Let_def)
  from readEntries_denotes [OF get depth st m(1)] obtain c b h where
    list: "denotes_entries p (zip (take ?n refs) (drop ?n refs)) [] m c b h" "st' = spent (spent st (length refs) 0) c b"
      "within st'" "depth + h \<le> MaxDepth" by blast
  have "denotes p off v (length refs + c) b h"
    unfolding m(2) by (rule denotes_denotes_list_denotes_entries.dict [OF off(1) _ off(2) refl list(1)]) (use kind False in simp)
  with list show ?thesis by fastforce
qed

lemma bpObject_sound: "sound_reader p depth (bpObject p active depth)"
proof (induction "Suc MaxDepth - depth" arbitrary: depth active rule: less_induct)
  case less
  show ?case
    unfolding sound_reader_def
  proof (intro allI impI)
    fix r st v st' assume st: "within st" and run: "bpObject p active depth r st = Inr (v, st')"
    let ?off = "bp_offsets p ! r"
    have e: "enter p active depth r" using run by (rule bpObject_enter)
    then have g: "depth \<le> MaxDepth" "r < length (bp_offsets p)" "?off < length (bp_data p)" by (auto simp: enter_def)
    have "\<exists>c b h. denotes p ?off v c b h \<and> st' = spent st c b \<and> within st' \<and> depth + h \<le> MaxDepth"
    proof (cases "objectTag p ?off div 16 \<in> {10, 13}")
      case True
      from run [unfolded object_collection [OF e True st]] obtain refs where
        refs: "collectionRefs p ?off = Inr refs" "within (spent st (length refs) 0)"
          "readChildren (bpObject p (?off # active) (Suc depth)) (bp_native p) (objectTag p ?off div 16) refs (spent st (length refs) 0)
            = Inr (v, st')" by blast
      have "sound_reader p (Suc depth) (bpObject p (?off # active) (Suc depth))" using g by (intro less) simp
      then show ?thesis by (rule readChildren_denotes [OF _ g(1) refs(2) g(3) refs(1) True refs(3)])
    next
      case False
      from run [unfolded object_leaf [OF e False st]] obtain b where
        "leafObject p ?off = Inr (v, b)" "st' = spent st 0 b" "within st'" by blast
      moreover from this have "denotes p ?off v 0 b 0"
        using denotes_denotes_list_denotes_entries.leaf [OF g(3) False] by simp
      ultimately show ?thesis using g by fastforce
    qed
    with g show "\<exists>c b h. r < length (bp_offsets p) \<and> denotes p ?off v c b h \<and> st' = spent st c b \<and> within st' \<and> depth + h \<le> MaxDepth"
      by blast
  qed
qed

section \<open>Completeness\<close>

text \<open>
  Objects being read lie above the one to read: each denotes a value of greater height, so by
  uniqueness none of them can be met again.
\<close>

definition above :: "binaryPlist \<Rightarrow> nat \<Rightarrow> nat list \<Rightarrow> bool" where
  "above p h active \<longleftrightarrow> (\<forall>a \<in> set active. \<exists>v c b h'. denotes p a v c b h' \<and> h \<le> h')"

lemma above_mono: "above p h active \<Longrightarrow> h' \<le> h \<Longrightarrow> above p h' active"
  unfolding above_def by (meson le_trans)

lemma above_fresh: "above p (Suc h) active \<Longrightarrow> denotes p off v c b h \<Longrightarrow> off \<notin> set active"
  unfolding above_def using denotes_unique(1) by fastforce

lemma above_Cons: "above p (Suc h) active \<Longrightarrow> denotes p off v c b h \<Longrightarrow> above p h (off # active)"
  using above_mono [of p "Suc h" active h] by (auto simp: above_def)

lemma denotes_off: "denotes p off v c b h \<Longrightarrow> off < length (bp_data p)"
  by (erule denotesE) simp_all

lemma enter_denotes:
  "above p (Suc h) active \<Longrightarrow> denotes p (bp_offsets p ! r) v c b h \<Longrightarrow> r < length (bp_offsets p) \<Longrightarrow> depth + h \<le> MaxDepth
     \<Longrightarrow> enter p active depth r"
  by (auto simp: enter_def dest: above_fresh denotes_off)

lemma denotes_complete:
  shows "denotes p off v c b h \<Longrightarrow> r < length (bp_offsets p) \<Longrightarrow> bp_offsets p ! r = off \<Longrightarrow> above p (Suc h) active \<Longrightarrow>
      depth + h \<le> MaxDepth \<Longrightarrow> within (spent st c b) \<Longrightarrow> bpObject p active depth r st = Inr (v, spent st c b)"
    and "denotes_list p rs vs c b h \<Longrightarrow> above p h active \<Longrightarrow> depth + h \<le> MaxDepth \<Longrightarrow> within (spent st c b) \<Longrightarrow>
      readObjects (bpObject p active (Suc depth)) rs st = Inr (vs, spent st c b)"
    and "denotes_entries p es m m' c b h \<Longrightarrow> above p h active \<Longrightarrow> depth + h \<le> MaxDepth \<Longrightarrow> within (spent st c b) \<Longrightarrow>
      readEntries (bpObject p active (Suc depth)) (bp_native p) es m st = Inr (m', spent st c b)"
proof (induction arbitrary: r active depth st and active depth st and active depth st rule: denotes_denotes_list_denotes_entries.inducts)
  case (leaf off v b)
  have d: "denotes p (bp_offsets p ! r) v 0 b 0" using leaf by (auto intro: denotes_denotes_list_denotes_entries.leaf)
  have e: "enter p active depth r" using leaf d by (intro enter_denotes) auto
  have "within st" using leaf by (auto intro: spent_within)
  then show ?case using object_leaf [OF e] leaf by auto
next
  case (array off refs vs c b h)
  have d: "denotes p (bp_offsets p ! r) (BArray vs) (length refs + c) b h"
    using array by (auto intro: denotes_denotes_list_denotes_entries.array)
  have e: "enter p active depth r" using array.prems d by (intro enter_denotes) auto
  have w: "within st" "within (spent st (length refs) 0)" using array.prems by (auto simp: within_def spent_def)
  have "readObjects (bpObject p (bp_offsets p ! r # active) (Suc depth)) refs (spent st (length refs) 0)
      = Inr (vs, spent (spent st (length refs) 0) c b)"
    using array.prems by (intro array.IH above_Cons [OF _ d]) simp_all
  then show ?case using object_collection [OF e _ w(1)] array(2,3) array.prems(2) w(2) by (auto simp: readChildren_def)
next
  case (dict off refs n m c b h)
  have d: "denotes p (bp_offsets p ! r) (BDict m) (length refs + c) b h"
    using dict by (auto intro: denotes_denotes_list_denotes_entries.dict)
  have e: "enter p active depth r" using dict.prems d by (intro enter_denotes) auto
  have w: "within st" "within (spent st (length refs) 0)" using dict.prems by (auto simp: within_def spent_def)
  have "readEntries (bpObject p (bp_offsets p ! r # active) (Suc depth)) (bp_native p) (zip (take n refs) (drop n refs)) [] (spent st (length refs) 0)
      = Inr (m, spent (spent st (length refs) 0) c b)"
    using dict.prems by (intro dict.IH above_Cons [OF _ d]) simp_all
  then show ?case using object_collection [OF e _ w(1)] dict(2,3) dict.prems(2) w(2) \<open>n = length refs div 2\<close>
    by (auto simp: readChildren_def)
next
  case (Cons r v c b h rs vs c' b' h')
  have "bpObject p active (Suc depth) r st = Inr (v, spent st c b)"
    using Cons.prems above_mono [OF Cons.prems(1), of "Suc h"] by (intro Cons(3)) (simp_all add: Cons(1) within_spent)
  moreover have "readObjects (bpObject p active (Suc depth)) rs (spent st c b) = Inr (vs, spent (spent st c b) c' b')"
    using Cons.prems above_mono [OF Cons.prems(1), of h'] by (intro Cons(5)) simp_all
  ultimately show ?case by simp
next
  case (Cons_entry k s c b h m r v c' b' h' rs m' c'' b'' h'')
  have "bpObject p active (Suc depth) k st = Inr (BString s, spent st c b)"
    using Cons_entry.prems above_mono [OF Cons_entry.prems(1), of "Suc h"]
    by (intro Cons_entry(3)) (simp_all add: Cons_entry(1) within_spent)
  moreover have "bpObject p active (Suc depth) r (spent st c b) = Inr (v, spent (spent st c b) c' b')"
    using Cons_entry.prems above_mono [OF Cons_entry.prems(1), of "Suc h'"]
    by (intro Cons_entry(7)) (simp_all add: Cons_entry(5) within_spent)
  moreover have "readEntries (bpObject p active (Suc depth)) (bp_native p) rs (if s \<in> fst ` set m then m else m @ [(s, v)])
      (spent (spent st c b) c' b') = Inr (m', spent (spent (spent st c b) c' b') c'' b'')"
    using Cons_entry.prems above_mono [OF Cons_entry.prems(1), of h''] by (intro Cons_entry(9)) (simp_all add: add.assoc)
  ultimately show ?case using Cons_entry(4) by (simp add: add.assoc guard_eq_Inr)
qed simp_all

section \<open>Documents\<close>

text \<open>
  C33. The decoder is exact: it accepts a document, with the value \<open>v\<close>, if and only if the trailer
  and the offset table are valid and the root object denotes \<open>v\<close> in the object graph, expanding fewer
  than \<open>MaxValues\<close> references, at most \<open>MaxSize\<close> bytes and fewer than \<open>MaxDepth\<close> levels. The set of
  active objects only refuses cycles, which denote nothing.
\<close>

theorem decodeBinary_exact:
  "decodeBinary data native = Inr v \<longleftrightarrow>
    (\<exists>p r c b h. plistTable data native = Inr (p, r) \<and> r < length (bp_offsets p) \<and> denotes p (bp_offsets p ! r) v c b h \<and>
      c < MaxValues \<and> b \<le> MaxSize \<and> h < MaxDepth)" (is "?decodes \<longleftrightarrow> ?denotes")
proof
  let ?st = "\<lparr>ex_values = 1, ex_bytes = 0\<rparr>"
  have st: "within ?st" by (simp add: within_def MaxValues_def)
  assume ?decodes
  then obtain p r st' where run: "plistTable data native = Inr (p, r)" "bpObject p [] 1 r ?st = Inr (v, st')"
    by (auto simp: decodeBinary_def rbind_eq_Inr)
  from bpObject_sound [of p 1 "[]"] run(2) st obtain c b h where
    "r < length (bp_offsets p)" "denotes p (bp_offsets p ! r) v c b h" "st' = spent ?st c b" "within st'" "1 + h \<le> MaxDepth"
    unfolding sound_reader_def by blast
  then have "r < length (bp_offsets p) \<and> denotes p (bp_offsets p ! r) v c b h \<and> c < MaxValues \<and> b \<le> MaxSize \<and> h < MaxDepth"
    by (simp add: within_spent)
  with run show ?denotes by blast
next
  let ?st = "\<lparr>ex_values = 1, ex_bytes = 0\<rparr>"
  assume ?denotes
  then obtain p r c b h where t: "plistTable data native = Inr (p, r)" "r < length (bp_offsets p)" "denotes p (bp_offsets p ! r) v c b h"
    "c < MaxValues" "b \<le> MaxSize" "h < MaxDepth" by blast
  have "bpObject p [] 1 r ?st = Inr (v, spent ?st c b)"
    using t by (intro denotes_complete(1)) (auto simp: within_spent above_def)
  with t show ?decodes by (simp add: decodeBinary_def)
qed

text \<open>The dictionary \<open>{a: true}\<close> in 49 bytes.\<close>

definition sample_bplist :: "byte list" where
  "sample_bplist = str ''bplist00'' @ [0xD1, 1, 2, 0x51, 0x61, 9] @ [8, 11, 13] @ replicate 6 0 @ [1, 1] @
     be_put 8 3 @ be_put 8 0 @ be_put 8 14"

lemma sample_bplist_decodes: "decodeBinary sample_bplist False = Inr (BDict [(str ''a'', BBool True)])"
  by code_simp

theorem decodeBinary_exact_witness:
  "\<exists>p r c b h. plistTable sample_bplist False = Inr (p, r) \<and> r < length (bp_offsets p) \<and>
    denotes p (bp_offsets p ! r) (BDict [(str ''a'', BBool True)]) c b h \<and> c < MaxValues \<and> b \<le> MaxSize \<and> h < MaxDepth"
  using sample_bplist_decodes unfolding decodeBinary_exact .

end
