(* ===== verification/Spec2Isabelle.thy ===== *)
theory Spec2Isabelle
  imports Signature_Props MachO_Props Page_Hash Working_Storage Verified_Signatures Signed_Entitlements Signed_Disk_Images Binary_Graph
begin

text \<open>
  A verification library of go-macos-codesign, a Go implementation of the macOS code signing
  tool. The library models pkg/codesign, the package that parses, signs, strips and verifies
  code; file names below are relative to it.

  The program. A Mach-O file, alone or as a slice of a universal file, carries its signature
  as a SuperBlob at the end of its LINKEDIT segment. Signing (sign.go) measures the signature,
  rewrites the load commands to announce it, hashes the code in pages into a CodeDirectory and
  appends the SuperBlob of directory, requirements, entitlements and CMS signature. Removal
  (remove.go) undoes the announcement. Verification (verify.go) parses an input, recomputes every
  page and special slot digest, and checks the signer's certificate chain and the requirements.
  Inputs are untrusted, and outputs are never assembled in memory: they are plans over borrowed
  sources that are copied through bounded buffers.

  Theories and code.

  \<^item> \<open>Go_Prelude\<close>: the error values of types.go and verification_error.go, \<open>error + 'a\<close> with its bind for
    Go's value-and-error results, byte slices with their bounds panics, encoding/binary, and
    the range check of blob.go. \<open>Samples\<close>: concrete inputs for the witnesses.
  \<^item> \<open>Range_Reader\<close>: the \<open>rangeReader\<close> type of macho.go as the locale \<open>safe_reader\<close>, interpreted on
    \<open>memoryRange\<close>.
  \<^item> \<open>Blob_Format\<close>, \<open>Signature_Props\<close>: blob.go and the digests of hashing.go; signatures, CodeDirectories and
    the SuperBlob writer. Parsing never panics, accepts only well-formed signatures and inverts writing.
  \<^item> \<open>DER_Codec\<close>: the DER writer of entitlements.go and cms.go, and the BER reader of cms_range.go
    and cms_ber.go, which normalises indefinite lengths.
  \<^item> \<open>Certificates\<close>: certificate.go; the conservative policy and the bounded path search.
  \<^item> \<open>Requirements\<close>, \<open>Requirement_Sets\<close>: the compiled form and the evaluation of requirements.go, the
    designated requirement of requirement_text.go, requirement_sign.go and requirement_verify.go.
  \<^item> \<open>Requirement_Scanner\<close>, \<open>Requirement_Parser\<close>, \<open>Requirement_Tokens\<close>: the text form of requirements. What
    the parser of requirements.go uses of text/scanner, strconv, encoding/hex and encoding/asn1, and its
    recursive descent over it. \<open>Requirement_Text\<close>, \<open>Requirement_Set_Text\<close>: the printer of requirement_text.go
    and requirement_metadata.go, and the round trips \<open>parse_text\<close> and \<open>extract_recompile\<close>.
    \<open>Requirement_Results\<close>: what the parser returns on any source. \<open>Default_Requirement\<close>:
    certificate_sign.go, whose generated requirement its signature satisfies.
  \<^item> \<open>Byte_Transfer\<close>: transfer.go and source.go. The locale \<open>content_reader\<close> is io.ReaderAt over fixed
    bytes, \<open>sink\<close> a writer that absorbs a stream; memory buffers, sections and plans are
    their interpretations, and the copy loop is proved once for all of them.
  \<^item> \<open>Output_Plan\<close>: output_plan.go. The predicate \<open>delivers src xs\<close> abstracts a source to its bytes;
    plans and patches are refined to list operations.
  \<^item> \<open>Page_Hash\<close>: the page hashing writers of hashing.go, which see the code in chunks.
  \<^item> \<open>Working_Storage\<close>: working_storage.go and the stages of compression.go as a step relation of
    the operations on the shared scratch pool.
  \<^item> \<open>MachO_Format\<close>, \<open>MachO_Props\<close>: macho.go; \<open>MachO_Rewrite\<close>, \<open>MachO_Universal\<close>: macho_commands.go,
    remove.go and macho_source.go, the rewritten load commands and universal files.
  \<^item> \<open>Signature_Output\<close>: signature_output.go and the sections it writes.
  \<^item> \<open>Signature_Index\<close>, \<open>Index_Map\<close>: signature_index.go, a Patricia tree in sections of the scratch pool.
    The locales \<open>map_index\<close> and \<open>interval_index\<close> state what the parser relies on, a finite map and a
    test for overlapping intervals, and are interpreted on the operations on section bytes.
  \<^item> \<open>Signature_View\<close>, \<open>View_Equiv\<close>: signature_view.go, the parser that keeps ranges of its source
    instead of bytes. It accepts what the owned parser accepts, rejects with its error, and its view
    represents the same signature.
  \<^item> \<open>Entitlement_DER\<close>, \<open>Entitlement_Tree\<close>, \<open>Entitlement_Bounds\<close>, \<open>Entitlement_Report\<close>, \<open>Entitlement_Results\<close>:
    entitlements.go and entitlement_metadata.go; the DER encoder of property list values, the bounded
    reader of untrusted entitlements, the trees both stand for, and the XML and text writers.
  \<^item> \<open>Signature_Report\<close>, \<open>Report_Equiv\<close>, \<open>Signed_Entitlements\<close>: report_view.go and the inspection of
    entitlements and requirement text on owned signatures and on borrowed views, which agree; what is
    signed with entitlements is inspected back.
  \<^item> \<open>Binary_Plist\<close>, \<open>Binary_Bounds\<close>, \<open>Binary_Graph\<close>: binary.go and plist.go of pkg/plist, the decoder of
    binary property lists. The relation \<open>denotes\<close> says what an object graph stands for without limits or
    active objects; the decoder is exact for it within its limits.
  \<^item> \<open>Directory_Layout\<close>: the bytes of a CodeDirectory that the signers of sign.go and dmg.go share: fields
    written into a zeroed header, names, special and page digests; what the parser reads of them.
  \<^item> \<open>MachO_Signing\<close>, \<open>Signed_Images\<close>: sign.go; the signed image is described by
    \<open>signed_image\<close>, and signing succeeds when the image has room for the signature.
  \<^item> \<open>Disk_Image\<close>, \<open>DMG_Signing\<close>, \<open>Signed_Disk_Images\<close>: dmg.go and the file name part of identifier.go; the
    trailer of a disk image, its parser and signer. A signed disk image parses and verifies
    (\<open>signed_disk_image_verifies\<close>), and signing one succeeds when the sizes fit (\<open>signDMG_total\<close>).
  \<^item> \<open>Verification\<close>, \<open>Verified_Signatures\<close>: verify.go with what it calls in file_list.go, report_view.go,
    requirement_verify.go, sideband_verification.go, strict_verification.go and timestamp.go; what an
    accepted input satisfies, and that signed directories verify.

  Data. A struct is a record, a list of bytes stands for []byte and string. A uint32 or uint64
  is a natural number, with \<open>mod 2 ^ 32\<close> or \<open>mod 2 ^ 64\<close> written where the code's arithmetic can
  wrap; int64 offsets are integers, with the code's overflow guards. Index and slice
  expressions that Go checks return \<open>Inl Panic\<close>, so absence of panics is a theorem. Interfaces are
  functions (a reader maps an offset and a length to the bytes delivered and the error), and
  mutable buffers are passed as state.

  Bounds and fuel. Loops over announced counts recurse on the count. The BER reader nests to 34
  levels and the path search to 33 (\<open>berFuel\<close>, \<open>searchFuel\<close>): the code refuses anything
  deeper first, and \<open>cmsEnvelopeDER_terminates\<close> and \<open>search_is_recursive\<close> show that the fuel is never what
  stops them. The index descends with fuel 33 (\<open>indexFuel\<close>): the tested bits grow along a path and there
  are 32 of them, so an index that represents a tree never uses it up (\<open>signature_index_refines_map\<close>).
  The decoders of requirements, entitlements and binary property lists recurse on their depth limits,
  the loops of the requirement parser on the runes left, with an error for a loop that read nothing, which
  \<open>parseRequirement_typed\<close> shows is never returned. The copy and plan loops terminate by a
  measure on what is left; a transfer whose reader makes no progress is refused by the code.

  Parameters. \<open>hash_lib\<close> holds SHA-1, SHA-256 and SHA-384 with their digest sizes; \<open>crypto_lib\<close> the
  signature checks of crypto/rsa and crypto/ecdsa; \<open>unicode\<close>, and \<open>P\<close> for unicode.IsPrint, the tables of
  Unicode above ASCII and Latin-1; \<open>sign_tools\<close> the CMS generator, the entitlement encoder, which
  \<open>Signed_Entitlements\<close> instantiates with the model of entitlements.go, the preparation of an identity and
  the field layout of a disk image's trailer, a structure of a third-party package (\<open>dmg_layout_ok\<close> states
  that it reads back what it writes, \<open>udifLayout\<close> is an instance); \<open>verify_tools\<close> CMS decoding, the side file
  reader and the same layout; \<open>display_lib\<close> the certificates of a CMS signature, for generated requirements; \<open>plist_decoder\<close> the
  property list decoder that entitlements are given to. \<open>refuse\<close> tells which reservations of
  the scratch pool fail. The witnesses instantiate them with concrete functions.

  Findings. A page size of one is accepted for signing and can never verify
  (\<open>page_size_one_unverifiable\<close>); the size of LINKEDIT wraps when the segment starts behind the new end
  (\<open>linkeditSize_wraps\<close>); a chain of 130 or more operands of one operator compiles to a requirement
  that the decoder rejects (\<open>long_chain_undecodable\<close>); and object identifier arcs above \<open>2 ^ 31 - 1\<close>
  compile and do not decode.

  Not modelled. The character set tables and the XML and OpenStep wrappers of pkg/plist, which rest on
  encoding/xml and a third-party decoder; the command line (internal/cli) and the extended attribute
  files (internal/sideband); bundles, path-based operations and file replacement, which rest on the file
  system, with disk images that are signed in files; identity files, CMS and timestamp cryptography and network; the
  visitor protocol of borrowed reports; and the polls of a context's cancellation, which end any
  operation early with the context's error.
\<close>

end
